(* ===== verification/Prelude.thy ===== *)
theory Prelude
  imports Main "HOL-Library.Word"
begin

text \<open>
  Shared vocabulary of the development.

  The program is C, so its integers are words of a fixed width: bytes (\<open>u8\<close>),
  \<open>uint16_t\<close> (\<open>u16\<close>), \<open>unsigned int\<close> and the 32-bit \<open>wchar_t\<close>
  (\<open>u32\<close>) and 64-bit values (\<open>u64\<close>). A character buffer is a list of bytes and a
  pointer into it is the index of a byte. A C string and a string handed out by Lua is followed
  by a NUL byte; \<open>byte_at\<close> is the read of one byte and returns that terminator at (and past)
  the end of the list.

  The lemmas say what the bit operations of the code compute on natural numbers, and let a
  statement about all bytes be decided by evaluating it on the 256 of them.
\<close>

unbundle bit_operations_syntax

type_synonym u8 = "8 word"
type_synonym u16 = "16 word"
type_synonym u32 = "32 word"
type_synonym u64 = "64 word"
type_synonym bytes = "8 word list"

named_theorems nat_bits \<open>bit operations on words and naturals as arithmetic\<close>

definition byte_at :: "bytes \<Rightarrow> nat \<Rightarrow> u8" where
  "byte_at s i = (if i < length s then s ! i else 0)"

lemma byte_at_in [simp]: "i < length s \<Longrightarrow> byte_at s i = s ! i"
  by (simp add: byte_at_def)

lemma byte_at_out [simp]: "length s \<le> i \<Longrightarrow> byte_at s i = 0"
  by (simp add: byte_at_def)

lemma byte_at_append_left: "i < length s \<Longrightarrow> byte_at (s @ t) i = byte_at s i"
  by (simp add: byte_at_def nth_append)

lemma byte_at_append_right: "byte_at (s @ t) (length s + i) = byte_at t i"
  by (simp add: byte_at_def nth_append)

lemma byte_at_drop: "byte_at (drop n s) i = byte_at s (n + i)"
  by (auto simp: byte_at_def)

lemma byte_at_terminated: "i \<le> length s \<Longrightarrow> byte_at (s @ 0 # t) i = byte_at s i"
  by (auto simp: byte_at_def nth_append)

section \<open>Naturals and words\<close>

lemma unat_u8_less [simp]: "unat (c :: u8) < 256"
  using unsigned_less [of c] by simp

lemma unat_u16_less [simp]: "unat (c :: u16) < 65536"
  using unsigned_less [of c] by simp

lemma unat_u32_less [simp]: "unat (c :: u32) < 4294967296"
  using unsigned_less [of c] by simp

lemma all_u8: "(\<forall>c :: u8. P c) \<longleftrightarrow> (\<forall>n \<in> set [0..<256]. P (word_of_nat n))"
proof
  assume a: "\<forall>n \<in> set [0..<256]. P (word_of_nat n)"
  show "\<forall>c :: u8. P c"
  proof
    fix c :: u8
    have "unat c \<in> set [0..<256]" by simp
    then have "P (word_of_nat (unat c))" using a by blast
    then show "P c" by simp
  qed
qed simp

lemma nat_and_mask: "(n :: nat) AND (2 ^ k - 1) = n mod 2 ^ k"
  by (simp add: take_bit_eq_mod [symmetric] take_bit_eq_mask mask_eq_exp_minus_1)

lemma nat_and_numeral_mask [nat_bits]:
  "(n :: nat) AND 63 = n mod 64" "(n :: nat) AND 31 = n mod 32" "(n :: nat) AND 15 = n mod 16"
  "(n :: nat) AND 7 = n mod 8" "(n :: nat) AND 127 = n mod 128" "(n :: nat) AND 255 = n mod 256"
  "(n :: nat) AND 1023 = n mod 1024" "(n :: nat) AND 65535 = n mod 65536"
  using nat_and_mask [of n 6] nat_and_mask [of n 5] nat_and_mask [of n 4] nat_and_mask [of n 3]
    nat_and_mask [of n 7] nat_and_mask [of n 8] nat_and_mask [of n 10] nat_and_mask [of n 16]
  by simp_all

lemma nat_or_disjoint:
  assumes "b < 2 ^ k"
  shows "(a * 2 ^ k) OR b = a * 2 ^ k + (b :: nat)"
proof -
  have b: "take_bit k b = b" using assms by (simp add: take_bit_nat_eq_self_iff)
  have "push_bit k a AND b = 0"
  proof (rule bit_eqI)
    fix n
    show "bit (push_bit k a AND b) n = bit (0 :: nat) n"
      by (subst b [symmetric]) (auto simp: bit_simps)
  qed
  then show ?thesis
    by (simp add: disjunctive_add_eq_or [symmetric] push_bit_eq_mult)
qed

lemma word_or_disjoint: "x AND y = 0 \<Longrightarrow> x OR y = x + (y :: 'a :: len word)"
  by (simp add: disjunctive_add_eq_or)

lemma unat_and [nat_bits]: "unat (x AND y) = unat x AND unat y"
  by (rule unsigned_and_eq)

lemma unat_or [nat_bits]: "unat (x OR y) = unat x OR unat y"
  by (rule unsigned_or_eq)

lemma unat_drop_bit_div [nat_bits]: "unat (drop_bit n x) = unat x div 2 ^ n"
  unfolding unat_drop_bit_eq by (rule drop_bit_eq_div)

lemma unat_push_bit_mod [nat_bits]:
  "unat (push_bit n (x :: 'a :: len word)) = (unat x * 2 ^ n) mod 2 ^ LENGTH('a)"
  unfolding unsigned_push_bit_eq take_bit_eq_mod by (simp add: push_bit_eq_mult)

lemma unat_ucast_mod [nat_bits]:
  "unat (ucast (x :: 'a :: len word) :: 'b :: len word) = unat x mod 2 ^ LENGTH('b)"
  by (simp add: unsigned_ucast_eq take_bit_eq_mod)

lemma unat_ucast_u8 [simp]: "unat (ucast (c :: u8) :: u32) = unat c"
  by (simp add: unat_ucast_mod less_trans [OF unat_u8_less])

lemma unat_ucast_u16 [simp]: "unat (ucast (c :: u16) :: u32) = unat c"
  by (simp add: unat_ucast_mod less_trans [OF unat_u16_less])

lemma unat_u8_mod [simp]: "unat (c :: u8) mod 4294967296 = unat c"
  by (simp add: less_trans [OF unat_u8_less])

lemma bit_unat_odd: "bit (x :: 'a :: len word) n \<longleftrightarrow> odd (unat x div 2 ^ n)"
  using bit_unsigned_iff [of x n, where 'a = nat] by (simp add: bit_iff_odd [of "unat x"])

section \<open>Lists\<close>

lemma drop_nth_Cons: "i < length xs \<Longrightarrow> drop i xs = xs ! i # drop (Suc i) xs"
  by (simp add: Cons_nth_drop_Suc)

lemma take_drop_append: "i \<le> j \<Longrightarrow> take i xs @ take (j - i) (drop i xs) = take j xs"
  by (metis le_add_diff_inverse take_add)

end
