(* ===== verification/Utf8Codec.thy ===== *)
theory Utf8Codec
  imports Prelude
begin

text \<open>
  The UTF-8 codec of \<^verbatim>\<open>luafar/src/lutf8lib.c\<close> (the Lua module \<^verbatim>\<open>utf8\<close>): \<open>utf8_encode\<close>,
  \<open>utf8_decode\<close> and \<open>utf8_invalid\<close>, on 32-bit code points and on byte buffers that end in
  a NUL. Decoding is shown to be exactly the inverse of encoding.
\<close>

section \<open>The code\<close>

definition UTF8_MAX :: u32 where "UTF8_MAX = 0x7FFFFFFF"
definition UTF8_MAXCP :: u32 where "UTF8_MAXCP = 0x10FFFF"

definition iscont :: "bytes \<Rightarrow> nat \<Rightarrow> bool" where
  "iscont s p \<longleftrightarrow> byte_at s p AND 0xC0 = 0x80"

definition utf8_invalid :: "u32 \<Rightarrow> bool" where
  "utf8_invalid ch \<longleftrightarrow> ch > UTF8_MAXCP \<or> (0xD800 \<le> ch \<and> ch \<le> 0xDFFF)"

text \<open>
  \<open>utf8_encode\<close> fills its 8-byte buffer from the back; the list is the part of the buffer that
  has been written, its head the byte written last. The do-while loop emits continuation bytes.
\<close>

function utf8_encode_loop :: "u32 \<Rightarrow> u32 \<Rightarrow> bytes \<Rightarrow> bytes" where
  "utf8_encode_loop x mfb buf =
     (let buf' = ucast (0x80 OR (x AND 0x3f)) # buf;
          x' = drop_bit 6 x;
          mfb' = drop_bit 1 mfb
      in if x' > mfb' then utf8_encode_loop x' mfb' buf'
         else ucast ((push_bit 1 (NOT mfb') OR x') AND 0xFF) # buf')"
  by pat_completeness auto
termination
proof (relation "measure (\<lambda>(x, mfb, buf). unat x)", goal_cases)
  case (2 x mfb buf buf' x' mfb')
  then have "unat x div 64 > unat mfb div 2"
    by (simp only: word_less_nat_alt unat_drop_bit_div) simp
  then have "unat x div 64 > 0" by linarith
  then have "unat x div 64 < unat x" by simp
  then show ?case using 2 by (simp only: in_measure case_prod_conv unat_drop_bit_div) simp
qed simp

declare utf8_encode_loop.simps [simp del]

definition utf8_encode :: "u32 \<Rightarrow> bytes" where
  "utf8_encode x = (if x < 0x80 then [ucast (x AND 0x7F)] else utf8_encode_loop x 0x3f [])"

text \<open>
  The loop of \<open>utf8_decode\<close> shifts the lead byte \<open>c\<close> left as long as its bit 6 is set and
  reads one continuation byte per turn; \<open>None\<close> is the \<^verbatim>\<open>NULL\<close> of a broken sequence.
\<close>

lemma shift_out_decreases:
  fixes c :: u32
  assumes "c AND 0x40 \<noteq> 0"
  shows "unat (push_bit 1 c) mod 128 < unat c mod 128"
proof -
  have "bit c 6"
    using assms and_exp_eq_0_iff_not_bit [of c 6] by simp
  then have "odd (unat c div 64)"
    by (simp add: bit_unat_odd)
  then have "unat c div 64 mod 2 = 1" by (simp add: odd_iff_mod_2_eq_one)
  then have "unat c mod 128 = 64 + unat c mod 64"
    using mod_mult2_eq [of "unat c" 64 2] by simp
  moreover have "unat c * 2 mod 128 = unat c mod 64 * 2"
    using mod_mult_mult2 [of "unat c" 2 64] by simp
  ultimately have "unat c * 2 mod 128 < unat c mod 128" by simp
  moreover have "unat c * 2 mod 4294967296 mod 128 = unat c * 2 mod 128"
    by (simp add: mod_mod_cancel)
  ultimately show ?thesis unfolding unat_push_bit_mod by simp
qed

function utf8_decode_loop :: "bytes \<Rightarrow> nat \<Rightarrow> u32 \<Rightarrow> nat \<Rightarrow> u32 \<Rightarrow> (u32 \<times> nat \<times> u32) option" where
  "utf8_decode_loop s p c count res =
     (if c AND 0x40 \<noteq> 0 then
        let cc = ucast (byte_at s (p + Suc count)) in
        if cc AND 0xC0 \<noteq> 0x80 then None
        else utf8_decode_loop s p (push_bit 1 c) (Suc count) (push_bit 6 res OR (cc AND 0x3F))
      else Some (c, count, res))"
  by pat_completeness auto
termination
  by (relation "measure (\<lambda>(s, p, c, count, res). unat c mod 128)")
    (auto dest: shift_out_decreases simp del: push_bit_Suc)

declare utf8_decode_loop.simps [simp del]

definition utf8_limits :: "u32 list" where
  "utf8_limits = [NOT 0, 0x80, 0x800, 0x10000, 0x200000, 0x4000000]"

definition utf8_decode :: "bytes \<Rightarrow> nat \<Rightarrow> bool \<Rightarrow> (nat \<times> u32) option" where
  "utf8_decode s p strict =
     (let c = ucast (byte_at s p) in
      case
        (if c < 0x80 then Some (p, c)
         else case utf8_decode_loop s p c 0 0 of
             None \<Rightarrow> None
           | Some (c', count, res) \<Rightarrow>
               let res' = res OR push_bit (count * 5) (c' AND 0x7F) in
               if count > 5 \<or> res' > UTF8_MAX \<or> res' < utf8_limits ! count then None
               else Some (p + count, res'))
      of None \<Rightarrow> None
       | Some (q, res) \<Rightarrow>
           if strict \<and> (res > UTF8_MAXCP \<or> (0xD800 \<le> res \<and> res \<le> 0xDFFF)) then None
           else Some (q + 1, res))"

section \<open>Arithmetic of the codec\<close>

text \<open>Number of continuation bytes that the shifts of a lead byte call for.\<close>

definition lead_len :: "nat \<Rightarrow> nat" where
  "lead_len b =
     (if b < 192 then 0 else if b < 224 then 1 else if b < 240 then 2 else if b < 248 then 3
      else if b < 252 then 4 else if b < 254 then 5 else if b < 255 then 6 else 7)"

definition seq_acc :: "nat \<Rightarrow> nat list \<Rightarrow> nat" where
  "seq_acc = foldl (\<lambda>r b. r * 64 + b mod 64)"

definition dec_acc :: "u32 \<Rightarrow> bytes \<Rightarrow> u32" where
  "dec_acc = foldl (\<lambda>r b. push_bit 6 r OR (ucast b AND 0x3F))"

text \<open>Number of continuation bytes of a code point of at least 0x80.\<close>

definition enc_len :: "nat \<Rightarrow> nat" where
  "enc_len x = (if x < 2 ^ 11 then 1 else if x < 2 ^ 16 then 2 else if x < 2 ^ 21 then 3
     else if x < 2 ^ 26 then 4 else 5)"

lemma iscont_iff: "iscont s p \<longleftrightarrow> 128 \<le> unat (byte_at s p) \<and> unat (byte_at s p) < 192"
proof -
  have "\<forall>c :: u8. (c AND 0xC0 = 0x80) = (128 \<le> unat c \<and> unat c < 192)"
    unfolding all_u8 by code_simp
  then show ?thesis by (simp add: iscont_def)
qed

lemma cont_test: "((ucast (c :: u8) :: u32) AND 0xC0 \<noteq> 0x80) \<longleftrightarrow> \<not> (128 \<le> unat c \<and> unat c < 192)"
proof -
  have "\<forall>c :: u8. ((ucast c :: u32) AND 0xC0 \<noteq> 0x80) = (\<not> (128 \<le> unat c \<and> unat c < 192))"
    unfolding all_u8 by code_simp
  then show ?thesis by blast
qed

lemma lead_bit:
  assumes "b < (256 :: nat)"
  shows "128 \<le> b \<Longrightarrow> odd (b div 64) \<longleftrightarrow> 192 \<le> b"
    and "192 \<le> b \<Longrightarrow> odd (b div 32) \<longleftrightarrow> 224 \<le> b"
    and "224 \<le> b \<Longrightarrow> odd (b div 16) \<longleftrightarrow> 240 \<le> b"
    and "240 \<le> b \<Longrightarrow> odd (b div 8) \<longleftrightarrow> 248 \<le> b"
    and "248 \<le> b \<Longrightarrow> odd (b div 4) \<longleftrightarrow> 252 \<le> b"
    and "252 \<le> b \<Longrightarrow> odd (b div 2) \<longleftrightarrow> 254 \<le> b"
    and "254 \<le> b \<Longrightarrow> odd b \<longleftrightarrow> 255 \<le> b"
proof -
  have two: "odd (x :: nat) \<longleftrightarrow> x = 2 * k + 1" if "x = 2 * k \<or> x = 2 * k + 1" for x k
    using that by auto
  show "128 \<le> b \<Longrightarrow> odd (b div 64) \<longleftrightarrow> 192 \<le> b"
    using assms two [of "b div 64" 1] by linarith
  show "192 \<le> b \<Longrightarrow> odd (b div 32) \<longleftrightarrow> 224 \<le> b"
    using assms two [of "b div 32" 3] by linarith
  show "224 \<le> b \<Longrightarrow> odd (b div 16) \<longleftrightarrow> 240 \<le> b"
    using assms two [of "b div 16" 7] by linarith
  show "240 \<le> b \<Longrightarrow> odd (b div 8) \<longleftrightarrow> 248 \<le> b"
    using assms two [of "b div 8" 15] by linarith
  show "248 \<le> b \<Longrightarrow> odd (b div 4) \<longleftrightarrow> 252 \<le> b"
    using assms two [of "b div 4" 31] by linarith
  show "252 \<le> b \<Longrightarrow> odd (b div 2) \<longleftrightarrow> 254 \<le> b"
    using assms two [of "b div 2" 63] by linarith
  show "254 \<le> b \<Longrightarrow> odd b \<longleftrightarrow> 255 \<le> b"
    using assms two [of b 127] by linarith
qed

lemma lead_shifts:
  assumes "128 \<le> unat (c :: u8)" and "i \<le> lead_len (unat c)"
  shows "push_bit i (ucast c :: u32) AND 0x40 \<noteq> 0 \<longleftrightarrow> i < lead_len (unat c)"
proof -
  let ?n = "unat c"
  have "push_bit i (ucast c :: u32) AND 0x40 \<noteq> 0 \<longleftrightarrow> bit (push_bit i (ucast c :: u32)) 6"
    using and_exp_eq_0_iff_not_bit [of "push_bit i (ucast c :: u32)" 6] by simp
  also have "\<dots> \<longleftrightarrow> i \<le> 6 \<and> bit (ucast c :: u32) (6 - i)"
    by (auto simp: bit_push_bit_iff)
  also have "bit (ucast c :: u32) (6 - i) \<longleftrightarrow> odd (?n div 2 ^ (6 - i))"
    by (simp only: bit_unat_odd unat_ucast_mod) (simp add: less_trans [OF unat_u8_less])
  also have "(i \<le> 6 \<and> odd (?n div 2 ^ (6 - i))) \<longleftrightarrow> i < lead_len ?n"
  proof -
    have "?n < 256" by simp
    note bits = lead_bit [OF this]
    consider "i = 0" | "i = 1" "192 \<le> ?n" | "i = 2" "224 \<le> ?n" | "i = 3" "240 \<le> ?n"
      | "i = 4" "248 \<le> ?n" | "i = 5" "252 \<le> ?n" | "i = 6" "254 \<le> ?n" | "i = 7" "255 \<le> ?n"
      using assms(2) unfolding lead_len_def by (auto split: if_splits) linarith+
    then show ?thesis
      using assms(1) bits by cases (simp_all add: lead_len_def)
  qed
  finally show ?thesis .
qed

lemma lead_mods:
  "192 \<le> b \<Longrightarrow> b < 224 \<Longrightarrow> b mod 64 = b - 192 \<and> b mod 32 = b - (192 :: nat)"
  "224 \<le> b \<Longrightarrow> b < 240 \<Longrightarrow> b mod 32 = b - 224 \<and> b mod 16 = b - (224 :: nat)"
  "240 \<le> b \<Longrightarrow> b < 248 \<Longrightarrow> b mod 16 = b - 240 \<and> b mod 8 = b - (240 :: nat)"
  "248 \<le> b \<Longrightarrow> b < 252 \<Longrightarrow> b mod 8 = b - 248 \<and> b mod 4 = b - (248 :: nat)"
  "252 \<le> b \<Longrightarrow> b < 254 \<Longrightarrow> b mod 4 = b - 252 \<and> b mod 2 = b - (252 :: nat)"
  "128 \<le> b \<Longrightarrow> b < 192 \<Longrightarrow> b mod 128 = b - 128 \<and> b mod 64 = b - (128 :: nat)"
proof -
  have m: "b mod m = b - k * m" if "k * m \<le> b" "b < k * m + m" for m k :: nat
  proof -
    have "b = (b - k * m) + k * m" and "b - k * m < m" using that by linarith+
    then show ?thesis by (metis mod_less mod_mult_self1)
  qed
  show "192 \<le> b \<Longrightarrow> b < 224 \<Longrightarrow> b mod 64 = b - 192 \<and> b mod 32 = b - (192 :: nat)"
    using m [of 3 64] m [of 6 32] by simp
  show "224 \<le> b \<Longrightarrow> b < 240 \<Longrightarrow> b mod 32 = b - 224 \<and> b mod 16 = b - (224 :: nat)"
    using m [of 7 32] m [of 14 16] by simp
  show "240 \<le> b \<Longrightarrow> b < 248 \<Longrightarrow> b mod 16 = b - 240 \<and> b mod 8 = b - (240 :: nat)"
    using m [of 15 16] m [of 30 8] by simp
  show "248 \<le> b \<Longrightarrow> b < 252 \<Longrightarrow> b mod 8 = b - 248 \<and> b mod 4 = b - (248 :: nat)"
    using m [of 31 8] m [of 62 4] by simp
  show "252 \<le> b \<Longrightarrow> b < 254 \<Longrightarrow> b mod 4 = b - 252 \<and> b mod 2 = b - (252 :: nat)"
    using m [of 63 4] m [of 126 2] by simp
  show "128 \<le> b \<Longrightarrow> b < 192 \<Longrightarrow> b mod 128 = b - 128 \<and> b mod 64 = b - (128 :: nat)"
    using m [of 1 128] m [of 2 64] by simp
qed

lemma lead_payload:
  assumes "128 \<le> unat (c :: u8)" and "lead_len (unat c) = n" and "n \<le> 5"
  shows "unat (push_bit (n * 5) (push_bit n (ucast c :: u32) AND 0x7F)) = (unat c mod 2 ^ (6 - n)) * 64 ^ n"
proof -
  define q where "q = unat c mod 2 ^ (6 - n)"
  have "unat (push_bit n (ucast c :: u32) AND 0x7F) = unat c * 2 ^ n mod 4294967296 mod 128"
    by (simp add: nat_bits less_trans [OF unat_u8_less])
  also have "\<dots> = unat c * 2 ^ n mod 128"
    by (simp add: mod_mod_cancel)
  also have "\<dots> = unat c * 2 ^ n mod (2 ^ (7 - n) * 2 ^ n)"
    using assms(3) by (simp flip: power_add)
  also have "\<dots> = unat c mod 2 ^ (7 - n) * 2 ^ n"
    by (rule mod_mult_mult2)
  also have "unat c mod 2 ^ (7 - n) = q"
  proof -
    consider "n = 0" "unat c < 192" | "n = 1" "192 \<le> unat c" "unat c < 224"
      | "n = 2" "224 \<le> unat c" "unat c < 240" | "n = 3" "240 \<le> unat c" "unat c < 248"
      | "n = 4" "248 \<le> unat c" "unat c < 252" | "n = 5" "252 \<le> unat c" "unat c < 254"
      using assms(2,3) unfolding lead_len_def by (auto split: if_splits)
    then show ?thesis
      using assms(1) lead_mods [of "unat c"] unfolding q_def by cases simp_all
  qed
  finally have v: "unat (push_bit n (ucast c :: u32) AND 0x7F) = q * 2 ^ n" .
  have "q < 2 ^ (6 - n)" by (simp add: q_def)
  then have "q * 2 ^ n * 2 ^ (n * 5) < 2 ^ (6 - n) * 2 ^ n * 2 ^ (n * 5)" by simp
  also have "\<dots> = 2 ^ (6 - n + n + n * 5)"
    by (simp only: power_add)
  also have "\<dots> \<le> 2 ^ 31"
    using assms(3) by (intro power_increasing) auto
  finally have "q * 2 ^ n * 2 ^ (n * 5) < 2 ^ LENGTH(32)" by simp
  moreover have "q * 2 ^ n * 2 ^ (n * 5) = q * 64 ^ n"
  proof -
    have "2 ^ n * 2 ^ (n * 5) = (2 :: nat) ^ (6 * n)" by (simp flip: power_add)
    also have "\<dots> = 64 ^ n" by (simp add: power_mult)
    finally show ?thesis by (simp add: mult.assoc)
  qed
  ultimately show ?thesis
    unfolding unat_push_bit_mod v q_def [symmetric] by (metis mod_less)
qed

lemma lead_byte_value:
  assumes "192 \<le> b" and "b < 254"
  shows "256 - 2 ^ (7 - lead_len b) + b mod 2 ^ (6 - lead_len b) = b"
proof -
  consider "b < 224" | "224 \<le> b" "b < 240" | "240 \<le> b" "b < 248" | "248 \<le> b" "b < 252" | "252 \<le> b"
    by linarith
  then show ?thesis
    using assms lead_mods [of b] by cases (simp_all add: lead_len_def)
qed

lemma lead_len_byte:
  assumes "1 \<le> n" and "n \<le> 5" and "q < 2 ^ (6 - n)"
  shows "lead_len (256 - 2 ^ (7 - n) + q) = n" and "192 \<le> 256 - 2 ^ (7 - n) + q"
    and "256 - 2 ^ (7 - n) + q < 254" and "(256 - 2 ^ (7 - n) + q) mod 2 ^ (6 - n) = q"
proof -
  let ?b = "256 - 2 ^ (7 - n) + q"
  consider "n = 1" | "n = 2" | "n = 3" | "n = 4" | "n = 5" using assms(1,2) by linarith
  then have *: "lead_len ?b = n \<and> 192 \<le> ?b \<and> ?b < 254"
    using assms(3) by cases (simp_all add: lead_len_def)
  with lead_byte_value [of ?b] have "?b mod 2 ^ (6 - n) = q" by simp
  with * show "lead_len ?b = n" and "192 \<le> ?b" and "?b < 254" and "?b mod 2 ^ (6 - n) = q"
    by blast+
qed

lemma seq_acc_bound: "r < 64 ^ k \<Longrightarrow> seq_acc r bs < 64 ^ (k + length bs)"
proof (induction bs arbitrary: r k)
  case (Cons b bs)
  have "r * 64 + b mod 64 < (r + 1) * 64" by simp
  also have "\<dots> \<le> 64 ^ k * 64" using Cons.prems by (intro mult_le_mono1) simp
  finally have "r * 64 + b mod 64 < 64 ^ Suc k" by (simp add: mult.commute)
  from Cons.IH [OF this] show ?case by (simp add: seq_acc_def)
qed (simp add: seq_acc_def)

lemma seq_acc_snoc: "seq_acc r (bs @ [b]) = seq_acc r bs * 64 + b mod 64"
  by (simp add: seq_acc_def)

lemma seq_acc_shift: "seq_acc r bs = r * 64 ^ length bs + seq_acc 0 bs"
proof (induction bs rule: rev_induct)
  case (snoc b bs)
  then show ?case by (simp add: seq_acc_snoc)
qed (simp add: seq_acc_def)

lemma seq_acc_div: "seq_acc r bs div 64 ^ length bs = r"
proof -
  have "seq_acc 0 bs < 64 ^ (0 + length bs)" by (rule seq_acc_bound) simp
  then show ?thesis by (subst seq_acc_shift) simp
qed

lemma seq_acc_digit:
  "i < length bs \<Longrightarrow> seq_acc r bs div 64 ^ (length bs - Suc i) mod 64 = bs ! i mod 64"
proof (induction bs rule: rev_induct)
  case (snoc b bs)
  show ?case
  proof (cases "i = length bs")
    case True
    then show ?thesis by (simp add: seq_acc_snoc)
  next
    case False
    with snoc.prems have i: "i < length bs" by simp
    then have "length (bs @ [b]) - Suc i = Suc (length bs - Suc i)" by simp
    then show ?thesis
      using snoc.IH [OF i] i by (simp add: seq_acc_snoc div_mult2_eq nth_append)
  qed
qed simp

lemma seq_acc_digits: "seq_acc r (map (\<lambda>i. 128 + x div 64 ^ i mod 64) (rev [0..<n])) = r * 64 ^ n + x mod 64 ^ n"
proof (induction n arbitrary: r)
  case (Suc n)
  have "x mod (64 ^ n * 64) = 64 ^ n * (x div 64 ^ n mod 64) + x mod 64 ^ n"
    by (rule mod_mult2_eq)
  moreover have "(128 + m mod 64) mod 64 = m mod 64" for m :: nat
    using mod_add_left_eq [of 128 64 "m mod 64"] by simp
  ultimately show ?case
    using Suc [of "r * 64 + x div 64 ^ n mod 64"]
    by (simp add: seq_acc_def distrib_right distrib_left mult_ac)
qed (simp add: seq_acc_def)

lemma unat_dec_acc:
  "length bs \<le> 5 \<Longrightarrow> unat (dec_acc 0 bs) = seq_acc 0 (map unat bs)"
proof (induction bs rule: rev_induct)
  case (snoc b bs)
  define r where "r = dec_acc 0 bs"
  have r: "unat r = seq_acc 0 (map unat bs)" using snoc by (simp add: r_def)
  have "seq_acc 0 (map unat bs) < 64 ^ (0 + length (map unat bs))"
    by (rule seq_acc_bound) simp
  also have "\<dots> \<le> 64 ^ 4" using snoc.prems by (intro power_increasing) auto
  finally have lt: "unat r < 16777216" by (simp add: r)
  have "dec_acc 0 (bs @ [b]) = push_bit 6 r OR (ucast b AND 0x3F)"
    by (simp add: dec_acc_def r_def)
  then have "unat (dec_acc 0 (bs @ [b])) = (unat r * 2 ^ 6 mod 2 ^ 32) OR ((unat b mod 2 ^ 32) AND 63)"
    by (simp only: nat_bits) (simp add: nat_bits)
  also have "\<dots> = unat r * 2 ^ 6 OR unat b mod 64"
    using lt by (simp add: nat_bits less_trans [OF unat_u8_less])
  also have "\<dots> = unat r * 64 + unat b mod 64"
    using nat_or_disjoint [of "unat b mod 64" 6 "unat r"] by simp
  finally show ?case by (simp add: r seq_acc_snoc)
qed (simp add: dec_acc_def seq_acc_def)


section \<open>Decoding\<close>

definition cont_run :: "bytes \<Rightarrow> nat \<Rightarrow> nat \<Rightarrow> bytes" where
  "cont_run s p n = map (\<lambda>i. byte_at s (p + Suc i)) [0..<n]"

definition is_cont :: "u8 \<Rightarrow> bool" where
  "is_cont c \<longleftrightarrow> 128 \<le> unat c \<and> unat c < 192"

lemma dec_acc_cont_run_Suc:
  "dec_acc 0 (cont_run s p (Suc j)) =
     push_bit 6 (dec_acc 0 (cont_run s p j)) OR (ucast (byte_at s (p + Suc j)) AND 0x3F)"
  by (simp add: dec_acc_def cont_run_def)

lemma decode_loop_run:
  assumes "128 \<le> unat (c :: u8)" and "j \<le> lead_len (unat c)"
    and "\<forall>i < j. is_cont (byte_at s (p + Suc i))"
  shows "utf8_decode_loop s p (ucast c) 0 0 =
    utf8_decode_loop s p (push_bit j (ucast c)) j (dec_acc 0 (cont_run s p j))"
  using assms
proof (induction j)
  case (Suc j)
  then have run: "utf8_decode_loop s p (ucast c) 0 0 =
      utf8_decode_loop s p (push_bit j (ucast c)) j (dec_acc 0 (cont_run s p j))" by simp
  have "push_bit j (ucast c :: u32) AND 0x40 \<noteq> 0"
    using Suc.prems by (subst lead_shifts) simp_all
  moreover have "(ucast (byte_at s (p + Suc j)) :: u32) AND 0xC0 = 0x80"
    using Suc.prems(3) cont_test [of "byte_at s (p + Suc j)"] by (auto simp: is_cont_def)
  moreover have "push_bit 1 (push_bit j (ucast c :: u32)) = push_bit (Suc j) (ucast c)"
    by (simp only: push_bit_push_bit) simp
  ultimately show ?case
    unfolding run dec_acc_cont_run_Suc
    by (subst utf8_decode_loop.simps) (simp add: Let_def del: push_bit_Suc)
qed (simp add: dec_acc_def cont_run_def)

lemma decode_loop_result:
  assumes "128 \<le> unat (c :: u8)" and "n = lead_len (unat c)"
  shows "utf8_decode_loop s p (ucast c) 0 0 =
    (if \<forall>i < n. is_cont (byte_at s (p + Suc i))
     then Some (push_bit n (ucast c), n, dec_acc 0 (cont_run s p n)) else None)"
proof (cases "\<forall>i < n. is_cont (byte_at s (p + Suc i))")
  case True
  have "push_bit n (ucast c :: u32) AND 0x40 = 0"
    using lead_shifts [OF assms(1), of n] assms(2) by simp
  then have "utf8_decode_loop s p (push_bit n (ucast c)) n (dec_acc 0 (cont_run s p n)) =
      Some (push_bit n (ucast c), n, dec_acc 0 (cont_run s p n))"
    by (subst utf8_decode_loop.simps) (simp only: if_False not_True_eq_False simp_thms)
  with decode_loop_run [OF assms(1) _ True] assms(2) True show ?thesis by (simp only: if_True) simp
next
  case False
  define i where "i = (LEAST i. i < n \<and> \<not> is_cont (byte_at s (p + Suc i)))"
  from False have "\<exists>i. i < n \<and> \<not> is_cont (byte_at s (p + Suc i))" by blast
  then have i: "i < n \<and> \<not> is_cont (byte_at s (p + Suc i))"
    unfolding i_def by (rule LeastI_ex)
  have before: "\<forall>j < i. is_cont (byte_at s (p + Suc j))"
  proof (intro allI impI)
    fix j assume "j < i"
    with not_less_Least [OF this [unfolded i_def]] i show "is_cont (byte_at s (p + Suc j))" by auto
  qed
  have "push_bit i (ucast c :: u32) AND 0x40 \<noteq> 0"
    using i assms by (subst lead_shifts) simp_all
  moreover have "(ucast (byte_at s (p + Suc i)) :: u32) AND 0xC0 \<noteq> 0x80"
    using i cont_test [of "byte_at s (p + Suc i)"] by (auto simp: is_cont_def)
  ultimately have "utf8_decode_loop s p (push_bit i (ucast c)) i (dec_acc 0 (cont_run s p i)) = None"
    by (subst utf8_decode_loop.simps) (simp add: Let_def)
  with decode_loop_run [OF assms(1) _ before] i assms(2) False show ?thesis by auto
qed

definition seq_value :: "bytes \<Rightarrow> nat \<Rightarrow> nat" where
  "seq_value s p =
     (let b = unat (byte_at s p); n = lead_len b
      in seq_acc (b mod 2 ^ (6 - n)) (map unat (cont_run s p n)))"

definition min_of_len :: "nat \<Rightarrow> nat" where
  "min_of_len n = (if n = 1 then 2 ^ 7 else 2 ^ (5 * n + 1))"

lemma seq_value_bound:
  assumes "lead_len (unat (byte_at s p)) = n" and "n \<le> 5"
  shows "seq_value s p < 2 ^ (5 * n + 6)"
proof -
  define q where "q = unat (byte_at s p) mod 2 ^ (6 - n)"
  have "seq_value s p = seq_acc q (map unat (cont_run s p n))"
    using assms(1) by (simp add: seq_value_def q_def Let_def)
  also have "\<dots> = q * 64 ^ n + seq_acc 0 (map unat (cont_run s p n))"
    by (subst seq_acc_shift) (simp add: cont_run_def)
  also have "seq_acc 0 (map unat (cont_run s p n)) < 64 ^ n"
    using seq_acc_bound [of 0 0 "map unat (cont_run s p n)"] by (simp add: cont_run_def)
  also have "q * 64 ^ n + 64 ^ n = (q + 1) * 64 ^ n" by simp
  also have "\<dots> \<le> 2 ^ (6 - n) * 64 ^ n"
    by (intro mult_le_mono1) (simp add: q_def Suc_le_eq)
  also have "\<dots> = 2 ^ (6 - n) * 2 ^ (6 * n)"
    by (simp add: power_mult)
  also have "\<dots> = 2 ^ (5 * n + 6)"
    using assms(2) by (simp flip: power_add)
  finally show ?thesis by simp
qed

lemma decode_result_value:
  assumes "128 \<le> unat (byte_at s p)" and "lead_len (unat (byte_at s p)) = n" and "n \<le> 5"
  shows "unat (dec_acc 0 (cont_run s p n) OR
      push_bit (n * 5) (push_bit n (ucast (byte_at s p)) AND 0x7F)) = seq_value s p"
proof -
  define q where "q = unat (byte_at s p) mod 2 ^ (6 - n)"
  have len: "length (cont_run s p n) = n" by (simp add: cont_run_def)
  have d: "unat (dec_acc 0 (cont_run s p n)) = seq_acc 0 (map unat (cont_run s p n))"
    using assms(3) len by (intro unat_dec_acc) simp
  have "seq_acc 0 (map unat (cont_run s p n)) < 2 ^ (6 * n)"
    using seq_acc_bound [of 0 0 "map unat (cont_run s p n)"] len by (simp add: power_mult)
  from nat_or_disjoint [OF this, of q]
  have "q * 64 ^ n OR seq_acc 0 (map unat (cont_run s p n)) =
      q * 64 ^ n + seq_acc 0 (map unat (cont_run s p n))"
    by (simp add: power_mult)
  also have "\<dots> = seq_acc q (map unat (cont_run s p n))"
    by (subst (2) seq_acc_shift) (simp add: len)
  also have "\<dots> = seq_value s p"
    using assms(2) by (simp add: seq_value_def q_def Let_def)
  finally show ?thesis
    by (simp only: unat_or d lead_payload [OF assms] q_def [symmetric])
      (simp add: or.commute)
qed

lemma utf8_limits_value:
  "1 \<le> n \<Longrightarrow> n \<le> 5 \<Longrightarrow> unat (utf8_limits ! n) = min_of_len n"
  "unat (utf8_limits ! 0) = 2 ^ 32 - 1"
proof -
  show "unat (utf8_limits ! 0) = 2 ^ 32 - 1"
    by (simp add: utf8_limits_def unsigned_minus_1_eq_mask mask_eq_exp_minus_1)
  assume "1 \<le> n" "n \<le> 5"
  then consider "n = 1" | "n = 2" | "n = 3" | "n = 4" | "n = 5" by linarith
  then show "unat (utf8_limits ! n) = min_of_len n"
    by cases (simp_all add: utf8_limits_def min_of_len_def)
qed

text \<open>What a decoded sequence is, on natural numbers.\<close>

lemma utf8_decode_ascii:
  assumes "unat (byte_at s p) < 128"
  shows "utf8_decode s p strict = Some (p + 1, ucast (byte_at s p))"
proof -
  have lt: "(ucast (byte_at s p) :: u32) < 0x80"
    using assms by (simp add: word_less_nat_alt)
  have "\<not> UTF8_MAXCP < (ucast (byte_at s p) :: u32)" "\<not> 0xD800 \<le> (ucast (byte_at s p) :: u32)"
    using assms by (simp_all add: UTF8_MAXCP_def word_less_nat_alt word_le_nat_alt)
  with lt show ?thesis by (simp add: utf8_decode_def Let_def)
qed

lemma utf8_decode_lead:
  assumes "128 \<le> unat (byte_at s p)" and "n = lead_len (unat (byte_at s p))"
  shows "utf8_decode s p strict = Some (q, v) \<longleftrightarrow>
    1 \<le> n \<and> n \<le> 5 \<and> (\<forall>i < n. is_cont (byte_at s (p + Suc i))) \<and> unat v = seq_value s p \<and>
    min_of_len n \<le> unat v \<and> (strict \<longrightarrow> \<not> utf8_invalid v) \<and> q = p + Suc n"
proof -
  have big: "\<not> (ucast (byte_at s p) :: u32) < 0x80"
    using assms(1) by (simp add: word_less_nat_alt)
  note loop = decode_loop_result [OF assms]
  define res where "res = dec_acc 0 (cont_run s p n) OR push_bit (n * 5) (push_bit n (ucast (byte_at s p)) AND 0x7F)"
  show ?thesis
  proof (cases "(\<forall>i < n. is_cont (byte_at s (p + Suc i))) \<and> n \<le> 5")
    case False
    then show ?thesis
      using big loop [of s p] by (auto simp: utf8_decode_def Let_def split: if_splits option.splits)
  next
    case True
    have val: "unat res = seq_value s p"
      unfolding res_def using True assms by (intro decode_result_value) simp_all
    have bnd: "seq_value s p < 2 ^ (5 * n + 6)"
      using True assms by (intro seq_value_bound) simp_all
    also have "\<dots> \<le> 2 ^ 31" using True by (intro power_increasing) auto
    finally have max: "\<not> UTF8_MAX < res"
      by (simp add: word_less_nat_alt val UTF8_MAX_def)
    have lim: "res < utf8_limits ! n \<longleftrightarrow> \<not> (1 \<le> n \<and> min_of_len n \<le> seq_value s p)"
    proof (cases "n = 0")
      case True
      with bnd show ?thesis by (simp add: word_less_nat_alt val utf8_limits_value [simplified])
    next
      case False
      with True show ?thesis
        using utf8_limits_value(1) [of n] by (auto simp: word_less_nat_alt val)
    qed
    have veq: "unat v = seq_value s p \<longleftrightarrow> v = res"
      by (metis val unsigned_word_eqI)
    have dec: "utf8_decode s p strict =
      (if res < utf8_limits ! n then None
       else if strict \<and> utf8_invalid res then None else Some (p + n + 1, res))"
      using big loop [of s p] True max
      by (auto simp: utf8_decode_def utf8_invalid_def Let_def res_def)
    show ?thesis
      unfolding dec veq lim using True val by auto
  qed
qed

section \<open>Encoding\<close>

lemma enc_len_cases:
  "1 \<le> enc_len x \<and> enc_len x \<le> 5"
  "x < 2 ^ 31 \<Longrightarrow> x < 2 ^ (5 * enc_len x + 6)"
  "128 \<le> x \<Longrightarrow> min_of_len (enc_len x) \<le> x"
  by (auto simp: enc_len_def min_of_len_def)

lemma enc_len_unique:
  assumes "1 \<le> n" and "n \<le> 5" and "min_of_len n \<le> x" and "x < 2 ^ (5 * n + 6)"
  shows "enc_len x = n" and "128 \<le> x"
proof -
  consider "n = 1" | "n = 2" | "n = 3" | "n = 4" | "n = 5" using assms(1,2) by linarith
  then have "enc_len x = n \<and> 128 \<le> x"
    using assms(3,4) by cases (simp_all add: enc_len_def min_of_len_def)
  then show "enc_len x = n" and "128 \<le> x" by blast+
qed

lemma enc_len_step: "x < 2 ^ 31 \<Longrightarrow> i < 5 \<Longrightarrow> i + 1 < enc_len x \<longleftrightarrow> x div 64 ^ Suc i > 63 div 2 ^ Suc i"
proof -
  have d: "x div k > c \<longleftrightarrow> (c + 1) * k \<le> x" if "0 < k" for k c :: nat
    using less_eq_div_iff_mult_less_eq [OF that, of "c + 1" x] by linarith
  assume "x < 2 ^ 31" and "i < 5"
  then consider "i = 0" | "i = 1" | "i = 2" | "i = 3" | "i = 4" by linarith
  then show ?thesis using \<open>x < 2 ^ 31\<close> by cases (simp_all add: d enc_len_def)
qed

definition enc_cont :: "u32 \<Rightarrow> nat \<Rightarrow> u8" where
  "enc_cont x i = ucast (0x80 OR (drop_bit (6 * i) x AND 0x3f))"

lemma unat_enc_cont: "unat (enc_cont x i) = 128 + unat x div 64 ^ i mod 64"
proof -
  define m where "m = unat x div 64 ^ i mod 64"
  have "m < 64" by (simp add: m_def)
  have "unat (enc_cont x i) = (128 OR m) mod 256"
    by (simp add: enc_cont_def nat_bits m_def power_mult)
  also have "128 OR m = 128 + m"
    using nat_or_disjoint [of m 6 2] \<open>m < 64\<close> by simp
  finally show ?thesis using \<open>m < 64\<close> by (simp add: m_def [symmetric])
qed

lemma encode_loop_run:
  assumes "j < enc_len (unat x)" and "unat x < 2 ^ 31"
  shows "utf8_encode_loop x 0x3f [] =
    utf8_encode_loop (drop_bit (6 * j) x) (drop_bit j 0x3f) (map (enc_cont x) (rev [0..<j]))"
  using assms
proof (induction j)
  case (Suc j)
  have "j < 5" using Suc.prems enc_len_cases(1) [of "unat x"] by linarith
  then have "unat x div 64 ^ Suc j > 63 div 2 ^ Suc j"
    using enc_len_step [OF Suc.prems(2), of j] Suc.prems(1) by simp
  moreover have "(2 :: nat) ^ (6 * j) = 64 ^ j" by (simp add: power_mult)
  ultimately have "drop_bit 6 (drop_bit (6 * j) x) > drop_bit 1 (drop_bit j (0x3f :: u32))"
    by (simp only: word_less_nat_alt nat_bits) (simp add: div_mult2_eq [symmetric] mult.commute)
  moreover have "drop_bit 6 (drop_bit (6 * j) x) = drop_bit (6 * Suc j) x"
    by (simp only: drop_bit_drop_bit) (simp add: add.commute)
  moreover have "drop_bit 1 (drop_bit j (0x3f :: u32)) = drop_bit (Suc j) 0x3f"
    by (simp only: drop_bit_drop_bit) simp
  moreover have "map (enc_cont x) (rev [0..<Suc j]) =
      ucast (0x80 OR (drop_bit (6 * j) x AND 0x3f)) # map (enc_cont x) (rev [0..<j])"
    by (simp add: enc_cont_def)
  ultimately have "utf8_encode_loop (drop_bit (6 * j) x) (drop_bit j 0x3f) (map (enc_cont x) (rev [0..<j]))
      = utf8_encode_loop (drop_bit (6 * Suc j) x) (drop_bit (Suc j) 0x3f) (map (enc_cont x) (rev [0..<Suc j]))"
    by (subst utf8_encode_loop.simps) (simp only: Let_def if_True)
  with Suc show ?case by simp
qed simp

lemma encode_lead_byte:
  assumes "1 \<le> n" and "n \<le> 5" and "unat y < 2 ^ (6 - n)"
  shows "unat (ucast ((push_bit 1 (NOT (drop_bit n (0x3f :: u32))) OR y) AND 0xFF) :: u8)
    = 256 - 2 ^ (7 - n) + unat y"
proof -
  have v: "unat (ucast ((a OR y) AND 0xFF) :: u8) = h * 2 ^ k + unat y"
    if "unat (a AND 0xFF) = h * 2 ^ k" "k \<le> 5" "unat y < 2 ^ k" "h * 2 ^ k + 2 ^ k \<le> 256" for a :: u32 and h k
  proof -
    have "unat y < 2 ^ 5" using that(2,3) by (meson less_le_trans one_le_numeral power_increasing)
    then have "unat (y AND 0xFF) = unat y" by (simp add: nat_bits)
    then have "unat ((a OR y) AND 0xFF) = h * 2 ^ k OR unat y"
      using that(1) by (simp add: bit.conj_disj_distrib2 unat_or)
    also have "\<dots> = h * 2 ^ k + unat y"
      using that(3) by (rule nat_or_disjoint)
    finally show ?thesis using that(3,4) by (simp add: nat_bits)
  qed
  consider "n = 1" | "n = 2" | "n = 3" | "n = 4" | "n = 5" using assms(1,2) by linarith
  then show ?thesis
  proof cases
    case 1
    with assms(3) show ?thesis using v [of "push_bit 1 (NOT (drop_bit n 0x3f))" 6 5] by simp
  next
    case 2
    with assms(3) show ?thesis using v [of "push_bit 1 (NOT (drop_bit n 0x3f))" 14 4] by simp
  next
    case 3
    with assms(3) show ?thesis using v [of "push_bit 1 (NOT (drop_bit n 0x3f))" 30 3] by simp
  next
    case 4
    with assms(3) show ?thesis using v [of "push_bit 1 (NOT (drop_bit n 0x3f))" 62 2] by simp
  next
    case 5
    with assms(3) show ?thesis using v [of "push_bit 1 (NOT (drop_bit n 0x3f))" 126 1] by simp
  qed
qed

lemma utf8_encode_bytes:
  assumes "unat x < 2 ^ 31"
  shows "map unat (utf8_encode x) =
    (if unat x < 128 then [unat x]
     else let n = enc_len (unat x) in (256 - 2 ^ (7 - n) + unat x div 64 ^ n)
       # map (\<lambda>i. 128 + unat x div 64 ^ i mod 64) (rev [0..<n]))"
proof (cases "unat x < 128")
  case True
  then show ?thesis by (simp add: utf8_encode_def word_less_nat_alt nat_bits)
next
  case False
  define n where "n = enc_len (unat x)"
  note n = enc_len_cases(1) [of "unat x", folded n_def]
  obtain j where j: "n = Suc j" using n by (cases n) auto
  have "unat x < 2 ^ (5 * n + 6)" using enc_len_cases(2) [OF assms] by (simp add: n_def)
  also have "(2 :: nat) ^ (5 * n + 6) = 2 ^ (6 - n) * 64 ^ n"
  proof -
    have "(2 :: nat) ^ (6 - n) * 2 ^ (6 * n) = 2 ^ (5 * n + 6)" using n by (simp flip: power_add)
    then show ?thesis by (simp add: power_mult)
  qed
  finally have q: "unat x div 64 ^ n < 2 ^ (6 - n)" by (simp add: less_mult_imp_div_less)
  have stop: "\<not> unat x div 64 ^ Suc j > 63 div 2 ^ Suc j"
    using enc_len_step [OF assms, of j] n by (simp add: n_def [symmetric] j)
  have x': "drop_bit 6 (drop_bit (6 * j) x) = drop_bit (6 * n) x"
    by (simp only: drop_bit_drop_bit j) (simp add: add.commute)
  have m': "drop_bit 1 (drop_bit j (0x3f :: u32)) = drop_bit n 0x3f"
    by (simp only: drop_bit_drop_bit j) simp
  have nogo: "\<not> drop_bit (6 * n) x > drop_bit n (0x3f :: u32)"
    using stop by (simp only: word_less_nat_alt nat_bits j [symmetric]) (simp add: power_mult)
  have "utf8_encode_loop x 0x3f [] =
      utf8_encode_loop (drop_bit (6 * j) x) (drop_bit j 0x3f) (map (enc_cont x) (rev [0..<j]))"
    using assms by (intro encode_loop_run) (simp_all add: n_def [symmetric] j)
  also have "\<dots> = ucast ((push_bit 1 (NOT (drop_bit n 0x3f)) OR drop_bit (6 * n) x) AND 0xFF)
      # map (enc_cont x) (rev [0..<n])"
    using nogo by (subst utf8_encode_loop.simps) (simp only: Let_def x' m' if_False, simp add: j enc_cont_def)
  finally have e: "utf8_encode x = \<dots>"
    using False by (simp add: utf8_encode_def word_less_nat_alt)
  have "unat (drop_bit (6 * n) x) = unat x div 64 ^ n" by (simp add: nat_bits power_mult)
  with encode_lead_byte [of n "drop_bit (6 * n) x"] n q
  have lead: "unat (ucast ((push_bit 1 (NOT (drop_bit n (0x3f :: u32))) OR drop_bit (6 * n) x) AND 0xFF) :: u8)
      = 256 - 2 ^ (7 - n) + unat x div 64 ^ n" by simp
  show ?thesis
    unfolding e using False lead by (simp add: n_def [symmetric] Let_def unat_enc_cont rev_map [symmetric] comp_def)
qed

section \<open>The codec as a whole\<close>

definition bytes_at :: "bytes \<Rightarrow> nat \<Rightarrow> bytes \<Rightarrow> bool" where
  "bytes_at s p w \<longleftrightarrow> (\<forall>i < length w. byte_at s (p + i) = w ! i)"

lemma utf8_encode_ascii: "unat x < 128 \<Longrightarrow> utf8_encode x = [ucast x]"
proof -
  assume a: "unat x < 128"
  then have "unat x mod 256 = unat x" "unat x mod 128 = unat x" by simp_all
  then have "(ucast (x AND 0x7F) :: u8) = ucast x"
    by (intro word_unat_eq_iff [THEN iffD2]) (simp add: nat_bits)
  with a show ?thesis by (simp add: utf8_encode_def word_less_nat_alt)
qed

lemma utf8_encode_length:
  "unat x < 2 ^ 31 \<Longrightarrow> length (utf8_encode x) = (if unat x < 128 then 1 else Suc (enc_len (unat x)))"
  by (subst length_map [of unat, symmetric]) (simp add: utf8_encode_bytes Let_def)

lemma bytes_at_lead:
  assumes "unat v < 2 ^ 31" and "128 \<le> unat v" and "n = enc_len (unat v)"
  shows "bytes_at s p (utf8_encode v) \<longleftrightarrow>
    unat (byte_at s p) = 256 - 2 ^ (7 - n) + unat v div 64 ^ n \<and>
    (\<forall>i < n. unat (byte_at s (p + Suc i)) = 128 + unat v div 64 ^ (n - Suc i) mod 64)"
proof -
  have len: "length (utf8_encode v) = Suc n"
    using assms by (simp add: utf8_encode_length)
  have nth: "utf8_encode v ! i = c \<longleftrightarrow> unat c = map unat (utf8_encode v) ! i" if "i < Suc n" for i c
    using that len by (auto simp: word_unat_eq_iff)
  have "bytes_at s p (utf8_encode v) \<longleftrightarrow>
      (\<forall>i < Suc n. unat (byte_at s (p + i)) = map unat (utf8_encode v) ! i)"
    unfolding bytes_at_def len using nth by metis
  also have "\<dots> \<longleftrightarrow> unat (byte_at s p) = map unat (utf8_encode v) ! 0 \<and>
      (\<forall>i < n. unat (byte_at s (p + Suc i)) = map unat (utf8_encode v) ! Suc i)"
    by (auto simp: less_Suc_eq_0_disj)
  also have "map unat (utf8_encode v) = (256 - 2 ^ (7 - n) + unat v div 64 ^ n)
       # map (\<lambda>i. 128 + unat v div 64 ^ i mod 64) (rev [0..<n])"
    using assms by (subst utf8_encode_bytes) (simp_all add: Let_def)
  finally show ?thesis by (simp add: rev_nth)
qed

lemma bytes_at_ascii: "unat v < 128 \<Longrightarrow> bytes_at s p (utf8_encode v) \<longleftrightarrow> unat (byte_at s p) = unat v"
  by (simp add: utf8_encode_ascii bytes_at_def word_unat_eq_iff nat_bits)

lemma bytes_at_decodes:
  assumes "128 \<le> unat (byte_at s p)" and "n = lead_len (unat (byte_at s p))" and "unat v < 2 ^ 31"
  shows "128 \<le> unat v \<and> bytes_at s p (utf8_encode v) \<longleftrightarrow>
    1 \<le> n \<and> n \<le> 5 \<and> (\<forall>i < n. is_cont (byte_at s (p + Suc i))) \<and> unat v = seq_value s p \<and>
    min_of_len n \<le> unat v" (is "?enc \<longleftrightarrow> ?dec")
proof
  let ?b = "unat (byte_at s p)"
  assume e: ?enc
  define m where "m = enc_len (unat v)"
  have m: "1 \<le> m" "m \<le> 5" using enc_len_cases(1) [of "unat v"] by (simp_all add: m_def)
  have "unat v < 2 ^ (5 * m + 6)" using enc_len_cases(2) [OF assms(3)] by (simp add: m_def)
  also have "(2 :: nat) ^ (5 * m + 6) = 2 ^ (6 - m) * 2 ^ (6 * m)"
    using m by (simp flip: power_add)
  finally have q: "unat v div 64 ^ m < 2 ^ (6 - m)"
    by (simp add: less_mult_imp_div_less power_mult)
  have b: "?b = 256 - 2 ^ (7 - m) + unat v div 64 ^ m"
    and c: "unat (byte_at s (p + Suc i)) = 128 + unat v div 64 ^ (m - Suc i) mod 64" if "i < m" for i
    using e that bytes_at_lead [OF assms(3) _ m_def, of s p] by blast+
  then have b: "?b = 256 - 2 ^ (7 - m) + unat v div 64 ^ m" using m(1) by force
  have n: "n = m" and qq: "?b mod 2 ^ (6 - m) = unat v div 64 ^ m"
    using lead_len_byte [OF m q] assms(2) by (simp_all add: b)
  have cr: "map unat (cont_run s p m) = map (\<lambda>i. 128 + unat v div 64 ^ i mod 64) (rev [0..<m])"
    by (rule nth_equalityI) (use c in \<open>simp_all add: cont_run_def rev_nth\<close>)
  have "seq_value s p = seq_acc (?b mod 2 ^ (6 - m)) (map unat (cont_run s p m))"
    by (simp only: seq_value_def Let_def assms(2) [symmetric] n)
  also have "\<dots> = unat v div 64 ^ m * 64 ^ m + unat v mod 64 ^ m"
    by (simp only: cr qq seq_acc_digits)
  also have "\<dots> = unat v" by (rule div_mult_mod_eq)
  finally show ?dec
    using m n c enc_len_cases(3) [of "unat v"] e
    by (auto simp: is_cont_def m_def less_Suc_eq_le)
next
  let ?b = "unat (byte_at s p)"
  assume d: ?dec
  then have n: "1 \<le> n" "n \<le> 5" by blast+
  have "unat v < 2 ^ (5 * n + 6)"
    using d seq_value_bound [of s p n] assms(2) by simp
  from enc_len_unique [OF n _ this] d have el: "n = enc_len (unat v)" and big: "128 \<le> unat v" by auto
  have lead: "192 \<le> ?b \<and> ?b < 254"
    using n assms(2) unfolding lead_len_def by (auto split: if_splits)
  have len: "length (map unat (cont_run s p n)) = n" by (simp add: cont_run_def)
  have v: "unat v = seq_acc (?b mod 2 ^ (6 - n)) (map unat (cont_run s p n))"
    using d assms(2) by (simp add: seq_value_def Let_def)
  have "unat v div 64 ^ n = ?b mod 2 ^ (6 - n)"
    using seq_acc_div [of _ "map unat (cont_run s p n)"] unfolding len v by blast
  then have "?b = 256 - 2 ^ (7 - n) + unat v div 64 ^ n"
    using lead_byte_value [of ?b] lead assms(2) by simp
  moreover have "unat (byte_at s (p + Suc i)) = 128 + unat v div 64 ^ (n - Suc i) mod 64" if "i < n" for i
  proof -
    have "unat v div 64 ^ (n - Suc i) mod 64 = map unat (cont_run s p n) ! i mod 64"
      using seq_acc_digit [of i "map unat (cont_run s p n)"] that unfolding len v by blast
    also have "map unat (cont_run s p n) ! i = unat (byte_at s (p + Suc i))"
      using that by (simp add: cont_run_def)
    moreover have "128 \<le> unat (byte_at s (p + Suc i)) \<and> unat (byte_at s (p + Suc i)) < 192"
      using d that by (simp add: is_cont_def)
    ultimately show ?thesis using lead_mods(6) [of "unat (byte_at s (p + Suc i))"] by simp
  qed
  ultimately show ?enc using bytes_at_lead [OF assms(3) big el] big by simp
qed

lemma decode_iff:
  "utf8_decode s p strict = Some (q, v) \<longleftrightarrow>
     v \<le> UTF8_MAX \<and> \<not> (strict \<and> utf8_invalid v) \<and> q = p + length (utf8_encode v) \<and>
     bytes_at s p (utf8_encode v)"
proof (cases "v \<le> UTF8_MAX")
  case True
  then have max: "unat v < 2 ^ 31" by (simp add: word_le_nat_alt UTF8_MAX_def)
  have small: "\<not> utf8_invalid v" if "unat v < 128"
    using that by (simp add: utf8_invalid_def UTF8_MAXCP_def word_less_nat_alt word_le_nat_alt)
  show ?thesis
  proof (cases "unat (byte_at s p) < 128")
    case asc: True
    have "\<not> bytes_at s p (utf8_encode v)" if "128 \<le> unat v"
    proof -
      have "(2 :: nat) ^ (7 - enc_len (unat v)) \<le> 2 ^ 6"
        using enc_len_cases(1) [of "unat v"] by (intro power_increasing) auto
      with asc bytes_at_lead [OF max that refl, of s p] show ?thesis by auto
    qed
    moreover have "v = ucast (byte_at s p) \<longleftrightarrow> unat (byte_at s p) = unat v"
      by (auto simp: word_unat_eq_iff)
    ultimately show ?thesis
      using True small asc bytes_at_ascii [of v s p]
      by (cases "unat v < 128") (auto simp: utf8_decode_ascii utf8_encode_length)
  next
    case False
    define n where "n = lead_len (unat (byte_at s p))"
    have b: "128 \<le> unat (byte_at s p)" using False by simp
    have "128 \<le> unat v" if "bytes_at s p (utf8_encode v)"
      using that bytes_at_ascii [of v s p] False by fastforce
    then have iff: "bytes_at s p (utf8_encode v) \<longleftrightarrow>
        1 \<le> n \<and> n \<le> 5 \<and> (\<forall>i < n. is_cont (byte_at s (p + Suc i))) \<and> unat v = seq_value s p \<and>
        min_of_len n \<le> unat v"
      using bytes_at_decodes [OF b n_def max] by blast
    have len: "length (utf8_encode v) = Suc n" if "bytes_at s p (utf8_encode v)"
    proof -
      from that iff have d: "1 \<le> n" "n \<le> 5" "min_of_len n \<le> unat v" "unat v = seq_value s p" by blast+
      have "unat v < 2 ^ (5 * n + 6)" using d seq_value_bound [of s p n] n_def by simp
      from enc_len_unique [OF d(1-3) this] show ?thesis by (simp add: utf8_encode_length [OF max])
    qed
    show ?thesis
      unfolding utf8_decode_lead [OF b n_def] using iff len True by auto
  qed
next
  case False
  then have big: "\<not> unat v < 2 ^ 31" by (simp add: word_le_nat_alt UTF8_MAX_def)
  have "utf8_decode s p strict \<noteq> Some (q, v)"
  proof (cases "unat (byte_at s p) < 128")
    case True
    with big show ?thesis by (auto simp: utf8_decode_ascii)
  next
    case False
    define n where "n = lead_len (unat (byte_at s p))"
    show ?thesis
    proof
      assume "utf8_decode s p strict = Some (q, v)"
      then have "n \<le> 5" and v: "unat v = seq_value s p"
        using utf8_decode_lead [of s p n strict q v] False n_def by auto
      from \<open>n \<le> 5\<close> have "seq_value s p < 2 ^ (5 * n + 6)"
        by (intro seq_value_bound) (simp_all add: n_def)
      also have "\<dots> \<le> 2 ^ 31" using \<open>n \<le> 5\<close> by (intro power_increasing) auto
      finally show False using big v by simp
    qed
  qed
  with False show ?thesis by simp
qed

text \<open>
  C13. \<open>utf8_decode\<close> accepts exactly the encodings: reading at \<open>p\<close> succeeds with code point \<open>v\<close>
  and end \<open>q\<close> if and only if \<open>v\<close> is at most \<open>UTF8_MAX\<close> (and, in strict mode, neither a surrogate
  nor above 0x10FFFF), the bytes at \<open>p\<close> are what \<open>utf8_encode\<close> writes for \<open>v\<close>, and \<open>q\<close> is just
  past them. So overlong forms, stray and missing continuation bytes are all rejected.
\<close>

theorem utf8_decode_iff_encode:
  "utf8_decode s p strict = Some (q, v) \<longleftrightarrow>
     v \<le> UTF8_MAX \<and> \<not> (strict \<and> utf8_invalid v) \<and> q = p + length (utf8_encode v) \<and>
     bytes_at s p (utf8_encode v)"
  by (rule decode_iff)

end
