(* ===== verification/Utf8Valid.thy ===== *)
theory Utf8Valid
  imports Utf8Codec
begin

text \<open>
  Validation and cleaning of \<^verbatim>\<open>luafar/src/lutf8lib.c\<close>: \<open>utf8_invalid_offset\<close> finds the first
  byte that does not start a well-formed character, \<open>utf8.isvalid\<close>, \<open>utf8.invalidoffset\<close> and
  \<open>utf8.clean\<close> are built on it. The hand-written byte ranges of the scanner are shown to
  accept exactly the strict encodings of \<open>Utf8Codec\<close>.

  The locale \<open>prefix_code\<close> is the interface of a character code with a decoder that reads one
  character off the front of a string; strings of such characters split in one way only.
\<close>

section \<open>Character codes\<close>

locale prefix_code =
  fixes enc :: "'a \<Rightarrow> bytes" and ok :: "'a \<Rightarrow> bool" and dec :: "bytes \<Rightarrow> nat \<Rightarrow> (nat \<times> 'a) option"
  assumes dec_iff: "p < length s \<Longrightarrow>
      dec s p = Some (q, v) \<longleftrightarrow> ok v \<and> q = p + length (enc v) \<and> take (length (enc v)) (drop p s) = enc v"
    and enc_nonempty: "ok v \<Longrightarrow> enc v \<noteq> []"
begin

definition encodes :: "'a list \<Rightarrow> bytes \<Rightarrow> bool" where
  "encodes vs s \<longleftrightarrow> (\<forall>v \<in> set vs. ok v) \<and> s = concat (map enc vs)"

lemma encodes_Nil [simp]: "encodes [] s \<longleftrightarrow> s = []"
  by (simp add: encodes_def)

lemma encodes_Cons: "encodes (v # vs) s \<longleftrightarrow> ok v \<and> (\<exists>t. s = enc v @ t \<and> encodes vs t)"
  by (auto simp: encodes_def)

lemma encodes_append: "encodes us s \<Longrightarrow> encodes vs t \<Longrightarrow> encodes (us @ vs) (s @ t)"
  by (auto simp: encodes_def)

lemma encodes_empty: "encodes vs [] \<longleftrightarrow> vs = []"
  using enc_nonempty by (cases vs) (auto simp: encodes_Cons)

lemma dec_front: "ok v \<Longrightarrow> dec (enc v @ t) 0 = Some (length (enc v), v)"
  using enc_nonempty by (subst dec_iff) auto

lemma dec_mid: "ok v \<Longrightarrow> dec (r @ enc v @ t) (length r) = Some (length r + length (enc v), v)"
  using enc_nonempty by (subst dec_iff) auto

lemma dec_end: "p < length s \<Longrightarrow> dec s p = Some (q, v) \<Longrightarrow> p < q \<and> q \<le> length s"
proof -
  assume p: "p < length s" and d: "dec s p = Some (q, v)"
  then have *: "ok v" "q = p + length (enc v)" "take (length (enc v)) (drop p s) = enc v"
    using dec_iff by blast+
  then have "length (enc v) \<le> length (drop p s)" by (metis length_take min.cobounded1)
  then show ?thesis using * p enc_nonempty by auto
qed

lemma dec_drop: "p < length s \<Longrightarrow> dec s p = Some (q, v) \<Longrightarrow> drop p s = enc v @ drop q s"
proof -
  assume p: "p < length s" and d: "dec s p = Some (q, v)"
  then have *: "q = p + length (enc v)" "take (length (enc v)) (drop p s) = enc v"
    using dec_iff by blast+
  then show ?thesis by (metis add.commute append_take_drop_id drop_drop)
qed

theorem encodes_unique: "encodes us s \<Longrightarrow> encodes vs s \<Longrightarrow> us = vs"
proof (induction us arbitrary: vs s)
  case Nil
  then show ?case by (simp add: encodes_empty)
next
  case (Cons u us)
  then obtain t where t: "ok u" "s = enc u @ t" "encodes us t" by (auto simp: encodes_Cons)
  with Cons.prems enc_nonempty obtain v vs' where vs: "vs = v # vs'" by (cases vs) auto
  with Cons.prems obtain t' where t': "ok v" "s = enc v @ t'" "encodes vs' t'" by (auto simp: encodes_Cons)
  from dec_front [OF t(1), of t] dec_front [OF t'(1), of t'] t(2) t'(2) have "u = v" by simp
  with t t' Cons.IH show ?case by (auto simp: vs)
qed

end

lemma encode_tail_cont:
  assumes "v \<le> UTF8_MAX" and "0 < i" and "i < length (utf8_encode v)"
  shows "is_cont (utf8_encode v ! i)"
proof -
  have max: "unat v < 2 ^ 31" using assms(1) by (simp add: word_le_nat_alt UTF8_MAX_def)
  have big: "\<not> unat v < 128" using assms(2,3) by (auto simp: utf8_encode_length [OF max] split: if_splits)
  then have len: "length (utf8_encode v) = Suc (enc_len (unat v))"
    by (simp add: utf8_encode_length [OF max])
  obtain j where j: "i = Suc j" using assms(2) by (cases i) auto
  have "unat (utf8_encode v ! i) = map unat (utf8_encode v) ! i" using assms(3) by simp
  also have "\<dots> = 128 + unat v div 64 ^ (enc_len (unat v) - Suc j) mod 64"
    using assms(3) big len by (subst utf8_encode_bytes [OF max]) (simp add: Let_def j rev_nth)
  finally show ?thesis by (simp add: is_cont_def)
qed

lemma utf8_encode_nonempty: "v \<le> UTF8_MAX \<Longrightarrow> utf8_encode v \<noteq> []"
  using utf8_encode_length [of v] by (auto simp: word_le_nat_alt UTF8_MAX_def split: if_splits)

lemma cont_inside: "is_cont (byte_at s p) \<Longrightarrow> p < length s"
  by (rule ccontr) (simp add: is_cont_def)

lemma bytes_at_take:
  assumes "p < length s" and "v \<le> UTF8_MAX"
  shows "bytes_at s p (utf8_encode v) \<longleftrightarrow> take (length (utf8_encode v)) (drop p s) = utf8_encode v"
proof
  let ?w = "utf8_encode v"
  assume at: "bytes_at s p ?w"
  have inside: "p + i < length s" if "i < length ?w" for i
  proof (cases "i = 0")
    case False
    then have "is_cont (byte_at s (p + i))"
      using at that encode_tail_cont [OF assms(2), of i] by (simp add: bytes_at_def)
    then show ?thesis by (rule cont_inside)
  qed (use assms in simp)
  have "length ?w \<le> length s - p"
    using inside [of "length ?w - 1"] utf8_encode_nonempty [OF assms(2)] by (cases ?w) auto
  then show "take (length ?w) (drop p s) = ?w"
    using at inside by (intro nth_equalityI) (auto simp: bytes_at_def)
next
  let ?w = "utf8_encode v"
  assume eq: "take (length ?w) (drop p s) = ?w"
  then have len: "length ?w \<le> length s - p" by (metis length_drop length_take min.cobounded1)
  show "bytes_at s p ?w"
    unfolding bytes_at_def
  proof (intro allI impI)
    fix i assume i: "i < length ?w"
    then have "?w ! i = take (length ?w) (drop p s) ! i" using eq by simp
    also have "\<dots> = byte_at s (p + i)" using i len assms by simp
    finally show "byte_at s (p + i) = ?w ! i" ..
  qed
qed

lemma utf8_decode_front:
  assumes "p < length s"
  shows "utf8_decode s p strict = Some (q, v) \<longleftrightarrow>
     (v \<le> UTF8_MAX \<and> \<not> (strict \<and> utf8_invalid v)) \<and> q = p + length (utf8_encode v) \<and>
     take (length (utf8_encode v)) (drop p s) = utf8_encode v"
  using decode_iff bytes_at_take [OF assms, of v] by blast

lemma scalar_small: "\<not> utf8_invalid v \<Longrightarrow> v \<le> UTF8_MAX"
  by (auto simp: utf8_invalid_def UTF8_MAX_def UTF8_MAXCP_def word_less_nat_alt word_le_nat_alt)

interpretation strict_utf8: prefix_code utf8_encode "\<lambda>v. \<not> utf8_invalid v"
  "\<lambda>s p. utf8_decode s p True"
proof
  fix p q :: nat and s :: bytes and v :: u32
  assume "p < length s"
  from utf8_decode_front [OF this, of True q v] scalar_small [of v]
  show "utf8_decode s p True = Some (q, v) \<longleftrightarrow> \<not> utf8_invalid v \<and> q = p + length (utf8_encode v) \<and>
      take (length (utf8_encode v)) (drop p s) = utf8_encode v" by blast
qed (use scalar_small utf8_encode_nonempty in blast)

interpretation lax_utf8: prefix_code utf8_encode "\<lambda>v. v \<le> UTF8_MAX" "\<lambda>s p. utf8_decode s p False"
proof
  fix p q :: nat and s :: bytes and v :: u32
  assume "p < length s"
  from utf8_decode_front [OF this, of False q v]
  show "utf8_decode s p False = Some (q, v) \<longleftrightarrow> v \<le> UTF8_MAX \<and> q = p + length (utf8_encode v) \<and>
      take (length (utf8_encode v)) (drop p s) = utf8_encode v" by blast
qed (rule utf8_encode_nonempty)

section \<open>The scanner\<close>

definition utf8_code_unit_len :: "u8 list" where
  "utf8_code_unit_len = [1, 1, 1, 1, 1, 1, 1, 1, -1, -1, -1, -1, 2, 2, 3, 4]"

text \<open>
  One turn of the scanner's loop at \<open>p < e\<close>: \<open>None\<close> is its \<^verbatim>\<open>return s\<close>, \<open>Some n\<close> its
  \<^verbatim>\<open>s += n\<close>.
\<close>

definition utf8_code_unit :: "bytes \<Rightarrow> nat \<Rightarrow> nat \<Rightarrow> nat option" where
  "utf8_code_unit s p e =
     (let c = byte_at s p in
      if c \<ge> 0x80 then
        if c < 0xC2 \<or> c \<ge> 0xF5 then None
        else
          let needed_bytes = unat (utf8_code_unit_len ! unat (drop_bit 4 c)) in
          if e - p < needed_bytes then None
          else
            let c2 = byte_at s (p + 1) in
            if c2 AND 0xC0 \<noteq> 0x80 then None
            else if needed_bytes \<ge> 3 then
              let c3 = byte_at s (p + 2) in
              if c3 AND 0xC0 \<noteq> 0x80 then None
              else if needed_bytes = 3 then
                if c = 0xE0 \<and> c2 < 0xA0 then None
                else if c = 0xED \<and> c2 \<ge> 0xA0 then None
                else Some needed_bytes
              else
                let c4 = byte_at s (p + 3) in
                if c4 AND 0xC0 \<noteq> 0x80 then None
                else if c = 0xF0 \<and> c2 < 0x90 then None
                else if c = 0xF4 \<and> c2 \<ge> 0x90 then None
                else Some needed_bytes
            else Some needed_bytes
      else Some 1)"

lemma cont_byte: "(c AND 0xC0 = 0x80) \<longleftrightarrow> is_cont (c :: u8)"
  using iscont_iff [of "[c]" 0] by (simp add: iscont_def is_cont_def)

lemma cont_digit: "is_cont c \<Longrightarrow> unat c mod 64 = unat c - 128"
  using lead_mods(6) [of "unat c"] by (simp add: is_cont_def)

lemma code_unit_lens:
  "\<forall>c :: u8. 0xC2 \<le> unat c \<longrightarrow> unat c < 0xF5 \<longrightarrow>
    unat (utf8_code_unit_len ! unat (drop_bit 4 c)) =
      (if unat c < 0xE0 then 2 else if unat c < 0xF0 then 3 else 4)"
  unfolding all_u8 by code_simp

lemma scalar_iff:
  "\<not> utf8_invalid v \<longleftrightarrow> unat v \<le> 0x10FFFF \<and> \<not> (0xD800 \<le> unat v \<and> unat v \<le> 0xDFFF)"
  by (auto simp: utf8_invalid_def UTF8_MAXCP_def word_less_nat_alt word_le_nat_alt)

lemma decode_strict_ex:
  assumes "128 \<le> unat (byte_at s p)" and "n = lead_len (unat (byte_at s p))"
  shows "(\<exists>v. utf8_decode s p True = Some (q, v)) \<longleftrightarrow>
    1 \<le> n \<and> n \<le> 5 \<and> (\<forall>i < n. is_cont (byte_at s (p + Suc i))) \<and> min_of_len n \<le> seq_value s p \<and>
    seq_value s p \<le> 0x10FFFF \<and> \<not> (0xD800 \<le> seq_value s p \<and> seq_value s p \<le> 0xDFFF) \<and> q = p + Suc n"
    (is "_ \<longleftrightarrow> ?R")
proof
  assume "\<exists>v. utf8_decode s p True = Some (q, v)"
  then show ?R unfolding utf8_decode_lead [OF assms] scalar_iff by auto
next
  assume R: ?R
  then have "unat (word_of_nat (seq_value s p) :: u32) = seq_value s p"
    by (simp add: unsigned_of_nat take_bit_nat_eq_self)
  with R have "utf8_decode s p True = Some (q, word_of_nat (seq_value s p))"
    unfolding utf8_decode_lead [OF assms] scalar_iff by simp
  then show "\<exists>v. utf8_decode s p True = Some (q, v)" ..
qed

lemma cont_run_simps:
  "cont_run s p 1 = [byte_at s (p + 1)]"
  "cont_run s p 2 = [byte_at s (p + 1), byte_at s (p + 2)]"
  "cont_run s p 3 = [byte_at s (p + 1), byte_at s (p + 2), byte_at s (p + 3)]"
  by (simp_all add: cont_run_def upt_rec numeral_2_eq_2 numeral_3_eq_3)

lemma conts_below:
  "(\<forall>i < 1. is_cont (byte_at s (p + Suc i))) \<longleftrightarrow> is_cont (byte_at s (p + 1))"
  "(\<forall>i < 2. is_cont (byte_at s (p + Suc i))) \<longleftrightarrow>
    is_cont (byte_at s (p + 1)) \<and> is_cont (byte_at s (p + 2))"
  "(\<forall>i < 3. is_cont (byte_at s (p + Suc i))) \<longleftrightarrow>
    is_cont (byte_at s (p + 1)) \<and> is_cont (byte_at s (p + 2)) \<and> is_cont (byte_at s (p + 3))"
  by (auto simp: numeral_2_eq_2 numeral_3_eq_3 less_Suc_eq)

text \<open>
  The characters a strict decode accepts, by the ranges of their bytes: two, three and four
  bytes; no other lead byte starts one.
\<close>

lemma decode_strict_two:
  assumes "192 \<le> unat (byte_at s p)" and "unat (byte_at s p) < 224"
  shows "(\<exists>v. utf8_decode s p True = Some (q, v)) \<longleftrightarrow>
    q = p + 2 \<and> is_cont (byte_at s (p + 1)) \<and> 194 \<le> unat (byte_at s p)"
proof -
  define a b where "a = unat (byte_at s p) - 192" and "b = unat (byte_at s (p + 1)) mod 64"
  have lead: "lead_len (unat (byte_at s p)) = 1" "unat (byte_at s p) mod 32 = a"
    using assms lead_mods(1) [of "unat (byte_at s p)"] by (auto simp: lead_len_def a_def)
  have v: "seq_value s p = a * 64 + b"
    unfolding seq_value_def Let_def lead cont_run_simps by (simp add: lead seq_acc_def b_def)
  have bnd: "b < 64" "a < 32" using assms by (auto simp: a_def b_def)
  have "128 \<le> unat (byte_at s p)" using assms by simp
  from decode_strict_ex [OF this lead(1) [symmetric]] show ?thesis
    unfolding v conts_below using bnd a_def assms by (auto simp: min_of_len_def)
qed

lemma decode_strict_three:
  assumes "224 \<le> unat (byte_at s p)" and "unat (byte_at s p) < 240"
  shows "(\<exists>v. utf8_decode s p True = Some (q, v)) \<longleftrightarrow>
    q = p + 3 \<and> is_cont (byte_at s (p + 1)) \<and> is_cont (byte_at s (p + 2)) \<and>
    \<not> (unat (byte_at s p) = 224 \<and> unat (byte_at s (p + 1)) < 160) \<and>
    \<not> (unat (byte_at s p) = 237 \<and> 160 \<le> unat (byte_at s (p + 1)))"
proof (cases "is_cont (byte_at s (p + 1)) \<and> is_cont (byte_at s (p + 2))")
  case True
  define a b c where "a = unat (byte_at s p) - 224" and "b = unat (byte_at s (p + 1)) - 128"
    and "c = unat (byte_at s (p + 2)) - 128"
  have lead: "lead_len (unat (byte_at s p)) = 2" "unat (byte_at s p) mod 16 = a"
    using assms lead_mods(2) [of "unat (byte_at s p)"] by (auto simp: lead_len_def a_def)
  have v: "seq_value s p = (a * 64 + b) * 64 + c"
    unfolding seq_value_def Let_def lead cont_run_simps using True
    by (simp add: lead seq_acc_def b_def c_def cont_digit)
  have bytes: "unat (byte_at s p) = 224 + a" "unat (byte_at s (p + 1)) = 128 + b" "b < 64" "c < 64" "a < 16"
    using assms True by (auto simp: a_def b_def c_def is_cont_def)
  have "128 \<le> unat (byte_at s p)" using assms by simp
  from decode_strict_ex [OF this lead(1) [symmetric], of q]
  have "(\<exists>v. utf8_decode s p True = Some (q, v)) \<longleftrightarrow> q = p + 3 \<and> 2048 \<le> (a * 64 + b) * 64 + c \<and>
    (a * 64 + b) * 64 + c \<le> 0x10FFFF \<and> \<not> (0xD800 \<le> (a * 64 + b) * 64 + c \<and> (a * 64 + b) * 64 + c \<le> 0xDFFF)"
    using True by (simp only: v conts_below) (auto simp: min_of_len_def)
  also have "\<dots> \<longleftrightarrow> q = p + 3 \<and> \<not> (a = 0 \<and> b < 32) \<and> \<not> (a = 13 \<and> 32 \<le> b)"
  proof -
    have "a < 13 \<or> a = 13 \<or> 14 \<le> a" by linarith
    then show ?thesis using bytes(3-5) by auto
  qed
  finally show ?thesis using True bytes(1,2) by auto
next
  case False
  have "lead_len (unat (byte_at s p)) = 2" "128 \<le> unat (byte_at s p)"
    using assms by (auto simp: lead_len_def)
  then show ?thesis using False decode_strict_ex [of s p 2 q] by (simp only: conts_below) auto
qed

lemma decode_strict_four:
  assumes "240 \<le> unat (byte_at s p)" and "unat (byte_at s p) < 248"
  shows "(\<exists>v. utf8_decode s p True = Some (q, v)) \<longleftrightarrow>
    q = p + 4 \<and> is_cont (byte_at s (p + 1)) \<and> is_cont (byte_at s (p + 2)) \<and> is_cont (byte_at s (p + 3)) \<and>
    unat (byte_at s p) < 245 \<and> \<not> (unat (byte_at s p) = 240 \<and> unat (byte_at s (p + 1)) < 144) \<and>
    \<not> (unat (byte_at s p) = 244 \<and> 144 \<le> unat (byte_at s (p + 1)))"
proof (cases "is_cont (byte_at s (p + 1)) \<and> is_cont (byte_at s (p + 2)) \<and> is_cont (byte_at s (p + 3))")
  case True
  define a b c d where "a = unat (byte_at s p) - 240" and "b = unat (byte_at s (p + 1)) - 128"
    and "c = unat (byte_at s (p + 2)) - 128" and "d = unat (byte_at s (p + 3)) - 128"
  have lead: "lead_len (unat (byte_at s p)) = 3" "unat (byte_at s p) mod 8 = a"
    using assms lead_mods(3) [of "unat (byte_at s p)"] by (auto simp: lead_len_def a_def)
  have v: "seq_value s p = ((a * 64 + b) * 64 + c) * 64 + d"
    unfolding seq_value_def Let_def lead cont_run_simps using True
    by (simp add: lead seq_acc_def b_def c_def d_def cont_digit)
  have bytes: "unat (byte_at s p) = 240 + a" "unat (byte_at s (p + 1)) = 128 + b"
      "b < 64" "c < 64" "d < 64" "a < 8"
    using assms True by (auto simp: a_def b_def c_def d_def is_cont_def)
  have "128 \<le> unat (byte_at s p)" using assms by simp
  from decode_strict_ex [OF this lead(1) [symmetric], of q]
  have "(\<exists>v. utf8_decode s p True = Some (q, v)) \<longleftrightarrow> q = p + 4 \<and> 65536 \<le> ((a * 64 + b) * 64 + c) * 64 + d \<and>
    ((a * 64 + b) * 64 + c) * 64 + d \<le> 0x10FFFF"
    using True by (simp only: v conts_below) (auto simp: min_of_len_def)
  also have "\<dots> \<longleftrightarrow> q = p + 4 \<and> a < 5 \<and> \<not> (a = 0 \<and> b < 16) \<and> \<not> (a = 4 \<and> 16 \<le> b)"
    using bytes(3-6) by auto
  finally show ?thesis using True bytes(1,2) by auto
next
  case False
  have "lead_len (unat (byte_at s p)) = 3" "128 \<le> unat (byte_at s p)"
    using assms by (auto simp: lead_len_def)
  then show ?thesis using False decode_strict_ex [of s p 3 q] by (simp only: conts_below) auto
qed

lemma decode_strict_other:
  assumes "128 \<le> unat (byte_at s p) \<and> unat (byte_at s p) < 192 \<or> 248 \<le> unat (byte_at s p)"
  shows "\<not> (\<exists>v. utf8_decode s p True = Some (q, v))"
proof -
  define n where "n = lead_len (unat (byte_at s p))"
  have b: "128 \<le> unat (byte_at s p)" using assms by auto
  from assms have "n = 0 \<or> 4 \<le> n" by (auto simp: n_def lead_len_def)
  then consider "n = 0" | "6 \<le> n" | "n = 4" | "n = 5" by linarith
  then show ?thesis
    using decode_strict_ex [OF b n_def, of q] by cases (auto simp: min_of_len_def)
qed

lemma lead_consts:
  "(c :: u8) = 0xE0 \<longleftrightarrow> unat c = 224" "c = 0xED \<longleftrightarrow> unat c = 237"
  "c = 0xF0 \<longleftrightarrow> unat c = 240" "c = 0xF4 \<longleftrightarrow> unat c = 244"
  by (simp_all add: word_unat_eq_iff)

lemma utf8_code_unit_iff:
  assumes "p < length s"
  shows "utf8_code_unit s p (length s) = Some n \<longleftrightarrow> (\<exists>v. utf8_decode s p True = Some (p + n, v))"
proof -
  let ?c = "unat (byte_at s p)"
  note cmp = word_less_nat_alt word_le_nat_alt cont_byte lead_consts
  have trunc: "\<not> is_cont (byte_at s (length s))" by (simp add: is_cont_def)
  consider "?c < 128" | "128 \<le> ?c" "?c < 194 \<or> 245 \<le> ?c" | "194 \<le> ?c" "?c < 224"
    | "224 \<le> ?c" "?c < 240" | "240 \<le> ?c" "?c < 245" by linarith
  then show ?thesis
  proof cases
    case 1
    then have "utf8_code_unit s p (length s) = Some 1"
      by (simp add: utf8_code_unit_def Let_def word_le_nat_alt)
    moreover have "utf8_decode s p True = Some (p + 1, ucast (byte_at s p))"
      using 1 by (rule utf8_decode_ascii)
    ultimately show ?thesis by auto
  next
    case 2
    then have "utf8_code_unit s p (length s) = None"
      by (auto simp: utf8_code_unit_def Let_def cmp)
    moreover have "\<not> (\<exists>v. utf8_decode s p True = Some (p + n, v))"
    proof -
      from 2 consider "128 \<le> ?c \<and> ?c < 192 \<or> 248 \<le> ?c" | "192 \<le> ?c" "?c < 194" | "245 \<le> ?c" "?c < 248"
        by linarith
      then show ?thesis
      proof cases
        case 1
        then show ?thesis by (rule decode_strict_other)
      next
        case 2
        then show ?thesis using decode_strict_two [of s p "p + n"] by simp
      next
        case 3
        then show ?thesis using decode_strict_four [of s p "p + n"] by simp
      qed
    qed
    ultimately show ?thesis by simp
  next
    case 3
    have "utf8_code_unit s p (length s) =
        (if length s - p < 2 \<or> \<not> is_cont (byte_at s (p + 1)) then None else Some 2)"
      using 3 code_unit_lens by (auto simp: utf8_code_unit_def Let_def cmp)
    moreover have "length s - p < 2 \<Longrightarrow> \<not> is_cont (byte_at s (p + 1))"
      using assms cont_inside [of s "p + 1"] by linarith
    ultimately show ?thesis
      using 3 decode_strict_two [of s p "p + n"] by auto
  next
    case 4
    have "utf8_code_unit s p (length s) =
        (if length s - p < 3 \<or> \<not> is_cont (byte_at s (p + 1)) \<or> \<not> is_cont (byte_at s (p + 2)) \<or>
          ?c = 224 \<and> unat (byte_at s (p + 1)) < 160 \<or> ?c = 237 \<and> 160 \<le> unat (byte_at s (p + 1))
         then None else Some 3)"
      using 4 code_unit_lens by (auto simp: utf8_code_unit_def Let_def cmp)
    moreover have "length s - p < 3 \<Longrightarrow> \<not> is_cont (byte_at s (p + 2))"
      using assms cont_inside [of s "p + 2"] by linarith
    ultimately show ?thesis
      using 4 decode_strict_three [of s p "p + n"] by auto
  next
    case 5
    have "utf8_code_unit s p (length s) =
        (if length s - p < 4 \<or> \<not> is_cont (byte_at s (p + 1)) \<or> \<not> is_cont (byte_at s (p + 2)) \<or>
          \<not> is_cont (byte_at s (p + 3)) \<or>
          ?c = 240 \<and> unat (byte_at s (p + 1)) < 144 \<or> ?c = 244 \<and> 144 \<le> unat (byte_at s (p + 1))
         then None else Some 4)"
      using 5 code_unit_lens by (auto simp: utf8_code_unit_def Let_def cmp)
    moreover have "length s - p < 4 \<Longrightarrow> \<not> is_cont (byte_at s (p + 3))"
      using assms cont_inside [of s "p + 3"] by linarith
    ultimately show ?thesis
      using 5 decode_strict_four [of s p "p + n"] by auto
  qed
qed

lemma utf8_code_unit_pos: "utf8_code_unit s p e = Some n \<Longrightarrow> 0 < n"
proof -
  have "\<forall>c :: u8. 0 < unat (utf8_code_unit_len ! unat (drop_bit 4 c))"
    unfolding all_u8 by code_simp
  then show "utf8_code_unit s p e = Some n \<Longrightarrow> 0 < n"
    by (auto simp: utf8_code_unit_def Let_def split: if_splits)
qed

function utf8_invalid_offset :: "bytes \<Rightarrow> nat \<Rightarrow> nat \<Rightarrow> nat option" where
  "utf8_invalid_offset s p e =
     (if p < e then
        case utf8_code_unit s p e of
          None \<Rightarrow> Some p
        | Some n \<Rightarrow> utf8_invalid_offset s (p + n) e
      else None)"
  by pat_completeness auto

termination
  by (relation "measure (\<lambda>(s, p, e). e - p)") (auto dest!: utf8_code_unit_pos)

declare utf8_invalid_offset.simps [simp del]

text \<open>
  What the scanner reports about the rest of a string from \<open>p\<close>: a valid rest is a list of encoded
  scalar values; otherwise the reported offset is just past the longest such prefix.
\<close>

lemma invalid_offset_spec:
  assumes "p \<le> length s"
  shows "case utf8_invalid_offset s p (length s) of
      None \<Rightarrow> \<exists>vs. strict_utf8.encodes vs (drop p s)
    | Some i \<Rightarrow> p \<le> i \<and> i < length s \<and> utf8_decode s i True = None \<and>
        (\<exists>vs. strict_utf8.encodes vs (take (i - p) (drop p s)))"
  using assms
proof (induction s p "length s" rule: utf8_invalid_offset.induct)
  case (1 s p)
  show ?case
  proof (cases "p < length s")
    case False
    then show ?thesis
      by (simp add: utf8_invalid_offset.simps [of s p]) (use strict_utf8.encodes_Nil in blast)
  next
    case p: True
    show ?thesis
    proof (cases "utf8_code_unit s p (length s)")
      case None
      have "utf8_decode s p True = None"
      proof (rule ccontr)
        assume "utf8_decode s p True \<noteq> None"
        then obtain q v where d: "utf8_decode s p True = Some (q, v)" by auto
        with strict_utf8.dec_end [OF p] have "q = p + (q - p)" by fastforce
        with d utf8_code_unit_iff [OF p, of "q - p"] None show False by (metis option.distinct(1))
      qed
      with None p show ?thesis
        by (simp add: utf8_invalid_offset.simps [of s p]) (use strict_utf8.encodes_Nil in blast)
    next
      case (Some n)
      then obtain v where d: "utf8_decode s p True = Some (p + n, v)"
        using utf8_code_unit_iff [OF p] by blast
      from strict_utf8.dec_end [OF p d] have le: "p + n \<le> length s" by simp
      from strict_utf8.dec_drop [OF p d] have dr: "drop p s = utf8_encode v @ drop (p + n) s" .
      from d have ok: "\<not> utf8_invalid v" and n: "n = length (utf8_encode v)"
        by (auto simp: decode_iff)
      have step: "utf8_invalid_offset s p (length s) = utf8_invalid_offset s (p + n) (length s)"
        using p Some by (simp add: utf8_invalid_offset.simps [of s p])
      have IH: "case utf8_invalid_offset s (p + n) (length s) of
          None \<Rightarrow> \<exists>vs. strict_utf8.encodes vs (drop (p + n) s)
        | Some i \<Rightarrow> p + n \<le> i \<and> i < length s \<and> utf8_decode s i True = None \<and>
            (\<exists>vs. strict_utf8.encodes vs (take (i - (p + n)) (drop (p + n) s)))"
        using 1(1) [OF p Some le] by simp
      show ?thesis
      proof (cases "utf8_invalid_offset s (p + n) (length s)")
        case None
        with IH obtain vs where "strict_utf8.encodes vs (drop (p + n) s)" by auto
        then have "strict_utf8.encodes (v # vs) (drop p s)"
          using ok dr by (auto simp: strict_utf8.encodes_Cons)
        with None step show ?thesis by auto
      next
        case (Some i)
        with IH obtain vs where i: "p + n \<le> i" "i < length s" "utf8_decode s i True = None"
            and vs: "strict_utf8.encodes vs (take (i - (p + n)) (drop (p + n) s))" by auto
        have "take (i - p) (drop p s) = utf8_encode v @ take (i - (p + n)) (drop (p + n) s)"
          using i n by (simp add: dr)
        then have "strict_utf8.encodes (v # vs) (take (i - p) (drop p s))"
          using ok vs by (auto simp: strict_utf8.encodes_Cons)
        with Some i step show ?thesis by auto
      qed
    qed
  qed
qed

lemma invalid_offset_skip:
  "strict_utf8.encodes us (take k (drop p s)) \<Longrightarrow> p + k \<le> length s \<Longrightarrow>
   utf8_invalid_offset s p (length s) = utf8_invalid_offset s (p + k) (length s)"
proof (induction us arbitrary: p k)
  case Nil
  then have "k = 0" by auto
  then show ?case by simp
next
  case (Cons u us)
  then obtain t where t: "\<not> utf8_invalid u" "take k (drop p s) = utf8_encode u @ t" "strict_utf8.encodes us t"
    by (auto simp: strict_utf8.encodes_Cons)
  let ?n = "length (utf8_encode u)"
  have ne: "0 < ?n" using strict_utf8.enc_nonempty [OF t(1)] by simp
  have len: "k = ?n + length t" using arg_cong [OF t(2), of length] Cons.prems(2) by simp
  have p: "p < length s" using Cons.prems(2) len ne by linarith
  have dr: "drop p s = utf8_encode u @ t @ drop (p + k) s"
    using append_take_drop_id [of k "drop p s"] t(2) by (simp add: add.commute)
  have "utf8_decode s p True = Some (p + ?n, u)"
    using strict_utf8.dec_iff [OF p] t(1) dr by simp
  then have "utf8_code_unit s p (length s) = Some ?n"
    using utf8_code_unit_iff [OF p] by blast
  then have step: "utf8_invalid_offset s p (length s) = utf8_invalid_offset s (p + ?n) (length s)"
    using p by (simp add: utf8_invalid_offset.simps [of s p])
  have "drop (p + ?n) s = t @ drop (p + k) s"
    using dr by (metis append_eq_conv_conj drop_drop add.commute)
  then have "strict_utf8.encodes us (take (length t) (drop (p + ?n) s))" using t(3) by simp
  from Cons.IH [OF this] step Cons.prems(2) show ?case by (simp add: len add.assoc)
qed

lemma valid_iff: "utf8_invalid_offset s 0 (length s) = None \<longleftrightarrow> (\<exists>vs. strict_utf8.encodes vs s)"
proof
  assume "\<exists>vs. strict_utf8.encodes vs s"
  then obtain vs where "strict_utf8.encodes vs s" ..
  then have "utf8_invalid_offset s 0 (length s) = utf8_invalid_offset s (0 + length s) (length s)"
    by (intro invalid_offset_skip) simp_all
  then show "utf8_invalid_offset s 0 (length s) = None"
    by (simp add: utf8_invalid_offset.simps [of s "length s"])
qed (use invalid_offset_spec [of 0 s] in simp)

end
