(* ===== verification/LuaValue.thy ===== *)
theory LuaValue
  imports Prelude
begin

text \<open>
  The values that a Lua C function returns and the way it ends. A function of the module takes
  its arguments from the Lua stack (an absent optional argument is \<open>None\<close>) and either raises a
  Lua error with a message (\<open>Inl\<close>) or pushes a list of results (\<open>Inr\<close>). \<^verbatim>\<open>lua_Integer\<close> is
  64 bits wide and its values here are far inside that range, so it is an \<open>int\<close>;
  \<open>cast_int\<close> is the C cast of one to \<^verbatim>\<open>int\<close>.
\<close>

datatype lua_val = LNil | LBool bool | LInt int | LStr bytes

text \<open>
  A Lua error with its message, a trap of the processor (an integer division by zero), or an access
  outside the bytes of a string and its terminator or of a userdata.
\<close>

datatype fault = LuaError string | Trap | BadRead

type_synonym 'a lua_result = "fault + 'a"

definition cast_int :: "int \<Rightarrow> int" where
  "cast_int i = signed_take_bit 31 i"

lemma cast_int_small [simp]: "- (2 ^ 31) \<le> i \<Longrightarrow> i < 2 ^ 31 \<Longrightarrow> cast_int i = i"
  unfolding cast_int_def by (rule signed_take_bit_int_eq_self) simp_all

definition bind_lua :: "'a lua_result \<Rightarrow> ('a \<Rightarrow> 'b lua_result) \<Rightarrow> 'b lua_result" where
  "bind_lua m f = (case m of Inl e \<Rightarrow> Inl e | Inr x \<Rightarrow> f x)"

lemma bind_lua_simps [simp]:
  "bind_lua (Inl e) f = Inl e"
  "bind_lua (Inr x) f = f x"
  by (simp_all add: bind_lua_def)

lemma bind_lua_Inr: "bind_lua m f = Inr y \<longleftrightarrow> (\<exists>x. m = Inr x \<and> f x = Inr y)"
  by (cases m) simp_all

text \<open>\<^verbatim>\<open>luaL_argcheck\<close>: the error a failed check raises.\<close>

definition argcheck :: "bool \<Rightarrow> string \<Rightarrow> 'a lua_result \<Rightarrow> 'a lua_result" where
  "argcheck c msg m = (if c then m else Inl (LuaError msg))"

lemma argcheck_simps [simp]:
  "argcheck True msg m = m"
  "argcheck False msg m = Inl (LuaError msg)"
  by (simp_all add: argcheck_def)

definition the_arg :: "'a option \<Rightarrow> 'a \<Rightarrow> 'a" where
  "the_arg x d = (case x of None \<Rightarrow> d | Some v \<Rightarrow> v)"

lemma the_arg_simps [simp]: "the_arg None d = d" "the_arg (Some v) d = v"
  by (simp_all add: the_arg_def)

end
