(* ===== verification/Utf8Clean.thy ===== *)
theory Utf8Clean
  imports Utf8Valid LuaValue
begin

text \<open>
  The Lua functions \<open>utf8.isvalid\<close>, \<open>utf8.invalidoffset\<close> and \<open>utf8.clean\<close> of
  \<^verbatim>\<open>luafar/src/lutf8lib.c\<close>. \<open>clean_spec\<close> says what cleaning promises, reading the string one
  character at a time; the code's nested scanning loops are shown to compute it.
\<close>

section \<open>The code\<close>

definition Lutf8_isvalid :: "bytes \<Rightarrow> lua_val list" where
  "Lutf8_isvalid s = [LBool (utf8_invalid_offset s 0 (length s) = None)]"

definition Lutf8_invalidoffset :: "bytes \<Rightarrow> int option \<Rightarrow> lua_val list" where
  "Lutf8_invalidoffset s arg2 =
     (let offset = cast_int (the_arg arg2 0);
          e = length s;
          scan = (\<lambda>p. case utf8_invalid_offset s p e of
              None \<Rightarrow> [LNil]
            | Some i \<Rightarrow> [LInt (int i + 1)])
      in if offset > 1 then
           let p = nat (offset - 1) in
           if p \<ge> e then [LNil] else scan p
         else if offset < 0 \<and> - int e < offset then scan (nat (int e + offset))
         else scan 0)"

text \<open>\<open>clean_skip\<close> is the inner loop: step over bytes until one of them starts a character.\<close>

lemma invalid_offset_range: "utf8_invalid_offset s p e = Some i \<Longrightarrow> p \<le> i \<and> i < e"
proof (induction s p e rule: utf8_invalid_offset.induct)
  case (1 s p e)
  show ?case
  proof (cases "utf8_code_unit s p e")
    case None
    with 1(2) show ?thesis by (simp add: utf8_invalid_offset.simps [of s p e] split: if_splits)
  next
    case (Some n)
    with 1(2) have "p < e" "utf8_invalid_offset s (p + n) e = Some i"
      by (simp_all add: utf8_invalid_offset.simps [of s p e] split: if_splits)
    with 1(1) Some show ?thesis by fastforce
  qed
qed

function clean_skip :: "bytes \<Rightarrow> nat \<Rightarrow> nat \<Rightarrow> nat \<times> nat option" where
  "clean_skip s p e =
     (let p' = p + 1;
          invalid = utf8_invalid_offset s p' e
      in if invalid = Some p' then clean_skip s p' e else (p', invalid))"
  by pat_completeness auto

termination
  by (relation "measure (\<lambda>(s, p, e). e - p)") (auto dest!: invalid_offset_range [OF sym])

declare clean_skip.simps [simp del]

lemma clean_skip_range:
  "clean_skip s p e = (p', w) \<Longrightarrow>
     p < p' \<and> w \<noteq> Some p' \<and> w = utf8_invalid_offset s p' e"
proof (induction s p e rule: clean_skip.induct)
  case (1 s p e)
  then show ?case
    by (subst (asm) (2) clean_skip.simps) (fastforce simp: Let_def split: if_splits)
qed

lemma offset_here:
  assumes "p < e"
  shows "utf8_invalid_offset s p e = Some p \<longleftrightarrow> utf8_code_unit s p e = None"
proof (cases "utf8_code_unit s p e")
  case None
  with assms show ?thesis by (simp add: utf8_invalid_offset.simps [of s p e])
next
  case (Some n)
  then have "utf8_invalid_offset s p e = utf8_invalid_offset s (p + n) e"
    using assms by (simp add: utf8_invalid_offset.simps [of s p e])
  with utf8_code_unit_pos [OF Some] invalid_offset_range [of s "p + n" e p] Some show ?thesis by auto
qed

function clean_loop :: "bytes \<Rightarrow> bytes \<Rightarrow> nat \<Rightarrow> nat \<Rightarrow> nat \<Rightarrow> bytes \<Rightarrow> bytes" where
  "clean_loop r s p invalid e buff =
     (let buff = buff @ take (invalid - p) (drop p s) @ r in
      case clean_skip s invalid e of
        (p', None) \<Rightarrow> buff @ take (e - p') (drop p' s)
      | (p', Some invalid') \<Rightarrow> clean_loop r s p' invalid' e buff)"
  by pat_completeness auto
termination
  by (relation "measure (\<lambda>(r, s, p, invalid, e, buff). e - invalid)")
    (fastforce dest!: clean_skip_range [OF sym] dest: invalid_offset_range [OF sym])+

declare clean_loop.simps [simp del]

definition default_repl :: bytes where "default_repl = [0xEF, 0xBF, 0xBD]"

text \<open>
  \<open>arg2\<close> is the replacement if one is given (\<^verbatim>\<open>lua_gettop(L) > 1\<close>; a nil replacement is the default
  one and passes the check).
\<close>

definition Lutf8_clean :: "bytes \<Rightarrow> bytes option \<Rightarrow> lua_val list lua_result" where
  "Lutf8_clean s arg2 =
     (let r = the_arg arg2 default_repl in
      if arg2 \<noteq> None \<and> utf8_invalid_offset r 0 (length r) \<noteq> None
      then Inl (LuaError ''replacement string must be valid UTF-8'')
      else case utf8_invalid_offset s 0 (length s) of
          None \<Rightarrow> Inr [LStr s, LBool True]
        | Some invalid \<Rightarrow> Inr [LStr (clean_loop r s 0 invalid (length s) []), LBool False])"

section \<open>What cleaning promises\<close>

text \<open>
  Every well-formed character is kept and every maximal run of other bytes becomes one
  replacement; \<open>bad\<close> says that the previous byte was already part of such a run.
\<close>

function clean_spec :: "bytes \<Rightarrow> bool \<Rightarrow> bytes \<Rightarrow> nat \<Rightarrow> bytes" where
  "clean_spec r bad s p =
     (if p < length s then
        case utf8_decode s p True of
          Some (q, v) \<Rightarrow> utf8_encode v @ clean_spec r False s q
        | None \<Rightarrow> (if bad then [] else r) @ clean_spec r True s (p + 1)
      else [])"
  by pat_completeness auto
termination
  by (relation "measure (\<lambda>(r, bad, s, p). length s - p)") (auto dest: strict_utf8.dec_end)

declare clean_spec.simps [simp del]

lemma code_unit_None: "p < length s \<Longrightarrow> utf8_code_unit s p (length s) = None \<longleftrightarrow> utf8_decode s p True = None"
proof -
  assume p: "p < length s"
  show ?thesis
  proof (cases "utf8_decode s p True")
    case None
    then show ?thesis using utf8_code_unit_iff [OF p] by (metis not_None_eq)
  next
    case (Some qv)
    then obtain q v where d: "utf8_decode s p True = Some (q, v)" by (cases qv) auto
    with strict_utf8.dec_end [OF p] have "q = p + (q - p)" by fastforce
    with d utf8_code_unit_iff [OF p, of "q - p"] show ?thesis by auto
  qed
qed

text \<open>The scanner skips exactly what \<open>clean_spec\<close> keeps.\<close>

lemma clean_spec_keep:
  assumes "p \<le> length s"
  shows "case utf8_invalid_offset s p (length s) of
      None \<Rightarrow> clean_spec r False s p = drop p s
    | Some i \<Rightarrow> clean_spec r False s p = take (i - p) (drop p s) @ r @ clean_spec r True s (i + 1)"
  using assms
proof (induction s p "length s" rule: utf8_invalid_offset.induct)
  case (1 s p)
  show ?case
  proof (cases "p < length s")
    case False
    then show ?thesis by (simp add: utf8_invalid_offset.simps [of s p] clean_spec.simps [of r False s p])
  next
    case p: True
    show ?thesis
    proof (cases "utf8_code_unit s p (length s)")
      case None
      then show ?thesis
        using p code_unit_None [OF p]
        by (simp add: utf8_invalid_offset.simps [of s p] clean_spec.simps [of r False s p])
    next
      case (Some n)
      then obtain v where d: "utf8_decode s p True = Some (p + n, v)"
        using utf8_code_unit_iff [OF p] by blast
      from strict_utf8.dec_end [OF p d] have le: "p + n \<le> length s" by simp
      from d have n: "n = length (utf8_encode v)" by (simp add: decode_iff)
      have dr: "drop p s = utf8_encode v @ drop (p + n) s" by (rule strict_utf8.dec_drop [OF p d])
      have c: "clean_spec r False s p = utf8_encode v @ clean_spec r False s (p + n)"
        using p d by (simp add: clean_spec.simps [of r False s p])
      have o: "utf8_invalid_offset s p (length s) = utf8_invalid_offset s (p + n) (length s)"
        using p Some by (simp add: utf8_invalid_offset.simps [of s p])
      have "take (i - p) (drop p s) = utf8_encode v @ take (i - (p + n)) (drop (p + n) s)"
        if "p + n \<le> i" for i
        using that n by (simp add: dr)
      then show ?thesis
        using 1(1) [OF p Some le] dr by (auto simp: c o split: option.splits dest!: invalid_offset_range)
    qed
  qed
qed

lemma clean_spec_bad:
  assumes "utf8_invalid_offset s p (length s) \<noteq> Some p"
  shows "clean_spec r True s p = clean_spec r False s p"
proof (cases "p < length s")
  case True
  with assms have "utf8_code_unit s p (length s) \<noteq> None" by (simp add: offset_here)
  with True show ?thesis
    using code_unit_None [OF True] by (auto simp: clean_spec.simps [of r _ s p])
qed (simp add: clean_spec.simps)

lemma clean_skip_spec:
  "clean_skip s p (length s) = (p', w) \<Longrightarrow> p < length s \<Longrightarrow>
     p' \<le> length s \<and> clean_spec r True s (p + 1) = clean_spec r True s p'"
proof (induction s p "length s" arbitrary: p' w rule: clean_skip.induct)
  case (1 s p)
  show ?case
  proof (cases "utf8_invalid_offset s (p + 1) (length s) = Some (p + 1)")
    case True
    then have p1: "p + 1 < length s" using invalid_offset_range by blast
    with True have "utf8_decode s (p + 1) True = None"
      using code_unit_None [OF p1] by (simp add: offset_here)
    with p1 have "clean_spec r True s (p + 1) = clean_spec r True s (p + 1 + 1)"
      by (subst clean_spec.simps) simp
    moreover have "clean_skip s (p + 1) (length s) = (p', w)"
      using 1(2) True by (subst (asm) clean_skip.simps) simp
    ultimately show ?thesis using 1(1) [OF refl refl True _ p1] by simp
  next
    case False
    with 1(2) have "p' = p + 1" by (subst (asm) clean_skip.simps) (simp add: Let_def)
    with 1(3) show ?thesis by simp
  qed
qed

lemma clean_loop_spec:
  assumes "utf8_invalid_offset s p (length s) = Some invalid" and "p \<le> length s"
  shows "clean_loop r s p invalid (length s) buff = buff @ clean_spec r False s p"
  using assms
proof (induction "length s - invalid" arbitrary: p invalid buff rule: less_induct)
  case less
  obtain p' w where skip: "clean_skip s invalid (length s) = (p', w)" by fastforce
  from less.prems have i: "p \<le> invalid" "invalid < length s" using invalid_offset_range by blast+
  from clean_skip_range [OF skip] have p': "invalid < p'" "w \<noteq> Some p'"
    "w = utf8_invalid_offset s p' (length s)" by blast+
  from clean_skip_spec [OF skip i(2), of r] have le: "p' \<le> length s"
    and sp: "clean_spec r True s (invalid + 1) = clean_spec r True s p'" by blast+
  have tf: "clean_spec r True s p' = clean_spec r False s p'"
    using p'(2,3) by (intro clean_spec_bad) simp
  have keep: "clean_spec r False s p = take (invalid - p) (drop p s) @ r @ clean_spec r False s p'"
    using clean_spec_keep [OF less.prems(2), of r] less.prems(1) sp tf by simp
  show ?case
  proof (cases w)
    case None
    then have "clean_spec r False s p' = drop p' s"
      using clean_spec_keep [OF le, of r] p'(3) by simp
    with keep skip None show ?thesis by (subst clean_loop.simps) (simp add: Let_def)
  next
    case (Some j)
    with p'(3) have "invalid < j" "j < length s" using invalid_offset_range p'(1) by fastforce+
    with less.hyps [of j p'] Some p'(3) le
    have "clean_loop r s p' j (length s) b = b @ clean_spec r False s p'" for b by simp
    with keep skip Some show ?thesis by (subst clean_loop.simps) (simp add: Let_def)
  qed
qed

lemma default_repl_valid: "utf8_invalid_offset default_repl 0 (length default_repl) = None"
  by code_simp

lemma clean_result:
  assumes "utf8_invalid_offset (the_arg arg2 default_repl) 0 (length (the_arg arg2 default_repl)) = None"
  shows "Lutf8_clean s arg2 = Inr [LStr (clean_spec (the_arg arg2 default_repl) False s 0),
    LBool (utf8_invalid_offset s 0 (length s) = None)]"
  using assms clean_spec_keep [of 0 s] clean_loop_spec [of s 0]
  by (auto simp: Lutf8_clean_def Let_def split: option.splits)

lemma clean_spec_valid:
  assumes "strict_utf8.encodes rs r"
  shows "\<exists>vs. strict_utf8.encodes vs (clean_spec r bad s p)"
  using assms
proof (induction r bad s p rule: clean_spec.induct)
  case (1 r bad s p)
  show ?case
  proof (cases "p < length s")
    case False
    then show ?thesis by (subst clean_spec.simps) (auto intro: exI [of _ "[]"])
  next
    case p: True
    show ?thesis
    proof (cases "utf8_decode s p True")
      case None
      with 1 p obtain vs where "strict_utf8.encodes vs (clean_spec r True s (p + 1))" by blast
      then have "strict_utf8.encodes (rs @ vs) (r @ clean_spec r True s (p + 1))"
        using 1(3) by (intro strict_utf8.encodes_append)
      with None p \<open>strict_utf8.encodes vs _\<close> show ?thesis by (subst clean_spec.simps) auto
    next
      case (Some qv)
      then obtain q v where d: "utf8_decode s p True = Some (q, v)" by (cases qv) auto
      with 1(2) [OF p d refl 1(3)] obtain vs where "strict_utf8.encodes vs (clean_spec r False s q)" by blast
      moreover have "\<not> utf8_invalid v" using d by (simp add: decode_iff)
      ultimately have "strict_utf8.encodes (v # vs) (utf8_encode v @ clean_spec r False s q)"
        by (auto simp: strict_utf8.encodes_Cons)
      with d p show ?thesis by (subst clean_spec.simps) auto
    qed
  qed
qed

lemma scalars_encodes:
  "(\<exists>vs. strict_utf8.encodes vs s) \<longleftrightarrow>
     (\<exists>vs. list_all (\<lambda>v. \<not> utf8_invalid v) vs \<and> s = concat (map utf8_encode vs))"
  by (simp add: strict_utf8.encodes_def list_all_iff)

lemma first_invalid_iff:
  "utf8_invalid_offset s 0 (length s) = Some i \<longleftrightarrow>
     i < length s \<and> utf8_decode s i True = None \<and> (\<exists>vs. strict_utf8.encodes vs (take i s))"
proof
  assume "utf8_invalid_offset s 0 (length s) = Some i"
  with invalid_offset_spec [of 0 s] show
    "i < length s \<and> utf8_decode s i True = None \<and> (\<exists>vs. strict_utf8.encodes vs (take i s))" by auto
next
  assume "i < length s \<and> utf8_decode s i True = None \<and> (\<exists>vs. strict_utf8.encodes vs (take i s))"
  then obtain vs where i: "i < length s" "utf8_decode s i True = None"
    and vs: "strict_utf8.encodes vs (take i s)" by blast
  have "utf8_invalid_offset s 0 (length s) = utf8_invalid_offset s (0 + i) (length s)"
    using vs i by (intro invalid_offset_skip) simp_all
  with i show "utf8_invalid_offset s 0 (length s) = Some i"
    by (simp add: offset_here code_unit_None)
qed

section \<open>Properties\<close>

text \<open>
  \<open>utf8_invalid_offset\<close> returns \<open>Some i\<close> exactly when the bytes before \<open>i\<close> are a sequence of
  encoded scalar values and no strict character starts at \<open>i\<close>: its hand-written byte ranges
  (overlong forms, surrogates, code points above 0x10FFFF, truncation) are those of the decoder.
\<close>

theorem utf8_invalid_offset_first:
  "utf8_invalid_offset s 0 (length s) = Some i \<longleftrightarrow>
     i < length s \<and> utf8_decode s i True = None \<and>
     (\<exists>vs. list_all (\<lambda>v. \<not> utf8_invalid v) vs \<and> take i s = concat (map utf8_encode vs))"
  by (simp add: first_invalid_iff scalars_encodes)

text \<open>
  \<open>utf8.isvalid\<close> is true exactly for the concatenations of encoded Unicode scalar values.
\<close>

theorem Lutf8_isvalid_iff:
  "Lutf8_isvalid s =
     [LBool (\<exists>vs. list_all (\<lambda>v. \<not> utf8_invalid v) vs \<and> s = concat (map utf8_encode vs))]"
  by (simp add: Lutf8_isvalid_def valid_iff scalars_encodes)

text \<open>
  C2. \<open>utf8.clean\<close> refines \<open>clean_spec\<close>: it raises an error for a replacement that is not valid
  UTF-8 and otherwise returns the string with every maximal run of malformed bytes replaced once,
  and whether there was none.
\<close>

theorem Lutf8_clean_refines:
  "Lutf8_clean s arg2 =
     (if Lutf8_isvalid (the_arg arg2 default_repl) = [LBool True]
      then Inr [LStr (clean_spec (the_arg arg2 default_repl) False s 0),
             LBool (utf8_invalid_offset s 0 (length s) = None)]
      else Inl (LuaError ''replacement string must be valid UTF-8''))"
proof (cases arg2)
  case None
  then show ?thesis
    using clean_result [of arg2 s] default_repl_valid by (simp add: Lutf8_isvalid_def)
next
  case (Some r)
  then show ?thesis
    using clean_result [of arg2 s] by (auto simp: Lutf8_isvalid_def Lutf8_clean_def)
qed

text \<open>
  What \<open>utf8.clean\<close> returns is always valid UTF-8, it is the argument exactly when the
  second result is true, and cleaning it again changes nothing.
\<close>

theorem Lutf8_clean_valid:
  assumes "Lutf8_clean s arg2 = Inr [LStr t, LBool ok]"
  shows "Lutf8_isvalid t = [LBool True] \<and> (ok \<longleftrightarrow> t = s) \<and> Lutf8_clean t arg2 = Inr [LStr t, LBool True]"
proof -
  let ?r = "the_arg arg2 default_repl"
  have r: "utf8_invalid_offset ?r 0 (length ?r) = None"
    using assms default_repl_valid by (cases arg2) (auto simp: Lutf8_clean_def Let_def split: if_splits)
  then obtain rs where rs: "strict_utf8.encodes rs ?r" using valid_iff by blast
  have t: "t = clean_spec ?r False s 0" and ok: "ok \<longleftrightarrow> utf8_invalid_offset s 0 (length s) = None"
    using assms clean_result [OF r, of s] by simp_all
  have valid: "utf8_invalid_offset t 0 (length t) = None"
    unfolding valid_iff t by (rule clean_spec_valid [OF rs])
  have same: "clean_spec ?r False x 0 = x" if "utf8_invalid_offset x 0 (length x) = None" for x
    using clean_spec_keep [of 0 x ?r] that by simp
  show ?thesis
    using valid same [OF valid] same [of s] clean_result [OF r, of t] ok t
    by (auto simp: Lutf8_isvalid_def)
qed

theorem Lutf8_clean_valid_witness:
  "Lutf8_isvalid [0x61, 0xEF, 0xBF, 0xBD, 0x62] = [LBool True] \<and>
   Lutf8_clean [0x61, 0xC0, 0xFF, 0x62] None = Inr [LStr [0x61, 0xEF, 0xBF, 0xBD, 0x62], LBool False]"
proof -
  have *: "Lutf8_clean [0x61, 0xC0, 0xFF, 0x62] None =
      Inr [LStr [0x61, 0xEF, 0xBF, 0xBD, 0x62], LBool False]" by code_simp
  from Lutf8_clean_valid [OF *] * show ?thesis by simp
qed

end
