(* ===== verification/UniTables.thy ===== *)
theory UniTables
  imports LuaValue
begin

text \<open>
  The lookup of character properties in \<^verbatim>\<open>luafar/src/lutf8lib.c\<close>: binary searches
  \<open>find_in_range\<close> and \<open>convert_char\<close> in sorted tables of code point ranges. The tables of
  \<^verbatim>\<open>unidata.h\<close> are generated from the Unicode database; the functions that use them take them
  as an argument (\<open>unidata\<close>), and the control character table is given as it is in the file.

  The locale \<open>ordered_table\<close> is the contract of such a search: rows with increasing, disjoint
  ranges. It is shared with the code page tables of the WinPort layer.
\<close>

section \<open>Searches in an ordered table\<close>

locale ordered_table =
  fixes lo hi :: "nat \<Rightarrow> nat" and n :: nat
  assumes row: "i < n \<Longrightarrow> lo i \<le> hi i"
    and rows: "i < j \<Longrightarrow> j < n \<Longrightarrow> hi i < lo j"
begin

definition hit :: "nat \<Rightarrow> nat \<Rightarrow> bool" where
  "hit c i \<longleftrightarrow> i < n \<and> lo i \<le> c \<and> c \<le> hi i"

lemma hit_unique: "hit c i \<Longrightarrow> hit c j \<Longrightarrow> i = j"
  using rows [of i j] rows [of j i] unfolding hit_def by (metis leD le_less_trans linorder_neqE_nat order_trans)

lemma hit_right: "hit c i \<Longrightarrow> m < n \<Longrightarrow> hi m < c \<Longrightarrow> m < i"
  using rows [of i m] row [of m] unfolding hit_def by (metis le_less_trans less_le_trans linorder_neqE_nat not_less order_less_imp_le)

lemma hit_left: "hit c i \<Longrightarrow> m < n \<Longrightarrow> c < lo m \<Longrightarrow> i < m"
  using rows [of m i] row [of m] unfolding hit_def by (metis le_less_trans less_le_trans linorder_neqE_nat not_less order_less_imp_le)

end

lemma ordered_table_adjacent:
  assumes "\<And>i. i < n \<Longrightarrow> lo i \<le> hi i" and "\<And>i. Suc i < n \<Longrightarrow> hi i < lo (Suc i)"
  shows "ordered_table lo hi n"
proof
  show "lo i \<le> hi i" if "i < n" for i using that by (rule assms)
  show "hi i < lo j" if "i < j" "j < n" for i j
    using that
  proof (induction j)
    case (Suc j)
    show ?case
    proof (cases "i = j")
      case True
      then show ?thesis using Suc.prems assms(2) by simp
    next
      case False
      then have "hi i < lo j" using Suc by simp
      also have "lo j \<le> hi j" using Suc.prems assms(1) by simp
      also have "hi j < lo (Suc j)" using Suc.prems assms(2) by simp
      finally show ?thesis .
    qed
  qed simp
qed

section \<open>The code\<close>

record range_row =
  rfirst :: u32
  rlast :: u32
  rstep :: u32

record conv_row =
  cfirst :: u32
  clast :: u32
  cstep :: u32
  coffset :: u32

text \<open>
  The remainder by \<open>step\<close> is an integer division: it traps for a step of 0.
\<close>

definition on_step :: "u32 \<Rightarrow> u32 \<Rightarrow> u32 \<Rightarrow> bool lua_result" where
  "on_step ch f st = (if st = 0 then Inl Trap else Inr ((ch - f) mod st = 0))"

function find_in_range_loop :: "range_row list \<Rightarrow> u32 \<Rightarrow> nat \<Rightarrow> nat \<Rightarrow> bool lua_result" where
  "find_in_range_loop t ch begin' end' =
     (if begin' < end' then
        let mid = (begin' + end') div 2 in
        if rlast (t ! mid) < ch then find_in_range_loop t ch (mid + 1) end'
        else if rfirst (t ! mid) > ch then find_in_range_loop t ch begin' mid
        else on_step ch (rfirst (t ! mid)) (rstep (t ! mid))
      else Inr False)"
  by pat_completeness auto
termination
  by (relation "measure (\<lambda>(t, ch, b, e). e - b)") auto

declare find_in_range_loop.simps [simp del]

definition find_in_range :: "range_row list \<Rightarrow> u32 \<Rightarrow> bool lua_result" where
  "find_in_range t ch = find_in_range_loop t ch 0 (length t)"

function convert_char_loop :: "conv_row list \<Rightarrow> u32 \<Rightarrow> nat \<Rightarrow> nat \<Rightarrow> u32 lua_result" where
  "convert_char_loop t ch begin' end' =
     (if begin' < end' then
        let mid = (begin' + end') div 2 in
        if clast (t ! mid) < ch then convert_char_loop t ch (mid + 1) end'
        else if cfirst (t ! mid) > ch then convert_char_loop t ch begin' mid
        else bind_lua (on_step ch (cfirst (t ! mid)) (cstep (t ! mid)))
          (\<lambda>b. Inr (if b then ch + coffset (t ! mid) else ch))
      else Inr ch)"
  by pat_completeness auto
termination
  by (relation "measure (\<lambda>(t, ch, b, e). e - b)") auto

declare convert_char_loop.simps [simp del]

definition convert_char :: "conv_row list \<Rightarrow> u32 \<Rightarrow> u32 lua_result" where
  "convert_char t ch = convert_char_loop t ch 0 (length t)"

text \<open>The generated tables that the character functions read.\<close>

record unidata =
  alpha_table :: "range_row list"
  cntrl_table :: "range_row list"
  digit_table :: "range_row list"
  lower_table :: "range_row list"
  punct_table :: "range_row list"
  space_table :: "range_row list"
  compose_table :: "range_row list"
  upper_table :: "range_row list"
  xdigit_table :: "range_row list"
  graph_table :: "range_row list"
  alnum_extend_table :: "range_row list"
  doublewidth_table :: "range_row list"
  ambiwidth_table :: "range_row list"
  unprintable_table :: "range_row list"
  tolower_table :: "conv_row list"
  toupper_table :: "conv_row list"
  totitle_table :: "conv_row list"
  tofold_table :: "conv_row list"

definition utf8_isgraph :: "unidata \<Rightarrow> u32 \<Rightarrow> bool lua_result" where
  "utf8_isgraph U ch =
     bind_lua (find_in_range (space_table U) ch) (\<lambda>b. if b then Inr False else
     bind_lua (find_in_range (graph_table U) ch) (\<lambda>b. if b then Inr True else
     bind_lua (find_in_range (compose_table U) ch) (\<lambda>b. Inr b)))"

definition utf8_isalnum :: "unidata \<Rightarrow> u32 \<Rightarrow> bool lua_result" where
  "utf8_isalnum U ch =
     bind_lua (find_in_range (alpha_table U) ch) (\<lambda>b. if b then Inr True else
     bind_lua (find_in_range (alnum_extend_table U) ch) (\<lambda>b. Inr b))"

definition utf8_width :: "unidata \<Rightarrow> u32 \<Rightarrow> bool \<Rightarrow> int lua_result" where
  "utf8_width U ch ambi_is_single =
     bind_lua (find_in_range (doublewidth_table U) ch) (\<lambda>b. if b then Inr 2 else
     bind_lua (find_in_range (ambiwidth_table U) ch) (\<lambda>b. if b then Inr (if ambi_is_single then 1 else 2) else
     bind_lua (find_in_range (compose_table U) ch) (\<lambda>b. if b then Inr 0 else
     bind_lua (find_in_range (unprintable_table U) ch) (\<lambda>b. if b then Inr 0 else Inr 1))))"

definition utf8_tolower :: "unidata \<Rightarrow> u32 \<Rightarrow> u32 lua_result" where
  "utf8_tolower U = convert_char (tolower_table U)"
definition utf8_toupper :: "unidata \<Rightarrow> u32 \<Rightarrow> u32 lua_result" where
  "utf8_toupper U = convert_char (toupper_table U)"
definition utf8_totitle :: "unidata \<Rightarrow> u32 \<Rightarrow> u32 lua_result" where
  "utf8_totitle U = convert_char (totitle_table U)"
definition utf8_tofold :: "unidata \<Rightarrow> u32 \<Rightarrow> u32 lua_result" where
  "utf8_tofold U = convert_char (tofold_table U)"

definition utf8_iscompose :: "unidata \<Rightarrow> u32 \<Rightarrow> bool lua_result" where
  "utf8_iscompose U = find_in_range (compose_table U)"
definition utf8_isdigit :: "unidata \<Rightarrow> u32 \<Rightarrow> bool lua_result" where
  "utf8_isdigit U = find_in_range (digit_table U)"
definition utf8_islower :: "unidata \<Rightarrow> u32 \<Rightarrow> bool lua_result" where
  "utf8_islower U = find_in_range (lower_table U)"

text \<open>The control character table of the file.\<close>

definition row3 :: "u32 \<Rightarrow> u32 \<Rightarrow> u32 \<Rightarrow> range_row" where
  "row3 f l s = \<lparr>rfirst = f, rlast = l, rstep = s\<rparr>"

definition cntrl_rows :: "range_row list" where
  "cntrl_rows = [
    row3 0x0 0x1F 1, row3 0x7F 0x9F 1, row3 0xAD 0x600 1363, row3 0x601 0x605 1, row3 0x61C 0x6DD 193,
    row3 0x70F 0x890 385, row3 0x891 0x8E2 81, row3 0x180E 0x200B 2045, row3 0x200C 0x200F 1,
    row3 0x202A 0x202E 1, row3 0x2060 0x2064 1, row3 0x2066 0x206F 1, row3 0xE000 0xE000 0,
    row3 0xE001 0xF8FF 1, row3 0xFEFF 0xFFF9 250, row3 0xFFFA 0xFFFB 1, row3 0x110BD 0x110CD 16,
    row3 0x13430 0x1343F 1, row3 0x1BCA0 0x1BCA3 1, row3 0x1D173 0x1D17A 1, row3 0xE0001 0xE0020 31,
    row3 0xE0021 0xE007F 1, row3 0xF0000 0xF0000 0, row3 0xF0001 0xFFFFD 1, row3 0x100000 0x100000 0,
    row3 0x100001 0x10FFFD 1]"

section \<open>What the searches find\<close>

text \<open>
  A table is in order when each range is nonempty and ends before the next one starts;
  \<open>in_table\<close> is the linear search.
\<close>

fun in_order :: "(u32 \<times> u32) list \<Rightarrow> bool" where
  "in_order [] = True"
| "in_order [r] = (fst r \<le> snd r)"
| "in_order (r # r' # rs) = (fst r \<le> snd r \<and> snd r < fst r' \<and> in_order (r' # rs))"

definition range_order :: "range_row list \<Rightarrow> bool" where
  "range_order t = in_order (map (\<lambda>r. (rfirst r, rlast r)) t)"

definition conv_order :: "conv_row list \<Rightarrow> bool" where
  "conv_order t = in_order (map (\<lambda>r. (cfirst r, clast r)) t)"

fun in_table :: "range_row list \<Rightarrow> u32 \<Rightarrow> bool lua_result" where
  "in_table [] ch = Inr False"
| "in_table (r # t) ch =
     (if rfirst r \<le> ch \<and> ch \<le> rlast r then on_step ch (rfirst r) (rstep r) else in_table t ch)"

fun conv_table :: "conv_row list \<Rightarrow> u32 \<Rightarrow> u32 lua_result" where
  "conv_table [] ch = Inr ch"
| "conv_table (r # t) ch =
     (if cfirst r \<le> ch \<and> ch \<le> clast r
      then bind_lua (on_step ch (cfirst r) (cstep r)) (\<lambda>b. Inr (if b then ch + coffset r else ch))
      else conv_table t ch)"

lemma in_order_nth: "in_order rs \<Longrightarrow> i < length rs \<Longrightarrow> fst (rs ! i) \<le> snd (rs ! i)"
  by (induction rs arbitrary: i rule: in_order.induct) (auto simp: nth_Cons split: nat.splits)

lemma in_order_Suc: "in_order rs \<Longrightarrow> Suc i < length rs \<Longrightarrow> snd (rs ! i) < fst (rs ! Suc i)"
  by (induction rs arbitrary: i rule: in_order.induct) (auto simp: nth_Cons split: nat.splits)

lemma in_order_table:
  "in_order rs \<Longrightarrow> ordered_table (\<lambda>i. unat (fst (rs ! i))) (\<lambda>i. unat (snd (rs ! i))) (length rs)"
  using in_order_nth [of rs] in_order_Suc [of rs]
  by (intro ordered_table_adjacent) (auto simp: word_le_nat_alt word_less_nat_alt)

definition row_hit :: "(u32 \<times> u32) list \<Rightarrow> u32 \<Rightarrow> nat \<Rightarrow> bool" where
  "row_hit rs ch i \<longleftrightarrow> i < length rs \<and> fst (rs ! i) \<le> ch \<and> ch \<le> snd (rs ! i)"

lemma row_hit_rules:
  assumes "in_order rs"
  shows "row_hit rs ch i \<Longrightarrow> row_hit rs ch j \<Longrightarrow> i = j"
    and "row_hit rs ch i \<Longrightarrow> m < length rs \<Longrightarrow> snd (rs ! m) < ch \<Longrightarrow> m < i"
    and "row_hit rs ch i \<Longrightarrow> m < length rs \<Longrightarrow> ch < fst (rs ! m) \<Longrightarrow> i < m"
proof -
  note ot = in_order_table [OF assms]
  have h: "row_hit rs ch i \<longleftrightarrow>
      ordered_table.hit (\<lambda>i. unat (fst (rs ! i))) (\<lambda>i. unat (snd (rs ! i))) (length rs) (unat ch) i" for i
    by (simp add: row_hit_def ordered_table.hit_def [OF ot] word_le_nat_alt)
  show "row_hit rs ch i \<Longrightarrow> row_hit rs ch j \<Longrightarrow> i = j"
    unfolding h by (rule ordered_table.hit_unique [OF ot])
  show "row_hit rs ch i \<Longrightarrow> m < length rs \<Longrightarrow> snd (rs ! m) < ch \<Longrightarrow> m < i"
    unfolding h word_less_nat_alt by (rule ordered_table.hit_right [OF ot])
  show "row_hit rs ch i \<Longrightarrow> m < length rs \<Longrightarrow> ch < fst (rs ! m) \<Longrightarrow> i < m"
    unfolding h word_less_nat_alt by (rule ordered_table.hit_left [OF ot])
qed

abbreviation range_keys :: "range_row list \<Rightarrow> (u32 \<times> u32) list" where
  "range_keys t \<equiv> map (\<lambda>r. (rfirst r, rlast r)) t"

abbreviation conv_keys :: "conv_row list \<Rightarrow> (u32 \<times> u32) list" where
  "conv_keys t \<equiv> map (\<lambda>r. (cfirst r, clast r)) t"

lemma row_hit_Cons: "row_hit (r # rs) ch (Suc i) = row_hit rs ch i"
  by (simp add: row_hit_def)

lemma in_table_none: "\<not> (\<exists>i. row_hit (range_keys t) ch i) \<Longrightarrow> in_table t ch = Inr False"
proof (induction t)
  case (Cons r t)
  then have "\<not> row_hit (range_keys (r # t)) ch 0" "\<And>i. \<not> row_hit (range_keys (r # t)) ch (Suc i)" by blast+
  with Cons.IH show ?case by (auto simp: row_hit_Cons) (auto simp: row_hit_def)
qed simp

lemma in_table_hit:
  "row_hit (range_keys t) ch i \<Longrightarrow> (\<forall>j. row_hit (range_keys t) ch j \<longrightarrow> j = i) \<Longrightarrow>
   in_table t ch = on_step ch (rfirst (t ! i)) (rstep (t ! i))"
proof (induction t arbitrary: i)
  case (Cons r t)
  show ?case
  proof (cases i)
    case 0
    show ?thesis using Cons.prems(1) unfolding 0 nth_Cons_0 by (simp add: row_hit_def)
  next
    case (Suc k)
    have c: "row_hit (range_keys (r # t)) ch (Suc j) = row_hit (range_keys t) ch j" for j
      by (simp add: row_hit_Cons)
    have n0: "\<not> row_hit (range_keys (r # t)) ch 0"
      using spec [OF Cons.prems(2), of 0] Suc by simp
    have hk: "row_hit (range_keys t) ch k"
      using Cons.prems(1) Suc c [of k] by simp
    have u: "\<forall>j. row_hit (range_keys t) ch j \<longrightarrow> j = k"
    proof (intro allI impI)
      fix j
      assume "row_hit (range_keys t) ch j"
      then have "Suc j = i" using spec [OF Cons.prems(2), of "Suc j"] c [of j] by simp
      then show "j = k" using Suc by simp
    qed
    from Cons.IH [OF hk u] n0 show ?thesis unfolding Suc nth_Cons_Suc by (auto simp: row_hit_def)
  qed
qed (simp add: row_hit_def)

lemma find_in_range_loop_spec:
  assumes "range_order t" and "e \<le> length t"
    and "\<forall>i. row_hit (range_keys t) ch i \<longrightarrow> b \<le> i \<and> i < e"
  shows "find_in_range_loop t ch b e = in_table t ch"
  using assms
proof (induction t ch b e rule: find_in_range_loop.induct)
  case (1 t ch b e)
  define mid where "mid = (b + e) div 2"
  note rules = row_hit_rules [OF 1(3) [unfolded range_order_def], of ch]
  show ?case
  proof (cases "b < e")
    case False
    with 1(5) have "\<not> (\<exists>i. row_hit (range_keys t) ch i)" by fastforce
    then show ?thesis using False in_table_none by (subst find_in_range_loop.simps) simp
  next
    case True
    then have mid: "mid < e" "b \<le> mid" by (auto simp: mid_def)
    with 1(4) have ml: "mid < length t" by simp
    consider "rlast (t ! mid) < ch" | "\<not> rlast (t ! mid) < ch" "ch < rfirst (t ! mid)"
      | "\<not> rlast (t ! mid) < ch" "\<not> ch < rfirst (t ! mid)" by blast
    then show ?thesis
    proof cases
      case 1
      then have "\<forall>i. row_hit (range_keys t) ch i \<longrightarrow> mid + 1 \<le> i \<and> i < e"
        using "1.prems"(3) rules(2) [of _ mid] ml by fastforce
      with "1.IH"(1) [OF True mid_def 1] "1.prems" have "find_in_range_loop t ch (mid + 1) e = in_table t ch" by simp
      then show ?thesis using 1 True by (subst find_in_range_loop.simps) (simp add: mid_def)
    next
      case 2
      then have "\<forall>i. row_hit (range_keys t) ch i \<longrightarrow> b \<le> i \<and> i < mid"
        using "1.prems"(3) rules(3) [of _ mid] ml by fastforce
      with "1.IH"(2) [OF True mid_def 2] "1.prems" mid have "find_in_range_loop t ch b mid = in_table t ch" by simp
      then show ?thesis using 2 True by (subst find_in_range_loop.simps) (simp add: mid_def)
    next
      case 3
      then have h: "row_hit (range_keys t) ch mid" using ml by (auto simp: row_hit_def)
      with rules(1) in_table_hit [OF h] have "in_table t ch = on_step ch (rfirst (t ! mid)) (rstep (t ! mid))" by blast
      then show ?thesis using 3 True by (subst find_in_range_loop.simps) (simp add: mid_def Let_def)
    qed
  qed
qed

lemma find_in_range_spec: "range_order t \<Longrightarrow> find_in_range t ch = in_table t ch"
  unfolding find_in_range_def
  by (rule find_in_range_loop_spec) (auto simp: row_hit_def)

lemma conv_table_none: "\<not> (\<exists>i. row_hit (conv_keys t) ch i) \<Longrightarrow> conv_table t ch = Inr ch"
proof (induction t)
  case (Cons r t)
  then have "\<not> row_hit (conv_keys (r # t)) ch 0" "\<And>i. \<not> row_hit (conv_keys (r # t)) ch (Suc i)" by blast+
  with Cons.IH show ?case by (auto simp: row_hit_Cons) (auto simp: row_hit_def)
qed simp

lemma conv_table_hit:
  "row_hit (conv_keys t) ch i \<Longrightarrow> (\<forall>j. row_hit (conv_keys t) ch j \<longrightarrow> j = i) \<Longrightarrow>
   conv_table t ch = bind_lua (on_step ch (cfirst (t ! i)) (cstep (t ! i)))
     (\<lambda>b. Inr (if b then ch + coffset (t ! i) else ch))"
proof (induction t arbitrary: i)
  case (Cons r t)
  show ?case
  proof (cases i)
    case 0
    show ?thesis using Cons.prems(1) unfolding 0 nth_Cons_0 by (simp add: row_hit_def)
  next
    case (Suc k)
    have c: "row_hit (conv_keys (r # t)) ch (Suc j) = row_hit (conv_keys t) ch j" for j
      by (simp add: row_hit_Cons)
    have n0: "\<not> row_hit (conv_keys (r # t)) ch 0"
      using spec [OF Cons.prems(2), of 0] Suc by simp
    have hk: "row_hit (conv_keys t) ch k"
      using Cons.prems(1) Suc c [of k] by simp
    have u: "\<forall>j. row_hit (conv_keys t) ch j \<longrightarrow> j = k"
    proof (intro allI impI)
      fix j
      assume "row_hit (conv_keys t) ch j"
      then have "Suc j = i" using spec [OF Cons.prems(2), of "Suc j"] c [of j] by simp
      then show "j = k" using Suc by simp
    qed
    from Cons.IH [OF hk u] n0 show ?thesis unfolding Suc nth_Cons_Suc by (auto simp: row_hit_def)
  qed
qed (simp add: row_hit_def)

lemma convert_char_loop_spec:
  assumes "conv_order t" and "e \<le> length t"
    and "\<forall>i. row_hit (conv_keys t) ch i \<longrightarrow> b \<le> i \<and> i < e"
  shows "convert_char_loop t ch b e = conv_table t ch"
  using assms
proof (induction t ch b e rule: convert_char_loop.induct)
  case (1 t ch b e)
  define mid where "mid = (b + e) div 2"
  note rules = row_hit_rules [OF 1(3) [unfolded conv_order_def], of ch]
  show ?case
  proof (cases "b < e")
    case False
    with 1(5) have "\<not> (\<exists>i. row_hit (conv_keys t) ch i)" by fastforce
    then show ?thesis using False conv_table_none by (subst convert_char_loop.simps) simp
  next
    case True
    then have mid: "mid < e" "b \<le> mid" by (auto simp: mid_def)
    with 1(4) have ml: "mid < length t" by simp
    consider "clast (t ! mid) < ch" | "\<not> clast (t ! mid) < ch" "ch < cfirst (t ! mid)"
      | "\<not> clast (t ! mid) < ch" "\<not> ch < cfirst (t ! mid)" by blast
    then show ?thesis
    proof cases
      case 1
      then have "\<forall>i. row_hit (conv_keys t) ch i \<longrightarrow> mid + 1 \<le> i \<and> i < e"
        using "1.prems"(3) rules(2) [of _ mid] ml by fastforce
      with "1.IH"(1) [OF True mid_def 1] "1.prems" have "convert_char_loop t ch (mid + 1) e = conv_table t ch" by simp
      then show ?thesis using 1 True by (subst convert_char_loop.simps) (simp add: mid_def)
    next
      case 2
      then have "\<forall>i. row_hit (conv_keys t) ch i \<longrightarrow> b \<le> i \<and> i < mid"
        using "1.prems"(3) rules(3) [of _ mid] ml by fastforce
      with "1.IH"(2) [OF True mid_def 2] "1.prems" mid have "convert_char_loop t ch b mid = conv_table t ch" by simp
      then show ?thesis using 2 True by (subst convert_char_loop.simps) (simp add: mid_def)
    next
      case 3
      then have h: "row_hit (conv_keys t) ch mid" using ml by (auto simp: row_hit_def)
      with rules(1) have "conv_table t ch = bind_lua (on_step ch (cfirst (t ! mid)) (cstep (t ! mid)))
          (\<lambda>b. Inr (if b then ch + coffset (t ! mid) else ch))" by (intro conv_table_hit) blast+
      then show ?thesis using 3 True by (subst convert_char_loop.simps) (simp add: mid_def [symmetric] Let_def)
    qed
  qed
qed

lemma convert_char_spec: "conv_order t \<Longrightarrow> convert_char t ch = conv_table t ch"
  unfolding convert_char_def
  by (rule convert_char_loop_spec) (auto simp: row_hit_def)

interpretation cntrl: ordered_table
  "\<lambda>i. unat (fst (range_keys cntrl_rows ! i))" "\<lambda>i. unat (snd (range_keys cntrl_rows ! i))" "length cntrl_rows"
proof -
  have "in_order (range_keys cntrl_rows)" by code_simp
  from in_order_table [OF this] show
    "ordered_table (\<lambda>i. unat (fst (range_keys cntrl_rows ! i)))
       (\<lambda>i. unat (snd (range_keys cntrl_rows ! i))) (length cntrl_rows)" by simp
qed

section \<open>Properties\<close>

text \<open>
  On a table in order, the binary search of \<open>find_in_range\<close> gives what a linear search through
  the rows gives: whether the code point is on a step of the one range that contains it.
\<close>

theorem find_in_range_linear:
  assumes "range_order t"
  shows "find_in_range t ch = in_table t ch"
  using assms by (rule find_in_range_spec)

theorem find_in_range_linear_witness:
  "range_order cntrl_rows \<and> find_in_range cntrl_rows 0x605 = Inr True"
proof -
  have o: "range_order cntrl_rows" by code_simp
  have "in_table cntrl_rows 0x605 = Inr True" by code_simp
  with o find_in_range_linear [OF o, of "0x605"] show ?thesis by simp
qed

text \<open>
  On a table in order, \<open>convert_char\<close> maps a code point on a step of the range that contains it
  by that row's offset and every other code point to itself.
\<close>

theorem convert_char_linear:
  assumes "conv_order t"
  shows "convert_char t ch = conv_table t ch"
  using assms by (rule convert_char_spec)

definition ascii_lower :: "conv_row list" where
  "ascii_lower = [\<lparr>cfirst = 0x41, clast = 0x5A, cstep = 1, coffset = 32\<rparr>]"

theorem convert_char_linear_witness:
  "conv_order ascii_lower \<and> convert_char ascii_lower 0x42 = Inr 0x62"
proof -
  have o: "conv_order ascii_lower" by code_simp
  have "conv_table ascii_lower 0x42 = Inr 0x62" by code_simp
  with o convert_char_linear [OF o, of "0x42"] show ?thesis by simp
qed

lemma in_table_trap:
  "in_table t ch = Inl Trap \<Longrightarrow> \<exists>r \<in> set (filter (\<lambda>r. rstep r = 0) t). rfirst r \<le> ch \<and> ch \<le> rlast r"
  by (induction t) (auto simp: on_step_def split: if_splits)

text \<open>
  The control character table has rows with step 0: the lookup divides by zero exactly for the
  three code points U+E000, U+F0000 and U+100000, and answers for every other one.
\<close>

theorem cntrl_lookup_traps:
  "find_in_range cntrl_rows ch = Inl Trap \<longleftrightarrow> ch \<in> {0xE000, 0xF0000, 0x100000}"
proof -
  have "range_order cntrl_rows" by code_simp
  then have "find_in_range cntrl_rows ch = in_table cntrl_rows ch" by (rule find_in_range_spec)
  also have "in_table cntrl_rows ch = Inl Trap \<longleftrightarrow> ch \<in> {0xE000, 0xF0000, 0x100000}"
  proof
    have z: "filter (\<lambda>r. rstep r = 0) cntrl_rows =
        [row3 0xE000 0xE000 0, row3 0xF0000 0xF0000 0, row3 0x100000 0x100000 0]" by code_simp
    assume "in_table cntrl_rows ch = Inl Trap"
    from in_table_trap [OF this] show "ch \<in> {0xE000, 0xF0000, 0x100000}"
      unfolding z by (auto simp: row3_def)
  next
    have "in_table cntrl_rows 0xE000 = Inl Trap" "in_table cntrl_rows 0xF0000 = Inl Trap"
      "in_table cntrl_rows 0x100000 = Inl Trap" by code_simp+
    then show "ch \<in> {0xE000, 0xF0000, 0x100000} \<Longrightarrow> in_table cntrl_rows ch = Inl Trap" by auto
  qed
  finally show ?thesis .
qed

end
