(* ===== verification/Utf8Nav.thy ===== *)
theory Utf8Nav
  imports Utf8Valid UniTables
begin

text \<open>
  Moving through a string in \<^verbatim>\<open>luafar/src/lutf8lib.c\<close>: \<open>utf8_prev\<close>, \<open>utf8_next\<close>,
  \<open>utf8_length\<close>, \<open>utf8_offset\<close>, \<open>utf8_relat\<close>, \<open>utf8_range\<close>, and the Lua functions that cut strings
  at character positions (\<open>sub\<close>, \<open>remove\<close>, \<open>insert\<close>, \<open>reverse\<close>, \<open>len\<close>). A pointer is a byte
  offset in the string \<open>b\<close>; \<open>s\<close> and \<open>e\<close> are the ends of the range that is walked, as in the code.

  On an encoded list of code points these functions are shown to be the list operations on the
  code points, the positions of the code being the boundaries \<open>bnd\<close> of the characters.
\<close>

section \<open>The code\<close>

function prev_loop :: "bytes \<Rightarrow> nat \<Rightarrow> nat \<Rightarrow> nat" where
  "prev_loop b s e = (if s < e \<and> iscont b (e - 1) then prev_loop b s (e - 1) else e)"
  by pat_completeness auto
termination by (relation "measure (\<lambda>(b, s, e). e)") auto

declare prev_loop.simps [simp del]

definition utf8_prev :: "bytes \<Rightarrow> nat \<Rightarrow> nat \<Rightarrow> nat" where
  "utf8_prev b s e = (let e = prev_loop b s e in if s < e then e - 1 else s)"

function next_loop :: "bytes \<Rightarrow> nat \<Rightarrow> nat \<Rightarrow> nat" where
  "next_loop b s e = (if s < e \<and> iscont b (s + 1) then next_loop b (s + 1) e else s)"
  by pat_completeness auto
termination by (relation "measure (\<lambda>(b, s, e). e - s)") auto

declare next_loop.simps [simp del]

definition utf8_next :: "bytes \<Rightarrow> nat \<Rightarrow> nat \<Rightarrow> nat" where
  "utf8_next b s e = (let s = next_loop b s e in if s < e then s + 1 else e)"

lemma next_loop_ge: "s \<le> next_loop b s e"
proof (induction b s e rule: next_loop.induct)
  case (1 b s e)
  then show ?case by (subst next_loop.simps) (auto split: if_splits)
qed

lemma utf8_next_gt: "s < e \<Longrightarrow> s < utf8_next b s e"
  using next_loop_ge [of s b e] by (auto simp: utf8_next_def Let_def)

lemma prev_loop_le: "prev_loop b s e \<le> e"
proof (induction b s e rule: prev_loop.induct)
  case (1 b s e)
  then show ?case by (subst prev_loop.simps) (auto split: if_splits)
qed

lemma utf8_prev_lt: "s < e \<Longrightarrow> utf8_prev b s e < e"
  using prev_loop_le [of b s e] by (auto simp: utf8_prev_def Let_def)

function length_loop :: "bytes \<Rightarrow> nat \<Rightarrow> nat \<Rightarrow> nat \<Rightarrow> nat" where
  "length_loop b s e i = (if s < e then length_loop b (utf8_next b s e) e (i + 1) else i)"
  by pat_completeness auto
termination
  by (relation "measure (\<lambda>(b, s, e, i). e - s)") (auto dest: utf8_next_gt intro: diff_less_mono2)

declare length_loop.simps [simp del]

definition utf8_length :: "bytes \<Rightarrow> nat \<Rightarrow> nat \<Rightarrow> nat" where
  "utf8_length b s e = length_loop b s e 0"

text \<open>The two loops of \<open>utf8_offset\<close>; the caller's \<open>p\<close> is \<^verbatim>\<open>s + offset - 1\<close>.\<close>

function offset_fwd :: "bytes \<Rightarrow> nat \<Rightarrow> nat \<Rightarrow> int \<Rightarrow> nat \<times> int" where
  "offset_fwd b p e idx =
     (if p < e \<and> idx > 0 then offset_fwd b (utf8_next b p e) e (idx - 1) else (p, idx))"
  by pat_completeness auto
termination by (relation "measure (\<lambda>(b, p, e, idx). nat idx)") auto

declare offset_fwd.simps [simp del]

function offset_bwd :: "bytes \<Rightarrow> nat \<Rightarrow> nat \<Rightarrow> int \<Rightarrow> nat \<times> int" where
  "offset_bwd b s p idx =
     (if s < p \<and> idx < 0 then offset_bwd b s (utf8_prev b s p) (idx + 1) else (p, idx))"
  by pat_completeness auto
termination by (relation "measure (\<lambda>(b, s, p, idx). nat (- idx))") auto

declare offset_bwd.simps [simp del]

definition utf8_offset :: "bytes \<Rightarrow> nat \<Rightarrow> nat \<Rightarrow> nat \<Rightarrow> int \<Rightarrow> nat option" where
  "utf8_offset b s e offset idx =
     (let p = s + offset - 1 in
      if idx \<ge> 0 then
        case offset_fwd b p e idx of (p, idx) \<Rightarrow> if idx = 0 then Some p else None
      else
        case offset_bwd b s p idx of (p, idx) \<Rightarrow> if idx = 0 then Some p else None)"

definition utf8_relat :: "bytes \<Rightarrow> nat \<Rightarrow> nat \<Rightarrow> int \<Rightarrow> nat option" where
  "utf8_relat b s e idx =
     (if idx \<ge> 0 then utf8_offset b s e 1 (idx - 1) else utf8_offset b s e (e - s + 1) idx)"

text \<open>The new values of \<^verbatim>\<open>*i\<close> and \<^verbatim>\<open>*j\<close>; the result of the function is whether the first is less.\<close>

definition utf8_range :: "bytes \<Rightarrow> nat \<Rightarrow> nat \<Rightarrow> int \<Rightarrow> int \<Rightarrow> nat \<times> nat" where
  "utf8_range b s e i j =
     (let ps = utf8_relat b s e (cast_int i);
          pe = utf8_relat b s e (cast_int j);
          i' = (case ps of Some p \<Rightarrow> p | None \<Rightarrow> if i > 0 then e else s) - s;
          j' = (case pe of Some p \<Rightarrow> utf8_next b p e | None \<Rightarrow> if j > 0 then e else s) - s
      in (i', j'))"

definition slice :: "bytes \<Rightarrow> nat \<Rightarrow> nat \<Rightarrow> bytes" where
  "slice b p q = take (q - p) (drop p b)"

definition Lutf8_sub :: "bytes \<Rightarrow> int \<Rightarrow> int option \<Rightarrow> bytes" where
  "Lutf8_sub s arg2 arg3 =
     (case utf8_range s 0 (length s) arg2 (the_arg arg3 (-1)) of
        (posi, pose) \<Rightarrow> if posi < pose then slice s posi pose else [])"

definition Lutf8_remove :: "bytes \<Rightarrow> int option \<Rightarrow> int option \<Rightarrow> bytes" where
  "Lutf8_remove s arg2 arg3 =
     (case utf8_range s 0 (length s) (the_arg arg2 (-1)) (the_arg arg3 (-1)) of
        (posi, pose) \<Rightarrow> if \<not> posi < pose then s else slice s 0 posi @ slice s pose (length s))"

text \<open>\<open>arg2\<close> is the optional number before the string to insert.\<close>

definition Lutf8_insert :: "bytes \<Rightarrow> int option \<Rightarrow> bytes \<Rightarrow> bytes lua_result" where
  "Lutf8_insert s arg2 subs =
     (let e = length s;
          first = (case arg2 of
              None \<Rightarrow> Some e
            | Some i \<Rightarrow> if cast_int i \<noteq> 0 then utf8_relat s 0 e (cast_int i) else Some e)
      in case first of
          None \<Rightarrow> Inl (LuaError ''invalid index'')
        | Some p \<Rightarrow> Inr (slice s 0 p @ subs @ slice s p e))"

function reverse_lax :: "bytes \<Rightarrow> nat \<Rightarrow> bytes \<Rightarrow> bytes" where
  "reverse_lax s e buf =
     (if 0 < e then
        let prev = utf8_prev s 0 e in reverse_lax s prev (buf @ slice s prev e)
      else buf)"
  by pat_completeness auto
termination by (relation "measure (\<lambda>(s, e, buf). e)") (auto dest: utf8_prev_lt)

declare reverse_lax.simps [simp del]

definition utf8_safe_decode :: "bytes \<Rightarrow> nat \<Rightarrow> (nat \<times> u32) lua_result" where
  "utf8_safe_decode s p =
     (case utf8_decode s p False of
        None \<Rightarrow> Inl (LuaError ''invalid UTF-8 code'')
      | Some r \<Rightarrow> Inr r)"

text \<open>The strict loop walks \<open>prev\<close> back and adds a base character with the marks up to \<open>e\<close>.\<close>

function reverse_strict :: "unidata \<Rightarrow> bytes \<Rightarrow> nat \<Rightarrow> nat \<Rightarrow> bytes \<Rightarrow> bytes lua_result" where
  "reverse_strict U s prev e buf =
     (if 0 < prev then
        let pprev = utf8_prev s 0 prev in
        case utf8_safe_decode s pprev of
          Inl err \<Rightarrow> Inl err
        | Inr (_, code) \<Rightarrow>
            if utf8_invalid code then Inl (LuaError ''invalid UTF-8 code'')
            else case utf8_iscompose U code of
                Inl err \<Rightarrow> Inl err
              | Inr mark \<Rightarrow>
                  if \<not> mark then reverse_strict U s pprev pprev (buf @ slice s pprev e)
                  else reverse_strict U s pprev e buf
      else Inr buf)"
  by pat_completeness auto
termination
  by (relation "measure (\<lambda>(U, s, prev, e, buf). prev)") (auto dest: utf8_prev_lt)

declare reverse_strict.simps [simp del]

definition Lutf8_reverse :: "unidata \<Rightarrow> bytes \<Rightarrow> bool \<Rightarrow> bytes lua_result" where
  "Lutf8_reverse U s lax =
     (if lax then Inr (reverse_lax s (length s) [])
      else reverse_strict U s (length s) (length s) [])"

definition byte_relat :: "int \<Rightarrow> nat \<Rightarrow> int" where
  "byte_relat pos len =
     (if pos \<ge> 0 then pos else if - pos > int len then 0 else int len + pos + 1)"

text \<open>The counting loop of \<open>utf8.len\<close>; an invalid position ends it with nil and that position.\<close>

lemma utf8_decode_gt: "utf8_decode s p strict = Some (q, v) \<Longrightarrow> p < q"
  using utf8_encode_nonempty [of v] by (simp add: decode_iff)

function len_loop :: "bytes \<Rightarrow> bool \<Rightarrow> nat \<Rightarrow> nat \<Rightarrow> nat \<Rightarrow> lua_val list" where
  "len_loop s lax p e n =
     (if p < e then
        if lax then len_loop s lax (utf8_next s p e) e (n + 1)
        else case utf8_decode s p (\<not> lax) of
            None \<Rightarrow> [LNil, LInt (int p + 1)]
          | Some (np, ch) \<Rightarrow>
              if utf8_invalid ch then [LNil, LInt (int p + 1)] else len_loop s lax np e (n + 1)
      else [LInt (int n)])"
  by pat_completeness auto

termination
  by (relation "measure (\<lambda>(s, lax, p, e, n). e - p)")
    (auto dest: utf8_next_gt utf8_decode_gt intro: diff_less_mono2)

declare len_loop.simps [simp del]

definition Lutf8_len :: "bytes \<Rightarrow> int option \<Rightarrow> int option \<Rightarrow> bool \<Rightarrow> lua_val list lua_result" where
  "Lutf8_len s arg2 arg3 lax =
     (let len = length s;
          posi = byte_relat (the_arg arg2 1) len;
          pose = byte_relat (the_arg arg3 (-1)) len
      in argcheck (1 \<le> posi \<and> posi - 1 \<le> int len) ''initial position out of string''
        (argcheck (pose - 1 < int len) ''final position out of string''
          (Inr (len_loop s lax (nat (posi - 1)) (nat pose) 0))))"

section \<open>Characters and their boundaries\<close>

lemma next_char:
  assumes "0 < n" and "p + n \<le> e" and "\<And>i. 0 < i \<Longrightarrow> i < n \<Longrightarrow> iscont b (p + i)" and "\<not> iscont b (p + n)"
  shows "utf8_next b p e = p + n"
proof -
  have "next_loop b p e = p + n - 1"
    using assms
  proof (induction n arbitrary: p)
    case (Suc n)
    show ?case
    proof (cases "n = 0")
      case True
      with Suc.prems show ?thesis by (subst next_loop.simps) simp
    next
      case False
      with Suc.prems(3) [of 1] Suc.prems(2) have "iscont b (p + 1)" "p < e" by auto
      moreover have "next_loop b (p + 1) e = p + 1 + n - 1"
      proof (rule Suc.IH)
        show "iscont b (p + 1 + i)" if "0 < i" "i < n" for i
          using Suc.prems(3) [of "Suc i"] that by simp
      qed (use False Suc.prems in auto)
      ultimately show ?thesis by (subst next_loop.simps) simp
    qed
  qed simp
  moreover have "p + n - 1 < e" "p + n - 1 + 1 = p + n" using assms(1,2) by linarith+
  ultimately show ?thesis by (simp add: utf8_next_def Let_def)
qed

lemma prev_char:
  assumes "0 < n" and "s \<le> q" and "\<And>i. 0 < i \<Longrightarrow> i < n \<Longrightarrow> iscont b (q + i)" and "\<not> iscont b q"
  shows "utf8_prev b s (q + n) = q"
proof -
  have "prev_loop b s (q + n) = q + 1"
    using assms
  proof (induction n)
    case (Suc n)
    show ?case
    proof (cases "n = 0")
      case True
      with Suc.prems show ?thesis by (subst prev_loop.simps) simp
    next
      case False
      with Suc.prems have "iscont b (q + n)" by simp
      with Suc False show ?thesis by (subst prev_loop.simps) simp
    qed
  qed simp
  with assms show ?thesis by (simp add: utf8_prev_def Let_def)
qed

lemma encode_lead_not_cont:
  assumes "v \<le> UTF8_MAX"
  shows "\<not> is_cont (utf8_encode v ! 0)"
proof -
  have max: "unat v < 2 ^ 31" using assms by (simp add: word_le_nat_alt UTF8_MAX_def)
  have "unat (utf8_encode v ! 0) = map unat (utf8_encode v) ! 0"
    using utf8_encode_nonempty [OF assms] by simp
  moreover have "unat v < 128 \<or> 192 \<le> map unat (utf8_encode v) ! 0"
  proof (cases "unat v < 128")
    case False
    have "(2 :: nat) ^ (7 - enc_len (unat v)) \<le> 2 ^ 6"
      using enc_len_cases(1) [of "unat v"] by (intro power_increasing) auto
    with False show ?thesis by (simp add: utf8_encode_bytes [OF max] Let_def)
  qed simp
  moreover have "unat v < 128 \<Longrightarrow> map unat (utf8_encode v) ! 0 = unat v"
    by (simp add: utf8_encode_bytes [OF max])
  ultimately show ?thesis by (auto simp: is_cont_def)
qed

definition encode_all :: "u32 list \<Rightarrow> bytes" where
  "encode_all vs = concat (map utf8_encode vs)"

definition bnd :: "u32 list \<Rightarrow> nat \<Rightarrow> nat" where
  "bnd vs k = length (encode_all (take k vs))"

definition codes_ok :: "u32 list \<Rightarrow> bool" where
  "codes_ok vs = list_all (\<lambda>v. v \<le> UTF8_MAX) vs"

lemma encode_all_append [simp]: "encode_all (us @ vs) = encode_all us @ encode_all vs"
  by (simp add: encode_all_def)

lemma encode_all_Nil [simp]: "encode_all [] = []"
  by (simp add: encode_all_def)

lemma encode_all_Cons [simp]: "encode_all (v # vs) = utf8_encode v @ encode_all vs"
  by (simp add: encode_all_def)

lemma bnd_0 [simp]: "bnd vs 0 = 0" by (simp add: bnd_def)

lemma bnd_all: "length vs \<le> k \<Longrightarrow> bnd vs k = length (encode_all vs)" by (simp add: bnd_def)

lemma bnd_Suc: "k < length vs \<Longrightarrow> bnd vs (Suc k) = bnd vs k + length (utf8_encode (vs ! k))"
  by (simp add: bnd_def take_Suc_conv_app_nth)

lemma encode_all_split: "encode_all vs = encode_all (take k vs) @ encode_all (drop k vs)"
  by (metis append_take_drop_id encode_all_append)

lemma bnd_le: "bnd vs k \<le> length (encode_all vs)"
  unfolding bnd_def by (subst (2) encode_all_split [of _ k]) simp

lemma take_bnd: "take (bnd vs k) (encode_all vs) = encode_all (take k vs)"
  unfolding bnd_def by (subst (2) encode_all_split [of _ k]) simp

lemma drop_bnd: "drop (bnd vs k) (encode_all vs) = encode_all (drop k vs)"
  unfolding bnd_def by (subst (2) encode_all_split [of _ k]) simp

lemma codes_nth: "codes_ok vs \<Longrightarrow> k < length vs \<Longrightarrow> vs ! k \<le> UTF8_MAX"
  by (simp add: codes_ok_def list_all_length)

lemma char_byte:
  assumes "codes_ok vs" and "k < length vs" and "i < length (utf8_encode (vs ! k))"
  shows "byte_at (encode_all vs) (bnd vs k + i) = utf8_encode (vs ! k) ! i"
proof -
  have d: "drop (bnd vs k) (encode_all vs) = utf8_encode (vs ! k) @ encode_all (drop (Suc k) vs)"
    using assms(2) by (simp add: drop_bnd drop_nth_Cons)
  have "byte_at (encode_all vs) (bnd vs k + i) = byte_at (drop (bnd vs k) (encode_all vs)) i"
    by (simp add: byte_at_drop)
  also have "\<dots> = utf8_encode (vs ! k) ! i"
    using assms(3) by (simp add: d byte_at_append_left del: byte_at_in) simp
  finally show ?thesis .
qed

lemma char_pos: "codes_ok vs \<Longrightarrow> k < length vs \<Longrightarrow> 0 < length (utf8_encode (vs ! k))"
  by (metis codes_nth length_greater_0_conv utf8_encode_nonempty)

lemma bnd_less: "codes_ok vs \<Longrightarrow> k < length vs \<Longrightarrow> bnd vs k < bnd vs (Suc k)"
  using char_pos [of vs k] by (simp add: bnd_Suc)

lemma iscont_is_cont: "iscont b p \<longleftrightarrow> is_cont (byte_at b p)"
  by (simp add: iscont_def cont_byte)

lemma char_start:
  assumes "codes_ok vs"
  shows "\<not> iscont (encode_all vs) (bnd vs k)"
proof (cases "k < length vs")
  case True
  from char_byte [OF assms True, of 0] char_pos [OF assms True] encode_lead_not_cont codes_nth [OF assms True]
  show ?thesis by (simp add: iscont_is_cont)
next
  case False
  then show ?thesis by (simp add: bnd_all iscont_is_cont is_cont_def)
qed

lemma char_tail:
  assumes "codes_ok vs" and "k < length vs" and "0 < i" and "i < length (utf8_encode (vs ! k))"
  shows "iscont (encode_all vs) (bnd vs k + i)"
  using char_byte [OF assms(1,2,4)] encode_tail_cont [OF codes_nth [OF assms(1,2)] assms(3,4)]
  by (simp add: iscont_is_cont)

lemma next_bnd:
  assumes "codes_ok vs" and "k < length vs"
  shows "utf8_next (encode_all vs) (bnd vs k) (length (encode_all vs)) = bnd vs (Suc k)"
  unfolding bnd_Suc [OF assms(2)]
proof (rule next_char)
  show "bnd vs k + length (utf8_encode (vs ! k)) \<le> length (encode_all vs)"
    using bnd_le [of vs "Suc k"] by (simp add: bnd_Suc [OF assms(2)])
  show "\<not> iscont (encode_all vs) (bnd vs k + length (utf8_encode (vs ! k)))"
    using char_start [OF assms(1), of "Suc k"] by (simp add: bnd_Suc [OF assms(2)])
qed (use char_pos char_tail assms in auto)

lemma next_end: "utf8_next b e e = e"
  by (simp add: utf8_next_def next_loop.simps)

lemma prev_bnd:
  assumes "codes_ok vs" and "k < length vs"
  shows "utf8_prev (encode_all vs) 0 (bnd vs (Suc k)) = bnd vs k"
  unfolding bnd_Suc [OF assms(2)]
  by (rule prev_char) (use char_pos char_tail char_start assms in auto)

lemma decode_bnd:
  assumes "codes_ok vs" and "k < length vs"
  shows "utf8_decode (encode_all vs) (bnd vs k) False = Some (bnd vs (Suc k), vs ! k)"
proof -
  have "bytes_at (encode_all vs) (bnd vs k) (utf8_encode (vs ! k))"
    unfolding bytes_at_def using char_byte [OF assms] by blast
  then show ?thesis
    using codes_nth [OF assms] by (simp add: decode_iff bnd_Suc [OF assms(2)])
qed

section \<open>Positions on encoded strings\<close>

lemma bnd_mono_less: "codes_ok vs \<Longrightarrow> k < m \<Longrightarrow> m \<le> length vs \<Longrightarrow> bnd vs k < bnd vs m"
proof (induction m)
  case (Suc m)
  then show ?case using bnd_less [of vs m] by (cases "k = m") auto
qed simp

lemma bnd_less_iff: "codes_ok vs \<Longrightarrow> k \<le> length vs \<Longrightarrow> m \<le> length vs \<Longrightarrow> bnd vs k < bnd vs m \<longleftrightarrow> k < m"
  using bnd_mono_less [of vs k m] bnd_mono_less [of vs m k] by (cases k m rule: linorder_cases) auto

lemma bnd_end_iff: "codes_ok vs \<Longrightarrow> k \<le> length vs \<Longrightarrow> bnd vs k < length (encode_all vs) \<longleftrightarrow> k < length vs"
  using bnd_less_iff [of vs k "length vs"] by (simp add: bnd_all)

lemma bnd_pos_iff: "codes_ok vs \<Longrightarrow> k \<le> length vs \<Longrightarrow> 0 < bnd vs k \<longleftrightarrow> 0 < k"
  using bnd_less_iff [of vs 0 k] by simp

lemma offset_fwd_bnd:
  assumes "codes_ok vs" and "k \<le> length vs"
  shows "offset_fwd (encode_all vs) (bnd vs k) (length (encode_all vs)) (int d) =
    (if k + d \<le> length vs then (bnd vs (k + d), 0)
     else (length (encode_all vs), int d - int (length vs - k)))"
  using assms(2)
proof (induction d arbitrary: k)
  case 0
  then show ?case by (subst offset_fwd.simps) simp
next
  case (Suc d)
  show ?case
  proof (cases "k < length vs")
    case True
    then have "offset_fwd (encode_all vs) (bnd vs k) (length (encode_all vs)) (int (Suc d)) =
        offset_fwd (encode_all vs) (bnd vs (Suc k)) (length (encode_all vs)) (int d)"
      using assms(1) by (subst offset_fwd.simps) (simp add: bnd_end_iff next_bnd)
    then show ?thesis using Suc.IH [of "Suc k"] True by auto
  next
    case False
    then show ?thesis using Suc.prems by (subst offset_fwd.simps) (simp add: bnd_all)
  qed
qed

lemma offset_bwd_bnd:
  assumes "codes_ok vs" and "k \<le> length vs"
  shows "offset_bwd (encode_all vs) 0 (bnd vs k) (- int d) =
    (if d \<le> k then (bnd vs (k - d), 0) else (0, int k - int d))"
  using assms(2)
proof (induction d arbitrary: k)
  case 0
  then show ?case by (subst offset_bwd.simps) simp
next
  case (Suc d)
  show ?case
  proof (cases k)
    case 0
    then show ?thesis by (subst offset_bwd.simps) simp
  next
    case (Suc m)
    then have "offset_bwd (encode_all vs) 0 (bnd vs k) (- int (Suc d)) =
        offset_bwd (encode_all vs) 0 (bnd vs m) (- int d)"
      using assms(1) Suc.prems bnd_pos_iff [OF assms(1), of k]
      by (subst offset_bwd.simps) (simp add: prev_bnd)
    then show ?thesis using Suc.IH [of m] Suc Suc.prems by auto
  qed
qed

lemma relat_bnd:
  assumes "codes_ok vs"
  shows "utf8_relat (encode_all vs) 0 (length (encode_all vs)) i =
    (if i > 0 then (if nat i \<le> Suc (length vs) then Some (bnd vs (nat i - 1)) else None)
     else if i < 0 \<and> nat (- i) \<le> length vs then Some (bnd vs (length vs - nat (- i))) else None)"
proof -
  let ?b = "encode_all vs"
  consider "i > 0" | "i = 0" | "i < 0" by linarith
  then show ?thesis
  proof cases
    case 1
    then obtain d where i: "i = int d + 1" using zero_less_imp_eq_int [of i] by (metis Suc_pred of_nat_Suc add.commute)
    then have "nat i = Suc d" by simp
    with i offset_fwd_bnd [OF assms, of 0 d] show ?thesis
      by (auto simp: utf8_relat_def utf8_offset_def Let_def)
  next
    case 2
    then show ?thesis
      by (simp add: utf8_relat_def utf8_offset_def offset_bwd.simps)
  next
    case 3
    then obtain d where i: "i = - int d" and "0 < d" using zero_less_imp_eq_int [of "- i"] by (metis minus_minus neg_0_less_iff_less)
    with offset_bwd_bnd [OF assms, of "length vs" d] show ?thesis
      by (auto simp: utf8_relat_def utf8_offset_def Let_def bnd_all)
  qed
qed

text \<open>The positions that the indices \<open>i\<close> and \<open>j\<close> of a Lua substring call mean, on a list of \<open>n\<close>.\<close>

definition lua_from :: "nat \<Rightarrow> int \<Rightarrow> nat" where
  "lua_from n i = (if i > 0 then min (nat (i - 1)) n else if i < 0 then nat (int n + i) else 0)"

definition lua_to :: "nat \<Rightarrow> int \<Rightarrow> nat" where
  "lua_to n j = (if j \<ge> 0 then min (nat j) n else nat (int n + j + 1))"

definition small_index :: "int \<Rightarrow> bool" where
  "small_index i \<longleftrightarrow> - (2 ^ 31) \<le> i \<and> i < 2 ^ 31"

lemma lua_bounds: "lua_from n i \<le> n" "lua_to n j \<le> n"
  by (auto simp: lua_from_def lua_to_def)

lemma range_bnd:
  assumes "codes_ok vs" and "small_index i" and "small_index j"
  shows "utf8_range (encode_all vs) 0 (length (encode_all vs)) i j =
    (bnd vs (lua_from (length vs) i), bnd vs (lua_to (length vs) j))"
proof -
  let ?e = "length (encode_all vs)"
  have c: "cast_int i = i" "cast_int j = j" using assms(2,3) by (simp_all add: small_index_def)
  have "fst (utf8_range (encode_all vs) 0 ?e i j) = bnd vs (lua_from (length vs) i)"
  proof -
    consider "i > 0" "nat i \<le> Suc (length vs)" | "i > 0" "\<not> nat i \<le> Suc (length vs)" | "i = 0"
      | "i < 0" "nat (- i) \<le> length vs" | "i < 0" "\<not> nat (- i) \<le> length vs" by linarith
    then show ?thesis
    proof cases
      case 1
      then have "nat i - 1 = nat (i - 1)" "nat (i - 1) \<le> length vs" by auto
      then show ?thesis
        unfolding utf8_range_def Let_def c relat_bnd [OF assms(1)] using 1 by (simp add: lua_from_def)
    next
      case 4
      then have "length vs - nat (- i) = nat (int (length vs) + i)" by simp
      then show ?thesis
        unfolding utf8_range_def Let_def c relat_bnd [OF assms(1)] using 4 by (simp add: lua_from_def)
    qed (auto simp: utf8_range_def Let_def c relat_bnd [OF assms(1)] lua_from_def bnd_all)
  qed
  moreover have "snd (utf8_range (encode_all vs) 0 ?e i j) = bnd vs (lua_to (length vs) j)"
  proof -
    have nx: "utf8_next (encode_all vs) (bnd vs k) ?e = bnd vs (min (Suc k) (length vs))" if "k \<le> length vs" for k
      using that next_bnd [OF assms(1), of k] next_end by (cases "k = length vs") (auto simp: bnd_all min_def)
    consider "j > 0" "nat j \<le> Suc (length vs)" | "j > 0" "\<not> nat j \<le> Suc (length vs)" | "j = 0"
      | "j < 0" "nat (- j) \<le> length vs" | "j < 0" "\<not> nat (- j) \<le> length vs" by linarith
    then show ?thesis
    proof cases
      case 1
      then have "Suc (nat j - 1) = nat j" "nat j - 1 \<le> length vs" by auto
      then show ?thesis
        unfolding utf8_range_def Let_def c relat_bnd [OF assms(1)] using 1 nx [of "nat j - 1"]
        by (auto simp: lua_to_def)
    next
      case 4
      then have "Suc (length vs - nat (- j)) = nat (int (length vs) + j + 1)" by simp
      then show ?thesis
        unfolding utf8_range_def Let_def c relat_bnd [OF assms(1)] using 4 nx [of "length vs - nat (- j)"]
        by (auto simp: lua_to_def min_def)
    qed (auto simp: utf8_range_def Let_def c relat_bnd [OF assms(1)] lua_to_def bnd_all)
  qed
  ultimately show ?thesis by (metis prod.collapse)
qed

lemma slice_bnd: "slice (encode_all vs) (bnd vs a) (bnd vs b) = encode_all (take (b - a) (drop a vs))"
proof (cases "a \<le> b")
  case True
  have "encode_all (take b vs) = encode_all (take a vs) @ encode_all (take (b - a) (drop a vs))"
    using take_drop_append [OF True, of vs] by (metis encode_all_append)
  then have "bnd vs b - bnd vs a = length (encode_all (take (b - a) (drop a vs)))"
    by (simp add: bnd_def)
  moreover have "drop (bnd vs a) (encode_all vs) =
      encode_all (take (b - a) (drop a vs)) @ encode_all (drop (b - a) (drop a vs))"
    by (simp only: drop_bnd encode_all_split [symmetric])
  ultimately show ?thesis by (simp add: slice_def)
next
  case False
  then have "bnd vs b \<le> bnd vs a"
    using take_drop_append [of b a vs] by (simp add: bnd_def) (metis encode_all_append le_add1 length_append nat_le_linear)
  with False show ?thesis by (simp add: slice_def)
qed

lemma reverse_lax_bnd:
  "codes_ok vs \<Longrightarrow> k \<le> length vs \<Longrightarrow>
   reverse_lax (encode_all vs) (bnd vs k) buf = buf @ encode_all (rev (take k vs))"
proof (induction k arbitrary: buf)
  case 0
  then show ?case by (simp add: reverse_lax.simps)
next
  case (Suc k)
  then have "0 < bnd vs (Suc k)" using bnd_pos_iff by blast
  then have "reverse_lax (encode_all vs) (bnd vs (Suc k)) buf =
      reverse_lax (encode_all vs) (bnd vs k) (buf @ utf8_encode (vs ! k))"
    using Suc.prems slice_bnd [of vs k "Suc k"]
    by (subst reverse_lax.simps) (simp add: Let_def prev_bnd take_Suc_conv_app_nth drop_nth_Cons)
  also have "\<dots> = buf @ utf8_encode (vs ! k) @ encode_all (rev (take k vs))"
    using Suc by simp
  finally show ?case using Suc.prems by (simp add: take_Suc_conv_app_nth)
qed

text \<open>
  Base characters with the combining marks that follow them, last cluster first; \<open>marks\<close> are the
  combining marks seen so far on the way back.
\<close>

fun rev_clusters :: "(u32 \<Rightarrow> bool) \<Rightarrow> u32 list \<Rightarrow> u32 list \<Rightarrow> u32 list" where
  "rev_clusters mark [] marks = []"
| "rev_clusters mark (v # vs) marks =
     (if mark v then rev_clusters mark vs (v # marks) else v # marks @ rev_clusters mark vs [])"

lemma reverse_strict_bnd:
  assumes "codes_ok vs" and "list_all (\<lambda>v. \<not> utf8_invalid v \<and> utf8_iscompose U v = Inr (mark v)) vs"
  shows "k \<le> m \<Longrightarrow> m \<le> length vs \<Longrightarrow>
    reverse_strict U (encode_all vs) (bnd vs k) (bnd vs m) buf =
      Inr (buf @ encode_all (rev_clusters mark (rev (take k vs)) (take (m - k) (drop k vs))))"
proof (induction k arbitrary: m buf)
  case 0
  then show ?case by (simp add: reverse_strict.simps)
next
  case (Suc k)
  have k: "k < length vs" using Suc.prems by simp
  have pos: "0 < bnd vs (Suc k)" using bnd_pos_iff [OF assms(1), of "Suc k"] k by simp
  have v: "\<not> utf8_invalid (vs ! k)" "utf8_iscompose U (vs ! k) = Inr (mark (vs ! k))"
    using assms(2) k by (simp_all add: list_all_length)
  have step: "reverse_strict U (encode_all vs) (bnd vs (Suc k)) (bnd vs m) buf =
      (if mark (vs ! k) then reverse_strict U (encode_all vs) (bnd vs k) (bnd vs m) buf
       else reverse_strict U (encode_all vs) (bnd vs k) (bnd vs k)
         (buf @ encode_all (take (m - k) (drop k vs))))"
    using pos v k assms(1)
    by (subst reverse_strict.simps) (simp add: Let_def prev_bnd utf8_safe_decode_def decode_bnd slice_bnd)
  have tk: "take (m - k) (drop k vs) = vs ! k # take (m - Suc k) (drop (Suc k) vs)"
    using Suc.prems k by (simp add: drop_nth_Cons Suc_diff_Suc [symmetric])
  have rv: "rev (take (Suc k) vs) = vs ! k # rev (take k vs)"
    using k by (simp add: take_Suc_conv_app_nth)
  show ?case
  proof (cases "mark (vs ! k)")
    case True
    then show ?thesis using step Suc.IH [of m buf] Suc.prems by (simp add: rv tk)
  next
    case False
    then show ?thesis using step Suc.IH [of k] k by (simp add: rv tk)
  qed
qed

lemma len_loop_strict_bnd:
  assumes "codes_ok vs" and "list_all (\<lambda>v. \<not> utf8_invalid v) vs"
  shows "k \<le> length vs \<Longrightarrow>
    len_loop (encode_all vs) lax (bnd vs k) (length (encode_all vs)) n = [LInt (int (n + (length vs - k)))]"
proof (induction "length vs - k" arbitrary: k n)
  case 0
  then show ?case by (subst len_loop.simps) (simp add: bnd_all)
next
  case (Suc d)
  then have k: "k < length vs" by simp
  have v: "\<not> utf8_invalid (vs ! k)" using assms(2) k by (simp add: list_all_length)
  have "utf8_decode (encode_all vs) (bnd vs k) True = Some (bnd vs (Suc k), vs ! k)"
    using decode_bnd [OF assms(1) k] v by (simp add: decode_iff)
  then have "len_loop (encode_all vs) lax (bnd vs k) (length (encode_all vs)) n =
      len_loop (encode_all vs) lax (bnd vs (Suc k)) (length (encode_all vs)) (n + 1)"
    using v k assms(1) by (subst len_loop.simps) (simp add: bnd_end_iff next_bnd)
  then show ?case using Suc.hyps(1) [of "Suc k" "n + 1"] Suc.hyps(2) k by simp
qed

section \<open>Properties\<close>

text \<open>
  C28. On an encoded list of code points \<open>utf8.sub\<close> cuts the list the way Lua's substring call does:
  1-based indices, negative ones counted from the end, both clipped to the string. The indices
  must fit the C \<^verbatim>\<open>int\<close> they are cast to.
\<close>

theorem Lutf8_sub_codes:
  assumes "codes_ok vs" and "small_index i" and "small_index j"
  shows "Lutf8_sub (encode_all vs) i (Some j) =
    encode_all (take (lua_to (length vs) j - lua_from (length vs) i) (drop (lua_from (length vs) i) vs))"
proof -
  have "\<not> bnd vs a < bnd vs b \<Longrightarrow> a \<le> length vs \<Longrightarrow> b \<le> length vs \<Longrightarrow> b - a = 0" for a b
    using bnd_less_iff [OF assms(1), of a b] by simp
  then show ?thesis
    using lua_bounds by (simp add: Lutf8_sub_def range_bnd [OF assms] slice_bnd)
qed

theorem Lutf8_sub_codes_witness:
  "Lutf8_sub (encode_all [0x61, 0x20AC, 0x62]) 2 (Some (-1)) = encode_all [0x20AC, 0x62]"
proof -
  have "codes_ok [0x61, 0x20AC, 0x62]" by code_simp
  from Lutf8_sub_codes [OF this, of 2 "-1"] show ?thesis
    by (simp add: small_index_def lua_to_def lua_from_def)
qed

text \<open>
  \<open>utf8.remove\<close> deletes from an encoded list exactly the code points that \<open>utf8.sub\<close> returns
  for the same indices, and \<open>utf8.insert\<close> at index \<open>i\<close> puts the new bytes before the \<open>i\<close>-th
  character; an index outside the string is an error.
\<close>

theorem Lutf8_remove_insert_codes:
  assumes "codes_ok vs" and "small_index i" and "small_index j" and "i \<noteq> 0"
  shows "Lutf8_remove (encode_all vs) (Some i) (Some j) =
      encode_all (take (lua_from (length vs) i) vs @
        drop (max (lua_from (length vs) i) (lua_to (length vs) j)) vs) \<and>
    Lutf8_insert (encode_all vs) (Some i) t =
      (if - int (length vs) \<le> i \<and> i \<le> int (length vs) + 1
       then Inr (encode_all (take (lua_from (length vs) i) vs) @ t @ encode_all (drop (lua_from (length vs) i) vs))
       else Inl (LuaError ''invalid index''))"
proof
  let ?a = "lua_from (length vs) i" and ?b = "lua_to (length vs) j"
  have ab: "?a \<le> length vs" "?b \<le> length vs" by (rule lua_bounds)+
  have sl: "slice (encode_all vs) 0 (bnd vs k) = encode_all (take k vs)"
      "slice (encode_all vs) (bnd vs k) (length (encode_all vs)) = encode_all (drop k vs)" for k
    using slice_bnd [of vs 0 k] slice_bnd [of vs k "length vs"] by (simp_all add: bnd_all)
  have rem: "Lutf8_remove (encode_all vs) (Some i) (Some j) =
      (if ?a < ?b then encode_all (take ?a vs @ drop ?b vs) else encode_all vs)"
    using bnd_less_iff [OF assms(1) ab] by (simp add: Lutf8_remove_def range_bnd [OF assms(1-3)] sl)
  show "Lutf8_remove (encode_all vs) (Some i) (Some j) = encode_all (take ?a vs @ drop (max ?a ?b) vs)"
    unfolding rem by (simp add: max_def not_less encode_all_split [of vs ?a, symmetric] del: encode_all_append)
  have c: "cast_int i = i" using assms(2) by (simp add: small_index_def)
  have "utf8_relat (encode_all vs) 0 (length (encode_all vs)) i =
      (if - int (length vs) \<le> i \<and> i \<le> int (length vs) + 1 then Some (bnd vs ?a) else None)"
    unfolding relat_bnd [OF assms(1)] using assms(4)
    by (auto simp: lua_from_def nat_le_iff nat_diff_distrib' intro!: arg_cong [where f = "bnd vs"])
  then show "Lutf8_insert (encode_all vs) (Some i) t =
      (if - int (length vs) \<le> i \<and> i \<le> int (length vs) + 1
       then Inr (encode_all (take ?a vs) @ t @ encode_all (drop ?a vs))
       else Inl (LuaError ''invalid index''))"
    using assms(4) by (simp add: Lutf8_insert_def c sl)
qed

theorem Lutf8_remove_insert_codes_witness:
  "Lutf8_remove (encode_all [0x61, 0x20AC, 0x62]) (Some 2) (Some 2) = encode_all [0x61, 0x62] \<and>
   Lutf8_insert (encode_all [0x61, 0x20AC, 0x62]) (Some (-1)) [0x78] =
     Inr (encode_all [0x61, 0x20AC] @ [0x78] @ encode_all [0x62])"
proof -
  have "codes_ok [0x61, 0x20AC, 0x62]" by code_simp
  from Lutf8_remove_insert_codes [OF this, of 2 2] Lutf8_remove_insert_codes [OF this, of "-1" 2 "[0x78]"]
  show ?thesis by (simp add: small_index_def lua_to_def lua_from_def)
qed

text \<open>
  On an encoded list of scalar values \<open>utf8.reverse\<close> in its default mode reverses the order of
  the base characters, each followed by its combining marks; the lax mode reverses every code
  point. Marks before the first base character are not in the result of the default mode.
\<close>

theorem Lutf8_reverse_codes:
  assumes "codes_ok vs" and "list_all (\<lambda>v. \<not> utf8_invalid v \<and> utf8_iscompose U v = Inr (mark v)) vs"
  shows "Lutf8_reverse U (encode_all vs) False = Inr (encode_all (rev_clusters mark (rev vs) [])) \<and>
    Lutf8_reverse U (encode_all vs) True = Inr (encode_all (rev vs))"
  using reverse_strict_bnd [OF assms, of "length vs" "length vs" "[]"]
    reverse_lax_bnd [OF assms(1), of "length vs" "[]"]
  by (simp add: Lutf8_reverse_def bnd_all)

text \<open>Tables for concrete inputs: U+0301 is a combining mark, ASCII letters have case.\<close>

definition tiny_unidata :: unidata where
  "tiny_unidata = \<lparr>alpha_table = [row3 0x41 0x5A 1, row3 0x61 0x7A 1], cntrl_table = cntrl_rows,
     digit_table = [row3 0x30 0x39 1], lower_table = [row3 0x61 0x7A 1], punct_table = [row3 0x21 0x2F 1],
     space_table = [row3 0x9 0xD 1, row3 0x20 0x20 1], compose_table = [row3 0x300 0x36F 1],
     upper_table = [row3 0x41 0x5A 1],
     xdigit_table = [row3 0x30 0x39 1, row3 0x41 0x46 1, row3 0x61 0x66 1],
     graph_table = [row3 0x21 0x7E 1], alnum_extend_table = [row3 0x30 0x39 1],
     doublewidth_table = [row3 0x1100 0x115F 1], ambiwidth_table = [row3 0xA1 0xA1 1],
     unprintable_table = [row3 0 0x1F 1], tolower_table = ascii_lower,
     toupper_table = [\<lparr>cfirst = 0x61, clast = 0x7A, cstep = 1, coffset = - 32\<rparr>],
     totitle_table = [\<lparr>cfirst = 0x61, clast = 0x7A, cstep = 1, coffset = - 32\<rparr>],
     tofold_table = ascii_lower\<rparr>"

theorem Lutf8_reverse_codes_witness:
  "Lutf8_reverse tiny_unidata (encode_all [0x301, 0x61, 0x301, 0x62]) False = Inr (encode_all [0x62, 0x61, 0x301])"
proof -
  have ok: "codes_ok [0x301, 0x61, 0x301, 0x62]" by code_simp
  have m: "list_all (\<lambda>v. \<not> utf8_invalid v \<and> utf8_iscompose tiny_unidata v = Inr (v = 0x301))
      [0x301, 0x61, 0x301, 0x62]" by code_simp
  from Lutf8_reverse_codes [OF ok m] show ?thesis by simp
qed

text \<open>
  On an encoded list of scalar values \<open>utf8.len\<close> of the whole string is the number of code
  points, in both modes.
\<close>

theorem Lutf8_len_codes:
  assumes "codes_ok vs" and "list_all (\<lambda>v. \<not> utf8_invalid v) vs"
  shows "Lutf8_len (encode_all vs) None None lax = Inr [LInt (int (length vs))]"
  using len_loop_strict_bnd [OF assms, of 0 lax 0]
  by (cases "encode_all vs = []") (simp_all add: Lutf8_len_def byte_relat_def Let_def)

theorem Lutf8_len_codes_witness: "Lutf8_len (encode_all [0x61, 0x20AC]) None None False = Inr [LInt 2]"
  using Lutf8_len_codes [of "[0x61, 0x20AC]" False]
  by (simp add: codes_ok_def utf8_invalid_def UTF8_MAX_def UTF8_MAXCP_def)

end
