(* ===== verification/Utf8Api.thy ===== *)
theory Utf8Api
  imports Utf8Nav
begin

text \<open>
  The other Lua functions of \<^verbatim>\<open>luafar/src/lutf8lib.c\<close> outside the pattern matcher: \<open>byte\<close>,
  \<open>codepoint\<close>, \<open>char\<close>, the case converters, \<open>escape\<close>, \<open>offset\<close>, \<open>codes\<close>, \<open>width\<close>,
  \<open>widthindex\<close> and \<open>ncasecmp\<close>. \<open>decode_fold\<close> is the loop
  \<^verbatim>\<open>while (s < e) { s = utf8_safe_decode(L, s, &ch); ... }\<close> that most of them share.
\<close>

section \<open>The code\<close>

lemma safe_decode_gt: "utf8_safe_decode b s = Inr (q, ch) \<Longrightarrow> s < q"
  by (auto simp: utf8_safe_decode_def dest: utf8_decode_gt split: option.splits)

function decode_fold :: "(u32 \<Rightarrow> 'a \<Rightarrow> 'a lua_result) \<Rightarrow> bytes \<Rightarrow> nat \<Rightarrow> nat \<Rightarrow> 'a \<Rightarrow> 'a lua_result" where
  "decode_fold f b s e acc =
     (if s < e then
        case utf8_safe_decode b s of
          Inl err \<Rightarrow> Inl err
        | Inr (s', ch) \<Rightarrow>
            (case f ch acc of Inl err \<Rightarrow> Inl err | Inr acc' \<Rightarrow> decode_fold f b s' e acc')
      else Inr acc)"
  by pat_completeness auto

termination
  by (relation "measure (\<lambda>(f, b, s, e, acc). e - s)") (auto dest!: safe_decode_gt)

declare decode_fold.simps [simp del]

definition add_utf8char :: "u32 \<Rightarrow> bytes" where
  "add_utf8char ch = utf8_encode ch"

definition Lutf8_byte :: "bytes \<Rightarrow> int option \<Rightarrow> int option \<Rightarrow> u32 list lua_result" where
  "Lutf8_byte s arg2 arg3 =
     (let i = the_arg arg2 1 in
      case utf8_range s 0 (length s) i (the_arg arg3 i) of
        (posi, pose) \<Rightarrow>
          if posi < pose then decode_fold (\<lambda>ch acc. Inr (acc @ [ch])) s posi pose [] else Inr [])"

definition Lutf8_codepoint :: "bytes \<Rightarrow> int option \<Rightarrow> int option \<Rightarrow> bool \<Rightarrow> u32 list lua_result" where
  "Lutf8_codepoint s arg2 arg3 lax =
     (let len = length s;
          posi = byte_relat (the_arg arg2 1) len;
          pose = byte_relat (the_arg arg3 posi) len
      in argcheck (posi \<ge> 1) ''out of range''
        (argcheck (pose \<le> int len) ''out of range''
          (if posi > pose then Inr []
           else if pose - posi \<ge> 2 ^ 31 - 1 then Inl (LuaError ''string slice too long'')
           else decode_fold
             (\<lambda>ch acc. if \<not> lax \<and> utf8_invalid ch then Inl (LuaError ''invalid UTF-8 code'')
               else Inr (acc @ [ch]))
             s (nat (posi - 1)) (nat pose) [])))"

text \<open>\<open>code <= UTF8_MAXCP\<close> compares as signed 64-bit values; the cast keeps the low 32 bits.\<close>

fun char_loop :: "int list \<Rightarrow> bytes \<Rightarrow> bytes lua_result" where
  "char_loop [] b = Inr b"
| "char_loop (code # cs) b =
     argcheck (code \<le> uint UTF8_MAXCP) ''value out of range''
       (char_loop cs (b @ add_utf8char (word_of_int code)))"

definition Lutf8_char :: "int list \<Rightarrow> bytes lua_result" where
  "Lutf8_char args = char_loop args []"

text \<open>The body of \<^verbatim>\<open>bind_converter\<close> for a string argument; \<open>conv\<close> is the converter.\<close>

definition Lutf8_convert :: "(u32 \<Rightarrow> u32 lua_result) \<Rightarrow> bytes \<Rightarrow> bytes lua_result" where
  "Lutf8_convert conv s =
     decode_fold (\<lambda>ch acc. bind_lua (conv ch) (\<lambda>c. Inr (acc @ add_utf8char c))) s 0 (length s) []"

definition Lutf8_lower :: "unidata \<Rightarrow> bytes \<Rightarrow> bytes lua_result" where
  "Lutf8_lower U = Lutf8_convert (utf8_tolower U)"
definition Lutf8_upper :: "unidata \<Rightarrow> bytes \<Rightarrow> bytes lua_result" where
  "Lutf8_upper U = Lutf8_convert (utf8_toupper U)"
definition Lutf8_title :: "unidata \<Rightarrow> bytes \<Rightarrow> bytes lua_result" where
  "Lutf8_title U = Lutf8_convert (utf8_totitle U)"
definition Lutf8_fold :: "unidata \<Rightarrow> bytes \<Rightarrow> bytes lua_result" where
  "Lutf8_fold U = Lutf8_convert (utf8_tofold U)"

text \<open>\<open>escape_digit\<close> is the chain of character tests of \<open>parse_escape\<close>.\<close>

definition escape_digit :: "bool \<Rightarrow> u32 \<Rightarrow> u32 option" where
  "escape_digit hex ch =
     (if 0x30 \<le> ch \<and> ch \<le> 0x39 then Some (ch - 0x30)
      else if hex \<and> 0x41 \<le> ch \<and> ch \<le> 0x46 then Some (10 + (ch - 0x41))
      else if hex \<and> 0x61 \<le> ch \<and> ch \<le> 0x66 then Some (10 + (ch - 0x61))
      else None)"

function parse_escape_loop :: "bytes \<Rightarrow> nat \<Rightarrow> nat \<Rightarrow> bool \<Rightarrow> bool \<Rightarrow> u32 \<Rightarrow> (nat \<times> u32) lua_result" where
  "parse_escape_loop b s e hex in_bracket code =
     (if s < e then
        let ch = ucast (byte_at b s) in
        case escape_digit hex ch of
          Some d \<Rightarrow> parse_escape_loop b (s + 1) e hex in_bracket (code * (if hex then 16 else 10) + d)
        | None \<Rightarrow>
            if \<not> in_bracket then Inr (s, code)
            else if ch = 0x7D then Inr (s + 1, code)
            else Inl (LuaError ''invalid escape'')
      else Inr (s, code))"
  by pat_completeness auto
termination
  by (relation "measure (\<lambda>(b, s, e, hex, in_bracket, code). e - s)") auto

declare parse_escape_loop.simps [simp del]

definition parse_escape :: "bytes \<Rightarrow> nat \<Rightarrow> nat \<Rightarrow> bool \<Rightarrow> (nat \<times> u32) lua_result" where
  "parse_escape b s e hex =
     (if byte_at b s = 0x7B then parse_escape_loop b (s + 1) e hex True 0
      else parse_escape_loop b s e hex False 0)"

text \<open>
  What follows a percent sign at \<open>s\<close>: the \<open>switch\<close> of \<open>Lutf8_escape\<close>, with the new position and
  the character that is added.
\<close>

definition escape_seq :: "bytes \<Rightarrow> nat \<Rightarrow> nat \<Rightarrow> (nat \<times> u32) lua_result" where
  "escape_seq b s e =
     (let c = byte_at b s in
      if 0x30 \<le> c \<and> c \<le> 0x39 \<or> c = 0x7B then parse_escape b s e False
      else if (c = 0x78 \<or> c = 0x58) \<and> s + 1 < e then parse_escape b (s + 1) e True
      else if (c = 0x75 \<or> c = 0x55) \<and> s + 1 < e then parse_escape b (s + 1) e False
      else utf8_safe_decode b s)"

lemma parse_escape_loop_ge: "parse_escape_loop b s e hex br code = Inr (q, ch) \<Longrightarrow> s \<le> q"
proof (induction b s e hex br code rule: parse_escape_loop.induct)
  case (1 b s e hex br code)
  then show ?case
    by (subst (asm) (2) parse_escape_loop.simps) (fastforce simp: Let_def split: if_splits option.splits)
qed

lemma escape_seq_ge: "escape_seq b s e = Inr (q, ch) \<Longrightarrow> s \<le> q"
  by (auto simp: escape_seq_def parse_escape_def Let_def
      dest!: parse_escape_loop_ge safe_decode_gt split: if_splits)

function escape_loop :: "bytes \<Rightarrow> nat \<Rightarrow> nat \<Rightarrow> bytes \<Rightarrow> bytes lua_result" where
  "escape_loop b s e buf =
     (if s < e then
        case utf8_safe_decode b s of
          Inl err \<Rightarrow> Inl err
        | Inr (s', ch) \<Rightarrow>
            if ch = 0x25 then
              (case escape_seq b s' e of
                 Inl err \<Rightarrow> Inl err
               | Inr (s'', ch') \<Rightarrow> escape_loop b s'' e (buf @ add_utf8char ch'))
            else escape_loop b s' e (buf @ add_utf8char ch)
      else Inr buf)"
  by pat_completeness auto
termination
  by (relation "measure (\<lambda>(b, s, e, buf). e - s)") (fastforce dest!: escape_seq_ge safe_decode_gt)+

declare escape_loop.simps [simp del]

definition Lutf8_escape :: "bytes \<Rightarrow> bytes lua_result" where
  "Lutf8_escape s = escape_loop s 0 (length s) []"

text \<open>The loops of \<open>Lutf8_offset\<close>.\<close>

function off_begin :: "bytes \<Rightarrow> nat \<Rightarrow> nat" where
  "off_begin s posi = (if posi > 0 \<and> iscont s posi then off_begin s (posi - 1) else posi)"
  by pat_completeness auto
termination by (relation "measure (\<lambda>(s, posi). posi)") auto

declare off_begin.simps [simp del]

fun off_back :: "bytes \<Rightarrow> nat \<Rightarrow> nat \<Rightarrow> nat \<times> nat" where
  "off_back s 0 posi = (0, posi)"
| "off_back s (Suc n) posi =
     (if posi > 0 then off_back s n (off_begin s (posi - 1)) else (Suc n, posi))"

function off_skip :: "bytes \<Rightarrow> nat \<Rightarrow> nat" where
  "off_skip s posi = (if iscont s posi then off_skip s (posi + 1) else posi)"
  by pat_completeness auto
termination
proof (relation "measure (\<lambda>(s, posi). length s - posi)", goal_cases)
  case (2 s posi)
  then have "posi < length s" by (intro cont_inside) (simp add: iscont_is_cont)
  then show ?case by simp
qed simp

declare off_skip.simps [simp del]

fun off_fwd :: "bytes \<Rightarrow> nat \<Rightarrow> nat \<Rightarrow> nat \<times> nat" where
  "off_fwd s 0 posi = (0, posi)"
| "off_fwd s (Suc n) posi =
     (if posi < length s then off_fwd s n (off_skip s (posi + 1)) else (Suc n, posi))"

definition Lutf8_offset :: "bytes \<Rightarrow> int \<Rightarrow> int option \<Rightarrow> lua_val lua_result" where
  "Lutf8_offset s n arg3 =
     (let len = length s;
          posi = byte_relat (the_arg arg3 (if n \<ge> 0 then 1 else int len + 1)) len
      in argcheck (1 \<le> posi \<and> posi - 1 \<le> int len) ''position out of range''
        (let posi = nat (posi - 1) in
         if n = 0 then Inr (LInt (int (off_begin s posi) + 1))
         else if iscont s posi then Inl (LuaError ''initial position is a continuation byte'')
         else
           case (if n < 0 then off_back s (nat (- n)) posi else off_fwd s (nat (n - 1)) posi) of
             (n', posi') \<Rightarrow> Inr (if n' = 0 then LInt (int posi' + 1) else LNil)))"

text \<open>The step function of the iterator of \<open>utf8.codes\<close>.\<close>

definition iter_aux :: "bytes \<Rightarrow> bool \<Rightarrow> int \<Rightarrow> (nat \<times> u32) option lua_result" where
  "iter_aux s strict arg2 =
     (let n = cast_int arg2;
          e = length s;
          p = (if n \<le> 0 then 0 else utf8_next s (nat n - 1) e)
      in if p < e then
           (case utf8_safe_decode s p of
              Inl err \<Rightarrow> Inl err
            | Inr (_, code) \<Rightarrow>
                if strict \<and> utf8_invalid code then Inl (LuaError ''invalid UTF-8 code'')
                else Inr (Some (p + 1, code)))
         else Inr None)"

definition char_width :: "unidata \<Rightarrow> bool \<Rightarrow> int \<Rightarrow> u32 \<Rightarrow> int lua_result" where
  "char_width U ambi default_width ch =
     bind_lua (utf8_width U ch ambi) (\<lambda>w. Inr (if w = 0 then default_width else w))"

text \<open>\<open>utf8.width\<close> of a string; \<open>arg2\<close> is the truth value that makes ambiguous characters wide.\<close>

definition Lutf8_width :: "unidata \<Rightarrow> bytes \<Rightarrow> bool \<Rightarrow> int \<Rightarrow> int lua_result" where
  "Lutf8_width U s arg2 default_width =
     decode_fold (\<lambda>ch w. bind_lua (char_width U (\<not> arg2) default_width ch) (\<lambda>c. Inr (w + c)))
       s 0 (length s) 0"

function widthindex_loop :: "unidata \<Rightarrow> bytes \<Rightarrow> nat \<Rightarrow> int \<Rightarrow> bool \<Rightarrow> int \<Rightarrow> int \<Rightarrow> lua_val list lua_result" where
  "widthindex_loop U b s width ambi default_width idx =
     (if s < length b then
        case utf8_safe_decode b s of
          Inl err \<Rightarrow> Inl err
        | Inr (s', ch) \<Rightarrow>
            (case char_width U ambi default_width ch of
               Inl err \<Rightarrow> Inl err
             | Inr chwidth \<Rightarrow>
                 let width = width - chwidth in
                 if width \<le> 0 then Inr [LInt idx, LInt (width + chwidth), LInt chwidth]
                 else widthindex_loop U b s' width ambi default_width (idx + 1))
      else Inr [LInt idx])"
  by pat_completeness auto
termination
  by (relation "measure (\<lambda>(U, b, s, width, ambi, d, idx). length b - s)") (auto dest!: safe_decode_gt)

declare widthindex_loop.simps [simp del]

definition Lutf8_widthindex :: "unidata \<Rightarrow> bytes \<Rightarrow> int \<Rightarrow> bool \<Rightarrow> int \<Rightarrow> lua_val list lua_result" where
  "Lutf8_widthindex U s width arg3 default_width =
     widthindex_loop U s 0 (cast_int width) (\<not> arg3) (cast_int default_width) 1"

function ncasecmp_loop :: "unidata \<Rightarrow> bytes \<Rightarrow> nat \<Rightarrow> bytes \<Rightarrow> nat \<Rightarrow> int lua_result" where
  "ncasecmp_loop U b1 s1 b2 s2 =
     (if s1 < length b1 \<or> s2 < length b2 then
        if s1 = length b1 then Inr (-1)
        else if s2 = length b2 then Inr 1
        else
          case utf8_safe_decode b1 s1 of
            Inl err \<Rightarrow> Inl err
          | Inr (s1', ch1) \<Rightarrow>
              (case utf8_safe_decode b2 s2 of
                 Inl err \<Rightarrow> Inl err
               | Inr (s2', ch2) \<Rightarrow>
                   (case (utf8_tofold U ch1, utf8_tofold U ch2) of
                      (Inl err, _) \<Rightarrow> Inl err
                    | (_, Inl err) \<Rightarrow> Inl err
                    | (Inr c1, Inr c2) \<Rightarrow>
                        if c1 \<noteq> c2 then Inr (if c1 > c2 then 1 else -1)
                        else ncasecmp_loop U b1 s1' b2 s2'))
      else Inr 0)"
  by pat_completeness auto
termination
  by (relation "measure (\<lambda>(U, b1, s1, b2, s2). (length b1 - s1) + (length b2 - s2))")
    (fastforce dest!: safe_decode_gt)+

declare ncasecmp_loop.simps [simp del]

definition Lutf8_ncasecmp :: "unidata \<Rightarrow> bytes \<Rightarrow> bytes \<Rightarrow> int lua_result" where
  "Lutf8_ncasecmp U b1 b2 = ncasecmp_loop U b1 0 b2 0"

section \<open>The loops on encoded strings\<close>

fun fold_lua :: "('b \<Rightarrow> 'a \<Rightarrow> 'a lua_result) \<Rightarrow> 'b list \<Rightarrow> 'a \<Rightarrow> 'a lua_result" where
  "fold_lua f [] acc = Inr acc"
| "fold_lua f (v # vs) acc = bind_lua (f v acc) (fold_lua f vs)"

lemma safe_decode_bnd:
  "codes_ok vs \<Longrightarrow> k < length vs \<Longrightarrow>
   utf8_safe_decode (encode_all vs) (bnd vs k) = Inr (bnd vs (Suc k), vs ! k)"
  by (simp add: utf8_safe_decode_def decode_bnd)

lemma decode_fold_bnd:
  assumes "codes_ok vs" and "m \<le> length vs"
  shows "k \<le> m \<Longrightarrow>
    decode_fold f (encode_all vs) (bnd vs k) (bnd vs m) acc = fold_lua f (take (m - k) (drop k vs)) acc"
proof (induction "m - k" arbitrary: k acc)
  case 0
  then show ?case by (subst decode_fold.simps) simp
next
  case (Suc d)
  then have k: "k < m" and kl: "k < length vs" using assms(2) by simp_all
  have lt: "bnd vs k < bnd vs m" using bnd_mono_less [OF assms(1) k assms(2)] .
  have tk: "take (m - k) (drop k vs) = vs ! k # take (m - Suc k) (drop (Suc k) vs)"
    using k kl by (simp add: drop_nth_Cons Suc_diff_Suc [symmetric])
  have IH: "decode_fold f (encode_all vs) (bnd vs (Suc k)) (bnd vs m) a =
      fold_lua f (take (m - Suc k) (drop (Suc k) vs)) a" for a
    using Suc.hyps(1) [of "Suc k" a] Suc.hyps(2) k by simp
  show ?case
    using lt safe_decode_bnd [OF assms(1) kl]
    by (subst decode_fold.simps) (simp add: tk IH bind_lua_def split: sum.splits)
qed

lemma decode_fold_all:
  "codes_ok vs \<Longrightarrow> decode_fold f (encode_all vs) 0 (length (encode_all vs)) acc = fold_lua f vs acc"
  using decode_fold_bnd [of vs "length vs" 0 f acc] by (simp add: bnd_all)

lemma fold_lua_collect: "fold_lua (\<lambda>v acc. Inr (acc @ g v)) vs acc = Inr (acc @ concat (map g vs))"
  by (induction vs arbitrary: acc) simp_all

lemma fold_lua_cong:
  "(\<And>v a. v \<in> set vs \<Longrightarrow> f v a = g v a) \<Longrightarrow> fold_lua f vs acc = fold_lua g vs acc"
proof (induction vs arbitrary: acc)
  case (Cons v vs)
  have "fold_lua f vs = fold_lua g vs" using Cons by (intro ext) simp
  then show ?case using Cons.prems [of v] by simp
qed simp

lemma char_loop_codes:
  "list_all (\<lambda>v. v \<le> UTF8_MAXCP) vs \<Longrightarrow> char_loop (map uint vs) b = Inr (b @ encode_all vs)"
  by (induction vs arbitrary: b) (simp_all add: add_utf8char_def word_le_def)

lemma scalar_list_ok:
  assumes "list_all (\<lambda>v. \<not> utf8_invalid v) vs"
  shows "codes_ok vs" and "list_all (\<lambda>v. v \<le> UTF8_MAXCP) vs"
  using assms scalar_small by (auto simp: codes_ok_def list_all_iff utf8_invalid_def not_less)

lemma encode_loop_length:
  "unat x < 64 ^ Suc k \<Longrightarrow> length (utf8_encode_loop x mfb buf) \<le> length buf + k + 2"
proof (induction k arbitrary: x mfb buf)
  case 0
  then have "unat (drop_bit 6 x) = 0" by (simp only: unat_drop_bit_div) simp
  then have "drop_bit 6 x = 0" by (simp add: unsigned_eq_0_iff)
  then show ?case by (subst utf8_encode_loop.simps) (simp add: Let_def)
next
  case (Suc k)
  have "unat (drop_bit 6 x) < 64 ^ Suc k"
    using Suc.prems by (simp only: unat_drop_bit_div) (simp add: less_mult_imp_div_less)
  note IH = Suc.IH [OF this]
  define b m where "b = (ucast (0x80 OR (x AND 0x3f)) :: u8)" and "m = drop_bit 1 mfb"
  have "length (utf8_encode_loop (drop_bit 6 x) m (b # buf)) \<le> Suc (length buf + k + 2)"
    using IH [of m "b # buf"] by simp
  then show ?case
    by (subst utf8_encode_loop.simps) (simp only: Let_def b_def m_def split: if_split, simp)
qed

section \<open>Escapes\<close>

definition escape_text :: "u32 list \<Rightarrow> u32 list" where
  "escape_text vs = concat (map (\<lambda>v. if v = 0x25 then [v, v] else [v]) vs)"

lemma encode_percent: "utf8_encode 0x25 = [0x25]" by code_simp

lemma codes_ok_append [simp]: "codes_ok (us @ vs) \<longleftrightarrow> codes_ok us \<and> codes_ok vs"
  by (simp add: codes_ok_def)

lemma codes_ok_Cons [simp]: "codes_ok (v # vs) \<longleftrightarrow> v \<le> UTF8_MAX \<and> codes_ok vs"
  by (simp add: codes_ok_def)

lemma codes_ok_Nil [simp]: "codes_ok []"
  by (simp add: codes_ok_def)

lemma safe_decode_mid:
  assumes "v \<le> UTF8_MAX"
  shows "utf8_safe_decode (r @ utf8_encode v @ t) (length r) = Inr (length r + length (utf8_encode v), v)"
  using lax_utf8.dec_mid [OF assms, of r t] by (simp add: utf8_safe_decode_def)

lemma escape_loop_text:
  "codes_ok vs \<Longrightarrow>
   escape_loop (r @ encode_all (escape_text vs)) (length r) (length (r @ encode_all (escape_text vs))) buf =
     Inr (buf @ encode_all vs)"
proof (induction vs arbitrary: r buf)
  case Nil
  then show ?case by (subst escape_loop.simps) (simp add: escape_text_def)
next
  case (Cons v vs)
  then have v: "v \<le> UTF8_MAX" and ok: "codes_ok vs" by simp_all
  have ne: "utf8_encode v \<noteq> []" by (rule utf8_encode_nonempty [OF v])
  let ?t = "encode_all (escape_text vs)"
  show ?case
  proof (cases "v = 0x25")
    case True
    have e: "r @ encode_all (escape_text (v # vs)) = r @ [0x25, 0x25] @ ?t"
      using True by (simp add: escape_text_def encode_percent)
    let ?b = "r @ [0x25, 0x25] @ ?t"
    have d1: "utf8_safe_decode ?b (length r) = Inr (length r + 1, 0x25)"
      using safe_decode_mid [of "0x25" r "[0x25] @ ?t"] v True by (simp add: encode_percent)
    have d2: "utf8_safe_decode ?b (length r + 1) = Inr (length r + 2, 0x25)"
      using safe_decode_mid [of "0x25" "r @ [0x25]" ?t] v True by (simp add: encode_percent)
    have "byte_at ?b (length r + 1) = 0x25" by (simp add: nth_append)
    then have s: "escape_seq ?b (length r + 1) (length ?b) = Inr (length r + 2, 0x25)"
      unfolding escape_seq_def Let_def by (simp only: d2) simp
    have "escape_loop ?b (length r) (length ?b) buf = escape_loop ?b (length r + 2) (length ?b) (buf @ [0x25])"
      by (subst escape_loop.simps)
        (simp only: d1 s sum.case prod.case, simp add: add_utf8char_def encode_percent)
    also have "\<dots> = Inr (buf @ [0x25] @ encode_all vs)"
      using Cons.IH [OF ok, of "r @ [0x25, 0x25]" "buf @ [0x25]"] by simp
    finally show ?thesis unfolding e using True by (simp add: encode_percent)
  next
    case False
    have e: "r @ encode_all (escape_text (v # vs)) = r @ utf8_encode v @ ?t"
      using False by (simp add: escape_text_def)
    have "escape_loop (r @ utf8_encode v @ ?t) (length r) (length (r @ utf8_encode v @ ?t)) buf =
        escape_loop (r @ utf8_encode v @ ?t) (length r + length (utf8_encode v))
          (length (r @ utf8_encode v @ ?t)) (buf @ utf8_encode v)"
      using ne False
      by (subst escape_loop.simps) (simp add: safe_decode_mid [OF v] add_utf8char_def)
    also have "\<dots> = Inr (buf @ utf8_encode v @ encode_all vs)"
      using Cons.IH [OF ok, of "r @ utf8_encode v" "buf @ utf8_encode v"] by simp
    finally show ?thesis unfolding e by simp
  qed
qed

section \<open>Offsets\<close>

lemma off_begin_bnd:
  assumes "codes_ok vs" and "k < length vs" and "i < length (utf8_encode (vs ! k))"
  shows "off_begin (encode_all vs) (bnd vs k + i) = bnd vs k"
  using assms(3)
proof (induction i)
  case 0
  then show ?case using char_start [OF assms(1), of k] by (subst off_begin.simps) simp
next
  case (Suc i)
  then show ?case using char_tail [OF assms(1,2), of "Suc i"] by (subst off_begin.simps) simp
qed

lemma off_skip_bnd:
  assumes "codes_ok vs" and "k < length vs"
  shows "off_skip (encode_all vs) (bnd vs k + 1) = bnd vs (Suc k)"
proof -
  let ?n = "length (utf8_encode (vs ! k))"
  have n: "0 < ?n" using char_pos assms by blast
  have "off_skip (encode_all vs) (bnd vs k + (?n - j)) = bnd vs k + ?n" if "j < ?n" for j
    using that
  proof (induction j)
    case 0
    then show ?case using char_start [OF assms(1), of "Suc k"] bnd_Suc [OF assms(2)]
      by (subst off_skip.simps) simp
  next
    case (Suc j)
    then have "iscont (encode_all vs) (bnd vs k + (?n - Suc j))"
      using char_tail [OF assms, of "?n - Suc j"] by simp
    moreover have "bnd vs k + (?n - Suc j) + 1 = bnd vs k + (?n - j)" using Suc.prems by simp
    ultimately show ?case using Suc by (subst off_skip.simps) simp
  qed
  from this [of "?n - 1"] n show ?thesis by (simp add: bnd_Suc [OF assms(2)])
qed

lemma off_fwd_bnd:
  assumes "codes_ok vs"
  shows "k \<le> length vs \<Longrightarrow> off_fwd (encode_all vs) d (bnd vs k) =
    (if k + d \<le> length vs then (0, bnd vs (k + d)) else (d - (length vs - k), length (encode_all vs)))"
proof (induction d arbitrary: k)
  case (Suc d)
  show ?case
  proof (cases "k < length vs")
    case True
    then show ?thesis
      using Suc.IH [of "Suc k"] off_skip_bnd [OF assms True] by (simp add: bnd_end_iff [OF assms])
  next
    case False
    with Suc.prems show ?thesis by (simp add: bnd_all)
  qed
qed simp

lemma off_back_bnd:
  assumes "codes_ok vs"
  shows "k \<le> length vs \<Longrightarrow> off_back (encode_all vs) d (bnd vs k) =
    (if d \<le> k then (0, bnd vs (k - d)) else (d - k, 0))"
proof (induction d arbitrary: k)
  case (Suc d)
  show ?case
  proof (cases k)
    case (Suc m)
    then have m: "m < length vs" using Suc.prems by simp
    have b: "bnd vs k - 1 = bnd vs m + (length (utf8_encode (vs ! m)) - 1)"
      using char_pos [OF assms m] unfolding Suc bnd_Suc [OF m] by linarith
    have "off_begin (encode_all vs) (bnd vs k - 1) = bnd vs m"
      unfolding b by (rule off_begin_bnd [OF assms m]) (use char_pos [OF assms m] in linarith)
    moreover have "0 < bnd vs k" using bnd_pos_iff [OF assms, of k] Suc.prems Suc by simp
    ultimately show ?thesis using Suc.IH [of m] Suc Suc.prems by simp
  qed simp
qed simp

section \<open>Comparison\<close>

fun compare_codes :: "u32 list \<Rightarrow> u32 list \<Rightarrow> int" where
  "compare_codes [] [] = 0"
| "compare_codes [] (w # ws) = -1"
| "compare_codes (v # vs) [] = 1"
| "compare_codes (v # vs) (w # ws) =
     (if v < w then -1 else if w < v then 1 else compare_codes vs ws)"

lemma compare_codes_zero: "compare_codes vs ws = 0 \<longleftrightarrow> vs = ws"
  by (induction vs ws rule: compare_codes.induct) auto

lemma compare_codes_swap: "compare_codes ws vs = - compare_codes vs ws"
  by (induction vs ws rule: compare_codes.induct) auto

lemma ncasecmp_bnd:
  assumes "codes_ok vs" and "codes_ok ws"
    and "list_all (\<lambda>v. utf8_tofold U v = Inr (f v)) (vs @ ws)"
  shows "k \<le> length vs \<Longrightarrow> k \<le> length ws \<Longrightarrow>
    ncasecmp_loop U (encode_all vs) (bnd vs k) (encode_all ws) (bnd ws k) =
      Inr (compare_codes (map f (drop k vs)) (map f (drop k ws)))"
proof (induction "length vs - k" arbitrary: k)
  case 0
  then have k: "length vs = k" by simp
  then have e: "bnd vs k = length (encode_all vs)" by (simp add: bnd_all)
  show ?case
  proof (cases "k < length ws")
    case True
    then show ?thesis
      using 0 k e by (subst ncasecmp_loop.simps) (simp add: bnd_end_iff [OF assms(2)] drop_nth_Cons)
  next
    case False
    then show ?thesis using 0 k by (subst ncasecmp_loop.simps) (simp add: bnd_all)
  qed
next
  case (Suc d)
  then have k: "k < length vs" by simp
  have ltv: "bnd vs k < length (encode_all vs)" using k by (simp add: bnd_end_iff [OF assms(1)])
  show ?case
  proof (cases "k < length ws")
    case False
    with Suc.prems have "bnd ws k = length (encode_all ws)" by (simp add: bnd_all)
    with False k ltv show ?thesis
      by (subst ncasecmp_loop.simps) (simp add: drop_nth_Cons)
  next
    case True
    have ltw: "bnd ws k < length (encode_all ws)" using True by (simp add: bnd_end_iff [OF assms(2)])
    have f: "utf8_tofold U (vs ! k) = Inr (f (vs ! k))" "utf8_tofold U (ws ! k) = Inr (f (ws ! k))"
      using assms(3) nth_mem [OF k] nth_mem [OF True] by (simp_all add: list_all_iff)
    have IH: "ncasecmp_loop U (encode_all vs) (bnd vs (Suc k)) (encode_all ws) (bnd ws (Suc k)) =
        Inr (compare_codes (map f (drop (Suc k) vs)) (map f (drop (Suc k) ws)))"
      using Suc.hyps(1) [of "Suc k"] Suc.hyps(2) k True by simp
    show ?thesis
      using ltv ltw k True
      by (subst ncasecmp_loop.simps)
        (auto simp: safe_decode_bnd assms(1,2) f IH drop_nth_Cons)
  qed
qed

section \<open>Properties\<close>

text \<open>
  \<open>utf8.codepoint\<close> over a whole string inverts \<open>utf8.char\<close>: for scalar values whose encoding
  is shorter than 2^31 - 1 bytes, \<open>char\<close> succeeds and \<open>codepoint\<close> of its result gives the values back.
\<close>

theorem Lutf8_char_codepoint:
  assumes "list_all (\<lambda>v. \<not> utf8_invalid v) vs" and "length (encode_all vs) < 2 ^ 31"
  shows "\<exists>s. Lutf8_char (map uint vs) = Inr s \<and> Lutf8_codepoint s None (Some (-1)) False = Inr vs"
proof -
  let ?s = "encode_all vs"
  note ok = scalar_list_ok [OF assms(1)]
  have c: "Lutf8_char (map uint vs) = Inr ?s"
    using char_loop_codes [OF ok(2), of "[]"] by (simp add: Lutf8_char_def)
  let ?f = "\<lambda>ch acc. if \<not> False \<and> utf8_invalid ch then Inl (LuaError ''invalid UTF-8 code'') else Inr (acc @ [ch])"
  have "fold_lua ?f vs [] = fold_lua (\<lambda>ch acc. Inr (acc @ [ch])) vs []"
    using assms(1) by (intro fold_lua_cong) (simp add: list_all_iff)
  then have f: "decode_fold ?f ?s 0 (length ?s) [] = Inr vs"
    using fold_lua_collect [of "\<lambda>v. [v]" vs "[]"] by (simp only: decode_fold_all [OF ok(1)]) simp
  have "Lutf8_codepoint ?s None (Some (-1)) False = Inr vs"
  proof (cases "?s = []")
    case True
    have "vs = []"
    proof (rule ccontr)
      assume "vs \<noteq> []"
      with char_pos [OF ok(1), of 0] have "0 < length (utf8_encode (hd vs))" by (simp add: hd_conv_nth)
      with True \<open>vs \<noteq> []\<close> show False by (cases vs) auto
    qed
    then show ?thesis by (simp add: Lutf8_codepoint_def byte_relat_def Let_def)
  next
    case False
    then have "0 < length ?s" by simp
    then have "byte_relat (-1) (length ?s) = int (length ?s)" by (simp add: byte_relat_def)
    then show ?thesis
      using f assms(2) \<open>0 < length ?s\<close> by (simp add: Lutf8_codepoint_def byte_relat_def Let_def)
  qed
  with c show ?thesis by blast
qed

theorem Lutf8_char_codepoint_witness:
  "\<exists>s. Lutf8_char (map uint [0x61 :: u32, 0x10FFFF]) = Inr s \<and>
     Lutf8_codepoint s None (Some (-1)) False = Inr [0x61, 0x10FFFF]"
proof (rule Lutf8_char_codepoint)
  show "list_all (\<lambda>v. \<not> utf8_invalid v) [0x61, 0x10FFFF]" by code_simp
  have "encode_all [0x61, 0x10FFFF] = [0x61, 0xF4, 0x8F, 0xBF, 0xBF]" by code_simp
  then show "length (encode_all [0x61, 0x10FFFF]) < 2 ^ 31" by simp
qed

text \<open>
  A case converter applied to an encoded string converts every code point and encodes the
  results, when the lookup of each code point does not trap.
\<close>

theorem Lutf8_convert_codes:
  assumes "codes_ok vs" and "list_all (\<lambda>v. conv v = Inr (f v)) vs"
  shows "Lutf8_convert conv (encode_all vs) = Inr (encode_all (map f vs))"
proof -
  have "fold_lua (\<lambda>ch acc. bind_lua (conv ch) (\<lambda>c. Inr (acc @ add_utf8char c))) vs [] =
      fold_lua (\<lambda>ch acc. Inr (acc @ utf8_encode (f ch))) vs []"
    using assms(2) by (intro fold_lua_cong) (simp add: list_all_iff add_utf8char_def)
  also have "\<dots> = Inr (encode_all (map f vs))"
    using fold_lua_collect [of "\<lambda>v. utf8_encode (f v)" vs "[]"] by (simp add: encode_all_def comp_def)
  finally show ?thesis by (simp add: Lutf8_convert_def decode_fold_all [OF assms(1)])
qed

theorem Lutf8_convert_codes_witness:
  "Lutf8_upper tiny_unidata (encode_all [0x61, 0x20AC]) = Inr (encode_all [0x41, 0x20AC])"
proof -
  have ok: "codes_ok [0x61, 0x20AC]" by code_simp
  have c: "list_all (\<lambda>v. utf8_toupper tiny_unidata v = Inr (if v = 0x61 then 0x41 else v)) [0x61, 0x20AC]"
    by code_simp
  from Lutf8_convert_codes [OF ok c] show ?thesis by (simp add: Lutf8_upper_def)
qed

text \<open>
  Whatever 32-bit value \<open>utf8_encode\<close> is given, it writes between one and seven bytes: the
  eight bytes of the caller's buffer are never exceeded.
\<close>

theorem utf8_encode_fits_buffer: "1 \<le> length (utf8_encode x) \<and> length (utf8_encode x) \<le> 7"
proof -
  have "0 < length (utf8_encode_loop y m b)" for y m b
  proof (induction y m b rule: utf8_encode_loop.induct)
    case (1 y m b)
    then show ?case by (subst utf8_encode_loop.simps) (simp add: Let_def)
  qed
  from this [of x "0x3f" "[]"] encode_loop_length [of x 5 "0x3f" "[]"] show ?thesis
    by (auto simp: utf8_encode_def Suc_le_eq less_trans [OF unat_u32_less])
qed

text \<open>
  \<open>utf8.escape\<close> of a text in which every percent sign is doubled is the text.
\<close>

theorem Lutf8_escape_doubled:
  assumes "codes_ok vs"
  shows "Lutf8_escape (encode_all (escape_text vs)) = Inr (encode_all vs)"
  using escape_loop_text [OF assms, of "[]" "[]"] by (simp add: Lutf8_escape_def)

theorem Lutf8_escape_doubled_witness:
  "Lutf8_escape (encode_all [0x25, 0x25, 0x20AC]) = Inr (encode_all [0x25, 0x20AC])"
proof -
  have "codes_ok [0x25, 0x20AC]" by code_simp
  from Lutf8_escape_doubled [OF this] show ?thesis by (simp add: escape_text_def)
qed

text \<open>
  On an encoded list of \<open>n\<close> code points \<open>utf8.offset(s, i)\<close> is the byte position of the
  \<open>i\<close>-th character: for \<open>i > 0\<close> from the front (the position after the last one included), for
  \<open>i < 0\<close> from the end, and nil beyond them.
\<close>

theorem Lutf8_offset_codes:
  assumes "codes_ok vs" and "i \<noteq> 0"
  shows "Lutf8_offset (encode_all vs) i None =
    Inr (if i > 0 \<and> nat i \<le> length vs + 1 then LInt (int (bnd vs (nat i - 1)) + 1)
         else if i < 0 \<and> nat (- i) \<le> length vs then LInt (int (bnd vs (length vs - nat (- i))) + 1)
         else LNil)"
proof (cases "i > 0")
  case True
  have "\<not> iscont (encode_all vs) 0" using char_start [OF assms(1), of 0] by simp
  moreover have "off_fwd (encode_all vs) (nat (i - 1)) 0 =
      (if nat i \<le> length vs + 1 then (0, bnd vs (nat i - 1)) else (nat (i - 1) - length vs, length (encode_all vs)))"
    using off_fwd_bnd [OF assms(1), of 0 "nat (i - 1)"] True by (auto simp: nat_diff_distrib)
  ultimately show ?thesis
    using True by (auto simp: Lutf8_offset_def byte_relat_def Let_def)
next
  case False
  have "\<not> iscont (encode_all vs) (length (encode_all vs))"
    using char_start [OF assms(1), of "length vs"] by (simp add: bnd_all)
  moreover have "off_back (encode_all vs) (nat (- i)) (length (encode_all vs)) =
      (if nat (- i) \<le> length vs then (0, bnd vs (length vs - nat (- i))) else (nat (- i) - length vs, 0))"
    using off_back_bnd [OF assms(1), of "length vs" "nat (- i)"] by (simp add: bnd_all)
  ultimately show ?thesis
    using False assms(2) by (auto simp: Lutf8_offset_def byte_relat_def Let_def)
qed

theorem Lutf8_offset_codes_witness:
  "Lutf8_offset (encode_all [0x61, 0x20AC, 0x62]) 3 None = Inr (LInt 5)"
proof -
  have ok: "codes_ok [0x61, 0x20AC, 0x62]" by code_simp
  have "bnd [0x61, 0x20AC, 0x62] 2 = 4" by code_simp
  with Lutf8_offset_codes [OF ok, of 3] show ?thesis by simp
qed

text \<open>
  The iterator of \<open>utf8.codes\<close> visits the characters in order: called with 0 or with the
  position of a character it returns the position and the code point of the next one, and
  nothing after the last.
\<close>

theorem iter_aux_codes:
  assumes "codes_ok vs" and "list_all (\<lambda>v. \<not> (strict \<and> utf8_invalid v)) vs"
    and "length (encode_all vs) < 2 ^ 31" and "k \<le> length vs"
  shows "iter_aux (encode_all vs) strict (if k = 0 then 0 else int (bnd vs (k - 1)) + 1) =
    Inr (if k < length vs then Some (bnd vs k + 1, vs ! k) else None)"
proof -
  let ?n = "if k = 0 then 0 else int (bnd vs (k - 1)) + 1"
  have small: "- (2 ^ 31) \<le> ?n \<and> ?n < 2 ^ 31"
  proof (cases "k = 0")
    case False
    then have "bnd vs (k - 1) < bnd vs k" using bnd_mono_less [OF assms(1), of "k - 1" k] assms(4) by simp
    moreover have "bnd vs k \<le> length (encode_all vs)" by (rule bnd_le)
    ultimately show ?thesis using assms(3) False by simp
  qed simp
  then have c: "cast_int ?n = ?n" by simp
  have p: "(if ?n \<le> 0 then 0 else utf8_next (encode_all vs) (nat ?n - 1) (length (encode_all vs))) = bnd vs k"
  proof (cases k)
    case (Suc m)
    then show ?thesis using next_bnd [OF assms(1), of m] assms(4) by (simp add: nat_add_distrib)
  qed simp
  have "\<not> (strict \<and> utf8_invalid (vs ! k))" if "k < length vs"
    using assms(2) that by (simp add: list_all_length)
  then show ?thesis
    unfolding iter_aux_def Let_def c p using bnd_end_iff [OF assms(1,4)]
    by (auto simp: safe_decode_bnd [OF assms(1)])
qed

theorem iter_aux_codes_witness:
  "iter_aux (encode_all [0x20AC, 0x62]) True 1 = Inr (Some (4, 0x62))"
proof -
  have ok: "codes_ok [0x20AC, 0x62]" and s: "list_all (\<lambda>v. \<not> (True \<and> utf8_invalid v)) [0x20AC, 0x62]"
    by code_simp+
  have e: "encode_all [0x20AC, 0x62] = [0xE2, 0x82, 0xAC, 0x62]" and b: "bnd [0x20AC, 0x62] 1 = 3" by code_simp+
  from iter_aux_codes [OF ok s, of 1] show ?thesis unfolding e b by simp
qed

text \<open>
  \<open>utf8.ncasecmp\<close> of two encoded strings is the lexicographic comparison of their folded code
  points; so it is 0 exactly when the folded lists are equal, and swapping the arguments negates it.
\<close>

theorem Lutf8_ncasecmp_codes:
  assumes "codes_ok vs" and "codes_ok ws" and "list_all (\<lambda>v. utf8_tofold U v = Inr (f v)) (vs @ ws)"
  shows "\<exists>r. Lutf8_ncasecmp U (encode_all vs) (encode_all ws) = Inr r \<and>
    Lutf8_ncasecmp U (encode_all ws) (encode_all vs) = Inr (- r) \<and>
    r = compare_codes (map f vs) (map f ws) \<and> (r = 0 \<longleftrightarrow> map f vs = map f ws)"
proof -
  have "list_all (\<lambda>v. utf8_tofold U v = Inr (f v)) (ws @ vs)" using assms(3) by auto
  with ncasecmp_bnd [OF assms, of 0] ncasecmp_bnd [OF assms(2,1) this, of 0] show ?thesis
    using compare_codes_swap [of "map f ws" "map f vs"]
    by (auto simp: Lutf8_ncasecmp_def compare_codes_zero)
qed

theorem Lutf8_ncasecmp_codes_witness:
  "\<exists>r. Lutf8_ncasecmp tiny_unidata (encode_all [0x41, 0x62]) (encode_all [0x61, 0x43]) = Inr r \<and>
    Lutf8_ncasecmp tiny_unidata (encode_all [0x61, 0x43]) (encode_all [0x41, 0x62]) = Inr (- r) \<and> r = -1"
proof -
  let ?f = "\<lambda>v. if v = 0x41 then 0x61 else if v = 0x43 then 0x63 else (v :: u32)"
  have ok: "codes_ok [0x41, 0x62]" "codes_ok [0x61, 0x43]" by code_simp+
  have t: "list_all (\<lambda>v. utf8_tofold tiny_unidata v = Inr (?f v)) ([0x41, 0x62] @ [0x61, 0x43])" by code_simp
  from Lutf8_ncasecmp_codes [OF ok t] show ?thesis by auto
qed

text \<open>\<open>utf8.char\<close> lets a negative code through: it encodes the low 32 bits as a 7-byte sequence.\<close>

lemma Lutf8_char_negative:
  "Lutf8_char [-1] = Inr [0xFE, 0x83, 0xBF, 0xBF, 0xBF, 0xBF, 0xBF]"
  by code_simp

text \<open>A percent sign at the end of the text of \<open>utf8.escape\<close> becomes a NUL character.\<close>

lemma Lutf8_escape_trailing_percent: "Lutf8_escape [0x61, 0x25] = Inr [0x61, 0]"
  by code_simp

end
