(* ===== verification/Utf8Match.thy ===== *)
theory Utf8Match
  imports Utf8Api
begin

text \<open>
  The pattern matcher of \<^verbatim>\<open>luafar/src/lutf8lib.c\<close>. A \<^verbatim>\<open>MatchState\<close> has constant parts (the
  subject \<open>src\<close>, the pattern \<open>pat\<close>, the generated tables \<open>uni\<close>) kept in \<open>match_env\<close>, and the
  captures, threaded through every function as \<open>match_state\<close>. The recursion depth of the C
  function \<open>match\<close> is bounded by \<^verbatim>\<open>matchdepth\<close>: it is the argument \<open>d\<close> of \<open>match'\<close>, which fails
  with ``pattern too complex'' at 0 as the code does. The loops inside one activation take the
  nested call as the function \<open>rec\<close>; they end because they move through the pattern or the subject.

  Reads behind the terminator of the pattern are the error \<open>BadRead\<close>.
\<close>

section \<open>State\<close>

record match_env =
  uni :: unidata
  src :: bytes
  pat :: bytes

record match_state =
  level :: nat
  capture :: "(nat \<times> int) list"

definition LUA_MAXCAPTURES :: nat where "LUA_MAXCAPTURES = 32"
definition MAXCCALLS :: nat where "MAXCCALLS = 200"
definition CAP_UNFINISHED :: int where "CAP_UNFINISHED = -1"
definition CAP_POSITION :: int where "CAP_POSITION = -2"

abbreviation src_end :: "match_env \<Rightarrow> nat" where "src_end M \<equiv> length (src M)"
abbreviation p_end :: "match_env \<Rightarrow> nat" where "p_end M \<equiv> length (pat M)"

definition no_captures :: match_state where
  "no_captures = \<lparr>level = 0, capture = replicate LUA_MAXCAPTURES (0, 0)\<rparr>"

abbreviation lerr :: "string \<Rightarrow> 'a lua_result" where "lerr msg \<equiv> Inl (LuaError msg)"

section \<open>Single characters\<close>

definition check_capture :: "match_state \<Rightarrow> int \<Rightarrow> nat lua_result" where
  "check_capture ms l =
     (let l = l - 0x31 in
      if l < 0 \<or> l \<ge> int (level ms) \<or> snd (capture ms ! nat l) = CAP_UNFINISHED
      then lerr ''invalid capture index'' else Inr (nat l))"

fun last_unfinished :: "(nat \<times> int) list \<Rightarrow> nat \<Rightarrow> nat option" where
  "last_unfinished cs 0 = None"
| "last_unfinished cs (Suc l) = (if snd (cs ! l) = CAP_UNFINISHED then Some l else last_unfinished cs l)"

definition capture_to_close :: "match_state \<Rightarrow> nat lua_result" where
  "capture_to_close ms =
     (case last_unfinished (capture ms) (level ms) of
        Some l \<Rightarrow> Inr l
      | None \<Rightarrow> lerr ''invalid pattern capture'')"

text \<open>The loop of \<open>classend\<close> that looks for the closing bracket.\<close>

function set_end :: "bytes \<Rightarrow> nat \<Rightarrow> nat lua_result" where
  "set_end b p =
     (if p \<ge> length b then lerr ''malformed pattern (missing ])''
      else
        let p' = (if byte_at b p = 0x25 \<and> p + 1 < length b then p + 2 else p + 1) in
        if byte_at b p' \<noteq> 0x5D then set_end b p' else Inr (p' + 1))"
  by pat_completeness auto
termination by (relation "measure (\<lambda>(b, p). length b - p)") auto

declare set_end.simps [simp del]

definition classend :: "match_env \<Rightarrow> nat \<Rightarrow> nat lua_result" where
  "classend M p =
     (case utf8_safe_decode (pat M) p of
        Inl err \<Rightarrow> Inl err
      | Inr (p, ch) \<Rightarrow>
          if ch = 0x25 then
            if p = p_end M then lerr ''malformed pattern (ends with %)''
            else Inr (utf8_next (pat M) p (p_end M))
          else if ch = 0x5B then set_end (pat M) (if byte_at (pat M) p = 0x5E then p + 1 else p)
          else Inr p)"

text \<open>The class letters of \<open>match_class\<close> with the table each one reads.\<close>

definition class_test :: "unidata \<Rightarrow> u32 \<Rightarrow> u32 \<Rightarrow> bool lua_result option" where
  "class_test U c cl =
     (if cl = 0x61 then Some (find_in_range (alpha_table U) c)
      else if cl = 0x63 then Some (find_in_range (cntrl_table U) c)
      else if cl = 0x64 then Some (find_in_range (digit_table U) c)
      else if cl = 0x6C then Some (find_in_range (lower_table U) c)
      else if cl = 0x70 then Some (find_in_range (punct_table U) c)
      else if cl = 0x73 then Some (find_in_range (space_table U) c)
      else if cl = 0x74 then Some (find_in_range (compose_table U) c)
      else if cl = 0x75 then Some (find_in_range (upper_table U) c)
      else if cl = 0x78 then Some (find_in_range (xdigit_table U) c)
      else if cl = 0x67 then Some (utf8_isgraph U c)
      else if cl = 0x77 then Some (utf8_isalnum U c)
      else if cl = 0x7A then Some (Inr (c = 0))
      else None)"

definition match_class :: "unidata \<Rightarrow> u32 \<Rightarrow> u32 \<Rightarrow> bool lua_result" where
  "match_class U c cl =
     bind_lua (utf8_tolower U cl) (\<lambda>low.
       case class_test U c low of
         None \<Rightarrow> Inr (cl = c)
       | Some test \<Rightarrow> bind_lua test (\<lambda>res.
           bind_lua (utf8_islower U cl) (\<lambda>lower. Inr (if lower then res else \<not> res))))"

text \<open>The loop over the members of a set; \<open>ec\<close> is the position of its closing bracket.\<close>

function set_loop :: "match_env \<Rightarrow> u32 \<Rightarrow> nat \<Rightarrow> nat \<Rightarrow> bool \<Rightarrow> bool lua_result" where
  "set_loop M c p ec sig =
     (if p < ec then
        case utf8_safe_decode (pat M) p of
          Inl err \<Rightarrow> Inl err
        | Inr (p1, ch) \<Rightarrow>
            if ch = 0x25 then
              (case utf8_safe_decode (pat M) p1 of
                 Inl err \<Rightarrow> Inl err
               | Inr (p2, ch) \<Rightarrow>
                   (case match_class (uni M) c ch of
                      Inl err \<Rightarrow> Inl err
                    | Inr hit \<Rightarrow> if hit then Inr sig else set_loop M c p2 ec sig))
            else
              (case utf8_safe_decode (pat M) p1 of
                 Inl err \<Rightarrow> Inl err
               | Inr (np, nx) \<Rightarrow>
                   if nx = 0x2D \<and> np < ec then
                     (case utf8_safe_decode (pat M) np of
                        Inl err \<Rightarrow> Inl err
                      | Inr (p3, nx) \<Rightarrow>
                          if ch \<le> c \<and> c \<le> nx then Inr sig else set_loop M c p3 ec sig)
                   else if ch = c then Inr sig
                   else set_loop M c p1 ec sig)
      else Inr (\<not> sig))"
  by pat_completeness auto
termination
  by (relation "measure (\<lambda>(M, c, p, ec, sig). ec - p)") (fastforce dest!: safe_decode_gt)+

declare set_loop.simps [simp del]

definition matchbracketclass :: "match_env \<Rightarrow> u32 \<Rightarrow> nat \<Rightarrow> nat \<Rightarrow> bool lua_result" where
  "matchbracketclass M c p ec =
     (if byte_at (pat M) (p + 1) = 0x5E then set_loop M c (p + 2) ec False
      else set_loop M c (p + 1) ec True)"

definition singlematch :: "match_env \<Rightarrow> nat \<Rightarrow> nat \<Rightarrow> nat \<Rightarrow> bool lua_result" where
  "singlematch M s p ep =
     (if s \<ge> src_end M then Inr False
      else
        bind_lua (utf8_safe_decode (src M) s) (\<lambda>(_, ch).
        bind_lua (utf8_safe_decode (pat M) p) (\<lambda>(p, pch).
          if pch = 0x2E then Inr True
          else if pch = 0x25 then
            bind_lua (utf8_safe_decode (pat M) p) (\<lambda>(_, pch). match_class (uni M) ch pch)
          else if pch = 0x5B then matchbracketclass M ch (p - 1) (ep - 1)
          else Inr (pch = ch))))"

lemma singlematch_inside: "singlematch M s p ep = Inr True \<Longrightarrow> s < src_end M"
  by (auto simp: singlematch_def split: if_splits)

function balance_loop :: "match_env \<Rightarrow> nat \<Rightarrow> u32 \<Rightarrow> u32 \<Rightarrow> int \<Rightarrow> nat option lua_result" where
  "balance_loop M s begin' end' cont =
     (if s < src_end M then
        case utf8_safe_decode (src M) s of
          Inl err \<Rightarrow> Inl err
        | Inr (s, ch) \<Rightarrow>
            if ch = end' then
              (if cont - 1 = 0 then Inr (Some s) else balance_loop M s begin' end' (cont - 1))
            else if ch = begin' then balance_loop M s begin' end' (cont + 1)
            else balance_loop M s begin' end' cont
      else Inr None)"
  by pat_completeness auto
termination
  by (relation "measure (\<lambda>(M, s, b, e, c). src_end M - s)") (fastforce dest!: safe_decode_gt)+

declare balance_loop.simps [simp del]

text \<open>The new pattern position and the end of the match, if there is one.\<close>

definition matchbalance :: "match_env \<Rightarrow> nat \<Rightarrow> nat \<Rightarrow> (nat \<times> nat option) lua_result" where
  "matchbalance M s p =
     bind_lua (utf8_safe_decode (pat M) p) (\<lambda>(p, begin').
       if p \<ge> p_end M then lerr ''malformed pattern (missing arguments to %b)''
       else
         bind_lua (utf8_safe_decode (pat M) p) (\<lambda>(p, end').
         bind_lua (utf8_safe_decode (src M) s) (\<lambda>(s, ch).
           if ch \<noteq> begin' then Inr (p, None)
           else bind_lua (balance_loop M s begin' end' 1) (\<lambda>r. Inr (p, r)))))"

section \<open>The matcher\<close>

text \<open>
  The nested call \<open>match(ms, s, p)\<close>: the state afterwards and the end of the match or \<^verbatim>\<open>NULL\<close>.
\<close>

type_synonym match_fun = "match_state \<Rightarrow> nat \<Rightarrow> nat \<Rightarrow> (match_state \<times> nat option) lua_result"

text \<open>\<open>count_max\<close> is the first loop of \<open>max_expand\<close>, \<open>give_back\<close> the second one.\<close>

function count_max :: "match_env \<Rightarrow> nat \<Rightarrow> nat \<Rightarrow> nat \<Rightarrow> nat lua_result" where
  "count_max M m p ep =
     (case singlematch M m p ep of
        Inl err \<Rightarrow> Inl err
      | Inr hit \<Rightarrow> if hit then count_max M (utf8_next (src M) m (src_end M)) p ep else Inr m)"
  by pat_completeness auto
termination
  by (relation "measure (\<lambda>(M, m, p, ep). src_end M - m)")
    (auto dest!: singlematch_inside intro: diff_less_mono2 utf8_next_gt)

declare count_max.simps [simp del]

function give_back :: "match_fun \<Rightarrow> match_env \<Rightarrow> match_state \<Rightarrow> nat \<Rightarrow> nat \<Rightarrow> nat \<Rightarrow>
    (match_state \<times> nat option) lua_result" where
  "give_back rec M ms s m ep =
     (if s \<le> m then
        case rec ms m (ep + 1) of
          Inl err \<Rightarrow> Inl err
        | Inr (ms, Some res) \<Rightarrow> Inr (ms, Some res)
        | Inr (ms, None) \<Rightarrow>
            if s = m then Inr (ms, None)
            else give_back rec M ms s (utf8_prev (src M) s m) ep
      else Inr (ms, None))"
  by pat_completeness auto
termination
  by (relation "measure (\<lambda>(rec, M, ms, s, m, ep). m)") (auto intro: utf8_prev_lt)

declare give_back.simps [simp del]

definition max_expand :: "match_fun \<Rightarrow> match_env \<Rightarrow> match_state \<Rightarrow> nat \<Rightarrow> nat \<Rightarrow> nat \<Rightarrow>
    (match_state \<times> nat option) lua_result" where
  "max_expand rec M ms s p ep = bind_lua (count_max M s p ep) (\<lambda>m. give_back rec M ms s m ep)"

function min_expand :: "match_fun \<Rightarrow> match_env \<Rightarrow> match_state \<Rightarrow> nat \<Rightarrow> nat \<Rightarrow> nat \<Rightarrow>
    (match_state \<times> nat option) lua_result" where
  "min_expand rec M ms s p ep =
     (case rec ms s (ep + 1) of
        Inl err \<Rightarrow> Inl err
      | Inr (ms, Some res) \<Rightarrow> Inr (ms, Some res)
      | Inr (ms, None) \<Rightarrow>
          (case singlematch M s p ep of
             Inl err \<Rightarrow> Inl err
           | Inr hit \<Rightarrow>
               if hit then min_expand rec M ms (utf8_next (src M) s (src_end M)) p ep
               else Inr (ms, None)))"
  by pat_completeness auto

termination
  by (relation "measure (\<lambda>(rec, M, ms, s, p, ep). src_end M - s)")
    (auto dest!: singlematch_inside intro: diff_less_mono2 utf8_next_gt)

declare min_expand.simps [simp del]

definition start_capture :: "match_fun \<Rightarrow> match_state \<Rightarrow> nat \<Rightarrow> nat \<Rightarrow> int \<Rightarrow>
    (match_state \<times> nat option) lua_result" where
  "start_capture rec ms s p what =
     (if level ms \<ge> LUA_MAXCAPTURES then lerr ''too many captures''
      else
        let l = level ms;
            ms = ms\<lparr>level := l + 1, capture := (capture ms)[l := (s, what)]\<rparr>
        in case rec ms s p of
             Inl err \<Rightarrow> Inl err
           | Inr (ms, Some res) \<Rightarrow> Inr (ms, Some res)
           | Inr (ms, None) \<Rightarrow> Inr (ms\<lparr>level := level ms - 1\<rparr>, None))"

definition set_len :: "match_state \<Rightarrow> nat \<Rightarrow> int \<Rightarrow> match_state" where
  "set_len ms l len = ms\<lparr>capture := (capture ms)[l := (fst (capture ms ! l), len)]\<rparr>"

definition end_capture :: "match_fun \<Rightarrow> match_state \<Rightarrow> nat \<Rightarrow> nat \<Rightarrow>
    (match_state \<times> nat option) lua_result" where
  "end_capture rec ms s p =
     bind_lua (capture_to_close ms) (\<lambda>l.
       case rec (set_len ms l (int s - int (fst (capture ms ! l)))) s p of
         Inl err \<Rightarrow> Inl err
       | Inr (ms, Some res) \<Rightarrow> Inr (ms, Some res)
       | Inr (ms, None) \<Rightarrow> Inr (set_len ms l CAP_UNFINISHED, None))"

text \<open>
  The length is compared as a \<^verbatim>\<open>size_t\<close>: the mark of a position capture is larger than any string.
\<close>

definition match_capture :: "match_env \<Rightarrow> match_state \<Rightarrow> nat \<Rightarrow> int \<Rightarrow> nat option lua_result" where
  "match_capture M ms s l =
     bind_lua (check_capture ms l) (\<lambda>l.
       let (init, len) = capture ms ! l in
       Inr (if 0 \<le> len \<and> int (src_end M - s) \<ge> len \<and>
              slice (src M) init (init + nat len) = slice (src M) s (s + nat len)
            then Some (s + nat len) else None))"

lemma safe_decode_inside: "utf8_safe_decode b p = Inr (q, ch) \<Longrightarrow> ch \<noteq> 0 \<Longrightarrow> p < length b \<and> q \<le> length b"
proof -
  assume d: "utf8_safe_decode b p = Inr (q, ch)" and nz: "ch \<noteq> 0"
  have p: "p < length b"
  proof (rule ccontr)
    assume "\<not> p < length b"
    then have "utf8_decode b p False = Some (p + 1, 0)" by (subst utf8_decode_ascii) simp_all
    with d nz show False by (simp add: utf8_safe_decode_def)
  qed
  from d have "utf8_decode b p False = Some (q, ch)" by (simp add: utf8_safe_decode_def split: option.splits)
  with p lax_utf8.dec_end [OF p] show ?thesis by blast
qed

lemma set_end_gt: "set_end b p = Inr q \<Longrightarrow> p < q"
proof (induction b p rule: set_end.induct)
  case (1 b p)
  then show ?case
    by (subst (asm) (2) set_end.simps) (fastforce simp: Let_def split: if_splits)
qed

lemma classend_gt: "classend M p = Inr ep \<Longrightarrow> p < ep"
proof -
  assume c: "classend M p = Inr ep"
  then obtain q ch where d: "utf8_safe_decode (pat M) p = Inr (q, ch)"
    by (auto simp: classend_def split: sum.splits)
  have pq: "p < q" by (rule safe_decode_gt [OF d])
  consider "ch = 0x25" | "ch = 0x5B" | "ch \<noteq> 0x25" "ch \<noteq> 0x5B" by blast
  then show ?thesis
  proof cases
    case 1
    with c d safe_decode_inside [OF d] have "q < p_end M" "ep = utf8_next (pat M) q (p_end M)"
      by (auto simp: classend_def split: if_splits)
    then show ?thesis using utf8_next_gt [of q "p_end M" "pat M"] pq by simp
  next
    case 2
    with c d show ?thesis using pq set_end_gt by (fastforce simp: classend_def split: if_splits)
  next
    case 3
    with c d pq show ?thesis by (auto simp: classend_def)
  qed
qed

lemma matchbalance_gt: "matchbalance M s p = Inr (q, r) \<Longrightarrow> p < q"
  by (auto simp: matchbalance_def bind_lua_Inr dest!: safe_decode_gt split: if_splits)

text \<open>
  One activation of \<open>match\<close> from its label \<open>init\<close>; a recursive call is the code's \<open>goto init\<close>.
  \<open>dflt\<close> says what follows a single character pattern: the switch over its suffix.
\<close>

datatype dflt_step = Goto nat nat match_state | Done "(match_state \<times> nat option) lua_result"

definition match_dflt :: "match_fun \<Rightarrow> match_env \<Rightarrow> match_state \<Rightarrow> nat \<Rightarrow> nat \<Rightarrow> dflt_step" where
  "match_dflt rec M ms s p =
     (case classend M p of
        Inl err \<Rightarrow> Done (Inl err)
      | Inr ep \<Rightarrow>
          let c = byte_at (pat M) ep in
          (case singlematch M s p ep of
             Inl err \<Rightarrow> Done (Inl err)
           | Inr False \<Rightarrow>
               if c = 0x2A \<or> c = 0x3F \<or> c = 0x2D then Goto s (ep + 1) ms
               else Done (Inr (ms, None))
           | Inr True \<Rightarrow>
               let next_s = utf8_next (src M) s (src_end M) in
               if c = 0x3F then
                 let next_ep = utf8_next (pat M) ep (p_end M) in
                 (case rec ms next_s next_ep of
                    Inl err \<Rightarrow> Done (Inl err)
                  | Inr (ms, Some res) \<Rightarrow> Done (Inr (ms, Some res))
                  | Inr (ms, None) \<Rightarrow> Goto s next_ep ms)
               else if c = 0x2B then Done (max_expand rec M ms next_s p ep)
               else if c = 0x2A then Done (max_expand rec M ms s p ep)
               else if c = 0x2D then Done (min_expand rec M ms s p ep)
               else Goto next_s ep ms))"

definition match_frontier :: "match_env \<Rightarrow> nat \<Rightarrow> nat \<Rightarrow> nat option lua_result" where
  "match_frontier M s p =
     (if byte_at (pat M) p \<noteq> 0x5B then lerr ''missing [ after %f in pattern''
      else
        bind_lua (classend M p) (\<lambda>ep.
          let previous = (if s \<noteq> 0 then
                (case utf8_decode (src M) (utf8_prev (src M) 0 s) False of Some (_, c) \<Rightarrow> c | None \<Rightarrow> 0) else 0);
              current = (if s \<noteq> src_end M then
                (case utf8_decode (src M) s False of Some (_, c) \<Rightarrow> c | None \<Rightarrow> 0) else 0)
          in bind_lua (matchbracketclass M previous p (ep - 1)) (\<lambda>b1.
               if b1 then Inr None
               else bind_lua (matchbracketclass M current p (ep - 1)) (\<lambda>b2.
                 Inr (if b2 then Some ep else None)))))"

lemma match_dflt_gt: "match_dflt rec M ms s p = Goto s' p' ms' \<Longrightarrow> p < p'"
proof -
  assume g: "match_dflt rec M ms s p = Goto s' p' ms'"
  then obtain ep where c: "classend M p = Inr ep" by (auto simp: match_dflt_def split: sum.splits)
  have "ep < p_end M" if "byte_at (pat M) ep = 0x3F"
    using that by (cases "ep < p_end M") simp_all
  then have "ep < utf8_next (pat M) ep (p_end M)" if "byte_at (pat M) ep = 0x3F"
    using that utf8_next_gt by blast
  with g c classend_gt [OF c] show ?thesis
    by (fastforce simp: match_dflt_def Let_def split: sum.splits bool.splits if_splits option.splits prod.splits)
qed

lemma match_frontier_gt: "match_frontier M s p = Inr (Some ep) \<Longrightarrow> p < ep"
  by (auto simp: match_frontier_def bind_lua_Inr Let_def dest: classend_gt split: if_splits)

function match_loop :: "match_fun \<Rightarrow> match_env \<Rightarrow> match_fun" where
  "match_loop rec M ms s p =
     (if p > p_end M then Inl BadRead
      else if p = p_end M then Inr (ms, Some s)
      else
        case utf8_safe_decode (pat M) p of
          Inl err \<Rightarrow> Inl err
        | Inr (_, ch) \<Rightarrow>
            if ch = 0x28 then
              if byte_at (pat M) (p + 1) = 0x29 then start_capture rec ms s (p + 2) CAP_POSITION
              else start_capture rec ms s (p + 1) CAP_UNFINISHED
            else if ch = 0x29 then end_capture rec ms s (p + 1)
            else if ch = 0x24 \<and> p + 1 = p_end M then
              Inr (ms, if s = src_end M then Some s else None)
            else if ch = 0x25 then
              (case utf8_safe_decode (pat M) (p + 1) of
                 Inl err \<Rightarrow> Inl err
               | Inr (p', ch) \<Rightarrow>
                   if ch = 0x62 then
                     (case matchbalance M s p' of
                        Inl err \<Rightarrow> Inl err
                      | Inr (p'', Some s') \<Rightarrow> match_loop rec M ms s' p''
                      | Inr (p'', None) \<Rightarrow> Inr (ms, None))
                   else if ch = 0x66 then
                     (case match_frontier M s p' of
                        Inl err \<Rightarrow> Inl err
                      | Inr (Some ep) \<Rightarrow> match_loop rec M ms s ep
                      | Inr None \<Rightarrow> Inr (ms, None))
                   else if 0x30 \<le> ch \<and> ch \<le> 0x39 then
                     (case match_capture M ms s (uint ch) of
                        Inl err \<Rightarrow> Inl err
                      | Inr (Some s') \<Rightarrow> match_loop rec M ms s' p'
                      | Inr None \<Rightarrow> Inr (ms, None))
                   else
                     (case match_dflt rec M ms s p of
                        Done r \<Rightarrow> r
                      | Goto s' q ms' \<Rightarrow> match_loop rec M ms' s' q))
            else
              (case match_dflt rec M ms s p of
                 Done r \<Rightarrow> r
               | Goto s' q ms' \<Rightarrow> match_loop rec M ms' s' q))"
  by pat_completeness auto
termination
  by (relation "measure (\<lambda>(rec, M, ms, s, p). Suc (p_end M) - p)")
    (auto dest!: safe_decode_gt matchbalance_gt match_dflt_gt match_frontier_gt)

declare match_loop.simps [simp del]

primrec match' :: "nat \<Rightarrow> match_env \<Rightarrow> match_fun" where
  "match' 0 M ms s p = lerr ''pattern too complex''"
| "match' (Suc d) M ms s p = match_loop (match' d M) M ms s p"

section \<open>The matcher stays inside the subject\<close>

text \<open>
  The invariant of the captures at subject position \<open>s\<close>: there are at most \<open>LUA_MAXCAPTURES\<close> and each
  lies before \<open>s\<close>. A failed nested match leaves the captures in use as they were.
\<close>

definition caps_ok :: "match_state \<Rightarrow> nat \<Rightarrow> bool" where
  "caps_ok ms s \<longleftrightarrow> level ms \<le> LUA_MAXCAPTURES \<and> length (capture ms) = LUA_MAXCAPTURES \<and>
     (\<forall>i < level ms. fst (capture ms ! i) \<le> s \<and>
        (snd (capture ms ! i) = CAP_UNFINISHED \<or> snd (capture ms ! i) = CAP_POSITION \<or>
         0 \<le> snd (capture ms ! i) \<and> int (fst (capture ms ! i)) + snd (capture ms ! i) \<le> int s))"

definition same_caps :: "match_state \<Rightarrow> match_state \<Rightarrow> bool" where
  "same_caps ms ms' \<longleftrightarrow> level ms' = level ms \<and> length (capture ms') = length (capture ms) \<and>
     (\<forall>i < level ms. capture ms' ! i = capture ms ! i)"

definition outcome :: "match_env \<Rightarrow> match_state \<Rightarrow> nat \<Rightarrow> (match_state \<times> nat option) lua_result \<Rightarrow> bool" where
  "outcome M ms s r =
     (case r of
        Inl err \<Rightarrow> True
      | Inr (ms', None) \<Rightarrow> same_caps ms ms'
      | Inr (ms', Some e) \<Rightarrow> s \<le> e \<and> e \<le> src_end M \<and> caps_ok ms' e)"

lemma outcome_simps [simp]:
  "outcome M ms s (Inl err)"
  "outcome M ms s (Inr (ms', None)) \<longleftrightarrow> same_caps ms ms'"
  "outcome M ms s (Inr (ms', Some e)) \<longleftrightarrow> s \<le> e \<and> e \<le> src_end M \<and> caps_ok ms' e"
  by (simp_all add: outcome_def)

lemma same_caps_refl [simp]: "same_caps ms ms"
  by (simp add: same_caps_def)

lemma same_caps_trans: "same_caps a b \<Longrightarrow> same_caps b c \<Longrightarrow> same_caps a c"
  by (auto simp: same_caps_def)

lemma caps_ok_same: "caps_ok ms s \<Longrightarrow> same_caps ms ms' \<Longrightarrow> caps_ok ms' s"
  by (auto simp: caps_ok_def same_caps_def)

lemma caps_ok_mono: "caps_ok ms s \<Longrightarrow> s \<le> t \<Longrightarrow> caps_ok ms t"
  unfolding caps_ok_def by fastforce

lemma caps_okD:
  "caps_ok ms s \<Longrightarrow> i < level ms \<Longrightarrow> fst (capture ms ! i) \<le> s \<and>
     (snd (capture ms ! i) = CAP_UNFINISHED \<or> snd (capture ms ! i) = CAP_POSITION \<or>
      0 \<le> snd (capture ms ! i) \<and> int (fst (capture ms ! i)) + snd (capture ms ! i) \<le> int s)"
  by (simp add: caps_ok_def)

lemma outcome_mono:
  "same_caps ms ms1 \<Longrightarrow> s \<le> s1 \<Longrightarrow> outcome M ms1 s1 r \<Longrightarrow> outcome M ms s r"
  by (auto simp: outcome_def split: sum.splits option.splits intro: same_caps_trans)

definition rec_ok :: "match_env \<Rightarrow> match_fun \<Rightarrow> bool" where
  "rec_ok M rec \<longleftrightarrow> (\<forall>ms s p. caps_ok ms s \<longrightarrow> s \<le> src_end M \<longrightarrow> outcome M ms s (rec ms s p))"

lemma rec_okD: "rec_ok M rec \<Longrightarrow> caps_ok ms s \<Longrightarrow> s \<le> src_end M \<Longrightarrow> outcome M ms s (rec ms s p)"
  by (simp add: rec_ok_def)

lemma utf8_next_inside: "s \<le> e \<Longrightarrow> s \<le> utf8_next b s e \<and> utf8_next b s e \<le> e"
  using next_loop_ge [of s b e] by (auto simp: utf8_next_def Let_def)

lemma prev_loop_ge: "s \<le> e \<Longrightarrow> s \<le> prev_loop b s e"
proof (induction b s e rule: prev_loop.induct)
  case (1 b s e)
  then show ?case by (subst prev_loop.simps) auto
qed

lemma utf8_prev_ge: "s \<le> e \<Longrightarrow> s \<le> utf8_prev b s e"
  using prev_loop_ge [of s e b] by (auto simp: utf8_prev_def Let_def)

lemma count_max_range: "count_max M m p ep = Inr m' \<Longrightarrow> m \<le> src_end M \<Longrightarrow> m \<le> m' \<and> m' \<le> src_end M"
proof (induction M m p ep arbitrary: m' rule: count_max.induct)
  case (1 M m p ep)
  show ?case
  proof (cases "singlematch M m p ep = Inr True")
    case True
    with 1(2) have "count_max M (utf8_next (src M) m (src_end M)) p ep = Inr m'"
      by (subst (asm) count_max.simps) simp
    with 1(1) [OF True] utf8_next_inside [OF 1(3), of "src M"] show ?thesis by fastforce
  next
    case False
    with 1(2,3) show ?thesis by (subst (asm) count_max.simps) (auto split: sum.splits if_splits)
  qed
qed

lemma give_back_outcome:
  assumes "rec_ok M rec"
  shows "caps_ok ms s \<Longrightarrow> s \<le> m \<Longrightarrow> m \<le> src_end M \<Longrightarrow> outcome M ms s (give_back rec M ms s m ep)"
proof (induction m arbitrary: ms rule: less_induct)
  case (less m)
  from less.prems have "caps_ok ms m" by (blast intro: caps_ok_mono)
  from rec_okD [OF assms this less.prems(3), of "ep + 1"]
  have r: "outcome M ms m (rec ms m (ep + 1))" .
  show ?case
  proof (cases "rec ms m (ep + 1)")
    case (Inl err)
    then show ?thesis using less.prems by (subst give_back.simps) simp
  next
    case (Inr x)
    obtain ms' res where x: "x = (ms', res)" by (cases x)
    show ?thesis
    proof (cases res)
      case (Some e)
      then show ?thesis using less.prems Inr x r by (subst give_back.simps) auto
    next
      case None
      with r Inr x have sc: "same_caps ms ms'" by simp
      show ?thesis
      proof (cases "s = m")
        case True
        then show ?thesis using Inr x None sc by (subst give_back.simps) simp
      next
        case False
        let ?m = "utf8_prev (src M) s m"
        have lt: "?m < m" "s \<le> ?m"
          using False less.prems utf8_prev_lt [of s m] utf8_prev_ge [of s m] by simp_all
        from less.IH [OF lt(1) caps_ok_same [OF less.prems(1) sc] lt(2)] lt less.prems
        have "outcome M ms' s (give_back rec M ms' s ?m ep)" by simp
        then have "outcome M ms s (give_back rec M ms' s ?m ep)" using sc by (blast intro: outcome_mono)
        then show ?thesis using Inr x None False less.prems by (subst give_back.simps) simp
      qed
    qed
  qed
qed

lemma max_expand_outcome:
  assumes "rec_ok M rec" and "caps_ok ms s" and "s \<le> src_end M"
  shows "outcome M ms s (max_expand rec M ms s p ep)"
proof (cases "count_max M s p ep")
  case (Inr m)
  with count_max_range [OF Inr assms(3)] give_back_outcome [OF assms(1,2)] show ?thesis
    by (simp add: max_expand_def)
qed (simp add: max_expand_def)

lemma min_expand_outcome:
  assumes "rec_ok M rec"
  shows "caps_ok ms s \<Longrightarrow> s \<le> src_end M \<Longrightarrow> outcome M ms s (min_expand rec M ms s p ep)"
proof (induction "src_end M - s" arbitrary: ms s rule: less_induct)
  case less
  from rec_okD [OF assms less.prems, of "ep + 1"]
  have r: "outcome M ms s (rec ms s (ep + 1))" .
  show ?case
  proof (cases "rec ms s (ep + 1)")
    case (Inl err)
    then show ?thesis by (subst min_expand.simps) simp
  next
    case (Inr x)
    obtain ms' res where x: "x = (ms', res)" by (cases x)
    show ?thesis
    proof (cases res)
      case (Some e)
      then show ?thesis using Inr x r by (subst min_expand.simps) auto
    next
      case None
      with r Inr x have sc: "same_caps ms ms'" by simp
      show ?thesis
      proof (cases "singlematch M s p ep = Inr True")
        case False
        then show ?thesis using Inr x None sc
          by (subst min_expand.simps) (auto split: sum.splits if_splits)
      next
        case True
        let ?s = "utf8_next (src M) s (src_end M)"
        from singlematch_inside [OF True] have s: "s < src_end M" .
        then have n: "s < ?s" "?s \<le> src_end M"
          using utf8_next_gt utf8_next_inside less.prems(2) by blast+
        have "outcome M ms' ?s (min_expand rec M ms' ?s p ep)"
          using less.hyps [of ?s ms'] n s less.prems(1) sc caps_ok_mono [of ms' s ?s] caps_ok_same [of ms s ms']
          by simp
        then have "outcome M ms s (min_expand rec M ms' ?s p ep)"
          using sc n by (intro outcome_mono [of ms ms' s ?s]) simp_all
        then show ?thesis using Inr x None True by (subst min_expand.simps) simp
      qed
    qed
  qed
qed

lemma start_capture_outcome:
  assumes "rec_ok M rec" and "caps_ok ms s" and "s \<le> src_end M"
    and "what = CAP_POSITION \<or> what = CAP_UNFINISHED"
  shows "outcome M ms s (start_capture rec ms s p what)"
proof (cases "level ms \<ge> LUA_MAXCAPTURES")
  case True
  then show ?thesis by (simp add: start_capture_def)
next
  case False
  define ms1 where "ms1 = ms\<lparr>level := level ms + 1, capture := (capture ms)[level ms := (s, what)]\<rparr>"
  have "caps_ok ms1 s"
    using assms(2,4) False by (auto simp: caps_ok_def ms1_def less_Suc_eq nth_list_update)
  from rec_okD [OF assms(1) this assms(3), of p] have r: "outcome M ms1 s (rec ms1 s p)" .
  have e: "start_capture rec ms s p what = (case rec ms1 s p of
      Inl err \<Rightarrow> Inl err | Inr (ms, Some res) \<Rightarrow> Inr (ms, Some res)
    | Inr (ms, None) \<Rightarrow> Inr (ms\<lparr>level := level ms - 1\<rparr>, None))"
    using False by (simp only: start_capture_def Let_def ms1_def if_False)
  have restore: "same_caps ms (ms2\<lparr>level := level ms2 - 1\<rparr>)" if "same_caps ms1 ms2" for ms2
    using that by (auto simp: same_caps_def ms1_def nth_list_update)
  show ?thesis
    unfolding e using r restore by (auto split: sum.splits option.splits)
qed

lemma last_unfinished_Some:
  "last_unfinished cs n = Some l \<Longrightarrow> l < n \<and> snd (cs ! l) = CAP_UNFINISHED"
  by (induction n) (auto split: if_splits simp: less_Suc_eq)

lemma end_capture_outcome:
  assumes "rec_ok M rec" and "caps_ok ms s" and "s \<le> src_end M"
  shows "outcome M ms s (end_capture rec ms s p)"
proof (cases "last_unfinished (capture ms) (level ms)")
  case None
  then show ?thesis by (simp add: end_capture_def capture_to_close_def)
next
  case (Some l)
  from last_unfinished_Some [OF Some] have l: "l < level ms" and u: "snd (capture ms ! l) = CAP_UNFINISHED"
    by blast+
  have len: "level ms \<le> length (capture ms)" using assms(2) by (simp add: caps_ok_def)
  have init: "fst (capture ms ! l) \<le> s"
    using caps_okD [OF assms(2) l] by blast
  define ms1 where "ms1 = set_len ms l (int s - int (fst (capture ms ! l)))"
  have "caps_ok ms1 s"
    using assms(2) init len l unfolding caps_ok_def ms1_def set_len_def
    by (auto simp: nth_list_update)
  from rec_okD [OF assms(1) this assms(3), of p] have r: "outcome M ms1 s (rec ms1 s p)" .
  have restore: "same_caps ms (set_len ms2 l CAP_UNFINISHED)" if "same_caps ms1 ms2" for ms2
  proof -
    have "capture ms2 ! l = capture ms1 ! l" using that l by (simp add: same_caps_def ms1_def set_len_def)
    moreover have "fst (capture ms1 ! l) = fst (capture ms ! l)"
      using l len by (simp add: ms1_def set_len_def)
    ultimately have "(fst (capture ms2 ! l), CAP_UNFINISHED) = capture ms ! l"
      using u by (metis prod.collapse)
    then show ?thesis
      using that l len by (auto simp: same_caps_def ms1_def set_len_def nth_list_update)
  qed
  show ?thesis
    using Some r restore
    by (auto simp: end_capture_def capture_to_close_def ms1_def [symmetric] split: sum.splits option.splits)
qed

lemma balance_loop_range:
  "balance_loop M s b e c = Inr (Some q) \<Longrightarrow> s \<le> q \<and> q \<le> src_end M"
proof (induction M s b e c arbitrary: q rule: balance_loop.induct)
  case (1 M s b e c)
  show ?case
  proof (cases "s < src_end M")
    case False
    with 1(4) show ?thesis by (subst (asm) balance_loop.simps) simp
  next
    case True
    show ?thesis
    proof (cases "utf8_safe_decode (src M) s")
      case (Inl err)
      with 1(4) True show ?thesis by (subst (asm) balance_loop.simps) simp
    next
      case (Inr x)
      obtain s1 ch where x: "x = (s1, ch)" by (cases x)
      have "utf8_decode (src M) s False = Some (s1, ch)"
        using Inr x by (simp add: utf8_safe_decode_def split: option.splits)
      from lax_utf8.dec_end [OF True this] have s1: "s < s1" "s1 \<le> src_end M" by blast+
      note IH = 1(1) [OF True Inr x [symmetric]] 1(2) [OF True Inr x [symmetric]] 1(3) [OF True Inr x [symmetric]]
      from 1(4) True Inr x show ?thesis
        using IH s1 by (subst (asm) balance_loop.simps) (fastforce split: if_splits)
    qed
  qed
qed

lemma matchbalance_range: "matchbalance M s p = Inr (q, Some e) \<Longrightarrow> s \<le> e \<and> e \<le> src_end M"
  by (auto simp: matchbalance_def bind_lua_Inr dest!: safe_decode_gt balance_loop_range split: if_splits)

lemma match_capture_range:
  "match_capture M ms s l = Inr (Some e) \<Longrightarrow> s \<le> src_end M \<Longrightarrow> s \<le> e \<and> e \<le> src_end M"
proof -
  assume h: "match_capture M ms s l = Inr (Some e)" and s: "s \<le> src_end M"
  from h obtain k where k: "check_capture ms l = Inr k" by (auto simp: match_capture_def bind_lua_Inr)
  obtain init len where c: "capture ms ! k = (init, len)" by fastforce
  from h k c s show ?thesis by (auto simp: match_capture_def split: if_splits)
qed

lemma match_dflt_outcome:
  assumes "rec_ok M rec" and "caps_ok ms s" and "s \<le> src_end M"
  shows "case match_dflt rec M ms s p of
      Done r \<Rightarrow> outcome M ms s r
    | Goto s' p' ms' \<Rightarrow> s \<le> s' \<and> s' \<le> src_end M \<and> same_caps ms ms'"
proof (cases "classend M p")
  case (Inl err)
  then show ?thesis by (simp add: match_dflt_def)
next
  case (Inr ep)
  show ?thesis
  proof (cases "singlematch M s p ep")
    case (Inl err)
    with Inr show ?thesis by (simp add: match_dflt_def Let_def)
  next
    case hit: (Inr hit)
    show ?thesis
    proof (cases hit)
      case False
      with Inr hit assms show ?thesis by (simp add: match_dflt_def Let_def)
    next
      case True
      let ?n = "utf8_next (src M) s (src_end M)"
      let ?q = "utf8_next (pat M) ep (p_end M)"
      have n: "s \<le> ?n" "?n \<le> src_end M" using utf8_next_inside [OF assms(3)] by blast+
      have cn: "caps_ok ms ?n" using assms(2) n by (blast intro: caps_ok_mono)
      have r: "outcome M ms ?n (rec ms ?n ?q)" by (rule rec_okD [OF assms(1) cn n(2)])
      have mx: "outcome M ms s (max_expand rec M ms ?n p ep)" "outcome M ms s (max_expand rec M ms s p ep)"
        using max_expand_outcome [OF assms(1) cn n(2)] max_expand_outcome [OF assms] n
        by (blast intro: outcome_mono same_caps_refl)+
      have mn: "outcome M ms s (min_expand rec M ms s p ep)" by (rule min_expand_outcome [OF assms])
      show ?thesis
        using Inr hit True n r mx mn assms(2,3)
        by (auto simp: match_dflt_def Let_def split: sum.splits option.splits)
    qed
  qed
qed

lemma match_loop_outcome:
  assumes "rec_ok M rec"
  shows "caps_ok ms s \<Longrightarrow> s \<le> src_end M \<Longrightarrow> outcome M ms s (match_loop rec M ms s p)"
proof (induction "Suc (p_end M) - p" arbitrary: ms s p rule: less_induct)
  case less
  note cs = less.prems
  have go: "outcome M ms s (match_loop rec M ms' s' p')"
    if "p < p_end M" "p < p'" "s \<le> s'" "s' \<le> src_end M" "same_caps ms ms'" for ms' s' p'
  proof -
    have "caps_ok ms' s'" using cs(1) that by (blast intro: caps_ok_mono caps_ok_same)
    with less.hyps [of p' ms' s'] that have "outcome M ms' s' (match_loop rec M ms' s' p')" by simp
    with that show ?thesis by (blast intro: outcome_mono)
  qed
  have dflt: "outcome M ms s (case match_dflt rec M ms s p of
      Done r \<Rightarrow> r | Goto s' q ms' \<Rightarrow> match_loop rec M ms' s' q)" if "p < p_end M"
    using match_dflt_outcome [OF assms cs, of p] match_dflt_gt [of rec M ms s p] go [OF that]
    by (auto split: dflt_step.splits)
  consider "p > p_end M" | "p = p_end M" | "p < p_end M" by linarith
  then show ?case
  proof cases
    case 1
    then show ?thesis by (subst match_loop.simps) simp
  next
    case 2
    then show ?thesis using cs by (subst match_loop.simps) simp
  next
    case 3
    have sc: "outcome M ms s (start_capture rec ms s q w)" if "w = CAP_POSITION \<or> w = CAP_UNFINISHED" for q w
      by (rule start_capture_outcome [OF assms cs that])
    have ec: "outcome M ms s (end_capture rec ms s q)" for q by (rule end_capture_outcome [OF assms cs])
    show ?thesis
    proof (cases "utf8_safe_decode (pat M) p")
      case (Inl err)
      with 3 show ?thesis by (subst match_loop.simps) simp
    next
      case (Inr x)
      obtain p1 ch where x: "x = (p1, ch)" by (cases x)
      show ?thesis
      proof (cases "ch = 0x25")
        case False
        then show ?thesis
          using 3 Inr x sc ec dflt [OF 3] cs
          by (subst match_loop.simps) auto
      next
        case True
        show ?thesis
        proof (cases "utf8_safe_decode (pat M) (p + 1)")
          case (Inl err)
          with 3 Inr x True show ?thesis by (subst match_loop.simps) simp
        next
          case esc: (Inr y)
          obtain p2 c2 where y: "y = (p2, c2)" by (cases y)
          have p2: "p < p2" using safe_decode_gt [OF esc [unfolded y]] by simp
          have bal: "outcome M ms s (case matchbalance M s p2 of Inl err \<Rightarrow> Inl err
              | Inr (p'', Some s') \<Rightarrow> match_loop rec M ms s' p'' | Inr (p'', None) \<Rightarrow> Inr (ms, None))"
            using go [OF 3] p2 matchbalance_gt [of M s p2] matchbalance_range [of M s p2]
            by (fastforce split: sum.splits option.splits prod.splits)
          have fro: "outcome M ms s (case match_frontier M s p2 of Inl err \<Rightarrow> Inl err
              | Inr (Some ep) \<Rightarrow> match_loop rec M ms s ep | Inr None \<Rightarrow> Inr (ms, None))"
            using go [OF 3] p2 match_frontier_gt [of M s p2] cs
            by (fastforce split: sum.splits option.splits)
          have cap: "outcome M ms s (case match_capture M ms s (uint c2) of Inl err \<Rightarrow> Inl err
              | Inr (Some s') \<Rightarrow> match_loop rec M ms s' p2 | Inr None \<Rightarrow> Inr (ms, None))"
            using go [OF 3] p2 match_capture_range [of M ms s "uint c2"] cs
            by (fastforce split: sum.splits option.splits)
          show ?thesis
            using 3 Inr x True esc y bal fro cap dflt [OF 3]
            by (subst match_loop.simps) simp
        qed
      qed
    qed
  qed
qed

lemma match_rec_ok: "rec_ok M (match' d M)"
proof (induction d)
  case 0
  then show ?case by (simp add: rec_ok_def)
next
  case (Suc d)
  show ?case unfolding rec_ok_def using match_loop_outcome [OF Suc] by simp
qed

lemma no_captures_ok: "caps_ok no_captures s"
  by (simp add: caps_ok_def no_captures_def)

end
