(* ===== verification/Utf8Find.thy ===== *)
theory Utf8Find
  imports Utf8Match
begin

text \<open>
  The functions of \<^verbatim>\<open>luafar/src/lutf8lib.c\<close> over the matcher: \<open>utf8.find\<close>, \<open>match\<close>,
  \<open>gmatch\<close> and \<open>gsub\<close>, with the plain search \<open>lmemfind\<close> and the captures they return. A Lua
  replacement function or table of \<open>gsub\<close> is a function of the development's argument.
\<close>

section \<open>The code\<close>

text \<open>\<^verbatim>\<open>memchr(s1 + p, c, n)\<close>, as a position.\<close>

fun memchr :: "bytes \<Rightarrow> nat \<Rightarrow> u8 \<Rightarrow> nat \<Rightarrow> nat option" where
  "memchr b p c 0 = None"
| "memchr b p c (Suc n) = (if byte_at b p = c then Some p else memchr b (p + 1) c n)"

lemma memchr_Some:
  "memchr b p c n = Some i \<longleftrightarrow> p \<le> i \<and> i < p + n \<and> byte_at b i = c \<and> (\<forall>j. p \<le> j \<and> j < i \<longrightarrow> byte_at b j \<noteq> c)"
proof (induction n arbitrary: p)
  case (Suc n)
  show ?case
  proof (cases "byte_at b p = c")
    case True
    then show ?thesis by (auto simp: le_less)
  next
    case False
    then show ?thesis
      using Suc.IH [of "p + 1"] by (auto simp: Suc_le_eq) (metis Suc_leI le_neq_implies_less)+
  qed
qed simp

lemma memchr_None: "memchr b p c n = None \<longleftrightarrow> (\<forall>j. p \<le> j \<and> j < p + n \<longrightarrow> byte_at b j \<noteq> c)"
proof (induction n arbitrary: p)
  case (Suc n)
  have "p \<le> j \<and> j < p + Suc n \<longleftrightarrow> j = p \<or> p + 1 \<le> j \<and> j < p + 1 + n" for j by auto
  then show ?case using Suc.IH [of "p + 1"] by simp blast
qed auto

function lmem_loop :: "bytes \<Rightarrow> nat \<Rightarrow> nat \<Rightarrow> bytes \<Rightarrow> nat option" where
  "lmem_loop b s1 l1 s2 =
     (if l1 > 0 then
        case memchr b s1 (byte_at s2 0) l1 of
          None \<Rightarrow> None
        | Some i \<Rightarrow>
            let init = i + 1 in
            if slice b init (init + (length s2 - 1)) = drop 1 s2 then Some i
            else lmem_loop b init (l1 - (init - s1)) s2
      else None)"
  by pat_completeness auto
termination
  by (relation "measure (\<lambda>(b, s1, l1, s2). l1)") (auto simp: memchr_Some)

declare lmem_loop.simps [simp del]

text \<open>The search for \<open>s2\<close> in the bytes of \<open>b\<close> from \<open>s1\<close> to its end; the result is a position of \<open>b\<close>.\<close>

definition lmemfind :: "bytes \<Rightarrow> nat \<Rightarrow> bytes \<Rightarrow> nat option" where
  "lmemfind b s1 s2 =
     (let l1 = length b - s1; l2 = length s2 in
      if l2 = 0 then Some s1
      else if l2 > l1 then None
      else lmem_loop b s1 (l1 - (l2 - 1)) s2)"

function index_loop :: "bytes \<Rightarrow> nat \<Rightarrow> nat \<Rightarrow> nat \<Rightarrow> int \<Rightarrow> int" where
  "index_loop b p s e idx =
     (if s < e \<and> s < p then index_loop b p (utf8_next b s e) e (idx + 1)
      else if s = p then idx else idx - 1)"
  by pat_completeness auto
termination
  by (relation "measure (\<lambda>(b, p, s, e, idx). e - s)") (auto dest: utf8_next_gt intro: diff_less_mono2)

declare index_loop.simps [simp del]

definition get_index :: "bytes \<Rightarrow> nat \<Rightarrow> nat \<Rightarrow> nat \<Rightarrow> int" where
  "get_index b p s e = index_loop b p s e 0"

text \<open>\<open>whole\<close> is the whole match, the arguments \<open>s\<close> and \<open>e\<close> of the code.\<close>

definition push_onecapture :: "match_env \<Rightarrow> match_state \<Rightarrow> int \<Rightarrow> nat \<times> nat \<Rightarrow> lua_val lua_result" where
  "push_onecapture M ms i whole =
     (if i \<ge> int (level ms) then
        if i = 0 then Inr (LStr (slice (src M) (fst whole) (snd whole)))
        else lerr ''invalid capture index''
      else
        let (init, l) = capture ms ! nat i in
        if l = CAP_UNFINISHED then lerr ''unfinished capture''
        else if l = CAP_POSITION then
          Inr (LInt (get_index (src M) init 0 (src_end M) + 1))
        else Inr (LStr (slice (src M) init (init + nat l))))"

fun push_list :: "match_env \<Rightarrow> match_state \<Rightarrow> nat \<times> nat \<Rightarrow> nat list \<Rightarrow> lua_val list lua_result" where
  "push_list M ms whole [] = Inr []"
| "push_list M ms whole (i # is) =
     bind_lua (push_onecapture M ms (int i) whole) (\<lambda>v.
       bind_lua (push_list M ms whole is) (\<lambda>vs. Inr (v # vs)))"

text \<open>\<open>None\<close> is the \<^verbatim>\<open>NULL\<close> that \<open>find\<close> passes: then a match without captures pushes nothing.\<close>

definition push_captures :: "match_env \<Rightarrow> match_state \<Rightarrow> (nat \<times> nat) option \<Rightarrow> lua_val list lua_result" where
  "push_captures M ms whole =
     (let nlevels = (if level ms = 0 \<and> whole \<noteq> None then 1 else level ms)
      in push_list M ms (the_arg whole (0, 0)) [0..<nlevels])"

definition specials :: "u8 list" where
  "specials = [0x5E, 0x24, 0x2A, 0x2B, 0x3F, 0x2E, 0x28, 0x5B, 0x25, 0x2D]"

text \<open>
  \<open>nospecials\<close> goes through the NUL-separated segments of the pattern: \<open>has_special\<close> is
  \<^verbatim>\<open>strpbrk\<close> on the segment at \<open>p\<close> and \<open>seg_len\<close> its \<^verbatim>\<open>strlen\<close>.
\<close>

fun has_special :: "bytes \<Rightarrow> bool" where
  "has_special [] = False"
| "has_special (c # b) = (c \<noteq> 0 \<and> (c \<in> set specials \<or> has_special b))"

fun seg_len :: "bytes \<Rightarrow> nat" where
  "seg_len [] = 0"
| "seg_len (c # b) = (if c = 0 then 0 else Suc (seg_len b))"

function nospecials :: "bytes \<Rightarrow> nat \<Rightarrow> bool" where
  "nospecials b p =
     (if p < length b then
        if has_special (drop p b) then False else nospecials b (p + seg_len (drop p b) + 1)
      else True)"
  by pat_completeness auto
termination by (relation "measure (\<lambda>(b, p). length b - p)") auto

declare nospecials.simps [simp del]

text \<open>The search loop of \<open>find_aux\<close>: the matcher is tried at every character from \<open>init\<close> on.\<close>

function find_loop :: "match_env \<Rightarrow> nat \<Rightarrow> bool \<Rightarrow> bool \<Rightarrow> nat \<Rightarrow> int \<Rightarrow> lua_val list lua_result" where
  "find_loop M p anchor is_find init idx =
     (case match' MAXCCALLS M no_captures init p of
        Inl err \<Rightarrow> Inl err
      | Inr (ms, Some res) \<Rightarrow>
          if is_find then
            bind_lua (push_captures M ms None) (\<lambda>caps.
              Inr (LInt idx # LInt (idx + int (utf8_length (src M) init res) - 1) # caps))
          else push_captures M ms (Some (init, res))
      | Inr (ms, None) \<Rightarrow>
          if init \<ge> src_end M then Inr [LNil]
          else
            let init' = utf8_next (src M) init (src_end M) in
            if init' \<le> src_end M \<and> \<not> anchor then find_loop M p anchor is_find init' (idx + 1)
            else Inr [LNil])"
  by pat_completeness auto
termination
  by (relation "measure (\<lambda>(M, p, anchor, is_find, init, idx). src_end M - init)")
    (auto intro!: diff_less_mono2 utf8_next_gt)

declare find_loop.simps [simp del]

definition find_aux :: "unidata \<Rightarrow> bytes \<Rightarrow> bytes \<Rightarrow> int option \<Rightarrow> bool \<Rightarrow> bool \<Rightarrow> lua_val list lua_result" where
  "find_aux U s p arg3 plain is_find =
     (let idx = (let i = the_arg arg3 1 in if i = 0 then 1 else i);
          es = length s;
          r = utf8_relat s 0 es (cast_int idx)
      in if r = None \<and> idx > 0 then Inr [LNil]
         else
           let init = the_arg r 0 in
           if is_find \<and> (plain \<or> nospecials p 0) then
             case lmemfind s init p of
               Some s2 \<Rightarrow>
                 let e2 = s2 + length p;
                     e2 = (if iscont s e2 then utf8_next s e2 es else e2);
                     idx = get_index s s2 0 es + 1
                 in Inr [LInt idx, LInt (idx + get_index s e2 s2 es - 1)]
             | None \<Rightarrow> Inr [LNil]
           else
             let anchor = (byte_at p 0 = 0x5E);
                 idx = (if idx < 0 then idx + int (utf8_length s 0 es) + 1 else idx)
             in find_loop \<lparr>uni = U, src = s, pat = p\<rparr> (if anchor then 1 else 0) anchor is_find init idx)"

definition Lutf8_find :: "unidata \<Rightarrow> bytes \<Rightarrow> bytes \<Rightarrow> int option \<Rightarrow> bool \<Rightarrow> lua_val list lua_result" where
  "Lutf8_find U s p arg3 plain = find_aux U s p arg3 plain True"

definition Lutf8_match :: "unidata \<Rightarrow> bytes \<Rightarrow> bytes \<Rightarrow> int option \<Rightarrow> lua_val list lua_result" where
  "Lutf8_match U s p arg3 = find_aux U s p arg3 False False"

text \<open>
  The iterator of \<open>gmatch\<close>: from the position in its third upvalue it returns the captures of the
  next match and the new position.
\<close>

function gmatch_aux :: "match_env \<Rightarrow> nat \<Rightarrow> (nat \<times> lua_val list) option lua_result" where
  "gmatch_aux M s =
     (if s \<le> src_end M then
        case match' MAXCCALLS M no_captures s 0 of
          Inl err \<Rightarrow> Inl err
        | Inr (ms, Some e) \<Rightarrow>
            bind_lua (push_captures M ms (Some (s, e))) (\<lambda>caps.
              Inr (Some (if e = s then e + 1 else e, caps)))
        | Inr (ms, None) \<Rightarrow>
            if s = src_end M then Inr None else gmatch_aux M (utf8_next (src M) s (src_end M))
      else Inr None)"
  by pat_completeness auto
termination
  by (relation "measure (\<lambda>(M, s). src_end M - s)") (auto intro!: diff_less_mono2 utf8_next_gt)

declare gmatch_aux.simps [simp del]

text \<open>\<^verbatim>\<open>luaL_addvalue\<close> adds a string, or a number in decimal.\<close>

fun nat_digits :: "nat \<Rightarrow> bytes" where
  "nat_digits n = (if n < 10 then [word_of_nat (48 + n)] else nat_digits (n div 10) @ [word_of_nat (48 + n mod 10)])"

declare nat_digits.simps [simp del]

definition decimal :: "int \<Rightarrow> bytes" where
  "decimal i = (if i < 0 then 0x2D # nat_digits (nat (- i)) else nat_digits (nat i))"

fun add_lua :: "lua_val \<Rightarrow> bytes" where
  "add_lua (LStr b) = b"
| "add_lua (LInt i) = decimal i"
| "add_lua _ = []"

function add_s_loop :: "match_env \<Rightarrow> match_state \<Rightarrow> bytes \<Rightarrow> nat \<Rightarrow> nat \<times> nat \<Rightarrow> bytes \<Rightarrow> bytes lua_result" where
  "add_s_loop M ms news p whole b =
     (if p < length news then
        case utf8_safe_decode news p of
          Inl err \<Rightarrow> Inl err
        | Inr (p1, ch) \<Rightarrow>
            if ch \<noteq> 0x25 then add_s_loop M ms news p1 whole (b @ add_utf8char ch)
            else
              (case utf8_safe_decode news p1 of
                 Inl err \<Rightarrow> Inl err
               | Inr (p2, ch) \<Rightarrow>
                   (case utf8_isdigit (uni M) ch of
                      Inl err \<Rightarrow> Inl err
                    | Inr digit \<Rightarrow>
                        if \<not> digit then
                          if ch \<noteq> 0x25 then lerr ''invalid use of % in replacement string''
                          else add_s_loop M ms news p2 whole (b @ add_utf8char ch)
                        else if ch = 0x30 then
                          add_s_loop M ms news p2 whole (b @ slice (src M) (fst whole) (snd whole))
                        else
                          (case push_onecapture M ms (cast_int (uint ch - 0x31)) whole of
                             Inl err \<Rightarrow> Inl err
                           | Inr v \<Rightarrow> add_s_loop M ms news p2 whole (b @ add_lua v))))
      else Inr b)"
  by pat_completeness auto
termination
  by (relation "measure (\<lambda>(M, ms, news, p, whole, b). length news - p)") (fastforce dest!: safe_decode_gt)+

declare add_s_loop.simps [simp del]

definition add_s :: "match_env \<Rightarrow> match_state \<Rightarrow> bytes \<Rightarrow> nat \<times> nat \<Rightarrow> bytes \<Rightarrow> bytes lua_result" where
  "add_s M ms news whole b = add_s_loop M ms news 0 whole b"

datatype replacement =
  RString bytes
| RFunction "lua_val list \<Rightarrow> lua_val"
| RTable "lua_val \<Rightarrow> lua_val"

definition add_value :: "match_env \<Rightarrow> match_state \<Rightarrow> replacement \<Rightarrow> nat \<times> nat \<Rightarrow> bytes \<Rightarrow> bytes lua_result" where
  "add_value M ms tr whole b =
     (let keep = (\<lambda>v. case v of
            LNil \<Rightarrow> Inr (b @ slice (src M) (fst whole) (snd whole))
          | LBool False \<Rightarrow> Inr (b @ slice (src M) (fst whole) (snd whole))
          | LBool True \<Rightarrow> lerr ''invalid replacement value''
          | _ \<Rightarrow> Inr (b @ add_lua v))
      in case tr of
           RString news \<Rightarrow> add_s M ms news whole b
         | RFunction f \<Rightarrow> bind_lua (push_captures M ms (Some whole)) (\<lambda>caps. keep (f caps))
         | RTable t \<Rightarrow> bind_lua (push_onecapture M ms 0 whole) (\<lambda>k. keep (t k)))"

function gsub_loop :: "match_env \<Rightarrow> replacement \<Rightarrow> nat \<Rightarrow> bool \<Rightarrow> int \<Rightarrow> nat \<Rightarrow> int \<Rightarrow> bytes \<Rightarrow>
    (nat \<times> int \<times> bytes) lua_result" where
  "gsub_loop M tr p anchor max_s s n b =
     (if n < max_s then
        case match' MAXCCALLS M no_captures s p of
          Inl err \<Rightarrow> Inl err
        | Inr (ms, r) \<Rightarrow>
            (case (case r of Some e \<Rightarrow> add_value M ms tr (s, e) b | None \<Rightarrow> Inr b) of
               Inl err \<Rightarrow> Inl err
             | Inr b \<Rightarrow>
                 let n = (if r = None then n else n + 1) in
                 if r \<noteq> None \<and> the r > s then
                   if anchor then Inr (the r, n, b) else gsub_loop M tr p anchor max_s (the r) n b
                 else if s < src_end M then
                   (case utf8_safe_decode (src M) s of
                      Inl err \<Rightarrow> Inl err
                    | Inr (s', ch) \<Rightarrow>
                        let b = b @ add_utf8char ch in
                        if anchor then Inr (s', n, b) else gsub_loop M tr p anchor max_s s' n b)
                 else Inr (s, n, b))
      else Inr (s, n, b))"
  by pat_completeness auto
termination
  by (relation "measures [\<lambda>(M, tr, p, anchor, max_s, s, n, b). nat (max_s - n),
      \<lambda>(M, tr, p, anchor, max_s, s, n, b). src_end M - s]")
    (auto dest!: safe_decode_gt split: option.splits)

declare gsub_loop.simps [simp del]

definition Lutf8_gsub :: "unidata \<Rightarrow> bytes \<Rightarrow> bytes \<Rightarrow> replacement \<Rightarrow> int option \<Rightarrow> (bytes \<times> int) lua_result" where
  "Lutf8_gsub U s p tr arg4 =
     (let max_s = the_arg arg4 (int (length s) + 1);
          anchor = (byte_at p 0 = 0x5E)
      in bind_lua (gsub_loop \<lparr>uni = U, src = s, pat = p\<rparr> tr (if anchor then 1 else 0) anchor max_s 0 0 [])
           (\<lambda>(s', n, b). Inr (b @ slice s s' (length s), n)))"

section \<open>Plain search\<close>

definition occurs :: "bytes \<Rightarrow> bytes \<Rightarrow> nat \<Rightarrow> bool" where
  "occurs b w i \<longleftrightarrow> i + length w \<le> length b \<and> slice b i (i + length w) = w"

lemma occurs_Cons:
  "occurs b (c # w) i \<longleftrightarrow> i + length w < length b \<and> byte_at b i = c \<and> slice b (i + 1) (i + 1 + length w) = w"
  by (auto simp: occurs_def slice_def drop_nth_Cons)

lemma lmem_loop_spec:
  assumes "w \<noteq> []" and "s1 + l1 + (length w - 1) = length b"
  shows "lmem_loop b s1 l1 w = Some i \<longleftrightarrow>
    s1 \<le> i \<and> occurs b w i \<and> (\<forall>j. s1 \<le> j \<and> j < i \<longrightarrow> \<not> occurs b w j)"
  using assms(2)
proof (induction l1 arbitrary: s1 rule: less_induct)
  case (less l1)
  obtain c w' where w: "w = c # w'" using assms(1) by (cases w) auto
  have out: "\<not> occurs b w j" if "s1 + l1 \<le> j" for j
    using that less.prems by (auto simp: occurs_def w)
  have hd: "byte_at b j = c" if "occurs b w j" for j
    using that by (simp add: w occurs_Cons)
  show ?case
  proof (cases "memchr b s1 c l1")
    case None
    then have none: "\<not> occurs b w j" if "s1 \<le> j" for j
      using that out [of j] hd [of j] None unfolding memchr_None by (meson not_less)
    have "lmem_loop b s1 l1 w = None"
      using None by (subst lmem_loop.simps) (simp add: w)
    then show ?thesis using none by auto
  next
    case (Some k)
    then have k: "s1 \<le> k" "k < s1 + l1" "byte_at b k = c" "\<And>j. s1 \<le> j \<Longrightarrow> j < k \<Longrightarrow> byte_at b j \<noteq> c"
      by (auto simp: memchr_Some)
    then have before: "\<not> occurs b w j" if "s1 \<le> j" "j < k" for j using that hd by blast
    have kin: "k + length w' < length b" using k less.prems by (simp add: w)
    show ?thesis
    proof (cases "slice b (k + 1) (k + 1 + length w') = w'")
      case True
      then have "occurs b w k" using k kin by (simp add: w occurs_Cons)
      moreover have "lmem_loop b s1 l1 w = Some k"
        using Some True k by (subst lmem_loop.simps) (simp add: w Let_def)
      ultimately show ?thesis using k(1) before by (auto simp: not_less) (meson le_neq_implies_less not_le)
    next
      case False
      then have no: "\<not> occurs b w k" by (simp add: w occurs_Cons)
      have "lmem_loop b s1 l1 w = lmem_loop b (k + 1) (l1 - (k + 1 - s1)) w"
        using Some False k by (subst lmem_loop.simps) (simp add: w Let_def)
      also have "\<dots> = Some i \<longleftrightarrow> k + 1 \<le> i \<and> occurs b w i \<and> (\<forall>j. k + 1 \<le> j \<and> j < i \<longrightarrow> \<not> occurs b w j)"
        using k less.prems by (intro less.IH) auto
      also have "\<dots> \<longleftrightarrow> s1 \<le> i \<and> occurs b w i \<and> (\<forall>j. s1 \<le> j \<and> j < i \<longrightarrow> \<not> occurs b w j)"
      proof -
        have "k + 1 \<le> i" if "s1 \<le> i" "occurs b w i"
          using that before [of i] no by (metis Suc_eq_plus1 Suc_leI linorder_neqE_nat)
        moreover have "\<not> occurs b w j" if "\<forall>j. k + 1 \<le> j \<and> j < i \<longrightarrow> \<not> occurs b w j" "s1 \<le> j" "j < i" for j
          using that before [of j] no by (metis Suc_eq_plus1 Suc_leI linorder_neqE_nat)
        ultimately show ?thesis using k(1) by auto
      qed
      finally show ?thesis .
    qed
  qed
qed

lemma lmemfind_spec:
  assumes "s1 \<le> length b"
  shows "lmemfind b s1 w = Some i \<longleftrightarrow>
    s1 \<le> i \<and> occurs b w i \<and> (\<forall>j. s1 \<le> j \<and> j < i \<longrightarrow> \<not> occurs b w j)"
proof -
  consider "w = []" | "w \<noteq> []" "length w > length b - s1" | "w \<noteq> []" "length w \<le> length b - s1" by linarith
  then show ?thesis
  proof cases
    case 1
    have "occurs b [] j" if "j \<le> length b" for j using that by (simp add: occurs_def slice_def)
    with 1 assms show ?thesis by (auto simp: lmemfind_def occurs_def)
  next
    case 2
    then have "\<not> occurs b w j" if "s1 \<le> j" for j using that by (auto simp: occurs_def)
    with 2 show ?thesis by (auto simp: lmemfind_def)
  next
    case 3
    then have "s1 + (length b - s1 - (length w - 1)) + (length w - 1) = length b"
      using assms by (cases w) auto
    from lmem_loop_spec [OF 3(1) this] 3 show ?thesis by (simp add: lmemfind_def)
  qed
qed

section \<open>Patterns without special characters\<close>

lemma has_special_seg: "has_special b \<longleftrightarrow> list_ex (\<lambda>c. c \<in> set specials) (take (seg_len b) b)"
  by (induction b) (auto simp: specials_def)

lemma nul_not_special: "(0 :: u8) \<notin> set specials"
  by (simp add: specials_def)

lemma seg_split: "take (Suc (seg_len b)) b = take (seg_len b) b @ (if seg_len b < length b then [0] else [])"
  by (induction b) auto

lemma nospecials_spec: "nospecials b p \<longleftrightarrow> list_all (\<lambda>c. c \<notin> set specials) (drop p b)"
proof (induction b p rule: nospecials.induct)
  case (1 b p)
  show ?case
  proof (cases "p < length b")
    case False
    then show ?thesis by (subst nospecials.simps) simp
  next
    case True
    let ?d = "drop p b" and ?n = "seg_len (drop p b)"
    have "list_all (\<lambda>c. c \<notin> set specials) ?d \<longleftrightarrow>
        list_all (\<lambda>c. c \<notin> set specials) (take (Suc ?n) ?d) \<and>
        list_all (\<lambda>c. c \<notin> set specials) (drop (Suc ?n) ?d)"
      by (metis append_take_drop_id list_all_append)
    also have "list_all (\<lambda>c. c \<notin> set specials) (take (Suc ?n) ?d) \<longleftrightarrow> \<not> has_special ?d"
      using nul_not_special by (auto simp: seg_split has_special_seg list_all_iff list_ex_iff)
    finally show ?thesis
      using True 1 by (subst nospecials.simps) (auto simp: add.commute)
  qed
qed

text \<open>Every byte of a string and every code point of it are special together.\<close>

definition plain_code :: "u32 \<Rightarrow> bool" where
  "plain_code v \<longleftrightarrow> v \<notin> {0x5E, 0x24, 0x2A, 0x2B, 0x3F, 0x2E, 0x28, 0x29, 0x5B, 0x25, 0x2D}"

lemma lead_special:
  assumes "v \<le> UTF8_MAX" and "unat c < 128"
  shows "utf8_encode v ! 0 = c \<longleftrightarrow> v = ucast c"
proof (cases "unat v < 128")
  case True
  have "(ucast v :: u8) = c \<longleftrightarrow> v = ucast c"
    using True assms(2) by (auto simp: word_unat_eq_iff unat_ucast_mod)
  with True show ?thesis by (simp add: utf8_encode_ascii)
next
  case False
  have max: "unat v < 2 ^ 31" using assms(1) by (simp add: word_le_nat_alt UTF8_MAX_def)
  have "(2 :: nat) ^ (7 - enc_len (unat v)) \<le> 2 ^ 6"
    using enc_len_cases(1) [of "unat v"] by (intro power_increasing) auto
  then have "192 \<le> map unat (utf8_encode v) ! 0"
    using False by (simp add: utf8_encode_bytes [OF max] Let_def)
  then have "192 \<le> unat (utf8_encode v ! 0)"
    using utf8_encode_nonempty [OF assms(1)] by simp
  with assms(2) False show ?thesis by auto
qed

lemma byte_at_bnd:
  assumes "codes_ok vs" and "unat c < 128" and "c \<noteq> 0"
  shows "byte_at (encode_all vs) (bnd vs k) = c \<longleftrightarrow> k < length vs \<and> vs ! k = ucast c"
proof (cases "k < length vs")
  case True
  then have "byte_at (encode_all vs) (bnd vs k) = utf8_encode (vs ! k) ! 0"
    using char_byte [OF assms(1) True, of 0] char_pos [OF assms(1) True] by simp
  with True lead_special [OF codes_nth [OF assms(1) True] assms(2)] show ?thesis by simp
next
  case False
  with assms(3) show ?thesis by (simp add: bnd_all)
qed

lemma next_bnd_in:
  assumes "codes_ok vs" and "k < m" and "m \<le> length vs"
  shows "utf8_next (encode_all vs) (bnd vs k) (bnd vs m) = bnd vs (Suc k)"
proof -
  have k: "k < length vs" using assms by simp
  show ?thesis
    unfolding bnd_Suc [OF k]
  proof (rule next_char)
    have "bnd vs (Suc k) \<le> bnd vs m"
      using bnd_less_iff [OF assms(1), of m "Suc k"] assms by (simp add: not_less [symmetric])
    then show "bnd vs k + length (utf8_encode (vs ! k)) \<le> bnd vs m" by (simp add: bnd_Suc [OF k])
    show "\<not> iscont (encode_all vs) (bnd vs k + length (utf8_encode (vs ! k)))"
      using char_start [OF assms(1), of "Suc k"] by (simp add: bnd_Suc [OF k])
  qed (use char_pos [OF assms(1) k] char_tail [OF assms(1) k] in auto)
qed

lemma length_loop_bnd:
  assumes "codes_ok vs" and "m \<le> length vs"
  shows "k \<le> m \<Longrightarrow> length_loop (encode_all vs) (bnd vs k) (bnd vs m) i = i + (m - k)"
proof (induction "m - k" arbitrary: k i)
  case 0
  then show ?case by (subst length_loop.simps) simp
next
  case (Suc d)
  then have "k < m" by simp
  with Suc assms show ?case
    using bnd_mono_less [OF assms(1) \<open>k < m\<close> assms(2)]
    by (subst length_loop.simps) (simp add: next_bnd_in)
qed

lemma index_loop_bnd:
  assumes "codes_ok vs" and "m \<le> length vs"
  shows "k \<le> m \<Longrightarrow>
    index_loop (encode_all vs) (bnd vs m) (bnd vs k) (length (encode_all vs)) i = i + int (m - k)"
proof (induction "m - k" arbitrary: k i)
  case 0
  then show ?case by (subst index_loop.simps) simp
next
  case (Suc d)
  then have "k < m" by simp
  then have "k < length vs" using assms(2) by simp
  then have "bnd vs k < length (encode_all vs)" by (simp add: bnd_end_iff [OF assms(1)])
  then have "index_loop (encode_all vs) (bnd vs m) (bnd vs k) (length (encode_all vs)) i =
      index_loop (encode_all vs) (bnd vs m) (bnd vs (Suc k)) (length (encode_all vs)) (i + 1)"
    using bnd_mono_less [OF assms(1) \<open>k < m\<close> assms(2)] \<open>k < length vs\<close>
    by (subst index_loop.simps) (simp add: next_bnd [OF assms(1)])
  then show ?case using Suc.hyps(1) [of "Suc k" "i + 1"] Suc.hyps(2) \<open>k < m\<close> by simp
qed

text \<open>The encoding is self-synchronising: an occurrence starts at a character boundary.\<close>

lemma start_is_bnd:
  assumes "codes_ok us" and "i < length (encode_all us)" and "\<not> iscont (encode_all us) i"
  shows "\<exists>k < length us. i = bnd us k"
proof -
  define k where "k = (GREATEST k. k \<le> length us \<and> bnd us k \<le> i)"
  have k: "k \<le> length us \<and> bnd us k \<le> i" and mx: "\<And>m. m \<le> length us \<and> bnd us m \<le> i \<Longrightarrow> m \<le> k"
    unfolding k_def
    by (rule GreatestI_nat [of _ 0 "length us"], simp, simp)
      (rule Greatest_le_nat [of _ _ "length us"], simp, simp)
  have kl: "k < length us" using k assms(2) by (cases "k = length us") (auto simp: bnd_all)
  have "i < bnd us (Suc k)" using mx [of "Suc k"] kl by (auto simp: not_le [symmetric])
  then have "i - bnd us k < length (utf8_encode (us ! k))" using k by (simp add: bnd_Suc [OF kl]) linarith
  with char_tail [OF assms(1) kl, of "i - bnd us k"] assms(3) k have "i - bnd us k = 0" by fastforce
  with k kl show ?thesis by (intro exI [of _ k]) simp
qed

lemma encode_prefix:
  "codes_ok us \<Longrightarrow> codes_ok vs \<Longrightarrow> take (length (encode_all vs)) (encode_all us) = encode_all vs \<Longrightarrow>
   take (length vs) us = vs"
proof (induction vs arbitrary: us)
  case (Cons v vs)
  let ?b = "encode_all us"
  have v: "v \<le> UTF8_MAX" using Cons.prems by simp
  obtain t where t: "?b = utf8_encode v @ encode_all vs @ t"
    by (metis Cons.prems(3) append.assoc append_take_drop_id encode_all_Cons)
  show ?case
  proof (cases us)
    case Nil
    with t utf8_encode_nonempty [OF v] show ?thesis by simp
  next
    case us: (Cons u us')
    have u: "u \<le> UTF8_MAX" using Cons.prems us by simp
    from lax_utf8.dec_front [OF u, of "encode_all us'"] lax_utf8.dec_front [OF v, of "encode_all vs @ t"]
    have uv: "u = v" using t us by simp
    with t us have "encode_all us' = encode_all vs @ t" by simp
    then have "take (length (encode_all vs)) (encode_all us') = encode_all vs" by simp
    with Cons.IH [of us'] Cons.prems us uv show ?thesis by simp
  qed
qed simp

lemma occurs_codes:
  assumes "codes_ok us" and "codes_ok vs" and "k \<le> length us"
  shows "occurs (encode_all us) (encode_all vs) (bnd us k) \<longleftrightarrow> take (length vs) (drop k us) = vs"
proof
  have ok: "codes_ok (drop k us)" using assms(1) by (auto simp: codes_ok_def list_all_iff dest: in_set_dropD)
  assume "occurs (encode_all us) (encode_all vs) (bnd us k)"
  then have "take (length (encode_all vs)) (encode_all (drop k us)) = encode_all vs"
    by (simp add: occurs_def slice_def drop_bnd)
  then show "take (length vs) (drop k us) = vs" by (rule encode_prefix [OF ok assms(2)])
next
  assume t: "take (length vs) (drop k us) = vs"
  then have "encode_all (drop k us) = encode_all vs @ encode_all (drop (length vs) (drop k us))"
    by (metis append_take_drop_id encode_all_append)
  moreover have "length (encode_all us) = bnd us k + length (encode_all (drop k us))"
    unfolding bnd_def by (subst encode_all_split [of us k]) simp
  ultimately show "occurs (encode_all us) (encode_all vs) (bnd us k)"
    by (simp add: occurs_def slice_def drop_bnd)
qed

lemma occurs_is_bnd:
  assumes "codes_ok us" and "codes_ok vs" and "vs \<noteq> []" and "occurs (encode_all us) (encode_all vs) i"
  shows "\<exists>k < length us. i = bnd us k"
proof (rule start_is_bnd [OF assms(1)])
  obtain v vs' where vs: "vs = v # vs'" using assms(3) by (cases vs) auto
  have v: "v \<le> UTF8_MAX" using assms(2) vs by simp
  obtain c w where e: "utf8_encode v = c # w" using utf8_encode_nonempty [OF v] by (cases "utf8_encode v") auto
  from assms(4) show "i < length (encode_all us)" by (auto simp: occurs_def vs e)
  have "byte_at (encode_all us) i = c" using assms(4) by (simp add: vs e occurs_Cons)
  then show "\<not> iscont (encode_all us) i"
    using encode_lead_not_cont [OF v] by (simp add: iscont_is_cont e)
qed

lemma plain_bytes:
  assumes "codes_ok vs" and "list_all plain_code vs"
  shows "nospecials (encode_all vs) 0"
proof -
  have "list_all (\<lambda>c. c \<notin> set specials) (utf8_encode v)" if v: "v \<le> UTF8_MAX" "plain_code v" for v
  proof (cases "unat v < 128")
    case True
    have "list_all (\<lambda>c. \<not> plain_code (ucast c)) specials" by code_simp
    moreover have "(ucast (ucast v :: u8) :: u32) = v"
      using True by (simp add: word_unat_eq_iff unat_ucast_mod)
    ultimately show ?thesis using v(2) True by (auto simp: utf8_encode_ascii list_all_iff)
  next
    case False
    have max: "unat v < 2 ^ 31" using v(1) by (simp add: word_le_nat_alt UTF8_MAX_def)
    have "128 \<le> unat c" if c: "c \<in> set (utf8_encode v)" for c
    proof -
      from c obtain i where i: "i < length (utf8_encode v)" "c = utf8_encode v ! i" by (auto simp: in_set_conv_nth)
      show ?thesis
      proof (cases "i = 0")
        case True
        have "(2 :: nat) ^ (7 - enc_len (unat v)) \<le> 2 ^ 6"
          using enc_len_cases(1) [of "unat v"] by (intro power_increasing) auto
        then have "128 \<le> map unat (utf8_encode v) ! 0"
          using False by (simp add: utf8_encode_bytes [OF max] Let_def)
        with i True show ?thesis by simp
      next
        case False
        then show ?thesis using encode_tail_cont [OF v(1), of i] i by (simp add: is_cont_def)
      qed
    qed
    moreover have "list_all (\<lambda>c. unat c < 128) specials" by code_simp
    ultimately show ?thesis by (fastforce simp: list_all_iff)
  qed
  with assms have "list_all (\<lambda>c. c \<notin> set specials) (encode_all vs)"
    by (auto simp: encode_all_def codes_ok_def list_all_iff)
  then show ?thesis by (simp add: nospecials_spec)
qed

lemma plain_step:
  assumes "codes_ok us" and "codes_ok vs" and "list_all plain_code vs"
    and "M = \<lparr>uni = U, src = encode_all us, pat = encode_all vs\<rparr>" and "j < length vs" and "k \<le> length us"
  shows "match_dflt rec M ms (bnd us k) (bnd vs j) =
    (if k < length us \<and> us ! k = vs ! j then Goto (bnd us (Suc k)) (bnd vs (Suc j)) ms
     else Done (Inr (ms, None)))"
proof -
  have plain: "plain_code (vs ! i)" if "i < length vs" for i
    using assms(3) that by (simp add: list_all_length)
  have v: "vs ! j \<noteq> 0x25" "vs ! j \<noteq> 0x5B" "vs ! j \<noteq> 0x2E"
    using plain [OF assms(5)] by (simp_all add: plain_code_def)
  have ce: "classend M (bnd vs j) = Inr (bnd vs (Suc j))"
    using v by (simp add: classend_def assms(4) safe_decode_bnd [OF assms(2,5)])
  have nosuffix: "byte_at (encode_all vs) (bnd vs (Suc j)) \<notin> {0x2A, 0x3F, 0x2D, 0x2B}"
    using plain [of "Suc j"] byte_at_bnd [OF assms(2), of "0x2A" "Suc j"] byte_at_bnd [OF assms(2), of "0x3F" "Suc j"]
      byte_at_bnd [OF assms(2), of "0x2D" "Suc j"] byte_at_bnd [OF assms(2), of "0x2B" "Suc j"]
    by (auto simp: plain_code_def)
  have sm: "singlematch M (bnd us k) (bnd vs j) (bnd vs (Suc j)) = Inr (k < length us \<and> us ! k = vs ! j)"
  proof (cases "k < length us")
    case True
    then have "\<not> length (encode_all us) \<le> bnd us k" by (simp add: not_le bnd_end_iff [OF assms(1)])
    with True v show ?thesis
      by (auto simp: singlematch_def assms(4) safe_decode_bnd [OF assms(2,5)] safe_decode_bnd [OF assms(1) True])
  next
    case False
    with assms(6) show ?thesis by (simp add: singlematch_def assms(4) bnd_all)
  qed
  have "utf8_next (encode_all us) (bnd us k) (length (encode_all us)) = bnd us (Suc k)" if "k < length us"
    using next_bnd [OF assms(1) that] .
  then show ?thesis
    using nosuffix by (auto simp: match_dflt_def ce sm Let_def) (auto simp: assms(4))
qed

lemma match_plain:
  assumes "codes_ok us" and "codes_ok vs" and "list_all plain_code vs"
    and "M = \<lparr>uni = U, src = encode_all us, pat = encode_all vs\<rparr>"
  shows "j \<le> length vs \<Longrightarrow> k \<le> length us \<Longrightarrow> match_loop rec M ms (bnd us k) (bnd vs j) =
    Inr (ms, if take (length vs - j) (drop k us) = drop j vs then Some (bnd us (k + (length vs - j))) else None)"
proof (induction "length vs - j" arbitrary: j k)
  case 0
  then have "j = length vs" by simp
  then show ?case by (subst match_loop.simps) (simp add: assms(4) bnd_all)
next
  case (Suc d)
  then have j: "j < length vs" by simp
  have lt: "bnd vs j < length (encode_all vs)" using j by (simp add: bnd_end_iff [OF assms(2)])
  have plain: "plain_code (vs ! j)" using assms(3) j by (simp add: list_all_length)
  have step: "match_loop rec M ms (bnd us k) (bnd vs j) =
      (if k < length us \<and> us ! k = vs ! j then match_loop rec M ms (bnd us (Suc k)) (bnd vs (Suc j))
       else Inr (ms, None))"
    using lt plain
    by (subst match_loop.simps)
      (simp add: assms(4) safe_decode_bnd [OF assms(2) j] plain_step [OF assms(1-3) refl j Suc.prems(2)] plain_code_def)
  have dj: "drop j vs = vs ! j # drop (Suc j) vs" using j by (simp add: drop_nth_Cons)
  have n: "length vs - j = Suc (length vs - Suc j)" using j by simp
  show ?case
  proof (cases "k < length us")
    case True
    then have dk: "drop k us = us ! k # drop (Suc k) us" by (simp add: drop_nth_Cons)
    have "match_loop rec M ms (bnd us (Suc k)) (bnd vs (Suc j)) =
        Inr (ms, if take (length vs - Suc j) (drop (Suc k) us) = drop (Suc j) vs
          then Some (bnd us (Suc k + (length vs - Suc j))) else None)"
      using Suc.hyps(1) [of "Suc j" "Suc k"] Suc.hyps(2) j True by simp
    then show ?thesis unfolding step dk dj n using True by simp
  next
    case False
    then show ?thesis unfolding step dj using Suc.prems by (simp add: n)
  qed
qed

text \<open>The first position of the list \<open>vs\<close> in the list \<open>us\<close>.\<close>

definition first_sub :: "u32 list \<Rightarrow> u32 list \<Rightarrow> nat \<Rightarrow> nat option" where
  "first_sub us vs i = List.find (\<lambda>k. take (length vs) (drop k us) = vs) [i..<Suc (length us)]"

lemma first_sub_step:
  "i \<le> length us \<Longrightarrow> first_sub us vs i =
     (if take (length vs) (drop i us) = vs then Some i
      else if i = length us then None else first_sub us vs (Suc i))"
  unfolding first_sub_def by (subst upt_conv_Cons) auto

lemma first_sub_Some:
  "first_sub us vs 0 = Some k \<longleftrightarrow> k \<le> length us \<and> take (length vs) (drop k us) = vs \<and>
     (\<forall>j < k. take (length vs) (drop j us) \<noteq> vs)"
  unfolding first_sub_def find_Some_iff
  by (auto simp: less_Suc_eq_le simp del: upt_Suc)

lemma sub_fits: "take (length vs) (drop k us) = vs \<Longrightarrow> k \<le> length us \<Longrightarrow> k + length vs \<le> length us"
  by (drule arg_cong [where f = length]) (simp add: min_def split: if_splits)

lemma find_loop_plain:
  assumes "codes_ok us" and "codes_ok vs" and "list_all plain_code vs"
    and "M = \<lparr>uni = U, src = encode_all us, pat = encode_all vs\<rparr>"
  shows "k \<le> length us \<Longrightarrow> find_loop M 0 False True (bnd us k) (int k + 1) =
    Inr (case first_sub us vs k of
        None \<Rightarrow> [LNil]
      | Some m \<Rightarrow> [LInt (int m + 1), LInt (int m + int (length vs))])"
proof (induction "length us - k" arbitrary: k rule: less_induct)
  case less
  have m: "match' MAXCCALLS M no_captures (bnd us k) 0 =
      Inr (no_captures, if take (length vs) (drop k us) = vs then Some (bnd us (k + length vs)) else None)"
    using match_plain [OF assms _ less.prems, of 0] by (simp add: MAXCCALLS_def numeral_eq_Suc)
  show ?case
  proof (cases "take (length vs) (drop k us) = vs")
    case True
    then have len: "k + length vs \<le> length us" using less.prems by (rule sub_fits)
    have "utf8_length (encode_all us) (bnd us k) (bnd us (k + length vs)) = length vs"
      using length_loop_bnd [OF assms(1) len, of k 0] by (simp add: utf8_length_def)
    then show ?thesis
      using m True less.prems first_sub_step [of k us vs]
      by (subst find_loop.simps) (simp add: push_captures_def no_captures_def assms(4))
  next
    case False
    show ?thesis
    proof (cases "k = length us")
      case True
      then show ?thesis
        using m False first_sub_step [of k us vs]
        by (subst find_loop.simps) (simp add: assms(4) bnd_all)
    next
      case kn: False
      then have k: "k < length us" using less.prems by simp
      have lt: "bnd us k < length (encode_all us)" using k by (simp add: bnd_end_iff [OF assms(1)])
      have "find_loop M 0 False True (bnd us k) (int k + 1) = find_loop M 0 False True (bnd us (Suc k)) (int (Suc k) + 1)"
        using m False lt next_bnd [OF assms(1) k] bnd_le [of us "Suc k"]
        by (subst find_loop.simps) (simp add: assms(4) Let_def add.commute)
      then show ?thesis
        using less.hyps [of "Suc k"] k False first_sub_step [of k us vs] by simp
    qed
  qed
qed

lemma lmemfind_codes:
  assumes "codes_ok us" and "codes_ok vs"
  shows "lmemfind (encode_all us) 0 (encode_all vs) = map_option (bnd us) (first_sub us vs 0)"
proof (cases "vs = []")
  case True
  then show ?thesis
    using first_sub_step [of 0 us vs] by (simp add: lmemfind_def)
next
  case ne: False
  have iff: "lmemfind (encode_all us) 0 (encode_all vs) = Some i \<longleftrightarrow> (\<exists>k. first_sub us vs 0 = Some k \<and> i = bnd us k)" for i
  proof
    assume "lmemfind (encode_all us) 0 (encode_all vs) = Some i"
    then have i: "occurs (encode_all us) (encode_all vs) i"
      and least: "\<And>j. j < i \<Longrightarrow> \<not> occurs (encode_all us) (encode_all vs) j"
      by (auto simp: lmemfind_spec)
    from occurs_is_bnd [OF assms ne i] obtain k where k: "k < length us" "i = bnd us k" by blast
    have "take (length vs) (drop k us) = vs" using i k occurs_codes [OF assms, of k] by simp
    moreover have "take (length vs) (drop j us) \<noteq> vs" if "j < k" for j
    proof -
      have "bnd us j < i" using bnd_mono_less [OF assms(1) that] k by simp
      from least [OF this] occurs_codes [OF assms, of j] that k show ?thesis by simp
    qed
    ultimately show "\<exists>k. first_sub us vs 0 = Some k \<and> i = bnd us k"
      using k by (intro exI [of _ k]) (auto simp: first_sub_Some)
  next
    assume "\<exists>k. first_sub us vs 0 = Some k \<and> i = bnd us k"
    then obtain k where k: "k \<le> length us" "take (length vs) (drop k us) = vs" "i = bnd us k"
      and least: "\<And>j. j < k \<Longrightarrow> take (length vs) (drop j us) \<noteq> vs" by (auto simp: first_sub_Some)
    have "\<not> occurs (encode_all us) (encode_all vs) j" if "j < i" for j
    proof
      assume o: "occurs (encode_all us) (encode_all vs) j"
      from occurs_is_bnd [OF assms ne o] obtain m where m: "m < length us" "j = bnd us m" by blast
      then have "m < k" using that k bnd_less_iff [OF assms(1), of m k] by simp
      with least [of m] o m occurs_codes [OF assms, of m] show False by simp
    qed
    moreover have "occurs (encode_all us) (encode_all vs) i" using k occurs_codes [OF assms] by simp
    ultimately show "lmemfind (encode_all us) 0 (encode_all vs) = Some i" by (simp add: lmemfind_spec)
  qed
  show ?thesis
  proof (cases "first_sub us vs 0")
    case None
    then show ?thesis using iff by (cases "lmemfind (encode_all us) 0 (encode_all vs)") auto
  qed (use iff in auto)
qed

section \<open>Properties\<close>

text \<open>
  C1. The matcher never leaves the subject: a match that starts at a position inside ends at or
  after it and not behind the end, and every capture it leaves is unfinished, a position, or a
  range of bytes before the end of the match, whatever bytes subject and pattern hold.
\<close>

theorem match_stays_inside:
  assumes "match' MAXCCALLS M no_captures s p = Inr (ms, Some e)" and "s \<le> src_end M"
  shows "s \<le> e \<and> e \<le> src_end M \<and> caps_ok ms e"
  using rec_okD [OF match_rec_ok no_captures_ok assms(2), of MAXCCALLS p] assms(1) by simp

theorem match_stays_inside_witness:
  "\<exists>ms. match' MAXCCALLS \<lparr>uni = tiny_unidata, src = [0x61, 0x62, 0x62], pat = [0x28, 0x62, 0x2B, 0x29]\<rparr>
     no_captures 1 0 = Inr (ms, Some 3) \<and> caps_ok ms 3"
proof -
  let ?M = "\<lparr>uni = tiny_unidata, src = [0x61, 0x62, 0x62], pat = [0x28, 0x62, 0x2B, 0x29]\<rparr>"
  have r: "match' MAXCCALLS ?M no_captures 1 0 =
      Inr (no_captures\<lparr>level := 1, capture := (1, 2) # replicate 31 (0, 0)\<rparr>, Some 3)" by code_simp
  from match_stays_inside [OF r] r show ?thesis by auto
qed

text \<open>
  The plain search \<open>lmemfind\<close>, with its \<^verbatim>\<open>memchr\<close> skips, finds the first occurrence of the
  searched bytes at or after its start, and only then.
\<close>

theorem lmemfind_first:
  assumes "s1 \<le> length b"
  shows "lmemfind b s1 w = Some i \<longleftrightarrow>
    s1 \<le> i \<and> occurs b w i \<and> (\<forall>j. s1 \<le> j \<and> j < i \<longrightarrow> \<not> occurs b w j)"
  using assms by (rule lmemfind_spec)

theorem lmemfind_first_witness: "lmemfind [0x61, 0x62, 0x61, 0x62] 1 [0x61, 0x62] = Some 2"
proof -
  have "occurs [0x61, 0x62, 0x61, 0x62] [0x61, 0x62] 2" "\<not> occurs [0x61, 0x62, 0x61, 0x62] [0x61, 0x62] 1"
    by code_simp+
  then have "2 = j \<or> \<not> j < 2 \<or> j < 1 \<or> \<not> occurs [0x61, 0x62, 0x61, 0x62] [0x61, 0x62] j" for j :: nat
    by (cases "j = 1") auto
  with lmemfind_first [of 1 "[0x61, 0x62, 0x61, 0x62]" "[0x61, 0x62]" 2]
    \<open>occurs [0x61, 0x62, 0x61, 0x62] [0x61, 0x62] 2\<close> show ?thesis by auto
qed

text \<open>
  C29. For a pattern of encoded characters that are not special to the matcher, the shortcut that
  \<open>utf8.find\<close> takes gives what trying the matcher at every character gives: the code point
  indices of the first place where the code points of the pattern occur, or nil.
\<close>

theorem Lutf8_find_plain:
  assumes "codes_ok us" and "codes_ok vs" and "list_all plain_code vs"
  shows "Lutf8_find U (encode_all us) (encode_all vs) None plain =
      Inr (case first_sub us vs 0 of
          None \<Rightarrow> [LNil]
        | Some k \<Rightarrow> [LInt (int k + 1), LInt (int k + int (length vs))]) \<and>
    Lutf8_find U (encode_all us) (encode_all vs) None plain =
      find_loop \<lparr>uni = U, src = encode_all us, pat = encode_all vs\<rparr> 0 False True 0 1"
proof -
  have r: "utf8_relat (encode_all us) 0 (length (encode_all us)) 1 = Some 0"
    unfolding relat_bnd [OF assms(1)] by simp
  have s: "Lutf8_find U (encode_all us) (encode_all vs) None plain =
      Inr (case first_sub us vs 0 of
          None \<Rightarrow> [LNil]
        | Some k \<Rightarrow> [LInt (int k + 1), LInt (int k + int (length vs))])"
  proof (cases "first_sub us vs 0")
    case None
    then show ?thesis
      using plain_bytes [OF assms(2,3)]
      by (simp add: Lutf8_find_def find_aux_def r lmemfind_codes [OF assms(1,2)] Let_def)
  next
    case (Some k)
    then have k: "k \<le> length us" "take (length vs) (drop k us) = vs" by (auto simp: first_sub_Some)
    then have len: "k + length vs \<le> length us" by (metis sub_fits)
    have e: "bnd us k + length (encode_all vs) = bnd us (k + length vs)"
      using k(2) by (simp add: bnd_def take_add)
    have g: "get_index (encode_all us) (bnd us k) 0 (length (encode_all us)) = int k"
      using index_loop_bnd [OF assms(1) k(1), of 0 0] by (simp add: get_index_def)
    have h: "get_index (encode_all us) (bnd us (k + length vs)) (bnd us k) (length (encode_all us)) = int (length vs)"
      using index_loop_bnd [OF assms(1) len, of k 0] by (simp add: get_index_def)
    show ?thesis
      using plain_bytes [OF assms(2,3)] Some char_start [OF assms(1)]
      by (simp add: Lutf8_find_def find_aux_def r lmemfind_codes [OF assms(1,2)] Let_def e g h)
  qed
  with find_loop_plain [OF assms refl, of 0 U] show ?thesis by simp
qed

theorem Lutf8_find_plain_witness:
  "Lutf8_find tiny_unidata (encode_all [0x20AC, 0x61, 0x20AC, 0x62]) (encode_all [0x20AC, 0x62]) None False =
     Inr [LInt 3, LInt 4]"
proof -
  have ok: "codes_ok [0x20AC, 0x61, 0x20AC, 0x62]" "codes_ok [0x20AC, 0x62]" "list_all plain_code [0x20AC, 0x62]"
    by code_simp+
  have "first_sub [0x20AC, 0x61, 0x20AC, 0x62] [0x20AC, 0x62] 0 = Some 2" by code_simp
  with Lutf8_find_plain [OF ok, of tiny_unidata False] show ?thesis by simp
qed

end
