(* ===== verification/WineTables.thy ===== *)
theory WineTables
  imports UniTables "HOL-Library.Monad_Syntax"
begin

text \<open>
  The data of the code page layer of \<^verbatim>\<open>WinPort/wineguts\<close>: the structures of \<^verbatim>\<open>unicode.h\<close>,
  the lookup of a code page (\<^verbatim>\<open>cptable.c\<close>), the character helpers, and the buffers that
  the conversions read and write.

  \<^verbatim>\<open>WCHAR\<close> is the 32-bit signed \<^verbatim>\<open>wchar_t\<close>. A table is a list, and an access to an array
  (a table or a buffer) outside its bounds makes the whole computation \<open>None\<close>. A pair
  of arguments \<^verbatim>\<open>src, srclen\<close> is the list of the \<^verbatim>\<open>srclen\<close> elements, \<^verbatim>\<open>dst, dstlen\<close> the list of
  the \<^verbatim>\<open>dstlen\<close> cells of the buffer. Lengths are those of arrays in memory, below \<open>2 ^ 31\<close>.
\<close>

type_synonym wchar = u32

section \<open>Arrays\<close>

definition rd :: "'a list \<Rightarrow> nat \<Rightarrow> 'a option" where
  "rd xs i = (if i < length xs then Some (xs ! i) else None)"

definition rd_signed :: "'a list \<Rightarrow> int \<Rightarrow> 'a option" where
  "rd_signed xs i = (if 0 \<le> i then rd xs (nat i) else None)"

definition wr :: "'a list \<Rightarrow> nat \<Rightarrow> 'a \<Rightarrow> 'a list option" where
  "wr buf i v = (if i < length buf then Some (buf[i := v]) else None)"

text \<open>\<open>splice buf p xs\<close>: the buffer after the elements \<open>xs\<close> have been written from position \<open>p\<close> on.\<close>

definition splice :: "'a list \<Rightarrow> nat \<Rightarrow> 'a list \<Rightarrow> 'a list" where
  "splice buf p xs = take p buf @ xs @ drop (p + length xs) buf"

lemma rd_Some [simp]: "i < length xs \<Longrightarrow> rd xs i = Some (xs ! i)"
  by (simp add: rd_def)

lemma rd_eq_Some: "rd xs i = Some v \<longleftrightarrow> i < length xs \<and> xs ! i = v"
  by (auto simp: rd_def)

lemma rd_None [simp]: "rd xs i = None \<longleftrightarrow> length xs \<le> i"
  by (auto simp: rd_def)

lemma rd_mem: "rd xs i = Some v \<Longrightarrow> v \<in> set xs"
  by (auto simp: rd_eq_Some)

lemma wr_Some [simp]: "i < length buf \<Longrightarrow> wr buf i v = Some (splice buf i [v])"
  by (simp add: wr_def splice_def upd_conv_take_nth_drop)

lemma wr_eq_Some: "wr buf i v = Some b \<longleftrightarrow> i < length buf \<and> b = splice buf i [v]"
  by (auto simp: wr_def splice_def upd_conv_take_nth_drop)

lemma splice_Nil [simp]: "splice buf p [] = buf"
  by (simp add: splice_def)

lemma length_splice [simp]: "p + length xs \<le> length buf \<Longrightarrow> length (splice buf p xs) = length buf"
  by (simp add: splice_def)

lemma splice_splice [simp]:
  "p + length xs + length ys \<le> length buf \<Longrightarrow> q = p + length xs \<Longrightarrow>
    splice (splice buf p xs) q ys = splice buf p (xs @ ys)"
  by (simp add: splice_def min_absorb2 min_absorb1 add_ac take_append drop_append)

lemma splice_splice_Suc [simp]:
  "p < length buf \<Longrightarrow> Suc p + length ys \<le> length buf \<Longrightarrow>
    splice (splice buf p [x]) (Suc p) ys = splice buf p (x # ys)"
  by simp

lemma splice_start: "splice buf 0 xs = xs @ drop (length xs) buf"
  by (simp add: splice_def)

lemma take_splice [simp]: "p + length xs \<le> length buf \<Longrightarrow> q \<le> p \<Longrightarrow> take q (splice buf p xs) = take q buf"
  by (simp add: splice_def min_def)

text \<open>\<open>conv f xs\<close> applies a table read to every element.\<close>

primrec conv :: "('a \<Rightarrow> 'b option) \<Rightarrow> 'a list \<Rightarrow> 'b list option" where
  "conv f [] = Some []"
| "conv f (x # xs) = do { y \<leftarrow> f x; ys \<leftarrow> conv f xs; Some (y # ys) }"

lemma conv_append: "conv f (xs @ ys) = do { a \<leftarrow> conv f xs; b \<leftarrow> conv f ys; Some (a @ b) }"
  by (induction xs) (simp_all split: bind_split)

lemma conv_length: "conv f xs = Some ys \<Longrightarrow> length ys = length xs"
  by (induction xs arbitrary: ys) (auto simp: bind_eq_Some_conv)

lemma conv_total: "(\<And>x. x \<in> set xs \<Longrightarrow> f x = Some (g x)) \<Longrightarrow> conv f xs = Some (map g xs)"
  by (induction xs) simp_all

lemma conv_take: "conv f xs = Some ys \<Longrightarrow> conv f (take n xs) = Some (take n ys)"
proof (induction xs arbitrary: n ys)
  case (Cons x xs)
  then show ?case by (cases n) (auto simp: bind_eq_Some_conv)
qed simp

lemma conv_drop: "conv f xs = Some ys \<Longrightarrow> conv f (drop n xs) = Some (drop n ys)"
proof (induction xs arbitrary: n ys)
  case (Cons x xs)
  then show ?case by (cases n) (auto simp: bind_eq_Some_conv)
qed simp

lemma conv_nth: "conv f xs = Some ys \<Longrightarrow> i < length xs \<Longrightarrow> f (xs ! i) = Some (ys ! i)"
proof (induction xs arbitrary: i ys)
  case (Cons x xs)
  then show ?case by (cases i) (auto simp: bind_eq_Some_conv)
qed simp

section \<open>The tables (unicode.h)\<close>

record cp_info =
  codepage :: u32
  char_size :: u32
  def_char :: wchar
  def_unicode_char :: wchar
  cp_name :: string

record sbcs_table =
  sinfo :: cp_info
  scp2uni :: "u16 list"
  scp2uni_glyphs :: "u16 list"
  suni2cp_low :: "u8 list"
  suni2cp_high :: "u16 list"

record dbcs_table =
  dinfo :: cp_info
  dcp2uni :: "u16 list"
  dcp2uni_leadbytes :: "u8 list"
  duni2cp_low :: "u16 list"
  duni2cp_high :: "u16 list"
  lead_bytes :: "u8 list"

datatype cptable = SBCS sbcs_table | DBCS dbcs_table

fun cpt_info :: "cptable \<Rightarrow> cp_info" where
  "cpt_info (SBCS t) = sinfo t"
| "cpt_info (DBCS t) = dinfo t"

text \<open>
  The members of the union: \<^verbatim>\<open>char_size\<close> is its tag, and reading the member of the other kind is
  \<open>None\<close>.
\<close>

fun cpt_sbcs :: "cptable \<Rightarrow> sbcs_table option" where
  "cpt_sbcs (SBCS t) = Some t"
| "cpt_sbcs (DBCS t) = None"

fun cpt_dbcs :: "cptable \<Rightarrow> dbcs_table option" where
  "cpt_dbcs (DBCS t) = Some t"
| "cpt_dbcs (SBCS t) = None"

definition wine_is_dbcs_leadbyte :: "cptable \<Rightarrow> u8 \<Rightarrow> bool option" where
  "wine_is_dbcs_leadbyte t ch =
     (if char_size (cpt_info t) = 2 then
        do { d \<leftarrow> cpt_dbcs t; off \<leftarrow> rd (dcp2uni_leadbytes d) (unat ch); Some (off \<noteq> 0) }
      else Some False)"

text \<open>The two-level table from characters to code page values: \<open>low[high[w >> 8] + (w & 0xff)]\<close>.\<close>

definition uni2cp :: "'a list \<Rightarrow> u16 list \<Rightarrow> wchar \<Rightarrow> 'a option" where
  "uni2cp low high w =
     do { h \<leftarrow> rd_signed high (sint (signed_drop_bit 8 w)); rd low (unat h + unat (w AND 0xff)) }"

definition two_level :: "'a list \<Rightarrow> u16 list \<Rightarrow> bool" where
  "two_level low high \<longleftrightarrow> length high = 256 \<and> (\<forall>h \<in> set high. unat h + 256 \<le> length low)"

definition bmp :: "wchar \<Rightarrow> bool" where
  "bmp w \<longleftrightarrow> unat w < 65536"

lemma sint_u32: "sint (w :: u32) = (if unat w < 2 ^ 31 then int (unat w) else int (unat w) - 2 ^ 32)"
proof -
  obtain n where n: "n = unat w" and u: "uint w = int n" and l: "n < 2 ^ 32"
    using unsigned_less [of w, where 'a = nat] by simp
  have s: "sint w = (int n + 2 ^ 31) mod 2 ^ 32 - 2 ^ 31"
    by (simp add: sint_uint signed_take_bit_eq_take_bit_shift take_bit_eq_mod u)
  show ?thesis
  proof (cases "n < 2 ^ 31")
    case True
    then have "(int n + 2 ^ 31) mod 2 ^ 32 = int n + 2 ^ 31"
      by (intro mod_pos_pos_trivial) simp_all
    then show ?thesis using True unfolding s n [symmetric] by simp
  next
    case False
    have "(int n + 2 ^ 31) mod 2 ^ 32 = (int n + 2 ^ 31 - 2 ^ 32) mod (2 ^ 32 :: int)"
      by (simp only: minus_mod_self2)
    also have "\<dots> = int n - 2 ^ 31"
      using False l by (subst mod_pos_pos_trivial) simp_all
    finally show ?thesis using False unfolding s n [symmetric] by simp
  qed
qed

lemma high_byte: "sint (signed_drop_bit 8 (w :: u32)) = sint w div 256"
  by (simp add: sint_signed_drop_bit_eq drop_bit_eq_div)

lemma rd_high_byte:
  "rd_signed xs (sint (signed_drop_bit 8 (w :: u32))) = (if unat w < 2 ^ 31 then rd xs (unat w div 256) else None)"
proof -
  define n where n: "n = unat w"
  have l: "n < 2 ^ 32" by (simp add: n)
  show ?thesis
    unfolding high_byte unfolding sint_u32 n [symmetric] rd_signed_def using l
    by (auto simp: nat_div_distrib)
qed

lemma bmp_high: "bmp w \<Longrightarrow> rd_signed xs (sint (signed_drop_bit 8 w)) = rd xs (unat w div 256)"
  by (simp add: rd_high_byte bmp_def)

lemma not_bmp_high: "\<not> bmp w \<Longrightarrow> length xs = 256 \<Longrightarrow> rd_signed xs (sint (signed_drop_bit 8 w)) = None"
  by (simp add: rd_high_byte bmp_def) linarith

lemma unat_and_255 [simp]: "unat (w AND 0xff :: u32) = unat w mod 256"
  by (simp add: nat_bits)

lemma two_level_eq:
  assumes "two_level low high" and "bmp w"
  shows "uni2cp low high w = Some (low ! (unat (high ! (unat w div 256)) + unat w mod 256))"
proof -
  let ?h = "high ! (unat w div 256)"
  have i: "unat w div 256 < length high"
    using assms by (auto simp: two_level_def bmp_def)
  then have "?h \<in> set high" by simp
  then have "unat ?h + 256 \<le> length low" using assms(1) by (simp add: two_level_def)
  moreover have "unat w mod 256 < 256" by simp
  ultimately have "unat ?h + unat w mod 256 < length low" by linarith
  then show ?thesis
    using i assms(2) by (simp add: uni2cp_def bmp_high)
qed

lemma two_level_None: "two_level low high \<Longrightarrow> \<not> bmp w \<Longrightarrow> uni2cp low high w = None"
  by (simp add: uni2cp_def two_level_def not_bmp_high)

definition sbcs_wf :: "sbcs_table \<Rightarrow> bool" where
  "sbcs_wf t \<longleftrightarrow> length (scp2uni t) = 256 \<and> length (scp2uni_glyphs t) = 256 \<and>
     two_level (suni2cp_low t) (suni2cp_high t)"

text \<open>
  In a double-byte code page the plane 0 of \<^verbatim>\<open>cp2uni\<close> holds the single-byte characters, and the
  lead byte table gives the plane of a lead byte.
\<close>

definition dbcs_wf :: "dbcs_table \<Rightarrow> bool" where
  "dbcs_wf t \<longleftrightarrow> length (dcp2uni_leadbytes t) = 256 \<and>
     (\<forall>o' \<in> set (dcp2uni_leadbytes t). unat o' * 256 + 256 \<le> length (dcp2uni t)) \<and>
     two_level (duni2cp_low t) (duni2cp_high t)"

definition cpt_wf :: "cptable \<Rightarrow> bool" where
  "cpt_wf t \<longleftrightarrow> (case t of SBCS s \<Rightarrow> char_size (sinfo s) = 1 \<and> sbcs_wf s
                        | DBCS d \<Rightarrow> char_size (dinfo d) = 2 \<and> dbcs_wf d)"

section \<open>The lookup of a code page (cptable.c, locale.c)\<close>

text \<open>
  The list of the code page tables in the order of the file: the numbers of the tables (the table
  \<^verbatim>\<open>cptable_866uk\<close> has the number 867), with the East Asian code pages, which are compiled in unless
  \<^verbatim>\<open>NO_EACP\<close> is defined.
\<close>

definition cptables :: "u32 list" where
  "cptables = [
    37, 424, 437, 500, 737, 775, 850, 852, 855, 856, 857, 860,
    861, 862, 863, 864, 865, 866, 867, 869, 874, 875, 932, 936,
    949, 950, 1006, 1026, 1250, 1251, 1252, 1253, 1254, 1255, 1256, 1257,
    1258, 1361, 10000, 10001, 10002, 10003, 10004, 10005, 10006, 10007, 10008, 10010,
    10017, 10021, 10029, 10079, 10081, 10082, 20127, 20866, 20880, 20932, 21866, 28591,
    28592, 28593, 28594, 28595, 28596, 28597, 28598, 28599, 28600, 28603, 28604, 28605,
    28606]"

function cp_get_table_loop :: "cptable list \<Rightarrow> u32 \<Rightarrow> nat \<Rightarrow> nat \<Rightarrow> cptable option option" where
  "cp_get_table_loop tabs cp base cnt =
     (if cnt = 0 then Some None
      else do {
        let mid = base + cnt div 2;
        t \<leftarrow> rd tabs mid;
        if cp = codepage (cpt_info t) then Some (Some t)
        else if cp > codepage (cpt_info t) then cp_get_table_loop tabs cp (mid + 1) ((cnt - 1) div 2)
        else cp_get_table_loop tabs cp base (cnt div 2) })"
  by pat_completeness auto
termination
  by (relation "measure (\<lambda>(tabs, cp, base, cnt). cnt)") auto

declare cp_get_table_loop.simps [simp del]

definition wine_cp_get_table :: "cptable list \<Rightarrow> u32 \<Rightarrow> cptable option option" where
  "wine_cp_get_table tabs cp = cp_get_table_loop tabs cp 0 (length tabs)"

definition wine_cp_enum_table :: "cptable list \<Rightarrow> u32 \<Rightarrow> cptable option" where
  "wine_cp_enum_table tabs index = (if length tabs \<le> unat index then None else Some (tabs ! unat index))"

definition get_codepage_table :: "cptable list \<Rightarrow> u32 \<Rightarrow> cptable option option" where
  "get_codepage_table tabs cp = wine_cp_get_table tabs cp"

interpretation cps: ordered_table "\<lambda>i. unat (cptables ! i)" "\<lambda>i. unat (cptables ! i)" "length cptables"
proof -
  have o: "in_order (map (\<lambda>c. (c, c)) cptables)" by code_simp
  show "ordered_table (\<lambda>i. unat (cptables ! i)) (\<lambda>i. unat (cptables ! i)) (length cptables)"
    by (rule ordered_table_adjacent) (use in_order_Suc [OF o] in \<open>simp_all add: word_less_nat_alt\<close>)
qed

text \<open>The tables in the order of \<^const>\<open>cptables\<close>: what the program is linked with.\<close>

definition shipped :: "cptable list \<Rightarrow> bool" where
  "shipped tabs \<longleftrightarrow> map (\<lambda>t. codepage (cpt_info t)) tabs = cptables"

lemma shipped_length: "shipped tabs \<Longrightarrow> length tabs = length cptables"
  unfolding shipped_def by (metis length_map)

lemma shipped_nth: "shipped tabs \<Longrightarrow> i < length tabs \<Longrightarrow> codepage (cpt_info (tabs ! i)) = cptables ! i"
  unfolding shipped_def by (metis nth_map)

lemma shipped_hit:
  "shipped tabs \<Longrightarrow> i < length tabs \<Longrightarrow> codepage (cpt_info (tabs ! i)) = cp \<longleftrightarrow> cps.hit (unat cp) i"
  by (auto simp: cps.hit_def shipped_nth shipped_length intro: word_unat_eq_iff [THEN iffD2])

lemma cp_get_table_loop_step:
  assumes "cnt \<noteq> 0" and "base + cnt div 2 < length tabs"
  shows "cp_get_table_loop tabs cp base cnt =
    (let mid = base + cnt div 2; c = codepage (cpt_info (tabs ! mid)) in
     if cp = c then Some (Some (tabs ! mid))
     else if c < cp then cp_get_table_loop tabs cp (mid + 1) ((cnt - 1) div 2)
     else cp_get_table_loop tabs cp base (cnt div 2))"
  using assms by (subst cp_get_table_loop.simps) (simp add: Let_def)

lemma cp_get_table_loop_hit:
  assumes sh: "shipped tabs" and h: "cps.hit (unat cp) i"
  shows "base + cnt \<le> length tabs \<Longrightarrow> base \<le> i \<Longrightarrow> i < base + cnt \<Longrightarrow>
    cp_get_table_loop tabs cp base cnt = Some (Some (tabs ! i))"
proof (induction cnt arbitrary: base rule: less_induct)
  case (less cnt)
  define m where "m = base + cnt div 2"
  have c0: "cnt \<noteq> 0" using less.prems by simp
  then have m: "m < length tabs" "m < length cptables" "m < base + cnt"
    using less.prems shipped_length [OF sh] by (auto simp: m_def)
  note e = shipped_nth [OF sh m(1)]
  note st = cp_get_table_loop_step [OF c0 m(1) [unfolded m_def], of cp, folded m_def]
  consider (eq) "cp = cptables ! m" | (gt) "cptables ! m < cp" | (lt) "cp < cptables ! m" by (rule linorder_cases)
  then show ?case
  proof cases
    case eq
    then have "i = m" using m by (intro cps.hit_unique [OF h]) (simp add: cps.hit_def)
    then show ?thesis unfolding st Let_def e using eq by simp
  next
    case gt
    then have "m < i" using cps.hit_right [OF h m(2)] by (simp add: word_less_nat_alt)
    moreover have "m + 1 + (cnt - 1) div 2 = base + cnt"
      using c0 unfolding m_def by presburger
    ultimately have "cp_get_table_loop tabs cp (m + 1) ((cnt - 1) div 2) = Some (Some (tabs ! i))"
      using less.prems c0 by (intro less.IH) auto
    then show ?thesis unfolding st Let_def e using gt by (auto simp del: One_nat_def)
  next
    case lt
    then have "i < m" using cps.hit_left [OF h m(2)] by (simp add: word_less_nat_alt)
    then have "cp_get_table_loop tabs cp base (cnt div 2) = Some (Some (tabs ! i))"
      using less.prems c0 m by (intro less.IH) (auto simp: m_def)
    then show ?thesis unfolding st Let_def e using lt by auto
  qed
qed

lemma cp_get_table_loop_miss:
  assumes sh: "shipped tabs" and n: "\<And>i. \<not> cps.hit (unat cp) i"
  shows "base + cnt \<le> length tabs \<Longrightarrow> cp_get_table_loop tabs cp base cnt = Some None"
proof (induction cnt arbitrary: base rule: less_induct)
  case (less cnt)
  show ?case
  proof (cases "cnt = 0")
    case True
    then show ?thesis by (simp add: cp_get_table_loop.simps)
  next
    case c0: False
    define m where "m = base + cnt div 2"
    have m: "m < length tabs" "m + 1 + (cnt - 1) div 2 \<le> length tabs" "base + cnt div 2 \<le> length tabs"
      using less.prems c0 by (auto simp: m_def)
    have ne: "cp \<noteq> codepage (cpt_info (tabs ! m))" using shipped_hit [OF sh m(1)] n by blast
    note st = cp_get_table_loop_step [OF c0 m(1) [unfolded m_def], of cp, folded m_def]
    show ?thesis
      using less.IH [OF _ m(2)] less.IH [OF _ m(3)] c0 ne by (simp add: st Let_def)
  qed
qed

lemma get_table_find:
  assumes "shipped tabs"
  shows "wine_cp_get_table tabs cp = Some (List.find (\<lambda>t. codepage (cpt_info t) = cp) tabs)"
proof (cases "\<exists>i. cps.hit (unat cp) i")
  case True
  then obtain i where i: "cps.hit (unat cp) i" by blast
  then have il: "i < length tabs" using shipped_length [OF assms] by (simp add: cps.hit_def)
  have "List.find (\<lambda>t. codepage (cpt_info t) = cp) tabs = Some (tabs ! i)"
    unfolding find_Some_iff
  proof (intro exI [of _ i] conjI allI impI il refl)
    show "codepage (cpt_info (tabs ! i)) = cp" using shipped_hit [OF assms il] i by blast
    show "codepage (cpt_info (tabs ! j)) \<noteq> cp" if "j < i" for j
      using shipped_hit [OF assms less_trans [OF that il]] cps.hit_unique [OF i, of j] that by auto
  qed
  then show ?thesis
    unfolding wine_cp_get_table_def using cp_get_table_loop_hit [OF assms i, of 0 "length tabs"] il by simp
next
  case False
  then have n: "\<not> cps.hit (unat cp) i" for i by blast
  have "List.find (\<lambda>t. codepage (cpt_info t) = cp) tabs = None"
    unfolding find_None_iff in_set_conv_nth using shipped_hit [OF assms] n by blast
  then show ?thesis
    unfolding wine_cp_get_table_def using cp_get_table_loop_miss [OF assms n, of 0 "length tabs"] by simp
qed

section \<open>Properties\<close>

text \<open>
  \<^verbatim>\<open>wine_cp_get_table\<close> finds every code page that the program is linked with and no other: its binary
  search gives what a search through all tables gives, without an access outside the list.
\<close>

theorem wine_cp_get_table_finds:
  assumes "map (\<lambda>t. codepage (cpt_info t)) tabs = cptables"
  shows "wine_cp_get_table tabs cp = Some (List.find (\<lambda>t. codepage (cpt_info t) = cp) tabs)"
  using assms by (intro get_table_find) (simp add: shipped_def)

definition page_named :: "u32 \<Rightarrow> cptable" where
  "page_named c = SBCS \<lparr>sinfo = \<lparr>codepage = c, char_size = 1, def_char = 0x3f, def_unicode_char = 0x3f, cp_name = []\<rparr>,
     scp2uni = [], scp2uni_glyphs = [], suni2cp_low = [], suni2cp_high = []\<rparr>"

theorem wine_cp_get_table_finds_witness:
  "wine_cp_get_table (map page_named cptables) 866 = Some (Some (page_named 866)) \<and>
    wine_cp_get_table (map page_named cptables) 65001 = Some None"
proof -
  have m: "map (\<lambda>t. codepage (cpt_info t)) (map page_named cptables) = cptables"
    by (simp add: page_named_def comp_def)
  have "List.find (\<lambda>t. codepage (cpt_info t) = 866) (map page_named cptables) = Some (page_named 866)"
    "List.find (\<lambda>t. codepage (cpt_info t) = 65001) (map page_named cptables) = None"
    by (simp_all add: cptables_def page_named_def)
  then show ?thesis by (simp add: wine_cp_get_table_finds [OF m])
qed

end
