(* ===== verification/WineCopy.thy ===== *)
theory WineCopy
  imports WineTables
begin

text \<open>
  What the conversions of \<^verbatim>\<open>WinPort/wineguts\<close> share: the contract of a conversion that is called with
  a buffer, the unrolled copy loop of \<^verbatim>\<open>mbtowc.c\<close> and \<^verbatim>\<open>wctomb.c\<close>, and the decomposition of a
  character (\<^verbatim>\<open>decompose.c\<close>).

  Every conversion returns the number of cells written, -1 when the buffer is too small and -2 for an
  invalid character; with an empty buffer it returns the length that the buffer needs. The locale
  \<open>length_query\<close> is this contract, over the specification \<open>out\<close> of the output of a source; the
  conversions interpret it.
\<close>

section \<open>The contract of a conversion\<close>

locale length_query =
  fixes cv :: "'s \<Rightarrow> 'b list \<Rightarrow> (int \<times> 'b list) option"
    and out :: "'s \<Rightarrow> 'b list option"
  assumes query: "out s = Some ys \<Longrightarrow> cv s [] = Some (int (length ys), [])"
    and fits: "out s = Some ys \<Longrightarrow> buf \<noteq> [] \<Longrightarrow> length buf < 2 ^ 31 \<Longrightarrow> length ys \<le> length buf \<Longrightarrow>
      cv s buf = Some (int (length ys), splice buf 0 ys)"
    and overflow: "out s = Some ys \<Longrightarrow> buf \<noteq> [] \<Longrightarrow> length buf < 2 ^ 31 \<Longrightarrow> length buf < length ys \<Longrightarrow>
      \<exists>buf'. cv s buf = Some (-1, buf') \<and> length buf' = length buf"
begin

lemma two_calls:
  assumes "out s = Some ys" and "length ys < 2 ^ 31"
  shows "\<exists>n e. cv s [] = Some (n, e) \<and> cv s (replicate (nat n) z) = Some (n, ys)"
  using query [OF assms(1)] fits [OF assms(1), of "replicate (length ys) z"] assms(2)
  by (cases "ys = []") (auto simp: splice_def)

lemma total:
  "out s = Some ys \<Longrightarrow> length buf < 2 ^ 31 \<Longrightarrow> \<exists>r buf'. cv s buf = Some (r, buf') \<and> length buf' = length buf"
  using query [of s ys] fits [of s ys buf] overflow [of s ys buf]
  by (cases "buf = []"; cases "length ys \<le> length buf") (auto simp: splice_def)

lemma never_truncates:
  "out s = Some ys \<Longrightarrow> length buf < 2 ^ 31 \<Longrightarrow> cv s buf = Some (int k, buf') \<Longrightarrow> k = length ys"
  using query [of s ys] fits [of s ys buf] overflow [of s ys buf]
  by (cases "buf = []"; cases "length ys \<le> length buf") auto

end

section \<open>Flags\<close>

definition has_flag :: "u32 \<Rightarrow> u32 \<Rightarrow> bool" where
  "has_flag flags b \<longleftrightarrow> flags AND b \<noteq> 0"

section \<open>The copy loop\<close>

text \<open>
  The copy loop that both directions have: blocks of 16 cells, \<open>dst[i] = f(src[i])\<close>, then the
  \<^verbatim>\<open>switch\<close> whose cases fall through, on pointers that were moved behind the last cell.
\<close>

function copy_cells :: "('a \<Rightarrow> 'b option) \<Rightarrow> 'a list \<Rightarrow> nat \<Rightarrow> nat \<Rightarrow> 'b list \<Rightarrow> nat \<Rightarrow> 'b list option" where
  "copy_cells f src k i buf p =
     (if i < k then
        do { x \<leftarrow> rd src i; y \<leftarrow> f x; buf \<leftarrow> wr buf (p + i) y; copy_cells f src k (Suc i) buf p }
      else Some buf)"
  by pat_completeness auto
termination
  by (relation "measure (\<lambda>(f, src, k, i, buf, p). k - i)") auto

primrec tail_cells :: "('a \<Rightarrow> 'b option) \<Rightarrow> 'a list \<Rightarrow> nat \<Rightarrow> nat \<Rightarrow> 'b list \<Rightarrow> nat \<Rightarrow> 'b list option" where
  "tail_cells f src n 0 buf p = Some buf"
| "tail_cells f src n (Suc k) buf p =
     do { x \<leftarrow> rd src (n - Suc k); y \<leftarrow> f x; buf \<leftarrow> wr buf (p + n - Suc k) y; tail_cells f src n k buf p }"

function unrolled_copy :: "('a \<Rightarrow> 'b option) \<Rightarrow> 'a list \<Rightarrow> nat \<Rightarrow> 'b list \<Rightarrow> nat \<Rightarrow> 'b list option" where
  "unrolled_copy f src n buf p =
     (if 16 \<le> n then
        do { buf \<leftarrow> copy_cells f src 16 0 buf p; unrolled_copy f (drop 16 src) (n - 16) buf (p + 16) }
      else tail_cells f src n n buf p)"
  by pat_completeness auto
termination
  by (relation "measure (\<lambda>(f, src, n, buf, p). n)") auto

declare copy_cells.simps [simp del] unrolled_copy.simps [simp del]

section \<open>The decomposition of a character (decompose.c)\<close>

record decomp_tables =
  decomp_table :: "u16 list"
  compatmap_table :: "u16 list"

definition WINE_DECOMPOSE_COMPAT :: u32 where "WINE_DECOMPOSE_COMPAT = 1"

text \<open>\<^verbatim>\<open>(USHORT)ch >> 8\<close> and the two halves of the low byte index the three levels of the table.\<close>

definition get_compatmap_entry :: "u16 list \<Rightarrow> wchar \<Rightarrow> (nat \<times> nat) option option" where
  "get_compatmap_entry ctab ch =
     do { a \<leftarrow> rd ctab (unat (drop_bit 8 (ucast ch :: u16)));
          b \<leftarrow> rd ctab (unat a + unat (drop_bit 4 ch AND 0xf));
          let offset_offs = b + ucast (ch AND 0xf);
          start \<leftarrow> rd ctab (unat (offset_offs :: u16));
          end' \<leftarrow> rd ctab (unat offset_offs + 1);
          Some (if end' > start then Some (unat start, unat end' - unat start) else None) }"

text \<open>The entry of a character: the table it is in, its first position and its length.\<close>

definition decompose_entry :: "decomp_tables \<Rightarrow> u32 \<Rightarrow> wchar \<Rightarrow> (u16 list \<times> nat \<times> nat) option" where
  "decompose_entry D flags ch =
     do { e \<leftarrow> (if has_flag flags WINE_DECOMPOSE_COMPAT then get_compatmap_entry (compatmap_table D) ch
               else Some None);
          (case e of Some (start, len) \<Rightarrow> Some (compatmap_table D, start, len)
           | None \<Rightarrow>
             do { let tab = decomp_table D;
                  a \<leftarrow> rd tab (unat (drop_bit 8 (ucast ch :: u16)));
                  b \<leftarrow> rd tab (unat a + unat (drop_bit 4 ch AND 0xf));
                  let ptr = unat b + 2 * unat (ch AND 0xf);
                  p1 \<leftarrow> rd tab (ptr + 1);
                  Some (tab, ptr, if p1 \<noteq> 0 then 2 else 1) }) }"

text \<open>Subtraction of \<^verbatim>\<open>unsigned int\<close> values.\<close>

definition usub :: "nat \<Rightarrow> nat \<Rightarrow> nat" where
  "usub a b = (a + 2 ^ 32 - b) mod 2 ^ 32"

lemma usub_le [simp]: "b \<le> a \<Longrightarrow> a < 2 ^ 32 \<Longrightarrow> usub a b = a - b"
proof -
  assume b: "b \<le> a" and a: "a < 2 ^ 32"
  have "a + 2 ^ 32 - b = (a - b) + 2 ^ 32" using b by simp
  then show ?thesis using a unfolding usub_def by (simp only: mod_add_self2) simp
qed

text \<open>
  The code recurses through the table with no bound of its own. The model counts the levels of
  the recursion; \<open>None\<close> is a recursion deeper than that, or an access outside an array. The cells
  the function may write are those from \<open>pos\<close> on, \<open>dstlen\<close> of them.
\<close>

fun wine_decompose :: "nat \<Rightarrow> decomp_tables \<Rightarrow> u32 \<Rightarrow> wchar \<Rightarrow> wchar list \<Rightarrow> nat \<Rightarrow> nat \<Rightarrow>
    (nat \<times> wchar list) option"
and decompose_parts :: "nat \<Rightarrow> decomp_tables \<Rightarrow> u32 \<Rightarrow> u16 list \<Rightarrow> nat \<Rightarrow> nat \<Rightarrow> wchar list \<Rightarrow> nat \<Rightarrow> nat \<Rightarrow> nat \<Rightarrow>
    (nat \<times> wchar list) option" where
  "wine_decompose 0 D flags ch dst pos dstlen = None"
| "wine_decompose (Suc n) D flags ch dst pos dstlen =
     do { dst \<leftarrow> wr dst pos ch;
          (tab, ptr, len) \<leftarrow> decompose_entry D flags ch;
          p0 \<leftarrow> rd tab ptr;
          if p0 = 0 then Some (1, dst)
          else if dstlen < len then Some (0, dst)
          else decompose_parts n D flags tab ptr len dst pos 0 dstlen }"
| "decompose_parts n D flags tab ptr 0 dst pos dst_pos dstlen = Some (dst_pos, dst)"
| "decompose_parts n D flags tab ptr (Suc len) dst pos dst_pos dstlen =
     do { c \<leftarrow> rd tab ptr;
          (res, dst) \<leftarrow> wine_decompose n D flags (ucast c) dst (pos + dst_pos) (usub dstlen (dst_pos + len));
          if res = 0 then Some (0, dst)
          else decompose_parts n D flags tab (ptr + 1) len dst pos (dst_pos + res) dstlen }"

text \<open>What it computes: the complete decomposition, as a list.\<close>

fun decomposition :: "nat \<Rightarrow> decomp_tables \<Rightarrow> u32 \<Rightarrow> wchar \<Rightarrow> wchar list option"
and decomposition_parts :: "nat \<Rightarrow> decomp_tables \<Rightarrow> u32 \<Rightarrow> u16 list \<Rightarrow> nat \<Rightarrow> nat \<Rightarrow> wchar list option" where
  "decomposition 0 D flags ch = None"
| "decomposition (Suc n) D flags ch =
     do { (tab, ptr, len) \<leftarrow> decompose_entry D flags ch;
          p0 \<leftarrow> rd tab ptr;
          if p0 = 0 then Some [ch] else decomposition_parts n D flags tab ptr len }"
| "decomposition_parts n D flags tab ptr 0 = Some []"
| "decomposition_parts n D flags tab ptr (Suc len) =
     do { c \<leftarrow> rd tab ptr;
          xs \<leftarrow> decomposition n D flags (ucast c);
          ys \<leftarrow> decomposition_parts n D flags tab (ptr + 1) len;
          Some (xs @ ys) }"


section \<open>Properties of the copy loop and the decomposition\<close>

lemma copy_cells_spec:
  assumes "conv f src = Some ys" and "k \<le> length src"
  shows "i \<le> k \<Longrightarrow> p + k \<le> length buf \<Longrightarrow>
    copy_cells f src k i buf p = Some (splice buf (p + i) (take (k - i) (drop i ys)))"
proof (induction "k - i" arbitrary: i buf)
  case 0
  then show ?case by (simp add: copy_cells.simps)
next
  case (Suc d)
  then have i: "i < k" "i < length ys" using assms conv_length [OF assms(1)] by auto
  have e: "take (k - i) (drop i ys) = ys ! i # take (k - Suc i) (drop (Suc i) ys)"
    using i by (simp add: drop_nth_Cons [OF i(2)] take_Cons' )
  show ?case
    using Suc i assms(2) conv_nth [OF assms(1), of i] conv_length [OF assms(1)]
    by (subst copy_cells.simps) (simp add: e)
qed

lemma tail_cells_spec:
  assumes "conv f src = Some ys" and "n \<le> length src"
  shows "k \<le> n \<Longrightarrow> p + n \<le> length buf \<Longrightarrow>
    tail_cells f src n k buf p = Some (splice buf (p + n - k) (take k (drop (n - k) ys)))"
proof (induction k arbitrary: buf)
  case (Suc k)
  then have i: "n - Suc k < length src" "n - Suc k < length ys" "n - k = Suc (n - Suc k)"
    using assms conv_length [OF assms(1)] by auto
  have e: "take (Suc k) (drop (n - Suc k) ys) = ys ! (n - Suc k) # take k (drop (n - k) ys)"
    using i by (simp add: drop_nth_Cons [OF i(2)])
  have q: "p + n - k = Suc (p + n - Suc k)" using Suc.prems by simp
  show ?case
    using Suc i(1) conv_nth [OF assms(1) i(1)] conv_length [OF assms(1)] assms(2)
    by (simp add: e q)
qed simp

lemma unrolled_copy_spec:
  "conv f src = Some ys \<Longrightarrow> n \<le> length src \<Longrightarrow> p + n \<le> length buf \<Longrightarrow>
    unrolled_copy f src n buf p = Some (splice buf p (take n ys))"
proof (induction n arbitrary: src ys buf p rule: less_induct)
  case (less n)
  note len = conv_length [OF less.prems(1)]
  show ?case
  proof (cases "16 \<le> n")
    case True
    note c = conv_drop [OF less.prems(1), of 16]
    have e: "take n ys = take 16 ys @ take (n - 16) (drop 16 ys)"
      using True by (simp add: take_drop_append)
    show ?thesis
      using True less.prems copy_cells_spec [OF less.prems(1), of 16 0 p buf] len
        less.IH [OF _ c, of "n - 16" "p + 16" "splice buf p (take 16 ys)"]
      by (subst unrolled_copy.simps) (simp add: e)
  next
    case False
    then show ?thesis
      using tail_cells_spec [OF less.prems(1,2), of n p buf] less.prems by (simp add: unrolled_copy.simps)
  qed
qed

definition same_outside :: "nat \<Rightarrow> nat \<Rightarrow> 'a list \<Rightarrow> 'a list \<Rightarrow> bool" where
  "same_outside p n buf buf' \<longleftrightarrow>
     length buf' = length buf \<and> take p buf' = take p buf \<and> drop (p + n) buf' = drop (p + n) buf"

lemma same_outside_splice:
  assumes "p + n \<le> length buf" "p \<le> q" "q + length xs \<le> p + n"
  shows "same_outside p n buf (splice buf q xs)"
proof -
  have q: "q \<le> length buf" using assms by simp
  have "drop (p + n) (take q buf @ xs @ drop (q + length xs) buf) = drop (p + n) buf"
    using assms q by (simp add: drop_append min_absorb2)
  then show ?thesis using assms q by (simp add: same_outside_def splice_def min_absorb2 min_absorb1)
qed

lemma same_outside_trans: "same_outside p n b c \<Longrightarrow> same_outside p n a b \<Longrightarrow> same_outside p n a c"
  by (simp add: same_outside_def)

lemma same_outside_mono:
  assumes "same_outside q m a b" "p \<le> q" "q + m \<le> p + n"
  shows "same_outside p n a b"
proof -
  have "take p (take q b) = take p (take q a)" "drop (p + n - (q + m)) (drop (q + m) b) = drop (p + n - (q + m)) (drop (q + m) a)"
    using assms by (simp_all add: same_outside_def)
  then show ?thesis using assms by (simp add: same_outside_def min_def)
qed

lemma splice_over: "p < length buf \<Longrightarrow> xs \<noteq> [] \<Longrightarrow> p + length xs \<le> length buf \<Longrightarrow>
    splice (splice buf p [x]) p xs = splice buf p xs"
  by (cases xs) (simp_all add: splice_def add_ac)

lemma decompose_entry_len: "decompose_entry D flags ch = Some (tab, ptr, len) \<Longrightarrow> 1 \<le> len"
  by (auto simp: decompose_entry_def get_compatmap_entry_def bind_eq_Some_conv Let_def word_less_nat_alt
      split: option.splits if_splits)

text \<open>
  The contract of one call: with room for one cell, the call fails exactly if the complete
  decomposition does not fit, and it writes no cell that is not its own.
\<close>

definition decompose_ok :: "nat \<Rightarrow> decomp_tables \<Rightarrow> u32 \<Rightarrow> bool" where
  "decompose_ok n D flags \<longleftrightarrow> (\<forall>ch ds dst pos lim. decomposition n D flags ch = Some ds \<longrightarrow> 1 \<le> lim \<longrightarrow>
     lim < 2 ^ 32 \<longrightarrow> pos + lim \<le> length dst \<longrightarrow> ds \<noteq> [] \<and>
       (if length ds \<le> lim then wine_decompose n D flags ch dst pos lim = Some (length ds, splice dst pos ds)
        else (\<exists>b. wine_decompose n D flags ch dst pos lim = Some (0, b) \<and> same_outside pos lim dst b)))"

lemma decomposition_parts_length:
  assumes "\<And>ch ds. decomposition n D flags ch = Some ds \<Longrightarrow> ds \<noteq> []"
  shows "decomposition_parts n D flags tab ptr len = Some es \<Longrightarrow> len \<le> length es"
proof (induction len arbitrary: ptr es)
  case (Suc len)
  then obtain c :: u16 and xs ys where "decomposition n D flags (ucast c) = Some xs"
    "decomposition_parts n D flags tab (ptr + 1) len = Some ys" "es = xs @ ys"
    by (auto simp: bind_eq_Some_conv)
  then show ?case using Suc.IH [of "ptr + 1" ys] assms [of "ucast c" xs] by (cases xs) auto
qed simp

lemma decomposition_nonempty: "decomposition n D flags ch = Some ds \<Longrightarrow> ds \<noteq> []"
proof (induction n arbitrary: ch ds)
  case (Suc n)
  then obtain tab ptr len p0 where e: "decompose_entry D flags ch = Some (tab, ptr, len)" "rd tab ptr = Some p0"
    and p: "(if p0 = 0 then Some [ch] else decomposition_parts n D flags tab ptr len) = Some ds"
    by (auto simp: bind_eq_Some_conv)
  show ?case
    using decomposition_parts_length [of n D flags tab ptr len ds] Suc.IH p decompose_entry_len [OF e(1)]
    by (auto split: if_splits)
qed simp

lemma decompose_parts_spec:
  assumes ok: "decompose_ok n D flags"
  shows "decomposition_parts n D flags tab ptr len = Some es \<Longrightarrow> dp + len \<le> lim \<Longrightarrow> lim < 2 ^ 32 \<Longrightarrow>
    pos + lim \<le> length dst \<Longrightarrow>
    (if dp + length es \<le> lim
     then decompose_parts n D flags tab ptr len dst pos dp lim = Some (dp + length es, splice dst (pos + dp) es)
     else \<exists>b. decompose_parts n D flags tab ptr len dst pos dp lim = Some (0, b) \<and> same_outside pos lim dst b)"
proof (induction len arbitrary: ptr es dp dst)
  case (Suc len)
  then obtain c :: u16 and xs ys where c: "rd tab ptr = Some c" and x: "decomposition n D flags (ucast c) = Some xs"
    and y: "decomposition_parts n D flags tab (ptr + 1) len = Some ys" and es: "es = xs @ ys"
    by (auto simp: bind_eq_Some_conv)
  define l where "l = lim - (dp + len)"
  have l: "1 \<le> l" "l < 2 ^ 32" "pos + dp + l \<le> length dst" "usub lim (dp + len) = l"
    using Suc.prems by (auto simp: l_def)
  have yl: "len \<le> length ys" by (rule decomposition_parts_length [OF decomposition_nonempty y])
  note wd = ok [unfolded decompose_ok_def, rule_format, OF x l(1-3)]
  show ?case
  proof (cases "length xs \<le> l")
    case True
    then have w: "wine_decompose n D flags (ucast c) dst (pos + dp) l = Some (length xs, splice dst (pos + dp) xs)"
      and xs: "xs \<noteq> []" using wd by simp_all
    have fit: "pos + dp + length xs \<le> length dst" "dp + length xs + len \<le> lim"
      using True Suc.prems by (auto simp: l_def)
    have so: "same_outside pos lim dst (splice dst (pos + dp) xs)"
      using fit Suc.prems by (intro same_outside_splice) auto
    note ih = Suc.IH [OF y, of "dp + length xs" "splice dst (pos + dp) xs", OF fit(2) Suc.prems(3)]
    show ?thesis
    proof (cases "dp + length es \<le> lim")
      case True
      then show ?thesis using ih fit Suc.prems w xs by (simp add: c l(4) es add.assoc)
    next
      case False
      then obtain b where "decompose_parts n D flags tab (ptr + 1) len (splice dst (pos + dp) xs) pos (dp + length xs) lim = Some (0, b)"
        "same_outside pos lim (splice dst (pos + dp) xs) b"
        using ih fit Suc.prems es by (auto simp: add.assoc)
      then show ?thesis using False w xs so by (auto simp: c l(4) intro: same_outside_trans)
    qed
  next
    case False
    then obtain b where b: "wine_decompose n D flags (ucast c) dst (pos + dp) l = Some (0, b)" "same_outside (pos + dp) l dst b"
      using wd by auto
    have "same_outside pos lim dst b"
      by (rule same_outside_mono [OF b(2)]) (use Suc.prems in \<open>auto simp: l_def\<close>)
    moreover have "\<not> dp + length es \<le> lim" using False yl by (simp add: es l_def)
    ultimately show ?thesis using b(1) by (simp add: c l(4))
  qed
qed simp

lemma decompose_ok: "decompose_ok n D flags"
proof (induction n)
  case (Suc n)
  show ?case
    unfolding decompose_ok_def
  proof (intro allI impI conjI)
    fix ch ds and dst :: "wchar list" and pos lim :: nat
    assume ds: "decomposition (Suc n) D flags ch = Some ds" and l: "1 \<le> lim" "lim < 2 ^ 32" "pos + lim \<le> length dst"
    show ne: "ds \<noteq> []" by (rule decomposition_nonempty [OF ds])
    from ds obtain tab ptr len p0 where e: "decompose_entry D flags ch = Some (tab, ptr, len)" "rd tab ptr = Some p0"
      and p: "(if p0 = 0 then Some [ch] else decomposition_parts n D flags tab ptr len) = Some ds"
      by (auto simp: bind_eq_Some_conv)
    let ?d = "splice dst pos [ch]"
    have w: "pos < length dst" using l by simp
    have so: "same_outside pos lim dst ?d" using l by (intro same_outside_splice) auto
    have unf: "wine_decompose (Suc n) D flags ch dst pos lim =
      (if p0 = 0 then Some (1, ?d) else if lim < len then Some (0, ?d)
       else decompose_parts n D flags tab ptr len ?d pos 0 lim)"
      using w e by simp
    show "if length ds \<le> lim then wine_decompose (Suc n) D flags ch dst pos lim = Some (length ds, splice dst pos ds)
      else (\<exists>b. wine_decompose (Suc n) D flags ch dst pos lim = Some (0, b) \<and> same_outside pos lim dst b)"
    proof (cases "p0 = 0")
      case True
      then show ?thesis using p l unf by auto
    next
      case False
      then have ps: "decomposition_parts n D flags tab ptr len = Some ds" using p by simp
      have len: "len \<le> length ds" by (rule decomposition_parts_length [OF decomposition_nonempty ps])
      show ?thesis
      proof (cases "lim < len")
        case True
        then show ?thesis using False unf so len by auto
      next
        case nl: False
        note sp = decompose_parts_spec [OF Suc.IH ps, of 0 lim pos ?d]
        show ?thesis
        proof (cases "length ds \<le> lim")
          case True
          then show ?thesis using sp nl False unf l w ne by (simp add: splice_over)
        next
          case nf: False
          then obtain b where "decompose_parts n D flags tab ptr len ?d pos 0 lim = Some (0, b)" "same_outside pos lim ?d b"
            using sp nl l by auto
          then show ?thesis using nf nl False unf so by (auto intro: same_outside_trans)
        qed
      qed
    qed
  qed
qed (simp add: decompose_ok_def)

section \<open>Properties\<close>

text \<open>
  C27. \<^verbatim>\<open>wine_decompose\<close> computes the complete decomposition of a character in a bounded buffer: with
  room for at least one cell it writes the decomposition if it fits and otherwise returns 0, it
  writes no cell outside its range, and it has no access outside an array.
\<close>

theorem wine_decompose_refines:
  assumes "decomposition n D flags ch = Some ds" and "1 \<le> lim" and "lim < 2 ^ 32" and "pos + lim \<le> length dst"
  shows "if length ds \<le> lim then wine_decompose n D flags ch dst pos lim = Some (length ds, splice dst pos ds)
    else \<exists>b. wine_decompose n D flags ch dst pos lim = Some (0, b) \<and> same_outside pos lim dst b"
  using decompose_ok [of n D flags] assms unfolding decompose_ok_def by blast

text \<open>Tables in which the character 0 decomposes into 1 2 and the character 1 into 3.\<close>

definition tiny_decomp :: decomp_tables where
  "tiny_decomp = \<lparr>decomp_table = [1, 2, 1, 2, 3, 0] @ replicate 300 0, compatmap_table = []\<rparr>"

theorem wine_decompose_refines_witness:
  "\<exists>D ch ds. length ds = 2 \<and> wine_decompose 3 D 0 ch [9, 9, 9] 0 3 = Some (2, ds @ [9])"
proof -
  have d: "decomposition 3 tiny_decomp 0 0 = Some [3, 2]" by code_simp
  show ?thesis
    using wine_decompose_refines [OF d, of 3 0 "[9, 9, 9]"]
    by (intro exI [of _ tiny_decomp] exI [of _ "0 :: u32"] exI [of _ "[3, 2]"]) (simp add: splice_start)
qed

end
