(* ===== verification/WineMb.thy ===== *)
theory WineMb
  imports WineCopy
begin

text \<open>
  The conversion of a byte string to wide characters: \<^verbatim>\<open>WinPort/wineguts/mbtowc.c\<close> and the symbol code
  page (\<^verbatim>\<open>cpsymbol.c\<close>). The conversions are interpretations of the contract \<open>length_query\<close>; their
  specifications give the whole output of a source, or \<open>None\<close> when an access is outside a table.
\<close>

section \<open>Flags and character tests\<close>

definition MB_COMPOSITE :: u32 where "MB_COMPOSITE = 0x2"
definition MB_USEGLYPHCHARS :: u32 where "MB_USEGLYPHCHARS = 0x4"
definition MB_ERR_INVALID_CHARS :: u32 where "MB_ERR_INVALID_CHARS = 0x8"

definition is_private_use_area_char :: "wchar \<Rightarrow> bool" where
  "is_private_use_area_char code \<longleftrightarrow> 0xe000 \<le> sint code \<and> sint code \<le> 0xf8ff"

section \<open>Single-byte code pages\<close>

definition sbcs_cp2uni :: "sbcs_table \<Rightarrow> u32 \<Rightarrow> u16 list" where
  "sbcs_cp2uni t flags = (if has_flag flags MB_USEGLYPHCHARS then scp2uni_glyphs t else scp2uni t)"

definition cp2uni_char :: "u16 list \<Rightarrow> u8 \<Rightarrow> wchar option" where
  "cp2uni_char tab b = do { u \<leftarrow> rd tab (unat b); Some (ucast u) }"

primrec check_sbcs_loop :: "u16 list \<Rightarrow> wchar \<Rightarrow> u8 \<Rightarrow> bytes \<Rightarrow> nat option" where
  "check_sbcs_loop tab defu defc [] = Some 0"
| "check_sbcs_loop tab defu defc (b # src) =
     do { u \<leftarrow> cp2uni_char tab b;
          if (u = defu \<and> b \<noteq> defc) \<or> is_private_use_area_char u then Some (length (b # src))
          else check_sbcs_loop tab defu defc src }"

definition check_invalid_chars_sbcs :: "sbcs_table \<Rightarrow> u32 \<Rightarrow> bytes \<Rightarrow> nat option" where
  "check_invalid_chars_sbcs t flags src =
     do { let defu = def_unicode_char (sinfo t);
          defc \<leftarrow> uni2cp (suni2cp_low t) (suni2cp_high t) defu;
          check_sbcs_loop (sbcs_cp2uni t flags) defu defc src }"

definition mbstowcs_sbcs :: "sbcs_table \<Rightarrow> u32 \<Rightarrow> bytes \<Rightarrow> wchar list \<Rightarrow> (int \<times> wchar list) option" where
  "mbstowcs_sbcs t flags src dst =
     (let (srclen, ret) = (if length dst < length src then (length dst, -1)
                           else (length src, int (length src))) in
      do { dst \<leftarrow> unrolled_copy (cp2uni_char (sbcs_cp2uni t flags)) src srclen dst 0; Some (ret, dst) })"

section \<open>Conversions with decomposition, double-byte code pages\<close>

text \<open>
  The decomposing conversions call \<^const>\<open>wine_decompose\<close> with no flags: \<open>n\<close> and \<open>D\<close> are its levels
  and its tables. The length query decomposes into a buffer of four cells, and the conversion into
  what is left of the destination.
\<close>

primrec sbcs_decomposed_len :: "nat \<Rightarrow> decomp_tables \<Rightarrow> u16 list \<Rightarrow> bytes \<Rightarrow> nat \<Rightarrow> nat option" where
  "sbcs_decomposed_len n D tab [] len = Some len"
| "sbcs_decomposed_len n D tab (b # src) len =
     do { u \<leftarrow> cp2uni_char tab b;
          (res, d) \<leftarrow> wine_decompose n D 0 u (replicate 4 0) 0 4;
          sbcs_decomposed_len n D tab src (len + res) }"

primrec sbcs_decompose_loop :: "nat \<Rightarrow> decomp_tables \<Rightarrow> u16 list \<Rightarrow> bytes \<Rightarrow> wchar list \<Rightarrow> nat \<Rightarrow>
    (int \<times> wchar list) option" where
  "sbcs_decompose_loop n D tab [] dst p = Some (int p, dst)"
| "sbcs_decompose_loop n D tab (b # src) dst p =
     (if p = length dst then Some (-1, dst)
      else do { u \<leftarrow> cp2uni_char tab b;
                (res, dst) \<leftarrow> wine_decompose n D 0 u dst p (length dst - p);
                if res = 0 then Some (-1, dst) else sbcs_decompose_loop n D tab src dst (p + res) })"

definition mbstowcs_sbcs_decompose :: "nat \<Rightarrow> decomp_tables \<Rightarrow> sbcs_table \<Rightarrow> u32 \<Rightarrow> bytes \<Rightarrow> wchar list \<Rightarrow>
    (int \<times> wchar list) option" where
  "mbstowcs_sbcs_decompose n D t flags src dst =
     (let tab = sbcs_cp2uni t flags in
      if dst = [] then do { len \<leftarrow> sbcs_decomposed_len n D tab src 0; Some (int len, []) }
      else sbcs_decompose_loop n D tab src dst 0)"

text \<open>
  A lead byte and the byte behind it are one character unless the string ends there or the second
  byte is 0; then the lead byte is converted by the table of single bytes.
\<close>

function get_length_mb_dbcs :: "u8 list \<Rightarrow> bytes \<Rightarrow> nat \<Rightarrow> nat option" where
  "get_length_mb_dbcs lb [] len = Some len"
| "get_length_mb_dbcs lb (b # src) len =
     do { off \<leftarrow> rd lb (unat b);
          if off \<noteq> 0 \<and> src \<noteq> [] \<and> hd src \<noteq> 0 then get_length_mb_dbcs lb (tl src) (len + 1)
          else get_length_mb_dbcs lb src (len + 1) }"
  by pat_completeness auto
termination
  by (relation "measure (\<lambda>(lb, src, len). length src)") (auto simp: less_Suc_eq_le)

text \<open>One character of the source, as the loops of the three conversions read it.\<close>

definition dbcs_char :: "dbcs_table \<Rightarrow> u8 \<Rightarrow> bytes \<Rightarrow> (wchar \<times> bytes) option" where
  "dbcs_char t b src =
     do { off \<leftarrow> rd (dcp2uni_leadbytes t) (unat b);
          if off \<noteq> 0 \<and> src \<noteq> [] \<and> hd src \<noteq> 0 then
            do { u \<leftarrow> rd (dcp2uni t) (unat off * 256 + unat (hd src)); Some (ucast u, tl src) }
          else do { u \<leftarrow> rd (dcp2uni t) (unat b); Some (ucast u, src) } }"

lemma dbcs_char_shorter [termination_simp]: "dbcs_char t b src = Some (u, rest) \<Longrightarrow> length rest < Suc (length src)"
  by (auto simp: dbcs_char_def bind_eq_Some_conv less_Suc_eq_le split: if_splits)

function check_dbcs_loop :: "dbcs_table \<Rightarrow> wchar \<Rightarrow> u16 \<Rightarrow> bytes \<Rightarrow> nat option" where
  "check_dbcs_loop t defu defc [] = Some 0"
| "check_dbcs_loop t defu defc (b # src) =
     do { off \<leftarrow> rd (dcp2uni_leadbytes t) (unat b);
          if off \<noteq> 0 then
            (case src of [] \<Rightarrow> Some 1
             | b' # src' \<Rightarrow>
               do { u \<leftarrow> rd (dcp2uni t) (unat off * 256 + unat b');
                    if ucast u = defu \<and> push_bit 8 (ucast b) OR ucast b' \<noteq> defc then Some (length (b # src))
                    else check_dbcs_loop t defu defc src' })
          else
            do { u \<leftarrow> cp2uni_char (dcp2uni t) b;
                 if (u = defu \<and> ucast b \<noteq> defc) \<or> is_private_use_area_char u then Some (length (b # src))
                 else check_dbcs_loop t defu defc src } }"
  by pat_completeness auto
termination
  by (relation "measure (\<lambda>(t, u, c, src). length src)") auto

definition check_invalid_chars_dbcs :: "dbcs_table \<Rightarrow> bytes \<Rightarrow> nat option" where
  "check_invalid_chars_dbcs t src =
     do { let defu = def_unicode_char (dinfo t);
          defc \<leftarrow> uni2cp (duni2cp_low t) (duni2cp_high t) defu;
          check_dbcs_loop t defu defc src }"

function mbstowcs_dbcs_loop :: "dbcs_table \<Rightarrow> bytes \<Rightarrow> wchar list \<Rightarrow> nat \<Rightarrow> (int \<times> wchar list) option" where
  "mbstowcs_dbcs_loop t [] dst p = Some (int p, dst)"
| "mbstowcs_dbcs_loop t (b # src) dst p =
     (if p = length dst then Some (-1, dst)
      else (case dbcs_char t b src of None \<Rightarrow> None
            | Some (u, src') \<Rightarrow> do { dst \<leftarrow> wr dst p u; mbstowcs_dbcs_loop t src' dst (p + 1) }))"
  by pat_completeness auto
termination
  by (relation "measure (\<lambda>(t, src, dst, p). length src)") (auto dest: dbcs_char_shorter)

definition mbstowcs_dbcs :: "dbcs_table \<Rightarrow> bytes \<Rightarrow> wchar list \<Rightarrow> (int \<times> wchar list) option" where
  "mbstowcs_dbcs t src dst =
     (if dst = [] then do { len \<leftarrow> get_length_mb_dbcs (dcp2uni_leadbytes t) src 0; Some (int len, []) }
      else mbstowcs_dbcs_loop t src dst 0)"

function dbcs_decomposed_len :: "nat \<Rightarrow> decomp_tables \<Rightarrow> dbcs_table \<Rightarrow> bytes \<Rightarrow> nat \<Rightarrow> nat option" where
  "dbcs_decomposed_len n D t [] len = Some len"
| "dbcs_decomposed_len n D t (b # src) len =
     (case dbcs_char t b src of None \<Rightarrow> None
      | Some (u, src') \<Rightarrow>
        do { (res, d) \<leftarrow> wine_decompose n D 0 u (replicate 4 0) 0 4;
             dbcs_decomposed_len n D t src' (len + res) })"
  by pat_completeness auto
termination
  by (relation "measure (\<lambda>(n, D, t, src, len). length src)") (auto dest: dbcs_char_shorter)

function dbcs_decompose_loop :: "nat \<Rightarrow> decomp_tables \<Rightarrow> dbcs_table \<Rightarrow> bytes \<Rightarrow> wchar list \<Rightarrow> nat \<Rightarrow>
    (int \<times> wchar list) option" where
  "dbcs_decompose_loop n D t [] dst p = Some (int p, dst)"
| "dbcs_decompose_loop n D t (b # src) dst p =
     (if p = length dst then Some (-1, dst)
      else (case dbcs_char t b src of None \<Rightarrow> None
            | Some (u, src') \<Rightarrow>
              do { (res, dst) \<leftarrow> wine_decompose n D 0 u dst p (length dst - p);
                   if res = 0 then Some (-1, dst)
                   else dbcs_decompose_loop n D t src' dst (p + res) }))"
  by pat_completeness auto
termination
  by (relation "measure (\<lambda>(n, D, t, src, dst, p). length src)") (auto dest: dbcs_char_shorter)

definition mbstowcs_dbcs_decompose :: "nat \<Rightarrow> decomp_tables \<Rightarrow> dbcs_table \<Rightarrow> bytes \<Rightarrow> wchar list \<Rightarrow>
    (int \<times> wchar list) option" where
  "mbstowcs_dbcs_decompose n D t src dst =
     (if dst = [] then do { len \<leftarrow> dbcs_decomposed_len n D t src 0; Some (int len, []) }
      else dbcs_decompose_loop n D t src dst 0)"

definition wine_cp_mbstowcs :: "nat \<Rightarrow> decomp_tables \<Rightarrow> cptable \<Rightarrow> u32 \<Rightarrow> bytes \<Rightarrow> wchar list \<Rightarrow>
    (int \<times> wchar list) option" where
  "wine_cp_mbstowcs n D t flags src dst =
     (if char_size (cpt_info t) = 1 then
        do { s \<leftarrow> cpt_sbcs t;
             bad \<leftarrow> (if has_flag flags MB_ERR_INVALID_CHARS then check_invalid_chars_sbcs s flags src else Some 0);
             if bad \<noteq> 0 then Some (-2, dst)
             else if \<not> has_flag flags MB_COMPOSITE then
               (if dst = [] then Some (int (length src), dst) else mbstowcs_sbcs s flags src dst)
             else mbstowcs_sbcs_decompose n D s flags src dst }
      else
        do { d \<leftarrow> cpt_dbcs t;
             bad \<leftarrow> (if has_flag flags MB_ERR_INVALID_CHARS then check_invalid_chars_dbcs d src else Some 0);
             if bad \<noteq> 0 then Some (-2, dst)
             else if \<not> has_flag flags MB_COMPOSITE then mbstowcs_dbcs d src dst
             else mbstowcs_dbcs_decompose n D d src dst })"

section \<open>The symbol code page (cpsymbol.c)\<close>

definition cpsymbol_char :: "u8 \<Rightarrow> wchar option" where
  "cpsymbol_char c = Some (if c < 0x20 then ucast c else ucast c + 0xf000)"

text \<open>The two loops, from cell \<open>i\<close> up to \<open>len\<close>; the comparisons of \<^verbatim>\<open>WCHAR\<close> are signed.\<close>

function cpsymbol_mb_loop :: "bytes \<Rightarrow> nat \<Rightarrow> nat \<Rightarrow> wchar list \<Rightarrow> wchar list option" where
  "cpsymbol_mb_loop src len i dst =
     (if i < len then
        do { c \<leftarrow> rd src i; w \<leftarrow> cpsymbol_char c; dst \<leftarrow> wr dst i w; cpsymbol_mb_loop src len (i + 1) dst }
      else Some dst)"
  by pat_completeness auto
termination
  by (relation "measure (\<lambda>(src, len, i, dst). len - i)") auto

definition wine_cpsymbol_mbstowcs :: "bytes \<Rightarrow> wchar list \<Rightarrow> (int \<times> wchar list) option" where
  "wine_cpsymbol_mbstowcs src dst =
     (if dst = [] then Some (int (length src), dst)
      else let len = (if length dst > length src then length src else length dst) in
        do { dst \<leftarrow> cpsymbol_mb_loop src len 0 dst;
             Some (if length src > len then -1 else int len, dst) })"

definition cpsymbol_byte :: "wchar \<Rightarrow> u8 option" where
  "cpsymbol_byte w =
     (if sint w < 0x20 then Some (ucast w)
      else if 0xf020 \<le> sint w \<and> sint w < 0xf100 then Some (ucast (w - 0xf000))
      else None)"

function cpsymbol_wc_loop :: "wchar list \<Rightarrow> nat \<Rightarrow> nat \<Rightarrow> bytes \<Rightarrow> (int \<times> bytes) option" where
  "cpsymbol_wc_loop src len i dst =
     (if i < len then
        do { w \<leftarrow> rd src i;
             (case cpsymbol_byte w of
                None \<Rightarrow> Some (-2, dst)
              | Some b \<Rightarrow> do { dst \<leftarrow> wr dst i b; cpsymbol_wc_loop src len (i + 1) dst }) }
      else Some (if length src > len then -1 else int len, dst))"
  by pat_completeness auto
termination
  by (relation "measure (\<lambda>(src, len, i, dst). len - i)") auto

definition wine_cpsymbol_wcstombs :: "wchar list \<Rightarrow> bytes \<Rightarrow> (int \<times> bytes) option" where
  "wine_cpsymbol_wcstombs src dst =
     (if dst = [] then Some (int (length src), dst)
      else cpsymbol_wc_loop src (if length dst > length src then length src else length dst) 0 dst)"

declare cpsymbol_mb_loop.simps [simp del] cpsymbol_wc_loop.simps [simp del]

section \<open>The output of a conversion\<close>

text \<open>The characters of a source, and the check for invalid ones that \<^const>\<open>MB_ERR_INVALID_CHARS\<close> asks for.\<close>

function dbcs_chars :: "dbcs_table \<Rightarrow> bytes \<Rightarrow> wchar list option" where
  "dbcs_chars t [] = Some []"
| "dbcs_chars t (b # src) =
     (case dbcs_char t b src of None \<Rightarrow> None
      | Some (u, src') \<Rightarrow> do { us \<leftarrow> dbcs_chars t src'; Some (u # us) })"
  by pat_completeness auto
termination
  by (relation "measure (\<lambda>(t, src). length src)") (auto dest: dbcs_char_shorter)

text \<open>No decomposition is larger than 4 characters: the buffer of the length query assumes it.\<close>

primrec decompose_all :: "nat \<Rightarrow> decomp_tables \<Rightarrow> wchar list \<Rightarrow> wchar list option" where
  "decompose_all n D [] = Some []"
| "decompose_all n D (u # us) =
     do { ds \<leftarrow> decomposition n D 0 u; ys \<leftarrow> decompose_all n D us;
          if length ds \<le> 4 then Some (ds @ ys) else None }"

definition mb_chars :: "cptable \<Rightarrow> u32 \<Rightarrow> bytes \<Rightarrow> wchar list option" where
  "mb_chars t flags src = (case t of SBCS s \<Rightarrow> conv (cp2uni_char (sbcs_cp2uni s flags)) src
                                   | DBCS d \<Rightarrow> dbcs_chars d src)"

definition mb_valid :: "cptable \<Rightarrow> u32 \<Rightarrow> bytes \<Rightarrow> bool" where
  "mb_valid t flags src \<longleftrightarrow> has_flag flags MB_ERR_INVALID_CHARS \<longrightarrow>
     (case t of SBCS s \<Rightarrow> check_invalid_chars_sbcs s flags src | DBCS d \<Rightarrow> check_invalid_chars_dbcs d src) = Some 0"

definition mb_out :: "nat \<Rightarrow> decomp_tables \<Rightarrow> cptable \<Rightarrow> u32 \<Rightarrow> bytes \<Rightarrow> wchar list option" where
  "mb_out n D t flags src =
     (if cpt_wf t \<and> mb_valid t flags src then
        do { us \<leftarrow> mb_chars t flags src;
             if has_flag flags MB_COMPOSITE then decompose_all n D us else Some us }
      else None)"

section \<open>The conversions meet the contract\<close>

lemma mbstowcs_sbcs_spec:
  assumes "conv (cp2uni_char (sbcs_cp2uni t flags)) src = Some ys"
  shows "length ys \<le> length dst \<Longrightarrow> mbstowcs_sbcs t flags src dst = Some (int (length ys), splice dst 0 ys)"
    and "length dst < length ys \<Longrightarrow> mbstowcs_sbcs t flags src dst = Some (-1, take (length dst) ys)"
  using unrolled_copy_spec [OF assms, of "length src" 0 dst] unrolled_copy_spec [OF assms, of "length dst" 0 dst]
    conv_length [OF assms]
  by (simp_all add: mbstowcs_sbcs_def splice_start)

lemma get_length_mb_dbcs_spec:
  "dbcs_chars t src = Some us \<Longrightarrow> get_length_mb_dbcs (dcp2uni_leadbytes t) src len = Some (len + length us)"
proof (induction t src arbitrary: us len rule: dbcs_chars.induct)
  case (2 t b src)
  then obtain u src' vs where c: "dbcs_char t b src = Some (u, src')" and v: "dbcs_chars t src' = Some vs" and us: "us = u # vs"
    by (auto split: option.splits prod.splits simp: bind_eq_Some_conv)
  show ?case
    using c 2(1) [OF c refl v] us
    by (auto simp: dbcs_char_def bind_eq_Some_conv split: if_splits)
qed simp

lemma mbstowcs_dbcs_loop_spec:
  "dbcs_chars t src = Some us \<Longrightarrow> p \<le> length dst \<Longrightarrow>
    (if p + length us \<le> length dst then mbstowcs_dbcs_loop t src dst p = Some (int (p + length us), splice dst p us)
     else \<exists>b. mbstowcs_dbcs_loop t src dst p = Some (-1, b) \<and> length b = length dst)"
proof (induction t src arbitrary: us dst p rule: dbcs_chars.induct)
  case (2 t b src)
  then obtain u src' vs where c: "dbcs_char t b src = Some (u, src')" and v: "dbcs_chars t src' = Some vs" and us: "us = u # vs"
    by (auto split: option.splits prod.splits simp: bind_eq_Some_conv)
  show ?case
  proof (cases "p = length dst")
    case False
    then have p: "p < length dst" using 2 by simp
    then show ?thesis
      using 2(1) [OF c refl v, of "Suc p" "splice dst p [u]"] us c by (auto split: if_splits)
  qed (simp add: us)
qed simp

lemma decompose_all_length: "decompose_all n D us = Some ys \<Longrightarrow> length us \<le> length ys"
proof (induction us arbitrary: ys)
  case (Cons u us)
  then obtain ds zs where "decomposition n D 0 u = Some ds" "decompose_all n D us = Some zs" "ys = ds @ zs"
    by (auto simp: bind_eq_Some_conv split: if_splits)
  then show ?case using Cons.IH [of zs] decomposition_nonempty [of n D 0 u ds] by (cases ds) auto
qed simp

lemma wine_decompose_query:
  assumes "decomposition n D 0 u = Some ds" "length ds \<le> 4"
  shows "\<exists>d. wine_decompose n D 0 u (replicate 4 0) 0 4 = Some (length ds, d)"
  using decompose_ok [of n D 0, unfolded decompose_ok_def, rule_format, OF assms(1), of 4 0 "replicate 4 0"] assms(2)
  by auto

lemma wine_decompose_rest:
  assumes "decomposition n D 0 u = Some ds" "p < length dst" "length dst < 2 ^ 31"
  shows "ds \<noteq> []"
    and "p + length ds \<le> length dst \<Longrightarrow>
      wine_decompose n D 0 u dst p (length dst - p) = Some (length ds, splice dst p ds)"
    and "length dst < p + length ds \<Longrightarrow>
      \<exists>b. wine_decompose n D 0 u dst p (length dst - p) = Some (0, b) \<and> length b = length dst"
proof -
  have l: "1 \<le> length dst - p" "length dst - p < 2 ^ 32" "p + (length dst - p) \<le> length dst"
    using assms by auto
  note k = decompose_ok [of n D 0, unfolded decompose_ok_def, rule_format, OF assms(1) l]
  show "ds \<noteq> []" using k by blast
  show "p + length ds \<le> length dst \<Longrightarrow>
      wine_decompose n D 0 u dst p (length dst - p) = Some (length ds, splice dst p ds)"
    using k by simp
  show "length dst < p + length ds \<Longrightarrow>
      \<exists>b. wine_decompose n D 0 u dst p (length dst - p) = Some (0, b) \<and> length b = length dst"
    using k l by (auto simp: same_outside_def)
qed

lemma sbcs_decomposed_len_spec:
  "conv (cp2uni_char tab) src = Some us \<Longrightarrow> decompose_all n D us = Some ys \<Longrightarrow>
    sbcs_decomposed_len n D tab src len = Some (len + length ys)"
proof (induction src arbitrary: us ys len)
  case (Cons b src)
  then obtain u vs ds zs where u: "cp2uni_char tab b = Some u" "conv (cp2uni_char tab) src = Some vs" "us = u # vs"
    and d: "decomposition n D 0 u = Some ds" "decompose_all n D vs = Some zs" "ys = ds @ zs" "length ds \<le> 4"
    by (auto simp: bind_eq_Some_conv split: if_splits)
  obtain e where "wine_decompose n D 0 u (replicate 4 0) 0 4 = Some (length ds, e)"
    using wine_decompose_query [OF d(1,4)] by blast
  then show ?case using Cons.IH [OF u(2) d(2), of "len + length ds"] u d by simp
qed simp

lemma sbcs_decompose_loop_spec:
  "conv (cp2uni_char tab) src = Some us \<Longrightarrow> decompose_all n D us = Some ys \<Longrightarrow> p \<le> length dst \<Longrightarrow> length dst < 2 ^ 31 \<Longrightarrow>
    (if p + length ys \<le> length dst then sbcs_decompose_loop n D tab src dst p = Some (int (p + length ys), splice dst p ys)
     else \<exists>b. sbcs_decompose_loop n D tab src dst p = Some (-1, b) \<and> length b = length dst)"
proof (induction src arbitrary: us ys dst p)
  case (Cons b src)
  then obtain u vs ds zs where u: "cp2uni_char tab b = Some u" "conv (cp2uni_char tab) src = Some vs" "us = u # vs"
    and d: "decomposition n D 0 u = Some ds" "decompose_all n D vs = Some zs" "ys = ds @ zs" "length ds \<le> 4"
    by (auto simp: bind_eq_Some_conv split: if_splits)
  show ?case
  proof (cases "p = length dst")
    case True
    then show ?thesis using decomposition_nonempty [OF d(1)] d(3) by simp
  next
    case False
    then have p: "p < length dst" using Cons.prems by simp
    note w = wine_decompose_rest [OF d(1) p Cons.prems(4)]
    show ?thesis
    proof (cases "p + length ds \<le> length dst")
      case True
      then show ?thesis
        using Cons.IH [OF u(2) d(2), of "p + length ds" "splice dst p ds"] w(1) w(2) [OF True] u d p Cons.prems(4)
        by (auto simp: add.assoc)
    next
      case nf: False
      then show ?thesis using w(3) u d p by auto
    qed
  qed
qed simp

lemma dbcs_decomposed_len_spec:
  "dbcs_chars t src = Some us \<Longrightarrow> decompose_all n D us = Some ys \<Longrightarrow>
    dbcs_decomposed_len n D t src len = Some (len + length ys)"
proof (induction t src arbitrary: us ys len rule: dbcs_chars.induct)
  case (2 t b src)
  then obtain u src' vs where c: "dbcs_char t b src = Some (u, src')" and v: "dbcs_chars t src' = Some vs" and us: "us = u # vs"
    by (auto split: option.splits prod.splits simp: bind_eq_Some_conv)
  with 2(3) obtain ds zs where d: "decomposition n D 0 u = Some ds" "decompose_all n D vs = Some zs" "ys = ds @ zs" "length ds \<le> 4"
    by (auto simp: bind_eq_Some_conv split: if_splits)
  obtain e where "wine_decompose n D 0 u (replicate 4 0) 0 4 = Some (length ds, e)"
    using wine_decompose_query [OF d(1,4)] by blast
  then show ?case using 2(1) [OF c refl v d(2), of "len + length ds"] c d by simp
qed simp

lemma dbcs_decompose_loop_spec:
  "dbcs_chars t src = Some us \<Longrightarrow> decompose_all n D us = Some ys \<Longrightarrow> p \<le> length dst \<Longrightarrow> length dst < 2 ^ 31 \<Longrightarrow>
    (if p + length ys \<le> length dst then dbcs_decompose_loop n D t src dst p = Some (int (p + length ys), splice dst p ys)
     else \<exists>b. dbcs_decompose_loop n D t src dst p = Some (-1, b) \<and> length b = length dst)"
proof (induction t src arbitrary: us ys dst p rule: dbcs_chars.induct)
  case (2 t b src)
  then obtain u src' vs where c: "dbcs_char t b src = Some (u, src')" and v: "dbcs_chars t src' = Some vs" and us: "us = u # vs"
    by (auto split: option.splits prod.splits simp: bind_eq_Some_conv)
  with 2(3) obtain ds zs where d: "decomposition n D 0 u = Some ds" "decompose_all n D vs = Some zs" "ys = ds @ zs" "length ds \<le> 4"
    by (auto simp: bind_eq_Some_conv split: if_splits)
  show ?case
  proof (cases "p = length dst")
    case True
    then show ?thesis using decomposition_nonempty [OF d(1)] d(3) by simp
  next
    case False
    then have p: "p < length dst" using 2 by simp
    note w = wine_decompose_rest [OF d(1) p 2(5)]
    show ?thesis
    proof (cases "p + length ds \<le> length dst")
      case True
      then show ?thesis
        using 2(1) [OF c refl v d(2), of "p + length ds" "splice dst p ds"] w(1) w(2) [OF True] c d p 2(5)
        by (auto simp: add.assoc)
    next
      case nf: False
      then show ?thesis using w(3) c d p by auto
    qed
  qed
qed simp

lemma cpsymbol_mb_loop_spec:
  "len \<le> length src \<Longrightarrow> len \<le> length dst \<Longrightarrow> i \<le> len \<Longrightarrow>
    cpsymbol_mb_loop src len i dst = Some (splice dst i (take (len - i) (drop i (map (the \<circ> cpsymbol_char) src))))"
proof (induction "len - i" arbitrary: i dst)
  case 0
  then show ?case by (simp add: cpsymbol_mb_loop.simps)
next
  case (Suc d)
  then have i: "i < len" "i < length src" by auto
  obtain w where c: "cpsymbol_char (src ! i) = Some w" by (simp add: cpsymbol_char_def)
  then have e: "take (len - i) (drop i (map (the \<circ> cpsymbol_char) src)) =
      w # take (len - Suc i) (drop (Suc i) (map (the \<circ> cpsymbol_char) src))"
    using i by (simp add: drop_nth_Cons take_Cons')
  show ?case
    using Suc i c by (subst cpsymbol_mb_loop.simps) (simp add: e)
qed

lemma cpsymbol_wc_loop_spec:
  assumes "conv cpsymbol_byte src = Some ys" "len \<le> length src"
  shows "len \<le> length dst \<Longrightarrow> i \<le> len \<Longrightarrow> cpsymbol_wc_loop src len i dst =
    Some (if length src > len then -1 else int len, splice dst i (take (len - i) (drop i ys)))"
proof (induction "len - i" arbitrary: i dst)
  case 0
  then show ?case by (simp add: cpsymbol_wc_loop.simps)
next
  case (Suc d)
  then have i: "i < len" "i < length src" "i < length ys" using assms conv_length [OF assms(1)] by auto
  have e: "take (len - i) (drop i ys) = ys ! i # take (len - Suc i) (drop (Suc i) ys)"
    using i by (simp add: drop_nth_Cons [OF i(3)] take_Cons')
  show ?case
    using Suc i conv_nth [OF assms(1) i(2)] by (subst cpsymbol_wc_loop.simps) (simp add: e)
qed

lemma cpsymbol_chars: "conv cpsymbol_char src = Some (map (the \<circ> cpsymbol_char) src)"
  unfolding comp_def by (rule conv_total) (simp add: cpsymbol_char_def)

interpretation symbol_mb: length_query wine_cpsymbol_mbstowcs "conv cpsymbol_char"
proof
  fix s ys and buf :: "wchar list"
  assume o: "conv cpsymbol_char s = Some ys"
  note l = conv_length [OF o]
  show "wine_cpsymbol_mbstowcs s [] = Some (int (length ys), [])"
    by (simp add: wine_cpsymbol_mbstowcs_def l)
  show "wine_cpsymbol_mbstowcs s buf = Some (int (length ys), splice buf 0 ys)"
    if "buf \<noteq> []" "length ys \<le> length buf"
    using that o l cpsymbol_mb_loop_spec [of "length s" s buf 0]
    by (auto simp: wine_cpsymbol_mbstowcs_def cpsymbol_chars Let_def)
  show "\<exists>buf'. wine_cpsymbol_mbstowcs s buf = Some (-1, buf') \<and> length buf' = length buf"
    if "buf \<noteq> []" "length buf < length ys"
    using that o l cpsymbol_mb_loop_spec [of "length buf" s buf 0]
    by (auto simp: wine_cpsymbol_mbstowcs_def cpsymbol_chars Let_def)
qed

interpretation symbol_wc: length_query wine_cpsymbol_wcstombs "conv cpsymbol_byte"
proof
  fix s ys and buf :: bytes
  assume o: "conv cpsymbol_byte s = Some ys"
  note l = conv_length [OF o]
  show "wine_cpsymbol_wcstombs s [] = Some (int (length ys), [])"
    by (simp add: wine_cpsymbol_wcstombs_def l)
  show "wine_cpsymbol_wcstombs s buf = Some (int (length ys), splice buf 0 ys)"
    if "buf \<noteq> []" "length ys \<le> length buf"
    using that l cpsymbol_wc_loop_spec [OF o, of "length s" buf 0]
    by (auto simp: wine_cpsymbol_wcstombs_def)
  show "\<exists>buf'. wine_cpsymbol_wcstombs s buf = Some (-1, buf') \<and> length buf' = length buf"
    if "buf \<noteq> []" "length buf < length ys"
    using that l cpsymbol_wc_loop_spec [OF o, of "length buf" buf 0]
    by (auto simp: wine_cpsymbol_wcstombs_def)
qed

lemma cpsymbol_byte_char: "cpsymbol_byte (the (cpsymbol_char c)) = Some c"
proof -
  have u: "ucast (ucast c :: u32) = c" by (simp add: word_unat_eq_iff unat_ucast_mod)
  show ?thesis
  proof (cases "c < 0x20")
    case True
    then have "sint (ucast c :: u32) < 0x20"
      unfolding sint_u32 by (simp add: word_less_def)
    then show ?thesis using True u by (simp add: cpsymbol_char_def cpsymbol_byte_def)
  next
    case False
    have n: "unat (ucast c + 0xf000 :: u32) = unat c + 0xf000"
      by (subst unat_add_lem [THEN iffD1]) (simp_all add: less_trans [OF unat_u8_less])
    have "sint (ucast c + 0xf000 :: u32) = int (unat c) + 0xf000"
      unfolding sint_u32 n by (simp add: less_trans [OF unat_u8_less])
    then show ?thesis
      using False u unsigned_less [of c, where 'a = int]
      by (simp add: cpsymbol_char_def cpsymbol_byte_def word_less_def)
  qed
qed

lemma mb_out_query:
  assumes "mb_out n D t flags src = Some ys"
  shows "wine_cp_mbstowcs n D t flags src [] = Some (int (length ys), [])"
proof -
  from assms obtain us where wf: "cpt_wf t" and va: "mb_valid t flags src" and us: "mb_chars t flags src = Some us"
    and ys: "(if has_flag flags MB_COMPOSITE then decompose_all n D us else Some us) = Some ys"
    by (auto simp: mb_out_def bind_eq_Some_conv split: if_splits)
  show ?thesis
  proof (cases t)
    case (SBCS s)
    then show ?thesis
      using wf va us ys sbcs_decomposed_len_spec [of "sbcs_cp2uni s flags" src us n D ys 0] conv_length [of _ src us]
      by (auto simp: wine_cp_mbstowcs_def cpt_wf_def mb_valid_def mb_chars_def mbstowcs_sbcs_decompose_def split: if_splits)
  next
    case (DBCS d)
    then show ?thesis
      using wf va us ys dbcs_decomposed_len_spec [of d src us n D ys 0] get_length_mb_dbcs_spec [of d src us 0]
      by (auto simp: wine_cp_mbstowcs_def cpt_wf_def mb_valid_def mb_chars_def mbstowcs_dbcs_decompose_def
          mbstowcs_dbcs_def split: if_splits)
  qed
qed

lemma mb_out_convert:
  assumes "mb_out n D t flags src = Some ys" and b: "buf \<noteq> []" "length buf < 2 ^ 31"
  shows "if length ys \<le> length buf then wine_cp_mbstowcs n D t flags src buf = Some (int (length ys), splice buf 0 ys)
    else \<exists>buf'. wine_cp_mbstowcs n D t flags src buf = Some (-1, buf') \<and> length buf' = length buf"
proof -
  from assms obtain us where wf: "cpt_wf t" and va: "mb_valid t flags src" and us: "mb_chars t flags src = Some us"
    and ys: "(if has_flag flags MB_COMPOSITE then decompose_all n D us else Some us) = Some ys"
    by (auto simp: mb_out_def bind_eq_Some_conv split: if_splits)
  show ?thesis
  proof (cases t)
    case (SBCS s)
    then have c: "conv (cp2uni_char (sbcs_cp2uni s flags)) src = Some us" using us by (simp add: mb_chars_def)
    show ?thesis
    proof (cases "has_flag flags MB_COMPOSITE")
      case True
      then show ?thesis
        using SBCS wf va ys b sbcs_decompose_loop_spec [OF c, of n D ys 0 buf]
        by (auto simp: wine_cp_mbstowcs_def cpt_wf_def mb_valid_def mbstowcs_sbcs_decompose_def split: if_splits)
    next
      case False
      then show ?thesis
        using SBCS wf va ys b mbstowcs_sbcs_spec [OF c, of buf]
        by (auto simp: wine_cp_mbstowcs_def cpt_wf_def mb_valid_def split: if_splits)
    qed
  next
    case (DBCS d)
    then have c: "dbcs_chars d src = Some us" using us by (simp add: mb_chars_def)
    show ?thesis
    proof (cases "has_flag flags MB_COMPOSITE")
      case True
      then show ?thesis
        using DBCS wf va ys b dbcs_decompose_loop_spec [OF c, of n D ys 0 buf]
        by (auto simp: wine_cp_mbstowcs_def cpt_wf_def mb_valid_def mbstowcs_dbcs_decompose_def split: if_splits)
    next
      case False
      then show ?thesis
        using DBCS wf va ys b mbstowcs_dbcs_loop_spec [OF c, of 0 buf]
        by (auto simp: wine_cp_mbstowcs_def cpt_wf_def mb_valid_def mbstowcs_dbcs_def split: if_splits)
    qed
  qed
qed

interpretation mb: length_query
  "\<lambda>(n, D, t, flags, src). wine_cp_mbstowcs n D t flags src" "\<lambda>(n, D, t, flags, src). mb_out n D t flags src"
  by unfold_locales (auto dest: mb_out_query mb_out_convert split: if_splits)

section \<open>Properties\<close>

text \<open>Latin-1, with tables in the format of the generated ones, as a concrete code page.\<close>

definition latin1 :: cptable where
  "latin1 = SBCS
     \<lparr>sinfo = \<lparr>codepage = 28591, char_size = 1, def_char = 0x3f, def_unicode_char = 0x3f, cp_name = ''Latin 1''\<rparr>,
      scp2uni = map of_nat [0..<256], scp2uni_glyphs = map of_nat [0..<256],
      suni2cp_low = map of_nat [0..<256] @ replicate 256 0x3f, suni2cp_high = 0 # replicate 255 256\<rparr>"

text \<open>
  C16. The two calls of a client of \<^verbatim>\<open>MultiByteToWideChar\<close>, first for the length and then with a buffer of
  that length, give the whole conversion of the source, for single-byte and double-byte code pages, with
  and without decomposition.
\<close>

theorem mbstowcs_two_calls:
  assumes "mb_out n D t flags src = Some ys" and "length ys < 2 ^ 31"
  shows "\<exists>k e. wine_cp_mbstowcs n D t flags src [] = Some (k, e) \<and>
    wine_cp_mbstowcs n D t flags src (replicate (nat k) 0) = Some (k, ys)"
  using mb.two_calls [of "(n, D, t, flags, src)" ys 0] assms by simp

theorem mbstowcs_two_calls_witness:
  "\<exists>k e. wine_cp_mbstowcs 1 \<lparr>decomp_table = [], compatmap_table = []\<rparr> latin1 0 [0x41, 0xe9] [] = Some (k, e) \<and>
    wine_cp_mbstowcs 1 \<lparr>decomp_table = [], compatmap_table = []\<rparr> latin1 0 [0x41, 0xe9] (replicate (nat k) 0) =
      Some (k, [0x41, 0xe9])"
proof -
  have "mb_out 1 \<lparr>decomp_table = [], compatmap_table = []\<rparr> latin1 0 [0x41, 0xe9] = Some [0x41, 0xe9]" by code_simp
  then show ?thesis by (rule mbstowcs_two_calls) simp
qed

text \<open>
  The unrolled copy of \<^verbatim>\<open>mbstowcs_sbcs\<close>, 16 cells at a time with a fall-through switch, is the
  table lookup of every byte in order; a buffer that is too small is filled and the result is -1.
\<close>

theorem mbstowcs_sbcs_is_map:
  assumes "sbcs_wf t"
  shows "let ys = map (\<lambda>b. ucast (sbcs_cp2uni t flags ! unat b)) src in
    mbstowcs_sbcs t flags src dst =
      (if length src \<le> length dst then Some (int (length src), ys @ drop (length src) dst)
       else Some (-1, take (length dst) ys))"
proof -
  have "conv (cp2uni_char (sbcs_cp2uni t flags)) src = Some (map (\<lambda>b. ucast (sbcs_cp2uni t flags ! unat b)) src)"
    using assms by (intro conv_total) (simp add: cp2uni_char_def sbcs_cp2uni_def sbcs_wf_def)
  from mbstowcs_sbcs_spec [OF this] show ?thesis by (simp add: splice_start Let_def)
qed

theorem mbstowcs_sbcs_is_map_witness:
  "\<exists>t. sbcs_wf t \<and> mbstowcs_sbcs t 0 [0x41, 0xe9] [7, 7, 7] = Some (2, [0x41, 0xe9, 7])"
proof -
  have w: "sbcs_wf (the (cpt_sbcs latin1))" by code_simp
  have "map (\<lambda>b. ucast (sbcs_cp2uni (the (cpt_sbcs latin1)) 0 ! unat b)) [0x41, 0xe9 :: u8] = [0x41, 0xe9 :: wchar]"
    by code_simp
  then show ?thesis
    using w mbstowcs_sbcs_is_map [OF w, of 0 "[0x41, 0xe9]" "[7, 7, 7]"] by (auto simp: Let_def)
qed

text \<open>
  A byte string converted to wide characters by the symbol code page and converted back is the same
  byte string.
\<close>

theorem cpsymbol_roundtrip:
  "\<exists>ws. wine_cpsymbol_mbstowcs bs (replicate (length bs) 0) = Some (int (length bs), ws) \<and>
    wine_cpsymbol_wcstombs ws (replicate (length bs) 0) = Some (int (length bs), bs)"
proof -
  let ?ws = "map (the \<circ> cpsymbol_char) bs"
  have rev: "conv cpsymbol_byte ?ws = Some bs"
    by (induction bs) (simp_all add: cpsymbol_byte_char)
  have "wine_cpsymbol_mbstowcs bs (replicate (length bs) 0) = Some (int (length bs), ?ws)"
    using cpsymbol_mb_loop_spec [of "length bs" bs "replicate (length bs) 0" 0]
    by (auto simp: wine_cpsymbol_mbstowcs_def splice_start)
  moreover have "wine_cpsymbol_wcstombs ?ws (replicate (length bs) 0) = Some (int (length bs), bs)"
    using cpsymbol_wc_loop_spec [OF rev, of "length bs" "replicate (length bs) 0" 0]
    by (auto simp: wine_cpsymbol_wcstombs_def splice_start)
  ultimately show ?thesis by blast
qed

end
