(* ===== verification/WineWc.thy ===== *)
theory WineWc
  imports WineMb
begin

text \<open>
  The conversion of wide characters to a byte string: \<^verbatim>\<open>WinPort/wineguts/wctomb.c\<close>, with the composition
  of two characters (\<^verbatim>\<open>compose.c\<close>). The caller may pass a default character and a pointer
  to a flag that says whether it was used; the flag is the third component of the results.
\<close>

section \<open>Composition (compose.c)\<close>

text \<open>The generated table is an argument: pairs of a character and a value, in segments ordered by character.\<close>

function compose_search :: "u16 list \<Rightarrow> u16 \<Rightarrow> int \<Rightarrow> int \<Rightarrow> int option" where
  "compose_search ct chu low high =
     (if low \<le> high then
        do { let pos = (low + high) div 2;
             c \<leftarrow> rd_signed ct (2 * pos);
             if c < chu then compose_search ct chu (pos + 1) high
             else if c > chu then compose_search ct chu low (pos - 1)
             else Some pos }
      else Some (-1))"
  by pat_completeness auto
termination
  by (relation "measure (\<lambda>(ct, chu, low, high). nat (high - low + 1))") auto

declare compose_search.simps [simp del]

text \<open>The loop searches the second character first: \<open>idx\<close> counts 1, 0.\<close>

primrec compose_loop :: "u16 list \<Rightarrow> wchar list \<Rightarrow> nat \<Rightarrow> int \<Rightarrow> int \<Rightarrow> wchar option" where
  "compose_loop ct str 0 start count =
     do { pos \<leftarrow> compose_search ct (ucast (str ! 0)) start (count - 1);
          if pos = -1 then Some 0 else do { u \<leftarrow> rd_signed ct (2 * pos + 1); Some (ucast u) } }"
| "compose_loop ct str (Suc idx) start count =
     do { pos \<leftarrow> compose_search ct (ucast (str ! Suc idx)) start (count - 1);
          if pos = -1 then Some 0
          else do { s \<leftarrow> rd_signed ct (2 * pos + 1); c \<leftarrow> rd_signed ct (2 * pos + 3);
                    compose_loop ct str idx (uint s) (uint c) } }"

definition wine_compose :: "u16 list \<Rightarrow> wchar list \<Rightarrow> wchar option" where
  "wine_compose ct str = compose_loop ct str 1 0 70"

section \<open>Single-byte code pages\<close>

definition WC_COMPOSITECHECK :: u32 where "WC_COMPOSITECHECK = 0x200"
definition WC_DISCARDNS :: u32 where "WC_DISCARDNS = 0x10"
definition WC_DEFAULTCHAR :: u32 where "WC_DEFAULTCHAR = 0x40"
definition WC_NO_BEST_FIT_CHARS :: u32 where "WC_NO_BEST_FIT_CHARS = 0x400"

definition is_valid_sbcs_mapping :: "sbcs_table \<Rightarrow> u32 \<Rightarrow> wchar \<Rightarrow> u8 \<Rightarrow> bool option" where
  "is_valid_sbcs_mapping t flags wch ch =
     (if has_flag flags WC_NO_BEST_FIT_CHARS \<or> ch = ucast (def_char (sinfo t)) then
        do { u \<leftarrow> rd (scp2uni t) (unat ch); Some (ucast u = wch) }
      else Some True)"

definition sbcs_uni2cp :: "sbcs_table \<Rightarrow> wchar \<Rightarrow> u8 option" where
  "sbcs_uni2cp t w = uni2cp (suni2cp_low t) (suni2cp_high t) w"

text \<open>
  What the loops do with a pair of characters that has a composition: take its mapping, take the default
  character, drop the second character, or convert the two separately.
\<close>

datatype 'c pair_action = Mapping 'c | Default_Char | Drop_Second | Separate

definition failed_pair :: "u32 \<Rightarrow> 'c pair_action" where
  "failed_pair flags = (if has_flag flags WC_DEFAULTCHAR then Default_Char
     else if has_flag flags WC_DISCARDNS then Drop_Second else Separate)"

definition sbcs_pair :: "sbcs_table \<Rightarrow> u16 list \<Rightarrow> u32 \<Rightarrow> wchar \<Rightarrow> wchar list \<Rightarrow> u8 pair_action option" where
  "sbcs_pair t ct flags wch src =
     (if has_flag flags WC_COMPOSITECHECK \<and> src \<noteq> [] then
        do { composed \<leftarrow> wine_compose ct (wch # src);
             if composed = 0 then Some Separate
             else do { ch \<leftarrow> sbcs_uni2cp t composed;
                       ok \<leftarrow> is_valid_sbcs_mapping t flags composed ch;
                       Some (if ok then Mapping ch else failed_pair flags) } }
      else Some Separate)"

definition sbcs_used :: "sbcs_table \<Rightarrow> u32 \<Rightarrow> wchar \<Rightarrow> bool \<Rightarrow> bool option" where
  "sbcs_used t flags wch used =
     (if used then Some True
      else do { ch \<leftarrow> sbcs_uni2cp t wch; ok \<leftarrow> is_valid_sbcs_mapping t flags wch ch; Some (\<not> ok) })"

function get_length_sbcs_loop :: "sbcs_table \<Rightarrow> u16 list \<Rightarrow> u32 \<Rightarrow> wchar list \<Rightarrow> nat \<Rightarrow> bool \<Rightarrow> (nat \<times> bool) option" where
  "get_length_sbcs_loop t ct flags [] ret used = Some (ret, used)"
| "get_length_sbcs_loop t ct flags (wch # src) ret used =
     do { a \<leftarrow> sbcs_pair t ct flags wch src;
          (case a of
             Mapping ch \<Rightarrow> get_length_sbcs_loop t ct flags (tl src) (ret + 1) used
           | Default_Char \<Rightarrow> get_length_sbcs_loop t ct flags (tl src) (ret + 1) True
           | Drop_Second \<Rightarrow>
               do { u \<leftarrow> sbcs_used t flags wch used; get_length_sbcs_loop t ct flags (tl src) (ret + 1) u }
           | Separate \<Rightarrow>
               do { u \<leftarrow> sbcs_used t flags wch used; get_length_sbcs_loop t ct flags src (ret + 1) u }) }"
  by pat_completeness auto
termination
  by (relation "measure (\<lambda>(t, ct, flags, src, r, u). length src)") (auto simp: less_Suc_eq_le)

definition get_length_sbcs :: "sbcs_table \<Rightarrow> u16 list \<Rightarrow> u32 \<Rightarrow> wchar list \<Rightarrow> (nat \<times> bool) option" where
  "get_length_sbcs t ct flags src = get_length_sbcs_loop t ct flags src 0 False"

definition wcstombs_sbcs :: "sbcs_table \<Rightarrow> wchar list \<Rightarrow> bytes \<Rightarrow> (int \<times> bytes) option" where
  "wcstombs_sbcs t src dst =
     (let (srclen, ret) = (if length dst < length src then (length dst, -1)
                           else (length src, int (length src))) in
      do { dst \<leftarrow> unrolled_copy (sbcs_uni2cp t) src srclen dst 0; Some (ret, dst) })"

text \<open>
  One round of the slow conversion: the byte it writes, whether the default character was used so far,
  and the rest of the source.
\<close>

definition sbcs_single :: "sbcs_table \<Rightarrow> u32 \<Rightarrow> u8 \<Rightarrow> wchar \<Rightarrow> bool \<Rightarrow> (u8 \<times> bool) option" where
  "sbcs_single t flags def wch used =
     do { ch \<leftarrow> sbcs_uni2cp t wch; ok \<leftarrow> is_valid_sbcs_mapping t flags wch ch;
          Some (if ok then (ch, used) else (def, True)) }"

definition sbcs_slow_step :: "sbcs_table \<Rightarrow> u16 list \<Rightarrow> u32 \<Rightarrow> u8 \<Rightarrow> wchar \<Rightarrow> wchar list \<Rightarrow> bool \<Rightarrow>
    (u8 \<times> bool \<times> wchar list) option" where
  "sbcs_slow_step t ct flags def wch src used =
     do { a \<leftarrow> sbcs_pair t ct flags wch src;
          (case a of
             Mapping ch \<Rightarrow> Some (ch, used, tl src)
           | Default_Char \<Rightarrow> Some (def, True, tl src)
           | Drop_Second \<Rightarrow> do { (c, u) \<leftarrow> sbcs_single t flags def wch used; Some (c, u, tl src) }
           | Separate \<Rightarrow> do { (c, u) \<leftarrow> sbcs_single t flags def wch used; Some (c, u, src) }) }"

lemma sbcs_slow_step_shorter: "sbcs_slow_step t ct flags def wch src used = Some (c, u, rest) \<Longrightarrow> length rest \<le> length src"
  unfolding sbcs_slow_step_def bind_eq_Some_conv by (elim exE conjE, case_tac y) (auto simp: bind_eq_Some_conv)

function sbcs_slow_loop :: "sbcs_table \<Rightarrow> u16 list \<Rightarrow> u32 \<Rightarrow> u8 \<Rightarrow> wchar list \<Rightarrow> bytes \<Rightarrow> nat \<Rightarrow> bool \<Rightarrow>
    (int \<times> bytes \<times> bool) option" where
  "sbcs_slow_loop t ct flags def [] dst p used = Some (int p, dst, used)"
| "sbcs_slow_loop t ct flags def (wch # src) dst p used =
     (if p = length dst then Some (-1, dst, used)
      else (case sbcs_slow_step t ct flags def wch src used of None \<Rightarrow> None
            | Some (c, used', src') \<Rightarrow>
              do { dst \<leftarrow> wr dst p c; sbcs_slow_loop t ct flags def src' dst (p + 1) used' }))"
  by pat_completeness auto
termination
  by (relation "measure (\<lambda>(t, ct, flags, def, src, dst, p, u). length src)") (auto dest: sbcs_slow_step_shorter)

definition wcstombs_sbcs_slow :: "sbcs_table \<Rightarrow> u16 list \<Rightarrow> u32 \<Rightarrow> wchar list \<Rightarrow> bytes \<Rightarrow> bytes option \<Rightarrow>
    (int \<times> bytes \<times> bool) option" where
  "wcstombs_sbcs_slow t ct flags src dst defchar =
     do { def \<leftarrow> (case defchar of None \<Rightarrow> Some (ucast (def_char (sinfo t))) | Some d \<Rightarrow> rd d 0);
          sbcs_slow_loop t ct flags def src dst 0 False }"

section \<open>Double-byte code pages\<close>

definition is_valid_dbcs_mapping :: "dbcs_table \<Rightarrow> u32 \<Rightarrow> wchar \<Rightarrow> u16 \<Rightarrow> bool option" where
  "is_valid_dbcs_mapping t flags wch ch =
     (if has_flag flags WC_NO_BEST_FIT_CHARS \<or> ucast ch = def_char (dinfo t) then
        (if ch AND 0xff00 \<noteq> 0 then
           do { off \<leftarrow> rd (dcp2uni_leadbytes t) (unat (drop_bit 8 ch));
                u \<leftarrow> rd (dcp2uni t) (unat off * 256 + unat (ch AND 0xff));
                Some (ucast u = wch) }
         else do { u \<leftarrow> rd (dcp2uni t) (unat (ch AND 0xff)); Some (ucast u = wch) })
      else Some True)"

definition get_defchar_dbcs :: "dbcs_table \<Rightarrow> bytes option \<Rightarrow> wchar option" where
  "get_defchar_dbcs t defchar =
     (case defchar of None \<Rightarrow> Some (def_char (dinfo t))
      | Some d \<Rightarrow> do { d1 \<leftarrow> rd d 1; d0 \<leftarrow> rd d 0;
                      Some (if d1 = 0 then ucast d0 else push_bit 8 (ucast d0) OR ucast d1) })"

definition dbcs_uni2cp :: "dbcs_table \<Rightarrow> wchar \<Rightarrow> u16 option" where
  "dbcs_uni2cp t w = uni2cp (duni2cp_low t) (duni2cp_high t) w"

definition dbcs_pair :: "dbcs_table \<Rightarrow> u16 list \<Rightarrow> u32 \<Rightarrow> wchar \<Rightarrow> wchar list \<Rightarrow> u16 pair_action option" where
  "dbcs_pair t ct flags wch src =
     (if has_flag flags WC_COMPOSITECHECK \<and> src \<noteq> [] then
        do { composed \<leftarrow> wine_compose ct (wch # src);
             if composed = 0 then Some Separate
             else do { ch \<leftarrow> dbcs_uni2cp t composed;
                       ok \<leftarrow> is_valid_dbcs_mapping t flags composed ch;
                       Some (if ok then Mapping ch else failed_pair flags) } }
      else Some Separate)"

definition dbcs_single :: "dbcs_table \<Rightarrow> u32 \<Rightarrow> wchar \<Rightarrow> wchar \<Rightarrow> bool \<Rightarrow> (u16 \<times> bool) option" where
  "dbcs_single t flags def wch used =
     do { ch \<leftarrow> dbcs_uni2cp t wch; ok \<leftarrow> is_valid_dbcs_mapping t flags wch ch;
          Some (if ok then (ch, used) else (ucast def, True)) }"

text \<open>One round of the length query and of the slow conversion: they choose the value in the same way.\<close>

definition dbcs_slow_step :: "dbcs_table \<Rightarrow> u16 list \<Rightarrow> u32 \<Rightarrow> wchar \<Rightarrow> wchar \<Rightarrow> wchar list \<Rightarrow> bool \<Rightarrow>
    (u16 \<times> bool \<times> wchar list) option" where
  "dbcs_slow_step t ct flags def wch src used =
     do { a \<leftarrow> dbcs_pair t ct flags wch src;
          (case a of
             Mapping ch \<Rightarrow> Some (ch, used, tl src)
           | Default_Char \<Rightarrow> Some (ucast def, True, tl src)
           | Drop_Second \<Rightarrow> do { (c, u) \<leftarrow> dbcs_single t flags def wch used; Some (c, u, tl src) }
           | Separate \<Rightarrow> do { (c, u) \<leftarrow> dbcs_single t flags def wch used; Some (c, u, src) }) }"

lemma dbcs_slow_step_shorter: "dbcs_slow_step t ct flags def wch src used = Some (c, u, rest) \<Longrightarrow> length rest \<le> length src"
  unfolding dbcs_slow_step_def bind_eq_Some_conv by (elim exE conjE, case_tac y) (auto simp: bind_eq_Some_conv)

text \<open>The number of bytes of a value, and the bytes.\<close>

definition value_len :: "u16 \<Rightarrow> nat" where
  "value_len res = (if res AND 0xff00 \<noteq> 0 then 2 else 1)"

definition value_bytes :: "u16 \<Rightarrow> bytes" where
  "value_bytes res = (if res AND 0xff00 \<noteq> 0 then [ucast (drop_bit 8 res), ucast res] else [ucast res])"

primrec dbcs_fast_length :: "dbcs_table \<Rightarrow> wchar list \<Rightarrow> nat \<Rightarrow> nat option" where
  "dbcs_fast_length t [] len = Some len"
| "dbcs_fast_length t (wch # src) len = do { res \<leftarrow> dbcs_uni2cp t wch; dbcs_fast_length t src (len + value_len res) }"

function dbcs_slow_length :: "dbcs_table \<Rightarrow> u16 list \<Rightarrow> u32 \<Rightarrow> wchar \<Rightarrow> wchar list \<Rightarrow> nat \<Rightarrow> bool \<Rightarrow> (nat \<times> bool) option" where
  "dbcs_slow_length t ct flags def [] len used = Some (len, used)"
| "dbcs_slow_length t ct flags def (wch # src) len used =
     (case dbcs_slow_step t ct flags def wch src used of None \<Rightarrow> None
      | Some (res, used', src') \<Rightarrow> dbcs_slow_length t ct flags def src' (len + value_len res) used')"
  by pat_completeness auto
termination
  by (relation "measure (\<lambda>(t, ct, flags, def, src, l, u). length src)") (auto dest: dbcs_slow_step_shorter)

definition get_length_dbcs :: "dbcs_table \<Rightarrow> u16 list \<Rightarrow> u32 \<Rightarrow> wchar list \<Rightarrow> bytes option \<Rightarrow> bool \<Rightarrow> (nat \<times> bool) option" where
  "get_length_dbcs t ct flags src defchar used_given =
     (if defchar = None \<and> \<not> used_given \<and> \<not> has_flag flags WC_COMPOSITECHECK then
        do { len \<leftarrow> dbcs_fast_length t src 0; Some (len, False) }
      else do { def \<leftarrow> get_defchar_dbcs t defchar; dbcs_slow_length t ct flags def src 0 False })"

text \<open>A value of two bytes is not written when one cell is left.\<close>

definition put_value :: "u16 \<Rightarrow> bytes \<Rightarrow> nat \<Rightarrow> (bytes \<times> nat) option option" where
  "put_value res dst p =
     (if res AND 0xff00 \<noteq> 0 then
        (if length dst - p = 1 then Some None
         else do { dst \<leftarrow> wr dst p (ucast (drop_bit 8 res)); dst \<leftarrow> wr dst (p + 1) (ucast res); Some (Some (dst, p + 2)) })
      else do { dst \<leftarrow> wr dst p (ucast res); Some (Some (dst, p + 1)) })"

primrec wcstombs_dbcs_loop :: "dbcs_table \<Rightarrow> wchar list \<Rightarrow> bytes \<Rightarrow> nat \<Rightarrow> (int \<times> bytes) option" where
  "wcstombs_dbcs_loop t [] dst p = Some (int p, dst)"
| "wcstombs_dbcs_loop t (wch # src) dst p =
     (if p = length dst then Some (-1, dst)
      else do { res \<leftarrow> dbcs_uni2cp t wch; w \<leftarrow> put_value res dst p;
                (case w of None \<Rightarrow> Some (-1, dst) | Some (dst, p) \<Rightarrow> wcstombs_dbcs_loop t src dst p) })"

definition wcstombs_dbcs :: "dbcs_table \<Rightarrow> wchar list \<Rightarrow> bytes \<Rightarrow> (int \<times> bytes) option" where
  "wcstombs_dbcs t src dst = wcstombs_dbcs_loop t src dst 0"

function dbcs_slow_loop :: "dbcs_table \<Rightarrow> u16 list \<Rightarrow> u32 \<Rightarrow> wchar \<Rightarrow> wchar list \<Rightarrow> bytes \<Rightarrow> nat \<Rightarrow> bool \<Rightarrow>
    (int \<times> bytes \<times> bool) option" where
  "dbcs_slow_loop t ct flags def [] dst p used = Some (int p, dst, used)"
| "dbcs_slow_loop t ct flags def (wch # src) dst p used =
     (if p = length dst then Some (-1, dst, used)
      else (case dbcs_slow_step t ct flags def wch src used of None \<Rightarrow> None
            | Some (res, used', src') \<Rightarrow>
              do { w \<leftarrow> put_value res dst p;
                   (case w of None \<Rightarrow> Some (-1, dst, used')
                    | Some (dst, p) \<Rightarrow> dbcs_slow_loop t ct flags def src' dst p used') }))"
  by pat_completeness auto
termination
  by (relation "measure (\<lambda>(t, ct, flags, def, src, dst, p, u). length src)") (auto dest: dbcs_slow_step_shorter)

definition wcstombs_dbcs_slow :: "dbcs_table \<Rightarrow> u16 list \<Rightarrow> u32 \<Rightarrow> wchar list \<Rightarrow> bytes \<Rightarrow> bytes option \<Rightarrow>
    (int \<times> bytes \<times> bool) option" where
  "wcstombs_dbcs_slow t ct flags src dst defchar =
     do { def \<leftarrow> get_defchar_dbcs t defchar; dbcs_slow_loop t ct flags def src dst 0 False }"

section \<open>The entry point\<close>

definition unused :: "(int \<times> bytes) option \<Rightarrow> (int \<times> bytes \<times> bool) option" where
  "unused m = map_option (\<lambda>(r, d). (r, d, False)) m"

definition wine_cp_wcstombs :: "cptable \<Rightarrow> u16 list \<Rightarrow> u32 \<Rightarrow> wchar list \<Rightarrow> bytes \<Rightarrow> bytes option \<Rightarrow> bool \<Rightarrow>
    (int \<times> bytes \<times> bool) option" where
  "wine_cp_wcstombs t ct flags src dst defchar used_given =
     (if char_size (cpt_info t) = 1 then
        do { s \<leftarrow> cpt_sbcs t;
             if flags \<noteq> 0 \<or> defchar \<noteq> None \<or> used_given then
               (if dst = [] then do { (len, used) \<leftarrow> get_length_sbcs s ct flags src; Some (int len, dst, used) }
                else wcstombs_sbcs_slow s ct flags src dst defchar)
             else if dst = [] then Some (int (length src), dst, False)
             else unused (wcstombs_sbcs s src dst) }
      else
        do { d \<leftarrow> cpt_dbcs t;
             if dst = [] then
               do { (len, used) \<leftarrow> get_length_dbcs d ct flags src defchar used_given; Some (int len, dst, used) }
             else if flags \<noteq> 0 \<or> defchar \<noteq> None \<or> used_given then wcstombs_dbcs_slow d ct flags src dst defchar
             else unused (wcstombs_dbcs d src dst) })"

section \<open>The output of a conversion\<close>

function sbcs_slow_out :: "sbcs_table \<Rightarrow> u16 list \<Rightarrow> u32 \<Rightarrow> u8 \<Rightarrow> wchar list \<Rightarrow> bool \<Rightarrow> (bytes \<times> bool) option" where
  "sbcs_slow_out t ct flags def [] used = Some ([], used)"
| "sbcs_slow_out t ct flags def (wch # src) used =
     (case sbcs_slow_step t ct flags def wch src used of None \<Rightarrow> None
      | Some (c, used', src') \<Rightarrow> do { (cs, u) \<leftarrow> sbcs_slow_out t ct flags def src' used'; Some (c # cs, u) })"
  by pat_completeness auto
termination
  by (relation "measure (\<lambda>(t, ct, flags, def, src, u). length src)") (auto dest: sbcs_slow_step_shorter)

function dbcs_slow_out :: "dbcs_table \<Rightarrow> u16 list \<Rightarrow> u32 \<Rightarrow> wchar \<Rightarrow> wchar list \<Rightarrow> bool \<Rightarrow> (bytes \<times> bool) option" where
  "dbcs_slow_out t ct flags def [] used = Some ([], used)"
| "dbcs_slow_out t ct flags def (wch # src) used =
     (case dbcs_slow_step t ct flags def wch src used of None \<Rightarrow> None
      | Some (c, used', src') \<Rightarrow> do { (cs, u) \<leftarrow> dbcs_slow_out t ct flags def src' used'; Some (value_bytes c @ cs, u) })"
  by pat_completeness auto
termination
  by (relation "measure (\<lambda>(t, ct, flags, def, src, u). length src)") (auto dest: dbcs_slow_step_shorter)

primrec dbcs_fast_out :: "dbcs_table \<Rightarrow> wchar list \<Rightarrow> bytes option" where
  "dbcs_fast_out t [] = Some []"
| "dbcs_fast_out t (wch # src) = do { res \<leftarrow> dbcs_uni2cp t wch; cs \<leftarrow> dbcs_fast_out t src; Some (value_bytes res @ cs) }"

text \<open>The output of the conversion of a source, and whether the default character was used.\<close>

definition wc_out :: "cptable \<Rightarrow> u16 list \<Rightarrow> u32 \<Rightarrow> wchar list \<Rightarrow> bytes option \<Rightarrow> bool \<Rightarrow> (bytes \<times> bool) option" where
  "wc_out t ct flags src defchar used_given =
     (if \<not> cpt_wf t then None
      else let slow = (flags \<noteq> 0 \<or> defchar \<noteq> None \<or> used_given) in
      (case t of
         SBCS s \<Rightarrow>
           if slow then
             do { def \<leftarrow> (case defchar of None \<Rightarrow> Some (ucast (def_char (sinfo s))) | Some d \<Rightarrow> rd d 0);
                  sbcs_slow_out s ct flags def src False }
           else do { cs \<leftarrow> conv (sbcs_uni2cp s) src; Some (cs, False) }
       | DBCS d \<Rightarrow>
           if slow then do { def \<leftarrow> get_defchar_dbcs d defchar; dbcs_slow_out d ct flags def src False }
           else do { cs \<leftarrow> dbcs_fast_out d src; Some (cs, False) }))"

text \<open>
  The case in which the length query and the conversion of a double-byte code page choose their values differently:
  with \<^const>\<open>WC_NO_BEST_FIT_CHARS\<close>, no composition, no default character and no flag pointer the conversion replaces
  the best-fit values by the default character, and the query counts them unreplaced.
\<close>

definition query_ignores_flags :: "cptable \<Rightarrow> u32 \<Rightarrow> bytes option \<Rightarrow> bool \<Rightarrow> bool" where
  "query_ignores_flags t flags defchar used_given \<longleftrightarrow>
     (case t of SBCS s \<Rightarrow> False
      | DBCS d \<Rightarrow> defchar = None \<and> \<not> used_given \<and> \<not> has_flag flags WC_COMPOSITECHECK \<and> has_flag flags WC_NO_BEST_FIT_CHARS)"

section \<open>The conversions meet the contract\<close>

lemma length_value_bytes [simp]: "length (value_bytes v) = value_len v"
  by (simp add: value_bytes_def value_len_def)

lemma value_len_pos [simp]: "0 < value_len v" "value_len v \<le> 2"
  by (simp_all add: value_len_def)

lemma put_value_spec:
  assumes "p < length dst"
  shows "p + value_len v \<le> length dst \<Longrightarrow> put_value v dst p = Some (Some (splice dst p (value_bytes v), p + value_len v))"
    and "length dst < p + value_len v \<Longrightarrow> put_value v dst p = Some None"
  using assms by (auto simp: put_value_def value_len_def value_bytes_def split: if_splits)

lemma sbcs_single_used:
  "sbcs_single t flags def wch used = Some (c, u) \<Longrightarrow> sbcs_used t flags wch used = Some u"
  by (auto simp: sbcs_single_def sbcs_used_def bind_eq_Some_conv split: if_splits)

lemma get_length_sbcs_loop_spec:
  "sbcs_slow_out t ct flags def src used = Some (cs, u) \<Longrightarrow>
    get_length_sbcs_loop t ct flags src ret used = Some (ret + length cs, u)"
proof (induction t ct flags def src used arbitrary: cs u ret rule: sbcs_slow_out.induct)
  case (2 t ct flags def wch src used)
  then obtain c used' src' ds where st: "sbcs_slow_step t ct flags def wch src used = Some (c, used', src')"
    and ds: "sbcs_slow_out t ct flags def src' used' = Some (ds, u)" and cs: "cs = c # ds"
    by (auto split: option.splits prod.splits simp: bind_eq_Some_conv)
  note ih = 2(1) [OF st refl refl ds, of "ret + 1"]
  from st obtain a where a: "sbcs_pair t ct flags wch src = Some a" by (auto simp: sbcs_slow_step_def bind_eq_Some_conv)
  show ?case
    using st ih cs a by (cases a) (auto simp: sbcs_slow_step_def a bind_eq_Some_conv dest!: sbcs_single_used)
qed simp

lemma sbcs_slow_loop_spec:
  "sbcs_slow_out t ct flags def src used = Some (cs, u) \<Longrightarrow> p \<le> length dst \<Longrightarrow>
    (if p + length cs \<le> length dst
     then sbcs_slow_loop t ct flags def src dst p used = Some (int (p + length cs), splice dst p cs, u)
     else \<exists>b u'. sbcs_slow_loop t ct flags def src dst p used = Some (-1, b, u') \<and> length b = length dst)"
proof (induction t ct flags def src used arbitrary: cs u dst p rule: sbcs_slow_out.induct)
  case (2 t ct flags def wch src used)
  then obtain c used' src' ds where st: "sbcs_slow_step t ct flags def wch src used = Some (c, used', src')"
    and ds: "sbcs_slow_out t ct flags def src' used' = Some (ds, u)" and cs: "cs = c # ds"
    by (auto split: option.splits prod.splits simp: bind_eq_Some_conv)
  show ?case
  proof (cases "p = length dst")
    case False
    then have "p < length dst" using 2 by simp
    then show ?thesis
      using 2(1) [OF st refl refl ds, of "Suc p" "splice dst p [c]"] st cs by (auto split: if_splits)
  qed (simp add: cs)
qed simp

lemma dbcs_slow_length_spec:
  "dbcs_slow_out t ct flags def src used = Some (cs, u) \<Longrightarrow>
    dbcs_slow_length t ct flags def src len used = Some (len + length cs, u)"
proof (induction t ct flags def src used arbitrary: cs u len rule: dbcs_slow_out.induct)
  case (2 t ct flags def wch src used)
  then obtain c used' src' ds where st: "dbcs_slow_step t ct flags def wch src used = Some (c, used', src')"
    and ds: "dbcs_slow_out t ct flags def src' used' = Some (ds, u)" and cs: "cs = value_bytes c @ ds"
    by (auto split: option.splits prod.splits simp: bind_eq_Some_conv)
  then show ?case using 2(1) [OF st refl refl ds, of "len + value_len c"] by simp
qed simp

lemma dbcs_slow_loop_spec:
  "dbcs_slow_out t ct flags def src used = Some (cs, u) \<Longrightarrow> p \<le> length dst \<Longrightarrow>
    (if p + length cs \<le> length dst
     then dbcs_slow_loop t ct flags def src dst p used = Some (int (p + length cs), splice dst p cs, u)
     else \<exists>b u'. dbcs_slow_loop t ct flags def src dst p used = Some (-1, b, u') \<and> length b = length dst)"
proof (induction t ct flags def src used arbitrary: cs u dst p rule: dbcs_slow_out.induct)
  case (2 t ct flags def wch src used)
  then obtain c used' src' ds where st: "dbcs_slow_step t ct flags def wch src used = Some (c, used', src')"
    and ds: "dbcs_slow_out t ct flags def src' used' = Some (ds, u)" and cs: "cs = value_bytes c @ ds"
    by (auto split: option.splits prod.splits simp: bind_eq_Some_conv)
  show ?case
  proof (cases "p = length dst")
    case False
    then have p: "p < length dst" using 2 by simp
    show ?thesis
    proof (cases "p + value_len c \<le> length dst")
      case True
      then show ?thesis
        using put_value_spec(1) [OF p True] 2(1) [OF st refl refl ds, of "p + value_len c" "splice dst p (value_bytes c)"] st cs p
        by (auto split: if_splits simp: add.assoc)
    next
      case nf: False
      then show ?thesis using put_value_spec(2) [OF p, of c] st cs p by auto
    qed
  qed (use value_len_pos(1) [of c] cs in simp)
qed simp

lemma dbcs_fast_length_spec:
  "dbcs_fast_out t src = Some cs \<Longrightarrow> dbcs_fast_length t src len = Some (len + length cs)"
  by (induction src arbitrary: cs len) (auto simp: bind_eq_Some_conv)

lemma wcstombs_dbcs_loop_spec:
  "dbcs_fast_out t src = Some cs \<Longrightarrow> p \<le> length dst \<Longrightarrow>
    (if p + length cs \<le> length dst then wcstombs_dbcs_loop t src dst p = Some (int (p + length cs), splice dst p cs)
     else \<exists>b. wcstombs_dbcs_loop t src dst p = Some (-1, b) \<and> length b = length dst)"
proof (induction src arbitrary: cs dst p)
  case (Cons wch src)
  then obtain c ds where st: "dbcs_uni2cp t wch = Some c"
    and ds: "dbcs_fast_out t src = Some ds" and cs: "cs = value_bytes c @ ds"
    by (auto simp: bind_eq_Some_conv)
  show ?case
  proof (cases "p = length dst")
    case False
    then have p: "p < length dst" using Cons by simp
    show ?thesis
    proof (cases "p + value_len c \<le> length dst")
      case True
      then show ?thesis
        using put_value_spec(1) [OF p True] Cons.IH [OF ds, of "p + value_len c" "splice dst p (value_bytes c)"] st cs p
        by (auto split: if_splits simp: add.assoc)
    next
      case nf: False
      then show ?thesis using put_value_spec(2) [OF p, of c] st cs p by auto
    qed
  qed (use value_len_pos(1) [of c] cs in simp)
qed simp

text \<open>Without best-fit checks a value is replaced only if it is the default character already.\<close>

lemma dbcs_single_default:
  assumes "\<not> has_flag flags WC_NO_BEST_FIT_CHARS" and "dbcs_single t flags (def_char (dinfo t)) wch used = Some (c, u)"
  shows "dbcs_uni2cp t wch = Some c"
proof -
  have "ucast (ucast ch :: u32) = ch" for ch :: u16 by (simp add: word_unat_eq_iff unat_ucast_mod)
  then show ?thesis
    using assms by (auto simp: dbcs_single_def is_valid_dbcs_mapping_def bind_eq_Some_conv split: if_splits) (metis)+
qed

lemma dbcs_slow_out_fast:
  "\<not> has_flag flags WC_NO_BEST_FIT_CHARS \<Longrightarrow> \<not> has_flag flags WC_COMPOSITECHECK \<Longrightarrow> def = def_char (dinfo t) \<Longrightarrow>
    dbcs_slow_out t ct flags def src used = Some (cs, u) \<Longrightarrow> dbcs_fast_out t src = Some cs"
proof (induction t ct flags def src used arbitrary: cs u rule: dbcs_slow_out.induct)
  case (2 t ct flags def wch src used)
  then obtain c used' src' ds where st: "dbcs_slow_step t ct flags def wch src used = Some (c, used', src')"
    and ds: "dbcs_slow_out t ct flags def src' used' = Some (ds, u)" and cs: "cs = value_bytes c @ ds"
    by (auto split: option.splits prod.splits simp: bind_eq_Some_conv)
  have s: "dbcs_single t flags def wch used = Some (c, used')" "src' = src"
    using st 2(3) by (auto simp: dbcs_slow_step_def dbcs_pair_def bind_eq_Some_conv)
  show ?case
    using dbcs_single_default [of flags t wch used c used'] 2(1) [OF st refl refl 2(2-4) ds] s 2(2,4) cs by simp
qed simp

lemma get_length_dbcs_spec:
  assumes "get_defchar_dbcs d defchar = Some def" and "dbcs_slow_out d ct flags def src False = Some (ys, u)"
    and "\<not> (defchar = None \<and> \<not> used_given \<and> \<not> has_flag flags WC_COMPOSITECHECK \<and> has_flag flags WC_NO_BEST_FIT_CHARS)"
  shows "\<exists>u'. get_length_dbcs d ct flags src defchar used_given = Some (length ys, u') \<and> (used_given \<longrightarrow> u' = u)"
proof (cases "defchar = None \<and> \<not> used_given \<and> \<not> has_flag flags WC_COMPOSITECHECK")
  case True
  then have "def = def_char (dinfo d)" using assms(1) by (simp add: get_defchar_dbcs_def)
  then have "dbcs_fast_out d src = Some ys" using dbcs_slow_out_fast [OF _ _ _ assms(2)] assms(3) True by blast
  then show ?thesis using True dbcs_fast_length_spec [of d src ys 0] by (auto simp: get_length_dbcs_def)
next
  case False
  then have "get_length_dbcs d ct flags src defchar used_given = dbcs_slow_length d ct flags def src 0 False"
    using assms(1) by (auto simp: get_length_dbcs_def)
  then show ?thesis using dbcs_slow_length_spec [OF assms(2), of 0] by simp
qed

lemma wc_out_query:
  assumes "wc_out t ct flags src defchar used_given = Some (ys, u)" and "\<not> query_ignores_flags t flags defchar used_given"
  shows "\<exists>u'. wine_cp_wcstombs t ct flags src [] defchar used_given = Some (int (length ys), [], u') \<and> (used_given \<longrightarrow> u' = u)"
proof (cases t)
  case (SBCS s)
  then have c1: "char_size (cpt_info t) = 1" "cpt_sbcs t = Some s"
    using assms by (auto simp: wc_out_def cpt_wf_def split: if_splits)
  show ?thesis
  proof (cases "flags \<noteq> 0 \<or> defchar \<noteq> None \<or> used_given")
    case True
    then obtain def where "sbcs_slow_out s ct flags def src False = Some (ys, u)"
      using assms SBCS by (auto simp: wc_out_def bind_eq_Some_conv split: if_splits)
    then show ?thesis
      using c1 True get_length_sbcs_loop_spec [of s ct flags def src False ys u 0]
      by (simp add: wine_cp_wcstombs_def get_length_sbcs_def)
  next
    case False
    then show ?thesis
      using assms SBCS c1 by (auto simp: wc_out_def wine_cp_wcstombs_def bind_eq_Some_conv conv_length split: if_splits)
  qed
next
  case (DBCS d)
  then have c2: "char_size (cpt_info t) \<noteq> 1" "cpt_dbcs t = Some d"
    using assms by (auto simp: wc_out_def cpt_wf_def split: if_splits)
  show ?thesis
  proof (cases "flags \<noteq> 0 \<or> defchar \<noteq> None \<or> used_given")
    case True
    then obtain def where "get_defchar_dbcs d defchar = Some def" "dbcs_slow_out d ct flags def src False = Some (ys, u)"
      "\<not> (defchar = None \<and> \<not> used_given \<and> \<not> has_flag flags WC_COMPOSITECHECK \<and> has_flag flags WC_NO_BEST_FIT_CHARS)"
      using assms DBCS by (auto simp: wc_out_def query_ignores_flags_def bind_eq_Some_conv split: if_splits)
    from get_length_dbcs_spec [OF this] show ?thesis using c2 by (auto simp: wine_cp_wcstombs_def)
  next
    case False
    then obtain cs where "dbcs_fast_out d src = Some cs" "ys = cs"
      using assms DBCS by (auto simp: wc_out_def bind_eq_Some_conv split: if_splits)
    then show ?thesis
      using False c2 dbcs_fast_length_spec [of d src cs 0]
      by (auto simp: wine_cp_wcstombs_def get_length_dbcs_def has_flag_def)
  qed
qed

text \<open>The query that ignores the flags gives the length of the values before any of them is replaced.\<close>

lemma dbcs_slow_out_values:
  "\<not> has_flag flags WC_COMPOSITECHECK \<Longrightarrow> dbcs_slow_out t ct flags def src used = Some (cs, u) \<Longrightarrow> \<exists>zs. dbcs_fast_out t src = Some zs"
proof (induction t ct flags def src used arbitrary: cs u rule: dbcs_slow_out.induct)
  case (2 t ct flags def wch src used)
  then obtain c used' src' ds where st: "dbcs_slow_step t ct flags def wch src used = Some (c, used', src')"
    and ds: "dbcs_slow_out t ct flags def src' used' = Some (ds, u)"
    by (auto split: option.splits prod.splits simp: bind_eq_Some_conv)
  have s: "dbcs_single t flags def wch used = Some (c, used')" "src' = src"
    using st 2(2) by (auto simp: dbcs_slow_step_def dbcs_pair_def bind_eq_Some_conv)
  show ?case using 2(1) [OF st refl refl 2(2) ds] s by (auto simp: dbcs_single_def bind_eq_Some_conv)
qed simp

lemma wc_out_ignored:
  assumes "wc_out t ct flags src defchar used_given = Some (ys, u)" and "query_ignores_flags t flags defchar used_given"
  shows "\<exists>d zs. t = DBCS d \<and> dbcs_fast_out d src = Some zs \<and>
    wine_cp_wcstombs t ct flags src [] defchar used_given = Some (int (length zs), [], False)"
proof -
  obtain d where t: "t = DBCS d" and e: "defchar = None" "\<not> used_given" "\<not> has_flag flags WC_COMPOSITECHECK"
      "has_flag flags WC_NO_BEST_FIT_CHARS"
    using assms(2) by (cases t) (auto simp: query_ignores_flags_def)
  have "flags \<noteq> 0" using e(4) by (auto simp: has_flag_def)
  then obtain def where o: "dbcs_slow_out d ct flags def src False = Some (ys, u)" and c: "char_size (cpt_info t) \<noteq> 1"
    using assms(1) t by (auto simp: wc_out_def cpt_wf_def bind_eq_Some_conv split: if_splits)
  obtain zs where z: "dbcs_fast_out d src = Some zs" using dbcs_slow_out_values [OF e(3) o] by blast
  then show ?thesis
    using t c e dbcs_fast_length_spec [OF z, of 0] by (auto simp: wine_cp_wcstombs_def get_length_dbcs_def)
qed

lemma wc_out_convert:
  assumes "wc_out t ct flags src defchar used_given = Some (ys, u)" and b: "buf \<noteq> []"
  shows "if length ys \<le> length buf
    then wine_cp_wcstombs t ct flags src buf defchar used_given = Some (int (length ys), splice buf 0 ys, u)
    else \<exists>buf' u'. wine_cp_wcstombs t ct flags src buf defchar used_given = Some (-1, buf', u') \<and> length buf' = length buf"
proof (cases t)
  case (SBCS s)
  then have c1: "char_size (cpt_info t) = 1" "cpt_sbcs t = Some s"
    using assms by (auto simp: wc_out_def cpt_wf_def split: if_splits)
  show ?thesis
  proof (cases "flags \<noteq> 0 \<or> defchar \<noteq> None \<or> used_given")
    case True
    then obtain def where "(case defchar of None \<Rightarrow> Some (ucast (def_char (sinfo s))) | Some d \<Rightarrow> rd d 0) = Some def"
      and o: "sbcs_slow_out s ct flags def src False = Some (ys, u)"
      using assms SBCS by (auto simp: wc_out_def bind_eq_Some_conv split: if_splits)
    then show ?thesis
      using b c1 True sbcs_slow_loop_spec [OF o, of 0 buf]
      by (auto simp: wine_cp_wcstombs_def wcstombs_sbcs_slow_def split: if_splits)
  next
    case False
    then have o: "conv (sbcs_uni2cp s) src = Some ys" "u = False"
      using assms SBCS by (auto simp: wc_out_def bind_eq_Some_conv split: if_splits)
    then show ?thesis
      using False b c1 conv_length [OF o(1)] unrolled_copy_spec [OF o(1), of "length src" 0 buf]
        unrolled_copy_spec [OF o(1), of "length buf" 0 buf]
      by (auto simp: wine_cp_wcstombs_def wcstombs_sbcs_def unused_def split: if_splits)
  qed
next
  case (DBCS d)
  then have c2: "char_size (cpt_info t) \<noteq> 1" "cpt_dbcs t = Some d"
    using assms by (auto simp: wc_out_def cpt_wf_def split: if_splits)
  show ?thesis
  proof (cases "flags \<noteq> 0 \<or> defchar \<noteq> None \<or> used_given")
    case True
    then obtain def where "get_defchar_dbcs d defchar = Some def" and o: "dbcs_slow_out d ct flags def src False = Some (ys, u)"
      using assms DBCS by (auto simp: wc_out_def bind_eq_Some_conv split: if_splits)
    then show ?thesis
      using b c2 True dbcs_slow_loop_spec [OF o, of 0 buf]
      by (auto simp: wine_cp_wcstombs_def wcstombs_dbcs_slow_def split: if_splits)
  next
    case False
    then have o: "dbcs_fast_out d src = Some ys" "u = False"
      using assms DBCS by (auto simp: wc_out_def bind_eq_Some_conv split: if_splits)
    then show ?thesis
      using False b c2 wcstombs_dbcs_loop_spec [OF o(1), of 0 buf]
      by (auto simp: wine_cp_wcstombs_def wcstombs_dbcs_def unused_def split: if_splits)
  qed
qed

interpretation wc: length_query
  "\<lambda>(t, ct, flags, src, defchar, used_given) dst.
     map_option (\<lambda>(r, d, u). (r, d)) (wine_cp_wcstombs t ct flags src dst defchar used_given)"
  "\<lambda>(t, ct, flags, src, defchar, used_given).
     if query_ignores_flags t flags defchar used_given then None else map_option fst (wc_out t ct flags src defchar used_given)"
proof
  fix s :: "cptable \<times> u16 list \<times> u32 \<times> wchar list \<times> bytes option \<times> bool" and ys and buf :: bytes
  obtain t ct flags src defchar used_given where s: "s = (t, ct, flags, src, defchar, used_given)" by (cases s)
  let ?cv = "\<lambda>(t, ct, flags, src, defchar, used_given) dst.
     map_option (\<lambda>(r, d, u). (r, d)) (wine_cp_wcstombs t ct flags src dst defchar used_given)"
  assume "(\<lambda>(t, ct, flags, src, defchar, used_given).
     if query_ignores_flags t flags defchar used_given then None else map_option fst (wc_out t ct flags src defchar used_given)) s = Some ys"
  then obtain u where o: "wc_out t ct flags src defchar used_given = Some (ys, u)"
    and q: "\<not> query_ignores_flags t flags defchar used_given" by (auto simp: s split: if_splits)
  show "?cv s [] = Some (int (length ys), [])" using wc_out_query [OF o q] by (auto simp: s)
  show "?cv s buf = Some (int (length ys), splice buf 0 ys)" if "buf \<noteq> []" "length ys \<le> length buf"
    using wc_out_convert [OF o that(1)] that by (auto simp: s)
  show "\<exists>buf'. ?cv s buf = Some (-1, buf') \<and> length buf' = length buf" if "buf \<noteq> []" "length buf < length ys"
    using wc_out_convert [OF o that(1)] that by (auto simp: s)
qed

section \<open>The search for a composition\<close>

definition seg_ok :: "u16 list \<Rightarrow> nat \<Rightarrow> nat \<Rightarrow> bool" where
  "seg_ok ct s c \<longleftrightarrow> (s < c \<longrightarrow> 2 * c \<le> length ct) \<and> (\<forall>i \<in> set [s..<c - 1]. ct ! (2 * i) < ct ! (2 * i + 2))"

definition seg_find :: "u16 list \<Rightarrow> u16 \<Rightarrow> nat \<Rightarrow> nat \<Rightarrow> nat option" where
  "seg_find ct chu s c = List.find (\<lambda>i. ct ! (2 * i) = chu) [s..<c]"

lemma seg_ok_less: "seg_ok ct s c \<Longrightarrow> s \<le> i \<Longrightarrow> i < j \<Longrightarrow> j < c \<Longrightarrow> ct ! (2 * i) < ct ! (2 * j)"
proof (induction j)
  case (Suc j)
  then have "ct ! (2 * j) < ct ! (2 * Suc j)" by (auto simp: seg_ok_def)
  then show ?case using Suc by (cases "i = j") auto
qed simp

lemma seg_ok_inj: "seg_ok ct s c \<Longrightarrow> s \<le> i \<Longrightarrow> i < c \<Longrightarrow> s \<le> j \<Longrightarrow> j < c \<Longrightarrow> ct ! (2 * i) = ct ! (2 * j) \<Longrightarrow> i = j"
  using seg_ok_less [of ct s c i j] seg_ok_less [of ct s c j i] by (metis less_irrefl linorder_neqE_nat)

lemma compose_search_spec:
  assumes ok: "seg_ok ct s c"
  shows "int s \<le> low \<Longrightarrow> high < int c \<Longrightarrow>
    (\<And>i. s \<le> i \<Longrightarrow> i < c \<Longrightarrow> ct ! (2 * i) = chu \<Longrightarrow> low \<le> int i \<and> int i \<le> high) \<Longrightarrow>
    (if \<exists>i. s \<le> i \<and> i < c \<and> ct ! (2 * i) = chu
     then \<exists>i. s \<le> i \<and> i < c \<and> ct ! (2 * i) = chu \<and> compose_search ct chu low high = Some (int i)
     else compose_search ct chu low high = Some (-1))"
proof (induction "nat (high - low + 1)" arbitrary: low high rule: less_induct)
  case less
  show ?case
  proof (cases "low \<le> high")
    case False
    then have "\<not> (\<exists>i. s \<le> i \<and> i < c \<and> ct ! (2 * i) = chu)" using less.prems(3) by force
    then show ?thesis using False by (simp add: compose_search.simps)
  next
    case True
    define m where "m = nat ((low + high) div 2)"
    have pos: "(low + high) div 2 = int m" and mb: "low \<le> int m" "int m \<le> high"
      using True less.prems(1) by (auto simp: m_def)
    have m: "s \<le> m" "m < c" using mb less.prems(1,2) by auto
    have len: "2 * m < length ct" using ok m by (auto simp: seg_ok_def)
    have rdm: "rd_signed ct (2 * int m) = Some (ct ! (2 * m))"
      using len by (simp add: rd_signed_def nat_mult_distrib)
    have unf: "compose_search ct chu low high =
      (if ct ! (2 * m) < chu then compose_search ct chu (int m + 1) high
       else if chu < ct ! (2 * m) then compose_search ct chu low (int m - 1) else Some (int m))"
      using True by (subst compose_search.simps) (simp add: pos rdm Let_def)
    consider (lt) "ct ! (2 * m) < chu" | (gt) "chu < ct ! (2 * m)" | (eq) "ct ! (2 * m) = chu" by fastforce
    then show ?thesis
    proof cases
      case lt
      have "int m + 1 \<le> int i \<and> int i \<le> high" if "s \<le> i" "i < c" "ct ! (2 * i) = chu" for i
      proof -
        have "\<not> i < m" using seg_ok_less [OF ok that(1), of m] m that lt less_asym by blast
        then show ?thesis using less.prems(3) [OF that] lt that by (cases "i = m") auto
      qed
      then show ?thesis
        using less.hyps [of high "int m + 1"] less.prems(1,2) mb unf lt by auto
    next
      case gt
      have "low \<le> int i \<and> int i \<le> int m - 1" if "s \<le> i" "i < c" "ct ! (2 * i) = chu" for i
      proof -
        have "\<not> m < i" using seg_ok_less [OF ok m(1), of i] m that gt less_asym by blast
        then show ?thesis using less.prems(3) [OF that] gt that by (cases "i = m") auto
      qed
      then show ?thesis
        using less.hyps [of "int m - 1" low] less.prems(1,2) mb unf gt by auto
    next
      case eq
      then show ?thesis using unf m by auto
    qed
  qed
qed

lemma compose_search_find:
  assumes ok: "seg_ok ct s c"
  shows "compose_search ct chu (int s) (int c - 1) = Some (case seg_find ct chu s c of None \<Rightarrow> -1 | Some i \<Rightarrow> int i)"
proof (cases "seg_find ct chu s c")
  case None
  then have "\<not> (\<exists>i. s \<le> i \<and> i < c \<and> ct ! (2 * i) = chu)" by (auto simp: seg_find_def find_None_iff)
  then show ?thesis using compose_search_spec [OF ok, of "int s" "int c - 1" chu] None by auto
next
  case (Some i)
  then have i: "s \<le> i" "i < c" "ct ! (2 * i) = chu"
    unfolding seg_find_def find_Some_iff by (auto simp: nth_append)
  then have ex: "\<exists>i. s \<le> i \<and> i < c \<and> ct ! (2 * i) = chu" by blast
  have "if \<exists>i. s \<le> i \<and> i < c \<and> ct ! (2 * i) = chu
     then \<exists>i. s \<le> i \<and> i < c \<and> ct ! (2 * i) = chu \<and> compose_search ct chu (int s) (int c - 1) = Some (int i)
     else compose_search ct chu (int s) (int c - 1) = Some (-1)"
    by (rule compose_search_spec [OF ok]) auto
  then obtain j where j: "s \<le> j" "j < c" "ct ! (2 * j) = chu" "compose_search ct chu (int s) (int c - 1) = Some (int j)"
    unfolding if_P [OF ex] by blast
  then have "j = i" using seg_ok_inj [OF ok, of j i] i by simp
  then show ?thesis using j Some by simp
qed

definition compose_wf :: "u16 list \<Rightarrow> bool" where
  "compose_wf ct \<longleftrightarrow> seg_ok ct 0 70 \<and> (\<forall>i \<in> set [0..<70]. 2 * i + 3 < length ct \<and>
     seg_ok ct (unat (ct ! (2 * i + 1))) (unat (ct ! (2 * i + 3))))"

section \<open>Properties\<close>

text \<open>
  C14. The two calls of a client of \<^verbatim>\<open>WideCharToMultiByte\<close>, first for the length and then with a buffer of
  that length, give the whole conversion of the source (if it stays inside the tables: \<^const>\<open>wc_out\<close> is its result), for
  single-byte and double-byte code pages, with any default character and all flags but one combination. For a double-byte code page with \<^const>\<open>WC_NO_BEST_FIT_CHARS\<close>, without
  \<^const>\<open>WC_COMPOSITECHECK\<close>, without default character and without flag pointer the query gives the length
  that the source has with its best-fit values; if the conversion, which replaces them, is longer, the second call
  fails, and otherwise it gives the whole conversion and its length, which may be less than the query said.
\<close>

theorem wcstombs_two_calls:
  assumes "wc_out t ct flags src defchar used_given = Some (ys, u)" and "length ys < 2 ^ 31"
  shows "if \<not> query_ignores_flags t flags defchar used_given then
      \<exists>k e u'. wine_cp_wcstombs t ct flags src [] defchar used_given = Some (k, e, u') \<and>
        map_option fst (wine_cp_wcstombs t ct flags src (replicate (nat k) 0) defchar used_given) = Some k \<and>
        map_option (fst \<circ> snd) (wine_cp_wcstombs t ct flags src (replicate (nat k) 0) defchar used_given) = Some ys
    else
      \<exists>d zs. t = DBCS d \<and> dbcs_fast_out d src = Some zs \<and>
        wine_cp_wcstombs t ct flags src [] defchar used_given = Some (int (length zs), [], False) \<and>
        (src \<noteq> [] \<longrightarrow>
          (if length ys \<le> length zs
           then wine_cp_wcstombs t ct flags src (replicate (length zs) 0) defchar used_given =
             Some (int (length ys), ys @ replicate (length zs - length ys) 0, u)
           else map_option fst (wine_cp_wcstombs t ct flags src (replicate (length zs) 0) defchar used_given) = Some (- 1)))"
proof (cases "query_ignores_flags t flags defchar used_given")
  case False
  then show ?thesis using wc.two_calls [of "(t, ct, flags, src, defchar, used_given)" ys 0] assms by (simp split: if_splits) force
next
  case True
  obtain d zs where d: "t = DBCS d" "dbcs_fast_out d src = Some zs"
      "wine_cp_wcstombs t ct flags src [] defchar used_given = Some (int (length zs), [], False)"
    using wc_out_ignored [OF assms(1) True] by blast
  have ne: "replicate (length zs) 0 \<noteq> ([] :: bytes)" if "src \<noteq> []"
  proof -
    have "zs \<noteq> []" using d(2) that by (cases src) (auto simp: bind_eq_Some_conv value_bytes_def split: if_splits)
    then show ?thesis by simp
  qed
  show ?thesis using True d wc_out_convert [OF assms(1) ne] by (auto simp: splice_start)
qed

text \<open>
  A double-byte code page with one lead byte: 0x8140 is U+3000, and it is the best fit of U+0100. Its two calls for
  U+0100 with \<^const>\<open>WC_NO_BEST_FIT_CHARS\<close> and nothing else are told two bytes and get one.
\<close>

definition tiny_dbcs :: cptable where
  "tiny_dbcs = DBCS
     \<lparr>dinfo = \<lparr>codepage = 932, char_size = 2, def_char = 0x3f, def_unicode_char = 0x3f, cp_name = ''one lead byte''\<rparr>,
      dcp2uni = map of_nat [0..<256] @ (replicate 256 0x3f)[0x40 := 0x3000],
      dcp2uni_leadbytes = (replicate 256 0)[0x81 := 1],
      duni2cp_low = map of_nat [0..<256] @ (replicate 256 0x3f)[0 := 0x8140] @ replicate 256 0x3f,
      duni2cp_high = 0 # 256 # replicate 254 512, lead_bytes = [0x81, 0x81]\<rparr>"

theorem wcstombs_two_calls_witness:
  "(\<exists>k e u'. wine_cp_wcstombs latin1 [] 0x400 [0x41, 0x100] [] None True = Some (k, e, u') \<and>
    map_option fst (wine_cp_wcstombs latin1 [] 0x400 [0x41, 0x100] (replicate (nat k) 0) None True) = Some k \<and>
    map_option (fst \<circ> snd) (wine_cp_wcstombs latin1 [] 0x400 [0x41, 0x100] (replicate (nat k) 0) None True) = Some [0x41, 0x3f]) \<and>
   wine_cp_wcstombs tiny_dbcs [] 0x400 [0x100] [] None False = Some (2, [], False) \<and>
   wine_cp_wcstombs tiny_dbcs [] 0x400 [0x100] [0, 0] None False = Some (1, [0x3f, 0], True)"
proof -
  have l: "wc_out latin1 [] 0x400 [0x41, 0x100] None True = Some ([0x41, 0x3f], True)" by code_simp
  have q: "\<not> query_ignores_flags latin1 0x400 None True" by code_simp
  have d: "wc_out tiny_dbcs [] 0x400 [0x100] None False = Some ([0x3f], True)" by code_simp
  have qd: "query_ignores_flags tiny_dbcs 0x400 None False" by code_simp
  obtain D where D: "tiny_dbcs = DBCS D" by (simp add: tiny_dbcs_def)
  have f: "(case tiny_dbcs of DBCS x \<Rightarrow> dbcs_fast_out x [0x100] | SBCS s \<Rightarrow> None) = Some [0x81, 0x40]" by code_simp
  have z: "zs = [0x81, 0x40]" if "tiny_dbcs = DBCS x" "dbcs_fast_out x [0x100] = Some zs" for x zs
    using f unfolding that(1) by (simp only: cptable.case that(2) option.inject)
  have small: "length [0x41, 0x3f :: u8] < 2 ^ 31" "length [0x3f :: u8] < 2 ^ 31" by simp_all
  note one = wcstombs_two_calls [OF l small(1), unfolded if_P [OF q]]
  obtain x zs where x: "tiny_dbcs = DBCS x" "dbcs_fast_out x [0x100] = Some zs"
      "wine_cp_wcstombs tiny_dbcs [] 0x400 [0x100] [] None False = Some (int (length zs), [], False)"
      "if length [0x3f :: u8] \<le> length zs
       then wine_cp_wcstombs tiny_dbcs [] 0x400 [0x100] (replicate (length zs) 0) None False =
         Some (int (length [0x3f :: u8]), [0x3f] @ replicate (length zs - length [0x3f :: u8]) 0, True)
       else map_option fst (wine_cp_wcstombs tiny_dbcs [] 0x400 [0x100] (replicate (length zs) 0) None False) = Some (- 1)"
    using wcstombs_two_calls [OF d small(2)] qd by (simp del: length_Cons) blast
  have "zs = [0x81, 0x40]" by (rule z [OF x(1,2)])
  then show ?thesis using one x(3,4) by (simp add: numeral_2_eq_2)
qed

text \<open>
  When the caller asks whether the default character is used, the length query and the
  conversion give the same answer.
\<close>

lemma query_with_pointer: "\<not> query_ignores_flags t flags defchar True"
  by (simp add: query_ignores_flags_def split: cptable.split)

theorem wcstombs_used_agrees:
  assumes "wc_out t ct flags src defchar True = Some (ys, u)" and "length ys \<le> length dst" and "dst \<noteq> []"
  shows "\<exists>e. wine_cp_wcstombs t ct flags src [] defchar True = Some (int (length ys), e, u) \<and>
    wine_cp_wcstombs t ct flags src dst defchar True = Some (int (length ys), ys @ drop (length ys) dst, u)"
  using wc_out_query [OF assms(1)] query_with_pointer wc_out_convert [OF assms(1,3)] assms(2) by (auto simp: splice_start)

theorem wcstombs_used_agrees_witness:
  "\<exists>e. wine_cp_wcstombs latin1 [] 0x400 [0x41, 0x100] [] None True = Some (2, e, True) \<and>
    wine_cp_wcstombs latin1 [] 0x400 [0x41, 0x100] [0, 0, 0] None True = Some (2, [0x41, 0x3f, 0], True)"
proof -
  have "wc_out latin1 [] 0x400 [0x41, 0x100] None True = Some ([0x41, 0x3f], True)" by code_simp
  from wcstombs_used_agrees [OF this, of "[0, 0, 0]"] show ?thesis by simp
qed

text \<open>
  \<^verbatim>\<open>wine_compose\<close> gives the composition of two characters exactly if the table has it: on a table with
  ordered segments its binary searches give what linear searches through the segments give,
  first for the second character and then for the first one.
\<close>

theorem wine_compose_finds:
  assumes "compose_wf ct"
  shows "wine_compose ct [a, b] = Some (case seg_find ct (ucast b) 0 70 of None \<Rightarrow> 0
    | Some i \<Rightarrow> (case seg_find ct (ucast a) (unat (ct ! (2 * i + 1))) (unat (ct ! (2 * i + 3))) of None \<Rightarrow> 0
        | Some j \<Rightarrow> ucast (ct ! (2 * j + 1))))"
proof -
  have top: "seg_ok ct 0 70" using assms by (simp add: compose_wf_def)
  show ?thesis
  proof (cases "seg_find ct (ucast b) 0 70")
    case None
    then show ?thesis using compose_search_find [OF top, of "ucast b"] by (simp add: wine_compose_def)
  next
    case (Some i)
    then have i: "i < 70" unfolding seg_find_def find_Some_iff by (auto simp: nth_append)
    then have len: "2 * i + 3 < length ct" and seg: "seg_ok ct (unat (ct ! (2 * i + 1))) (unat (ct ! (2 * i + 3)))"
      using assms by (auto simp: compose_wf_def)
    have n: "nat (2 * int k + 1) = 2 * k + 1" "nat (2 * int k + 3) = 2 * k + 3" for k by auto
    have r: "rd_signed ct (2 * int i + 1) = Some (ct ! (2 * i + 1))" "rd_signed ct (2 * int i + 3) = Some (ct ! (2 * i + 3))"
      using len by (simp_all add: rd_signed_def n)
    note inner = compose_search_find [OF seg, of "ucast a"]
    show ?thesis
    proof (cases "seg_find ct (ucast a) (unat (ct ! (2 * i + 1))) (unat (ct ! (2 * i + 3)))")
      case None
      then show ?thesis
        using compose_search_find [OF top, of "ucast b"] Some r inner by (simp add: wine_compose_def)
    next
      case (Some j)
      then have "j < unat (ct ! (2 * i + 3))" "unat (ct ! (2 * i + 1)) \<le> j"
        unfolding seg_find_def find_Some_iff by (auto simp: nth_append)
      then have "2 * j + 1 < length ct" using seg by (auto simp: seg_ok_def)
      then have rj: "rd_signed ct (2 * int j + 1) = Some (ct ! (2 * j + 1))" by (simp add: rd_signed_def n)
      show ?thesis
        using compose_search_find [OF top, of "ucast b"] \<open>seg_find ct (ucast b) 0 70 = Some i\<close> Some r rj inner
        by (simp add: wine_compose_def)
    qed
  qed
qed

text \<open>A table of 70 second characters, the accents from 0x300 on: the first one has the compositions of A and E.\<close>

definition tiny_compose :: "u16 list" where
  "tiny_compose = [0x300, 71] @ concat (map (\<lambda>i. [0x300 + of_nat i, 73]) [1..<70]) @
     [0, 73, 0x41, 0xc0, 0x45, 0xc8]"

theorem wine_compose_finds_witness:
  "compose_wf tiny_compose \<and> wine_compose tiny_compose [0x45, 0x300] = Some 0xc8 \<and>
    wine_compose tiny_compose [0x46, 0x300] = Some 0"
proof -
  have w: "compose_wf tiny_compose" by code_simp
  have "seg_find tiny_compose (ucast (0x300 :: u32)) 0 70 = Some 0"
    "unat (tiny_compose ! (2 * 0 + 1)) = 71" "unat (tiny_compose ! (2 * 0 + 3)) = 73"
    "seg_find tiny_compose (ucast (0x45 :: u32)) 71 73 = Some 72"
    "seg_find tiny_compose (ucast (0x46 :: u32)) 71 73 = None"
    "tiny_compose ! (2 * 72 + 1) = 0xc8" by code_simp+
  then show ?thesis
    using w by (simp add: wine_compose_finds [OF w])
qed

end
