(* ===== verification/WineSort.thy ===== *)
theory WineSort
  imports WineCopy
begin

text \<open>
  Sort keys and the comparison of strings: \<^verbatim>\<open>WinPort/wineguts/sortkey.c\<close>, and the character helpers of
  \<^verbatim>\<open>unicode.h\<close> that it uses. The generated tables are an argument.
\<close>

section \<open>Character tables\<close>

record sort_tables =
  wctype_table :: "u16 list"
  casemap_lower :: "u16 list"
  casemap_upper :: "u16 list"
  collation_table :: "u32 list"
  decompose_levels :: nat
  decompose_tables :: decomp_tables

text \<open>The two-level lookup \<open>tab[tab[(USHORT)ch >> 8] + (ch & 0xff)]\<close>.\<close>

definition tab2 :: "'a :: len word list \<Rightarrow> wchar \<Rightarrow> 'a word option" where
  "tab2 tab ch = do { h \<leftarrow> rd tab (unat (drop_bit 8 (ucast ch :: u16))); rd tab (unat h + unat (ch AND 0xff)) }"

definition tolowerW :: "sort_tables \<Rightarrow> wchar \<Rightarrow> wchar option" where
  "tolowerW T ch = do { d \<leftarrow> tab2 (casemap_lower T) (ucast (ucast ch :: u16)); Some (ucast (ucast ch + d)) }"

definition toupperW :: "sort_tables \<Rightarrow> wchar \<Rightarrow> wchar option" where
  "toupperW T ch = do { d \<leftarrow> tab2 (casemap_upper T) (ucast (ucast ch :: u16)); Some (ucast (ucast ch + d)) }"

definition get_char_typeW :: "sort_tables \<Rightarrow> wchar \<Rightarrow> u16 option" where
  "get_char_typeW T ch = tab2 (wctype_table T) ch"

definition C1_UPPER :: u16 where "C1_UPPER = 0x1"
definition C1_DIGIT :: u16 where "C1_DIGIT = 0x4"
definition C1_SPACE :: u16 where "C1_SPACE = 0x8"
definition C1_PUNCT :: u16 where "C1_PUNCT = 0x10"
definition C1_CNTRL :: u16 where "C1_CNTRL = 0x20"
definition C1_BLANK :: u16 where "C1_BLANK = 0x40"

definition NORM_IGNORECASE :: u32 where "NORM_IGNORECASE = 0x1"
definition NORM_IGNORENONSPACE :: u32 where "NORM_IGNORENONSPACE = 0x2"
definition NORM_IGNORESYMBOLS :: u32 where "NORM_IGNORESYMBOLS = 0x4"
definition NORM_STOP_ON_NULL :: u32 where "NORM_STOP_ON_NULL = 0x10000000"
definition SORT_STRINGSORT :: u32 where "SORT_STRINGSORT = 0x1000"

definition is_symbol :: "sort_tables \<Rightarrow> wchar \<Rightarrow> bool option" where
  "is_symbol T ch = do { t \<leftarrow> get_char_typeW T ch; Some (t AND (C1_PUNCT OR C1_SPACE) \<noteq> 0) }"

section \<open>Sort keys\<close>

text \<open>
  The loops over the source of both passes: a character is left out, or it has a collation element \<open>ce\<close>
  and a character that stands for it (its lower case under \<^const>\<open>NORM_IGNORECASE\<close>).
\<close>

definition key_element :: "sort_tables \<Rightarrow> u32 \<Rightarrow> wchar \<Rightarrow> (wchar \<times> u32) option option" where
  "key_element T flags ch =
     do { skip \<leftarrow> (if has_flag flags NORM_IGNORESYMBOLS then is_symbol T ch else Some False);
          if skip then Some None
          else do { wch \<leftarrow> (if has_flag flags NORM_IGNORECASE then tolowerW T ch else Some ch);
                    ce \<leftarrow> tab2 (collation_table T) wch;
                    Some (Some (wch, ce)) } }"

definition low_byte :: "wchar \<Rightarrow> wchar" where "low_byte w = w AND 0xff"

definition add_key_len :: "wchar \<times> u32 \<Rightarrow> nat \<times> nat \<times> nat \<times> nat \<Rightarrow> nat \<times> nat \<times> nat \<times> nat" where
  "add_key_len e l = (case (e, l) of ((wch, ce), (l0, l1, l2, l3)) \<Rightarrow>
     if ce \<noteq> -1 then
       (if drop_bit 16 ce \<noteq> 0 then l0 + 2 else l0,
        if drop_bit 8 ce AND 0xff \<noteq> 0 then l1 + 1 else l1,
        if drop_bit 4 ce AND 0xf \<noteq> 0 then l2 + 1 else l2,
        if ce AND 1 \<noteq> 0 then (if signed_drop_bit 8 wch \<noteq> 0 then l3 + 1 else l3) + 1 else l3)
     else
       ((if low_byte wch \<noteq> 0 then 1 else 0) + (if signed_drop_bit 8 wch \<noteq> 0 then 1 else 0) + (l0 + 2), l1, l2, l3))"

primrec key_lens :: "sort_tables \<Rightarrow> u32 \<Rightarrow> wchar list \<Rightarrow> nat \<times> nat \<times> nat \<times> nat \<Rightarrow> (nat \<times> nat \<times> nat \<times> nat) option" where
  "key_lens T flags [] l = Some l"
| "key_lens T flags (ch # src) l =
     (if ch = 0 \<and> has_flag flags NORM_STOP_ON_NULL then Some l
      else do { e \<leftarrow> key_element T flags ch;
                key_lens T flags src (case e of None \<Rightarrow> l | Some e \<Rightarrow> add_key_len e l) })"

primrec puts :: "bytes \<Rightarrow> nat \<Rightarrow> bytes \<Rightarrow> (bytes \<times> nat) option" where
  "puts dst p [] = Some (dst, p)"
| "puts dst p (b # bs) = do { dst \<leftarrow> wr dst p b; puts dst (p + 1) bs }"

text \<open>The bytes that a character adds to the four parts of the key.\<close>

definition key_char :: "wchar \<Rightarrow> bytes" where
  "key_char wch = (if signed_drop_bit 8 wch \<noteq> 0 then [ucast (signed_drop_bit 8 wch)] else []) @
     (if low_byte wch \<noteq> 0 then [ucast (low_byte wch)] else [])"

definition key_bytes :: "wchar \<times> u32 \<Rightarrow> bytes \<times> bytes \<times> bytes \<times> bytes" where
  "key_bytes e = (case e of (wch, ce) \<Rightarrow>
     if ce \<noteq> -1 then
       (let key = drop_bit 16 ce in if key \<noteq> 0 then [ucast (drop_bit 8 key), ucast (key AND 0xff)] else [],
        let key = drop_bit 8 ce AND 0xff in if key \<noteq> 0 then [ucast (key + 1)] else [],
        let key = drop_bit 4 ce AND 0xf in if key \<noteq> 0 then [ucast (key + 1)] else [],
        if ce AND 1 \<noteq> 0 then key_char wch else [])
     else ([0xff, 0xfe] @ key_char wch, [], [], []))"

primrec key_write :: "sort_tables \<Rightarrow> u32 \<Rightarrow> wchar list \<Rightarrow> bytes \<Rightarrow> nat \<Rightarrow> nat \<Rightarrow> nat \<Rightarrow> nat \<Rightarrow>
    (bytes \<times> nat \<times> nat \<times> nat \<times> nat) option" where
  "key_write T flags [] dst p0 p1 p2 p3 = Some (dst, p0, p1, p2, p3)"
| "key_write T flags (ch # src) dst p0 p1 p2 p3 =
     (if ch = 0 \<and> has_flag flags NORM_STOP_ON_NULL then Some (dst, p0, p1, p2, p3)
      else do { e \<leftarrow> key_element T flags ch;
                (case e of None \<Rightarrow> key_write T flags src dst p0 p1 p2 p3
                 | Some e \<Rightarrow> (case key_bytes e of (b0, b1, b2, b3) \<Rightarrow>
                     do { (dst, p0) \<leftarrow> puts dst p0 b0; (dst, p1) \<leftarrow> puts dst p1 b1;
                          (dst, p2) \<leftarrow> puts dst p2 b2; (dst, p3) \<leftarrow> puts dst p3 b3;
                          key_write T flags src dst p0 p1 p2 p3 })) })"

definition wine_get_sortkey :: "sort_tables \<Rightarrow> u32 \<Rightarrow> wchar list \<Rightarrow> bytes \<Rightarrow> (nat \<times> bytes) option" where
  "wine_get_sortkey T flags src dst =
     do { (l0, l1, l2, l3) \<leftarrow> key_lens T flags src (0, 0, 0, 0);
          if dst = [] then Some (l0 + l1 + l2 + l3 + 4, dst)
          else if length dst < l0 + l1 + l2 + l3 + 4 + 1 then Some (0, dst)
          else do {
            (dst, p0, p1, p2, p3) \<leftarrow> key_write T flags src dst 0 (l0 + 1) (l0 + 1 + l1 + 1) (l0 + 1 + l1 + 1 + l2 + 1);
            dst \<leftarrow> wr dst p0 1; dst \<leftarrow> wr dst p1 1; dst \<leftarrow> wr dst p2 1; dst \<leftarrow> wr dst p3 1;
            dst \<leftarrow> wr dst (p3 + 1) 0;
            Some (p3 + 1, dst) } }"

section \<open>Comparison\<close>

definition DIACRITIC_WEIGHT :: u32 where "DIACRITIC_WEIGHT = 0x1"
definition CASE_WEIGHT :: u32 where "CASE_WEIGHT = 0x2"

definition eval_weight :: "sort_tables \<Rightarrow> wchar \<Rightarrow> u32 \<Rightarrow> u32 option" where
  "eval_weight T ch types =
     do { w \<leftarrow> tab2 (collation_table T) ch;
          let w = (if w = -1 then ch else w);
          let out = drop_bit 16 w AND 0xffff;
          let out = (if types AND DIACRITIC_WEIGHT \<noteq> 0 then out OR push_bit 16 (drop_bit 8 w AND 0xff) else out);
          if ch \<noteq> 0x2e then
            do { t \<leftarrow> get_char_typeW T ch;
                 let out = out OR
                   (if t AND C1_DIGIT \<noteq> 0 then 0x40000000
                    else if t AND (C1_PUNCT OR C1_SPACE OR C1_CNTRL OR C1_BLANK) = 0 then 0x60000000
                    else if t AND C1_PUNCT = 0 then 0x20000000
                    else 0x10000000);
                 Some (if t AND C1_UPPER = 0 \<and> types AND CASE_WEIGHT \<noteq> 0 then out OR 0x08000000 else out) }
          else Some out }"

text \<open>
  One side of the comparison: the rest of the string, the position in the decomposition of its first
  character, the length of that decomposition (0 before it is computed), and its buffer of four cells.
\<close>

record cursor =
  cstr :: "wchar list"
  dpos :: nat
  dlen :: nat
  dstr :: "wchar list"

definition inc_str_pos :: "cursor \<Rightarrow> cursor" where
  "inc_str_pos c =
     (let p = dpos c + 1 in
      if p = dlen c then c\<lparr>cstr := tl (cstr c), dpos := 0, dlen := 0\<rparr> else c\<lparr>dpos := p\<rparr>)"

definition load_char :: "sort_tables \<Rightarrow> cursor \<Rightarrow> cursor option" where
  "load_char T c =
     (if dlen c = 0 then
        do { (res, d) \<leftarrow> wine_decompose (decompose_levels T) (decompose_tables T) 0 (hd (cstr c)) (dstr c) 0 4;
             Some (c\<lparr>dlen := res, dstr := d\<rparr>) }
      else Some c)"

definition cur_char :: "cursor \<Rightarrow> wchar option" where
  "cur_char c = rd (dstr c) (dpos c)"

text \<open>What a round of the main loop does: it returns, or it advances one or both sides.\<close>

datatype round = Return int | Advance bool bool

definition is_hyphen :: "wchar \<Rightarrow> bool" where
  "is_hyphen w \<longleftrightarrow> w = 0x2d \<or> w = 0x27"

definition compare_round :: "sort_tables \<Rightarrow> u32 \<Rightarrow> u32 \<Rightarrow> cursor \<Rightarrow> cursor \<Rightarrow> round option" where
  "compare_round T flags types c1 c2 =
     do { w1 \<leftarrow> cur_char c1; w2 \<leftarrow> cur_char c2;
          s1 \<leftarrow> (if has_flag flags NORM_IGNORESYMBOLS then is_symbol T w1 else Some False);
          s2 \<leftarrow> (if has_flag flags NORM_IGNORESYMBOLS then is_symbol T w2 else Some False);
          if s1 \<or> s2 then Some (Advance s1 s2)
          else if \<not> has_flag flags SORT_STRINGSORT \<and> is_hyphen w1 \<and> \<not> is_hyphen w2 then Some (Advance True False)
          else if \<not> has_flag flags SORT_STRINGSORT \<and> \<not> is_hyphen w1 \<and> is_hyphen w2 then Some (Advance False True)
          else do { ce1 \<leftarrow> eval_weight T w1 types; ce2 \<leftarrow> eval_weight T w2 types;
                    if ce1 \<noteq> 0 \<and> ce2 \<noteq> 0 \<and> ce1 \<noteq> ce2 then Some (Return (if ce1 > ce2 then 1 else -1))
                    else Some (Advance (ce1 = 0 \<or> ce2 \<noteq> 0) (ce2 = 0 \<or> ce1 \<noteq> 0)) } }"

lemma wine_decompose_length:
  "wine_decompose n D fl ch dst pos lim = Some (r, b) \<Longrightarrow> length b = length dst"
  "decompose_parts n D fl tab ptr len dst pos dp lim = Some (r, b) \<Longrightarrow> length b = length dst"
proof (induction n D fl ch dst pos lim and n D fl tab ptr len dst pos dp lim arbitrary: r b and r b
    rule: wine_decompose_decompose_parts.induct)
  case (2 n D flags ch dst pos dstlen)
  then show ?case by (auto simp: bind_eq_Some_conv wr_eq_Some split: if_splits)
next
  case (4 n D flags tab ptr len dst pos dst_pos dstlen)
  then show ?case by (fastforce simp: bind_eq_Some_conv split: if_splits)
qed auto

lemma load_char_same: "load_char T c = Some c' \<Longrightarrow> cstr c' = cstr c \<and> dpos c' = dpos c \<and> length (dstr c') = length (dstr c)"
  by (auto simp: load_char_def bind_eq_Some_conv dest: wine_decompose_length split: if_splits)

lemma cur_char_pos: "cur_char c = Some w \<Longrightarrow> dpos c < length (dstr c)"
  by (simp add: cur_char_def rd_eq_Some)

definition cursor_size :: "cursor \<Rightarrow> nat" where
  "cursor_size c = length (dstr c) - dpos c"

lemma inc_str_pos_smaller:
  assumes "cur_char c = Some w" "cstr c \<noteq> []"
  shows "length (cstr (inc_str_pos c)) < length (cstr c) \<or>
    length (cstr (inc_str_pos c)) = length (cstr c) \<and> cursor_size (inc_str_pos c) < cursor_size c"
  using cur_char_pos [OF assms(1)] assms(2) by (auto simp: inc_str_pos_def Let_def cursor_size_def)

lemma compare_round_advances: "compare_round T flags types c1 c2 = Some (Advance a b) \<Longrightarrow> a \<or> b"
  by (auto simp: compare_round_def bind_eq_Some_conv split: if_splits)

lemma compare_round_chars:
  "compare_round T flags types c1 c2 = Some r \<Longrightarrow> \<exists>w1 w2. cur_char c1 = Some w1 \<and> cur_char c2 = Some w2"
  by (auto simp: compare_round_def bind_eq_Some_conv)

text \<open>The loop over the rest of one string: it skips what has no weight.\<close>

function skip_rest :: "sort_tables \<Rightarrow> u32 \<Rightarrow> u32 \<Rightarrow> cursor \<Rightarrow> nat option" where
  "skip_rest T flags types c =
     (if cstr c = [] then Some 0
      else if hd (cstr c) = 0 \<and> has_flag flags NORM_STOP_ON_NULL then Some 0
      else (case load_char T c of None \<Rightarrow> None
        | Some c' \<Rightarrow> (case cur_char c' of None \<Rightarrow> None
          | Some w \<Rightarrow> (case eval_weight T w types of None \<Rightarrow> None
            | Some ce \<Rightarrow> if ce \<noteq> 0 then Some (length (cstr c')) else skip_rest T flags types (inc_str_pos c')))))"
  by pat_completeness auto
termination
proof (relation "measures [\<lambda>(T, flags, types, c). length (cstr c), \<lambda>(T, flags, types, c). cursor_size c]", goal_cases)
  case (2 T flags types c c' w ce)
  then show ?case
    using inc_str_pos_smaller [of c' w] load_char_same [of T c c'] by (auto simp: cursor_size_def)
qed auto

text \<open>The main loop returns a result, or the two sides where it stopped.\<close>

definition stop_at_null :: "u32 \<Rightarrow> cursor \<Rightarrow> cursor" where
  "stop_at_null flags c = (if has_flag flags NORM_STOP_ON_NULL \<and> hd (cstr c) = 0 then c\<lparr>cstr := []\<rparr> else c)"

function compare_loop :: "sort_tables \<Rightarrow> u32 \<Rightarrow> u32 \<Rightarrow> cursor \<Rightarrow> cursor \<Rightarrow> (int + cursor \<times> cursor) option" where
  "compare_loop T flags types c1 c2 =
     (if cstr c1 = [] \<or> cstr c2 = [] then Some (Inr (c1, c2))
      else if has_flag flags NORM_STOP_ON_NULL \<and> (hd (cstr c1) = 0 \<or> hd (cstr c2) = 0) then
        Some (Inr (stop_at_null flags c1, stop_at_null flags c2))
      else (case load_char T c1 of None \<Rightarrow> None
        | Some d1 \<Rightarrow> (case load_char T c2 of None \<Rightarrow> None
          | Some d2 \<Rightarrow> (case compare_round T flags types d1 d2 of None \<Rightarrow> None
            | Some (Return r) \<Rightarrow> Some (Inl r)
            | Some (Advance a b) \<Rightarrow>
                compare_loop T flags types (if a then inc_str_pos d1 else d1) (if b then inc_str_pos d2 else d2)))))"
  by pat_completeness auto
termination
proof (relation "measures [\<lambda>(T, flags, types, c1, c2). length (cstr c1) + length (cstr c2),
    \<lambda>(T, flags, types, c1, c2). cursor_size c1 + cursor_size c2]", goal_cases)
  case (2 T flags types c1 c2 d1 d2 r a b)
  obtain w1 w2 where w: "cur_char d1 = Some w1" "cur_char d2 = Some w2"
    using compare_round_chars [OF 2(5)] by blast
  have "a \<or> b" using compare_round_advances 2(5,6) by blast
  then show ?case
    using inc_str_pos_smaller [OF w(1)] inc_str_pos_smaller [OF w(2)] load_char_same [OF 2(3)] load_char_same [OF 2(4)] 2(1)
    by (auto simp: cursor_size_def)
qed auto

declare skip_rest.simps [simp del] compare_loop.simps [simp del]

definition start_cursor :: "wchar list \<Rightarrow> cursor" where
  "start_cursor s = \<lparr>cstr = s, dpos = 0, dlen = 0, dstr = replicate 4 0\<rparr>"

definition compare_weights :: "sort_tables \<Rightarrow> u32 \<Rightarrow> wchar list \<Rightarrow> wchar list \<Rightarrow> u32 \<Rightarrow> int option" where
  "compare_weights T flags str1 str2 types =
     do { res \<leftarrow> compare_loop T flags types (start_cursor str1) (start_cursor str2);
          (case res of Inl r \<Rightarrow> Some r
           | Inr (c1, c2) \<Rightarrow>
               do { len1 \<leftarrow> skip_rest T flags types c1; len2 \<leftarrow> skip_rest T flags types c2;
                    Some (if len1 > len2 then 1 else if len1 < len2 then -1 else 0) }) }"

definition wine_compare_string :: "sort_tables \<Rightarrow> u32 \<Rightarrow> wchar list \<Rightarrow> wchar list \<Rightarrow> int option" where
  "wine_compare_string T flags str1 str2 =
     compare_weights T flags str1 str2
       ((if has_flag flags NORM_IGNORENONSPACE then 0 else DIACRITIC_WEIGHT) OR
        (if has_flag flags NORM_IGNORECASE then 0 else CASE_WEIGHT))"

section \<open>The layout of a sort key\<close>

lemma splice_sort:
  assumes "p + length xs \<le> q" "q + length ys \<le> length b"
  shows "splice (splice b q ys) p xs = splice (splice b p xs) q ys"
proof -
  obtain A X U Y R where b: "b = A @ X @ U @ Y @ R" and l: "length A = p" "length X = length xs"
    "length Y = length ys" "q = p + length xs + length U"
  proof
    let ?b1 = "drop p b"
    let ?b2 = "drop (length xs) ?b1"
    let ?b3 = "drop (q - (p + length xs)) ?b2"
    show "b = take p b @ take (length xs) ?b1 @ take (q - (p + length xs)) ?b2 @ take (length ys) ?b3 @ drop (length ys) ?b3"
      by (simp only: append_take_drop_id)
  qed (use assms in auto)
  have 1: "splice (A @ X @ U @ Y @ R) q ys = A @ X @ U @ ys @ R"
    using l by (simp add: splice_def)
  have 2: "splice (A @ X @ U @ Y @ R) p xs = A @ xs @ U @ Y @ R"
    using l by (simp add: splice_def)
  show ?thesis unfolding b 1 2 using l by (simp add: splice_def)
qed

lemma puts_spec: "p + length bs \<le> length dst \<Longrightarrow> puts dst p bs = Some (splice dst p bs, p + length bs)"
  by (induction bs arbitrary: dst p) simp_all

primrec key_elements :: "sort_tables \<Rightarrow> u32 \<Rightarrow> wchar list \<Rightarrow> (wchar \<times> u32) list option" where
  "key_elements T flags [] = Some []"
| "key_elements T flags (ch # src) =
     (if ch = 0 \<and> has_flag flags NORM_STOP_ON_NULL then Some []
      else do { e \<leftarrow> key_element T flags ch; es \<leftarrow> key_elements T flags src;
                Some (case e of None \<Rightarrow> es | Some e \<Rightarrow> e # es) })"

definition key_part0 :: "(wchar \<times> u32) list \<Rightarrow> bytes" where "key_part0 es = concat (map (\<lambda>e. fst (key_bytes e)) es)"
definition key_part1 :: "(wchar \<times> u32) list \<Rightarrow> bytes" where "key_part1 es = concat (map (\<lambda>e. fst (snd (key_bytes e))) es)"
definition key_part2 :: "(wchar \<times> u32) list \<Rightarrow> bytes" where "key_part2 es = concat (map (\<lambda>e. fst (snd (snd (key_bytes e)))) es)"
definition key_part3 :: "(wchar \<times> u32) list \<Rightarrow> bytes" where "key_part3 es = concat (map (\<lambda>e. snd (snd (snd (key_bytes e)))) es)"

lemmas key_parts = key_part0_def key_part1_def key_part2_def key_part3_def

text \<open>The characters counted for the last part whose low byte is 0 are not written.\<close>

definition lost_bytes :: "(wchar \<times> u32) list \<Rightarrow> nat" where
  "lost_bytes es = length (filter (\<lambda>(wch, ce). ce \<noteq> -1 \<and> ce AND 1 \<noteq> 0 \<and> low_byte wch = 0) es)"

lemma add_key_len_bytes:
  "add_key_len e (l0, l1, l2, l3) = (case key_bytes e of (b0, b1, b2, b3) \<Rightarrow>
     (l0 + length b0, l1 + length b1, l2 + length b2, l3 + length b3 + lost_bytes [e]))"
  by (cases e) (auto simp: add_key_len_def key_bytes_def key_char_def lost_bytes_def Let_def)

lemma key_lens_spec:
  "key_elements T flags src = Some es \<Longrightarrow> key_lens T flags src (l0, l1, l2, l3) =
    Some (l0 + length (key_part0 es), l1 + length (key_part1 es), l2 + length (key_part2 es),
      l3 + length (key_part3 es) + lost_bytes es)"
proof (induction src arbitrary: es l0 l1 l2 l3)
  case (Cons ch src)
  show ?case
  proof (cases "ch = 0 \<and> has_flag flags NORM_STOP_ON_NULL")
    case True
    then show ?thesis using Cons.prems by (auto simp: key_parts lost_bytes_def)
  next
    case False
    then obtain e es' where e: "key_element T flags ch = Some e" "key_elements T flags src = Some es'"
      and es: "es = (case e of None \<Rightarrow> es' | Some e \<Rightarrow> e # es')"
      using Cons.prems by (auto simp: bind_eq_Some_conv)
    show ?thesis
    proof (cases e)
      case None
      then show ?thesis using False e es Cons.IH [OF e(2)] by auto
    next
      case (Some x)
      have "lost_bytes (x # es') = lost_bytes [x] + lost_bytes es'" by (simp add: lost_bytes_def)
      then show ?thesis
        using False e es Some by (auto simp: add_key_len_bytes Cons.IH [OF e(2)] key_parts split: prod.splits)
    qed
  qed
qed (auto simp: key_parts lost_bytes_def)

lemma key_write_spec:
  "key_elements T flags src = Some es \<Longrightarrow> p0 + length (key_part0 es) \<le> p1 \<Longrightarrow> p1 + length (key_part1 es) \<le> p2 \<Longrightarrow>
    p2 + length (key_part2 es) \<le> p3 \<Longrightarrow> p3 + length (key_part3 es) \<le> length dst \<Longrightarrow>
    key_write T flags src dst p0 p1 p2 p3 =
      Some (splice (splice (splice (splice dst p0 (key_part0 es)) p1 (key_part1 es)) p2 (key_part2 es)) p3 (key_part3 es),
        p0 + length (key_part0 es), p1 + length (key_part1 es), p2 + length (key_part2 es), p3 + length (key_part3 es))"
proof (induction src arbitrary: es dst p0 p1 p2 p3)
  case (Cons ch src)
  show ?case
  proof (cases "ch = 0 \<and> has_flag flags NORM_STOP_ON_NULL")
    case True
    then show ?thesis using Cons.prems by (auto simp: key_parts)
  next
    case False
    then obtain e es' where e: "key_element T flags ch = Some e" "key_elements T flags src = Some es'"
      and es: "es = (case e of None \<Rightarrow> es' | Some e \<Rightarrow> e # es')"
      using Cons.prems by (auto simp: bind_eq_Some_conv)
    show ?thesis
    proof (cases e)
      case None
      then show ?thesis using False e es Cons.IH [OF e(2)] Cons.prems(2-) by auto
    next
      case (Some x)
      obtain b0 b1 b2 b3 where b: "key_bytes x = (b0, b1, b2, b3)" by (cases "key_bytes x")
      have parts: "key_part0 es = b0 @ key_part0 es'" "key_part1 es = b1 @ key_part1 es'"
        "key_part2 es = b2 @ key_part2 es'" "key_part3 es = b3 @ key_part3 es'"
        using es Some b by (simp_all add: key_parts)
      show ?thesis
        using False e Some b Cons.prems(2-)
        by (auto simp: puts_spec Cons.IH [OF e(2)] parts
            splice_sort [of "p0 + length b0" "key_part0 es'" p1 b1] splice_sort [of "p0 + length b0" "key_part0 es'" p2 b2]
            splice_sort [of "p0 + length b0" "key_part0 es'" p3 b3] splice_sort [of "p1 + length b1" "key_part1 es'" p2 b2]
            splice_sort [of "p1 + length b1" "key_part1 es'" p3 b3] splice_sort [of "p2 + length b2" "key_part2 es'" p3 b3])
    qed
  qed
qed (auto simp: key_parts)

lemma splice_key:
  assumes "length k0 = a0" "Suc a0 = b1" "b1 + length k1 = a1" "Suc a1 = b2" "b2 + length k2 = a2" "Suc a2 = b3"
    "b3 + length k3 = a3" "Suc a3 < length dst"
  shows "splice (splice (splice (splice (splice (splice (splice (splice (splice dst 0 k0) b1 k1) b2 k2) b3 k3)
      a0 [x]) a1 [x]) a2 [x]) a3 [x]) (a3 + 1) [y] = splice dst 0 (k0 @ [x] @ k1 @ [x] @ k2 @ [x] @ k3 @ [x, y])"
proof -
  have 1: "splice (splice (splice (splice (splice dst 0 k0) b1 k1) b2 k2) b3 k3) a0 [x] =
      splice (splice (splice dst 0 (k0 @ [x] @ k1)) b2 k2) b3 k3"
    using assms by (simp add: splice_sort [of a0 "[x]" b1 k1] splice_sort [of a0 "[x]" b2 k2] splice_sort [of a0 "[x]" b3 k3])
  have 2: "splice (splice (splice (splice dst 0 (k0 @ [x] @ k1)) b2 k2) b3 k3) a1 [x] =
      splice (splice dst 0 (k0 @ [x] @ k1 @ [x] @ k2)) b3 k3"
    using assms by (simp add: splice_sort [of a1 "[x]" b2 k2] splice_sort [of a1 "[x]" b3 k3])
  have 3: "splice (splice (splice dst 0 (k0 @ [x] @ k1 @ [x] @ k2)) b3 k3) a2 [x] =
      splice dst 0 (k0 @ [x] @ k1 @ [x] @ k2 @ [x] @ k3)"
    using assms by (simp add: splice_sort [of a2 "[x]" b3 k3])
  show ?thesis unfolding 1 2 3 using assms by simp
qed

lemma wine_get_sortkey_layout:
  assumes "key_elements T flags src = Some es"
  defines "n \<equiv> length (key_part0 es) + length (key_part1 es) + length (key_part2 es) + length (key_part3 es) + 4"
  defines "key \<equiv> key_part0 es @ [1] @ key_part1 es @ [1] @ key_part2 es @ [1] @ key_part3 es @ [1, 0]"
  shows "wine_get_sortkey T flags src dst =
    (if dst = [] then Some (n + lost_bytes es, dst)
     else if length dst < n + lost_bytes es + 1 then Some (0, dst)
     else Some (n, splice dst 0 key))"
proof -
  have kl: "key_lens T flags src (0, 0, 0, 0) = Some (length (key_part0 es), length (key_part1 es), length (key_part2 es),
      length (key_part3 es) + lost_bytes es)"
    using key_lens_spec [OF assms(1), of 0 0 0 0] by simp
  define a0 where "a0 = length (key_part0 es)"
  define b1 where "b1 = a0 + 1"
  define a1 where "a1 = b1 + length (key_part1 es)"
  define b2 where "b2 = a1 + 1"
  define a2 where "a2 = b2 + length (key_part2 es)"
  define b3 where "b3 = a2 + 1"
  define a3 where "a3 = b3 + length (key_part3 es)"
  have n: "n = a3 + 1" by (simp add: n_def a0_def a1_def a2_def a3_def b1_def b2_def b3_def)
  have kw: "key_write T flags src dst 0 b1 b2 b3 = Some (splice (splice (splice (splice dst 0 (key_part0 es)) b1 (key_part1 es))
      b2 (key_part2 es)) b3 (key_part3 es), a0, a1, a2, a3)" if "a3 + 1 < length dst"
    using key_write_spec [OF assms(1), of 0 b1 b2 b3 dst] that
    by (simp add: a0_def a1_def a2_def a3_def b1_def b2_def b3_def)
  have "splice (splice (splice (splice (splice (splice (splice (splice (splice dst 0 (key_part0 es)) b1 (key_part1 es))
      b2 (key_part2 es)) b3 (key_part3 es)) a0 [1]) a1 [1]) a2 [1]) a3 [1]) (a3 + 1) [0] = splice dst 0 key" if "a3 + 1 < length dst"
    unfolding key_def using that
    by (intro splice_key) (simp_all add: a0_def a1_def a2_def a3_def b1_def b2_def b3_def)
  then have fin: "do { d \<leftarrow> wr (splice (splice (splice (splice dst 0 (key_part0 es)) b1 (key_part1 es)) b2 (key_part2 es)) b3
        (key_part3 es)) a0 1; d \<leftarrow> wr d a1 1; d \<leftarrow> wr d a2 1; d \<leftarrow> wr d a3 1; wr d (a3 + 1) 0 } = Some (splice dst 0 key)"
    if "a3 + 1 < length dst"
    using that by (simp add: a0_def a1_def a2_def a3_def b1_def b2_def b3_def del: splice_splice)
  have pos: "length (key_part0 es) + 1 = b1" "b1 + length (key_part1 es) + 1 = b2" "b2 + length (key_part2 es) + 1 = b3"
    by (simp_all add: a0_def a1_def a2_def b1_def b2_def b3_def)
  have sum: "length (key_part0 es) + length (key_part1 es) + length (key_part2 es) + (length (key_part3 es) + lost_bytes es) + 4
      = n + lost_bytes es"
    by (simp add: n_def)
  show ?thesis
  proof (cases "dst = [] \<or> length dst < n + lost_bytes es + 1")
    case True
    then show ?thesis by (auto simp only: wine_get_sortkey_def kl sum bind.bind_lunit prod.case split: if_splits)
  next
    case False
    then have l: "a3 + 1 < length dst" and ne: "dst \<noteq> []" "\<not> length dst < n + lost_bytes es + 1" using n by auto
    show ?thesis
      unfolding wine_get_sortkey_def kl using fin [OF l] kw [OF l] n
      by (auto simp only: sum pos ne bind.bind_lunit prod.case if_False bind_eq_Some_conv simp_thms)
  qed
qed

section \<open>The comparison is antisymmetric\<close>

fun swap_round :: "round \<Rightarrow> round" where
  "swap_round (Return r) = Return (- r)"
| "swap_round (Advance a b) = Advance b a"

lemma compare_round_swap:
  "compare_round T flags types c2 c1 = map_option swap_round (compare_round T flags types c1 c2)"
proof (cases "cur_char c1")
  case None
  then show ?thesis by (cases "cur_char c2") (simp_all add: compare_round_def)
next
  case (Some w1)
  note w1 = Some
  show ?thesis
  proof (cases "cur_char c2")
    case None
    then show ?thesis using w1 by (simp add: compare_round_def)
  next
    case (Some w2)
    show ?thesis
      using w1 Some
      by (cases "is_symbol T w1"; cases "is_symbol T w2"; cases "eval_weight T w1 types"; cases "eval_weight T w2 types")
        (auto simp: compare_round_def)
  qed
qed

fun swap_result :: "int + cursor \<times> cursor \<Rightarrow> int + cursor \<times> cursor" where
  "swap_result (Inl r) = Inl (- r)"
| "swap_result (Inr (c1, c2)) = Inr (c2, c1)"

lemma compare_loop_swap:
  "compare_loop T flags types c2 c1 = map_option swap_result (compare_loop T flags types c1 c2)"
proof (induction T flags types c1 c2 rule: compare_loop.induct)
  case (1 T flags types c1 c2)
  show ?case
  proof (cases "cstr c1 = [] \<or> cstr c2 = [] \<or> has_flag flags NORM_STOP_ON_NULL \<and> (hd (cstr c1) = 0 \<or> hd (cstr c2) = 0)")
    case True
    then show ?thesis by (subst (1 2) compare_loop.simps) auto
  next
    case False
    then have n: "\<not> (cstr c1 = [] \<or> cstr c2 = [])" "\<not> (has_flag flags NORM_STOP_ON_NULL \<and> (hd (cstr c1) = 0 \<or> hd (cstr c2) = 0))"
      by auto
    show ?thesis
    proof (cases "load_char T c1")
      case None
      then show ?thesis using n by (subst (1 2) compare_loop.simps) (auto split: option.splits)
    next
      case (Some d1)
      note d1 = Some
      show ?thesis
      proof (cases "load_char T c2")
        case None
        then show ?thesis using n by (subst (1 2) compare_loop.simps) (auto split: option.splits)
      next
        case (Some d2)
        note d2 = Some
        show ?thesis
        proof (cases "compare_round T flags types d1 d2")
          case None
          then show ?thesis
            using n d1 d2 compare_round_swap [of T flags types d2 d1] by (subst (1 2) compare_loop.simps) auto
        next
          case (Some r)
          show ?thesis
          proof (cases r)
            case (Return k)
            then show ?thesis
              using n d1 d2 Some compare_round_swap [of T flags types d2 d1] by (subst (1 2) compare_loop.simps) auto
          next
            case (Advance a b)
            then show ?thesis
              using n d1 d2 Some compare_round_swap [of T flags types d2 d1]
                1 [OF n d1 d2 Some Advance] by (subst (1 2) compare_loop.simps) auto
          qed
        qed
      qed
    qed
  qed
qed

lemma compare_weights_swap:
  "compare_weights T flags s2 s1 types = map_option uminus (compare_weights T flags s1 s2 types)"
proof (cases "compare_loop T flags types (start_cursor s1) (start_cursor s2)")
  case None
  then show ?thesis using compare_loop_swap [of T flags types "start_cursor s2" "start_cursor s1"] by (simp add: compare_weights_def)
next
  case (Some res)
  note sw = compare_loop_swap [of T flags types "start_cursor s2" "start_cursor s1"]
  show ?thesis
  proof (cases res)
    case (Inl r)
    then show ?thesis using Some sw by (simp add: compare_weights_def)
  next
    case (Inr p)
    obtain c1 c2 where p: "p = (c1, c2)" by (cases p)
    show ?thesis
      using Some sw Inr p
      by (cases "skip_rest T flags types c1"; cases "skip_rest T flags types c2") (auto simp: compare_weights_def)
  qed
qed

section \<open>The comparison is lexicographic\<close>

text \<open>Tables with which no access is outside an array and no decomposition larger than the buffer.\<close>

definition full_table :: "'a :: len word list \<Rightarrow> bool" where
  "full_table tab \<longleftrightarrow> 256 \<le> length tab \<and> (\<forall>h \<in> set (take 256 tab). unat h + 256 \<le> length tab)"

definition decomposed :: "sort_tables \<Rightarrow> wchar \<Rightarrow> wchar list" where
  "decomposed T ch = the (decomposition (decompose_levels T) (decompose_tables T) 0 ch)"

definition tables_ok :: "sort_tables \<Rightarrow> bool" where
  "tables_ok T \<longleftrightarrow> full_table (wctype_table T) \<and> full_table (collation_table T) \<and>
     (\<forall>ch. \<exists>ds. decomposition (decompose_levels T) (decompose_tables T) 0 ch = Some ds \<and> length ds \<le> 4)"

lemma full_table_Some: "full_table tab \<Longrightarrow> \<exists>v. tab2 tab ch = Some v"
proof -
  assume f: "full_table tab"
  let ?i = "unat (drop_bit 8 (ucast ch :: u16))"
  have "?i = unat (ucast ch :: u16) div 256" by (simp add: nat_bits)
  also have "\<dots> < 256" using unat_u16_less [of "ucast ch"] by linarith
  finally have i: "?i < 256" .
  then have "?i < length tab" and m: "tab ! ?i \<in> set (take 256 tab)"
    using f by (auto simp: full_table_def in_set_conv_nth intro!: exI [of _ ?i])
  moreover have "unat (tab ! ?i) + unat (ch AND 0xff) < length tab"
  proof -
    have "unat (tab ! ?i) + 256 \<le> length tab" using f m by (auto simp: full_table_def)
    moreover have "unat ch mod 256 < 256" by simp
    ultimately show ?thesis by (simp del: mod_less_divisor)
  qed
  ultimately show ?thesis by (simp add: tab2_def)
qed

lemma decomposed: 
  assumes "tables_ok T"
  shows "decomposition (decompose_levels T) (decompose_tables T) 0 ch = Some (decomposed T ch)"
    and "decomposed T ch \<noteq> []" and "length (decomposed T ch) \<le> 4"
proof -
  obtain ds where d: "decomposition (decompose_levels T) (decompose_tables T) 0 ch = Some ds" "length ds \<le> 4"
    using assms by (auto simp: tables_ok_def)
  then show "decomposition (decompose_levels T) (decompose_tables T) 0 ch = Some (decomposed T ch)"
    "length (decomposed T ch) \<le> 4" by (simp_all add: decomposed_def)
  show "decomposed T ch \<noteq> []" using decomposition_nonempty [OF d(1)] d by (simp add: decomposed_def)
qed

definition weight :: "sort_tables \<Rightarrow> u32 \<Rightarrow> wchar \<Rightarrow> u32" where
  "weight T types ch = the (eval_weight T ch types)"

lemma weight: "tables_ok T \<Longrightarrow> eval_weight T ch types = Some (weight T types ch)"
proof -
  assume t: "tables_ok T"
  obtain v where "tab2 (collation_table T) ch = Some v"
    using full_table_Some [of "collation_table T" ch] t by (auto simp: tables_ok_def)
  moreover obtain u where "get_char_typeW T ch = Some u"
    using full_table_Some [of "wctype_table T" ch] t by (auto simp: tables_ok_def get_char_typeW_def)
  ultimately have "\<exists>w. eval_weight T ch types = Some w" by (simp add: eval_weight_def Let_def)
  then show ?thesis by (auto simp: weight_def)
qed

lemma symbol_Some: "tables_ok T \<Longrightarrow> \<exists>b. is_symbol T ch = Some b"
  using full_table_Some [of "wctype_table T" ch] by (auto simp: tables_ok_def get_char_typeW_def is_symbol_def)

text \<open>A cursor stands for the characters of the decompositions that are still to be compared.\<close>

definition cursor_ok :: "sort_tables \<Rightarrow> cursor \<Rightarrow> bool" where
  "cursor_ok T c \<longleftrightarrow> length (dstr c) = 4 \<and>
     (if dlen c = 0 then dpos c = 0
      else cstr c \<noteq> [] \<and> dpos c < dlen c \<and> take (dlen c) (dstr c) = decomposed T (hd (cstr c)) \<and> dlen c \<le> 4)"

definition pending :: "sort_tables \<Rightarrow> cursor \<Rightarrow> wchar list" where
  "pending T c = (if dlen c = 0 then concat (map (decomposed T) (cstr c))
     else drop (dpos c) (take (dlen c) (dstr c)) @ concat (map (decomposed T) (tl (cstr c))))"

lemma load_char_ok:
  assumes t: "tables_ok T" and c: "cursor_ok T c" and ne: "cstr c \<noteq> []"
  shows "\<exists>d. load_char T c = Some d \<and> cursor_ok T d \<and> dlen d \<noteq> 0 \<and> cstr d = cstr c \<and> pending T d = pending T c"
proof (cases "dlen c = 0")
  case False
  then show ?thesis using c by (simp add: load_char_def)
next
  case True
  let ?ds = "decomposed T (hd (cstr c))"
  note d = decomposed [OF t, of "hd (cstr c)"]
  have l: "length (dstr c) = 4" using c by (simp add: cursor_ok_def)
  have w: "wine_decompose (decompose_levels T) (decompose_tables T) 0 (hd (cstr c)) (dstr c) 0 4 =
      Some (length ?ds, splice (dstr c) 0 ?ds)"
    using decompose_ok [unfolded decompose_ok_def, rule_format, OF d(1), of 4 0 "dstr c"] l d(3) by simp
  have "concat (map (decomposed T) (cstr c)) = ?ds @ concat (map (decomposed T) (tl (cstr c)))"
    using ne by (cases "cstr c") auto
  then show ?thesis
    using True w d c l ne by (auto simp: load_char_def cursor_ok_def pending_def splice_start)
qed

lemma pending_Cons:
  assumes "cursor_ok T c" "dlen c \<noteq> 0"
  shows "pending T c = dstr c ! dpos c # drop (Suc (dpos c)) (take (dlen c) (dstr c)) @ concat (map (decomposed T) (tl (cstr c)))"
proof -
  have "dpos c < dlen c" "dlen c \<le> 4" "length (dstr c) = 4" using assms by (auto simp: cursor_ok_def)
  then have "drop (dpos c) (take (dlen c) (dstr c)) = dstr c ! dpos c # drop (Suc (dpos c)) (take (dlen c) (dstr c))"
    by (subst drop_nth_Cons) auto
  then show ?thesis using assms(2) by (simp add: pending_def)
qed

lemma cur_char_ok:
  "cursor_ok T c \<Longrightarrow> dlen c \<noteq> 0 \<Longrightarrow> cur_char c = Some (hd (pending T c)) \<and> pending T c \<noteq> []"
  by (simp add: pending_Cons) (auto simp: cur_char_def cursor_ok_def rd_eq_Some)

lemma inc_str_pos_ok:
  assumes "cursor_ok T c" "dlen c \<noteq> 0"
  shows "cursor_ok T (inc_str_pos c) \<and> pending T (inc_str_pos c) = tl (pending T c)"
proof -
  have l: "dpos c < dlen c" "dlen c \<le> 4" "length (dstr c) = 4" using assms by (auto simp: cursor_ok_def)
  show ?thesis
  proof (cases "Suc (dpos c) = dlen c")
    case True
    then have "drop (Suc (dpos c)) (take (dlen c) (dstr c)) = []" using l by simp
    then show ?thesis
      using assms l True by (simp add: pending_Cons) (simp add: inc_str_pos_def Let_def cursor_ok_def pending_def)
  next
    case False
    then show ?thesis
      using assms l by (simp add: pending_Cons) (simp add: inc_str_pos_def Let_def cursor_ok_def pending_def)
  qed
qed

text \<open>The order of the weights: lexicographic, over the characters that have a weight.\<close>

fun lex_cmp :: "u32 list \<Rightarrow> u32 list \<Rightarrow> int" where
  "lex_cmp [] [] = 0"
| "lex_cmp [] (b # bs) = -1"
| "lex_cmp (a # as) [] = 1"
| "lex_cmp (a # as) (b # bs) = (if a = b then lex_cmp as bs else if a > b then 1 else -1)"

definition weights :: "sort_tables \<Rightarrow> u32 \<Rightarrow> wchar list \<Rightarrow> u32 list" where
  "weights T types ws = filter (\<lambda>w. w \<noteq> 0) (map (weight T types) ws)"

definition finish :: "sort_tables \<Rightarrow> u32 \<Rightarrow> u32 \<Rightarrow> int + cursor \<times> cursor \<Rightarrow> int option" where
  "finish T flags types res = (case res of Inl r \<Rightarrow> Some r
     | Inr (c1, c2) \<Rightarrow>
         do { len1 \<leftarrow> skip_rest T flags types c1; len2 \<leftarrow> skip_rest T flags types c2;
              Some (if len1 > len2 then 1 else if len1 < len2 then -1 else 0) })"

lemma skip_rest_unfold:
  assumes "tables_ok T" "cursor_ok T c" "cstr c \<noteq> []" "\<not> (hd (cstr c) = 0 \<and> has_flag flags NORM_STOP_ON_NULL)"
  obtains d where "load_char T c = Some d" "cursor_ok T d" "dlen d \<noteq> 0" "cstr d = cstr c" "pending T d = pending T c"
    "skip_rest T flags types c = (if weight T types (hd (pending T c)) \<noteq> 0 then Some (length (cstr c))
       else skip_rest T flags types (inc_str_pos d))"
proof -
  obtain d where d: "load_char T c = Some d" "cursor_ok T d" "dlen d \<noteq> 0" "cstr d = cstr c" "pending T d = pending T c"
    using load_char_ok [OF assms(1-3)] by blast
  then have "skip_rest T flags types c = (if weight T types (hd (pending T c)) \<noteq> 0 then Some (length (cstr c))
       else skip_rest T flags types (inc_str_pos d))"
    using assms cur_char_ok [OF d(2,3)] weight [OF assms(1)] by (subst skip_rest.simps) auto
  with d show ?thesis by (rule that)
qed

lemma skip_rest_spec:
  "tables_ok T \<Longrightarrow> cursor_ok T c \<Longrightarrow> \<exists>k. skip_rest T flags types c = Some k \<and>
    (\<not> has_flag flags NORM_STOP_ON_NULL \<longrightarrow> (k = 0 \<longleftrightarrow> weights T types (pending T c) = []))"
proof (induction T flags types c rule: skip_rest.induct)
  case (1 T flags types c)
  consider (nil) "cstr c = []" | (null) "cstr c \<noteq> []" "hd (cstr c) = 0 \<and> has_flag flags NORM_STOP_ON_NULL"
    | (char) "cstr c \<noteq> []" "\<not> (hd (cstr c) = 0 \<and> has_flag flags NORM_STOP_ON_NULL)" by blast
  then show ?case
  proof cases
    case nil
    then show ?thesis using 1(3) by (auto simp: skip_rest.simps pending_def weights_def cursor_ok_def split: if_splits)
  next
    case null
    then show ?thesis by (auto simp: skip_rest.simps)
  next
    case char
    from skip_rest_unfold [OF 1(2,3) char, of types] obtain d where d: "load_char T c = Some d" "cursor_ok T d" "dlen d \<noteq> 0"
      "cstr d = cstr c" "pending T d = pending T c" and u: "skip_rest T flags types c =
        (if weight T types (hd (pending T c)) \<noteq> 0 then Some (length (cstr c)) else skip_rest T flags types (inc_str_pos d))"
      by metis
    note cc = cur_char_ok [OF d(2,3)] and ic = inc_str_pos_ok [OF d(2,3)]
    obtain w ws where p: "pending T c = w # ws" using cc d(5) by (cases "pending T c") auto
    show ?thesis
    proof (cases "weight T types w = 0")
      case True
      have "cur_char d = Some w" using cc d(5) p by simp
      then show ?thesis
        using 1(1) [OF char(1,2) d(1) _ weight [OF 1(2)] _ 1(2), of w] True u ic d(5) p by (simp add: weights_def)
    next
      case False
      then show ?thesis using u p char(1) by (simp add: weights_def)
    qed
  qed
qed

lemma compare_round_Some:
  "tables_ok T \<Longrightarrow> cur_char c1 = Some w1 \<Longrightarrow> cur_char c2 = Some w2 \<Longrightarrow> \<exists>r. compare_round T flags types c1 c2 = Some r"
  using symbol_Some [of T w1] symbol_Some [of T w2]
  by (auto simp: compare_round_def weight)

lemma compare_loop_total:
  "tables_ok T \<Longrightarrow> cursor_ok T c1 \<Longrightarrow> cursor_ok T c2 \<Longrightarrow>
    \<exists>res r. compare_loop T flags types c1 c2 = Some res \<and> finish T flags types res = Some r"
proof (induction T flags types c1 c2 rule: compare_loop.induct)
  case (1 T flags types c1 c2)
  have sk: "\<exists>k. skip_rest T flags types (stop_at_null flags c) = Some k" if "cursor_ok T c" for c
    using skip_rest_spec [OF 1(2) that, of flags types] by (auto simp: stop_at_null_def skip_rest.simps [of _ _ _ "_ \<lparr>cstr := []\<rparr>"])
  consider (nil) "cstr c1 = [] \<or> cstr c2 = []"
    | (null) "\<not> (cstr c1 = [] \<or> cstr c2 = [])" "has_flag flags NORM_STOP_ON_NULL \<and> (hd (cstr c1) = 0 \<or> hd (cstr c2) = 0)"
    | (char) "\<not> (cstr c1 = [] \<or> cstr c2 = [])" "\<not> (has_flag flags NORM_STOP_ON_NULL \<and> (hd (cstr c1) = 0 \<or> hd (cstr c2) = 0))"
    by blast
  then show ?case
  proof cases
    case nil
    then show ?thesis
      using skip_rest_spec [OF 1(2,3), of flags types] skip_rest_spec [OF 1(2,4), of flags types]
      by (subst compare_loop.simps) (auto simp: finish_def)
  next
    case null
    then show ?thesis
      using sk [OF 1(3)] sk [OF 1(4)] by (subst compare_loop.simps) (auto simp: finish_def)
  next
    case char
    obtain d1 d2 where d1: "load_char T c1 = Some d1" "cursor_ok T d1" "dlen d1 \<noteq> 0"
      and d2: "load_char T c2 = Some d2" "cursor_ok T d2" "dlen d2 \<noteq> 0"
      using load_char_ok [OF 1(2,3)] load_char_ok [OF 1(2,4)] char(1) by blast
    obtain r where r: "compare_round T flags types d1 d2 = Some r"
      using compare_round_Some [OF 1(2)] cur_char_ok [OF d1(2,3)] cur_char_ok [OF d2(2,3)] by blast
    have u: "compare_loop T flags types c1 c2 = (case r of Return k \<Rightarrow> Some (Inl k)
        | Advance a b \<Rightarrow> compare_loop T flags types (if a then inc_str_pos d1 else d1) (if b then inc_str_pos d2 else d2))"
      using char d1(1) d2(1) r by (subst compare_loop.simps) auto
    show ?thesis
    proof (cases r)
      case (Return k)
      then show ?thesis using u by (auto simp: finish_def)
    next
      case (Advance a b)
      then show ?thesis
        using 1(1) [OF char d1(1) d2(1) r Advance 1(2)] inc_str_pos_ok [OF d1(2,3)] inc_str_pos_ok [OF d2(2,3)] d1(2) d2(2) u
        by (cases a; cases b) simp_all
    qed
  qed
qed

lemma cursor_ok_start: "cursor_ok T (start_cursor s)" "pending T (start_cursor s) = concat (map (decomposed T) s)"
  by (simp_all add: start_cursor_def cursor_ok_def pending_def)

lemma compare_weights_finish:
  "compare_weights T flags s1 s2 types =
    do { res \<leftarrow> compare_loop T flags types (start_cursor s1) (start_cursor s2); finish T flags types res }"
  by (simp add: compare_weights_def finish_def)

lemma compare_round_plain:
  assumes "tables_ok T" "cur_char c1 = Some w1" "cur_char c2 = Some w2"
    "has_flag flags SORT_STRINGSORT" "\<not> has_flag flags NORM_IGNORESYMBOLS"
  shows "compare_round T flags types c1 c2 = (let a = weight T types w1; b = weight T types w2 in
    if a \<noteq> 0 \<and> b \<noteq> 0 \<and> a \<noteq> b then Some (Return (if a > b then 1 else -1))
    else Some (Advance (a = 0 \<or> b \<noteq> 0) (b = 0 \<or> a \<noteq> 0)))"
  using assms by (simp add: compare_round_def weight Let_def)

lemma compare_loop_lex:
  "tables_ok T \<Longrightarrow> cursor_ok T c1 \<Longrightarrow> cursor_ok T c2 \<Longrightarrow> has_flag flags SORT_STRINGSORT \<Longrightarrow>
    \<not> has_flag flags NORM_IGNORESYMBOLS \<Longrightarrow> \<not> has_flag flags NORM_STOP_ON_NULL \<Longrightarrow>
    \<exists>res. compare_loop T flags types c1 c2 = Some res \<and>
      finish T flags types res = Some (lex_cmp (weights T types (pending T c1)) (weights T types (pending T c2)))"
proof (induction T flags types c1 c2 rule: compare_loop.induct)
  case (1 T flags types c1 c2)
  show ?case
  proof (cases "cstr c1 = [] \<or> cstr c2 = []")
    case True
    have p: "pending T c = []" if "cstr c = []" "cursor_ok T c" for c
      using that by (auto simp: pending_def cursor_ok_def split: if_splits)
    obtain k1 k2 where k: "skip_rest T flags types c1 = Some k1" "k1 = 0 \<longleftrightarrow> weights T types (pending T c1) = []"
      "skip_rest T flags types c2 = Some k2" "k2 = 0 \<longleftrightarrow> weights T types (pending T c2) = []"
      using skip_rest_spec [OF 1(2,3), of flags types] skip_rest_spec [OF 1(2,4), of flags types] 1(7) by blast
    then show ?thesis
      using True p [OF _ 1(3)] p [OF _ 1(4)]
      by (subst compare_loop.simps)
        (cases "weights T types (pending T c1)"; cases "weights T types (pending T c2)"; auto simp: finish_def weights_def)
  next
    case char: False
    obtain d1 d2 where d1: "load_char T c1 = Some d1" "cursor_ok T d1" "dlen d1 \<noteq> 0" "pending T d1 = pending T c1"
      and d2: "load_char T c2 = Some d2" "cursor_ok T d2" "dlen d2 \<noteq> 0" "pending T d2 = pending T c2"
      using load_char_ok [OF 1(2,3)] load_char_ok [OF 1(2,4)] char(1) by blast
    obtain w1 ws1 w2 ws2 where p: "pending T c1 = w1 # ws1" "pending T c2 = w2 # ws2"
      and w: "cur_char d1 = Some w1" "cur_char d2 = Some w2"
      using cur_char_ok [OF d1(2,3)] cur_char_ok [OF d2(2,3)] d1(4) d2(4)
      by (cases "pending T c1"; cases "pending T c2") auto
    have n: "\<not> (has_flag flags NORM_STOP_ON_NULL \<and> (hd (cstr c1) = 0 \<or> hd (cstr c2) = 0))" using 1(7) by simp
    define a b where "a = weight T types w1" and "b = weight T types w2"
    have r: "compare_round T flags types d1 d2 = (if a \<noteq> 0 \<and> b \<noteq> 0 \<and> a \<noteq> b then Some (Return (if a > b then 1 else -1))
        else Some (Advance (a = 0 \<or> b \<noteq> 0) (b = 0 \<or> a \<noteq> 0)))"
      using compare_round_plain [OF 1(2) w 1(5,6), of types] by (simp add: a_def b_def Let_def)
    have u: "compare_loop T flags types c1 c2 = (case compare_round T flags types d1 d2 of None \<Rightarrow> None
        | Some (Return k) \<Rightarrow> Some (Inl k)
        | Some (Advance a b) \<Rightarrow> compare_loop T flags types (if a then inc_str_pos d1 else d1) (if b then inc_str_pos d2 else d2))"
      using char n d1(1) d2(1) by (subst compare_loop.simps) auto
    have ws: "weights T types (w # ws) = (if weight T types w = 0 then weights T types ws else weight T types w # weights T types ws)" for w ws
      by (simp add: weights_def)
    show ?thesis
    proof (cases "a \<noteq> 0 \<and> b \<noteq> 0 \<and> a \<noteq> b")
      case True
      then show ?thesis using u r p ws by (auto simp: finish_def a_def b_def)
    next
      case False
      then have adv: "compare_round T flags types d1 d2 = Some (Advance (a = 0 \<or> b \<noteq> 0) (b = 0 \<or> a \<noteq> 0))" using r by auto
      let ?e1 = "if a = 0 \<or> b \<noteq> 0 then inc_str_pos d1 else d1" and ?e2 = "if b = 0 \<or> a \<noteq> 0 then inc_str_pos d2 else d2"
      have e: "cursor_ok T ?e1" "cursor_ok T ?e2"
        "pending T ?e1 = (if a = 0 \<or> b \<noteq> 0 then ws1 else w1 # ws1)" "pending T ?e2 = (if b = 0 \<or> a \<noteq> 0 then ws2 else w2 # ws2)"
        using inc_str_pos_ok [OF d1(2,3)] inc_str_pos_ok [OF d2(2,3)] d1 d2 p by auto
      have "lex_cmp (weights T types (pending T ?e1)) (weights T types (pending T ?e2)) =
          lex_cmp (weights T types (w1 # ws1)) (weights T types (w2 # ws2))"
        using False unfolding e(3,4) unfolding a_def b_def by (auto simp: ws)
      then show ?thesis
        using 1(1) [OF char n d1(1) d2(1) adv refl 1(2) e(1,2) 1(5-7)] u adv p by simp
    qed
  qed
qed

section \<open>Properties\<close>

text \<open>
  \<^verbatim>\<open>wine_compare_string\<close> ends and gives a result for any two strings and all flags, on tables in which
  every lookup is inside its array and no decomposition is larger than the buffer of four characters.
\<close>

theorem compare_string_total:
  assumes "tables_ok T"
  shows "\<exists>r. wine_compare_string T flags s1 s2 = Some r"
proof -
  let ?types = "(if has_flag flags NORM_IGNORENONSPACE then 0 else DIACRITIC_WEIGHT) OR
    (if has_flag flags NORM_IGNORECASE then 0 else CASE_WEIGHT)"
  show ?thesis
    using compare_loop_total [OF assms cursor_ok_start(1) [of T s1] cursor_ok_start(1) [of T s2], of flags ?types]
    by (auto simp: wine_compare_string_def compare_weights_finish)
qed

text \<open>Tables in which letters are weighed by their low byte, and nothing decomposes.\<close>

definition tiny_sort :: sort_tables where
  "tiny_sort = \<lparr>wctype_table = replicate 256 256 @ replicate 256 0x100, casemap_lower = replicate 256 256 @ replicate 256 0,
     casemap_upper = replicate 256 256 @ replicate 256 0,
     collation_table = replicate 256 256 @ map (\<lambda>i. push_bit 16 (of_nat i)) [0..<256],
     decompose_levels = 1, decompose_tables = \<lparr>decomp_table = replicate 600 0, compatmap_table = []\<rparr>\<rparr>"

lemma tiny_sort_ok: "tables_ok tiny_sort"
proof -
  have 1: "full_table (wctype_table tiny_sort)" "full_table (collation_table tiny_sort)" by code_simp+
  have "decomposition 1 \<lparr>decomp_table = replicate 600 0, compatmap_table = []\<rparr> 0 ch = Some [ch]" for ch
  proof -
    have "unat (drop_bit 8 (ucast ch :: u16)) = unat (ucast ch :: u16) div 256" by (simp add: nat_bits)
    also have "\<dots> < 600" using unat_u16_less [of "ucast ch"] by linarith
    finally have a: "unat (drop_bit 8 (ucast ch :: u16)) < 600" .
    have b: "unat (x AND 15 :: u32) < 16" for x by (simp add: nat_bits)
    have c: "unat (drop_bit 4 ch AND 15) < 600" "2 * unat (ch AND 15) + 1 < 600" "2 * unat (ch AND 15) < 600"
      using b [of "drop_bit 4 ch"] b [of ch] by auto
    have "has_flag 0 WINE_DECOMPOSE_COMPAT = False" by (simp add: has_flag_def)
    then show ?thesis using a c by (simp add: numeral_eq_Suc [of num.One] decompose_entry_def Let_def)
  qed
  then show ?thesis using 1 by (simp add: tables_ok_def) (simp add: tiny_sort_def)
qed

theorem compare_string_total_witness: "\<exists>r. wine_compare_string tiny_sort 0 [0x61, 0x2d] [0x62] = Some r"
  by (rule compare_string_total [OF tiny_sort_ok])

text \<open>
  \<^verbatim>\<open>wine_compare_string\<close> is antisymmetric: with its arguments exchanged it gives the negated result, for all
  strings, flags and tables; in particular a string compares equal to itself.
\<close>

theorem compare_string_antisym:
  "wine_compare_string T flags s2 s1 = map_option uminus (wine_compare_string T flags s1 s2)"
  unfolding wine_compare_string_def by (rule compare_weights_swap)

text \<open>
  C11. With \<^const>\<open>SORT_STRINGSORT\<close>, and without \<^const>\<open>NORM_IGNORESYMBOLS\<close> and
  \<^const>\<open>NORM_STOP_ON_NULL\<close>, the comparison is the lexicographic order of the weights of the
  decomposed strings, where characters without a weight do not count.
\<close>

theorem compare_string_lexicographic:
  assumes "tables_ok T" and "has_flag flags SORT_STRINGSORT" and "\<not> has_flag flags NORM_IGNORESYMBOLS"
    and "\<not> has_flag flags NORM_STOP_ON_NULL"
  defines "types \<equiv> (if has_flag flags NORM_IGNORENONSPACE then 0 else DIACRITIC_WEIGHT) OR
    (if has_flag flags NORM_IGNORECASE then 0 else CASE_WEIGHT)"
  shows "wine_compare_string T flags s1 s2 =
    Some (lex_cmp (weights T types (concat (map (decomposed T) s1))) (weights T types (concat (map (decomposed T) s2))))"
  using compare_loop_lex [OF assms(1) cursor_ok_start(1) cursor_ok_start(1) assms(2-4), of types s1 s2]
  by (auto simp: wine_compare_string_def compare_weights_finish cursor_ok_start types_def)

theorem compare_string_lexicographic_witness:
  "tables_ok tiny_sort \<and> wine_compare_string tiny_sort 0x1000 [0x61] [0x62] =
    Some (lex_cmp (weights tiny_sort 3 (concat (map (decomposed tiny_sort) [0x61]))) (weights tiny_sort 3 (concat (map (decomposed tiny_sort) [0x62]))))"
proof -
  have f: "has_flag 0x1000 SORT_STRINGSORT" "\<not> has_flag 0x1000 NORM_IGNORESYMBOLS" "\<not> has_flag 0x1000 NORM_STOP_ON_NULL"
    "\<not> has_flag 0x1000 NORM_IGNORENONSPACE" "\<not> has_flag 0x1000 NORM_IGNORECASE" "DIACRITIC_WEIGHT OR CASE_WEIGHT = 3"
    by code_simp+
  show ?thesis
    using tiny_sort_ok compare_string_lexicographic [OF tiny_sort_ok f(1-3), of "[0x61]" "[0x62]"] f(4-6) by simp
qed

text \<open>
  C35. A sort key consists of the four parts of the weights of all characters, each one closed by a byte 1, and
  a byte 0 behind them that is not counted. The length query never asks for less than the
  key needs: it counts the bytes that a character with low byte 0 does not add.
\<close>

theorem get_sortkey_layout:
  assumes "key_elements T flags src = Some es"
  shows "let n = length (key_part0 es) + length (key_part1 es) + length (key_part2 es) + length (key_part3 es) + 4;
      key = key_part0 es @ [1] @ key_part1 es @ [1] @ key_part2 es @ [1] @ key_part3 es @ [1, 0] in
    wine_get_sortkey T flags src dst =
      (if dst = [] then Some (n + lost_bytes es, [])
       else if length dst < n + lost_bytes es + 1 then Some (0, dst)
       else Some (n, key @ drop (n + 1) dst))"
  using wine_get_sortkey_layout [OF assms, of dst] by (simp add: Let_def splice_start numeral_eq_Suc add.assoc)

theorem get_sortkey_layout_witness:
  "wine_get_sortkey tiny_sort 0 [0x61, 0x62] (replicate 10 7) = Some (8, [0, 0x61, 0, 0x62, 1, 1, 1, 1, 0, 7])"
proof -
  let ?es = "[(0x61, 0x610000), (0x62, 0x620000)] :: (u32 \<times> u32) list"
  have e: "key_elements tiny_sort 0 [0x61, 0x62] = Some ?es" by code_simp
  have "key_part0 ?es = [0, 0x61, 0, 0x62]" "key_part1 ?es = []" "key_part2 ?es = []" "key_part3 ?es = []" "lost_bytes ?es = 0"
    by code_simp+
  then show ?thesis
    using get_sortkey_layout [OF e, of "replicate 10 7"] by (simp add: Let_def numeral_eq_Suc)
qed

end
