(* ===== verification/Bit64.thy ===== *)
theory Bit64
  imports Complex_Main LuaValue
begin

text \<open>
  The 64-bit integers of the Lua modules: \<^verbatim>\<open>luafar/src/bit64.c\<close>.

  A Lua value that stands for an \<^verbatim>\<open>int64_t\<close> is a number of at most 52 bits, a userdata with the metatable of the
  module or a string that \<open>f_new\<close> can read. A Lua number is a double: a rational number, an
  infinity or NaN. An \<^verbatim>\<open>int64_t\<close> is a word that is read with \<open>sint\<close>; its sums and products wrap around, as the
  supported compilers compute them, and a division that the processor refuses is a \<open>Trap\<close>.

  A function works on its stack, which holds its arguments; the place \<open>pos\<close> counts from 0. The metatable of the module
  is reachable for scripts, as the field \<^verbatim>\<open>__index\<close> of every integer, and so it may be an argument.
\<close>

datatype lua_number = Fin rat | Infinite bool | NotANumber

text \<open>
  A userdata is an integer of the module (\<open>Int64\<close>), has another metatable (\<open>Foreign_Userdata\<close>) or has none
  (\<open>Bare_Userdata\<close>, with the 64 bits at the start of its block, if the block is so long). \<open>Other\<close> stands for
  functions, threads, light userdata and the other tables.
\<close>

datatype lua_value = Nil | Boolean bool | Number lua_number | Str bytes | Int64 u64
  | Foreign_Userdata | Bare_Userdata "u64 option" | Metatable | Other

type_synonym stack = "lua_value list"

type_synonym call_result = "lua_value list lua_result"

section \<open>Representation of a value\<close>

definition FIT52 :: "rat \<Rightarrow> bool" where
  "FIT52 v \<longleftrightarrow> (v \<ge> 0 \<and> v < 2 ^ 52) \<or> (v < 0 \<and> v \<ge> - (2 ^ 52))"

definition bit64_push :: "u64 \<Rightarrow> lua_value" where
  "bit64_push v = (if FIT52 (of_int (sint v)) then Number (Fin (of_int (sint v))) else Int64 v)"

text \<open>The argument at a place; it is \<open>Nil\<close> if there is none.\<close>

definition arg :: "stack \<Rightarrow> nat \<Rightarrow> lua_value" where
  "arg as i = (if i < length as then as ! i else Nil)"

text \<open>
  \<open>bit64_getvalue\<close> pushes the metatable of the value and that of the module, compares and removes both. For a userdata without
  metatable nothing is pushed first: the metatable of the module is compared with the last argument, which is removed
  with it. \<open>same_metatable\<close> is the result of a call without a target, and the stack after it.
\<close>

definition same_metatable :: "stack \<Rightarrow> nat \<Rightarrow> bool \<times> stack" where
  "same_metatable as pos =
     (case arg as pos of
        Int64 v \<Rightarrow> (True, as)
      | Bare_Userdata b \<Rightarrow> (last as = Metatable, butlast as)
      | _ \<Rightarrow> (False, as))"

text \<open>The value is \<open>None\<close> if the function returns 0.\<close>

definition bit64_getvalue :: "stack \<Rightarrow> nat \<Rightarrow> (u64 option \<times> stack) lua_result" where
  "bit64_getvalue as pos =
     (case same_metatable as pos of
        (equal, st) \<Rightarrow>
          if equal then
            (case arg st pos of
               Int64 v \<Rightarrow> Inr (Some v, st)
             | Bare_Userdata b \<Rightarrow> (case b of Some v \<Rightarrow> Inr (Some v, st) | None \<Rightarrow> Inl BadRead)
             | _ \<Rightarrow> Inl BadRead)
          else Inr (None, st))"

text \<open>The cast of a double to an integer cuts the fraction.\<close>

definition trunc :: "rat \<Rightarrow> int" where
  "trunc q = (if q < 0 then \<lceil>q\<rceil> else \<lfloor>q\<rfloor>)"

section \<open>Numbers in strings\<close>

definition hex_digit :: "u8 \<Rightarrow> u64 option" where
  "hex_digit c =
     (if 48 \<le> c \<and> c \<le> 57 then Some (ucast (c - 48))
      else if 65 \<le> c \<and> c \<le> 70 then Some (ucast (c + 10 - 65))
      else if 97 \<le> c \<and> c \<le> 102 then Some (ucast (c + 10 - 97))
      else None)"

primrec hex_loop :: "bytes \<Rightarrow> u64 \<Rightarrow> u64 option" where
  "hex_loop [] v = Some v"
| "hex_loop (c # s) v = (case hex_digit c of None \<Rightarrow> None | Some a \<Rightarrow> hex_loop s (push_bit 4 v OR a))"

primrec dec_loop :: "bytes \<Rightarrow> u64 \<Rightarrow> u64 option" where
  "dec_loop [] v = Some v"
| "dec_loop (c # s) v = (if 48 \<le> c \<and> c \<le> 57 then dec_loop s (v * 10 + ucast c - 48) else None)"

definition new_from_string :: "bytes \<Rightarrow> u64 option" where
  "new_from_string s =
     (let neg = (byte_at s 0 = 45); i = (if neg then 1 else 0); n = length s - i;
          sign = map_option (\<lambda>v. if neg then - v else v)
      in if n > 2 \<and> n \<le> 18 \<and> byte_at s i = 48 \<and> (byte_at s (i + 1) = 120 \<or> byte_at s (i + 1) = 88)
         then sign (hex_loop (drop (i + 2) s) 0)
         else if n > 0 then sign (dec_loop (drop i s) 0)
         else None)"

definition new_from_number :: "lua_number \<Rightarrow> u64 option" where
  "new_from_number x =
     (case x of
        Fin q \<Rightarrow> (let v = word_of_int (trunc q) :: u64 in if q = of_int (sint v) then Some v else None)
      | _ \<Rightarrow> None)"

definition int64_or_nil :: "u64 option \<Rightarrow> lua_value" where
  "int64_or_nil v = (case v of None \<Rightarrow> Nil | Some v \<Rightarrow> Int64 v)"

definition f_new :: "stack \<Rightarrow> call_result" where
  "f_new as =
     (case arg as 0 of
        Str s \<Rightarrow> Inr [int64_or_nil (new_from_string s)]
      | Number x \<Rightarrow> Inr [int64_or_nil (new_from_number x)]
      | _ \<Rightarrow> bind_lua (bit64_getvalue as 0) (\<lambda>(v, st). Inr [int64_or_nil v]))"

text \<open>
  The value is \<open>None\<close> if the check fails: then \<open>check64\<close> clears the flag that the caller gave, or raises an error if
  there is none (\<open>check_arg\<close>), as in all functions of the module. A string is replaced on the stack by the
  integer that \<open>f_new\<close> makes of it.
\<close>

definition check64 :: "stack \<Rightarrow> nat \<Rightarrow> (u64 option \<times> stack) lua_result" where
  "check64 as pos =
     (case arg as pos of
        Number x \<Rightarrow> Inr (case x of Fin q \<Rightarrow> if FIT52 q then Some (word_of_int (trunc q)) else None | _ \<Rightarrow> None, as)
      | Str s \<Rightarrow> bind_lua (f_new [Str s]) (\<lambda>r. bit64_getvalue (as[pos := hd r]) pos)
      | _ \<Rightarrow> bit64_getvalue as pos)"

abbreviation bad_int64 :: "'a lua_result" where
  "bad_int64 \<equiv> Inl (LuaError ''bad int64'')"

definition check_arg :: "stack \<Rightarrow> nat \<Rightarrow> (u64 \<times> stack) lua_result" where
  "check_arg as pos = bind_lua (check64 as pos) (\<lambda>(v, st). case v of None \<Rightarrow> bad_int64 | Some v \<Rightarrow> Inr (v, st))"

section \<open>Operations\<close>

text \<open>The loop over \<open>k\<close> arguments from the place \<open>i\<close> on.\<close>

primrec fold_args :: "(u64 \<Rightarrow> u64 \<Rightarrow> u64) \<Rightarrow> u64 \<Rightarrow> stack \<Rightarrow> nat \<Rightarrow> nat \<Rightarrow> u64 lua_result" where
  "fold_args f v st i 0 = Inr v"
| "fold_args f v st i (Suc k) = bind_lua (check_arg st i) (\<lambda>(w, st). fold_args f (f v w) st (Suc i) k)"

definition push_result :: "u64 lua_result \<Rightarrow> call_result" where
  "push_result m = bind_lua m (\<lambda>v. Inr [bit64_push v])"

text \<open>The number of arguments is that after the check of the first one.\<close>

definition variadic :: "(u64 \<Rightarrow> u64 \<Rightarrow> u64) \<Rightarrow> stack \<Rightarrow> call_result" where
  "variadic f as = bind_lua (check_arg as 0) (\<lambda>(v, st). push_result (fold_args f v st 1 (length st - 1)))"

definition band :: "stack \<Rightarrow> call_result" where "band = variadic (\<lambda>v w. v AND w)"
definition bor :: "stack \<Rightarrow> call_result" where "bor = variadic (\<lambda>v w. v OR w)"
definition bxor :: "stack \<Rightarrow> call_result" where "bxor = variadic (\<lambda>v w. v XOR w)"
definition f_add :: "stack \<Rightarrow> call_result" where "f_add = variadic (\<lambda>v w. v + w)"
definition f_mul :: "stack \<Rightarrow> call_result" where "f_mul = variadic (\<lambda>v w. v * w)"

definition with1 :: "stack \<Rightarrow> (u64 \<Rightarrow> 'a lua_result) \<Rightarrow> 'a lua_result" where
  "with1 as f = bind_lua (check_arg as 0) (\<lambda>(v, st). f v)"

definition with2 :: "stack \<Rightarrow> (u64 \<Rightarrow> u64 \<Rightarrow> 'a lua_result) \<Rightarrow> 'a lua_result" where
  "with2 as f = bind_lua (check_arg as 0) (\<lambda>(a1, st). bind_lua (check_arg st 1) (\<lambda>(a2, st). f a1 a2))"

definition bnot :: "stack \<Rightarrow> call_result" where
  "bnot as = with1 as (\<lambda>v. Inr [bit64_push (NOT v)])"

definition f_unm :: "stack \<Rightarrow> call_result" where
  "f_unm as = with1 as (\<lambda>v. Inr [bit64_push (- v)])"

definition f_sub :: "stack \<Rightarrow> call_result" where
  "f_sub as = with2 as (\<lambda>a1 a2. Inr [bit64_push (a1 - a2)])"

text \<open>\<open>checkint\<close> is \<^verbatim>\<open>luaL_checkint\<close> of the Lua library: the count of a shift, or an error.\<close>

definition shift :: "(lua_value \<Rightarrow> u32 lua_result) \<Rightarrow> stack \<Rightarrow> (u64 \<Rightarrow> nat \<Rightarrow> u64) \<Rightarrow> (u64 \<Rightarrow> u64) \<Rightarrow> call_result" where
  "shift checkint as f far = bind_lua (check_arg as 0) (\<lambda>(v, st). bind_lua (checkint (arg st 1)) (\<lambda>n.
     Inr [bit64_push (if n < 64 then f v (unat n) else far v)]))"

definition lshift :: "(lua_value \<Rightarrow> u32 lua_result) \<Rightarrow> stack \<Rightarrow> call_result" where
  "lshift checkint as = shift checkint as (\<lambda>v n. push_bit n v) (\<lambda>v. 0)"

definition rshift :: "(lua_value \<Rightarrow> u32 lua_result) \<Rightarrow> stack \<Rightarrow> call_result" where
  "rshift checkint as = shift checkint as (\<lambda>v n. drop_bit n v) (\<lambda>v. 0)"

definition arshift :: "(lua_value \<Rightarrow> u32 lua_result) \<Rightarrow> stack \<Rightarrow> call_result" where
  "arshift checkint as = shift checkint as (\<lambda>v n. signed_drop_bit n v) (\<lambda>v. signed_drop_bit 1 (signed_drop_bit 63 v))"

definition min_int64 :: u64 where "min_int64 = 0x8000000000000000"
definition max_int64 :: u64 where "max_int64 = 0x7FFFFFFFFFFFFFFF"

text \<open>The division of C cuts the fraction, and \<^verbatim>\<open>%\<close> gives its remainder; both trap if the quotient does not fit.\<close>

definition div_int64 :: "u64 \<Rightarrow> u64 \<Rightarrow> u64 lua_result" where
  "div_int64 a b = (if a = min_int64 \<and> b = - 1 then Inl Trap
     else Inr (word_of_int (sgn (sint a) * sgn (sint b) * (\<bar>sint a\<bar> div \<bar>sint b\<bar>))))"

definition mod_int64 :: "u64 \<Rightarrow> u64 \<Rightarrow> u64 lua_result" where
  "mod_int64 a b = (if a = min_int64 \<and> b = - 1 then Inl Trap
     else Inr (word_of_int (sgn (sint a) * (\<bar>sint a\<bar> mod \<bar>sint b\<bar>))))"

definition f_div :: "stack \<Rightarrow> call_result" where
  "f_div as = with2 as (\<lambda>a1 a2.
     if a2 \<noteq> 0 then push_result (div_int64 a1 a2)
     else Inr [bit64_push (if 0 <s a1 then max_int64 else if a1 <s 0 then min_int64 else 1)])"

definition f_mod :: "stack \<Rightarrow> call_result" where
  "f_mod as = with2 as (\<lambda>a1 a2. push_result (mod_int64 a1 (if a2 = 0 then 1 else a2)))"

definition f_eq :: "stack \<Rightarrow> call_result" where
  "f_eq as = with2 as (\<lambda>a1 a2. Inr [Boolean (a1 = a2)])"

definition f_lt :: "stack \<Rightarrow> call_result" where
  "f_lt as = with2 as (\<lambda>a1 a2. Inr [Boolean (a1 <s a2)])"

definition f_le :: "stack \<Rightarrow> call_result" where
  "f_le as = with2 as (\<lambda>a1 a2. Inr [Boolean (a1 <=s a2)])"

definition f_type :: "stack \<Rightarrow> call_result" where
  "f_type as = Inr [if fst (same_metatable as 0) then Str (map (\<lambda>c. word_of_nat (of_char c)) ''64 bit integer'') else Nil]"

section \<open>Output\<close>

definition hex_char :: "nat \<Rightarrow> u8" where
  "hex_char d = (if d < 10 then word_of_nat (48 + d) else word_of_nat (55 + d))"

fun hex_digits :: "nat \<Rightarrow> bytes" where
  "hex_digits n = (if n < 16 then [hex_char n] else hex_digits (n div 16) @ [hex_char (n mod 16)])"

declare hex_digits.simps [simp del]

definition f_tostring :: "stack \<Rightarrow> call_result" where
  "f_tostring as = with1 as (\<lambda>v. Inr [Str (48 # 120 # hex_digits (unat v))])"

text \<open>The cast of an \<^verbatim>\<open>int64_t\<close> to double: 53 significant bits, the nearest, and the even one of two.\<close>

fun excess_bits :: "nat \<Rightarrow> nat" where
  "excess_bits a = (if a < 2 ^ 53 then 0 else Suc (excess_bits (a div 2)))"

declare excess_bits.simps [simp del]

definition round53 :: "nat \<Rightarrow> nat" where
  "round53 a = (let e = excess_bits a; q = a div 2 ^ e; r = a mod 2 ^ e in
     (if 2 ^ e < 2 * r \<or> (2 ^ e = 2 * r \<and> odd q) then q + 1 else q) * 2 ^ e)"

definition f_tonumber :: "stack \<Rightarrow> call_result" where
  "f_tonumber as = with1 as (\<lambda>v. Inr [Number (Fin (of_int (sgn (sint v) * int (round53 (nat \<bar>sint v\<bar>)))))])"

section \<open>Boxed values\<close>

text \<open>
  What the operations need of the representation: a value that is pushed can be read again. A function
  applied to boxed arguments then computes on what they stand for, so the results may be arguments again.
\<close>

locale boxed =
  fixes box :: "'w \<Rightarrow> 'v" and unbox :: "'v \<Rightarrow> 'w option"
  assumes unbox_box: "unbox (box w) = Some w"
begin

definition stands :: "'v list \<Rightarrow> 'w list \<Rightarrow> bool" where
  "stands as ws \<longleftrightarrow> map unbox as = map Some ws"

lemma stands_boxes: "stands (map box ws) ws"
  by (simp add: stands_def unbox_box)

lemma stands_Cons: "stands as (w # ws) \<longleftrightarrow> (\<exists>a bs. as = a # bs \<and> unbox a = Some w \<and> stands bs ws)"
  by (auto simp: stands_def map_eq_Cons_conv)

lemma stands_Nil: "stands as [] \<longleftrightarrow> as = []"
  by (simp add: stands_def)

lemma stands_functional: "stands as ws \<Longrightarrow> stands as ws' \<Longrightarrow> ws = ws'"
  by (auto simp: stands_def dest: map_injective [OF _ inj_Some])

end

lemma sint_of_int64: "- (2 ^ 63) \<le> k \<Longrightarrow> k < 2 ^ 63 \<Longrightarrow> sint (word_of_int k :: u64) = k"
  unfolding sint_sbintrunc' by (rule signed_take_bit_int_eq_self) simp_all

lemma sint_int64_bounds: "- (2 ^ 63) \<le> sint (v :: u64)" "sint (v :: u64) < 2 ^ 63"
  using sint_greater_eq [of v] sint_less [of v] by simp_all

lemma trunc_of_int [simp]: "trunc (of_int k) = k"
  by (simp add: trunc_def)

lemma trunc_signed [simp]: "trunc (signed (v :: u64)) = sint v"
  using trunc_of_int [of "sint v"] by simp

text \<open>What a value stands for, however the program finds it.\<close>

definition int64_of :: "lua_value \<Rightarrow> u64 option" where
  "int64_of a =
     (case a of
        Number x \<Rightarrow> (case x of Fin q \<Rightarrow> if FIT52 q then Some (word_of_int (trunc q)) else None | _ \<Rightarrow> None)
      | Str s \<Rightarrow> new_from_string s
      | Int64 v \<Rightarrow> Some v
      | _ \<Rightarrow> None)"

lemma int64_of_push: "int64_of (bit64_push v) = Some v"
  by (auto simp: int64_of_def bit64_push_def)

interpretation int64: boxed bit64_push int64_of
  by unfold_locales (rule int64_of_push)

section \<open>Checking an argument\<close>

text \<open>The stack after a check that the userdata without metatable does not disturb.\<close>

definition checked :: "stack \<Rightarrow> nat \<Rightarrow> stack" where
  "checked as pos = (case arg as pos of Str s \<Rightarrow> as[pos := int64_or_nil (new_from_string s)] | _ \<Rightarrow> as)"

text \<open>The arguments that are mistaken: a userdata without metatable, and at the end the metatable of the module.\<close>

definition mistakable :: "stack \<Rightarrow> bool" where
  "mistakable as \<longleftrightarrow> as \<noteq> [] \<and> last as = Metatable \<and> (\<exists>b. Bare_Userdata b \<in> set as)"

lemma arg_in_set: "arg as pos \<noteq> Nil \<Longrightarrow> pos < length as \<and> arg as pos \<in> set as"
  by (auto simp: arg_def split: if_splits)

lemma arg_update [simp]: "pos < length as \<Longrightarrow> arg (as[pos := x]) pos = x" "i \<noteq> pos \<Longrightarrow> arg (as[pos := x]) i = arg as i"
  by (auto simp: arg_def)

lemma checked_other [simp]: "i \<noteq> pos \<Longrightarrow> arg (checked as pos) i = arg as i" "length (checked as pos) = length as"
  by (simp_all add: checked_def split: lua_value.split)

lemma checked_not_mistakable: "\<not> mistakable as \<Longrightarrow> \<not> mistakable (checked as pos)"
proof -
  assume n: "\<not> mistakable as"
  have u: "\<not> mistakable (as[pos := int64_or_nil x])" if pos: "pos < length as" for x
  proof
    assume m: "mistakable (as[pos := int64_or_nil x])"
    have k: "int64_or_nil x \<noteq> Metatable" "Bare_Userdata b \<noteq> int64_or_nil x" for b by (simp_all add: int64_or_nil_def split: option.split)
    obtain b where "Bare_Userdata b \<in> set (as[pos := int64_or_nil x])" using m by (auto simp: mistakable_def)
    then have "Bare_Userdata b \<in> insert (int64_or_nil x) (set as)" using set_update_subset_insert [of as pos "int64_or_nil x"] by blast
    then have "Bare_Userdata b \<in> set as" using k(2) by blast
    moreover have "last as = Metatable" using m k(1) pos by (auto simp: mistakable_def last_list_update split: if_splits)
    ultimately show False using n pos by (auto simp: mistakable_def)
  qed
  show ?thesis
  proof (cases "arg as pos")
    case (Str s)
    then show ?thesis using u arg_in_set [of as pos] by (simp add: checked_def)
  qed (simp_all add: checked_def n)
qed

lemma check64_Str: "pos < length as \<Longrightarrow> bit64_getvalue (as[pos := int64_or_nil v]) pos = Inr (v, as[pos := int64_or_nil v])"
  by (cases v) (simp_all add: bit64_getvalue_def same_metatable_def int64_or_nil_def)

lemma check_arg_good: "int64_of (arg as pos) = Some v \<Longrightarrow> check_arg as pos = Inr (v, checked as pos)"
  using arg_in_set [of as pos]
  by (cases "arg as pos")
    (simp_all add: check_arg_def check64_def int64_of_def checked_def f_new_def check64_Str
      bit64_getvalue_def [of as] same_metatable_def arg_def [of "[_]"])

lemma check_arg_bad:
  assumes "\<not> mistakable as" "int64_of (arg as pos) = None"
  shows "check_arg as pos = bad_int64"
proof (cases "\<exists>b. arg as pos = Bare_Userdata b")
  case True
  then obtain b where b: "arg as pos = Bare_Userdata b" by blast
  then have "last as \<noteq> Metatable" using assms(1) arg_in_set [of as pos] by (auto simp: mistakable_def)
  then show ?thesis using b by (simp add: check_arg_def check64_def bit64_getvalue_def same_metatable_def)
next
  case False
  then show ?thesis
    using assms(2) arg_in_set [of as pos]
    by (cases "arg as pos")
      (simp_all add: check_arg_def check64_def int64_of_def f_new_def check64_Str
        bit64_getvalue_def [of as] same_metatable_def arg_def [of "[_]"])
qed

section \<open>The operations on what the arguments stand for\<close>

definition returns :: "call_result \<Rightarrow> u64 \<Rightarrow> bool" where
  "returns m v \<longleftrightarrow> (\<exists>r. m = Inr [r] \<and> int64_of r = Some v)"

lemma returns_push [simp]: "returns (Inr [bit64_push v]) w \<longleftrightarrow> v = w"
  by (auto simp: returns_def int64_of_push)

lemma stands_arg: "int64.stands as vs \<longleftrightarrow> length as = length vs \<and> (\<forall>i < length vs. int64_of (arg as i) = Some (vs ! i))"
  by (auto simp: int64.stands_def list_eq_iff_nth_eq arg_def)

lemma fold_args_stands:
  "\<forall>j < length vs. int64_of (arg st (i + j)) = Some (vs ! j) \<Longrightarrow> fold_args f v st i (length vs) = Inr (foldl f v vs)"
proof (induction vs arbitrary: st i v)
  case (Cons w vs)
  have w: "check_arg st i = Inr (w, checked st i)" using Cons.prems by (intro check_arg_good) force
  have "int64_of (arg (checked st i) (Suc i + j)) = Some (vs ! j)" if "j < length vs" for j
    using Cons.prems that by (auto dest: spec [where x = "Suc j"])
  then show ?case using w Cons.IH [of "checked st i" "Suc i" "f v w"] by simp
qed simp

lemma fold_args_error:
  "\<not> mistakable st \<Longrightarrow> \<exists>j < k. int64_of (arg st (i + j)) = None \<Longrightarrow> fold_args f v st i k = bad_int64"
proof (induction k arbitrary: st i v)
  case (Suc k)
  show ?case
  proof (cases "int64_of (arg st i)")
    case None
    then show ?thesis using check_arg_bad [OF Suc.prems(1)] by simp
  next
    case (Some w)
    obtain j where j: "j < Suc k" "int64_of (arg st (i + j)) = None" using Suc.prems(2) by blast
    then obtain j' where "j = Suc j'" using Some by (cases j) auto
    then have "\<exists>j < k. int64_of (arg (checked st i) (Suc i + j)) = None" using j by auto
    then show ?thesis
      using Suc.IH [OF checked_not_mistakable [OF Suc.prems(1)], of i "Suc i"] check_arg_good [OF Some] by simp
  qed
qed simp

lemma variadic_stands:
  assumes "int64.stands as (v # vs)"
  shows "returns (variadic f as) (foldl f v vs)"
proof -
  have a: "length as = Suc (length vs)" "int64_of (arg as 0) = Some v" "int64_of (arg as (Suc j)) = Some (vs ! j)" if "j < length vs" for j
    using assms that by (auto simp: stands_arg dest: spec [where x = "Suc j"])
  have l: "length as = Suc (length vs)" and v: "check_arg as 0 = Inr (v, checked as 0)"
    using assms by (auto simp: stands_arg intro: check_arg_good)
  have "fold_args f v (checked as 0) 1 (length vs) = Inr (foldl f v vs)" using a(3) by (intro fold_args_stands) simp
  then show ?thesis using l v by (simp add: variadic_def push_result_def)
qed

lemma variadic_error:
  assumes "\<not> mistakable as" "as = [] \<or> (\<exists>a \<in> set as. int64_of a = None)"
  shows "variadic f as = bad_int64"
proof (cases "int64_of (arg as 0)")
  case None
  then show ?thesis using check_arg_bad [OF assms(1)] by (simp add: variadic_def)
next
  case (Some v)
  obtain i where i: "i < length as" "int64_of (arg as i) = None"
    using assms(2) Some by (auto simp: in_set_conv_nth arg_def int64_of_def [of Nil])
  then obtain j where "i = Suc j" using Some by (cases i) auto
  then have "\<exists>j < length as - 1. int64_of (arg (checked as 0) (1 + j)) = None" using i by (intro exI [of _ j]) auto
  then show ?thesis
    using fold_args_error [OF checked_not_mistakable [OF assms(1)]] check_arg_good [OF Some]
    by (simp add: variadic_def push_result_def)
qed

lemma with1_stands: "int64.stands as (v # vs) \<Longrightarrow> with1 as f = f v"
  by (auto simp: stands_arg with1_def check_arg_good)

lemma with2_stands: "int64.stands as (v # w # vs) \<Longrightarrow> with2 as f = f v w"
proof -
  assume "int64.stands as (v # w # vs)"
  then have "int64_of (arg as 0) = Some v" "int64_of (arg as 1) = Some w" by (auto simp: stands_arg dest: spec [where x = 1])
  then show ?thesis by (simp add: with2_def check_arg_good)
qed

lemma with1_error: "\<not> mistakable as \<Longrightarrow> int64_of (arg as 0) = None \<Longrightarrow> with1 as f = bad_int64"
  by (simp add: with1_def check_arg_bad)

lemma with2_error:
  "\<not> mistakable as \<Longrightarrow> int64_of (arg as 0) = None \<or> int64_of (arg as 1) = None \<Longrightarrow> with2 as f = bad_int64"
  using check_arg_bad [of as 0] check_arg_bad [OF checked_not_mistakable, of as 0 1] check_arg_good [of as 0]
  by (cases "int64_of (arg as 0)") (simp_all add: with2_def)

text \<open>Two arguments that are mistaken: the metatable is taken off the stack, and what the userdata holds is read.\<close>

lemma check_arg_mistaken:
  "check_arg [Bare_Userdata b, Metatable] 0 = (case b of None \<Rightarrow> Inl BadRead | Some v \<Rightarrow> Inr (v, [Bare_Userdata b]))"
  by (simp add: check_arg_def check64_def bit64_getvalue_def same_metatable_def arg_def split: option.split)

text \<open>
  C18. The operations compute on the 64-bit integers that their arguments stand for, whatever their
  representation (a number, a userdata or a string), and what they return stands for the result: the
  sum, product and bitwise operations of all the arguments with the wrap-around of 64 bits, the difference,
  complement and negation, and the signed order. If an argument that is needed stands for no integer or is missing,
  each of them is an error, and so are division, remainder, \<open>f_tostring\<close>, \<open>f_tonumber\<close> and the shifts. An
  exception are arguments that end with the metatable of the module and have a userdata without metatable, which is
  mistaken for an integer: its sum with the metatable is what its block holds, or a read outside the block.
\<close>

theorem operations_refine_int64:
  "(int64.stands as (v # vs) \<longrightarrow>
     returns (f_add as) (foldl (+) v vs) \<and> returns (f_mul as) (foldl (*) v vs) \<and>
     returns (band as) (foldl (AND) v vs) \<and> returns (bor as) (foldl (OR) v vs) \<and>
     returns (bxor as) (foldl (XOR) v vs) \<and> returns (bnot as) (NOT v) \<and> returns (f_unm as) (- v) \<and>
     (vs \<noteq> [] \<longrightarrow> returns (f_sub as) (v - hd vs) \<and> f_eq as = Inr [Boolean (v = hd vs)] \<and>
        f_lt as = Inr [Boolean (sint v < sint (hd vs))] \<and> f_le as = Inr [Boolean (sint v \<le> sint (hd vs))])) \<and>
   (\<not> mistakable bs \<and> (bs = [] \<or> (\<exists>b \<in> set bs. int64_of b = None)) \<longrightarrow>
     (\<forall>op \<in> {f_add, f_mul, band, bor, bxor}. op bs = bad_int64)) \<and>
   (\<not> mistakable bs \<and> (int64_of (arg bs 0) = None \<or> int64_of (arg bs 1) = None) \<longrightarrow>
     (\<forall>op \<in> {f_sub, f_div, f_mod, f_eq, f_lt, f_le}. op bs = bad_int64)) \<and>
   (\<not> mistakable bs \<and> int64_of (arg bs 0) = None \<longrightarrow>
     (\<forall>op \<in> {bnot, f_unm, f_tostring, f_tonumber, lshift checkint, rshift checkint, arshift checkint}. op bs = bad_int64)) \<and>
   f_add [Bare_Userdata x, Metatable] = (case x of None \<Rightarrow> Inl BadRead | Some w \<Rightarrow> Inr [bit64_push w])"
proof (intro conjI impI)
  assume st: "int64.stands as (v # vs)"
  show "returns (f_add as) (foldl (+) v vs)" "returns (f_mul as) (foldl (*) v vs)"
    "returns (band as) (foldl (AND) v vs)" "returns (bor as) (foldl (OR) v vs)" "returns (bxor as) (foldl (XOR) v vs)"
    unfolding f_add_def f_mul_def band_def bor_def bxor_def by (rule variadic_stands [OF st])+
  show "returns (bnot as) (NOT v)" "returns (f_unm as) (- v)"
    by (simp_all add: bnot_def f_unm_def with1_stands [OF st])
  { assume ne: "vs \<noteq> []"
    then have st2: "int64.stands as (v # hd vs # tl vs)" using st by simp
    show "returns (f_sub as) (v - hd vs)" "f_eq as = Inr [Boolean (v = hd vs)]"
      "f_lt as = Inr [Boolean (sint v < sint (hd vs))]" "f_le as = Inr [Boolean (sint v \<le> sint (hd vs))]"
      by (simp_all add: f_sub_def f_eq_def f_lt_def f_le_def with2_stands [OF st2] word_sless_alt word_sle_eq) }
next
  show "\<forall>op \<in> {f_add, f_mul, band, bor, bxor}. op bs = bad_int64"
    if "\<not> mistakable bs \<and> (bs = [] \<or> (\<exists>b \<in> set bs. int64_of b = None))"
    using variadic_error [of bs] that by (simp add: f_add_def f_mul_def band_def bor_def bxor_def)
  show "\<forall>op \<in> {f_sub, f_div, f_mod, f_eq, f_lt, f_le}. op bs = bad_int64"
    if "\<not> mistakable bs \<and> (int64_of (arg bs 0) = None \<or> int64_of (arg bs 1) = None)"
    using that by (simp add: with2_error f_sub_def f_div_def f_mod_def f_eq_def f_lt_def f_le_def)
  show "\<forall>op \<in> {bnot, f_unm, f_tostring, f_tonumber, lshift checkint, rshift checkint, arshift checkint}. op bs = bad_int64"
    if "\<not> mistakable bs \<and> int64_of (arg bs 0) = None"
    using check_arg_bad [of bs 0] that
    by (simp add: with1_error bnot_def f_unm_def f_tostring_def f_tonumber_def lshift_def rshift_def arshift_def shift_def)
  show "f_add [Bare_Userdata x, Metatable] = (case x of None \<Rightarrow> Inl BadRead | Some w \<Rightarrow> Inr [bit64_push w])"
    by (simp add: f_add_def variadic_def check_arg_mistaken push_result_def split: option.split)
qed

text \<open>
  The integers of a division: the quotient of the magnitudes with the sign of both. It leaves the 64 bits
  only for the least integer and \<open>-1\<close>.
\<close>

lemma int_quotient:
  fixes a b :: int
  assumes a: "- (2 ^ 63) \<le> a" "a < 2 ^ 63" and b: "b \<noteq> 0" and no: "\<not> (a = - (2 ^ 63) \<and> b = - 1)"
  defines "q \<equiv> sgn a * sgn b * (\<bar>a\<bar> div \<bar>b\<bar>)" and "r \<equiv> sgn a * (\<bar>a\<bar> mod \<bar>b\<bar>)"
  shows "- (2 ^ 63) \<le> q" "q < 2 ^ 63" "a = q * b + r" "\<bar>r\<bar> < \<bar>b\<bar>" "r = 0 \<or> sgn r = sgn a" "\<bar>r\<bar> \<le> \<bar>a\<bar>"
proof -
  have p: "0 \<le> \<bar>a\<bar> div \<bar>b\<bar>" using b by (simp add: pos_imp_zdiv_nonneg_iff)
  have qa: "\<bar>q\<bar> = \<bar>a\<bar> div \<bar>b\<bar>" using b p by (auto simp: q_def abs_mult abs_sgn_eq)
  have le: "\<bar>a\<bar> div \<bar>b\<bar> \<le> \<bar>a\<bar>" using b zdiv_mono2 [of "\<bar>a\<bar>" 1 "\<bar>b\<bar>"] by simp
  show "- (2 ^ 63) \<le> q" using qa le a by linarith
  show "q < 2 ^ 63"
  proof (rule ccontr)
    assume "\<not> q < 2 ^ 63"
    then have q: "q = 2 ^ 63" "\<bar>a\<bar> = 2 ^ 63" "\<bar>a\<bar> div \<bar>b\<bar> = 2 ^ 63" using qa le a by linarith+
    then have aa: "a = - (2 ^ 63)" using a by linarith
    have "\<bar>b\<bar> = 1"
    proof (rule ccontr)
      assume "\<bar>b\<bar> \<noteq> 1"
      then have "\<bar>a\<bar> div \<bar>b\<bar> < \<bar>a\<bar>" using b q(2) by (intro int_div_less_self) auto
      then show False using q by simp
    qed
    then have "b = 1" using aa no by auto
    then show False using q(1) aa by (simp add: q_def)
  qed
  have m: "\<bar>a\<bar> = (\<bar>a\<bar> div \<bar>b\<bar>) * \<bar>b\<bar> + \<bar>a\<bar> mod \<bar>b\<bar>" by simp
  have "a = sgn a * \<bar>a\<bar>" by (simp add: sgn_mult_abs)
  also have "\<dots> = sgn a * ((\<bar>a\<bar> div \<bar>b\<bar>) * (sgn b * b) + \<bar>a\<bar> mod \<bar>b\<bar>)" by (subst m) (simp add: abs_sgn mult.commute)
  finally show "a = q * b + r" by (simp add: q_def r_def algebra_simps)
  have pm: "0 \<le> \<bar>a\<bar> mod \<bar>b\<bar>" "\<bar>a\<bar> mod \<bar>b\<bar> < \<bar>b\<bar>" using b by simp_all
  have ra: "\<bar>r\<bar> = \<bar>a\<bar> mod \<bar>b\<bar> \<or> r = 0" using pm by (auto simp: r_def abs_mult abs_sgn_eq)
  show "\<bar>r\<bar> < \<bar>b\<bar>" using ra pm by auto
  show "r = 0 \<or> sgn r = sgn a" using pm by (auto simp: r_def sgn_mult sgn_if)
  show "\<bar>r\<bar> \<le> \<bar>a\<bar>" using ra by (auto simp: zmod_le_nonneg_dividend)
qed

lemma sint_min_int64: "sint min_int64 = - (2 ^ 63)"
  by (simp add: min_int64_def)

lemma sint_eq_iff: "sint (v :: u64) = k \<Longrightarrow> v = word_of_int k"
  by auto

lemma sint_nonzero: "v \<noteq> 0 \<Longrightarrow> sint (v :: u64) \<noteq> 0"
  using sint_eq_iff [of v 0] by auto

lemma not_trap: "\<not> (v = min_int64 \<and> w = - 1) \<Longrightarrow> \<not> (sint v = - (2 ^ 63) \<and> sint (w :: u64) = - 1)"
  using sint_eq_iff [of v "- (2 ^ 63)"] sint_eq_iff [of w "- 1"] by (auto simp: min_int64_def)

lemma div_int64_value:
  assumes "w \<noteq> 0" "\<not> (v = min_int64 \<and> w = - 1)"
  shows "\<exists>q r. div_int64 v w = Inr q \<and> mod_int64 v w = Inr r \<and> sint v = sint q * sint w + sint r \<and>
    \<bar>sint r\<bar> < \<bar>sint w\<bar> \<and> (sint r = 0 \<or> sgn (sint r) = sgn (sint v))"
proof -
  note iq = int_quotient [OF sint_int64_bounds(1) sint_int64_bounds(2) sint_nonzero [OF assms(1)] not_trap [OF assms(2)]]
  let ?q = "sgn (sint v) * sgn (sint w) * (\<bar>sint v\<bar> div \<bar>sint w\<bar>)" let ?r = "sgn (sint v) * (\<bar>sint v\<bar> mod \<bar>sint w\<bar>)"
  have q: "sint (word_of_int ?q :: u64) = ?q" using iq(1,2) by (rule sint_of_int64)
  have "- (2 ^ 63) \<le> ?r" "?r < 2 ^ 63" using iq(4) sint_int64_bounds [of w] by linarith+
  then have r: "sint (word_of_int ?r :: u64) = ?r" by (rule sint_of_int64)
  have "div_int64 v w = Inr (word_of_int ?q)" "mod_int64 v w = Inr (word_of_int ?r)"
    using assms(2) by (auto simp: div_int64_def mod_int64_def)
  then show ?thesis using iq(3,4,5) q r by metis
qed

text \<open>
  Division and remainder: for a divisor other than 0 they are the truncated quotient and the
  remainder with the sign of the dividend. A division by 0 saturates (and 0 / 0 is 1), the remainder
  by 0 is 0. The least integer divided by \<open>-1\<close> is not handled: both operations trap.
\<close>

theorem div_mod_int64:
  assumes st: "int64.stands as [v, w]"
  shows "(w \<noteq> 0 \<and> \<not> (v = min_int64 \<and> w = - 1) \<longrightarrow>
       (\<exists>q r. returns (f_div as) q \<and> returns (f_mod as) r \<and> sint v = sint q * sint w + sint r \<and>
         \<bar>sint r\<bar> < \<bar>sint w\<bar> \<and> (sint r = 0 \<or> sgn (sint r) = sgn (sint v)))) \<and>
     (w = 0 \<longrightarrow> returns (f_div as) (if 0 < sint v then max_int64 else if sint v < 0 then min_int64 else 1) \<and>
       returns (f_mod as) 0) \<and>
     (v = min_int64 \<and> w = - 1 \<longrightarrow> f_div as = Inl Trap \<and> f_mod as = Inl Trap)"
proof (intro conjI impI)
  note st2 = with2_stands [OF st]
  show "\<exists>q r. returns (f_div as) q \<and> returns (f_mod as) r \<and> sint v = sint q * sint w + sint r \<and>
      \<bar>sint r\<bar> < \<bar>sint w\<bar> \<and> (sint r = 0 \<or> sgn (sint r) = sgn (sint v))" if "w \<noteq> 0 \<and> \<not> (v = min_int64 \<and> w = - 1)"
    using div_int64_value [of w v] that by (auto simp: f_div_def f_mod_def st2 push_result_def)
  show "returns (f_div as) (if 0 < sint v then max_int64 else if sint v < 0 then min_int64 else 1)" if "w = 0"
    using that by (simp add: f_div_def st2 word_sless_alt)
  show "returns (f_mod as) 0" if "w = 0"
    using that by (simp add: f_mod_def st2 mod_int64_def push_result_def)
  show "f_div as = Inl Trap" "f_mod as = Inl Trap" if "v = min_int64 \<and> w = - 1"
    using that by (simp_all add: f_div_def f_mod_def st2 div_int64_def mod_int64_def push_result_def)
qed

section \<open>Round trip through a string\<close>

lemma all_nat_upto: "(\<forall>d < n. P d) \<longleftrightarrow> list_all P [0..<n]"
  by (auto simp: list_all_iff)

lemma hex_digit_char: "d < 16 \<Longrightarrow> hex_digit (hex_char d) = Some (word_of_nat d)"
proof -
  have "\<forall>d < 16. hex_digit (hex_char d) = Some (word_of_nat d)"
    unfolding all_nat_upto by code_simp
  then show "d < 16 \<Longrightarrow> ?thesis" by blast
qed

lemma hex_loop_append:
  "hex_loop (xs @ ys) v = (case hex_loop xs v of None \<Rightarrow> None | Some w \<Rightarrow> hex_loop ys w)"
  by (induction xs arbitrary: v) (auto split: option.splits)

lemma append_digit: "push_bit 4 (word_of_nat a) OR word_of_nat d = (word_of_nat (16 * a + d) :: u64)" if "d < 16"
proof -
  have m: "take_bit 4 (word_of_nat d :: u64) = word_of_nat d"
    using that by (simp add: take_bit_of_nat take_bit_nat_eq_self)
  have "push_bit 4 (word_of_nat a) AND take_bit 4 (word_of_nat d) = (0 :: u64)"
    by (rule bit_eqI) (auto simp: bit_simps)
  then have "push_bit 4 (word_of_nat a) AND word_of_nat d = (0 :: u64)" by (simp only: m)
  then show ?thesis by (simp add: word_or_disjoint push_bit_eq_mult)
qed

lemma hex_loop_digits: "hex_loop (hex_digits n) 0 = Some (word_of_nat n)"
proof (induction n rule: hex_digits.induct)
  case (1 n)
  show ?case
  proof (cases "n < 16")
    case True
    then show ?thesis by (simp add: hex_digits.simps [of n] hex_digit_char)
  next
    case False
    then show ?thesis
      using 1 append_digit [of "n mod 16" "n div 16"]
      by (simp add: hex_digits.simps [of n] hex_loop_append hex_digit_char)
  qed
qed

lemma hex_digits_length: "0 < k \<Longrightarrow> n < 16 ^ k \<Longrightarrow> length (hex_digits n) \<le> k \<and> hex_digits n \<noteq> []"
proof (induction k arbitrary: n)
  case (Suc k)
  show ?case
  proof (cases "n < 16")
    case False
    then have "0 < k" using Suc.prems by (cases k) auto
    then show ?thesis using Suc.IH [of "n div 16"] Suc.prems False by (simp add: hex_digits.simps [of n])
  qed (simp add: hex_digits.simps [of n])
qed simp

lemma new_from_hex: "new_from_string (48 # 120 # hex_digits (unat v)) = Some v"
proof -
  have "unat v < 16 ^ 16" using unsigned_less [of v, where 'a = nat] by simp
  then have "length (hex_digits (unat v)) \<le> 16" "hex_digits (unat v) \<noteq> []"
    using hex_digits_length [of 16 "unat v"] by auto
  then show ?thesis by (simp add: new_from_string_def hex_loop_digits byte_at_def Let_def)
qed

text \<open>
  C40. Round trip: the string that \<open>f_tostring\<close> makes of an integer is one that \<open>f_new\<close> reads back as the
  same 64 bits, and the operations accept it as an argument in place of the integer.
\<close>

theorem tostring_new_roundtrip:
  assumes "check64 as 0 = Inr (Some v, st)"
  shows "\<exists>s. f_tostring as = Inr [Str s] \<and> f_new [Str s] = Inr [Int64 v] \<and>
    (\<forall>bs i. arg bs i = Str s \<longrightarrow> check64 bs i = Inr (Some v, bs[i := Int64 v]))"
proof -
  let ?s = "48 # 120 # hex_digits (unat v)"
  have n: "f_new [Str ?s] = Inr [Int64 v]" by (simp add: f_new_def arg_def new_from_hex int64_or_nil_def)
  have "check64 bs i = Inr (Some v, bs[i := Int64 v])" if "arg bs i = Str ?s" for bs i
    using that n check64_Str [of i bs "Some v"] arg_in_set [of bs i] by (simp add: check64_def int64_or_nil_def)
  then show ?thesis using assms n by (simp add: f_tostring_def with1_def check_arg_def)
qed

section \<open>Applications\<close>

lemma minus_one_stands: "int64.stands [Str [45, 49], Number (Fin 3)] [- 1, 3]"
  by (simp add: int64.stands_def int64_of_def new_from_string_def byte_at_def FIT52_def trunc_def)

lemma operations_refine_int64_witness:
  "returns (f_add [Str [45, 49], Number (Fin 3)]) 2 \<and> f_lt [Str [45, 49], Number (Fin 3)] = Inr [Boolean True] \<and>
   f_add [Number (Fin 3), Nil, Number (Fin 3)] = bad_int64 \<and> f_sub [Number (Fin 3), Nil, Number (Fin 3)] = bad_int64 \<and>
   f_tostring [Foreign_Userdata] = bad_int64"
proof -
  have m: "\<not> mistakable [Number (Fin 3), Nil, Number (Fin 3)]" "\<not> mistakable [Foreign_Userdata]"
    by (simp_all add: mistakable_def)
  have n: "int64_of Nil = None" "int64_of Foreign_Userdata = None" by (simp_all add: int64_of_def)
  have a: "returns (f_add [Str [45, 49], Number (Fin 3)]) 2" "f_lt [Str [45, 49], Number (Fin 3)] = Inr [Boolean True]"
    using operations_refine_int64 [of "[Str [45, 49], Number (Fin 3)]" "- 1" "[3]"] minus_one_stands by simp_all
  have b: "f_add [Number (Fin 3), Nil, Number (Fin 3)] = bad_int64" "f_sub [Number (Fin 3), Nil, Number (Fin 3)] = bad_int64"
    using operations_refine_int64 [of _ _ _ "[Number (Fin 3), Nil, Number (Fin 3)]"] m(1) n(1) by (simp_all add: arg_def)
  have "f_tostring [Foreign_Userdata] = bad_int64"
    using operations_refine_int64 [of _ _ _ "[Foreign_Userdata]"] m(2) n(2) by (simp add: arg_def)
  with a b show ?thesis by blast
qed

lemma div_mod_int64_witness:
  "\<exists>q r. returns (f_div [Str [45, 49], Number (Fin 3)]) q \<and> returns (f_mod [Str [45, 49], Number (Fin 3)]) r \<and>
     - 1 = sint q * 3 + sint r"
  using div_mod_int64 [OF minus_one_stands] by (auto simp: min_int64_def)

lemma tostring_new_roundtrip_witness:
  "\<exists>s. f_tostring [Int64 (- 1)] = Inr [Str s] \<and> f_new [Str s] = Inr [Int64 (- 1)]"
proof -
  have "check64 [Int64 (- 1)] 0 = Inr (Some (- 1), [Int64 (- 1)])"
    by (simp add: check64_def bit64_getvalue_def same_metatable_def arg_def)
  from tostring_new_roundtrip [OF this] show ?thesis by blast
qed

end
