(* ===== verification/EdLine.thy ===== *)
theory EdLine
  imports WineTables
begin

text \<open>
  A line of the editor: \<^verbatim>\<open>far/src/edit.cpp\<close>, the part that the editor's plugin interface uses. A position in
  a line is an index into its characters or a cell of the screen: a tab reaches to the next tab stop, a
  full-width character has two cells and a prefix or suffix (a combining character) none.

  The line is its characters and its selection. The classes of the characters (\<^verbatim>\<open>CharClasses\<close>), the tab
  size and the two modes of the editor that matter are the \<open>view\<close>. The cursor of a line is set whenever the editor
  goes to it, so that there is one cursor, in the editor. Where a line is drawn (\<^verbatim>\<open>LeftPos\<close>) is not
  modelled.
\<close>

record view =
  FullWidth :: "wchar \<Rightarrow> bool"
  Xxxfix :: "wchar \<Rightarrow> bool"
  TabSize :: int
  ExpandAllTabs :: bool
  CursorBeyondEOL :: bool

record edit =
  Str :: "wchar list"
  SelStart :: int
  SelEnd :: int

definition StrSize :: "edit \<Rightarrow> int" where
  "StrSize l = int (length (Str l))"

definition is_tab :: "view \<Rightarrow> wchar \<Rightarrow> bool" where
  "is_tab v c \<longleftrightarrow> c = 9 \<and> \<not> ExpandAllTabs v"

section \<open>Cells and positions\<close>

definition next_stop :: "view \<Rightarrow> int \<Rightarrow> int" where
  "next_stop v cell = cell + (TabSize v - cell mod TabSize v)"

definition char_cells :: "view \<Rightarrow> wchar \<Rightarrow> int" where
  "char_cells v c = (if FullWidth v c then 2 else if \<not> Xxxfix v c then 1 else 0)"

text \<open>
  The loop of \<open>RealPosToCell\<close> over the characters from \<open>Index\<close> on: the index, the position, whether a
  tab may still be corrected, whether one was, and the cell.
\<close>

primrec cell_loop :: "view \<Rightarrow> wchar list \<Rightarrow> int \<Rightarrow> int \<Rightarrow> bool \<Rightarrow> bool \<Rightarrow> int \<Rightarrow> int \<times> int \<times> bool \<times> int" where
  "cell_loop v [] Index Pos bCorrectPos corrected TabPos = (Index, Pos, corrected, TabPos)"
| "cell_loop v (c # cs) Index Pos bCorrectPos corrected TabPos =
     (if \<not> Index < Pos then (Index, Pos, corrected, TabPos)
      else if is_tab v c then
        (if bCorrectPos then cell_loop v cs (Index + 1) (Pos + 1) False True (next_stop v TabPos)
         else cell_loop v cs (Index + 1) Pos False corrected (next_stop v TabPos))
      else cell_loop v cs (Index + 1) Pos bCorrectPos corrected (TabPos + char_cells v c))"

definition RealPosToCell4 :: "view \<Rightarrow> wchar list \<Rightarrow> int \<Rightarrow> nat \<Rightarrow> int \<Rightarrow> bool \<Rightarrow> int \<times> bool" where
  "RealPosToCell4 v str PrevLength PrevPos Pos bCorrectPos =
     (if length str \<le> PrevPos then (PrevLength + (Pos - int PrevPos), False)
      else case cell_loop v (drop PrevPos str) (int PrevPos) Pos bCorrectPos False PrevLength of
        (Index, Pos', corrected, TabPos) \<Rightarrow>
          (if int (length str) \<le> Pos' then TabPos + (Pos' - Index) else TabPos, corrected))"

definition RealPosToCell :: "view \<Rightarrow> wchar list \<Rightarrow> int \<Rightarrow> int" where
  "RealPosToCell v str Pos = fst (RealPosToCell4 v str 0 0 Pos False)"

function real_loop :: "view \<Rightarrow> wchar list \<Rightarrow> int \<Rightarrow> int \<Rightarrow> int \<Rightarrow> int" where
  "real_loop v cs Index CellPos Pos =
     (if \<not> CellPos < Pos then Index
      else case cs of
        [] \<Rightarrow> Index + (Pos - CellPos)
      | c # rest \<Rightarrow>
          if is_tab v c then
            (if next_stop v CellPos > Pos then Index else real_loop v rest (Index + 1) (next_stop v CellPos) Pos)
          else
            (let k = length (takeWhile (Xxxfix v) rest) in
             real_loop v (drop k rest) (Index + int k + 1) (CellPos + (if FullWidth v c then 2 else 1)) Pos))"
  by pat_completeness auto
termination
  by (relation "measure (\<lambda>(v, cs, i, c, p). length cs)") auto

definition CellPosToReal :: "view \<Rightarrow> wchar list \<Rightarrow> int \<Rightarrow> int" where
  "CellPosToReal v str Pos = real_loop v str 0 0 Pos"

declare real_loop.simps [simp del]

section \<open>The selection of a line\<close>

text \<open>
  The loops that keep a prefix or suffix together with its character. (A start behind the end of the line is
  read by the code without a check; here nothing is widened then.)
\<close>

function widen_start :: "view \<Rightarrow> wchar list \<Rightarrow> nat \<Rightarrow> nat" where
  "widen_start v str i = (if 0 < i \<and> i < length str \<and> Xxxfix v (str ! i) then widen_start v str (i - 1) else i)"
  by pat_completeness auto
termination
  by (relation "measure (\<lambda>(v, str, i). i)") auto

function widen_end :: "view \<Rightarrow> wchar list \<Rightarrow> nat \<Rightarrow> nat" where
  "widen_end v str i = (if i < length str \<and> Xxxfix v (str ! i) then widen_end v str (i + 1) else i)"
  by pat_completeness auto
termination
  by (relation "measure (\<lambda>(v, str, i). length str - i)") auto

declare widen_start.simps [simp del] widen_end.simps [simp del]

definition widen_selection :: "view \<Rightarrow> edit \<Rightarrow> edit" where
  "widen_selection v l =
     (if SelEnd l \<ge> SelStart l \<and> SelStart l \<ge> 0
      then l\<lparr>SelStart := int (widen_start v (Str l) (nat (SelStart l))), SelEnd := int (widen_end v (Str l) (nat (SelEnd l)))\<rparr>
      else l)"

definition no_selection :: "edit \<Rightarrow> edit" where
  "no_selection l = l\<lparr>SelStart := - 1, SelEnd := 0\<rparr>"

definition drop_crossed :: "edit \<Rightarrow> edit" where
  "drop_crossed l = (if SelEnd l < SelStart l \<and> SelEnd l \<noteq> - 1 then no_selection l else l)"

definition drop_unset :: "edit \<Rightarrow> edit" where
  "drop_unset l = (if SelStart l = - 1 \<and> SelEnd l = - 1 then no_selection l else l)"

definition SanitizeSelectionRange :: "view \<Rightarrow> edit \<Rightarrow> edit" where
  "SanitizeSelectionRange v l = drop_unset (drop_crossed (widen_selection v l))"

definition Select :: "view \<Rightarrow> int \<Rightarrow> int \<Rightarrow> edit \<Rightarrow> edit" where
  "Select v a b l = SanitizeSelectionRange v (l\<lparr>SelStart := a, SelEnd := b\<rparr>)"

definition GetSelection :: "edit \<Rightarrow> int \<times> int" where
  "GetSelection l = (if SelStart l > StrSize l then StrSize l else SelStart l,
                     if SelEnd l > StrSize l then - 1 else SelEnd l)"

definition GetRealSelection :: "edit \<Rightarrow> int \<times> int" where
  "GetRealSelection l = (SelStart l, SelEnd l)"

lemma Str_selection [simp]:
  "Str (widen_selection v l) = Str l" "Str (no_selection l) = Str l" "Str (drop_crossed l) = Str l" "Str (drop_unset l) = Str l"
  by (simp_all add: widen_selection_def no_selection_def drop_crossed_def drop_unset_def)

lemma Select_Str [simp]: "Str (Select v a b l) = Str l"
  by (simp add: Select_def SanitizeSelectionRange_def)

lemma SelStart_stages:
  "- 1 \<le> SelStart l \<Longrightarrow> - 1 \<le> SelStart (widen_selection v l)"
  "- 1 \<le> SelStart l \<Longrightarrow> - 1 \<le> SelStart (drop_crossed l)"
  "- 1 \<le> SelStart l \<Longrightarrow> - 1 \<le> SelStart (drop_unset l)"
  by (simp_all add: widen_selection_def no_selection_def drop_crossed_def drop_unset_def)

lemma SelStart_Select: "- 1 \<le> a \<Longrightarrow> - 1 \<le> SelStart (Select v a b l)"
  unfolding Select_def SanitizeSelectionRange_def by (intro SelStart_stages) simp

lemma Select_none [simp]: "SelStart (Select v (- 1) 0 l) = - 1"
  by (simp add: Select_def SanitizeSelectionRange_def widen_selection_def drop_crossed_def drop_unset_def no_selection_def)

section \<open>From a position to its cell and back\<close>

text \<open>
  A line is well formed if no prefix or suffix stands at its start or directly after a tab, where it has no
  character to belong to; \<open>attached\<close> says it of the characters of a part of the line.
\<close>

definition attached :: "view \<Rightarrow> wchar list \<Rightarrow> bool" where
  "attached v cs \<longleftrightarrow> (\<forall>i. Suc i < length cs \<longrightarrow> Xxxfix v (cs ! Suc i) \<longrightarrow> \<not> is_tab v (cs ! i))"

definition well_formed :: "view \<Rightarrow> wchar list \<Rightarrow> bool" where
  "well_formed v str \<longleftrightarrow> 0 < TabSize v \<and> (\<forall>c. Xxxfix v c \<longrightarrow> \<not> FullWidth v c \<and> \<not> is_tab v c) \<and>
     attached v str \<and> (str \<noteq> [] \<longrightarrow> \<not> Xxxfix v (hd str))"

text \<open>The cell after \<open>d\<close> characters.\<close>

definition after_char :: "view \<Rightarrow> int \<Rightarrow> wchar \<Rightarrow> int" where
  "after_char v cell c = (if is_tab v c then next_stop v cell else cell + char_cells v c)"

fun cells :: "view \<Rightarrow> int \<Rightarrow> wchar list \<Rightarrow> nat \<Rightarrow> int" where
  "cells v cell [] d = cell + int d"
| "cells v cell (c # cs) 0 = cell"
| "cells v cell (c # cs) (Suc d) = cells v (after_char v cell c) cs d"

lemma cells_0 [simp]: "cells v cell cs 0 = cell"
  by (cases cs) simp_all

lemma cell_loop_cells:
  "Index \<le> Pos \<Longrightarrow> (case cell_loop v cs Index Pos False corr cell of (I, P, k, T) \<Rightarrow>
     (if Index + int (length cs) \<le> P then T + (P - I) else T, k)) = (cells v cell cs (nat (Pos - Index)), corr)"
proof (induction cs arbitrary: Index cell)
  case (Cons c cs)
  show ?case
  proof (cases "Index < Pos")
    case True
    then have "nat (Pos - Index) = Suc (nat (Pos - (Index + 1)))" by simp
    then show ?thesis using Cons.IH [of "Index + 1" "after_char v cell c"] True
      by (cases "is_tab v c") (simp_all add: after_char_def add.assoc)
  qed (use Cons.prems in simp)
qed simp

lemma RealPosToCell_cells: "RealPosToCell v str (int d) = cells v 0 str d"
  using cell_loop_cells [where Index = 0 and Pos = "int d" and v = v and cs = str and corr = False and cell = 0]
  by (cases "str = []") (auto simp: RealPosToCell_def RealPosToCell4_def split: prod.splits)

lemma next_stop_greater: "0 < TabSize v \<Longrightarrow> cell < next_stop v cell"
  by (simp add: next_stop_def)

lemma after_char_mono: "0 < TabSize v \<Longrightarrow> cell \<le> after_char v cell c"
  using next_stop_greater [of v cell] by (simp add: after_char_def char_cells_def)

lemma cells_mono: "0 < TabSize v \<Longrightarrow> cell \<le> cells v cell cs d"
proof (induction v cell cs d rule: cells.induct)
  case (3 v cell c cs d)
  then show ?case using after_char_mono [of v cell c] by simp
qed simp_all

lemma cells_skip:
  "0 < TabSize v \<Longrightarrow> (\<forall>c. Xxxfix v c \<longrightarrow> \<not> FullWidth v c \<and> \<not> is_tab v c) \<Longrightarrow> length (takeWhile (Xxxfix v) cs) \<le> d \<Longrightarrow>
     cells v cell cs d = cells v cell (drop (length (takeWhile (Xxxfix v) cs)) cs) (d - length (takeWhile (Xxxfix v) cs))"
proof (induction cs arbitrary: d)
  case (Cons c cs)
  then show ?case by (cases d) (auto simp: after_char_def char_cells_def)
qed simp

lemma attached_Cons: "attached v (c # cs) \<Longrightarrow> attached v cs"
  unfolding attached_def by (metis Suc_less_eq length_Cons nth_Cons_Suc)

lemma attached_drop: "attached v cs \<Longrightarrow> attached v (drop k cs)"
proof (induction k arbitrary: cs)
  case (Suc k)
  then show ?case using attached_Cons by (cases cs) auto
qed simp

lemma real_loop_cells:
  assumes ts: "0 < TabSize v" and cl: "\<forall>c. Xxxfix v c \<longrightarrow> \<not> FullWidth v c \<and> \<not> is_tab v c"
  shows "attached v cs \<Longrightarrow> (cs \<noteq> [] \<longrightarrow> \<not> Xxxfix v (hd cs)) \<Longrightarrow> (d < length cs \<longrightarrow> \<not> Xxxfix v (cs ! d)) \<Longrightarrow>
    real_loop v cs Index cell (cells v cell cs d) = Index + int d"
proof (induction "length cs" arbitrary: cs d Index cell rule: less_induct)
  case less
  show ?case
  proof (cases "d = 0 \<or> cs = []")
    case True
    then show ?thesis by (cases cs) (auto simp: real_loop.simps)
  next
    case False
    then obtain c rest e where cs: "cs = c # rest" and d: "d = Suc e" by (cases cs; cases d) auto
    have x: "\<not> Xxxfix v c" using less.prems(2) cs by simp
    have gt: "cell < after_char v cell c"
      using x next_stop_greater [OF ts, of cell] by (simp add: after_char_def char_cells_def)
    have m: "after_char v cell c \<le> cells v (after_char v cell c) rest e" by (rule cells_mono [OF ts])
    have at: "attached v rest" using less.prems(1) cs attached_Cons by auto
    show ?thesis
    proof (cases "is_tab v c")
      case True
      have "rest \<noteq> [] \<longrightarrow> \<not> Xxxfix v (hd rest)"
        using less.prems(1) True unfolding attached_def cs by (auto simp: hd_conv_nth)
      then have "real_loop v rest (Index + 1) (after_char v cell c) (cells v (after_char v cell c) rest e) = Index + 1 + int e"
        using less.hyps [OF _ at] less.prems(3) cs d by simp
      then show ?thesis using gt m True by (subst real_loop.simps) (simp add: cs d after_char_def)
    next
      case False
      let ?k = "length (takeWhile (Xxxfix v) rest)" let ?t = "drop ?k rest"
      have k: "?k \<le> e"
      proof (rule ccontr)
        assume "\<not> ?k \<le> e"
        then have "e < ?k" by simp
        then have "e < length rest" "Xxxfix v (rest ! e)"
          using length_takeWhile_le [of "Xxxfix v" rest] nth_mem [of e "takeWhile (Xxxfix v) rest"]
          by (auto simp: takeWhile_nth dest: set_takeWhileD)
        then show False using less.prems(3) cs d by simp
      qed
      have h: "?t \<noteq> [] \<longrightarrow> \<not> Xxxfix v (hd ?t)"
        by (metis dropWhile_eq_drop hd_dropWhile)
      have "real_loop v ?t (Index + int ?k + 1) (after_char v cell c) (cells v (after_char v cell c) ?t (e - ?k)) =
          Index + int ?k + 1 + int (e - ?k)"
        using less.hyps [OF _ attached_drop [OF at] h] less.prems(3) cs d k by simp
      moreover have "cells v (after_char v cell c) rest e = cells v (after_char v cell c) ?t (e - ?k)"
        by (rule cells_skip [OF ts cl k])
      moreover have "after_char v cell c = cell + (if FullWidth v c then 2 else 1)"
        using False x by (simp add: after_char_def char_cells_def)
      ultimately show ?thesis using gt m False k by (subst real_loop.simps) (simp add: cs d Let_def)
    qed
  qed
qed

text \<open>
  Round trip: a position of a well-formed line that is not inside a character with its suffixes is found again
  from its cell, with tabs, full-width characters and positions behind the end of the line.
\<close>

theorem cell_roundtrip:
  "well_formed v str \<Longrightarrow> (p < length str \<longrightarrow> \<not> Xxxfix v (str ! p)) \<Longrightarrow>
     CellPosToReal v str (RealPosToCell v str (int p)) = int p"
  unfolding CellPosToReal_def RealPosToCell_cells well_formed_def
  using real_loop_cells [of v str p 0 0] by simp

text \<open>
  A combining character at the start of a line counts no cell in one direction and one in the other, so that
  the cursor behind it moves when the editor goes to another line and back.
\<close>

definition acute_view :: view where
  "acute_view = \<lparr>FullWidth = (\<lambda>c. False), Xxxfix = (\<lambda>c. c = 0x301), TabSize = 8, ExpandAllTabs = False, CursorBeyondEOL = False\<rparr>"

lemma cell_roundtrip_fails: "CellPosToReal acute_view [0x301, 97, 98] (RealPosToCell acute_view [0x301, 97, 98] 2) = 1"
  by code_simp

lemma cell_roundtrip_witness: "CellPosToReal acute_view [97, 0x301, 9, 98] (RealPosToCell acute_view [97, 0x301, 9, 98] 3) = 3"
proof -
  have "attached acute_view [97, 0x301, 9, 98]"
    by (auto simp: attached_def acute_view_def is_tab_def less_Suc_eq nth_Cons split: nat.splits)
  then have "well_formed acute_view [97, 0x301, 9, 98]" by (simp add: well_formed_def acute_view_def is_tab_def)
  then show ?thesis using cell_roundtrip [of acute_view "[97, 0x301, 9, 98]" 3] by (simp add: acute_view_def)
qed

end
