(* ===== verification/EdControl.thy ===== *)
theory EdControl
  imports EdLine
begin

text \<open>
  The editor as a plugin sees it: the requests \<^verbatim>\<open>ECTL_GETINFO\<close>, \<^verbatim>\<open>ECTL_GETSTRING\<close>, \<^verbatim>\<open>ECTL_SETPOSITION\<close>,
  \<^verbatim>\<open>ECTL_SELECT\<close> and \<^verbatim>\<open>ECTL_REDRAW\<close> of \<^verbatim>\<open>far/src/editor.cpp\<close>.

  The list of lines is a list, and a pointer to a line is its number. The cursor is the number of its line and
  its position in that line: whenever the editor goes to a line it sets the position there from the cell
  of the old one. \<^verbatim>\<open>TopScreen\<close>, \<^verbatim>\<open>LeftPos\<close>, the undo data, bookmarks and what the window looks like are not
  modelled; a redraw is what it does to the cursor.
\<close>

record editor =
  Lines :: "edit list"
  NumLine :: nat
  CurPos :: int
  BlockStart :: "nat option"
  VBlockStart :: "nat option"
  BlockStartLine :: int
  VBlockX :: int
  VBlockY :: int
  VBlockSizeX :: int
  VBlockSizeY :: int

definition CurLine :: "editor \<Rightarrow> edit" where
  "CurLine ed = Lines ed ! NumLine ed"

definition NumLastLine :: "editor \<Rightarrow> int" where
  "NumLastLine ed = int (length (Lines ed))"

section \<open>Moving to a line\<close>

text \<open>The new line gets the cell of the cursor.\<close>

definition move_to :: "view \<Rightarrow> nat \<Rightarrow> editor \<Rightarrow> editor" where
  "move_to v n ed =
     ed\<lparr>NumLine := n, CurPos := CellPosToReal v (Str (Lines ed ! n)) (RealPosToCell v (Str (CurLine ed)) (CurPos ed))\<rparr>"

definition Up :: "view \<Rightarrow> editor \<Rightarrow> editor" where
  "Up v ed = (if NumLine ed = 0 then ed else move_to v (NumLine ed - 1) ed)"

definition Down :: "view \<Rightarrow> editor \<Rightarrow> editor" where
  "Down v ed = (if Suc (NumLine ed) < length (Lines ed) then move_to v (NumLine ed + 1) ed else ed)"

text \<open>The walk along the list, which ends at its last line in either direction.\<close>

function walk :: "bool \<Rightarrow> nat \<Rightarrow> nat \<Rightarrow> int \<Rightarrow> nat" where
  "walk bReverse end_line n Line =
     (if bReverse then (if int n > Line \<and> 0 < n then walk bReverse end_line (n - 1) Line else n)
      else (if int n < Line \<and> n < end_line then walk bReverse end_line (n + 1) Line else n))"
  by pat_completeness auto
termination
  by (relation "measure (\<lambda>(r, e, n, Line). if r then n else e - n)") auto

declare walk.simps [simp del]

definition GoToLine :: "view \<Rightarrow> int \<Rightarrow> editor \<Rightarrow> editor" where
  "GoToLine v Line ed =
     (if Line = int (NumLine ed) then ed
      else let n = int (NumLine ed); end_line = length (Lines ed) - 1;
               (bReverse, from) =
                 (if Line < n then (if Line > n div 2 then (True, NumLine ed) else (False, 0))
                  else if Line > n + (NumLastLine ed - n) div 2 then (True, end_line) else (False, NumLine ed))
           in move_to v (walk bReverse end_line from Line) ed)"

text \<open>A line by its number; a negative number is the current line.\<close>

definition GetStringByNumber :: "int \<Rightarrow> editor \<Rightarrow> nat option" where
  "GetStringByNumber n ed =
     (if n = int (NumLine ed) \<or> n < 0 then Some (NumLine ed)
      else if n < NumLastLine ed then Some (nat n) else None)"

section \<open>Redrawing and unmarking\<close>

definition ectl_redraw :: "view \<Rightarrow> editor \<Rightarrow> editor" where
  "ectl_redraw v ed =
     (if \<not> CursorBeyondEOL v \<and> CurPos ed > StrSize (CurLine ed) then ed\<lparr>CurPos := StrSize (CurLine ed)\<rparr> else ed)"

fun unmark_lines :: "view \<Rightarrow> edit list \<Rightarrow> edit list" where
  "unmark_lines v [] = []"
| "unmark_lines v (l # ls) =
     (if fst (GetSelection l) = - 1 \<and> (ls = [] \<or> fst (GetSelection (hd ls)) = - 1) then l # ls
      else Select v (- 1) 0 l # unmark_lines v ls)"

definition UnmarkBlock :: "view \<Rightarrow> editor \<Rightarrow> editor" where
  "UnmarkBlock v ed =
     (if BlockStart ed = None \<and> VBlockStart ed = None then ed
      else let ls = (case BlockStart ed of None \<Rightarrow> Lines ed
                     | Some b \<Rightarrow> take b (Lines ed) @ unmark_lines v (drop b (Lines ed)))
           in ectl_redraw v (ed\<lparr>Lines := ls, VBlockStart := None, BlockStart := None\<rparr>))"

section \<open>The requests\<close>

datatype block_type = BTYPE_NONE | BTYPE_STREAM | BTYPE_COLUMN

record editor_info =
  TotalLines :: int
  iCurLine :: int
  iCurPos :: int
  iBlockType :: block_type
  iBlockStartLine :: int

definition ectl_getinfo :: "editor \<Rightarrow> editor_info" where
  "ectl_getinfo ed =
     (let bt = (if VBlockStart ed \<noteq> None then BTYPE_COLUMN else if BlockStart ed \<noteq> None then BTYPE_STREAM else BTYPE_NONE) in
      \<lparr>TotalLines = NumLastLine ed, iCurLine = int (NumLine ed), iCurPos = CurPos ed, iBlockType = bt,
       iBlockStartLine = (if bt = BTYPE_NONE then 0 else BlockStartLine ed)\<rparr>)"

record editor_string =
  StringText :: "wchar list"
  sSelStart :: int
  sSelEnd :: int

definition StringLength :: "editor_string \<Rightarrow> int" where
  "StringLength g = int (length (StringText g))"

definition string_selection :: "view \<Rightarrow> int \<Rightarrow> edit \<Rightarrow> editor \<Rightarrow> int \<times> int" where
  "string_selection v DestLine l ed =
     (if BlockStart ed \<noteq> None then GetRealSelection l
      else if VBlockStart ed \<noteq> None \<and> DestLine \<ge> VBlockY ed \<and> DestLine < VBlockY ed + VBlockSizeY ed then
        (let a = CellPosToReal v (Str l) (VBlockX ed) in
         (a, a + CellPosToReal v (Str l) (VBlockX ed + VBlockSizeX ed) - CellPosToReal v (Str l) (VBlockX ed)))
      else (- 1, 0))"

definition ectl_getstring :: "view \<Rightarrow> int \<Rightarrow> editor \<Rightarrow> editor_string option" where
  "ectl_getstring v StringNumber ed =
     (case GetStringByNumber StringNumber ed of
        None \<Rightarrow> None
      | Some n \<Rightarrow>
          (let l = Lines ed ! n; DestLine = (if StringNumber = - 1 then int (NumLine ed) else StringNumber);
               (a, b) = string_selection v DestLine l ed
           in Some \<lparr>StringText = Str l, sSelStart = a, sSelEnd = b\<rparr>))"

text \<open>The position that is asked for; a negative component is left as it is.\<close>

definition ectl_setposition :: "view \<Rightarrow> int \<Rightarrow> int \<Rightarrow> int \<Rightarrow> editor \<Rightarrow> editor" where
  "ectl_setposition v pLine pPos pTabPos ed =
     (let ed1 = (if pLine \<ge> 0 then
                   (if pLine = int (NumLine ed) - 1 then Up v ed
                    else if pLine = int (NumLine ed) + 1 then Down v ed
                    else GoToLine v pLine ed)
                 else ed);
          ed2 = (if pPos \<ge> 0 then ed1\<lparr>CurPos := pPos\<rparr> else ed1)
      in if pTabPos \<ge> 0 then ed2\<lparr>CurPos := CellPosToReal v (Str (CurLine ed2)) pTabPos\<rparr> else ed2)"

record editor_select =
  BlockType :: block_type
  bStartLine :: int
  bStartPos :: int
  bWidth :: int
  bHeight :: int

primrec select_lines :: "view \<Rightarrow> int \<Rightarrow> int \<Rightarrow> bool \<Rightarrow> nat \<Rightarrow> edit list \<Rightarrow> edit list" where
  "select_lines v pos width is_first 0 ls = ls"
| "select_lines v pos width is_first (Suc k) ls =
     (case ls of
        [] \<Rightarrow> []
      | l # rest \<Rightarrow> Select v (if is_first then pos else 0) (if k > 0 then - 1 else pos + width) l #
                  select_lines v pos width False k rest)"

definition select_stream :: "view \<Rightarrow> editor_select \<Rightarrow> nat \<Rightarrow> editor \<Rightarrow> editor" where
  "select_stream v b n ed =
     ed\<lparr>BlockStart := Some n, BlockStartLine := (if bStartLine b = - 1 then int (NumLine ed) else bStartLine b),
        Lines := take n (Lines ed) @ select_lines v (bStartPos b) (bWidth b) True (nat (bHeight b)) (drop n (Lines ed))\<rparr>"

definition select_column :: "editor_select \<Rightarrow> nat \<Rightarrow> editor \<Rightarrow> editor" where
  "select_column b n ed =
     (let start = (if bStartLine b = - 1 then int (NumLine ed) else bStartLine b); w = bWidth b in
      ed\<lparr>VBlockStart := Some n, BlockStartLine := start, VBlockY := start, VBlockSizeY := bHeight b,
         VBlockSizeX := \<bar>w\<bar>, VBlockX := (if w < 0 then max 0 (bStartPos b - \<bar>w\<bar>) else bStartPos b)\<rparr>)"

definition ectl_select :: "view \<Rightarrow> editor_select \<Rightarrow> editor \<Rightarrow> bool \<times> editor" where
  "ectl_select v b ed =
     (if BlockType b = BTYPE_NONE \<or> bStartPos b = - 1 then (True, UnmarkBlock v ed)
      else if bHeight b < 1 then (False, ed)
      else case GetStringByNumber (bStartLine b) ed of
        None \<Rightarrow> (False, ed)
      | Some n \<Rightarrow>
          (let ed1 = UnmarkBlock v ed in
           (True, case BlockType b of
              BTYPE_STREAM \<Rightarrow> select_stream v b n ed1
            | BTYPE_COLUMN \<Rightarrow> select_column b n ed1
            | BTYPE_NONE \<Rightarrow> ed1)))"

section \<open>What the requests do\<close>

definition texts :: "editor \<Rightarrow> wchar list list" where
  "texts ed = map Str (Lines ed)"

text \<open>The cursor is on a line of the text, and no selection starts before the first character.\<close>

definition wf_editor :: "editor \<Rightarrow> bool" where
  "wf_editor ed \<longleftrightarrow> NumLine ed < length (Lines ed) \<and> (\<forall>l \<in> set (Lines ed). - 1 \<le> SelStart l)"

lemma walk_back: "walk True e n Line = (if int n > Line then nat (max 0 Line) else n)"
proof (induction True e n Line rule: walk.induct)
  case (1 e n Line)
  then show ?case by (subst walk.simps) auto
qed

lemma walk_forth: "n \<le> e \<Longrightarrow> walk False e n Line = (if int n < Line then min e (nat Line) else n)"
proof (induction False e n Line rule: walk.induct)
  case (1 e n Line)
  then show ?case by (subst walk.simps) auto
qed

lemma GoToLine_move:
  "NumLine ed < length (Lines ed) \<Longrightarrow> GoToLine v Line ed = (if Line = int (NumLine ed) then ed
     else move_to v (nat (max 0 (min Line (NumLastLine ed - 1)))) ed)"
  unfolding GoToLine_def NumLastLine_def Let_def
  by (auto simp: walk_back walk_forth min_def max_def nat_less_iff le_nat_iff
      intro!: arg_cong [where f = "\<lambda>n. move_to v n ed"])

text \<open>What no movement of the cursor changes, and no other request but those that mark.\<close>

definition same_block :: "editor \<Rightarrow> editor \<Rightarrow> bool" where
  "same_block e f \<longleftrightarrow> Lines f = Lines e \<and> BlockStart f = BlockStart e \<and> VBlockStart f = VBlockStart e"

lemma same_block_refl [simp]: "same_block e e"
  by (simp add: same_block_def)

lemma same_block_trans: "same_block e f \<Longrightarrow> same_block f g \<Longrightarrow> same_block e g"
  by (simp add: same_block_def)

lemma same_block_move [simp]: "same_block ed (move_to v n ed)"
  by (simp add: same_block_def move_to_def)

lemma same_block_CurPos [simp]: "same_block e (f\<lparr>CurPos := p\<rparr>) \<longleftrightarrow> same_block e f"
  by (simp add: same_block_def)

lemma NumLine_move [simp]: "NumLine (move_to v n ed) = n"
  by (simp add: move_to_def)

definition goto :: "view \<Rightarrow> int \<Rightarrow> editor \<Rightarrow> editor" where
  "goto v n ed = (if n \<ge> 0 then
     (if n = int (NumLine ed) - 1 then Up v ed else if n = int (NumLine ed) + 1 then Down v ed else GoToLine v n ed) else ed)"

lemma ectl_setposition_goto:
  "ectl_setposition v n p (- 1) ed = (if p \<ge> 0 then (goto v n ed)\<lparr>CurPos := p\<rparr> else goto v n ed)"
  by (simp add: ectl_setposition_def goto_def Let_def)

lemma goto_line:
  assumes "NumLine ed < length (Lines ed)" "n < NumLastLine ed"
  shows "same_block ed (goto v n ed)" "NumLine (goto v n ed) = (if n < 0 then NumLine ed else nat n)"
  using assms by (auto simp: goto_def Up_def Down_def GoToLine_move NumLastLine_def)

lemma setposition_line:
  assumes "NumLine ed < length (Lines ed)" "n < NumLastLine ed"
  shows "same_block ed (ectl_setposition v n p (- 1) ed)"
    "NumLine (ectl_setposition v n p (- 1) ed) = (if n < 0 then NumLine ed else nat n)"
    "p \<ge> 0 \<Longrightarrow> CurPos (ectl_setposition v n p (- 1) ed) = p"
  using goto_line [OF assms] by (auto simp: ectl_setposition_goto)

section \<open>Marking keeps the text\<close>

lemma texts_unmark [simp]: "map Str (unmark_lines v ls) = map Str ls"
  by (induction v ls rule: unmark_lines.induct) simp_all

lemma texts_select [simp]: "map Str (select_lines v p w f k ls) = map Str ls"
  by (induction k arbitrary: f ls) (auto split: list.split)

lemma SelStart_unmark: "\<forall>l \<in> set ls. - 1 \<le> SelStart l \<Longrightarrow> \<forall>l \<in> set (unmark_lines v ls). - 1 \<le> SelStart l"
  by (induction v ls rule: unmark_lines.induct) auto

lemma SelStart_select_lines:
  "- 1 \<le> p \<Longrightarrow> \<forall>l \<in> set ls. - 1 \<le> SelStart l \<Longrightarrow> \<forall>l \<in> set (select_lines v p w f k ls). - 1 \<le> SelStart l"
  by (induction k arbitrary: f ls) (auto split: list.split simp: SelStart_Select)

lemma redraw_simps [simp]:
  "Lines (ectl_redraw v ed) = Lines ed" "NumLine (ectl_redraw v ed) = NumLine ed"
  "BlockStart (ectl_redraw v ed) = BlockStart ed"
  by (simp_all add: ectl_redraw_def)

lemma redraw_CurPos [simp]: "CurPos ed \<le> StrSize (CurLine ed) \<Longrightarrow> CurPos (ectl_redraw v ed) = CurPos ed"
  by (simp add: ectl_redraw_def)

text \<open>\<open>kept\<close>: the text and the line of the cursor are as before, and the editor is well formed.\<close>

definition kept :: "editor \<Rightarrow> editor \<Rightarrow> bool" where
  "kept e f \<longleftrightarrow> texts f = texts e \<and> NumLine f = NumLine e \<and> wf_editor f"

lemma texts_length: "texts f = texts e \<Longrightarrow> length (Lines f) = length (Lines e)"
  unfolding texts_def by (rule map_eq_imp_length_eq)

lemma kept_redraw: "kept e f \<Longrightarrow> kept e (ectl_redraw v f)"
  by (simp add: kept_def texts_def wf_editor_def)

lemma kept_refl: "wf_editor e \<Longrightarrow> kept e e"
  by (simp add: kept_def)

lemma kept_splice:
  assumes e: "wf_editor e" and t: "map Str ys = map Str (drop b (Lines e))" and p: "\<forall>l \<in> set ys. - 1 \<le> SelStart l"
    and f: "Lines f = take b (Lines e) @ ys" "NumLine f = NumLine e"
  shows "kept e f"
proof -
  have "texts f = texts e" unfolding texts_def f(1) map_append t by (simp flip: map_append)
  moreover have "\<forall>l \<in> set (Lines f). - 1 \<le> SelStart l"
    using e p unfolding f(1) wf_editor_def by (auto dest: in_set_takeD)
  ultimately show ?thesis using e f(2) texts_length [of f e] by (simp add: kept_def wf_editor_def)
qed

lemma kept_UnmarkBlock: "wf_editor e \<Longrightarrow> kept e (UnmarkBlock v e)"
proof -
  assume e: "wf_editor e"
  show ?thesis
  proof (cases "BlockStart e")
    case None
    then show ?thesis using kept_redraw [of e "e\<lparr>VBlockStart := None, BlockStart := None\<rparr>"] e
      by (auto simp: UnmarkBlock_def kept_def wf_editor_def texts_def)
  next
    case (Some b)
    have "\<forall>l \<in> set (unmark_lines v (drop b (Lines e))). - 1 \<le> SelStart l"
      using e by (intro SelStart_unmark) (auto simp: wf_editor_def dest: in_set_dropD)
    then have "kept e (e\<lparr>Lines := take b (Lines e) @ unmark_lines v (drop b (Lines e)), VBlockStart := None, BlockStart := None\<rparr>)"
      using e by (intro kept_splice) simp_all
    then show ?thesis using Some by (simp add: UnmarkBlock_def kept_redraw)
  qed
qed

lemma kept_trans: "kept e f \<Longrightarrow> kept f g \<Longrightarrow> kept e g"
  by (simp add: kept_def)

lemma kept_select_stream:
  assumes e: "wf_editor e" and b: "- 1 \<le> bStartPos b"
  shows "kept e (select_stream v b n e)"
proof (rule kept_splice [OF e])
  show "\<forall>l \<in> set (select_lines v (bStartPos b) (bWidth b) True (nat (bHeight b)) (drop n (Lines e))). - 1 \<le> SelStart l"
    using e by (intro SelStart_select_lines [OF b]) (auto simp: wf_editor_def dest: in_set_dropD)
qed (simp_all add: select_stream_def)

lemma kept_select:
  assumes "wf_editor e" "- 1 \<le> bStartPos b"
  shows "kept e (snd (ectl_select v b e))"
proof -
  have u: "kept e (UnmarkBlock v e)" by (rule kept_UnmarkBlock [OF assms(1)])
  then have w: "wf_editor (UnmarkBlock v e)" by (simp add: kept_def)
  have c: "kept f (select_column b n f)" if "wf_editor f" for f n
    using that by (auto simp: kept_def select_column_def wf_editor_def texts_def Let_def)
  show ?thesis unfolding ectl_select_def Let_def
    using u kept_refl [OF assms(1)] kept_trans [OF u kept_select_stream [OF w assms(2)]] kept_trans [OF u c [OF w]]
    by (auto split: option.split block_type.split)
qed

end
