(* ===== verification/IncLoc.thy ===== *)
theory IncLoc
  imports WineTables
begin

text \<open>
  The substring search of the incremental search plugin: \<^verbatim>\<open>incsrch/loc.c\<close>, as it is built here
  (\<^verbatim>\<open>WINPORT_DIRECT\<close>, \<^verbatim>\<open>UNICODE\<close>). It is the Boyer-Moore search with the table of the last (or first)
  occurrence of a character in the pattern, indexed by the low 16 bits of the character.

  \<open>up\<close> is what is applied to a character of the text before it is compared: \<^verbatim>\<open>CharUpperBuff\<close> of the
  system when the search ignores case, and the identity otherwise; the pattern has been converted by
  the caller. The length of the pattern, \<^verbatim>\<open>nLen\<close>, is the length of the list. A character read outside the text or
  the pattern makes a search \<open>None\<close>; \<open>Some None\<close> is the null pointer.
\<close>

type_synonym skip_table = "u16 \<Rightarrow> nat"

definition PreInitSkipTable :: "nat \<Rightarrow> skip_table" where
  "PreInitSkipTable nLen = (\<lambda>c. nLen)"

primrec set_skips_L :: "wchar list \<Rightarrow> nat \<Rightarrow> skip_table \<Rightarrow> skip_table" where
  "set_skips_L pat 0 skip = skip"
| "set_skips_L pat (Suc i) skip = (set_skips_L pat i skip)(ucast (pat ! i) := length pat - 1 - i)"

definition SetSubstringPatternL :: "wchar list \<Rightarrow> skip_table" where
  "SetSubstringPatternL pat = set_skips_L pat (length pat) (PreInitSkipTable (length pat))"

primrec set_skips_R :: "wchar list \<Rightarrow> nat \<Rightarrow> skip_table \<Rightarrow> skip_table" where
  "set_skips_R pat 0 skip = skip"
| "set_skips_R pat (Suc i) skip = set_skips_R pat i (skip(ucast (pat ! i) := i))"

definition SetSubstringPatternR :: "wchar list \<Rightarrow> skip_table" where
  "SetSubstringPatternR pat = set_skips_R pat (length pat) (PreInitSkipTable (length pat))"

text \<open>The loops, at the positions \<open>t\<close> in the text and \<open>p\<close> in the pattern.\<close>

function SubStringL_loop :: "(wchar \<Rightarrow> wchar) \<Rightarrow> wchar list \<Rightarrow> skip_table \<Rightarrow> wchar list \<Rightarrow> nat \<Rightarrow> nat \<Rightarrow> nat option option" where
  "SubStringL_loop up pat skip buf t p =
     (if \<not> (t < length buf \<and> p < length pat) then None
      else let c = up (buf ! t) in
        if c = pat ! p then
          (if p = 0 then Some (Some t) else if t = 0 then None else SubStringL_loop up pat skip buf (t - 1) (p - 1))
        else let step = max (length pat - p) (skip (ucast c)) in
          if length buf \<le> t + step then Some None
          else SubStringL_loop up pat skip buf (t + step) (length pat - 1))"
  by pat_completeness auto
termination
  by (relation "measures [\<lambda>(up, pat, skip, buf, t, p). length buf - (t + (length pat - 1 - p)), \<lambda>(up, pat, skip, buf, t, p). p]")
    (auto simp: Let_def max_def)

definition SubStringL :: "(wchar \<Rightarrow> wchar) \<Rightarrow> wchar list \<Rightarrow> skip_table \<Rightarrow> wchar list \<Rightarrow> nat option option" where
  "SubStringL up pat skip buf =
     (if pat = [] then Some (Some 0)
      else if length pat > length buf then Some None
      else SubStringL_loop up pat skip buf (length pat - 1) (length pat - 1))"

function SubStringR_loop :: "(wchar \<Rightarrow> wchar) \<Rightarrow> wchar list \<Rightarrow> skip_table \<Rightarrow> wchar list \<Rightarrow> nat \<Rightarrow> nat \<Rightarrow> nat option option" where
  "SubStringR_loop up pat skip buf t p =
     (if \<not> (t < length buf \<and> p < length pat) then None
      else let c = up (buf ! t) in
        if c = pat ! p then
          (if p = length pat - 1 then Some (Some (t + 1 - length pat))
           else SubStringR_loop up pat skip buf (t + 1) (p + 1))
        else let step = max (p + 1) (skip (ucast c)) in
          if t < step then Some None else SubStringR_loop up pat skip buf (t - step) 0)"
  by pat_completeness auto
termination
  by (relation "measures [\<lambda>(up, pat, skip, buf, t, p). t - p, \<lambda>(up, pat, skip, buf, t, p). length pat - p]")
    (auto simp: Let_def max_def)

definition SubStringR :: "(wchar \<Rightarrow> wchar) \<Rightarrow> wchar list \<Rightarrow> skip_table \<Rightarrow> wchar list \<Rightarrow> nat option option" where
  "SubStringR up pat skip buf =
     (if pat = [] then Some (Some 0)
      else if length pat > length buf then Some None
      else SubStringR_loop up pat skip buf (length buf - length pat) 0)"

declare SubStringL_loop.simps [simp del] SubStringR_loop.simps [simp del]

section \<open>The skip tables\<close>

locale skip_law =
  fixes pat :: "wchar list" and skip :: skip_table and dist :: "nat \<Rightarrow> nat"
  assumes bound: "skip c \<le> length pat"
    and occurs: "k < length pat \<Longrightarrow> skip (ucast (pat ! k)) \<le> dist k"
begin

lemma absent: "k < length pat \<Longrightarrow> dist k < skip (ucast c) \<Longrightarrow> pat ! k \<noteq> c"
  using occurs [of k] by auto

end

lemma set_skips_L_law:
  "n \<le> length pat \<Longrightarrow> (set_skips_L pat n (\<lambda>c. length pat)) c \<le> length pat \<and>
    (\<forall>k < n. set_skips_L pat n (\<lambda>c. length pat) (ucast (pat ! k)) \<le> length pat - 1 - k)"
proof (induction n arbitrary: c)
  case (Suc n)
  have "set_skips_L pat (Suc n) (\<lambda>c. length pat) (ucast (pat ! k)) \<le> length pat - 1 - k" if "k < Suc n" for k
    using Suc that by (cases "k = n") auto
  then show ?case using Suc by auto
qed simp

lemma set_skips_R_law:
  "n \<le> length pat \<Longrightarrow> (\<forall>c. sk c \<le> length pat) \<Longrightarrow> (\<forall>k. n \<le> k \<longrightarrow> k < length pat \<longrightarrow> sk (ucast (pat ! k)) \<le> k) \<Longrightarrow>
    (\<forall>c. set_skips_R pat n sk c \<le> length pat) \<and> (\<forall>k < length pat. set_skips_R pat n sk (ucast (pat ! k)) \<le> k)"
proof (induction n arbitrary: sk)
  case (Suc n)
  let ?sk = "sk(ucast (pat ! n) := n)"
  have b: "\<forall>c. ?sk c \<le> length pat" using Suc.prems by auto
  have o: "\<forall>k. n \<le> k \<longrightarrow> k < length pat \<longrightarrow> ?sk (ucast (pat ! k)) \<le> k"
    using Suc.prems(3) by (metis fun_upd_apply le_less not_less_eq_eq order_refl Suc_leI)
  have n: "n \<le> length pat" using Suc.prems(1) by simp
  show ?case using Suc.IH [OF n b o] by (simp del: fun_upd_apply)
qed simp

interpretation skips_L: skip_law pat "SetSubstringPatternL pat" "\<lambda>k. length pat - 1 - k" for pat
  using set_skips_L_law [of "length pat" pat]
  by unfold_locales (auto simp: SetSubstringPatternL_def PreInitSkipTable_def)

interpretation skips_R: skip_law pat "SetSubstringPatternR pat" "\<lambda>k. k" for pat
  using set_skips_R_law [of "length pat" pat "\<lambda>c. length pat"]
  by unfold_locales (auto simp: SetSubstringPatternR_def PreInitSkipTable_def)

section \<open>Correctness\<close>

definition occurs_at :: "(wchar \<Rightarrow> wchar) \<Rightarrow> wchar list \<Rightarrow> wchar list \<Rightarrow> nat \<Rightarrow> bool" where
  "occurs_at up pat buf i \<longleftrightarrow> i + length pat \<le> length buf \<and> (\<forall>j < length pat. up (buf ! (i + j)) = pat ! j)"

text \<open>
  One comparison that fails. The text character \<open>c\<close> stands at the place \<open>a + p\<close> of the window that starts at
  \<open>a\<close>; a window that starts \<open>d\<close> later has it at the place \<open>p - d\<close> of the pattern.
\<close>

lemma occurs_at_char: "occurs_at up pat buf i \<Longrightarrow> i \<le> t \<Longrightarrow> t < i + length pat \<Longrightarrow> pat ! (t - i) = up (buf ! t)"
  unfolding occurs_at_def by (metis add_diff_inverse_nat less_diff_conv2 add.commute linorder_not_le nat_add_left_cancel_less)

lemma mismatch_L:
  assumes sk: "skip_law pat skip (\<lambda>k. length pat - 1 - k)"
    and ne: "up (buf ! (a + p)) \<noteq> pat ! p" and p: "p < length pat"
    and i: "a \<le> i" "i + (length pat - 1) < a + p + max (length pat - p) (skip (ucast (up (buf ! (a + p)))))"
  shows "\<not> occurs_at up pat buf i"
proof
  assume oc: "occurs_at up pat buf i"
  let ?c = "up (buf ! (a + p))"
  have le: "i \<le> a + p"
    using i(2) p skip_law.bound [OF sk, of "ucast ?c"] by (auto simp: max_def split: if_splits)
  have ch: "pat ! (a + p - i) = ?c" using occurs_at_char [OF oc le] i(1) p by simp
  have "i \<noteq> a" using ch ne by auto
  then have "length pat - 1 - (a + p - i) < skip (ucast ?c)"
    using i p le by (auto simp: max_def split: if_splits)
  then have "pat ! (a + p - i) \<noteq> ?c" using i(1) p by (intro skip_law.absent [OF sk]) auto
  then show False using ch by simp
qed

lemma SubStringL_loop_spec:
  assumes sk: "skip_law pat skip (\<lambda>k. length pat - 1 - k)"
  shows "p < length pat \<Longrightarrow> p \<le> t \<Longrightarrow> t + (length pat - 1 - p) < length buf \<Longrightarrow>
    (\<forall>j. p < j \<longrightarrow> j < length pat \<longrightarrow> up (buf ! (t - p + j)) = pat ! j) \<Longrightarrow>
    (\<forall>i < t - p. \<not> occurs_at up pat buf i) \<Longrightarrow>
    (case SubStringL_loop up pat skip buf t p of None \<Rightarrow> False
     | Some None \<Rightarrow> (\<forall>i. \<not> occurs_at up pat buf i)
     | Some (Some i) \<Rightarrow> occurs_at up pat buf i \<and> (\<forall>k < i. \<not> occurs_at up pat buf k))"
  using sk
proof (induction up pat skip buf t p rule: SubStringL_loop.induct)
  case (1 up pat skip buf t p)
  let ?c = "up (buf ! t)" let ?m = "length pat - 1"
  note pl = 1(3) and pt = 1(4) and tl = 1(5) and eq = 1(6) and no = 1(7) and law = 1(8)
  have b: "\<not> \<not> (t < length buf \<and> p < length pat)" using pl tl by simp
  have a: "t - p + p = t" using pt by simp
  show ?case
  proof (cases "?c = pat ! p")
    case same: True
    have all: "up (buf ! (t - p + j)) = pat ! j" if "p \<le> j" "j < length pat" for j
      using that same eq a by (cases "j = p") auto
    show ?thesis
    proof (cases "p = 0")
      case True
      then have "occurs_at up pat buf t" unfolding occurs_at_def using all tl pl by auto
      then show ?thesis using no True same b by (subst SubStringL_loop.simps) simp
    next
      case False
      then have t: "t \<noteq> 0" "t - 1 - (p - 1) = t - p" using pt by auto
      have m: "\<forall>j. p - 1 < j \<longrightarrow> j < length pat \<longrightarrow> up (buf ! (t - 1 - (p - 1) + j)) = pat ! j"
        using all False t(2) by simp
      have l: "p - 1 < length pat" "p - 1 \<le> t - 1" "t - 1 + (?m - (p - 1)) < length buf"
        using pl pt tl False by auto
      show ?thesis
        using 1(1) [OF b refl same False t(1) l m _ law] no t b same False
        by (subst SubStringL_loop.simps) simp
    qed
  next
    case diff: False
    let ?st = "max (length pat - p) (skip (ucast ?c))"
    have mis: "\<not> occurs_at up pat buf i" if "i + ?m < t + ?st" for i
    proof (cases "i < t - p")
      case False
      then show ?thesis
        using mismatch_L [OF law, of up buf "t - p" p i] that pl a diff by simp
    qed (use no in simp)
    show ?thesis
    proof (cases "length buf \<le> t + ?st")
      case True
      have "\<not> occurs_at up pat buf i" for i
        using mis [of i] True pl by (cases "i + ?m < t + ?st") (auto simp: occurs_at_def)
      then show ?thesis using b diff True by (subst SubStringL_loop.simps) (simp add: Let_def)
    next
      case st: False
      have l: "?m < length pat" "?m \<le> t + ?st" "t + ?st + (?m - ?m) < length buf" using pl pt st by auto
      have n: "\<forall>i < t + ?st - ?m. \<not> occurs_at up pat buf i" using mis by auto
      have m: "\<forall>j. ?m < j \<longrightarrow> j < length pat \<longrightarrow> up (buf ! (t + ?st - ?m + j)) = pat ! j" by auto
      show ?thesis
        using 1(2) [OF b refl diff refl st l m n law] b diff st
        by (subst SubStringL_loop.simps) (simp add: Let_def)
    qed
  qed
qed

lemma mismatch_R:
  assumes sk: "skip_law pat skip (\<lambda>k. k)"
    and ne: "up (buf ! t) \<noteq> pat ! p" and p: "p < length pat" "p \<le> t"
    and i: "i \<le> t - p" "t < i + max (p + 1) (skip (ucast (up (buf ! t))))"
  shows "\<not> occurs_at up pat buf i"
proof
  assume oc: "occurs_at up pat buf i"
  let ?c = "up (buf ! t)"
  have le: "t < i + length pat"
    using i(2) p skip_law.bound [OF sk, of "ucast ?c"] by (auto simp: max_def split: if_splits)
  have ch: "pat ! (t - i) = ?c" using occurs_at_char [OF oc _ le] i(1) by simp
  have "t - i \<noteq> p" using ch ne by auto
  then have "t - i < skip (ucast ?c)" using i p by (auto simp: max_def split: if_splits)
  then have "pat ! (t - i) \<noteq> ?c" using i(1) le by (intro skip_law.absent [OF sk]) auto
  then show False using ch by simp
qed

lemma SubStringR_loop_spec:
  assumes sk: "skip_law pat skip (\<lambda>k. k)"
  shows "p < length pat \<Longrightarrow> p \<le> t \<Longrightarrow> t - p + length pat \<le> length buf \<Longrightarrow>
    (\<forall>j < p. up (buf ! (t - p + j)) = pat ! j) \<Longrightarrow> (\<forall>i > t - p. \<not> occurs_at up pat buf i) \<Longrightarrow>
    (case SubStringR_loop up pat skip buf t p of None \<Rightarrow> False
     | Some None \<Rightarrow> (\<forall>i. \<not> occurs_at up pat buf i)
     | Some (Some i) \<Rightarrow> occurs_at up pat buf i \<and> (\<forall>k > i. \<not> occurs_at up pat buf k))"
  using sk
proof (induction up pat skip buf t p rule: SubStringR_loop.induct)
  case (1 up pat skip buf t p)
  let ?c = "up (buf ! t)" let ?m = "length pat - 1"
  note pl = 1(3) and pt = 1(4) and tl = 1(5) and eq = 1(6) and no = 1(7) and law = 1(8)
  have b: "\<not> \<not> (t < length buf \<and> p < length pat)" using pl pt tl by auto
  have a: "t - p + p = t" using pt by simp
  show ?case
  proof (cases "?c = pat ! p")
    case same: True
    have all: "up (buf ! (t - p + j)) = pat ! j" if "j < Suc p" for j
      using that same eq a by (cases "j = p") auto
    show ?thesis
    proof (cases "p = ?m")
      case True
      then have e: "t + 1 - length pat = t - p" using pl by auto
      have "occurs_at up pat buf (t - p)" unfolding occurs_at_def using all tl pl True by auto
      then show ?thesis using no True same b e by (subst SubStringR_loop.simps) simp
    next
      case False
      have l: "p + 1 < length pat" "p + 1 \<le> t + 1" "t + 1 - (p + 1) + length pat \<le> length buf"
        using pl pt tl False by auto
      have m: "\<forall>j < p + 1. up (buf ! (t + 1 - (p + 1) + j)) = pat ! j" using all by simp
      have n: "\<forall>i > t + 1 - (p + 1). \<not> occurs_at up pat buf i" using no by simp
      show ?thesis
        using 1(1) [OF b refl same False l m n law] b same False
        by (subst SubStringR_loop.simps) simp
    qed
  next
    case diff: False
    let ?st = "max (p + 1) (skip (ucast ?c))"
    have mis: "\<not> occurs_at up pat buf i" if "t < i + ?st" for i
    proof (cases "t - p < i")
      case False
      then show ?thesis using mismatch_R [where t = t and p = p and i = i and up = up and buf = buf, OF law diff pl pt] that by simp
    qed (use no in simp)
    show ?thesis
    proof (cases "t < ?st")
      case True
      have "\<not> occurs_at up pat buf i" for i using mis [of i] True by simp
      then show ?thesis using b diff True by (subst SubStringR_loop.simps) (simp add: Let_def)
    next
      case st: False
      have l: "0 < length pat" "0 \<le> t - ?st" "t - ?st - 0 + length pat \<le> length buf"
        using pl pt tl st by (auto simp: max_def split: if_splits)
      have n: "\<forall>i > t - ?st - 0. \<not> occurs_at up pat buf i" using mis st by auto
      have m: "\<forall>j < 0. up (buf ! (t - ?st - 0 + j)) = pat ! j" by simp
      show ?thesis
        using 1(2) [OF b refl diff refl st l m n law] b diff st
        by (subst SubStringR_loop.simps) (simp add: Let_def)
    qed
  qed
qed

lemma SubStringL_first:
  "(case SubStringL up pat (SetSubstringPatternL pat) buf of None \<Rightarrow> False
    | Some None \<Rightarrow> (\<forall>i. \<not> occurs_at up pat buf i)
    | Some (Some i) \<Rightarrow> occurs_at up pat buf i \<and> (\<forall>k < i. \<not> occurs_at up pat buf k))"
proof -
  consider "pat = []" | "length buf < length pat" | "pat \<noteq> []" "length pat \<le> length buf" by linarith
  then show ?thesis
  proof cases
    case 3
    then show ?thesis
      using SubStringL_loop_spec [OF skips_L.skip_law_axioms, where p = "length pat - 1" and t = "length pat - 1" and buf = buf and up = up]
      by (cases "length pat") (auto simp: SubStringL_def)
  qed (auto simp: SubStringL_def occurs_at_def)
qed

lemma SubStringR_last:
  "pat \<noteq> [] \<Longrightarrow> (case SubStringR up pat (SetSubstringPatternR pat) buf of None \<Rightarrow> False
    | Some None \<Rightarrow> (\<forall>i. \<not> occurs_at up pat buf i)
    | Some (Some i) \<Rightarrow> occurs_at up pat buf i \<and> (\<forall>k > i. \<not> occurs_at up pat buf k))"
proof -
  assume ne: "pat \<noteq> []"
  consider "length buf < length pat" | "length pat \<le> length buf" by linarith
  then show ?thesis
  proof cases
    case 2
    have "\<forall>i > length buf - length pat - 0. \<not> occurs_at up pat buf i" by (auto simp: occurs_at_def)
    then show ?thesis
      using SubStringR_loop_spec [OF skips_R.skip_law_axioms, where p = 0 and t = "length buf - length pat" and buf = buf and up = up] ne 2
      by (simp add: SubStringR_def)
  qed (use ne in \<open>auto simp: SubStringR_def occurs_at_def\<close>)
qed

text \<open>
  C34. With the skip table of a pattern, \<open>SubStringL\<close> finds the first and \<open>SubStringR\<close> the last place where
  the pattern occurs in the text, and the null pointer if there is none; no character outside the
  text or the pattern is read. (For the empty pattern both give the start of the text.)
\<close>

theorem SubString_first_last:
  "(case SubStringL up pat (SetSubstringPatternL pat) buf of None \<Rightarrow> False
    | Some None \<Rightarrow> (\<forall>i. \<not> occurs_at up pat buf i)
    | Some (Some i) \<Rightarrow> occurs_at up pat buf i \<and> (\<forall>k < i. \<not> occurs_at up pat buf k)) \<and>
   (case SubStringR up pat (SetSubstringPatternR pat) buf of None \<Rightarrow> False
    | Some None \<Rightarrow> (\<forall>i. \<not> occurs_at up pat buf i)
    | Some (Some i) \<Rightarrow> (if pat = [] then i = 0 else occurs_at up pat buf i \<and> (\<forall>k > i. \<not> occurs_at up pat buf k)))"
proof (rule conjI)
  show "case SubStringL up pat (SetSubstringPatternL pat) buf of None \<Rightarrow> False
    | Some None \<Rightarrow> (\<forall>i. \<not> occurs_at up pat buf i)
    | Some (Some i) \<Rightarrow> occurs_at up pat buf i \<and> (\<forall>k < i. \<not> occurs_at up pat buf k)"
    by (rule SubStringL_first)
  show "case SubStringR up pat (SetSubstringPatternR pat) buf of None \<Rightarrow> False
    | Some None \<Rightarrow> (\<forall>i. \<not> occurs_at up pat buf i)
    | Some (Some i) \<Rightarrow> (if pat = [] then i = 0 else occurs_at up pat buf i \<and> (\<forall>k > i. \<not> occurs_at up pat buf k))"
  proof (cases "pat = []")
    case False
    show ?thesis using SubStringR_last [OF False, of up buf] False by (simp split: option.split_asm option.split)
  qed (simp add: SubStringR_def)
qed

text \<open>A text that has the pattern twice.\<close>

lemma SubString_example:
  "SubStringL id [97, 98] (SetSubstringPatternL [97, 98]) [98, 97, 98, 97, 98] = Some (Some 1)"
  "SubStringR id [97, 98] (SetSubstringPatternR [97, 98]) [98, 97, 98, 97, 98] = Some (Some 3)"
  by code_simp+

lemma SubString_first_last_witness:
  "occurs_at id [97, 98] [98, 97, 98, 97, 98] 1 \<and> \<not> occurs_at id [97, 98] [98, 97, 98, 97, 98] 0 \<and>
   occurs_at id [97, 98] [98, 97, 98, 97, 98] 3 \<and> \<not> occurs_at id [97, 98] [98, 97, 98, 97, 98] 4"
  using SubString_first_last [of id "[97, 98]" "[98, 97, 98, 97, 98]"]
  by (simp only: SubString_example option.case) simp

end
