(* ===== verification/IncInput.thy ===== *)
theory IncInput
  imports EdControl IncLoc "HOL-Library.Sublist"
begin

text \<open>
  The state and the input of the incremental search plugin: \<^verbatim>\<open>incsrch/control.c\<close> and \<^verbatim>\<open>incsrch/clip.c\<close>.

  The global variables are a record. The string that is searched for, \<^verbatim>\<open>sStr\<close> with its length \<^verbatim>\<open>nLen\<close>, and the queue
  of commands, \<^verbatim>\<open>aEvents\<close> with its length \<^verbatim>\<open>nEvents\<close>, are lists; both arrays have 80 elements, so that a
  write is inside its array as long as these lists have at most 80.

  The input is what the console delivers: \<open>console\<close> is what can be read now, and \<open>arrivals\<close> what comes
  later, in one portion for each time the plugin looks. \<open>late\<close> says for each line that is searched whether 200 ms
  have passed. The plugin writes a title and beeps; of the messages it shows only the reads of input that go with them
  are modelled.
\<close>

definition MAX_STR :: nat where "MAX_STR = 80"
definition PREVIEW_EVENTS :: nat where "PREVIEW_EVENTS = MAX_STR"
definition TITLE_LEN :: nat where "TITLE_LEN = 26"
definition TITLE_PREFIX :: "wchar list" where "TITLE_PREFIX = [0x5E, 0x3A, 0x20]"

definition KC_CHAR :: u8 where "KC_CHAR = 1"
definition KC_BACK :: u8 where "KC_BACK = 2"
definition KC_NEXT :: u8 where "KC_NEXT = 4"
definition KC_PREV :: u8 where "KC_PREV = 8"
definition KC_HELP :: u8 where "KC_HELP = 16"
definition KC_CLEARMSG :: u8 where "KC_CLEARMSG = 32"
definition KC_FAILKILL :: u8 where "KC_FAILKILL = 128"

lemmas kc_defs = KC_CHAR_def KC_BACK_def KC_NEXT_def KC_PREV_def KC_HELP_def KC_CLEARMSG_def KC_FAILKILL_def

record settings =
  sView :: view
  Upper :: "wchar \<Rightarrow> wchar"
  bCaseSensitive :: bool
  bKeepSelection :: bool
  bRestartEOF :: bool
  bBSunroll :: bool
  bThisUseSelection :: bool
  bThisAutoNext :: bool
  bStopOnFound :: bool
  bReverse :: bool

record key_event =
  bKeyDown :: bool
  wRepeatCount :: u16
  wVirtualKeyCode :: u16
  UnicodeChar :: wchar
  dwControlKeyState :: u32

text \<open>\<open>Notice\<close> stands for the events that are ignored (focus, menu, buffer size and the like).\<close>

datatype input_record = KeyInput key_event | MouseInput u32 | Notice | OtherInput

datatype clipboard = NotOpened | NoText | HasText "wchar list"

record search_state =
  ed :: editor
  ei :: editor_info
  egs :: editor_string
  sStr :: "wchar list"
  aEvents :: "(u8 \<times> u8) list"
  aHist :: "(int \<times> int) list"
  bEscape :: bool
  bTermEvent :: bool
  bNotFound :: bool
  Event :: input_record
  Title :: "wchar list"
  forwarded :: "input_record list"
  console :: "input_record list"
  arrivals :: "input_record list list"
  late :: "bool list"
  clip :: clipboard
  crashed :: bool

abbreviation nLen :: "search_state \<Rightarrow> nat" where "nLen st \<equiv> length (sStr st)"
abbreviation nEvents :: "search_state \<Rightarrow> nat" where "nEvents st \<equiv> length (aEvents st)"

section \<open>Commands\<close>

text \<open>The character of a key is read as one byte.\<close>

definition AsciiChar :: "key_event \<Rightarrow> u8" where
  "AsciiChar k = ucast (UnicodeChar k)"

primrec put_loop :: "nat \<Rightarrow> u8 \<Rightarrow> u8 \<Rightarrow> (u8 \<times> u8) list \<Rightarrow> (u8 \<times> u8) list" where
  "put_loop 0 Cmd c q = q"
| "put_loop (Suc cnt) Cmd c q =
     (let q1 = q @ [(Cmd, c)] in
      if length q1 = PREVIEW_EVENTS then q1 else put_loop cnt (Cmd OR KC_FAILKILL) c q1)"

definition PutEvent :: "u8 \<Rightarrow> key_event \<Rightarrow> search_state \<Rightarrow> search_state" where
  "PutEvent Cmd k st =
     st\<lparr>aEvents := put_loop (if wRepeatCount k = 0 then 1 else unat (wRepeatCount k)) Cmd (AsciiChar k) (aEvents st)\<rparr>"

text \<open>A command that has no character: the byte in the array is not set, and not read later.\<close>

definition put_flags :: "u8 \<Rightarrow> search_state \<Rightarrow> search_state" where
  "put_flags Cmd st = st\<lparr>aEvents := aEvents st @ [(Cmd, 0)]\<rparr>"

definition lstrnlen :: "wchar list \<Rightarrow> nat \<Rightarrow> nat" where
  "lstrnlen str count = length (takeWhile (\<lambda>c. c \<noteq> 0) (take count str))"

primrec paste_loop :: "bool \<Rightarrow> wchar list \<Rightarrow> (u8 \<times> u8) list \<Rightarrow> (u8 \<times> u8) list" where
  "paste_loop i [] q = q"
| "paste_loop i (c # cs) q =
     (if length q = PREVIEW_EVENTS then q
      else paste_loop True cs (q @ [(if i then KC_CHAR OR KC_FAILKILL else KC_CHAR, ucast c)]))"

definition PasteSearchText :: "search_state \<Rightarrow> search_state" where
  "PasteSearchText st =
     (case clip st of
        NotOpened \<Rightarrow> st
      | NoText \<Rightarrow> st\<lparr>crashed := True\<rparr>
      | HasText p \<Rightarrow> st\<lparr>aEvents := paste_loop False (take (lstrnlen p MAX_STR) p) (aEvents st)\<rparr>)"

text \<open>
  A clipboard that can be opened and has no text (\<open>NoText\<close>) makes \<^verbatim>\<open>GetClipboardData\<close> return a null pointer, which
  \<^verbatim>\<open>clip.c\<close> reads through: \<open>crashed\<close>. No statement is executed after that, so reading input stops there
  (\<open>paste_action\<close>), and the loop of \<open>IncLoop\<close> ends with the outcome \<open>Crashed\<close>.
\<close>

section \<open>Reading input\<close>

definition ALT_PRESSED :: u32 where "ALT_PRESSED = 3"
definition CTRL_PRESSED :: u32 where "CTRL_PRESSED = 12"
definition SHIFT_PRESSED :: u32 where "SHIFT_PRESSED = 0x10"
definition ENHANCED_KEY :: u32 where "ENHANCED_KEY = 0x100"

definition pressed :: "key_event \<Rightarrow> u32 \<Rightarrow> bool" where
  "pressed k m \<longleftrightarrow> dwControlKeyState k AND m \<noteq> 0"

text \<open>What an event makes of the state, and whether the loop goes on, the search ends or the function returns.\<close>

datatype action = Continue | Quit | Return

definition paste_action :: "search_state \<Rightarrow> action \<times> search_state" where
  "paste_action st = (let st1 = PasteSearchText st in (if crashed st1 then Return else Continue, st1))"

definition key_default :: "key_event \<Rightarrow> search_state \<Rightarrow> action \<times> search_state" where
  "key_default k st =
     (if pressed k (ENHANCED_KEY OR ALT_PRESSED OR CTRL_PRESSED) \<or> (AsciiChar k < 32 \<and> AsciiChar k \<noteq> 9) then (Quit, st)
      else (Continue, PutEvent KC_CHAR k st))"

definition key_action :: "key_event \<Rightarrow> search_state \<Rightarrow> action \<times> search_state" where
  "key_action k st =
     (let vk = wVirtualKeyCode k in
      if \<not> bKeyDown k then (Continue, st)
      else if vk = 0x12 then (Continue, put_flags KC_CLEARMSG st)
      else if pressed k ALT_PRESSED then (Quit, st)
      else if vk = 0x70 then (Continue, put_flags KC_HELP st)
      else if vk \<in> {0x11, 0x10, 0x90, 0x14, 0x91} then (Continue, st)
      else if vk = 0x1B then (Return, st\<lparr>bTermEvent := True, bEscape := True\<rparr>)
      else if vk = 0x08 then (Continue, PutEvent KC_BACK k st)
      else if vk = 0x0D then
        (if pressed k CTRL_PRESSED
         then (Continue, PutEvent (if pressed k SHIFT_PRESSED then KC_PREV else KC_NEXT) k st) else (Quit, st))
      else if vk = 0x2D then
        (if pressed k SHIFT_PRESSED then paste_action st else (Quit, st))
      else if vk \<in> {0x56, 0x76} \<and> pressed k CTRL_PRESSED then paste_action st
      else key_default k st)"

definition input_action :: "input_record \<Rightarrow> search_state \<Rightarrow> action \<times> search_state" where
  "input_action e st =
     (case e of
        Notice \<Rightarrow> (Continue, st)
      | MouseInput buttons \<Rightarrow> (if buttons \<noteq> 0 then Quit else Continue, st)
      | KeyInput k \<Rightarrow> key_action k st
      | OtherInput \<Rightarrow> (Quit, st))"

function collect_loop :: "settings \<Rightarrow> search_state \<Rightarrow> input_record list \<Rightarrow> search_state" where
  "collect_loop s st es =
     (if \<not> bTermEvent st \<and> nEvents st \<noteq> PREVIEW_EVENTS \<and> es \<noteq> [] then
        (case input_action (hd es) (st\<lparr>Event := hd es\<rparr>) of
           (Continue, st1) \<Rightarrow> collect_loop s st1 (tl es)
         | (Return, st1) \<Rightarrow> st1\<lparr>console := tl es\<rparr>
         | (Quit, st1) \<Rightarrow>
             if bStopOnFound s then collect_loop s (st1\<lparr>bTermEvent := False\<rparr>) (tl es)
             else st1\<lparr>bTermEvent := True, console := tl es\<rparr>)
      else if bTermEvent st \<and> bStopOnFound s then collect_loop s (st\<lparr>bTermEvent := False\<rparr>) es
      else st\<lparr>console := es\<rparr>)"
  by pat_completeness auto
termination
  by (relation "measures [\<lambda>(s, st, es). length es, \<lambda>(s, st, es). if bTermEvent st then 1 else 0]") auto

declare collect_loop.simps [simp del]

definition CollectEvents :: "settings \<Rightarrow> search_state \<Rightarrow> bool \<times> search_state" where
  "CollectEvents s st =
     (let st1 = collect_loop s (st\<lparr>arrivals := tl (arrivals st)\<rparr>)
                  (console st @ (case arrivals st of [] \<Rightarrow> [] | b # bs \<Rightarrow> b))
      in (nEvents st1 \<noteq> 0 \<or> bTermEvent st1, st1))"

text \<open>Waiting for input; nothing is left if the console stays silent.\<close>

primrec wait_loop :: "input_record list list \<Rightarrow> input_record list \<times> input_record list list" where
  "wait_loop [] = ([], [])"
| "wait_loop (b # bs) = (if b = [] then wait_loop bs else (b, bs))"

definition WaitInput :: "search_state \<Rightarrow> search_state option" where
  "WaitInput st =
     (if console st \<noteq> [] then Some st
      else case wait_loop (arrivals st) of
        (b, bs) \<Rightarrow> if b = [] then None else Some (st\<lparr>console := b, arrivals := bs\<rparr>))"

section \<open>Title, selection and position\<close>

definition StatusMessage :: "settings \<Rightarrow> search_state \<Rightarrow> search_state" where
  "StatusMessage s st = (if bStopOnFound s then snd (CollectEvents s st) else st)"

definition set_title :: "settings \<Rightarrow> search_state \<Rightarrow> search_state" where
  "set_title s st =
     (if bStopOnFound s then st
      else let nRest = (if nLen st \<ge> TITLE_LEN - length TITLE_PREFIX - 1 then TITLE_LEN - length TITLE_PREFIX - 1 else nLen st)
           in st\<lparr>Title := TITLE_PREFIX @ drop (nLen st - nRest) (sStr st)\<rparr>)"

definition ShowTitle :: "settings \<Rightarrow> search_state \<Rightarrow> search_state" where
  "ShowTitle s st =
     (let st1 = set_title s st
      in if bNotFound st1 then (StatusMessage s st1)\<lparr>bNotFound := False\<rparr> else st1)"

definition SelectFound :: "settings \<Rightarrow> bool \<Rightarrow> search_state \<Rightarrow> search_state" where
  "SelectFound s bRedraw st =
     (let si = \<lparr>BlockType = (if nLen st \<noteq> 0 then BTYPE_STREAM else BTYPE_NONE), bStartLine = iCurLine (ei st),
                bStartPos = iCurPos (ei st) - int (nLen st), bWidth = int (nLen st), bHeight = 1\<rparr>;
          e = snd (ectl_select (sView s) si (ed st))
      in st\<lparr>ed := if bRedraw then ectl_redraw (sView s) e else e\<rparr>)"

definition SetPosition :: "settings \<Rightarrow> int \<Rightarrow> int \<Rightarrow> search_state \<Rightarrow> search_state" where
  "SetPosition s nLine nPos st = st\<lparr>ed := ectl_setposition (sView s) nLine nPos (- 1) (ed st)\<rparr>"

definition get_info :: "search_state \<Rightarrow> search_state" where
  "get_info st = st\<lparr>ei := ectl_getinfo (ed st)\<rparr>"

definition PositionToView :: "settings \<Rightarrow> int \<Rightarrow> int \<Rightarrow> search_state \<Rightarrow> search_state" where
  "PositionToView s nLine nStartPos st = get_info (SetPosition s nLine (nStartPos + int (nLen st)) st)"

definition get_string :: "settings \<Rightarrow> search_state \<Rightarrow> search_state" where
  "get_string s st = (case ectl_getstring (sView s) (- 1) (ed st) of None \<Rightarrow> st | Some g \<Rightarrow> st\<lparr>egs := g\<rparr>)"

section \<open>Reading input keeps within the queue and leaves the search alone\<close>

text \<open>What reading input never changes.\<close>

definition core where
  "core st = (ed st, ei st, egs st, sStr st, aHist st, bNotFound st, Title st, forwarded st)"

definition same_core :: "search_state \<Rightarrow> search_state \<Rightarrow> bool" where
  "same_core st st' \<longleftrightarrow> core st' = core st \<and> clip st' = clip st \<and> (crashed st' \<longrightarrow> crashed st \<or> clip st = NoText)"

lemma same_core_refl [simp]: "same_core st st"
  by (simp add: same_core_def)

lemma same_core_trans: "same_core a b \<Longrightarrow> same_core b c \<Longrightarrow> same_core a c"
  by (auto simp: same_core_def)

lemma same_coreD: "same_core a b \<Longrightarrow> ed b = ed a \<and> ei b = ei a \<and> egs b = egs a \<and> sStr b = sStr a \<and> aHist b = aHist a"
  by (simp add: same_core_def core_def)

lemma same_core_input [simp]:
  "same_core a (b\<lparr>aEvents := q\<rparr>) = same_core a b" "same_core a (b\<lparr>bTermEvent := t\<rparr>) = same_core a b"
  "same_core a (b\<lparr>bEscape := t\<rparr>) = same_core a b" "same_core a (b\<lparr>Event := e\<rparr>) = same_core a b"
  "same_core a (b\<lparr>console := es\<rparr>) = same_core a b" "same_core a (b\<lparr>arrivals := bs\<rparr>) = same_core a b"
  "same_core a (b\<lparr>late := ls\<rparr>) = same_core a b"
  by (simp_all add: same_core_def core_def)

lemma put_loop_bound:
  "length q < PREVIEW_EVENTS \<Longrightarrow> length (put_loop cnt Cmd c q) \<le> PREVIEW_EVENTS"
proof (induction cnt arbitrary: Cmd q)
  case (Suc cnt)
  then show ?case by (cases "Suc (length q) = PREVIEW_EVENTS") (auto simp: Let_def)
qed simp

lemma put_loop_prefix: "prefix q (put_loop cnt Cmd c q)"
proof (induction cnt arbitrary: Cmd q)
  case (Suc cnt)
  then show ?case using Suc.IH [of "q @ [(Cmd, c)]"] by (auto simp: Let_def dest: append_prefixD)
qed simp

lemma paste_loop_prefix: "prefix q (paste_loop i cs q)"
proof (induction cs arbitrary: i q)
  case (Cons c cs)
  show ?case using append_prefixD [OF Cons.IH] by simp
qed simp

lemma paste_loop_bound: "length q \<le> PREVIEW_EVENTS \<Longrightarrow> length (paste_loop i cs q) \<le> PREVIEW_EVENTS"
  by (induction cs arbitrary: i q) auto

text \<open>One event: the part of the state that it may change, and the room it takes in the queue.\<close>

definition one_event :: "search_state \<Rightarrow> search_state \<Rightarrow> bool" where
  "one_event st st' \<longleftrightarrow> same_core st st' \<and> arrivals st' = arrivals st \<and> late st' = late st \<and> nEvents st' \<le> PREVIEW_EVENTS \<and>
     prefix (aEvents st) (aEvents st')"

lemma one_event_PutEvent: "nEvents st < PREVIEW_EVENTS \<Longrightarrow> one_event st (PutEvent Cmd k st)"
  by (simp add: one_event_def PutEvent_def put_loop_bound put_loop_prefix)

lemma one_event_put_flags: "nEvents st < PREVIEW_EVENTS \<Longrightarrow> one_event st (put_flags Cmd st)"
  by (simp add: one_event_def put_flags_def)

lemma one_event_paste: "nEvents st \<le> PREVIEW_EVENTS \<Longrightarrow> one_event st (PasteSearchText st)"
  by (auto simp: one_event_def PasteSearchText_def paste_loop_bound paste_loop_prefix same_core_def core_def split: clipboard.split)

lemma one_event_paste_action: "nEvents st \<le> PREVIEW_EVENTS \<Longrightarrow> one_event st (snd (paste_action st))"
  by (simp add: paste_action_def Let_def one_event_paste)

lemma one_event_same: "nEvents st \<le> PREVIEW_EVENTS \<Longrightarrow> one_event st st"
  by (simp add: one_event_def)

lemma one_event_if:
  "(b \<Longrightarrow> one_event st (snd x)) \<Longrightarrow> (\<not> b \<Longrightarrow> one_event st (snd y)) \<Longrightarrow> one_event st (snd (if b then x else y))"
  by simp

lemma one_event_key:
  assumes "nEvents st < PREVIEW_EVENTS"
  shows "one_event st (snd (key_action k st))"
proof -
  have d: "one_event st (snd (key_default k st))"
    using assms by (simp add: key_default_def one_event_same one_event_PutEvent)
  have e: "one_event st (st\<lparr>bTermEvent := True, bEscape := True\<rparr>)"
    using assms by (simp add: one_event_def)
  note facts = one_event_same one_event_PutEvent one_event_put_flags one_event_paste_action
  show ?thesis unfolding key_action_def Let_def
    by (intro one_event_if) (use assms d e in \<open>simp_all add: facts\<close>)
qed

lemma one_event_input: "nEvents st < PREVIEW_EVENTS \<Longrightarrow> one_event st (snd (input_action e st))"
  by (cases e) (auto simp: input_action_def one_event_key one_event_same)

text \<open>Reading all there is.\<close>

definition collected :: "search_state \<Rightarrow> input_record list \<Rightarrow> search_state \<Rightarrow> bool" where
  "collected st es st' \<longleftrightarrow> same_core st st' \<and> arrivals st' = arrivals st \<and> late st' = late st \<and> nEvents st' \<le> PREVIEW_EVENTS \<and>
     prefix (aEvents st) (aEvents st') \<and> nEvents st' + 81 * length (console st') \<le> nEvents st + 81 * length es"

lemma collected_step:
  assumes "collected st1 es st'" "one_event st st1"
  shows "collected st (e # es) st'"
proof -
  have "nEvents st1 \<le> 80" using assms(2) by (simp add: one_event_def PREVIEW_EVENTS_def MAX_STR_def)
  then show ?thesis using assms same_core_trans [of st st1 st'] prefix_order.trans by (auto simp: collected_def one_event_def)
qed

lemma collect_loop_collected:
  "nEvents st \<le> PREVIEW_EVENTS \<Longrightarrow> collected st es (collect_loop s st es)"
proof (induction s st es rule: collect_loop.induct)
  case (1 s st es)
  show ?case
  proof (cases "\<not> bTermEvent st \<and> nEvents st \<noteq> PREVIEW_EVENTS \<and> es \<noteq> []")
    case True
    then obtain e rest where es: "es = e # rest" by (cases es) auto
    let ?st = "st\<lparr>Event := hd es\<rparr>"
    obtain a st1 where a: "input_action (hd es) ?st = (a, st1)" by (metis surj_pair)
    have "nEvents ?st < PREVIEW_EVENTS" using True 1(4) by simp
    then have "one_event ?st st1" using one_event_input [of ?st "hd es"] by (simp add: a)
    then have one: "one_event st st1" by (simp add: one_event_def same_core_def core_def)
    then have q: "nEvents st1 \<le> PREVIEW_EVENTS" by (simp add: one_event_def)
    have one': "one_event st (st1\<lparr>bTermEvent := t\<rparr>)" for t using one by (simp add: one_event_def)
    have stop: "collected st es (st1\<lparr>bTermEvent := t, console := rest\<rparr>)" for t
      using one q unfolding es by (simp add: collected_def one_event_def PREVIEW_EVENTS_def MAX_STR_def)
    have stop': "collected st es (st1\<lparr>console := rest\<rparr>)"
      using one q unfolding es by (simp add: collected_def one_event_def PREVIEW_EVENTS_def MAX_STR_def)
    show ?thesis
      using 1(1) [OF True a [symmetric]] 1(2) [OF True a [symmetric]] a True q stop [of True] stop' one one'
      by (cases a; subst collect_loop.simps) (auto simp: es intro: collected_step)
  next
    case False
    show ?thesis
    proof (cases "bTermEvent st \<and> bStopOnFound s")
      case True
      have "collected (st\<lparr>bTermEvent := False\<rparr>) es (collect_loop s (st\<lparr>bTermEvent := False\<rparr>) es)"
        using 1(3) [OF False True] 1(4) by simp
      moreover have "same_core (st\<lparr>bTermEvent := False\<rparr>) x = same_core st x" for x
        by (simp add: same_core_def core_def)
      ultimately show ?thesis using False True by (subst collect_loop.simps) (simp add: collected_def)
    next
      case no: False
      then show ?thesis using False 1(4) by (subst collect_loop.simps) (auto simp: collected_def)
    qed
  qed
qed

text \<open>The work that is left: the commands of the queue and, in their number, the events that are still to come.\<close>

definition work :: "search_state \<Rightarrow> nat" where
  "work st = nEvents st + 81 * (length (console st) + sum_list (map length (arrivals st))) + length (arrivals st)"

lemma CollectEvents_keeps:
  assumes "nEvents st \<le> PREVIEW_EVENTS"
  shows "same_core st (snd (CollectEvents s st)) \<and> nEvents (snd (CollectEvents s st)) \<le> PREVIEW_EVENTS \<and>
    work (snd (CollectEvents s st)) \<le> work st \<and> late (snd (CollectEvents s st)) = late st \<and>
    prefix (aEvents st) (aEvents (snd (CollectEvents s st)))"
proof -
  let ?st = "st\<lparr>arrivals := tl (arrivals st)\<rparr>"
  let ?es = "console st @ (case arrivals st of [] \<Rightarrow> [] | b # bs \<Rightarrow> b)"
  have "collected ?st ?es (collect_loop s ?st ?es)" using assms by (intro collect_loop_collected) simp
  then show ?thesis
    by (cases "arrivals st") (auto simp: CollectEvents_def Let_def collected_def work_def same_core_def core_def)
qed

end
