(* ===== verification/IncFind.thy ===== *)
theory IncFind
  imports IncInput
begin

text \<open>
  The search of the incremental search plugin: \<open>FindString\<close> of \<^verbatim>\<open>incsrch/search.c\<close>. The progress display is not
  modelled. A character read outside a string, or a loop that does not stop, makes the result \<open>None\<close>.
\<close>

definition text_char :: "settings \<Rightarrow> wchar \<Rightarrow> wchar" where
  "text_char s = (if bCaseSensitive s then (\<lambda>c. c) else Upper s)"

definition sPattern :: "settings \<Rightarrow> search_state \<Rightarrow> wchar list" where
  "sPattern s st = (if bCaseSensitive s then sStr st else map (Upper s) (sStr st))"

definition SubString :: "settings \<Rightarrow> bool \<Rightarrow> wchar list \<Rightarrow> wchar list \<Rightarrow> nat option option" where
  "SubString s bForward pat buf =
     (if bForward then SubStringL (text_char s) pat (SetSubstringPatternL pat) buf
      else SubStringR (text_char s) pat (SetSubstringPatternR pat) buf)"

section \<open>The line of the cursor\<close>

definition first_pos :: "bool \<Rightarrow> bool \<Rightarrow> search_state \<Rightarrow> int" where
  "first_pos bNext bForward st =
     (let pos = (if sSelStart (egs st) = - 1 then iCurPos (ei st) else sSelStart (egs st)) in
      if bNext \<and> bForward then pos + 1
      else if \<not> bForward then min (if bNext then pos + int (nLen st) - 1 else pos + int (nLen st)) (StringLength (egs st))
      else pos)"

definition search_first :: "settings \<Rightarrow> bool \<Rightarrow> bool \<Rightarrow> search_state \<Rightarrow> nat option option" where
  "search_first s bNext bForward st =
     (let pos = first_pos bNext bForward st; len = StringLength (egs st); pat = sPattern s st in
      if len \<ge> int (nLen st) \<and> ((pos < len \<and> bForward) \<or> (\<not> bForward \<and> pos > 0)) then
        (if bForward then
           (if pos < 0 then None
            else map_option (map_option (\<lambda>i. nat pos + i)) (SubString s True pat (drop (nat pos) (StringText (egs st)))))
         else SubString s False pat (take (nat pos) (StringText (egs st))))
      else Some None)"

section \<open>The other lines\<close>

definition next_line :: "settings \<Rightarrow> bool \<Rightarrow> int \<Rightarrow> search_state \<Rightarrow> int \<times> bool \<times> search_state" where
  "next_line s bForward Line st =
     (let N = TotalLines (ei st) in
      if bForward then
        (if bRestartEOF s \<and> Line + 1 = N then (0, True, StatusMessage s st) else (Line + 1, False, st))
      else
        (if bRestartEOF s \<and> Line = 0 then (N - 1, True, StatusMessage s st) else (Line - 1, False, st)))"

definition poll :: "settings \<Rightarrow> search_state \<Rightarrow> search_state" where
  "poll s st =
     (case late st of
        [] \<Rightarrow> st
      | b # bs \<Rightarrow> if b then snd (CollectEvents s (st\<lparr>late := bs\<rparr>)) else st\<lparr>late := bs\<rparr>)"

definition is_late :: "search_state \<Rightarrow> bool" where
  "is_late st \<longleftrightarrow> (case late st of [] \<Rightarrow> False | b # bs \<Rightarrow> b)"

text \<open>
  The loop, from its label \<^verbatim>\<open>StartLoop\<close>: what is found (the place in the line, if it is not the one the search
  began with), the line, and whether the search went past an end of the text. The first argument bounds the
  number of lines.
\<close>

primrec scan :: "nat \<Rightarrow> settings \<Rightarrow> bool \<Rightarrow> wchar list \<Rightarrow> int \<Rightarrow> int \<Rightarrow> int \<Rightarrow> int \<Rightarrow> bool \<Rightarrow> search_state \<Rightarrow>
    (nat option \<times> int \<times> bool \<times> search_state) option" where
  "scan 0 s bForward pat nStartLine nStartPos nStopLine Line msg st = None"
| "scan (Suc n) s bForward pat nStartLine nStartPos nStopLine Line msg st =
     (case next_line s bForward Line st of (Line1, wrapped, st1) \<Rightarrow>
      let msg1 = (msg \<or> wrapped); st2 = poll s st1 in
      if is_late st1 \<and> bTermEvent st2 then Some (None, Line1, msg1, st2)
      else let st3 = get_string s (SetPosition s Line1 (- 1) st2) in
        if StringLength (egs st3) = 0 then
          (if Line1 \<noteq> nStopLine then scan n s bForward pat nStartLine nStartPos nStopLine Line1 msg1 st3
           else Some (None, Line1, msg1, st3))
        else case SubString s bForward pat (StringText (egs st3)) of
          None \<Rightarrow> None
        | Some (Some p) \<Rightarrow>
            Some (if bRestartEOF s \<and> nStartLine = Line1 \<and> nStartPos = int p + int (nLen st3) then None else Some p,
                  Line1, msg1, st3)
        | Some None \<Rightarrow>
            (if Line1 \<noteq> nStopLine then scan n s bForward pat nStartLine nStartPos nStopLine Line1 msg1 st3
             else Some (None, Line1, msg1, st3)))"

definition scan_lines :: "settings \<Rightarrow> bool \<Rightarrow> wchar list \<Rightarrow> search_state \<Rightarrow> (nat option \<times> int \<times> bool \<times> search_state) option" where
  "scan_lines s bForward pat st =
     (let nStartLine = iCurLine (ei st); nStartPos = iCurPos (ei st); N = TotalLines (ei st);
          nStopLine = (if bRestartEOF s then nStartLine else if bForward then N - 1 else 0) in
      if bRestartEOF s \<or> nStartLine \<noteq> nStopLine
      then scan (nat N) s bForward pat nStartLine nStartPos nStopLine nStartLine False st
      else Some (None, nStartLine, False, st))"

section \<open>FindString\<close>

definition found_string :: "settings \<Rightarrow> int \<Rightarrow> nat \<Rightarrow> bool \<Rightarrow> search_state \<Rightarrow> bool \<times> search_state" where
  "found_string s pos p msg st =
     (let st1 = SelectFound s (\<not> bStopOnFound s) (PositionToView s pos (int p) st)
      in (True, if msg then StatusMessage s st1 else st1))"

definition not_found :: "search_state \<Rightarrow> bool \<times> search_state" where
  "not_found st = (False, if bTermEvent st then st else st\<lparr>bNotFound := True\<rparr>)"

definition FindString :: "settings \<Rightarrow> bool \<Rightarrow> bool \<Rightarrow> search_state \<Rightarrow> (bool \<times> search_state) option" where
  "FindString s bNext bForward st =
     (let st1 = get_string s st; nStartLine = iCurLine (ei st); nStartPos = iCurPos (ei st) in
      case search_first s bNext bForward st1 of
        None \<Rightarrow> None
      | Some (Some p) \<Rightarrow> Some (found_string s (- 1) p False st1)
      | Some None \<Rightarrow>
          (case scan_lines s bForward (sPattern s st1) st1 of
             None \<Rightarrow> None
           | Some (r, Line, msg, st2) \<Rightarrow>
               (let st3 = SetPosition s nStartLine nStartPos st2 in
                case r of
                  None \<Rightarrow> Some (not_found st3)
                | Some p \<Rightarrow> Some (found_string s Line p msg st3))))"

section \<open>What the search keeps\<close>

text \<open>
  \<open>steady\<close>: the search, its history and the text with its marks are as before, the cursor is on some line, the
  queue is within its array, and no work was added.
\<close>

definition steady :: "search_state \<Rightarrow> search_state \<Rightarrow> bool" where
  "steady st st' \<longleftrightarrow> ei st' = ei st \<and> sStr st' = sStr st \<and> aHist st' = aHist st \<and> clip st' = clip st \<and>
     (crashed st' \<longrightarrow> crashed st \<or> clip st = NoText) \<and> same_block (ed st) (ed st') \<and>
     NumLine (ed st') < length (Lines (ed st')) \<and> nEvents st' \<le> PREVIEW_EVENTS \<and> work st' \<le> work st \<and>
     prefix (aEvents st) (aEvents st')"

definition on_line :: "search_state \<Rightarrow> bool" where
  "on_line st \<longleftrightarrow> NumLine (ed st) < length (Lines (ed st)) \<and> nEvents st \<le> PREVIEW_EVENTS"

lemma steady_refl: "on_line st \<Longrightarrow> steady st st"
  by (simp add: steady_def on_line_def)

lemma steady_on_line: "steady st st' \<Longrightarrow> on_line st'"
  by (simp add: steady_def on_line_def)

lemma steady_trans: "steady a b \<Longrightarrow> steady b c \<Longrightarrow> steady a c"
  unfolding steady_def using same_block_trans prefix_order.trans by auto

lemma steadyD:
  "steady st st' \<Longrightarrow> ei st' = ei st" "steady st st' \<Longrightarrow> sStr st' = sStr st" "steady st st' \<Longrightarrow> Lines (ed st') = Lines (ed st)"
  "steady st st' \<Longrightarrow> aHist st' = aHist st" "steady st st' \<Longrightarrow> work st' \<le> work st"
  by (simp_all add: steady_def same_block_def)

lemma steady_CollectEvents: "on_line st \<Longrightarrow> steady st (snd (CollectEvents s st))"
  using CollectEvents_keeps [of st s] by (auto simp: steady_def on_line_def same_core_def core_def)

lemma steady_StatusMessage: "on_line st \<Longrightarrow> steady st (StatusMessage s st)"
  by (simp add: StatusMessage_def steady_CollectEvents steady_refl)

lemma steady_poll: "on_line st \<Longrightarrow> steady st (poll s st)"
proof -
  assume o: "on_line st"
  have "steady st (snd (CollectEvents s (st\<lparr>late := bs\<rparr>)))" for bs
    using steady_CollectEvents [of "st\<lparr>late := bs\<rparr>" s] o by (simp add: steady_def on_line_def work_def)
  moreover have "steady st (st\<lparr>late := bs\<rparr>)" for bs using o by (simp add: steady_def on_line_def work_def)
  ultimately show ?thesis using steady_refl [OF o] by (simp add: poll_def split: list.split)
qed

lemma steady_SetPosition:
  "on_line st \<Longrightarrow> n < NumLastLine (ed st) \<Longrightarrow> steady st (SetPosition s n p st)"
  using setposition_line [where v = "sView s" and ed = "ed st" and n = n and p = p]
  by (auto simp: steady_def on_line_def SetPosition_def work_def NumLastLine_def same_block_def)

lemma NumLine_SetPosition:
  "on_line st \<Longrightarrow> n < NumLastLine (ed st) \<Longrightarrow> NumLine (ed (SetPosition s n p st)) = (if n < 0 then NumLine (ed st) else nat n)"
  using setposition_line [where v = "sView s" and ed = "ed st" and n = n and p = p] by (simp add: on_line_def SetPosition_def)

lemma get_string_fields [simp]:
  "ed (get_string s st) = ed st" "ei (get_string s st) = ei st" "sStr (get_string s st) = sStr st"
  "late (get_string s st) = late st" "bTermEvent (get_string s st) = bTermEvent st"
  by (simp_all add: get_string_def split: option.split)

lemma steady_get_string: "on_line st \<Longrightarrow> steady st (get_string s st)"
  by (simp add: get_string_def steady_def on_line_def work_def split: option.split)

lemma get_string_text: "StringText (egs (get_string s st)) = Str (Lines (ed st) ! NumLine (ed st))"
  by (simp add: get_string_def ectl_getstring_def GetStringByNumber_def Let_def split: option.split prod.split)

section \<open>The search over the lines\<close>

text \<open>An occurrence of the pattern in a line, and the order in which a search meets the places.\<close>

definition occ :: "settings \<Rightarrow> wchar list \<Rightarrow> edit list \<Rightarrow> int \<Rightarrow> nat \<Rightarrow> bool" where
  "occ s pat ls n i \<longleftrightarrow> 0 \<le> n \<and> n < int (length ls) \<and> occurs_at (text_char s) pat (Str (ls ! nat n)) i"

definition not_past :: "bool \<Rightarrow> nat \<Rightarrow> nat \<Rightarrow> bool" where
  "not_past bForward i k \<longleftrightarrow> (if bForward then i \<le> k else k \<le> i)"

definition ahead :: "bool \<Rightarrow> int \<Rightarrow> int \<Rightarrow> bool" where
  "ahead bForward m n \<longleftrightarrow> (if bForward then m < n else n < m)"

lemma SubString_spec:
  assumes "pat \<noteq> []"
  obtains (None) "SubString s bForward pat buf = Some None" "\<And>i. \<not> occurs_at (text_char s) pat buf i"
    | (Some) p where "SubString s bForward pat buf = Some (Some p)" "occurs_at (text_char s) pat buf p"
        "\<And>i. occurs_at (text_char s) pat buf i \<Longrightarrow> not_past bForward p i"
proof (cases bForward)
  case True
  then show ?thesis using SubStringL_first [of "text_char s" pat buf] that
    by (auto simp: SubString_def not_past_def linorder_not_less split: option.splits) (meson linorder_not_less)
next
  case False
  then show ?thesis using SubStringR_last [OF assms, of "text_char s" buf] that
    by (auto simp: SubString_def not_past_def linorder_not_less split: option.splits) (meson linorder_not_less)
qed

lemma next_line_spec:
  assumes "0 \<le> Line" "Line < TotalLines (ei st)" "\<not> bRestartEOF s \<longrightarrow> Line \<noteq> (if bForward then TotalLines (ei st) - 1 else 0)"
  shows "fst (next_line s bForward Line st) = (if bForward then Line + 1 else Line - 1) mod TotalLines (ei st)"
    "on_line st \<Longrightarrow> steady st (snd (snd (next_line s bForward Line st)))"
    "\<not> bRestartEOF s \<Longrightarrow> snd (next_line s bForward Line st) = (False, st) \<and>
       fst (next_line s bForward Line st) = (if bForward then Line + 1 else Line - 1)"
  using assms by (cases bForward; auto simp: next_line_def Let_def steady_StatusMessage steady_refl zmod_minus1)+

text \<open>The number of lines that the loop still looks at.\<close>

definition dist :: "bool \<Rightarrow> int \<Rightarrow> int \<Rightarrow> int \<Rightarrow> int" where
  "dist bForward Line stop N = (if bForward then stop - Line - 1 else Line - stop - 1) mod N + 1"

lemma mod_pred: "0 < (N :: int) \<Longrightarrow> x mod N \<noteq> 0 \<Longrightarrow> (x - 1) mod N = x mod N - 1"
proof -
  assume n: "0 < N" and x: "x mod N \<noteq> 0"
  have "(x - 1) mod N = (x mod N - 1) mod N" by (simp add: mod_simps)
  also have "\<dots> = x mod N - 1"
    using n x pos_mod_sign [OF n, of x] pos_mod_bound [OF n, of x] by (intro mod_pos_pos_trivial) auto
  finally show ?thesis .
qed

lemma dist_step:
  assumes "0 < N" "0 \<le> stop" "stop < N" "Line1 = (if bForward then Line + 1 else Line - 1) mod N" "Line1 \<noteq> stop"
  shows "dist bForward Line1 stop N = dist bForward Line stop N - 1"
proof -
  let ?x = "if bForward then stop - Line - 1 else Line - stop - 1"
  have x1: "(if bForward then stop - Line1 - 1 else Line1 - stop - 1) mod N = (?x - 1) mod N"
    unfolding assms(4) using mod_diff_right_eq [of "stop - 1" "Line + 1" N] mod_diff_left_eq [of "Line - 1" N "stop + 1"]
    by (cases bForward) (simp_all add: algebra_simps)
  have "?x mod N \<noteq> 0"
  proof
    assume z: "?x mod N = 0"
    have "(if bForward then Line + 1 else Line - 1) mod N = stop mod N"
      using z unfolding mod_eq_dvd_iff by (cases bForward) (auto simp: dvd_eq_mod_eq_0 [symmetric] algebra_simps dvd_diff_commute)
    then show False using assms by simp
  qed
  then show ?thesis using mod_pred [OF assms(1)] x1 by (simp add: dist_def)
qed

text \<open>What is found, in the order of the search, behind the line \<open>Line\<close>.\<close>

definition nearest :: "settings \<Rightarrow> bool \<Rightarrow> wchar list \<Rightarrow> edit list \<Rightarrow> int \<Rightarrow> nat option \<Rightarrow> int \<Rightarrow> bool" where
  "nearest s bForward pat ls Line r L \<longleftrightarrow>
     (case r of
        None \<Rightarrow> (\<forall>k i. ahead bForward Line k \<longrightarrow> \<not> occ s pat ls k i)
      | Some p \<Rightarrow> ahead bForward Line L \<and>
          (\<forall>k i. ahead bForward Line k \<longrightarrow> occ s pat ls k i \<longrightarrow> ahead bForward L k \<or> (k = L \<and> not_past bForward p i)))"

lemma nearest_skip:
  assumes "\<forall>i. \<not> occ s pat ls Line1 i" "Line1 = (if bForward then Line + 1 else Line - 1)"
    "nearest s bForward pat ls Line1 r L"
  shows "nearest s bForward pat ls Line r L"
proof -
  have a: "ahead bForward Line k \<Longrightarrow> k = Line1 \<or> ahead bForward Line1 k" for k
    using assms(2) by (auto simp: ahead_def split: if_splits)
  have b: "ahead bForward Line1 k \<Longrightarrow> ahead bForward Line k" for k
    using assms(2) by (auto simp: ahead_def split: if_splits)
  show ?thesis using assms(1,3) a b unfolding nearest_def by (cases r) (simp_all, blast+)
qed

lemma scan_spec:
  assumes ne: "pat \<noteq> []"
  shows "on_line st \<Longrightarrow> TotalLines (ei st) = N \<Longrightarrow> N = int (length (Lines (ed st))) \<Longrightarrow> 0 \<le> Line \<Longrightarrow> Line < N \<Longrightarrow>
    0 \<le> stop \<Longrightarrow> stop < N \<Longrightarrow>
    (\<not> bRestartEOF s \<longrightarrow> stop = (if bForward then N - 1 else 0) \<and> Line \<noteq> stop) \<Longrightarrow> dist bForward Line stop N \<le> int n \<Longrightarrow>
    \<exists>r L m st'. scan n s bForward pat start startpos stop Line msg st = Some (r, L, m, st') \<and> steady st st' \<and>
      (\<forall>p. r = Some p \<longrightarrow> occ s pat (Lines (ed st)) L p) \<and>
      (\<not> bRestartEOF s \<and> True \<notin> set (late st) \<longrightarrow> nearest s bForward pat (Lines (ed st)) Line r L)"
proof (induction n arbitrary: st Line msg)
  case 0
  then show ?case using pos_mod_sign [of N] by (auto simp: dist_def split: if_splits) (smt (verit) pos_mod_sign)+
next
  case (Suc n)
  obtain Line1 w st1 where nl: "next_line s bForward Line st = (Line1, w, st1)" by (metis prod_cases3)
  let ?ls = "Lines (ed st)" let ?step = "if bForward then Line + 1 else Line - 1"
  let ?st2 = "poll s st1" let ?st3 = "get_string s (SetPosition s Line1 (- 1) ?st2)"
  have N: "0 < N" using Suc.prems(4,5) by linarith
  have pre: "0 \<le> Line" "Line < TotalLines (ei st)"
    "\<not> bRestartEOF s \<longrightarrow> Line \<noteq> (if bForward then TotalLines (ei st) - 1 else 0)" using Suc.prems by auto
  have L1: "Line1 = ?step mod N" using next_line_spec(1) [OF pre] nl Suc.prems(2) by simp
  have L1b: "0 \<le> Line1" "Line1 < N" using L1 N by simp_all
  have s1: "steady st st1" using next_line_spec(2) [OF pre Suc.prems(1)] nl by simp
  have plain: "\<not> bRestartEOF s \<Longrightarrow> st1 = st \<and> Line1 = ?step" using next_line_spec(3) [OF pre] nl by simp
  have s2: "steady st ?st2" using steady_trans [OF s1] steady_poll [OF steady_on_line [OF s1]] .
  have NL: "NumLastLine (ed ?st2) = N" using steadyD(3) [OF s2] Suc.prems(3) by (simp add: NumLastLine_def)
  have s3': "steady st (SetPosition s Line1 (- 1) ?st2)"
    by (rule steady_trans [OF s2], rule steady_SetPosition [OF steady_on_line [OF s2]]) (use L1b NL in simp)
  have s3: "steady st ?st3" by (rule steady_trans [OF s3' steady_get_string [OF steady_on_line [OF s3']]])
  have tx: "StringText (egs ?st3) = Str (?ls ! nat Line1)"
    using NumLine_SetPosition [OF steady_on_line [OF s2], of Line1 s "- 1"] L1b NL steadyD(3) [OF s3']
    by (simp add: get_string_text)
  have lt: "late ?st3 = late ?st2" by (simp add: SetPosition_def)
  have quiet: "\<not> is_late st1 \<and> True \<notin> set (late ?st3)" if "\<not> bRestartEOF s" "True \<notin> set (late st)"
    using that plain unfolding lt by (auto simp: is_late_def poll_def split: list.splits)
  have skip: ?case if none: "\<forall>i. \<not> occ s pat ?ls Line1 i" and go: "\<not> (is_late st1 \<and> bTermEvent ?st2)"
    and eq: "scan (Suc n) s bForward pat start startpos stop Line msg st =
      (if Line1 \<noteq> stop then scan n s bForward pat start startpos stop Line1 (msg \<or> w) ?st3 else Some (None, Line1, msg \<or> w, ?st3))"
  proof (cases "Line1 = stop")
    case True
    have "nearest s bForward pat ?ls Line None Line1" if nr: "\<not> bRestartEOF s"
    proof (rule nearest_skip [OF none])
      show "Line1 = ?step" using plain [OF nr] by simp
      have "Line1 = (if bForward then N - 1 else 0)" using Suc.prems(8) nr True by simp
      then show "nearest s bForward pat ?ls Line1 None Line1"
        using Suc.prems(3) by (simp add: nearest_def ahead_def occ_def split: if_split_asm)
    qed
    then show ?thesis using eq True s3 by simp
  next
    case False
    have d: "dist bForward Line1 stop N \<le> int n"
      using dist_step [OF N Suc.prems(6,7) L1 False] Suc.prems(9) by simp
    have pre3: "on_line ?st3" "TotalLines (ei ?st3) = N" "N = int (length (Lines (ed ?st3)))"
      using steady_on_line [OF s3] steadyD [OF s3] Suc.prems(2,3) by simp_all
    have "\<not> bRestartEOF s \<longrightarrow> stop = (if bForward then N - 1 else 0) \<and> Line1 \<noteq> stop" using Suc.prems(8) False by blast
    from Suc.IH [OF pre3 L1b Suc.prems(6,7) this d, of "msg \<or> w"]
    obtain r L m st' where IH: "scan n s bForward pat start startpos stop Line1 (msg \<or> w) ?st3 = Some (r, L, m, st')"
      "steady ?st3 st'" "\<forall>p. r = Some p \<longrightarrow> occ s pat (Lines (ed ?st3)) L p"
      "\<not> bRestartEOF s \<and> True \<notin> set (late ?st3) \<longrightarrow> nearest s bForward pat (Lines (ed ?st3)) Line1 r L" by blast
    have ls: "Lines (ed ?st3) = ?ls" using steadyD(3) [OF s3] .
    have "nearest s bForward pat ?ls Line r L" if nr: "\<not> bRestartEOF s" "True \<notin> set (late st)"
    proof (rule nearest_skip [OF none])
      show "Line1 = ?step" using plain [OF nr(1)] by simp
      show "nearest s bForward pat ?ls Line1 r L" using IH(4) nr(1) quiet [OF nr] unfolding ls by blast
    qed
    then show ?thesis using eq False IH(1) IH(3) steady_trans [OF s3 IH(2)] unfolding ls by simp
  qed
  show ?case
  proof (cases "is_late st1 \<and> bTermEvent ?st2")
    case True
    then have "\<not> (\<not> bRestartEOF s \<and> True \<notin> set (late st))" using quiet by blast
    then show ?thesis using s2 True by (simp add: nl Let_def) blast
  next
    case go: False
    show ?thesis
    proof (cases "StringLength (egs ?st3) = 0")
      case True
      then have "\<forall>i. \<not> occ s pat ?ls Line1 i" using ne by (auto simp: occ_def occurs_at_def StringLength_def tx)
      then show ?thesis by (rule skip [OF _ go]) (simp only: scan.simps nl prod.case Let_def go True simp_thms if_True if_False)
    next
      case len: False
      show ?thesis
      proof (rule SubString_spec [OF ne, of s bForward "StringText (egs ?st3)"])
        assume n: "SubString s bForward pat (StringText (egs ?st3)) = Some None"
          and "\<And>i. \<not> occurs_at (text_char s) pat (StringText (egs ?st3)) i"
        then have "\<forall>i. \<not> occ s pat ?ls Line1 i" by (simp add: occ_def tx)
        then show ?thesis
          by (rule skip [OF _ go])
            (simp only: scan.simps nl prod.case Let_def go len n simp_thms if_True if_False option.case)
      next
        fix p
        assume f: "SubString s bForward pat (StringText (egs ?st3)) = Some (Some p)"
          and o: "occurs_at (text_char s) pat (StringText (egs ?st3)) p"
          and x: "\<And>i. occurs_at (text_char s) pat (StringText (egs ?st3)) i \<Longrightarrow> not_past bForward p i"
        have oc: "occ s pat ?ls Line1 p" using o L1b Suc.prems(3) by (simp add: occ_def tx)
        have "nearest s bForward pat ?ls Line (Some p) Line1" if "\<not> bRestartEOF s"
        proof -
          have l: "ahead bForward Line Line1" "\<And>k. ahead bForward Line k \<Longrightarrow> ahead bForward Line1 k \<or> k = Line1"
            using plain [OF that] by (auto simp: ahead_def)
          have "occ s pat ?ls Line1 i \<Longrightarrow> not_past bForward p i" for i using x by (simp add: occ_def tx)
          then show ?thesis unfolding nearest_def using l by auto
        qed
        then show ?thesis using s3 oc by (simp add: nl Let_def go len f del: de_Morgan_conj)
      qed
    qed
  qed
qed

section \<open>The line of the cursor\<close>

lemma real_loop_ge: "Index \<le> real_loop v cs Index cell Pos"
proof (induction v cs Index cell Pos rule: real_loop.induct)
  case (1 v cs Index cell Pos)
  show ?case
  proof (cases cs)
    case (Cons c rest)
    show ?thesis
    proof (cases "is_tab v c")
      case True
      then show ?thesis using 1(1) Cons by (subst real_loop.simps) force
    next
      case False
      then show ?thesis using 1(2) Cons by (subst real_loop.simps) (force simp: Let_def)
    qed
  qed (subst real_loop.simps, simp)
qed

lemma get_string_SelStart: "wf_editor (ed st) \<Longrightarrow> - 1 \<le> sSelStart (egs (get_string s st))"
proof -
  assume wf: "wf_editor (ed st)"
  have "- 1 \<le> SelStart (Lines (ed st) ! NumLine (ed st))" using wf by (simp add: wf_editor_def)
  moreover have "- 1 \<le> CellPosToReal v b x" for v b x
    using real_loop_ge [of 0 v b 0 x] by (simp add: CellPosToReal_def)
  ultimately show ?thesis
    by (auto simp: get_string_def ectl_getstring_def GetStringByNumber_def Let_def string_selection_def GetRealSelection_def)
qed

definition in_range :: "bool \<Rightarrow> int \<Rightarrow> wchar list \<Rightarrow> nat \<Rightarrow> bool" where
  "in_range bForward pos pat i \<longleftrightarrow> (if bForward then pos \<le> int i else int i + int (length pat) \<le> pos)"

lemma occurs_at_drop: "a \<le> length buf \<Longrightarrow> occurs_at up pat (drop a buf) i \<longleftrightarrow> occurs_at up pat buf (a + i)"
  by (auto simp: occurs_at_def add.assoc)

lemma occurs_at_take: "b \<le> length buf \<Longrightarrow> occurs_at up pat (take b buf) i \<longleftrightarrow> occurs_at up pat buf i \<and> i + length pat \<le> b"
  by (auto simp: occurs_at_def)

lemma length_sPattern [simp]: "length (sPattern s st) = nLen st"
  by (simp add: sPattern_def)

text \<open>What a search in one line from a position on gives.\<close>

definition line_result :: "settings \<Rightarrow> bool \<Rightarrow> wchar list \<Rightarrow> wchar list \<Rightarrow> int \<Rightarrow> nat option \<Rightarrow> bool" where
  "line_result s bForward pat buf pos r \<longleftrightarrow>
     (case r of
        None \<Rightarrow> (\<forall>i. occurs_at (text_char s) pat buf i \<longrightarrow> \<not> in_range bForward pos pat i)
      | Some p \<Rightarrow> occurs_at (text_char s) pat buf p \<and> in_range bForward pos pat p \<and>
          (\<forall>i. occurs_at (text_char s) pat buf i \<longrightarrow> in_range bForward pos pat i \<longrightarrow> not_past bForward p i))"

lemma line_result_forward:
  assumes ne: "pat \<noteq> []" and a: "a \<le> length buf"
  obtains r where "SubString s True pat (drop a buf) = Some r" "line_result s True pat buf (int a) (map_option (\<lambda>i. a + i) r)"
proof (rule SubString_spec [OF ne, of s True "drop a buf"])
  assume "SubString s True pat (drop a buf) = Some None" and n: "\<And>i. \<not> occurs_at (text_char s) pat (drop a buf) i"
  moreover have "\<not> occurs_at (text_char s) pat buf i" if "a \<le> i" for i
    using n [of "i - a"] that by (simp add: occurs_at_drop [OF a])
  ultimately show thesis using that [of None] by (auto simp: line_result_def in_range_def)
next
  fix p assume f: "SubString s True pat (drop a buf) = Some (Some p)" and o: "occurs_at (text_char s) pat (drop a buf) p"
    and x: "\<And>i. occurs_at (text_char s) pat (drop a buf) i \<Longrightarrow> not_past True p i"
  have "a + p \<le> i" if "occurs_at (text_char s) pat buf i" "a \<le> i" for i
    using x [of "i - a"] that by (simp add: occurs_at_drop [OF a] not_past_def)
  then show thesis using that [OF f] o by (simp add: line_result_def in_range_def not_past_def occurs_at_drop [OF a])
qed

lemma line_result_backward:
  assumes ne: "pat \<noteq> []" and b: "b \<le> length buf"
  obtains r where "SubString s False pat (take b buf) = Some r" "line_result s False pat buf (int b) r"
  by (rule SubString_spec [OF ne, of s False "take b buf"])
    (use that in \<open>auto simp: line_result_def in_range_def occurs_at_take [OF b] simp flip: of_nat_add\<close>)

lemma search_first_spec:
  assumes ne: "sStr st \<noteq> []" and sel: "- 1 \<le> sSelStart (egs st)" and pos: "0 \<le> iCurPos (ei st)"
  obtains r where "search_first s bNext bForward st = Some r"
    "line_result s bForward (sPattern s st) (StringText (egs st)) (first_pos bNext bForward st) r"
proof -
  let ?pos = "first_pos bNext bForward st" let ?pat = "sPattern s st" let ?t = "StringText (egs st)"
  have ne': "?pat \<noteq> []" using ne length_sPattern [of s st] by (metis length_0_conv)
  have fp: "bForward \<Longrightarrow> 0 \<le> ?pos" using sel pos by (auto simp: first_pos_def Let_def)
  have bp: "\<not> bForward \<Longrightarrow> ?pos \<le> StringLength (egs st)" by (auto simp: first_pos_def Let_def)
  let ?c = "StringLength (egs st) \<ge> int (nLen st) \<and> ((?pos < StringLength (egs st) \<and> bForward) \<or> (\<not> bForward \<and> ?pos > 0))"
  consider (no) "\<not> ?c" | (forward) ?c bForward | (backward) ?c "\<not> bForward" by blast
  then show thesis
  proof cases
    case no
    obtain k where l0: "nLen st = Suc k" using ne by (cases "sStr st") auto
    have "\<not> in_range bForward ?pos ?pat i" if "occurs_at (text_char s) ?pat ?t i" for i
    proof -
      have "i + nLen st \<le> length ?t" using that by (simp add: occurs_at_def)
      then show ?thesis using no l0 by (cases bForward) (auto simp: in_range_def StringLength_def)
    qed
    then have "line_result s bForward ?pat ?t ?pos None" by (simp add: line_result_def)
    moreover have "search_first s bNext bForward st = Some None" using no by (auto simp: search_first_def Let_def)
    ultimately show thesis using that by blast
  next
    case forward
    have a: "nat ?pos \<le> length ?t" using forward fp by (simp add: StringLength_def nat_le_iff)
    show thesis
      by (rule line_result_forward [OF ne' a, of s], rule that) (use forward fp in \<open>auto simp: search_first_def Let_def\<close>)
  next
    case backward
    have b: "nat ?pos \<le> length ?t" using backward bp by (simp add: StringLength_def nat_le_iff)
    show thesis
      by (rule line_result_backward [OF ne' b, of s], rule that) (use backward in \<open>auto simp: search_first_def Let_def\<close>)
  qed
qed

section \<open>FindString\<close>

text \<open>
  The state between two commands: the editor is well formed and the plugin knows its line and number of
  lines; the cursor does not stand before the end of the pattern.
\<close>

definition consistent :: "search_state \<Rightarrow> bool" where
  "consistent st \<longleftrightarrow> wf_editor (ed st) \<and> TotalLines (ei st) = NumLastLine (ed st) \<and>
     iCurLine (ei st) = int (NumLine (ed st)) \<and> 0 \<le> iCurPos (ei st) \<and> nEvents st \<le> PREVIEW_EVENTS"

lemma consistent_on_line: "consistent st \<Longrightarrow> on_line st"
  by (simp add: consistent_def on_line_def wf_editor_def)

text \<open>\<open>progress\<close>: only the marks, the cursor and the input have changed.\<close>

definition progress :: "search_state \<Rightarrow> search_state \<Rightarrow> bool" where
  "progress st st' \<longleftrightarrow> texts (ed st') = texts (ed st) \<and> sStr st' = sStr st \<and> aHist st' = aHist st \<and> clip st' = clip st \<and>
     (crashed st' \<longrightarrow> crashed st \<or> clip st = NoText) \<and> nEvents st' \<le> PREVIEW_EVENTS \<and> work st' \<le> work st \<and>
     prefix (aEvents st) (aEvents st')"

lemma progress_trans: "progress a b \<Longrightarrow> progress b c \<Longrightarrow> progress a c"
  unfolding progress_def using prefix_order.trans by auto

lemma steady_progress: "steady st st' \<Longrightarrow> progress st st'"
  by (auto simp: steady_def progress_def texts_def same_block_def)

lemma consistent_collect: "consistent st \<Longrightarrow> consistent (snd (CollectEvents s st))"
  using CollectEvents_keeps [of st s] by (auto simp: consistent_def same_core_def core_def)

lemma consistent_StatusMessage: "consistent st \<Longrightarrow> consistent (StatusMessage s st) \<and> steady st (StatusMessage s st) \<and> ed (StatusMessage s st) = ed st"
  using CollectEvents_keeps [of st s] steady_StatusMessage [OF consistent_on_line]
  by (auto simp: StatusMessage_def consistent_collect consistent_def same_core_def core_def)

lemma select_found_kept:
  assumes "wf_editor (ed st)" "- 1 \<le> iCurPos (ei st) - int (nLen st)"
  shows "kept (ed st) (ed (SelectFound s r st))"
  using kept_select [OF assms(1), of "\<lparr>BlockType = _, bStartLine = _, bStartPos = iCurPos (ei st) - int (nLen st), bWidth = _, bHeight = _\<rparr>"] assms(2)
  by (simp add: SelectFound_def Let_def kept_redraw)

lemma select_found_fields [simp]:
  "ei (SelectFound s r st) = ei st" "sStr (SelectFound s r st) = sStr st" "aHist (SelectFound s r st) = aHist st"
  "aEvents (SelectFound s r st) = aEvents st" "work (SelectFound s r st) = work st" "clip (SelectFound s r st) = clip st"
  "crashed (SelectFound s r st) = crashed st" "bTermEvent (SelectFound s r st) = bTermEvent st"
  by (simp_all add: SelectFound_def Let_def work_def)

lemma consistent_SelectFound:
  assumes "consistent st" "int (nLen st) \<le> iCurPos (ei st)"
  shows "consistent (SelectFound s r st) \<and> progress st (SelectFound s r st)"
proof -
  have k: "kept (ed st) (ed (SelectFound s r st))"
    using assms by (intro select_found_kept) (auto simp: consistent_def)
  then show ?thesis using assms(1) texts_length [of "ed (SelectFound s r st)" "ed st"]
    by (auto simp: consistent_def progress_def kept_def NumLastLine_def)
qed

lemma consistent_PositionToView:
  fixes s st
  assumes st: "steady st0 st" "wf_editor (ed st0)" and l: "Line < NumLastLine (ed st0)" and p: "0 \<le> p"
  defines "st' \<equiv> PositionToView s Line p st"
  shows "consistent st'" "steady st0 (st'\<lparr>ei := ei st0\<rparr>)" "iCurLine (ei st') = (if Line < 0 then int (NumLine (ed st)) else Line)"
    "iCurPos (ei st') = p + int (nLen st0)" "texts (ed st') = texts (ed st0)" "sStr st' = sStr st0"
proof -
  let ?p = "p + int (nLen st)"
  have o: "on_line st" by (rule steady_on_line [OF st(1)])
  have Nl: "NumLastLine (ed st) = NumLastLine (ed st0)" using steadyD(3) [OF st(1)] by (simp add: NumLastLine_def)
  have s: "steady st0 (SetPosition s Line ?p st)"
    by (rule steady_trans [OF st(1) steady_SetPosition [OF o]]) (use l Nl in simp)
  have e: "ed st' = ed (SetPosition s Line ?p st)" "ei st' = ectl_getinfo (ed (SetPosition s Line ?p st))"
    by (simp_all add: st'_def PositionToView_def get_info_def)
  have ls: "Lines (ed st') = Lines (ed st0)" using steadyD(3) [OF s] e by simp
  have cp: "CurPos (ed st') = ?p"
    using setposition_line(3) [of "ed st" Line ?p "sView s"] o l Nl p unfolding e
    by (simp add: SetPosition_def on_line_def)
  show "steady st0 (st'\<lparr>ei := ei st0\<rparr>)" using s unfolding st'_def PositionToView_def get_info_def
    by (simp add: steady_def work_def)
  have nl: "NumLine (ed st') < length (Lines (ed st'))" "nEvents st' \<le> PREVIEW_EVENTS"
    using steady_on_line [OF s] e by (simp_all add: on_line_def st'_def PositionToView_def get_info_def)
  show ss: "sStr st' = sStr st0" using steadyD(2) [OF s] by (simp add: st'_def PositionToView_def get_info_def)
  have sn: "nLen st = nLen st0" using steadyD(2) [OF st(1)] by simp
  show "iCurPos (ei st') = p + int (nLen st0)" using cp sn e by (simp add: ectl_getinfo_def Let_def)
  show "iCurLine (ei st') = (if Line < 0 then int (NumLine (ed st)) else Line)"
    using NumLine_SetPosition [OF o, of Line s ?p] l Nl e by (simp add: ectl_getinfo_def Let_def)
  show "texts (ed st') = texts (ed st0)" using ls by (simp add: texts_def)
  have "wf_editor (ed st')" using st(2) ls nl by (simp add: wf_editor_def)
  then show "consistent st'" using nl cp p e by (simp add: consistent_def ectl_getinfo_def Let_def)
qed

lemma found_string_spec:
  assumes st: "steady st0 st" "wf_editor (ed st0)" and l: "Line < NumLastLine (ed st0)"
  obtains st' where "found_string s Line p msg st = (True, st')" "consistent st'" "progress st0 st'"
    "iCurLine (ei st') = (if Line < 0 then int (NumLine (ed st)) else Line)" "iCurPos (ei st') = int p + int (nLen st0)"
proof -
  let ?a = "PositionToView s Line (int p) st" let ?b = "SelectFound s (\<not> bStopOnFound s) ?a"
  have p0: "0 \<le> int p" by simp
  note a = consistent_PositionToView [OF st l p0, of s]
  have pa: "progress st0 ?a" using steady_progress [OF a(2)] a(5) by (simp add: progress_def work_def)
  have b: "consistent ?b" "progress ?a ?b" using consistent_SelectFound [OF a(1)] a(4,6) by simp_all
  let ?c = "if msg then StatusMessage s ?b else ?b"
  have pb: "progress ?b ?b" using b by (simp add: progress_def consistent_def)
  note sm = consistent_StatusMessage [OF b(1), of s]
  have c: "consistent ?c" "progress ?b ?c" "ei ?c = ei ?a"
    using sm b(1) pb steady_progress [of ?b "StatusMessage s ?b"] steadyD(1) [of ?b "StatusMessage s ?b"] by simp_all
  show thesis
  proof (rule that)
    show "found_string s Line p msg st = (True, ?c)" by (simp add: found_string_def Let_def)
    show "progress st0 ?c" by (rule progress_trans [OF progress_trans [OF pa b(2)] c(2)])
    show "iCurLine (ei ?c) = (if Line < 0 then int (NumLine (ed st)) else Line)" unfolding c(3) by (rule a(3))
    show "iCurPos (ei ?c) = int p + int (nLen st0)" unfolding c(3) by (rule a(4))
  qed (rule c(1))
qed

text \<open>
  The place the search begins with is the start of the selection, or the cursor; a search for the next
  occurrence does not stay there. A candidate lies there or further on in the direction of the search.
\<close>

definition anchor :: "settings \<Rightarrow> search_state \<Rightarrow> int" where
  "anchor s st = (let g = egs (get_string s st) in if sSelStart g = - 1 then iCurPos (ei st) else sSelStart g)"

definition in_reach :: "bool \<Rightarrow> bool \<Rightarrow> int \<Rightarrow> int \<Rightarrow> bool" where
  "in_reach bNext bForward a i \<longleftrightarrow> (if bNext then ahead bForward a i else ahead bForward a i \<or> i = a)"

definition candidate :: "settings \<Rightarrow> bool \<Rightarrow> bool \<Rightarrow> search_state \<Rightarrow> int \<Rightarrow> nat \<Rightarrow> bool" where
  "candidate s bNext bForward st k i \<longleftrightarrow>
     (k = iCurLine (ei st) \<and> in_reach bNext bForward (anchor s st) (int i)) \<or>
     ahead bForward (iCurLine (ei st)) k"

lemma in_range_anchor:
  assumes "occurs_at (text_char s) (sPattern s st) (StringText (egs (get_string s st))) i"
  shows "in_range bForward (first_pos bNext bForward (get_string s st)) (sPattern s st) i \<longleftrightarrow>
    in_reach bNext bForward (anchor s st) (int i)"
proof -
  have "int i + int (nLen st) \<le> StringLength (egs (get_string s st))"
    using assms by (simp add: occurs_at_def StringLength_def)
  then show ?thesis
    by (auto simp: in_range_def first_pos_def anchor_def in_reach_def ahead_def Let_def)
qed

lemma sPattern_sStr: "sStr st' = sStr st \<Longrightarrow> sPattern s st' = sPattern s st"
  by (simp add: sPattern_def)

lemma scan_lines_spec:
  assumes c: "consistent st" and ne: "pat \<noteq> []"
  obtains r L m st' where "scan_lines s bForward pat st = Some (r, L, m, st')" "steady st st'"
    "\<And>p. r = Some p \<Longrightarrow> occ s pat (Lines (ed st)) L p"
    "\<not> bRestartEOF s \<and> True \<notin> set (late st) \<Longrightarrow> nearest s bForward pat (Lines (ed st)) (iCurLine (ei st)) r L"
proof -
  let ?N = "TotalLines (ei st)" let ?L = "iCurLine (ei st)"
  let ?stop = "if bRestartEOF s then ?L else if bForward then ?N - 1 else 0"
  have N: "?N = int (length (Lines (ed st)))" "0 \<le> ?L" "?L < ?N"
    using c by (auto simp: consistent_def NumLastLine_def wf_editor_def)
  show thesis
  proof (cases "bRestartEOF s \<or> ?L \<noteq> ?stop")
    case True
    have stop: "0 \<le> ?stop" "?stop < ?N" "\<not> bRestartEOF s \<longrightarrow> ?stop = (if bForward then ?N - 1 else 0) \<and> ?L \<noteq> ?stop"
      using N True by auto
    have d: "dist bForward ?L ?stop ?N \<le> int (nat ?N)"
    proof -
      have "x mod ?N < ?N" for x using N(2,3) by (intro pos_mod_bound) linarith
      then show ?thesis using N unfolding dist_def by (simp add: zless_imp_add1_zle)
    qed
    from scan_spec [OF ne consistent_on_line [OF c] refl N(1,2,3) stop d]
    obtain r L m st' where r: "scan (nat ?N) s bForward pat ?L (iCurPos (ei st)) ?stop ?L False st = Some (r, L, m, st')"
      "steady st st'" "\<forall>p. r = Some p \<longrightarrow> occ s pat (Lines (ed st)) L p"
      "\<not> bRestartEOF s \<and> True \<notin> set (late st) \<longrightarrow> nearest s bForward pat (Lines (ed st)) ?L r L" by blast
    show thesis
      by (rule that [of r L m st']) (use r True in \<open>auto simp: scan_lines_def Let_def\<close>)
  next
    case False
    have "nearest s bForward pat (Lines (ed st)) ?L None ?L"
      using False N by (auto simp: nearest_def ahead_def occ_def split: if_splits)
    moreover have "scan_lines s bForward pat st = Some (None, ?L, False, st)"
      using False by (cases bForward) (auto simp: scan_lines_def Let_def split: if_splits)
    ultimately show thesis using that steady_refl [OF consistent_on_line [OF c]] by blast
  qed
qed

text \<open>What is known of a search that has ended: the occurrence at the cursor, or the old state.\<close>

definition find_result :: "settings \<Rightarrow> search_state \<Rightarrow> bool \<Rightarrow> search_state \<Rightarrow> bool" where
  "find_result s st b st' \<longleftrightarrow> consistent st' \<and> progress st st' \<and>
     (if b then int (nLen st) \<le> iCurPos (ei st') \<and>
        occ s (sPattern s st) (Lines (ed st)) (iCurLine (ei st')) (nat (iCurPos (ei st') - int (nLen st)))
      else ei st' = ei st \<and> same_block (ed st) (ed st') \<and> NumLine (ed st') = NumLine (ed st) \<and> CurPos (ed st') = iCurPos (ei st))"

text \<open>What an uninterrupted search without a restart finds: the first candidate on its way.\<close>

definition find_nearest :: "settings \<Rightarrow> bool \<Rightarrow> bool \<Rightarrow> search_state \<Rightarrow> bool \<Rightarrow> search_state \<Rightarrow> bool" where
  "find_nearest s bNext bForward st b st' \<longleftrightarrow>
     (if b then let L = iCurLine (ei st'); p = nat (iCurPos (ei st') - int (nLen st)) in
        candidate s bNext bForward st L p \<and>
        (\<forall>k i. candidate s bNext bForward st k i \<longrightarrow> occ s (sPattern s st) (Lines (ed st)) k i \<longrightarrow>
           ahead bForward L k \<or> (k = L \<and> not_past bForward p i))
      else (\<forall>k i. candidate s bNext bForward st k i \<longrightarrow> \<not> occ s (sPattern s st) (Lines (ed st)) k i))"

lemma FindString_spec:
  assumes c: "consistent st" and ne: "sStr st \<noteq> []"
  obtains b st' where "FindString s bNext bForward st = Some (b, st')" "find_result s st b st'"
    "\<not> bRestartEOF s \<and> True \<notin> set (late st) \<Longrightarrow> find_nearest s bNext bForward st b st'"
proof -
  let ?g = "get_string s st" let ?pat = "sPattern s st" let ?L = "iCurLine (ei st)" let ?ls = "Lines (ed st)"
  have wf: "wf_editor (ed st)" and iL: "?L = int (NumLine (ed st))" "0 \<le> ?L" "?L < NumLastLine (ed st)" "?L < int (length ?ls)"
    using c by (auto simp: consistent_def NumLastLine_def wf_editor_def)
  have pg: "sPattern s ?g = ?pat" by (rule sPattern_sStr) simp
  have ne': "?pat \<noteq> []" using ne length_sPattern [of s st] by (metis length_0_conv)
  have sg: "steady st ?g" by (rule steady_get_string [OF consistent_on_line [OF c]])
  have cg: "consistent ?g" using c sg by (simp add: consistent_def steady_def)
  have line: "occ s ?pat ?ls ?L i \<longleftrightarrow> occurs_at (text_char s) ?pat (StringText (egs ?g)) i" for i
    using iL by (simp add: occ_def get_string_text)
  have range: "in_range bForward (first_pos bNext bForward ?g) ?pat i \<longleftrightarrow> in_reach bNext bForward (anchor s st) (int i)"
    if "occurs_at (text_char s) ?pat (StringText (egs ?g)) i" for i
    using that by (rule in_range_anchor)
  obtain r0 where first: "search_first s bNext bForward ?g = Some r0"
    "line_result s bForward ?pat (StringText (egs ?g)) (first_pos bNext bForward ?g) r0"
    using search_first_spec [of ?g s bNext bForward thesis] ne get_string_SelStart [OF wf, of s] c
    unfolding pg by (auto simp: consistent_def)
  show thesis
  proof (cases r0)
    case (Some p)
    obtain st' where f: "found_string s (- 1) p False ?g = (True, st')" "consistent st'" "progress st st'"
      "iCurLine (ei st') = ?L" "iCurPos (ei st') = int p + int (nLen st)"
      using found_string_spec [OF sg wf, of "- 1" s p False] iL by (auto simp: NumLastLine_def)
    have oc: "occ s ?pat ?ls ?L p" using first(2) Some line by (simp add: line_result_def)
    show thesis
    proof (rule that)
      show "FindString s bNext bForward st = Some (True, st')" by (simp add: FindString_def Let_def first(1) Some f(1))
      show "find_result s st True st'" using f oc by (simp add: find_result_def)
      show "find_nearest s bNext bForward st True st'"
        using first(2) Some line f(4,5) range by (auto simp: find_nearest_def candidate_def line_result_def Let_def)
    qed
  next
    case None
    have no: "\<not> occ s ?pat ?ls ?L i"
      if "in_reach bNext bForward (anchor s st) (int i)" for i
      using first(2) None that line range by (auto simp: line_result_def)
    obtain r L m st2 where sc: "scan_lines s bForward ?pat ?g = Some (r, L, m, st2)" "steady ?g st2"
      "\<And>p. r = Some p \<Longrightarrow> occ s ?pat ?ls L p"
      "\<not> bRestartEOF s \<and> True \<notin> set (late st) \<Longrightarrow> nearest s bForward ?pat ?ls ?L r L"
      using scan_lines_spec [OF cg ne', of s bForward thesis] by simp
    have s2: "steady st st2" by (rule steady_trans [OF sg sc(2)])
    let ?st3 = "SetPosition s ?L (iCurPos (ei st)) st2"
    have N2: "?L < NumLastLine (ed st2)" using iL steadyD(3) [OF s2] by (simp add: NumLastLine_def)
    have o2: "on_line st2" by (rule steady_on_line [OF s2])
    have s3: "steady st ?st3" by (rule steady_trans [OF s2 steady_SetPosition [OF o2 N2]])
    have n3: "NumLine (ed ?st3) = NumLine (ed st)" using NumLine_SetPosition [OF o2 N2] iL by simp
    have c3: "CurPos (ed ?st3) = iCurPos (ei st)"
      using setposition_line(3) [of "ed st2" ?L "iCurPos (ei st)" "sView s"] o2 N2 c
      by (simp add: on_line_def SetPosition_def consistent_def)
    have near: "find_nearest s bNext bForward st b st'"
      if "nearest s bForward ?pat ?ls ?L r L" "b = (r \<noteq> None)" "\<And>p. r = Some p \<Longrightarrow> iCurLine (ei st') = L \<and> nat (iCurPos (ei st') - int (nLen st)) = p"
      for b st'
      using that no by (cases r) (auto simp: nearest_def find_nearest_def candidate_def Let_def)
    show thesis
    proof (cases r)
      case None
      have q: "consistent ?st3" using s3 n3 c wf by (simp add: consistent_def steady_def same_block_def wf_editor_def NumLastLine_def)
      have "find_result s st False (snd (not_found ?st3))"
        using q n3 c3 s3 steady_progress [OF s3] by (auto simp: find_result_def not_found_def consistent_def progress_def steady_def work_def)
      moreover have "FindString s bNext bForward st = Some (False, snd (not_found ?st3))"
        by (simp add: FindString_def Let_def first(1) \<open>r0 = None\<close> pg sc(1) None) (simp add: not_found_def)
      ultimately show thesis using that near [of False] sc(4) None by blast
    next
      case (Some p)
      have oc: "occ s ?pat ?ls L p" using sc(3) Some by simp
      then have l: "0 \<le> L" "L < NumLastLine (ed st)" by (auto simp: occ_def NumLastLine_def)
      obtain st' where f: "found_string s L p m ?st3 = (True, st')" "consistent st'" "progress st st'"
        "iCurLine (ei st') = L" "iCurPos (ei st') = int p + int (nLen st)"
        using found_string_spec [OF s3 wf l(2), of s p m] l by auto
      have "FindString s bNext bForward st = Some (True, st')"
        by (simp add: FindString_def Let_def first(1) \<open>r0 = None\<close> pg sc(1) Some f(1))
      moreover have "find_result s st True st'" using f oc by (simp add: find_result_def)
      ultimately show thesis using that near [of True st'] sc(4) Some f(4,5) by simp
    qed
  qed
qed


section \<open>A small editor\<close>

definition demo_settings :: settings where
  "demo_settings = \<lparr>sView = acute_view, Upper = (\<lambda>c. c), bCaseSensitive = True, bKeepSelection = True, bRestartEOF = False,
     bBSunroll = True, bThisUseSelection = True, bThisAutoNext = True, bStopOnFound = False, bReverse = False\<rparr>"

definition demo_editor :: editor where
  "demo_editor = \<lparr>Lines = [\<lparr>Str = [97, 98], SelStart = - 1, SelEnd = 0\<rparr>, \<lparr>Str = [99, 97, 98], SelStart = 0, SelEnd = 0\<rparr>],
     NumLine = 1, CurPos = 0, BlockStart = Some 1, VBlockStart = None, BlockStartLine = 1, VBlockX = 0, VBlockY = 0,
     VBlockSizeX = 0, VBlockSizeY = 0\<rparr>"

definition demo_state :: search_state where
  "demo_state = \<lparr>ed = demo_editor, ei = ectl_getinfo demo_editor, egs = \<lparr>StringText = [], sSelStart = - 1, sSelEnd = 0\<rparr>,
     sStr = [97, 98], aEvents = [], aHist = replicate (Suc MAX_STR) (0, 0), bEscape = False, bTermEvent = False, bNotFound = False,
     Event = Notice, Title = [], forwarded = [],
     console = [KeyInput \<lparr>bKeyDown = True, wRepeatCount = 1, wVirtualKeyCode = 0x41, UnicodeChar = 97, dwControlKeyState = 0\<rparr>],
     arrivals = [], late = [], clip = NotOpened, crashed = False\<rparr>"

lemma wf_demo: "wf_editor demo_editor"
  by (simp add: wf_editor_def demo_editor_def)

lemma consistent_demo: "consistent demo_state"
  using wf_demo by (simp add: consistent_def demo_state_def ectl_getinfo_def Let_def) (simp add: demo_editor_def PREVIEW_EVENTS_def)


end
