(* ===== verification/IncLoop.thy ===== *)
theory IncLoop
  imports IncFind
begin

text \<open>
  The main loop of the incremental search plugin: \<open>SearchLoopEditor\<close> of \<^verbatim>\<open>incsrch/search.c\<close>. A command is one
  step; the loop ends when the user ends the search (\<open>Returned\<close>), stays in \<^verbatim>\<open>WaitInput\<close> when no more input comes
  (\<open>Waiting\<close>), or runs into undefined behaviour (\<open>Crashed\<close>, with the state in which the faulty step began): a clipboard
  without text, or a selection whose end lies before its start, whose length becomes a huge size in \<^verbatim>\<open>memcpy\<close>.
\<close>

datatype outcome = Returned search_state | Waiting search_state | Crashed search_state

primrec final :: "outcome \<Rightarrow> search_state" where
  "final (Returned st) = st"
| "final (Waiting st) = st"
| "final (Crashed st) = st"

section \<open>Commands\<close>

definition do_back :: "settings \<Rightarrow> search_state \<Rightarrow> search_state" where
  "do_back s st =
     (if sStr st \<noteq> [] then
        (let st1 = ShowTitle s (st\<lparr>sStr := butlast (sStr st)\<rparr>);
             st2 = (if bBSunroll s then SetPosition s (fst (aHist st1 ! nLen st1)) (snd (aHist st1 ! nLen st1)) st1
                    else SetPosition s (- 1) (iCurPos (ei st1) - 1) st1)
         in SelectFound s True (get_info st2))
      else st)"

text \<open>The results of a command: whether it failed, whether the plugin returns, and the state.\<close>

definition do_next :: "settings \<Rightarrow> u8 \<Rightarrow> search_state \<Rightarrow> (bool \<times> bool \<times> search_state) option" where
  "do_next s Flags st =
     (if sStr st \<noteq> [] then
        (case FindString s True (if Flags = KC_PREV then bReverse s else \<not> bReverse s) (ShowTitle s st) of
           None \<Rightarrow> None
         | Some (found, st1) \<Rightarrow> Some (\<not> found, bStopOnFound s, if found then st1 else ShowTitle s st1))
      else Some (False, False, st))"

definition do_char :: "settings \<Rightarrow> u8 \<Rightarrow> search_state \<Rightarrow> (bool \<times> search_state) option" where
  "do_char s c st =
     (if nLen st = MAX_STR then Some (False, st)
      else case FindString s False (\<not> bReverse s) (ShowTitle s (st\<lparr>sStr := sStr st @ [ucast c]\<rparr>)) of
        None \<Rightarrow> None
      | Some (True, st1) \<Rightarrow> Some (False, st1\<lparr>aHist := (aHist st1)[nLen st1 := (iCurLine (ei st1), iCurPos (ei st1))]\<rparr>)
      | Some (False, st1) \<Rightarrow> Some (True, ShowTitle s (st1\<lparr>sStr := butlast (sStr st1)\<rparr>)))"

definition command :: "settings \<Rightarrow> u8 \<times> u8 \<Rightarrow> search_state \<Rightarrow> (bool \<times> bool \<times> search_state) option" where
  "command s e st =
     (let Flags = fst e; cmd = Flags AND NOT KC_FAILKILL in
      if cmd = KC_BACK then Some (False, False, do_back s st)
      else if cmd = KC_NEXT \<or> cmd = KC_PREV then do_next s Flags st
      else if cmd = KC_CLEARMSG then Some (False, False, ShowTitle s st)
      else if cmd = KC_HELP then Some (False, False, st)
      else if cmd = KC_CHAR then map_option (\<lambda>(fail, st1). (fail, False, st1)) (do_char s (snd e) st)
      else Some (False, False, st))"

text \<open>Taking the command out of the queue; a command that failed takes its repetitions with it.\<close>

definition dequeue :: "bool \<Rightarrow> (u8 \<times> u8) list \<Rightarrow> (u8 \<times> u8) list" where
  "dequeue bFail q = (if bFail then dropWhile (\<lambda>e. fst e AND KC_FAILKILL \<noteq> 0) (tl q) else tl q)"

definition finish :: "settings \<Rightarrow> search_state \<Rightarrow> search_state" where
  "finish s st =
     (let st1 = (if \<not> bKeepSelection s then SelectFound s False (st\<lparr>sStr := []\<rparr>) else st)
      in if \<not> bEscape st1 then st1\<lparr>ed := ectl_redraw (sView s) (ed st1), forwarded := forwarded st1 @ [Event st1]\<rparr> else st1)"

section \<open>The loop\<close>

datatype control = Inner search_state | Outer search_state | Done outcome

text \<open>
  A step in which the clipboard is found without a text, also by a look at the input in the middle of \<open>FindString\<close> or
  \<open>ShowTitle\<close>, ends the program there: what the model of these functions computes after that point is dropped.
\<close>

definition inner_step :: "settings \<Rightarrow> search_state \<Rightarrow> control option" where
  "inner_step s st =
     (if aEvents st = [] \<and> \<not> bTermEvent st then Some (Outer st)
      else if bTermEvent st \<and> \<not> bStopOnFound s then Some (Done (Returned (finish s st)))
      else if aEvents st = [] then None
      else case command s (hd (aEvents st)) st of
        None \<Rightarrow> None
      | Some (bFail, ret, st1) \<Rightarrow>
          Some (if crashed st1 then Done (Crashed st)
                else if ret then Done (Returned st1) else Inner (st1\<lparr>aEvents := dequeue bFail (aEvents st1)\<rparr>)))"

definition outer_step :: "settings \<Rightarrow> search_state \<Rightarrow> control option" where
  "outer_step s st =
     (if bStopOnFound s then Some (Inner st)
      else case CollectEvents s st of
        (b, st1) \<Rightarrow>
          if crashed st1 then Some (Done (Crashed st))
          else if b then Some (Inner st1)
          else (case WaitInput st1 of None \<Rightarrow> Some (Done (Waiting st1)) | Some st2 \<Rightarrow> Some (Inner st2)))"

definition control_step :: "settings \<Rightarrow> control \<Rightarrow> control option" where
  "control_step s c = (case c of Inner st \<Rightarrow> inner_step s st | Outer st \<Rightarrow> outer_step s st | Done r \<Rightarrow> Some (Done r))"

primrec run :: "nat \<Rightarrow> settings \<Rightarrow> control \<Rightarrow> outcome option" where
  "run 0 s c = None"
| "run (Suc n) s c =
     (case c of
        Done r \<Rightarrow> Some r
      | _ \<Rightarrow> (case control_step s c of None \<Rightarrow> None | Some c1 \<Rightarrow> run n s c1))"

text \<open>
  The start of the search: the pattern is the selected part of the current line, if the option is set. Without
  one the commands that search for the selection return at once.
\<close>

definition no_block :: "settings \<Rightarrow> search_state \<Rightarrow> control" where
  "no_block s st = (if bStopOnFound s then Done (Returned st) else Outer st)"

text \<open>
  The length of the selected part is signed. A negative one is converted to the size of \<^verbatim>\<open>memcpy\<close>, which is then
  larger than any object: \<open>selected_part\<close> has no value.
\<close>

definition selected_length :: "editor_string \<Rightarrow> int" where
  "selected_length g =
     (let len = (if sSelEnd g = - 1 \<or> sSelEnd g > StringLength g then StringLength g else sSelEnd g) - sSelStart g
      in if len > int MAX_STR then int MAX_STR else len)"

definition selected_part :: "editor_string \<Rightarrow> wchar list option" where
  "selected_part g =
     (if selected_length g < 0 then None
      else Some (take (nat (selected_length g)) (drop (nat (sSelStart g)) (StringText g))))"

definition use_selection :: "settings \<Rightarrow> search_state \<Rightarrow> control" where
  "use_selection s st =
     (if \<not> bThisUseSelection s then Outer st
      else if iBlockType (ei st) = BTYPE_NONE then no_block s st
      else let st1 = get_string s st; g = egs st1 in
        if sSelStart g \<noteq> - 1 \<and> sSelStart g < StringLength g then
          (case selected_part g of
             None \<Rightarrow> Done (Crashed st1)
           | Some t \<Rightarrow>
               (let st2 = PositionToView s (- 1) (sSelStart g) (st1\<lparr>sStr := t\<rparr>)
                in Outer (if bThisAutoNext s then put_flags KC_NEXT st2 else st2)))
        else no_block s st1)"

definition init_hist :: "search_state \<Rightarrow> (int \<times> int) list" where
  "init_hist st =
     map (\<lambda>i. (iCurLine (ei st), iCurPos (ei st) - (int (nLen st) - int i))) [0..<Suc (nLen st)] @ drop (Suc (nLen st)) (aHist st)"

definition show_selection :: "settings \<Rightarrow> search_state \<Rightarrow> search_state" where
  "show_selection s st =
     (let st1 = ShowTitle s (st\<lparr>aHist := init_hist st\<rparr>) in
      if \<not> bStopOnFound s \<or> iBlockStartLine (ei st1) \<noteq> iCurLine (ei st1) \<or> iBlockType (ei st1) \<noteq> BTYPE_STREAM \<or>
         sSelStart (egs st1) + int (nLen st1) \<noteq> sSelEnd (egs st1)
      then SelectFound s True st1 else st1)"

definition start_search :: "settings \<Rightarrow> search_state \<Rightarrow> control" where
  "start_search s st =
     (case use_selection s (get_info (st\<lparr>bEscape := False, bTermEvent := False, aEvents := [], bNotFound := False, sStr := []\<rparr>)) of
        Outer st1 \<Rightarrow> Outer (show_selection s st1)
      | c \<Rightarrow> c)"

definition SearchLoopEditor :: "nat \<Rightarrow> settings \<Rightarrow> search_state \<Rightarrow> outcome option" where
  "SearchLoopEditor n s st = run n s (start_search s st)"

section \<open>The invariant of the loop\<close>

definition hist_ok :: "search_state \<Rightarrow> bool" where
  "hist_ok st \<longleftrightarrow> length (aHist st) = Suc MAX_STR \<and>
     (\<forall>i \<le> nLen st. 0 \<le> fst (aHist st ! i) \<and> fst (aHist st ! i) < NumLastLine (ed st) \<and> int i \<le> snd (aHist st ! i))"

definition loop_inv :: "search_state \<Rightarrow> bool" where
  "loop_inv st \<longleftrightarrow> consistent st \<and> int (nLen st) \<le> iCurPos (ei st) \<and> nLen st \<le> MAX_STR \<and> hist_ok st"

text \<open>What a command may do to the rest of the state.\<close>

definition advance :: "search_state \<Rightarrow> search_state \<Rightarrow> bool" where
  "advance st st' \<longleftrightarrow> texts (ed st') = texts (ed st) \<and> clip st' = clip st \<and>
     (crashed st' \<longrightarrow> crashed st \<or> clip st = NoText) \<and> work st' \<le> work st \<and> prefix (aEvents st) (aEvents st')"

lemma advance_refl: "advance st st"
  by (simp add: advance_def)

lemma advance_trans: "advance a b \<Longrightarrow> advance b c \<Longrightarrow> advance a c"
  unfolding advance_def using prefix_order.trans by auto

lemma progress_advance: "progress a b \<Longrightarrow> advance a b"
  by (simp add: progress_def advance_def)

lemma NumLastLine_texts: "texts f = texts e \<Longrightarrow> NumLastLine f = NumLastLine e"
  unfolding NumLastLine_def by (drule texts_length) simp

lemma hist_ok_cong:
  assumes h: "aHist b = aHist a" and n: "nLen b \<le> nLen a" and t: "texts (ed b) = texts (ed a)" and a: "hist_ok a"
  shows "hist_ok b"
proof -
  have N: "NumLastLine (ed b) = NumLastLine (ed a)" by (rule NumLastLine_texts [OF t])
  show ?thesis using a n unfolding hist_ok_def h N by (meson order_trans)
qed

lemma ShowTitle_ok:
  assumes "consistent st"
  shows "consistent (ShowTitle s st) \<and> progress st (ShowTitle s st) \<and> ei (ShowTitle s st) = ei st \<and> ed (ShowTitle s st) = ed st"
proof -
  let ?t = "set_title s st"
  have t: "consistent ?t" "ed ?t = ed st" "ei ?t = ei st" "progress st ?t"
    using assms by (simp_all add: set_title_def consistent_def progress_def work_def Let_def)
  note sm = consistent_StatusMessage [OF t(1), of s]
  have p: "progress ?t (StatusMessage s ?t)" using steady_progress sm by blast
  have "progress st (StatusMessage s ?t)" by (rule progress_trans [OF t(4) p])
  then have "progress st ((StatusMessage s ?t)\<lparr>bNotFound := False\<rparr>)" by (simp add: progress_def work_def)
  moreover have "consistent ((StatusMessage s ?t)\<lparr>bNotFound := False\<rparr>)" using conjunct1 [OF sm] by (simp add: consistent_def)
  ultimately show ?thesis using t sm steadyD(1) by (auto simp: ShowTitle_def Let_def)
qed

section \<open>Commands keep the invariant\<close>

lemma loop_invD: "loop_inv st \<Longrightarrow> consistent st" "loop_inv st \<Longrightarrow> hist_ok st" "loop_inv st \<Longrightarrow> nLen st \<le> MAX_STR"
  "loop_inv st \<Longrightarrow> int (nLen st) \<le> iCurPos (ei st)"
  by (simp_all add: loop_inv_def)

lemma loop_inv_ShowTitle: "loop_inv st \<Longrightarrow> loop_inv (ShowTitle s st) \<and> advance st (ShowTitle s st)"
  using ShowTitle_ok [of st s] hist_ok_cong [of "ShowTitle s st" st] progress_advance
  by (auto simp: loop_inv_def progress_def)

lemma butlast_inv: "loop_inv st \<Longrightarrow> loop_inv (st\<lparr>sStr := butlast (sStr st)\<rparr>) \<and> advance st (st\<lparr>sStr := butlast (sStr st)\<rparr>)"
  by (auto simp: loop_inv_def consistent_def hist_ok_def advance_def work_def)

text \<open>Moving the cursor to a place of the text that is known.\<close>

lemma loop_inv_goto:
  assumes st: "loop_inv st" and l: "Line < NumLastLine (ed st)" and p: "int (nLen st) \<le> p"
  shows "loop_inv (get_info (SetPosition s Line p st)) \<and> advance st (get_info (SetPosition s Line p st))"
proof -
  let ?g = "get_info (SetPosition s Line p st)"
  have o: "on_line st" and wf: "wf_editor (ed st)" using loop_invD(1) [OF st] consistent_on_line by (auto simp: consistent_def)
  have ss: "steady st (SetPosition s Line p st)" by (rule steady_SetPosition [OF o l])
  have p0: "0 \<le> p" using p by simp
  have a: "advance st ?g" using progress_advance [OF steady_progress [OF ss]] by (simp add: advance_def get_info_def work_def)
  have cp: "CurPos (ed ?g) = p"
    using setposition_line(3) [of "ed st" Line p "sView s"] o l p0 by (simp add: on_line_def SetPosition_def get_info_def)
  have ls: "Lines (ed ?g) = Lines (ed st)" using steadyD(3) [OF ss] by (simp add: get_info_def)
  have c: "consistent ?g"
    using steady_on_line [OF ss] wf ls cp p0
    by (auto simp: consistent_def on_line_def get_info_def ectl_getinfo_def Let_def wf_editor_def)
  have f: "aHist ?g = aHist st" "sStr ?g = sStr st" "iCurPos (ei ?g) = p"
    using cp by (simp_all add: get_info_def SetPosition_def ectl_getinfo_def Let_def)
  have "hist_ok ?g" by (rule hist_ok_cong [OF f(1) _ _ loop_invD(2) [OF st]]) (simp_all add: f ls texts_def)
  then show ?thesis using a c f p loop_invD(3) [OF st] by (simp add: loop_inv_def)
qed

lemma loop_inv_SelectFound: "loop_inv st \<Longrightarrow> loop_inv (SelectFound s r st) \<and> advance st (SelectFound s r st)"
  using consistent_SelectFound [of st s r] hist_ok_cong [of "SelectFound s r st" st] progress_advance
  by (auto simp: loop_inv_def progress_def)

lemma do_back_inv: "loop_inv st \<Longrightarrow> loop_inv (do_back s st) \<and> advance st (do_back s st)"
proof -
  assume inv: "loop_inv st"
  show ?thesis
  proof (cases "sStr st = []")
    case False
    let ?a = "st\<lparr>sStr := butlast (sStr st)\<rparr>" let ?b = "ShowTitle s ?a"
    note a = butlast_inv [OF inv]
    note b = loop_inv_ShowTitle [OF conjunct1 [OF a], of s]
    have eb: "iCurPos (ei ?b) = iCurPos (ei st)" "nLen ?b = nLen st - 1"
      using ShowTitle_ok [OF loop_invD(1) [OF conjunct1 [OF a]], of s] by (auto simp: progress_def)
    have h: "fst (aHist ?b ! nLen ?b) < NumLastLine (ed ?b)" "int (nLen ?b) \<le> snd (aHist ?b ! nLen ?b)"
      using loop_invD(2) [OF conjunct1 [OF b]] by (simp_all add: hist_ok_def)
    have q: "- 1 < NumLastLine (ed ?b)" by (simp add: NumLastLine_def)
    have r: "int (nLen ?b) \<le> iCurPos (ei ?b) - 1"
      using loop_invD(4) [OF inv] False eb by (cases "sStr st") auto
    let ?c = "if bBSunroll s then SetPosition s (fst (aHist ?b ! nLen ?b)) (snd (aHist ?b ! nLen ?b)) ?b
      else SetPosition s (- 1) (iCurPos (ei ?b) - 1) ?b"
    have c: "loop_inv (get_info ?c) \<and> advance ?b (get_info ?c)"
      using loop_inv_goto [OF conjunct1 [OF b] h, of s] loop_inv_goto [OF conjunct1 [OF b] q r, of s] by simp
    have e: "do_back s st = SelectFound s True (get_info ?c)" using False by (simp add: do_back_def Let_def)
    show ?thesis unfolding e using loop_inv_SelectFound [OF conjunct1 [OF c], of s True] a b c advance_trans by blast
  qed (simp add: do_back_def inv advance_refl)
qed

lemma find_result_inv:
  assumes "find_result s st b st'" "hist_ok st" "nLen st \<le> MAX_STR" "\<not> b \<longrightarrow> int (nLen st) \<le> iCurPos (ei st)"
  shows "loop_inv st'"
proof -
  have p: "progress st st'" and c: "consistent st'" using assms(1) by (auto simp: find_result_def)
  have "int (nLen st') \<le> iCurPos (ei st')"
    using assms(1,4) p by (cases b) (auto simp: find_result_def progress_def)
  moreover have "hist_ok st'" using p by (intro hist_ok_cong [OF _ _ _ assms(2)]) (auto simp: progress_def)
  ultimately show ?thesis using c p assms(3) by (simp add: loop_inv_def progress_def)
qed

lemma do_next_inv:
  assumes inv: "loop_inv st"
  shows "\<exists>fail ret st'. do_next s F st = Some (fail, ret, st') \<and> loop_inv st' \<and> advance st st'"
proof (cases "sStr st = []")
  case False
  let ?a = "ShowTitle s st"
  note a = loop_inv_ShowTitle [OF inv, of s]
  have ne: "sStr ?a \<noteq> []" using ShowTitle_ok [OF loop_invD(1) [OF inv], of s] False by (simp add: progress_def)
  obtain b st' where f: "FindString s True (if F = KC_PREV then bReverse s else \<not> bReverse s) ?a = Some (b, st')" "find_result s ?a b st'"
    by (rule FindString_spec [OF loop_invD(1) [OF conjunct1 [OF a]] ne])
  have i: "loop_inv st'" using a loop_invD by (intro find_result_inv [OF f(2)]) blast+
  have v: "advance st st'" using f(2) a progress_advance advance_trans unfolding find_result_def by blast
  show ?thesis
    using False f(1) i v loop_inv_ShowTitle [OF i, of s] advance_trans [OF v]
    by (cases b) (simp add: do_next_def, blast)+
qed (auto simp: do_next_def inv advance_refl)

lemma do_char_inv:
  assumes inv: "loop_inv st"
  shows "\<exists>fail st'. do_char s c st = Some (fail, st') \<and> loop_inv st' \<and> advance st st'"
proof (cases "nLen st = MAX_STR")
  case False
  let ?a = "st\<lparr>sStr := sStr st @ [ucast c]\<rparr>" let ?b = "ShowTitle s ?a"
  have ca: "consistent ?a" using loop_invD(1) [OF inv] by (simp add: consistent_def)
  note b = ShowTitle_ok [OF ca, of s]
  have sb: "sStr ?b = sStr st @ [ucast c]" "aHist ?b = aHist st" "texts (ed ?b) = texts (ed st)" "ei ?b = ei st"
    using b by (auto simp: progress_def)
  have vb: "advance st ?b" using b progress_advance [of ?a ?b] by (auto simp: advance_def work_def)
  have ne: "sStr ?b \<noteq> []" using sb by simp
  obtain r st' where f: "FindString s False (\<not> bReverse s) ?b = Some (r, st')" "find_result s ?b r st'"
    by (rule FindString_spec [OF conjunct1 [OF b] ne])
  have p: "progress ?b st'" and c': "consistent st'" using f(2) by (auto simp: find_result_def)
  have vs: "advance st st'" by (rule advance_trans [OF vb progress_advance [OF p]])
  have n': "nLen st' = Suc (nLen st)" "aHist st' = aHist st" "sStr st' = sStr st @ [ucast c]"
    using p sb by (auto simp: progress_def)
  have T: "NumLastLine (ed st') = NumLastLine (ed st)" using p sb by (intro NumLastLine_texts) (simp add: progress_def)
  have h: "length (aHist st') = Suc MAX_STR"
    "\<And>i. i \<le> nLen st \<Longrightarrow> 0 \<le> fst (aHist st' ! i) \<and> fst (aHist st' ! i) < NumLastLine (ed st') \<and> int i \<le> snd (aHist st' ! i)"
    using loop_invD(2) [OF inv] n' T by (auto simp: hist_ok_def)
  show ?thesis
  proof (cases r)
    case True
    let ?g = "st'\<lparr>aHist := (aHist st')[nLen st' := (iCurLine (ei st'), iCurPos (ei st'))]\<rparr>"
    have cl: "0 \<le> iCurLine (ei st')" "iCurLine (ei st') < NumLastLine (ed st')" "int (nLen st') \<le> iCurPos (ei st')"
      using c' f(2) True p by (auto simp: consistent_def wf_editor_def NumLastLine_def find_result_def progress_def)
    have m: "nLen st' \<le> MAX_STR" using False loop_invD(3) [OF inv] n' by simp
    have "hist_ok ?g" using h cl m n' by (auto simp: hist_ok_def nth_list_update le_Suc_eq)
    then have "loop_inv ?g" using c' cl m by (simp add: loop_inv_def consistent_def)
    moreover have "advance st ?g" using vs by (simp add: advance_def work_def)
    ultimately show ?thesis using False f(1) True by (simp add: do_char_def) blast
  next
    case no: False
    let ?g = "st'\<lparr>sStr := butlast (sStr st')\<rparr>"
    have "ei st' = ei st" using f(2) no sb by (simp add: find_result_def)
    moreover have "hist_ok ?g" using h n' by (simp add: hist_ok_def)
    ultimately have i: "loop_inv ?g" using c' inv n' by (simp add: loop_inv_def consistent_def)
    have v: "advance st ?g" using vs by (simp add: advance_def work_def)
    show ?thesis
      using False f(1) no loop_inv_ShowTitle [OF i, of s] advance_trans [OF v] by (simp add: do_char_def) blast
  qed
qed (auto simp: do_char_def inv advance_refl)

lemma command_inv:
  assumes inv: "loop_inv st"
  shows "\<exists>fail ret st'. command s e st = Some (fail, ret, st') \<and> loop_inv st' \<and> advance st st'"
  using do_back_inv [OF inv, of s] do_next_inv [OF inv, of s "fst e"] do_char_inv [OF inv, of s "snd e"]
    loop_inv_ShowTitle [OF inv, of s] inv advance_refl [of st]
  by (auto simp: command_def Let_def)

section \<open>Reachable states and the end of the loop\<close>

inductive reach :: "settings \<Rightarrow> control \<Rightarrow> control \<Rightarrow> bool" for s where
  reach_refl: "reach s c c"
| reach_step: "reach s c c1 \<Longrightarrow> control_step s c1 = Some c2 \<Longrightarrow> reach s c c2"

primrec state_of :: "control \<Rightarrow> search_state" where
  "state_of (Inner st) = st"
| "state_of (Outer st) = st"
| "state_of (Done r) = final r"

text \<open>What the whole search leaves as it is.\<close>

definition carried :: "search_state \<Rightarrow> search_state \<Rightarrow> bool" where
  "carried st st' \<longleftrightarrow> texts (ed st') = texts (ed st) \<and> clip st' = clip st \<and> (crashed st' \<longrightarrow> crashed st \<or> clip st = NoText)"

lemma carried_refl [simp]: "carried st st"
  by (simp add: carried_def)

lemma carried_advance: "carried a b \<Longrightarrow> advance b c \<Longrightarrow> carried a c"
  by (auto simp: carried_def advance_def)

definition within_arrays :: "search_state \<Rightarrow> bool" where
  "within_arrays st \<longleftrightarrow> nLen st \<le> MAX_STR \<and> nEvents st \<le> PREVIEW_EVENTS \<and> length (aHist st) = Suc MAX_STR"

lemma loop_inv_arrays: "loop_inv st \<Longrightarrow> within_arrays st"
  by (simp add: loop_inv_def within_arrays_def consistent_def hist_ok_def)

text \<open>The search waits only if it has read everything.\<close>

definition all_read :: "outcome \<Rightarrow> bool" where
  "all_read r \<longleftrightarrow> (case r of Waiting st \<Rightarrow> aEvents st = [] \<and> console st = [] \<and> (\<forall>b \<in> set (arrivals st). b = []) | _ \<Rightarrow> True)"

text \<open>
  The two ways to crash: the clipboard has no text, or the text of the editor that is searched for is the selection
  of the current line, and ends before it starts.
\<close>

definition selection_begins :: "editor_string \<Rightarrow> bool" where
  "selection_begins g \<longleftrightarrow> sSelStart g \<noteq> - 1 \<and> sSelStart g < StringLength g"

definition reversed_selection :: "settings \<Rightarrow> search_state \<Rightarrow> bool" where
  "reversed_selection s st \<longleftrightarrow>
     bThisUseSelection s \<and> iBlockType (ectl_getinfo (ed st)) \<noteq> BTYPE_NONE \<and>
     selection_begins (egs (get_string s st)) \<and> selected_length (egs (get_string s st)) < 0"

definition crash_cause :: "settings \<Rightarrow> search_state \<Rightarrow> bool" where
  "crash_cause s st \<longleftrightarrow> clip st = NoText \<or> reversed_selection s st"

definition crash_ok :: "settings \<Rightarrow> search_state \<Rightarrow> outcome \<Rightarrow> bool" where
  "crash_ok s st0 r \<longleftrightarrow> (case r of Crashed st \<Rightarrow> crash_cause s st0 | _ \<Rightarrow> True)"

definition control_ok :: "settings \<Rightarrow> search_state \<Rightarrow> control \<Rightarrow> bool" where
  "control_ok s st0 c \<longleftrightarrow> carried st0 (state_of c) \<and> \<not> crashed (state_of c) \<and>
     (case c of Done r \<Rightarrow> within_arrays (state_of c) \<and> all_read r \<and> crash_ok s st0 r | _ \<Rightarrow> loop_inv (state_of c))"

lemma control_ok_arrays: "control_ok s st0 c \<Longrightarrow> carried st0 (state_of c) \<and> \<not> crashed (state_of c) \<and> within_arrays (state_of c)"
  by (cases c) (auto simp: control_ok_def loop_inv_arrays)

lemma finish_ok:
  assumes "loop_inv st"
  shows "carried st (finish s st) \<and> within_arrays (finish s st) \<and> crashed (finish s st) = crashed st"
proof -
  let ?a = "st\<lparr>sStr := []\<rparr>"
  have a: "loop_inv ?a" "advance st ?a"
    using assms by (auto simp: loop_inv_def consistent_def hist_ok_def advance_def work_def)
  note b = loop_inv_SelectFound [OF a(1), of s False]
  let ?c = "if \<not> bKeepSelection s then SelectFound s False ?a else st"
  have c: "loop_inv ?c" "advance st ?c" using b assms a(2) advance_trans advance_refl by auto
  have "within_arrays ?c" using loop_inv_arrays [OF c(1)] .
  then show ?thesis using carried_advance [OF carried_refl c(2)]
    by (simp add: finish_def Let_def within_arrays_def carried_def texts_def SelectFound_def)
qed

lemma dequeue_length: "q \<noteq> [] \<Longrightarrow> length (dequeue f q) < length q"
  using length_dropWhile_le [of "\<lambda>e. fst e AND KC_FAILKILL \<noteq> 0" "tl q"]
  by (cases q) (auto simp: dequeue_def)

lemma dequeue_inv:
  assumes "loop_inv st" "aEvents st \<noteq> []"
  shows "loop_inv (st\<lparr>aEvents := dequeue f (aEvents st)\<rparr>)" "work (st\<lparr>aEvents := dequeue f (aEvents st)\<rparr>) < work st"
  using dequeue_length [OF assms(2), of f] assms(1) by (auto simp: loop_inv_def consistent_def hist_ok_def work_def)

lemma loop_inv_collect: "loop_inv st \<Longrightarrow> loop_inv (snd (CollectEvents s st)) \<and> advance st (snd (CollectEvents s st))"
  using CollectEvents_keeps [of st s] consistent_collect [of st s]
  by (auto simp: loop_inv_def consistent_def same_core_def core_def hist_ok_def advance_def)

lemma wait_loop_work:
  "wait_loop bs = (b, rest) \<Longrightarrow> b \<noteq> [] \<Longrightarrow> length b + sum_list (map length rest) \<le> sum_list (map length bs) \<and> length rest < length bs"
  by (induction bs) (auto split: if_splits)

lemma wait_loop_none: "wait_loop bs = ([], rest) \<Longrightarrow> \<forall>b \<in> set bs. b = []"
  by (induction bs) (auto split: if_splits)

lemma WaitInput_ok:
  assumes "loop_inv st" "WaitInput st = Some st'" "console st = []"
  shows "loop_inv st' \<and> carried st st' \<and> aEvents st' = aEvents st \<and> crashed st' = crashed st \<and> work st' < work st"
proof -
  obtain b rest where w: "wait_loop (arrivals st) = (b, rest)" by fastforce
  have "b \<noteq> []" "st' = st\<lparr>console := b, arrivals := rest\<rparr>" using assms w by (auto simp: WaitInput_def split: if_splits)
  then show ?thesis using assms(1,3) wait_loop_work [OF w]
    by (simp add: loop_inv_def consistent_def hist_ok_def carried_def work_def)
qed

lemma action_if:
  "(b \<Longrightarrow> fst x = Return \<Longrightarrow> bTermEvent (snd x) \<or> crashed (snd x)) \<Longrightarrow> (\<not> b \<Longrightarrow> fst y = Return \<Longrightarrow> bTermEvent (snd y) \<or> crashed (snd y)) \<Longrightarrow>
     fst (if b then x else y) = Return \<Longrightarrow> bTermEvent (snd (if b then x else y)) \<or> crashed (snd (if b then x else y))"
  by (simp split: if_splits)

lemma paste_action_Return: "fst (paste_action st) = Return \<Longrightarrow> crashed (snd (paste_action st))"
  by (simp add: paste_action_def Let_def split: if_splits)

lemma key_action_Return: "fst (key_action k st) = Return \<longrightarrow> bTermEvent (snd (key_action k st)) \<or> crashed (snd (key_action k st))"
  unfolding key_action_def key_default_def Let_def
  by (rule impI) ((rule action_if; auto split: if_splits dest: paste_action_Return)+)

lemma input_action_Return: "input_action e st = (Return, st') \<Longrightarrow> bTermEvent st' \<or> crashed st'"
proof (cases e)
  case (KeyInput k)
  then show "input_action e st = (Return, st') \<Longrightarrow> ?thesis"
    using key_action_Return [of k st] by (simp add: input_action_def)
qed (auto simp: input_action_def split: if_splits)

lemma collect_loop_empty: "aEvents (collect_loop s st es) \<noteq> [] \<or> bTermEvent (collect_loop s st es) \<or>
    crashed (collect_loop s st es) \<or> console (collect_loop s st es) = []"
proof (induction s st es rule: collect_loop.induct)
  case (1 s st es)
  show ?case
  proof (cases "\<not> bTermEvent st \<and> nEvents st \<noteq> PREVIEW_EVENTS \<and> es \<noteq> []")
    case True
    obtain a st1 where a: "input_action (hd es) (st\<lparr>Event := hd es\<rparr>) = (a, st1)" by (metis surj_pair)
    show ?thesis
      using 1(1) [OF True a [symmetric]] 1(2) [OF True a [symmetric]] a True input_action_Return [of "hd es" "st\<lparr>Event := hd es\<rparr>" st1]
      by (cases a; subst (1 2 3 4) collect_loop.simps) auto
  next
    case False
    then show ?thesis using 1(3) [OF False]
      by (subst (1 2 3 4) collect_loop.simps) (auto simp: PREVIEW_EVENTS_def MAX_STR_def)
  qed
qed

lemma CollectEvents_empty: "CollectEvents s st = (False, st') \<Longrightarrow> \<not> crashed st' \<Longrightarrow> aEvents st' = [] \<and> \<not> bTermEvent st' \<and> console st' = []"
  using collect_loop_empty [of s] by (auto simp: CollectEvents_def Let_def)

text \<open>The steps.\<close>

lemma inner_step_ok:
  assumes "loop_inv st" "carried st0 st" "\<not> crashed st" "inner_step s st = Some c"
  shows "control_ok s st0 c"
proof -
  consider "aEvents st = []" "\<not> bTermEvent st" | "bTermEvent st" "\<not> bStopOnFound s"
    | "aEvents st \<noteq> []" "\<not> (bTermEvent st \<and> \<not> bStopOnFound s)" | "aEvents st = []" "bTermEvent st" "bStopOnFound s" by blast
  then show ?thesis
  proof cases
    case 2
    then have "c = Done (Returned (finish s st))" using assms(4) by (auto simp: inner_step_def)
    then show ?thesis using finish_ok [OF assms(1), of s] assms(2,3) by (auto simp: control_ok_def carried_def all_read_def crash_ok_def)
  next
    case 3
    obtain fail ret st1 where cm: "command s (hd (aEvents st)) st = Some (fail, ret, st1)" "loop_inv st1" "advance st st1"
      using command_inv [OF assms(1)] by blast
    have q: "aEvents st1 \<noteq> []" using cm(3) 3(1) by (auto simp: advance_def)
    have c: "c = (if crashed st1 then Done (Crashed st)
        else if ret then Done (Returned st1) else Inner (st1\<lparr>aEvents := dequeue fail (aEvents st1)\<rparr>))"
      using assms(4) 3 cm(1) by (auto simp: inner_step_def)
    have cr: "crashed st1 \<Longrightarrow> clip st0 = NoText" using cm(3) assms(2,3) by (auto simp: advance_def carried_def)
    show ?thesis
      using c carried_advance [OF assms(2) cm(3)] dequeue_inv [OF cm(2) q, of fail] cm(2) loop_inv_arrays [OF cm(2)]
        loop_inv_arrays [OF assms(1)] assms(2,3) cr
      by (auto simp: control_ok_def all_read_def carried_def crash_ok_def crash_cause_def)
  qed (use assms in \<open>auto simp: inner_step_def control_ok_def\<close>)
qed

lemma outer_step_ok:
  assumes "loop_inv st" "carried st0 st" "\<not> crashed st" "outer_step s st = Some c"
  shows "control_ok s st0 c"
proof (cases "bStopOnFound s")
  case False
  obtain b st1 where ce: "CollectEvents s st = (b, st1)" by fastforce
  have ad: "loop_inv st1" "advance st st1" using loop_inv_collect [OF assms(1), of s] ce by simp_all
  have st1: "loop_inv st1" "carried st0 st1" "crashed st1 \<Longrightarrow> clip st0 = NoText"
    using ad carried_advance [OF assms(2) ad(2)] assms(2,3) by (simp_all add: advance_def carried_def)
  show ?thesis
  proof (cases "crashed st1")
    case True
    then have "c = Done (Crashed st)" using assms(4) False ce by (simp add: outer_step_def)
    then show ?thesis using True assms(2,3) st1(3) loop_inv_arrays [OF assms(1)]
      by (simp add: control_ok_def all_read_def crash_ok_def crash_cause_def)
  next
    case nc: False
    note e = CollectEvents_empty [of s st st1]
    consider b | "\<not> b" "WaitInput st1 = None" | st2 where "\<not> b" "WaitInput st1 = Some st2" by (cases "WaitInput st1") auto
    then show ?thesis
    proof cases
      case 1
      then show ?thesis using assms(4) False ce st1 nc by (auto simp: outer_step_def control_ok_def)
    next
      case 2
      then have "all_read (Waiting st1)"
        using e ce nc wait_loop_none [of "arrivals st1"] by (auto simp: WaitInput_def all_read_def split: prod.splits if_splits)
      then show ?thesis using assms(4) False ce 2 nc st1 loop_inv_arrays [OF st1(1)]
        by (auto simp: outer_step_def control_ok_def crash_ok_def)
    next
      case 3
      have "loop_inv st2 \<and> carried st0 st2 \<and> \<not> crashed st2"
        using WaitInput_ok [OF st1(1) 3(2)] e ce 3(1) nc st1(2) by (auto simp: carried_def)
      then show ?thesis using assms(4) False ce 3 nc by (auto simp: outer_step_def control_ok_def)
    qed
  qed
qed (use assms in \<open>auto simp: outer_step_def control_ok_def\<close>)

lemma control_step_ok: "control_ok s st0 c \<Longrightarrow> control_step s c = Some c' \<Longrightarrow> control_ok s st0 c'"
  using inner_step_ok outer_step_ok by (cases c) (auto simp: control_ok_def control_step_def)

lemma reach_ok: "reach s c c' \<Longrightarrow> control_ok s st0 c \<Longrightarrow> control_ok s st0 c'"
  by (induction rule: reach.induct) (auto intro: control_step_ok)

section \<open>Termination\<close>

text \<open>
  The rank of a state: the work that is left, and where the loop stands. Every step of a search that reads input
  makes it smaller.
\<close>

definition rank :: "control \<Rightarrow> nat" where
  "rank c = (case c of
     Inner st \<Rightarrow> 3 * work st + (if aEvents st = [] \<and> \<not> bTermEvent st then 3 else 1)
   | Outer st \<Rightarrow> 3 * work st + 2
   | Done r \<Rightarrow> 0)"

lemma inner_step_rank:
  assumes "loop_inv st" "\<not> bStopOnFound s"
  shows "\<exists>c. inner_step s st = Some c \<and> rank c < rank (Inner st)"
proof -
  consider "aEvents st = []" "\<not> bTermEvent st" | "bTermEvent st" | "aEvents st \<noteq> []" "\<not> bTermEvent st" by blast
  then show ?thesis
  proof cases
    case 3
    obtain fail ret st1 where cm: "command s (hd (aEvents st)) st = Some (fail, ret, st1)" "loop_inv st1" "advance st st1"
      using command_inv [OF assms(1)] by blast
    have q: "aEvents st1 \<noteq> []" using cm(3) 3(1) by (auto simp: advance_def)
    have "work st1 \<le> work st" using cm(3) by (simp add: advance_def)
    then have "work (st1\<lparr>aEvents := dequeue fail (aEvents st1)\<rparr>) < work st" using dequeue_inv(2) [OF cm(2) q, of fail] by simp
    then show ?thesis using 3 cm(1) by (auto simp: inner_step_def rank_def)
  qed (use assms in \<open>auto simp: inner_step_def rank_def\<close>)
qed

lemma outer_step_rank:
  assumes "loop_inv st" "\<not> bStopOnFound s"
  shows "\<exists>c. outer_step s st = Some c \<and> rank c < rank (Outer st)"
proof -
  obtain b st1 where ce: "CollectEvents s st = (b, st1)" by fastforce
  have st1: "loop_inv st1" "work st1 \<le> work st"
    using loop_inv_collect [OF assms(1), of s] ce by (auto simp: advance_def)
  consider "crashed st1" | "\<not> crashed st1" b | "\<not> crashed st1" "\<not> b" by blast
  then show ?thesis
  proof cases
    case 1
    then show ?thesis using ce assms(2) by (simp add: outer_step_def rank_def)
  next
    case 2
    then have "\<not> (aEvents st1 = [] \<and> \<not> bTermEvent st1)" using ce by (auto simp: CollectEvents_def Let_def)
    then show ?thesis using 2 ce st1(2) assms(2) by (auto simp: outer_step_def rank_def)
  next
    case 3
    then show ?thesis
      using ce st1 assms(2) CollectEvents_empty [of s st st1] WaitInput_ok [OF st1(1)]
      by (cases "WaitInput st1") (auto simp: outer_step_def rank_def)
  qed
qed

lemma reach_step_first: "control_step s c = Some c1 \<Longrightarrow> reach s c1 c2 \<Longrightarrow> reach s c c2"
  by (rotate_tac) (induction rule: reach.induct, auto intro: reach.intros)

lemma run_ends:
  assumes "\<not> bStopOnFound s"
  shows "control_ok s st0 c \<Longrightarrow> rank c < n \<Longrightarrow> \<exists>r. run n s c = Some r \<and> reach s c (Done r)"
proof (induction n arbitrary: c)
  case (Suc n)
  show ?case
  proof (cases c)
    case (Done r)
    then show ?thesis by (auto intro: reach_refl)
  next
    case (Inner st)
    obtain c1 where c1: "control_step s c = Some c1" "rank c1 < rank c"
      using inner_step_rank [OF _ assms, of st] Suc.prems(1) Inner by (auto simp: control_step_def control_ok_def)
    then obtain r where r: "run n s c1 = Some r" "reach s c1 (Done r)"
      using Suc.IH [OF control_step_ok [OF Suc.prems(1) c1(1)]] Suc.prems(2) by auto
    have "reach s c (Done r)" using r(2) reach_step_first [OF c1(1)] by simp
    then show ?thesis using r c1 Inner by simp
  next
    case (Outer st)
    obtain c1 where c1: "control_step s c = Some c1" "rank c1 < rank c"
      using outer_step_rank [OF _ assms, of st] Suc.prems(1) Outer by (auto simp: control_step_def control_ok_def)
    then obtain r where r: "run n s c1 = Some r" "reach s c1 (Done r)"
      using Suc.IH [OF control_step_ok [OF Suc.prems(1) c1(1)]] Suc.prems(2) by auto
    have "reach s c (Done r)" using r(2) reach_step_first [OF c1(1)] by simp
    then show ?thesis using r c1 Outer by simp
  qed
qed simp

section \<open>The start\<close>

definition startable :: "search_state \<Rightarrow> bool" where
  "startable st \<longleftrightarrow> wf_editor (ed st) \<and> 0 \<le> CurPos (ed st) \<and> length (aHist st) = Suc MAX_STR \<and> \<not> crashed st"

text \<open>The state before the history is filled.\<close>

definition selected_inv :: "search_state \<Rightarrow> search_state \<Rightarrow> bool" where
  "selected_inv st0 st \<longleftrightarrow> consistent st \<and> nLen st \<le> MAX_STR \<and> int (nLen st) \<le> iCurPos (ei st) \<and>
     length (aHist st) = Suc MAX_STR \<and> carried st0 st \<and> \<not> crashed st \<and> \<not> bNotFound st"

lemma show_selection_quiet: "\<not> bNotFound st \<Longrightarrow> crashed (show_selection s st) = crashed st"
  by (simp add: show_selection_def ShowTitle_def set_title_def SelectFound_def Let_def)

lemma show_selection_ok:
  assumes "selected_inv st0 st"
  shows "loop_inv (show_selection s st) \<and> carried st0 (show_selection s st) \<and> sStr (show_selection s st) = sStr st \<and>
    prefix (aEvents st) (aEvents (show_selection s st)) \<and> \<not> crashed (show_selection s st)"
proof -
  let ?a = "st\<lparr>aHist := init_hist st\<rparr>"
  have l: "0 \<le> iCurLine (ei st)" "iCurLine (ei st) < NumLastLine (ed st)" and c: "consistent ?a" and n: "nLen st \<le> MAX_STR"
    and p: "int (nLen st) \<le> iCurPos (ei st)" and hl: "length (aHist st) = Suc MAX_STR"
    using assms by (auto simp: selected_inv_def consistent_def wf_editor_def NumLastLine_def)
  have "0 \<le> fst (init_hist st ! i) \<and> fst (init_hist st ! i) < NumLastLine (ed st) \<and> int i \<le> snd (init_hist st ! i)"
    if "i \<le> nLen st" for i
    using that l p by (simp add: init_hist_def nth_append nth_map_upt del: upt_Suc)
  moreover have "length (init_hist st) = Suc MAX_STR" using hl n by (simp add: init_hist_def)
  ultimately have "hist_ok ?a" by (simp add: hist_ok_def)
  then have ia: "loop_inv ?a" using c n p by (simp add: loop_inv_def)
  have va: "carried st0 ?a" using assms by (simp add: selected_inv_def carried_def)
  note b = loop_inv_ShowTitle [OF ia, of s]
  note d = loop_inv_SelectFound [OF conjunct1 [OF b], of s True]
  have t: "sStr (ShowTitle s ?a) = sStr st" using ShowTitle_ok [OF c, of s] by (simp add: progress_def)
  let ?r = "show_selection s st"
  have "?r = SelectFound s True (ShowTitle s ?a) \<or> ?r = ShowTitle s ?a" by (simp add: show_selection_def Let_def)
  then have "loop_inv ?r \<and> advance ?a ?r \<and> sStr ?r = sStr st"
    using b d t advance_trans by auto
  then show ?thesis using carried_advance [OF va] show_selection_quiet [of st s] assms by (simp add: advance_def selected_inv_def)
qed

lemma started:
  assumes "startable st"
  defines "st1 \<equiv> get_info (st\<lparr>bEscape := False, bTermEvent := False, aEvents := [], bNotFound := False, sStr := []\<rparr>)"
  shows "selected_inv st st1" "ed st1 = ed st" "sStr st1 = []" "aEvents st1 = []" "0 \<le> iCurPos (ei st1)" "ei st1 = ectl_getinfo (ed st)"
  using assms(1) unfolding st1_def
  by (auto simp: selected_inv_def startable_def get_info_def consistent_def ectl_getinfo_def Let_def carried_def)

lemma selected_part_length: "selected_part g = Some t \<Longrightarrow> length t \<le> MAX_STR"
proof -
  assume "selected_part g = Some t"
  then have "length t \<le> nat (selected_length g)" by (auto simp: selected_part_def split: if_splits)
  also have "nat (selected_length g) \<le> MAX_STR" by (auto simp: selected_length_def Let_def)
  finally show ?thesis .
qed

lemma no_block_ok: "selected_inv st0 st \<Longrightarrow> aEvents st = [] \<Longrightarrow>
    no_block s st = Outer st \<or> control_ok s st0 (no_block s st)"
  by (simp add: no_block_def control_ok_def selected_inv_def within_arrays_def all_read_def crash_ok_def)

lemma selected_get_string: "selected_inv st0 st \<Longrightarrow> selected_inv st0 (get_string s st)"
  by (simp add: selected_inv_def consistent_def carried_def get_string_def split: option.split)

lemma selected_text_ok:
  assumes i: "selected_inv st0 st" and a: "0 \<le> a" and n: "length t \<le> MAX_STR"
  shows "selected_inv st0 (PositionToView s (- 1) a (st\<lparr>sStr := t\<rparr>)) \<and> sStr (PositionToView s (- 1) a (st\<lparr>sStr := t\<rparr>)) = t \<and>
    aEvents (PositionToView s (- 1) a (st\<lparr>sStr := t\<rparr>)) = aEvents st"
proof -
  let ?a = "st\<lparr>sStr := t\<rparr>" let ?b = "PositionToView s (- 1) a ?a"
  have c: "consistent ?a" using i by (simp add: selected_inv_def consistent_def)
  have w: "wf_editor (ed ?a)" "- 1 < NumLastLine (ed ?a)" using c by (simp_all add: consistent_def NumLastLine_def)
  note v = consistent_PositionToView [OF steady_refl [OF consistent_on_line [OF c]] w a, of s]
  have f: "aHist ?b = aHist st" "clip ?b = clip st" "crashed ?b = crashed st" "aEvents ?b = aEvents st" "bNotFound ?b = bNotFound st"
    by (simp_all add: PositionToView_def get_info_def SetPosition_def)
  show ?thesis using i v(1,4,5,6) f a n by (simp add: selected_inv_def carried_def)
qed

lemma start_search_ok: "startable st \<Longrightarrow> control_ok s st (start_search s st)"
proof -
  assume sa: "startable st"
  let ?a = "get_info (st\<lparr>bEscape := False, bTermEvent := False, aEvents := [], bNotFound := False, sStr := []\<rparr>)"
  note a = started [OF sa]
  have g: "selected_inv st (get_string s ?a)" by (rule selected_get_string [OF a(1)])
  have ge: "aEvents (get_string s ?a) = []" using a(4) by (simp add: get_string_def split: option.split)
  have "(\<exists>st2. use_selection s ?a = Outer st2 \<and> selected_inv st st2) \<or> (\<exists>r. use_selection s ?a = Done r \<and> control_ok s st (Done r))"
  proof (cases "\<not> bThisUseSelection s \<or> iBlockType (ei ?a) = BTYPE_NONE")
    case True
    then show ?thesis using a(1) no_block_ok [OF a(1) a(4), of s]
      by (cases "no_block s ?a") (auto simp: use_selection_def no_block_def split: if_splits)
  next
    case ns: False
    let ?g = "egs (get_string s ?a)"
    show ?thesis
    proof (cases "sSelStart ?g \<noteq> - 1 \<and> sSelStart ?g < StringLength ?g")
      case False
      then show ?thesis using ns g no_block_ok [OF g ge, of s]
        by (cases "no_block s (get_string s ?a)") (auto simp: use_selection_def no_block_def Let_def split: if_splits)
    next
      case True
      show ?thesis
      proof (cases "selected_part ?g")
        case None
        have e: "egs (get_string s st) = ?g"
          using a(2) by (simp add: get_string_def get_info_def split: option.split)
        have "crash_cause s st"
          using ns True None a(6) unfolding crash_cause_def reversed_selection_def e
          by (auto simp: selection_begins_def selected_part_def split: if_splits)
        then have "control_ok s st (Done (Crashed (get_string s ?a)))"
          using g ge by (auto simp: control_ok_def all_read_def crash_ok_def within_arrays_def selected_inv_def)
        then show ?thesis using ns True None by (auto simp: use_selection_def Let_def)
      next
        case (Some t)
        let ?p = "PositionToView s (- 1) (sSelStart ?g) ((get_string s ?a)\<lparr>sStr := t\<rparr>)"
        have n: "length t \<le> MAX_STR" by (rule selected_part_length [OF Some])
        have "wf_editor (ed ?a)" using a(1) by (simp add: selected_inv_def consistent_def)
        then have s0: "0 \<le> sSelStart ?g" using get_string_SelStart [of ?a s] True by linarith
        have p: "selected_inv st ?p" "aEvents ?p = []" using selected_text_ok [OF g s0 n, of s] ge by auto
        have "selected_inv st (put_flags KC_NEXT ?p)"
          using p by (simp add: selected_inv_def put_flags_def consistent_def carried_def PREVIEW_EVENTS_def MAX_STR_def)
        moreover have "use_selection s ?a = Outer (if bThisAutoNext s then put_flags KC_NEXT ?p else ?p)"
          using ns True Some by (simp add: use_selection_def Let_def)
        ultimately show ?thesis using p by auto
      qed
    qed
  qed
  then show ?thesis using show_selection_ok [of st _ s]
    by (auto simp: start_search_def control_ok_def)
qed

lemma show_selection_stop:
  assumes "bStopOnFound s" "\<not> bNotFound st"
  shows "aEvents (show_selection s st) = aEvents st" "bTermEvent (show_selection s st) = bTermEvent st" "sStr (show_selection s st) = sStr st"
  using assms by (simp_all add: show_selection_def ShowTitle_def set_title_def SelectFound_def Let_def)

text \<open>
  The commands that search for the selection have at most one command in the queue and no event that ends the search,
  so that no state is reached in which the first command is read from an empty queue.
\<close>

definition stop_ok :: "settings \<Rightarrow> control \<Rightarrow> bool" where
  "stop_ok s c \<longleftrightarrow> (case c of Done r \<Rightarrow> True
     | _ \<Rightarrow> bStopOnFound s \<longrightarrow> \<not> bTermEvent (state_of c) \<and> aEvents (state_of c) \<in> {[], [(KC_NEXT, 0)]})"

lemma stop_ok_inner:
  assumes s: "bStopOnFound s" and st: "stop_ok s (Inner st)" and c: "inner_step s st = Some c"
  shows "stop_ok s c"
proof (cases "aEvents st = []")
  case True
  then show ?thesis using s st c by (auto simp: stop_ok_def inner_step_def)
next
  case False
  then have q: "aEvents st = [(KC_NEXT, 0)]" "\<not> bTermEvent st" using s st by (auto simp: stop_ok_def)
  have cm: "command s (KC_NEXT, 0) st = do_next s KC_NEXT st" by (simp add: command_def kc_defs Let_def)
  obtain fail ret st1 where d: "do_next s KC_NEXT st = Some (fail, ret, st1)"
    using c q cm by (cases "do_next s KC_NEXT st") (auto simp: inner_step_def)
  then have "ret \<or> (\<not> fail \<and> st1 = st)" using s by (auto simp: do_next_def split: if_splits option.splits)
  then show ?thesis using c q cm d s by (auto simp: inner_step_def stop_ok_def dequeue_def split: if_splits)
qed

lemma stop_ok_step: "stop_ok s c \<Longrightarrow> control_step s c = Some c' \<Longrightarrow> stop_ok s c'"
proof (cases "bStopOnFound s")
  case True
  assume a: "stop_ok s c" "control_step s c = Some c'"
  show ?thesis
  proof (cases c)
    case (Inner st)
    then show ?thesis using stop_ok_inner [OF True] a by (simp add: control_step_def)
  next
    case (Outer st)
    then show ?thesis using a True by (auto simp: control_step_def outer_step_def stop_ok_def)
  next
    case (Done r)
    then show ?thesis using a by (simp add: control_step_def)
  qed
qed (simp add: stop_ok_def split: control.split)

lemma stop_ok_reach: "reach s c c' \<Longrightarrow> stop_ok s c \<Longrightarrow> stop_ok s c'"
  by (induction rule: reach.induct) (auto intro: stop_ok_step)

lemma PositionToView_same:
  "bNotFound (PositionToView s n p st) = bNotFound st" "bTermEvent (PositionToView s n p st) = bTermEvent st"
  "aEvents (PositionToView s n p st) = aEvents st"
  by (simp_all add: PositionToView_def get_info_def SetPosition_def)

lemma use_selection_queue:
  assumes "\<not> bNotFound a" "\<not> bTermEvent a" "aEvents a = []" "use_selection s a = Outer st"
  shows "\<not> bNotFound st \<and> \<not> bTermEvent st \<and> aEvents st \<in> {[], [(KC_NEXT, 0)]}"
proof -
  have g: "\<not> bNotFound (get_string s a)" "\<not> bTermEvent (get_string s a)" "aEvents (get_string s a) = []"
    using assms(1-3) by (simp_all add: get_string_def split: option.split)
  show ?thesis using assms g
    by (auto simp: use_selection_def no_block_def Let_def put_flags_def PositionToView_same split: if_splits option.splits)
qed

lemma stop_ok_start: "stop_ok s (start_search s st)"
proof (cases "bStopOnFound s")
  case s: True
  let ?a = "get_info (st\<lparr>bEscape := False, bTermEvent := False, aEvents := [], bNotFound := False, sStr := []\<rparr>)"
  have "use_selection s ?a \<noteq> Inner x" for x
    by (simp add: use_selection_def no_block_def Let_def split: option.split)
  moreover have "\<not> bNotFound st1 \<and> \<not> bTermEvent st1 \<and> aEvents st1 \<in> {[], [(KC_NEXT, 0)]}" if "use_selection s ?a = Outer st1" for st1
    by (rule use_selection_queue [OF _ _ _ that]) (simp_all add: get_info_def)
  ultimately show ?thesis using show_selection_stop [OF s]
    by (cases "use_selection s ?a") (auto simp: start_search_def stop_ok_def)
qed (simp add: stop_ok_def split: control.split)

lemma progress_step:
  assumes "control_ok s st0 c" "stop_ok s c"
  shows "control_step s c \<noteq> None"
proof (cases "bStopOnFound s")
  case True
  show ?thesis
  proof (cases c)
    case (Inner st)
    then have q: "\<not> bTermEvent st" "aEvents st \<in> {[], [(KC_NEXT, 0)]}" "loop_inv st"
      using assms True by (auto simp: stop_ok_def control_ok_def)
    obtain fail ret st1 where "command s (hd (aEvents st)) st = Some (fail, ret, st1)" using command_inv [OF q(3)] by blast
    then show ?thesis using Inner q(1) by (simp add: control_step_def inner_step_def)
  qed (simp_all add: control_step_def outer_step_def True)
next
  case False
  then show ?thesis using inner_step_rank [OF _ False] outer_step_rank [OF _ False] assms(1)
    by (cases c) (fastforce simp: control_step_def control_ok_def)+
qed

section \<open>Properties of the whole search\<close>

text \<open>
  C17. Whatever keys, mouse events and pasted text arrive, and in whatever portions: in every state that
  the search reaches the pattern, the queue of commands and the history are within their arrays (of 80, 80 and
  81 elements), the text of the editor is unchanged, and the next step is defined. It runs into undefined behaviour in
  two situations only: a command pastes from a clipboard that has no text, or the selected text that is to be searched
  for ends before it starts.
\<close>

theorem reachable_within_arrays:
  "startable st \<Longrightarrow> reach s (start_search s st) c \<Longrightarrow>
     within_arrays (state_of c) \<and> carried st (state_of c) \<and> \<not> crashed (state_of c) \<and> control_step s c \<noteq> None \<and>
     (\<forall>st'. c = Done (Crashed st') \<longrightarrow> crash_cause s st)"
proof -
  assume st: "startable st" and r: "reach s (start_search s st) c"
  have ok: "control_ok s st c" by (rule reach_ok [OF r start_search_ok [OF st]])
  have "stop_ok s c" by (rule stop_ok_reach [OF r stop_ok_start])
  then show ?thesis using control_ok_arrays [OF ok] progress_step [OF ok] ok by (auto simp: control_ok_def crash_ok_def)
qed

text \<open>
  C4. The search that reads input ends for every finite input: it returns, or it waits, and then it has read all
  events and obeyed all commands; it crashes only if the clipboard has no text or the selection to search for is
  reversed. One step more than the rank of its first state is enough fuel.
\<close>

theorem search_ends:
  "startable st \<Longrightarrow> \<not> bStopOnFound s \<Longrightarrow>
     \<exists>r. SearchLoopEditor (Suc (rank (start_search s st))) s st = Some r \<and> all_read r \<and>
       reach s (start_search s st) (Done r) \<and> texts (ed (final r)) = texts (ed st) \<and>
       (\<not> crash_cause s st \<longrightarrow> (\<exists>st'. r = Returned st' \<or> r = Waiting st'))"
proof -
  assume st: "startable st" and s: "\<not> bStopOnFound s"
  obtain r where r: "run (Suc (rank (start_search s st))) s (start_search s st) = Some r" "reach s (start_search s st) (Done r)"
    using run_ends [OF s start_search_ok [OF st]] by blast
  have "control_ok s st (Done r)" by (rule reach_ok [OF r(2) start_search_ok [OF st]])
  then show ?thesis using r by (cases r) (auto simp: SearchLoopEditor_def control_ok_def carried_def crash_ok_def)
qed

section \<open>Find next\<close>

text \<open>The commands that search for the selection run the loop without reading input.\<close>

lemma run_agree: "run n s c = Some r \<Longrightarrow> run m s c = Some r' \<Longrightarrow> r = r'"
proof (induction n arbitrary: m c)
  case (Suc n)
  then show ?case by (cases m; cases c) (auto split: option.splits)
qed simp

lemma selected_part_empty:
  assumes "selected_part g = Some t" "selection_begins g" "0 \<le> sSelStart g"
  shows "t = [] \<longleftrightarrow> selected_length g = 0"
  using assms by (auto simp: selected_part_def selection_begins_def StringLength_def split: if_splits)

definition spins :: "settings \<Rightarrow> control \<Rightarrow> bool" where
  "spins s c \<longleftrightarrow> (\<forall>c'. reach s c c' \<longrightarrow> (\<forall>r. c' \<noteq> Done r) \<and> control_step s c' \<noteq> None)"

text \<open>A loop that stands at an empty queue reads nothing and changes nothing.\<close>

lemma idle_spins:
  assumes s: "bStopOnFound s" and q: "aEvents st = []" "\<not> bTermEvent st" and c: "c = Inner st \<or> c = Outer st"
  shows "spins s c"
proof -
  have "c' = Inner st \<or> c' = Outer st" if "reach s c c'" for c'
    using that c by (induction rule: reach.induct) (use s q in \<open>auto simp: control_step_def inner_step_def outer_step_def\<close>)
  then have "(\<forall>r. c' \<noteq> Done r) \<and> control_step s c' \<noteq> None" if "reach s c c'" for c'
    using s q that by (fastforce simp: control_step_def inner_step_def outer_step_def)
  then show ?thesis by (auto simp: spins_def)
qed

lemma spins_step_back:
  assumes "control_step s c = Some c1" "spins s c1" "\<And>r. c \<noteq> Done r"
  shows "spins s c"
proof -
  have "c' = c \<or> reach s c1 c'" if "reach s c c'" for c'
    using that assms(1) by (induction rule: reach.induct) (auto intro: reach.intros)
  then show ?thesis using assms by (auto simp: spins_def)
qed

lemma spins_no_result: "spins s c \<Longrightarrow> run n s c = None"
proof (induction n arbitrary: c)
  case (Suc n)
  have nd: "\<And>r. c \<noteq> Done r" using Suc.prems reach_refl by (auto simp: spins_def)
  have "spins s c1" if "control_step s c = Some c1" for c1
    using Suc.prems reach_step_first [OF that] by (auto simp: spins_def)
  then show ?case using Suc.IH nd by (cases c) (auto split: option.split)
qed simp

lemma next_returns:
  assumes inv: "loop_inv st" and s: "bStopOnFound s" and q: "aEvents st = [(KC_NEXT, c)]" "\<not> bTermEvent st"
    and cr: "\<not> crashed st" "clip st \<noteq> NoText" and ne: "sStr st \<noteq> []"
  shows "\<exists>st'. run (Suc (Suc (Suc 0))) s (Outer st) = Some (Returned st')"
proof -
  obtain fail ret st' where d: "do_next s KC_NEXT st = Some (fail, ret, st')" "advance st st'" using do_next_inv [OF inv] by blast
  have ret: ret using d(1) s ne by (auto simp: do_next_def split: option.splits)
  have nc: "\<not> crashed st'" using d(2) cr by (auto simp: advance_def)
  have "command s (KC_NEXT, c) st = Some (fail, True, st')" using d(1) ret by (simp add: command_def kc_defs Let_def)
  then show ?thesis using s q nc by (simp add: control_step_def outer_step_def inner_step_def)
qed

lemma next_spins:
  assumes s: "bStopOnFound s" and q: "aEvents st = [(KC_NEXT, c)]" "\<not> bTermEvent st" and cr: "\<not> crashed st" and e: "sStr st = []"
  shows "spins s (Outer st)"
proof -
  have i: "spins s (Inner (st\<lparr>aEvents := []\<rparr>))" by (rule idle_spins [OF s, of "st\<lparr>aEvents := []\<rparr>"]) (use q in simp_all)
  have "control_step s (Inner st) = Some (Inner (st\<lparr>aEvents := []\<rparr>))"
    using e q cr by (simp add: control_step_def inner_step_def command_def do_next_def dequeue_def kc_defs Let_def)
  then have "spins s (Inner st)" by (rule spins_step_back [OF _ i]) simp
  moreover have "control_step s (Outer st) = Some (Inner st)" using s by (simp add: control_step_def outer_step_def)
  ultimately show ?thesis using spins_step_back [of s "Outer st" "Inner st"] by simp
qed

text \<open>
  C26. The commands that search for the selected text (find next, find previous) return exactly if nothing is
  marked, if the selection does not begin inside the current line, or if it has a character there. They crash exactly
  for a selection that begins inside the current line and ends before it begins there. For a selection
  that is empty in the current line, such as that of whole lines with the cursor at the start of the line
  behind them, and only for one, they spin for ever: every state that is reached has a next one, and none is an end.
  The clipboard is assumed to have a text, or none that can be opened.
\<close>

theorem find_next_returns_iff:
  assumes st: "startable st" and s: "bStopOnFound s" "bThisUseSelection s" "bThisAutoNext s"
    and g: "ectl_getstring (sView s) (- 1) (ed st) = Some g" and cl: "clip st \<noteq> NoText"
  defines "begins \<equiv> iBlockType (ectl_getinfo (ed st)) \<noteq> BTYPE_NONE \<and> selection_begins g"
  shows "((\<exists>n st'. SearchLoopEditor n s st = Some (Returned st')) \<longleftrightarrow> \<not> begins \<or> 0 < selected_length g) \<and>
    ((\<exists>n st'. SearchLoopEditor n s st = Some (Crashed st')) \<longleftrightarrow> begins \<and> selected_length g < 0) \<and>
    (spins s (start_search s st) \<longleftrightarrow> begins \<and> selected_length g = 0)"
proof -
  let ?a = "get_info (st\<lparr>bEscape := False, bTermEvent := False, aEvents := [], bNotFound := False, sStr := []\<rparr>)"
  let ?ret = "\<exists>n st'. SearchLoopEditor n s st = Some (Returned st')"
  let ?crash = "\<exists>n st'. SearchLoopEditor n s st = Some (Crashed st')"
  let ?spin = "spins s (start_search s st)"
  note a = started [OF st]
  have eg: "egs (get_string s ?a) = g" using g a(2) by (simp add: get_string_def get_info_def)
  have one: "run (Suc 0) s (Done r) = Some r" for r by simp
  have k1: False if r: ?ret and c: ?crash
  proof -
    obtain n m x y where "run n s (start_search s st) = Some (Returned x)" "run m s (start_search s st) = Some (Crashed y)"
      using r c unfolding SearchLoopEditor_def by blast
    then show False using run_agree by blast
  qed
  have k2: False if "?ret \<or> ?crash" and sp: ?spin
    using that(1) spins_no_result [OF sp] by (auto simp: SearchLoopEditor_def)
  consider "\<not> begins" | "begins" "selected_length g < 0" | "begins" "0 \<le> selected_length g" by linarith
  then show ?thesis
  proof cases
    case 1
    then have "\<exists>st'. start_search s st = Done (Returned st')"
      using s a(6) eg by (auto simp: start_search_def use_selection_def no_block_def Let_def selection_begins_def begins_def)
    then have ?ret using one unfolding SearchLoopEditor_def by metis
    then show ?thesis using 1 k1 k2 by blast
  next
    case 2
    then have "\<exists>st'. start_search s st = Done (Crashed st')"
      using s a(6) eg by (auto simp: start_search_def use_selection_def selected_part_def Let_def selection_begins_def begins_def)
    then have ?crash using one unfolding SearchLoopEditor_def by metis
    then show ?thesis using 2 k1 k2 by (metis less_asym less_irrefl)
  next
    case 3
    have "wf_editor (ed ?a)" using a(1) by (simp add: selected_inv_def consistent_def)
    then have s0: "0 \<le> sSelStart g" using get_string_SelStart [of ?a s] 3(1) by (simp add: eg begins_def selection_begins_def)
    obtain t where t: "selected_part g = Some t" using 3 by (simp add: selected_part_def)
    let ?p = "PositionToView s (- 1) (sSelStart g) ((get_string s ?a)\<lparr>sStr := t\<rparr>)"
    let ?c = "show_selection s (put_flags KC_NEXT ?p)"
    have c: "start_search s st = Outer ?c"
      using 3 s a(6) eg t by (simp add: start_search_def use_selection_def Let_def selection_begins_def begins_def)
    have ok: "control_ok s st (Outer ?c)" using start_search_ok [OF st, of s] c by simp
    then have inv: "loop_inv ?c" "\<not> crashed ?c" "clip ?c \<noteq> NoText" using cl by (auto simp: control_ok_def carried_def)
    have f: "\<not> bNotFound (put_flags KC_NEXT ?p)" "aEvents (put_flags KC_NEXT ?p) = [(KC_NEXT, 0)]"
      "\<not> bTermEvent (put_flags KC_NEXT ?p)" "sStr (put_flags KC_NEXT ?p) = t"
      by (simp_all add: put_flags_def PositionToView_def get_info_def SetPosition_def get_string_def split: option.split)
    note sh = show_selection_stop [OF s(1) f(1)]
    have len: "t = [] \<longleftrightarrow> selected_length g = 0" by (rule selected_part_empty [OF t]) (use 3 s0 in \<open>simp_all add: begins_def\<close>)
    show ?thesis
    proof (cases "t = []")
      case True
      have ?spin unfolding c by (rule next_spins [OF s(1)]) (use sh f inv True in simp_all)
      then show ?thesis using True len k2 3 by (metis less_irrefl)
    next
      case False
      have "\<exists>st'. run (Suc (Suc (Suc 0))) s (Outer ?c) = Some (Returned st')"
        by (rule next_returns [OF inv(1) s(1)]) (use sh f inv False in simp_all)
      then have ?ret unfolding SearchLoopEditor_def c by blast
      then show ?thesis using False len k1 k2 3 by (metis leD order_neq_le_trans)
    qed
  qed
qed

section \<open>Applications\<close>

lemma startable_demo: "startable demo_state"
  using wf_demo by (simp add: startable_def demo_state_def) (simp add: demo_editor_def)

lemma reachable_within_arrays_witness:
  "within_arrays (state_of (start_search demo_settings demo_state)) \<and>
   control_step demo_settings (start_search demo_settings demo_state) \<noteq> None"
  using reachable_within_arrays [OF startable_demo reach_refl] by blast

lemma search_ends_witness: "\<exists>n r. SearchLoopEditor n demo_settings demo_state = Some r \<and> all_read r"
  using search_ends [OF startable_demo, of demo_settings] by (auto simp: demo_settings_def)

text \<open>The second line is marked from its start to its start, as after marking the first one with the keyboard.\<close>

lemma find_next_returns_iff_witness:
  "spins (demo_settings\<lparr>bStopOnFound := True\<rparr>) (start_search (demo_settings\<lparr>bStopOnFound := True\<rparr>) demo_state)"
proof -
  let ?g = "\<lparr>StringText = [99, 97, 98], sSelStart = 0, sSelEnd = 0\<rparr>"
  have "ectl_getstring (sView (demo_settings\<lparr>bStopOnFound := True\<rparr>)) (- 1) (ed demo_state) = Some ?g"
    by (simp add: ectl_getstring_def GetStringByNumber_def string_selection_def GetRealSelection_def demo_state_def demo_editor_def)
  moreover have "iBlockType (ectl_getinfo (ed demo_state)) \<noteq> BTYPE_NONE" by (simp add: ectl_getinfo_def demo_state_def demo_editor_def)
  moreover have "selection_begins ?g" "selected_length ?g = 0" "clip demo_state \<noteq> NoText"
    by (simp_all add: selection_begins_def selected_length_def StringLength_def MAX_STR_def demo_state_def)
  ultimately show ?thesis
    using find_next_returns_iff [OF startable_demo, of "demo_settings\<lparr>bStopOnFound := True\<rparr>" ?g] by (simp add: demo_settings_def)
qed

text \<open>A character above 255 is cut to its low byte: the Cyrillic letter 0x430 is searched as the digit 0.\<close>

lemma AsciiChar_cut: "AsciiChar \<lparr>bKeyDown = True, wRepeatCount = 1, wVirtualKeyCode = 0x46, UnicodeChar = 0x430, dwControlKeyState = 0\<rparr> = 0x30"
  by (simp add: AsciiChar_def)

text \<open>A repetition of the command for the previous occurrence has one more flag, and searches for the next one.\<close>

lemma repeated_previous: "KC_PREV OR KC_FAILKILL \<noteq> KC_PREV \<and> (KC_PREV OR KC_FAILKILL) AND NOT KC_FAILKILL = KC_PREV"
  by (simp add: kc_defs)

end
