(* ===== verification/StrMap.thy ===== *)
theory StrMap
  imports WineSort
begin

text \<open>
  The string functions over the character tables: \<^verbatim>\<open>WinPort/src/APIStringMap.cpp\<close> and the inline functions
  of \<^verbatim>\<open>far/src/locale/locale.hpp\<close> that the program calls. A pointer to characters is the list of the cells
  behind it with the terminator in them, \<open>None\<close> stands for NULL, and a result \<open>None\<close> for an access
  outside the cells. The functions of the C library are an argument.
\<close>

section \<open>Types and flags\<close>

record libc =
  towupper :: "wchar \<Rightarrow> wchar"
  towlower :: "wchar \<Rightarrow> wchar"
  iswspace :: "wchar \<Rightarrow> bool"
  iswpunct :: "wchar \<Rightarrow> bool"
  iswlower :: "wchar \<Rightarrow> bool"
  iswupper :: "wchar \<Rightarrow> bool"
  iswalnum :: "wchar \<Rightarrow> bool"
  iswalpha :: "wchar \<Rightarrow> bool"

datatype win_error = ERROR_INVALID_PARAMETER | ERROR_INVALID_FLAGS | ERROR_INSUFFICIENT_BUFFER

text \<open>Where a mapped string goes: nowhere, over its source, or to another buffer.\<close>

datatype dest = Null_Dest | Source_Dest | Wide_Dest "wchar list" | Narrow_Dest bytes

text \<open>The returned number, the error that has been set, the cells of the source and the destination.\<close>

type_synonym map_result = "nat \<times> win_error option \<times> wchar list \<times> dest"

definition LCMAP_LOWERCASE :: u32 where "LCMAP_LOWERCASE = 0x100"
definition LCMAP_UPPERCASE :: u32 where "LCMAP_UPPERCASE = 0x200"
definition LCMAP_SORTKEY :: u32 where "LCMAP_SORTKEY = 0x400"
definition LCMAP_HIRAGANA :: u32 where "LCMAP_HIRAGANA = 0x100000"
definition LCMAP_KATAKANA :: u32 where "LCMAP_KATAKANA = 0x200000"
definition LCMAP_HALFWIDTH :: u32 where "LCMAP_HALFWIDTH = 0x400000"
definition LCMAP_FULLWIDTH :: u32 where "LCMAP_FULLWIDTH = 0x800000"
definition LCMAP_SIMPLIFIED_CHINESE :: u32 where "LCMAP_SIMPLIFIED_CHINESE = 0x2000000"
definition LCMAP_TRADITIONAL_CHINESE :: u32 where "LCMAP_TRADITIONAL_CHINESE = 0x4000000"

definition C1_LOWER :: u16 where "C1_LOWER = 0x2"
definition C1_ALPHA :: u16 where "C1_ALPHA = 0x100"

definition wcslen :: "wchar list \<Rightarrow> nat option" where
  "wcslen s = (if 0 \<in> set s then Some (length (takeWhile (\<lambda>c. c \<noteq> 0) s)) else None)"

section \<open>Case mapping\<close>

definition bmp_char :: "wchar \<Rightarrow> bool" where
  "bmp_char wch \<longleftrightarrow> wch \<le> 0xffff"

definition left_out :: "libc \<Rightarrow> sort_tables \<Rightarrow> u32 \<Rightarrow> wchar \<Rightarrow> bool option" where
  "left_out C T flags wch =
     (if \<not> has_flag flags NORM_IGNORESYMBOLS then Some False
      else if bmp_char wch then is_symbol T wch
      else Some (iswspace C wch \<or> iswpunct C wch))"

definition map_upper :: "libc \<Rightarrow> sort_tables \<Rightarrow> wchar \<Rightarrow> wchar option" where
  "map_upper C T wch = (if bmp_char wch then toupperW T wch else Some (towupper C wch))"

definition map_lower :: "libc \<Rightarrow> sort_tables \<Rightarrow> wchar \<Rightarrow> wchar option" where
  "map_lower C T wch = (if bmp_char wch then tolowerW T wch else Some (towlower C wch))"

fun lc_count :: "(wchar \<Rightarrow> bool option) \<Rightarrow> wchar list \<Rightarrow> nat \<Rightarrow> nat \<Rightarrow> nat \<Rightarrow> nat option" where
  "lc_count skip src i 0 len = Some len"
| "lc_count skip src i (Suc srclen) len =
     do { wch \<leftarrow> rd src i; s \<leftarrow> skip wch; lc_count skip src (i + 1) srclen (if s then len else len + 1) }"

text \<open>The loops that write: the characters left, the cells written, and the buffer; in place, reads and writes share it.\<close>

fun lc_loop :: "(wchar \<Rightarrow> bool option) \<Rightarrow> (wchar \<Rightarrow> wchar option) \<Rightarrow> wchar list \<Rightarrow> nat \<Rightarrow> nat \<Rightarrow> wchar list \<Rightarrow> nat \<Rightarrow> nat \<Rightarrow>
    (nat \<times> nat \<times> wchar list) option" where
  "lc_loop skip cv src i 0 dst j dstlen = Some (0, j, dst)"
| "lc_loop skip cv src i (Suc srclen) dst j dstlen =
     (if dstlen = 0 then Some (Suc srclen, j, dst)
      else do { wch \<leftarrow> rd src i; s \<leftarrow> skip wch;
                if s then lc_loop skip cv src (i + 1) srclen dst j dstlen
                else do { c \<leftarrow> cv wch; dst \<leftarrow> wr dst j c; lc_loop skip cv src (i + 1) srclen dst (j + 1) (dstlen - 1) } })"

fun lc_loop_in_place :: "(wchar \<Rightarrow> bool option) \<Rightarrow> (wchar \<Rightarrow> wchar option) \<Rightarrow> wchar list \<Rightarrow> nat \<Rightarrow> nat \<Rightarrow> nat \<Rightarrow> nat \<Rightarrow>
    (nat \<times> nat \<times> wchar list) option" where
  "lc_loop_in_place skip cv buf i 0 j dstlen = Some (0, j, buf)"
| "lc_loop_in_place skip cv buf i (Suc srclen) j dstlen =
     (if dstlen = 0 then Some (Suc srclen, j, buf)
      else do { wch \<leftarrow> rd buf i; s \<leftarrow> skip wch;
                if s then lc_loop_in_place skip cv buf (i + 1) srclen j dstlen
                else do { c \<leftarrow> cv wch; buf \<leftarrow> wr buf j c;
                          lc_loop_in_place skip cv buf (i + 1) srclen (j + 1) (dstlen - 1) } })"

definition failed :: "win_error \<Rightarrow> wchar list \<Rightarrow> dest \<Rightarrow> map_result" where
  "failed e src d = (0, Some e, src, d)"

text \<open>The end of \<open>LCMapStringEx\<close>: characters that are left are an error.\<close>

definition lc_end :: "nat \<Rightarrow> nat \<Rightarrow> wchar list \<Rightarrow> dest \<Rightarrow> map_result" where
  "lc_end left written src d = (if left \<noteq> 0 then failed ERROR_INSUFFICIENT_BUFFER src d else (written, None, src, d))"

definition lc_write :: "(wchar \<Rightarrow> bool option) \<Rightarrow> (wchar \<Rightarrow> wchar option) \<Rightarrow> wchar list \<Rightarrow> nat \<Rightarrow> dest \<Rightarrow> nat \<Rightarrow> map_result option" where
  "lc_write skip cv src srclen d dstlen =
     (case d of
        Wide_Dest dst \<Rightarrow>
          do { (left, j, dst) \<leftarrow> lc_loop skip cv src 0 srclen dst 0 dstlen; Some (lc_end left j src (Wide_Dest dst)) }
      | Source_Dest \<Rightarrow>
          do { (left, j, src) \<leftarrow> lc_loop_in_place skip cv src 0 srclen 0 dstlen; Some (lc_end left j src Source_Dest) }
      | _ \<Rightarrow> None)"

text \<open>The branch for sort keys: the destination is a buffer of bytes.\<close>

definition lc_sortkey :: "sort_tables \<Rightarrow> u32 \<Rightarrow> wchar list \<Rightarrow> int \<Rightarrow> dest \<Rightarrow> nat \<Rightarrow> map_result option" where
  "lc_sortkey T flags src srclen d dstlen =
     (if d = Source_Dest then Some (failed ERROR_INVALID_FLAGS src d)
      else do {
        n \<leftarrow> (if srclen < 0 then wcslen src else Some (nat srclen));
        if length src < n then None
        else (case d of
            Null_Dest \<Rightarrow> do { (ret, _) \<leftarrow> wine_get_sortkey T flags (take n src) []; Some (ret + 1, None, src, d) }
          | Narrow_Dest dst \<Rightarrow>
              if length dst < dstlen then None
              else do { (ret, key) \<leftarrow> wine_get_sortkey T flags (take n src) (take dstlen dst);
                        let d = Narrow_Dest (key @ drop dstlen dst) in
                        Some (if ret = 0 then failed ERROR_INSUFFICIENT_BUFFER src d else (ret + 1, None, src, d)) }
          | _ \<Rightarrow> None) })"

definition both_flags :: "u32 \<Rightarrow> u32 \<Rightarrow> u32 \<Rightarrow> bool" where
  "both_flags flags a b \<longleftrightarrow> flags AND (a OR b) = a OR b"

definition LCMapStringEx :: "libc \<Rightarrow> sort_tables \<Rightarrow> u32 \<Rightarrow> wchar list option \<Rightarrow> int \<Rightarrow> dest \<Rightarrow> int \<Rightarrow> map_result option" where
  "LCMapStringEx C T flags osrc srclen d dstlen =
     (case osrc of
        None \<Rightarrow> Some (failed ERROR_INVALID_PARAMETER [] d)
      | Some src \<Rightarrow>
          if srclen = 0 \<or> dstlen < 0 then Some (failed ERROR_INVALID_PARAMETER src d)
          else if both_flags flags LCMAP_LOWERCASE LCMAP_UPPERCASE \<or> both_flags flags LCMAP_HIRAGANA LCMAP_KATAKANA \<or>
            both_flags flags LCMAP_HALFWIDTH LCMAP_FULLWIDTH \<or>
            both_flags flags LCMAP_TRADITIONAL_CHINESE LCMAP_SIMPLIFIED_CHINESE then Some (failed ERROR_INVALID_FLAGS src d)
          else
            let to = (if dstlen = 0 then Null_Dest else d); skip = left_out C T flags in
            if has_flag flags LCMAP_SORTKEY then lc_sortkey T flags src srclen to (nat dstlen)
            else if has_flag flags SORT_STRINGSORT then Some (failed ERROR_INVALID_FLAGS src d)
            else do {
              n \<leftarrow> (if srclen < 0 then map_option Suc (wcslen src) else Some (nat srclen));
              if to = Null_Dest then do { len \<leftarrow> lc_count skip src 0 n 0; Some (len, None, src, d) }
              else if has_flag flags LCMAP_UPPERCASE then lc_write skip (map_upper C T) src n to (nat dstlen)
              else if has_flag flags LCMAP_LOWERCASE then lc_write skip (map_lower C T) src n to (nat dstlen)
              else if to = Source_Dest then Some (failed ERROR_INVALID_FLAGS src d)
              else lc_write skip Some src n to (nat dstlen) })"

definition LCMapString :: "libc \<Rightarrow> sort_tables \<Rightarrow> u32 \<Rightarrow> wchar list option \<Rightarrow> int \<Rightarrow> dest \<Rightarrow> int \<Rightarrow> map_result option" where
  "LCMapString C T flags src srclen d dstlen = LCMapStringEx C T flags src srclen d dstlen"

text \<open>The result of the buffer functions: the returned length and the cells behind the pointer.\<close>

definition map_buff :: "libc \<Rightarrow> sort_tables \<Rightarrow> u32 \<Rightarrow> wchar list option \<Rightarrow> u32 \<Rightarrow> (nat \<times> wchar list) option" where
  "map_buff C T flag str len =
     (case str of None \<Rightarrow> Some (0, [])
      | Some buf \<Rightarrow> do { (n, _, buf, _) \<leftarrow> LCMapString C T flag (Some buf) (sint len) Source_Dest (sint len); Some (n, buf) })"

definition CharLowerBuff :: "libc \<Rightarrow> sort_tables \<Rightarrow> wchar list option \<Rightarrow> u32 \<Rightarrow> (nat \<times> wchar list) option" where
  "CharLowerBuff C T str len = map_buff C T LCMAP_LOWERCASE str len"

definition CharUpperBuff :: "libc \<Rightarrow> sort_tables \<Rightarrow> wchar list option \<Rightarrow> u32 \<Rightarrow> (nat \<times> wchar list) option" where
  "CharUpperBuff C T str len = map_buff C T LCMAP_UPPERCASE str len"

text \<open>The argument of \<open>CharLower\<close> and \<open>CharUpper\<close> is a string or, as a small number, a character.\<close>

definition CharLower :: "libc \<Rightarrow> sort_tables \<Rightarrow> u16 + wchar list \<Rightarrow> (wchar + wchar list) option" where
  "CharLower C T str =
     (case str of
        Inl ch \<Rightarrow> do { (_, b) \<leftarrow> CharLowerBuff C T (Some [ucast ch]) 1; Some (Inl (hd b)) }
      | Inr s \<Rightarrow> do { n \<leftarrow> wcslen s; (_, b) \<leftarrow> CharLowerBuff C T (Some s) (of_nat n); Some (Inr b) })"

definition CharUpper :: "libc \<Rightarrow> sort_tables \<Rightarrow> u16 + wchar list \<Rightarrow> (wchar + wchar list) option" where
  "CharUpper C T str =
     (case str of
        Inl ch \<Rightarrow> do { (_, b) \<leftarrow> CharUpperBuff C T (Some [ucast ch]) 1; Some (Inl (hd b)) }
      | Inr s \<Rightarrow> do { n \<leftarrow> wcslen s; (_, b) \<leftarrow> CharUpperBuff C T (Some s) (of_nat n); Some (Inr b) })"

section \<open>Character types\<close>

definition type2_map :: "u16 list" where
  "type2_map = [0, 1, 2, 3, 4, 5, 6, 7, 8, 9, 0xa, 0xb, 2, 0, 0, 0xb]"

definition in_block :: "wchar \<Rightarrow> wchar \<Rightarrow> wchar \<Rightarrow> u16 \<Rightarrow> u16" where
  "in_block lo hi c t = (if lo \<le>s c \<and> c \<le>s hi then t else 0)"

definition ctype3 :: "wchar \<Rightarrow> u16 \<Rightarrow> u16" where
  "ctype3 c type1 =
     (if type1 AND C1_SPACE \<noteq> 0 then 0x8 else 0) OR (if type1 AND C1_ALPHA \<noteq> 0 then 0x8000 else 0) OR
     in_block 0x30A0 0x30FF c 0x10 OR in_block 0x3040 0x309F c 0x20 OR in_block 0x4E00 0x9FAF c 0x100 OR
     (if c = 0x0640 then 0x200 else 0) OR in_block 0x3000 0x303F c 0x8 OR
     in_block 0xD800 0xDBFF c 0x800 OR in_block 0xDC00 0xDFFF c 0x1000 OR
     in_block 0xFF00 0xFF60 c 0x80 OR in_block 0xFF00 0xFF20 c 0x8 OR in_block 0xFF3B 0xFF40 c 0x8 OR
     in_block 0xFF5B 0xFF60 c 0x8 OR in_block 0xFF21 0xFF3A c 0x8000 OR in_block 0xFF41 0xFF5A c 0x8000 OR
     in_block 0xFFE0 0xFFE6 c 0x80 OR in_block 0xFFE0 0xFFE6 c 0x8 OR
     in_block 0xFF61 0xFFDC c 0x40 OR in_block 0xFF61 0xFF64 c 0x8 OR in_block 0xFF65 0xFF9F c 0x10 OR
     in_block 0xFF65 0xFF9F c 0x8000 OR in_block 0xFFE8 0xFFEE c 0x40 OR in_block 0xFFE8 0xFFEE c 0x8"

definition char_type :: "sort_tables \<Rightarrow> nat \<Rightarrow> wchar \<Rightarrow> u16 option" where
  "char_type T type c =
     do { t \<leftarrow> get_char_typeW T c;
          if type = 1 then Some (t AND 0xfff)
          else if type = 2 then rd type2_map (unat (drop_bit 12 t))
          else Some (ctype3 c (t AND 0xfff)) }"

fun char_types :: "sort_tables \<Rightarrow> nat \<Rightarrow> wchar list \<Rightarrow> nat \<Rightarrow> nat \<Rightarrow> u16 list option" where
  "char_types T type src i 0 = Some []"
| "char_types T type src i (Suc count) =
     do { c \<leftarrow> rd src i; t \<leftarrow> char_type T type c; ts \<leftarrow> char_types T type src (i + 1) count; Some (t # ts) }"

text \<open>The types written, or an error; a count below -1 runs over the end of the buffer.\<close>

definition GetStringType :: "sort_tables \<Rightarrow> nat \<Rightarrow> wchar list option \<Rightarrow> int \<Rightarrow> (win_error + u16 list) option" where
  "GetStringType T type osrc count =
     (case osrc of
        None \<Rightarrow> Some (Inl ERROR_INVALID_PARAMETER)
      | Some src \<Rightarrow>
          if count < -1 then None
          else do {
            n \<leftarrow> (if count = -1 then map_option Suc (wcslen src) else Some (nat count));
            if type = 1 \<or> type = 2 \<or> type = 4 then do { ts \<leftarrow> char_types T type src 0 n; Some (Inr ts) }
            else Some (Inl ERROR_INVALID_PARAMETER) })"

definition is_char :: "sort_tables \<Rightarrow> (wchar \<Rightarrow> bool) \<Rightarrow> u16 \<Rightarrow> wchar \<Rightarrow> bool option" where
  "is_char T wide bits ch =
     (if bmp_char ch then
        do { r \<leftarrow> GetStringType T 1 (Some [ch]) 1;
             (case r of Inl _ \<Rightarrow> Some False | Inr ts \<Rightarrow> do { t \<leftarrow> rd ts 0; Some (t AND bits \<noteq> 0) }) }
      else Some (wide ch))"

definition IsCharLower :: "libc \<Rightarrow> sort_tables \<Rightarrow> wchar \<Rightarrow> bool option" where
  "IsCharLower C T ch = is_char T (iswlower C) C1_LOWER ch"

definition IsCharUpper :: "libc \<Rightarrow> sort_tables \<Rightarrow> wchar \<Rightarrow> bool option" where
  "IsCharUpper C T ch = is_char T (iswupper C) C1_UPPER ch"

definition IsCharAlphaNumeric :: "libc \<Rightarrow> sort_tables \<Rightarrow> wchar \<Rightarrow> bool option" where
  "IsCharAlphaNumeric C T ch = is_char T (iswalnum C) (C1_ALPHA OR C1_DIGIT) ch"

definition IsCharAlpha :: "libc \<Rightarrow> sort_tables \<Rightarrow> wchar \<Rightarrow> bool option" where
  "IsCharAlpha C T ch = is_char T (iswalpha C) C1_ALPHA ch"

section \<open>Comparison\<close>

definition supported_flags :: u32 where
  "supported_flags = NORM_IGNORECASE OR NORM_IGNORENONSPACE OR NORM_IGNORESYMBOLS OR SORT_STRINGSORT OR
     0x10000 OR 0x20000 OR 0x40000000"

definition semistub_flags :: u32 where
  "semistub_flags = 0x08000000 OR 0x10 OR 0x10000000"

definition known_flags :: "u32 \<Rightarrow> bool" where
  "known_flags flags \<longleftrightarrow> flags AND NOT (supported_flags OR semistub_flags) = 0"

text \<open>The characters that a comparison may read: with a negative length up to the terminator.\<close>

definition compared :: "u32 \<Rightarrow> wchar list \<Rightarrow> int \<Rightarrow> wchar list option" where
  "compared flags str len =
     (if len < 0 then do { n \<leftarrow> wcslen str; Some (take n str) }
      else if nat len \<le> length str \<or> has_flag flags NORM_STOP_ON_NULL \<and> 0 \<in> set str then Some (take (nat len) str)
      else None)"

definition CompareStringEx :: "sort_tables \<Rightarrow> u32 \<Rightarrow> wchar list option \<Rightarrow> int \<Rightarrow> wchar list option \<Rightarrow> int \<Rightarrow>
    (win_error + int) option" where
  "CompareStringEx T flags str1 len1 str2 len2 =
     (case (str1, str2) of
        (Some s1, Some s2) \<Rightarrow>
          if \<not> known_flags flags then Some (Inl ERROR_INVALID_FLAGS)
          else do { s1 \<leftarrow> compared flags s1 len1; s2 \<leftarrow> compared flags s2 len2;
                    ret \<leftarrow> wine_compare_string T flags s1 s2;
                    Some (Inr (if ret \<noteq> 0 then (if ret < 0 then 1 else 3) else 2)) }
      | _ \<Rightarrow> Some (Inl ERROR_INVALID_PARAMETER))"

definition CompareString :: "sort_tables \<Rightarrow> u32 \<Rightarrow> wchar list option \<Rightarrow> int \<Rightarrow> wchar list option \<Rightarrow> int \<Rightarrow> int option" where
  "CompareString T flags str1 len1 str2 len2 =
     do { r \<leftarrow> CompareStringEx T flags str1 len1 str2 len2; Some (case r of Inl _ \<Rightarrow> 0 | Inr n \<Rightarrow> n) }"

section \<open>The functions of the program\<close>

text \<open>
  Here a string is the list of its characters, without a NUL; \<open>string_cells\<close> adds the terminator.
\<close>

definition string_cells :: "wchar list \<Rightarrow> wchar list option" where
  "string_cells s = Some (s @ [0])"

definition StrCmp :: "sort_tables \<Rightarrow> wchar list \<Rightarrow> wchar list \<Rightarrow> int option" where
  "StrCmp T s1 s2 = do { r \<leftarrow> CompareString T SORT_STRINGSORT (string_cells s1) (-1) (string_cells s2) (-1); Some (r - 2) }"

definition StrCmpI :: "sort_tables \<Rightarrow> wchar list \<Rightarrow> wchar list \<Rightarrow> int option" where
  "StrCmpI T s1 s2 =
     do { r \<leftarrow> CompareString T (NORM_IGNORECASE OR SORT_STRINGSORT) (string_cells s1) (-1) (string_cells s2) (-1); Some (r - 2) }"

definition StrCmpNN :: "sort_tables \<Rightarrow> wchar list \<Rightarrow> int \<Rightarrow> wchar list \<Rightarrow> int \<Rightarrow> int option" where
  "StrCmpNN T s1 n1 s2 n2 =
     do { r \<leftarrow> CompareString T (NORM_STOP_ON_NULL OR SORT_STRINGSORT) (string_cells s1) n1 (string_cells s2) n2; Some (r - 2) }"

definition StrCmpNNI :: "sort_tables \<Rightarrow> wchar list \<Rightarrow> int \<Rightarrow> wchar list \<Rightarrow> int \<Rightarrow> int option" where
  "StrCmpNNI T s1 n1 s2 n2 =
     do { r \<leftarrow> CompareString T (NORM_IGNORECASE OR NORM_STOP_ON_NULL OR SORT_STRINGSORT) (string_cells s1) n1 (string_cells s2) n2;
          Some (r - 2) }"

definition StrCmpN :: "sort_tables \<Rightarrow> wchar list \<Rightarrow> wchar list \<Rightarrow> int \<Rightarrow> int option" where
  "StrCmpN T s1 s2 n = StrCmpNN T s1 n s2 n"

definition StrCmpNI :: "sort_tables \<Rightarrow> wchar list \<Rightarrow> wchar list \<Rightarrow> int \<Rightarrow> int option" where
  "StrCmpNI T s1 s2 n = StrCmpNNI T s1 n s2 n"

definition IsSpace :: "wchar \<Rightarrow> bool" where
  "IsSpace x \<longleftrightarrow> x = 0x20 \<or> x = 0x9 \<or> x = 0x3000"

definition IsEol :: "wchar \<Rightarrow> bool" where
  "IsEol x \<longleftrightarrow> x = 0xd \<or> x = 0xa"

definition IsSpaceOrEos :: "wchar \<Rightarrow> bool" where
  "IsSpaceOrEos x \<longleftrightarrow> x = 0 \<or> IsSpace x"

definition Upper :: "libc \<Rightarrow> sort_tables \<Rightarrow> wchar \<Rightarrow> wchar option" where
  "Upper C T ch =
     (if ch AND 0x7f = ch then Some (if 0x61 \<le> ch \<and> ch \<le> 0x7a then ch - 0x20 else ch)
      else do { (_, b) \<leftarrow> CharUpperBuff C T (Some [ch]) 1; rd b 0 })"

definition Lower :: "libc \<Rightarrow> sort_tables \<Rightarrow> wchar \<Rightarrow> wchar option" where
  "Lower C T ch =
     (if ch AND 0x7f = ch then Some (if 0x41 \<le> ch \<and> ch \<le> 0x5a then ch + 0x20 else ch)
      else do { (_, b) \<leftarrow> CharLowerBuff C T (Some [ch]) 1; rd b 0 })"

section \<open>Case mapping in place\<close>

text \<open>
  In place the destination follows the source and never overtakes it, so the result is the one of separate buffers.
\<close>

lemma lc_loop_agrees:
  "lc_loop skip cv src i n dst j d = Some (left, j', out) \<Longrightarrow> j \<le> i \<Longrightarrow> take j buf = take j dst \<Longrightarrow> drop i buf = drop i src \<Longrightarrow>
   length buf = length src \<Longrightarrow>
   \<exists>out'. lc_loop_in_place skip cv buf i n j d = Some (left, j', out') \<and> length out' = length buf \<and> take j' out' = take j' out"
proof (induction skip cv buf i n j d arbitrary: dst rule: lc_loop_in_place.induct)
  case (1 skip cv buf i j d)
  then show ?case by simp
next
  case (2 skip cv buf i n j d)
  show ?case
  proof (cases "d = 0")
    case True
    then show ?thesis using 2(3,5) by auto
  next
    case False
    obtain wch s where w: "rd src i = Some wch" "skip wch = Some s" using 2(3) False by (auto simp: bind_eq_Some_conv)
    have i: "i < length src" using w(1) by (simp add: rd_eq_Some)
    have "buf ! i = src ! i" using 2(6,7) i by (metis nth_via_drop Cons_nth_drop_Suc)
    then have b: "rd buf i = Some wch" using w(1) 2(7) by (simp add: rd_eq_Some)
    have dr: "drop (i + 1) buf = drop (i + 1) src" using 2(6) by (metis drop_drop add.commute)
    show ?thesis
    proof (cases s)
      case True
      then have "lc_loop skip cv src (i + 1) n dst j d = Some (left, j', out)" using 2(3) False w by simp
      from 2(1) [OF False b w(2) True this _ 2(5) dr 2(7)] 2(4) False b w(2) True show ?thesis by auto
    next
      case ns: False
      obtain c dst' where c: "cv wch = Some c" "wr dst j c = Some dst'"
        "lc_loop skip cv src (i + 1) n dst' (j + 1) (d - 1) = Some (left, j', out)"
        using 2(3) False w ns by (auto simp: bind_eq_Some_conv)
      let ?buf = "splice buf j [c]"
      have j: "j < length buf" "j < length dst" "dst' = splice dst j [c]" using 2(4,7) i c(2) by (auto simp: wr_eq_Some)
      have t: "take (j + 1) ?buf = take (j + 1) dst'" using j 2(5) by (simp add: splice_def)
      have "drop (i + 1) ?buf = drop (i + 1) buf" using 2(4) j(1) by (simp add: splice_def min_absorb2 Suc_diff_le)
      then have "drop (i + 1) ?buf = drop (i + 1) src" using dr by simp
      then have "\<exists>out'. lc_loop_in_place skip cv ?buf (i + 1) n (j + 1) (d - 1) = Some (left, j', out') \<and>
          length out' = length ?buf \<and> take j' out' = take j' out"
        using 2(2) [OF False b w(2) ns c(1) _ c(3) _ t] 2(4,7) j(1) by simp
      then show ?thesis using False b w(2) ns c(1) j(1) by auto
    qed
  qed
qed

text \<open>What the loop writes if no lookup fails and there is room: the converted characters that are not left out.\<close>

lemma lc_loop_maps:
  assumes "\<And>c. c \<in> set (take n (drop i src)) \<Longrightarrow> skip c = Some (sk c) \<and> cv c = Some (f c)"
    and "i + n \<le> length src"
  defines "out \<equiv> map f (filter (\<lambda>c. \<not> sk c) (take n (drop i src)))"
  assumes "j + length out \<le> length dst" and "n \<le> d"
  shows "lc_loop skip cv src i n dst j d = Some (0, j + length out, splice dst j out)"
  using assms(1,2,4-) unfolding out_def
proof (induction skip cv src i n dst j d rule: lc_loop.induct)
  case (1 skip cv src i dst j d)
  then show ?case by simp
next
  case (2 skip cv src i n dst j d)
  have i: "i < length src" using 2(4) by simp
  have t: "take (Suc n) (drop i src) = src ! i # take n (drop (Suc i) src)"
    using i by (simp add: drop_nth_Cons)
  have h: "skip (src ! i) = Some (sk (src ! i)) \<and> cv (src ! i) = Some (f (src ! i))" using 2(3) by (simp add: t)
  have r: "skip c = Some (sk c) \<and> cv c = Some (f c)" if "c \<in> set (take n (drop (i + 1) src))" for c
    using 2(3) that by (simp add: t)
  have d: "d \<noteq> 0" using 2(6) by simp
  show ?case
  proof (cases "sk (src ! i)")
    case True
    then show ?thesis using 2(1) [OF d rd_Some [OF i] _ _ r] h i d 2(4-6) by (simp add: t)
  next
    case False
    then have j: "j < length dst" using 2(5) by (simp add: t)
    have "lc_loop skip cv src (i + 1) n (splice dst j [f (src ! i)]) (j + 1) (d - 1) =
        Some (0, (j + 1) + length (map f (filter (\<lambda>c. \<not> sk c) (take n (drop (i + 1) src)))),
          splice (splice dst j [f (src ! i)]) (j + 1) (map f (filter (\<lambda>c. \<not> sk c) (take n (drop (i + 1) src)))))"
      using 2(2) [OF d rd_Some [OF i] _ _ _ _ r] h j 2(4-6) False by (simp add: t)
    then show ?thesis using h i d j False 2(5) by (simp add: t)
  qed
qed

definition upcase :: "libc \<Rightarrow> sort_tables \<Rightarrow> wchar \<Rightarrow> wchar" where
  "upcase C T c = the (map_upper C T c)"

definition downcase :: "libc \<Rightarrow> sort_tables \<Rightarrow> wchar \<Rightarrow> wchar" where
  "downcase C T c = the (map_lower C T c)"

text \<open>Tables of the case mappings with no access outside an array.\<close>

definition case_tables_ok :: "sort_tables \<Rightarrow> bool" where
  "case_tables_ok T \<longleftrightarrow> full_table (casemap_lower T) \<and> full_table (casemap_upper T)"

lemma map_case_Some:
  assumes "case_tables_ok T"
  shows "map_upper C T c = Some (upcase C T c)" "map_lower C T c = Some (downcase C T c)"
proof -
  have "\<exists>u. map_upper C T c = Some u"
    using full_table_Some [of "casemap_upper T" "ucast (ucast c :: u16)"] assms
    by (auto simp: map_upper_def toupperW_def case_tables_ok_def)
  moreover have "\<exists>u. map_lower C T c = Some u"
    using full_table_Some [of "casemap_lower T" "ucast (ucast c :: u16)"] assms
    by (auto simp: map_lower_def tolowerW_def case_tables_ok_def)
  ultimately show "map_upper C T c = Some (upcase C T c)" "map_lower C T c = Some (downcase C T c)"
    by (auto simp: upcase_def downcase_def)
qed

lemma lc_loop_all:
  assumes "\<And>c. cv c = Some (f c)" and "n \<le> length src"
  shows "lc_loop (\<lambda>_. Some False) cv src 0 n src 0 n = Some (0, n, map f (take n src) @ drop n src)"
  using lc_loop_maps [of n 0 src "\<lambda>_. Some False" "\<lambda>_. False" cv f 0 src n] assms
  by (simp add: splice_start min_absorb2)

lemma lc_loop_in_place_all:
  assumes "\<And>c. cv c = Some (f c)" and "n \<le> length src"
  shows "\<exists>out. lc_loop_in_place (\<lambda>_. Some False) cv src 0 n 0 n = Some (0, n, out) \<and> length out = length src \<and>
    take n out = map f (take n src)"
  using lc_loop_agrees [OF lc_loop_all [of cv f n src, OF assms], of src] assms(2) by (auto simp: min_absorb2)

text \<open>Behind the written cells nothing changes.\<close>

lemma lc_loop_in_place_outside:
  "lc_loop_in_place skip cv buf i n j d = Some (left, j', out) \<Longrightarrow> length out = length buf \<and> j \<le> j' \<and>
   (\<forall>k < length buf. k < j \<or> j' \<le> k \<longrightarrow> out ! k = buf ! k)"
proof (induction skip cv buf i n j d rule: lc_loop_in_place.induct)
  case (2 skip cv buf i n j d)
  show ?case
  proof (cases "d = 0")
    case True
    then show ?thesis using 2(3) by auto
  next
    case False
    obtain wch s where w: "rd buf i = Some wch" "skip wch = Some s" using 2(3) False by (auto simp: bind_eq_Some_conv)
    show ?thesis
    proof (cases s)
      case True
      have "lc_loop_in_place skip cv buf (i + 1) n j d = Some (left, j', out)" using 2(3) False w True by simp
      from 2(1) [OF False w True this] show ?thesis by auto
    next
      case ns: False
      obtain c buf' where c: "cv wch = Some c" "wr buf j c = Some buf'"
        "lc_loop_in_place skip cv buf' (i + 1) n (j + 1) (d - 1) = Some (left, j', out)"
        using 2(3) False w ns by (auto simp: bind_eq_Some_conv)
      have b: "j < length buf" "buf' = buf[j := c]" using c(2) by (auto simp: wr_def split: if_splits)
      show ?thesis using 2(2) [OF False w ns c] False b by (auto simp: nth_list_update)
    qed
  qed
qed auto

lemma buff_maps:
  assumes "\<And>c. cv c = Some (f c)" and "n \<le> length src"
  shows "lc_loop_in_place (\<lambda>_. Some False) cv src 0 n 0 n = Some (0, n, map f (take n src) @ drop n src)"
proof -
  obtain out where o: "lc_loop_in_place (\<lambda>_. Some False) cv src 0 n 0 n = Some (0, n, out)" "length out = length src"
    "take n out = map f (take n src)" using lc_loop_in_place_all [of cv f n src, OF assms] by blast
  have "\<forall>k < length src. n \<le> k \<longrightarrow> out ! k = src ! k" using lc_loop_in_place_outside [OF o(1)] by auto
  then have "drop n out = drop n src" using o(2) assms(2) by (intro nth_equalityI) auto
  then show ?thesis using o(1,3) by (metis append_take_drop_id)
qed

lemma left_out_plain: "\<not> has_flag flags NORM_IGNORESYMBOLS \<Longrightarrow> left_out C T flags = (\<lambda>_. Some False)"
  by (rule ext) (simp add: left_out_def)

lemma flags_upper: "\<not> has_flag LCMAP_UPPERCASE NORM_IGNORESYMBOLS" "\<not> has_flag LCMAP_UPPERCASE LCMAP_SORTKEY"
  "\<not> has_flag LCMAP_UPPERCASE SORT_STRINGSORT" "has_flag LCMAP_UPPERCASE LCMAP_UPPERCASE"
  "\<not> both_flags LCMAP_UPPERCASE LCMAP_LOWERCASE LCMAP_UPPERCASE" "\<not> both_flags LCMAP_UPPERCASE LCMAP_HIRAGANA LCMAP_KATAKANA"
  "\<not> both_flags LCMAP_UPPERCASE LCMAP_HALFWIDTH LCMAP_FULLWIDTH"
  "\<not> both_flags LCMAP_UPPERCASE LCMAP_TRADITIONAL_CHINESE LCMAP_SIMPLIFIED_CHINESE"
  by code_simp+

lemma flags_lower: "\<not> has_flag LCMAP_LOWERCASE NORM_IGNORESYMBOLS" "\<not> has_flag LCMAP_LOWERCASE LCMAP_SORTKEY"
  "\<not> has_flag LCMAP_LOWERCASE SORT_STRINGSORT" "has_flag LCMAP_LOWERCASE LCMAP_LOWERCASE" "\<not> has_flag LCMAP_LOWERCASE LCMAP_UPPERCASE"
  "\<not> both_flags LCMAP_LOWERCASE LCMAP_LOWERCASE LCMAP_UPPERCASE" "\<not> both_flags LCMAP_LOWERCASE LCMAP_HIRAGANA LCMAP_KATAKANA"
  "\<not> both_flags LCMAP_LOWERCASE LCMAP_HALFWIDTH LCMAP_FULLWIDTH"
  "\<not> both_flags LCMAP_LOWERCASE LCMAP_TRADITIONAL_CHINESE LCMAP_SIMPLIFIED_CHINESE"
  by code_simp+

lemma CharBuff_maps:
  assumes "case_tables_ok T" and "0 < n" and "n < 2 ^ 31" and "n \<le> length buf"
  shows "CharUpperBuff C T (Some buf) (of_nat n) = Some (n, map (upcase C T) (take n buf) @ drop n buf)"
    and "CharLowerBuff C T (Some buf) (of_nat n) = Some (n, map (downcase C T) (take n buf) @ drop n buf)"
proof -
  have n: "sint (of_nat n :: u32) = int n"
    using assms(3) by (simp add: signed_of_nat signed_take_bit_int_eq_self)
  show "CharUpperBuff C T (Some buf) (of_nat n) = Some (n, map (upcase C T) (take n buf) @ drop n buf)"
    using buff_maps [of "map_upper C T" "upcase C T" n buf, OF map_case_Some(1) [OF assms(1)] assms(4)] assms(2)
    by (simp add: CharUpperBuff_def map_buff_def LCMapString_def LCMapStringEx_def n flags_upper left_out_plain lc_write_def lc_end_def)
  show "CharLowerBuff C T (Some buf) (of_nat n) = Some (n, map (downcase C T) (take n buf) @ drop n buf)"
    using buff_maps [of "map_lower C T" "downcase C T" n buf, OF map_case_Some(2) [OF assms(1)] assms(4)] assms(2)
    by (simp add: CharLowerBuff_def map_buff_def LCMapString_def LCMapStringEx_def n flags_lower left_out_plain lc_write_def lc_end_def)
qed

section \<open>The order of strings\<close>

text \<open>Without a NUL in the strings the flag that stops at one has no effect.\<close>

definition no_nul :: "cursor \<Rightarrow> bool" where
  "no_nul c \<longleftrightarrow> 0 \<notin> set (cstr c)"

lemma no_nul_steps:
  "no_nul c \<Longrightarrow> no_nul (inc_str_pos c)" "no_nul c \<Longrightarrow> load_char T c = Some d \<Longrightarrow> no_nul d"
  "no_nul c \<Longrightarrow> cstr c \<noteq> [] \<Longrightarrow> hd (cstr c) \<noteq> 0"
proof -
  show "no_nul c \<Longrightarrow> no_nul (inc_str_pos c)"
    by (cases "cstr c") (auto simp: no_nul_def inc_str_pos_def Let_def)
  show "no_nul c \<Longrightarrow> load_char T c = Some d \<Longrightarrow> no_nul d"
    by (auto simp: no_nul_def dest: load_char_same)
  show "no_nul c \<Longrightarrow> cstr c \<noteq> [] \<Longrightarrow> hd (cstr c) \<noteq> 0"
    by (cases "cstr c") (auto simp: no_nul_def)
qed

lemma skip_rest_stop: "no_nul c \<Longrightarrow> skip_rest T f types c = skip_rest T g types c"
proof (induction T f types c rule: skip_rest.induct)
  case (1 T f types c)
  show ?case
  proof (cases "cstr c = []")
    case True
    then show ?thesis by (simp add: skip_rest.simps)
  next
    case False
    have n: "\<not> (hd (cstr c) = 0 \<and> has_flag f NORM_STOP_ON_NULL)" using no_nul_steps(3) [OF 1(2) False] by simp
    have "skip_rest T f types (inc_str_pos c') = skip_rest T g types (inc_str_pos c')"
      if "load_char T c = Some c'" "cur_char c' = Some w" "eval_weight T w types = Some ce" "\<not> ce \<noteq> 0" for c' w ce
      using 1(1) [OF False n that] no_nul_steps(1) no_nul_steps(2) [OF 1(2) that(1)] by blast
    then show ?thesis
      using no_nul_steps(3) [OF 1(2) False] False
      by (subst (1 2) skip_rest.simps) (auto split: option.split)
  qed
qed

lemma compare_round_flags:
  assumes "has_flag f SORT_STRINGSORT = has_flag g SORT_STRINGSORT" "has_flag f NORM_IGNORESYMBOLS = has_flag g NORM_IGNORESYMBOLS"
  shows "compare_round T f types c1 c2 = compare_round T g types c1 c2"
  by (simp only: compare_round_def assms)

lemma compare_loop_stop:
  "no_nul c1 \<Longrightarrow> no_nul c2 \<Longrightarrow> has_flag f SORT_STRINGSORT = has_flag g SORT_STRINGSORT \<Longrightarrow>
    has_flag f NORM_IGNORESYMBOLS = has_flag g NORM_IGNORESYMBOLS \<Longrightarrow>
    compare_loop T f types c1 c2 = compare_loop T g types c1 c2 \<and>
    (\<forall>d1 d2. compare_loop T f types c1 c2 = Some (Inr (d1, d2)) \<longrightarrow> no_nul d1 \<and> no_nul d2)"
proof (induction T f types c1 c2 rule: compare_loop.induct)
  case (1 T f types c1 c2)
  show ?case
  proof (cases "cstr c1 = [] \<or> cstr c2 = []")
    case True
    then show ?thesis using 1(2,3) by (simp add: compare_loop.simps)
  next
    case False
    have z: "hd (cstr c1) \<noteq> 0" "hd (cstr c2) \<noteq> 0" using no_nul_steps(3) 1(2,3) False by blast+
    then have n: "\<not> (has_flag f NORM_STOP_ON_NULL \<and> (hd (cstr c1) = 0 \<or> hd (cstr c2) = 0))" by simp
    have u: "compare_loop T h types c1 c2 = (case load_char T c1 of None \<Rightarrow> None
        | Some d1 \<Rightarrow> (case load_char T c2 of None \<Rightarrow> None
          | Some d2 \<Rightarrow> (case compare_round T h types d1 d2 of None \<Rightarrow> None
            | Some (Return r) \<Rightarrow> Some (Inl r)
            | Some (Advance a b) \<Rightarrow>
                compare_loop T h types (if a then inc_str_pos d1 else d1) (if b then inc_str_pos d2 else d2))))" for h
      using False z by (subst compare_loop.simps) simp
    show ?thesis
    proof (cases "load_char T c1")
      case None
      then show ?thesis by (simp add: u)
    next
      case d1: (Some d1)
      show ?thesis
      proof (cases "load_char T c2")
        case None
        then show ?thesis using d1 by (simp add: u)
      next
        case d2: (Some d2)
        note nn = no_nul_steps(2) [OF 1(2) d1] no_nul_steps(2) [OF 1(3) d2]
        note r = compare_round_flags [OF 1(4,5), of T types d1 d2]
        show ?thesis
        proof (cases "compare_round T f types d1 d2")
          case None
          then show ?thesis using d1 d2 r by (simp add: u)
        next
          case rr: (Some rr)
          then have rg: "compare_round T g types d1 d2 = Some rr" using r by simp
          show ?thesis
          proof (cases rr)
            case (Return k)
            then show ?thesis using d1 d2 rg rr by (simp add: u)
          next
            case (Advance a b)
            have "no_nul (if a then inc_str_pos d1 else d1)" "no_nul (if b then inc_str_pos d2 else d2)"
              using nn no_nul_steps(1) by simp_all
            from 1(1) [OF False n d1 d2 rr Advance this 1(4,5)] show ?thesis
              using Advance d1 d2 rg rr by (simp add: u)
          qed
        qed
      qed
    qed
  qed
qed

lemma compare_string_stop:
  assumes "0 \<notin> set s1" "0 \<notin> set s2" "has_flag f SORT_STRINGSORT = has_flag g SORT_STRINGSORT"
    "has_flag f NORM_IGNORESYMBOLS = has_flag g NORM_IGNORESYMBOLS" "has_flag f NORM_IGNORECASE = has_flag g NORM_IGNORECASE"
    "has_flag f NORM_IGNORENONSPACE = has_flag g NORM_IGNORENONSPACE"
  shows "wine_compare_string T f s1 s2 = wine_compare_string T g s1 s2"
proof -
  have n: "no_nul (start_cursor s1)" "no_nul (start_cursor s2)" using assms(1,2) by (simp_all add: no_nul_def start_cursor_def)
  define types where "types = (if has_flag g NORM_IGNORENONSPACE then 0 else DIACRITIC_WEIGHT) OR
    (if has_flag g NORM_IGNORECASE then 0 else CASE_WEIGHT)"
  note l = compare_loop_stop [OF n assms(3,4), of T types]
  have "compare_weights T f s1 s2 types = compare_weights T g s1 s2 types"
  proof (cases "compare_loop T f types (start_cursor s1) (start_cursor s2)")
    case None
    then show ?thesis using l by (simp add: compare_weights_def)
  next
    case (Some res)
    then have g: "compare_loop T g types (start_cursor s1) (start_cursor s2) = Some res" using l by simp
    show ?thesis
    proof (cases res)
      case (Inl k)
      then show ?thesis using g Some by (simp add: compare_weights_def)
    next
      case (Inr d)
      then show ?thesis
        using l [THEN conjunct2] g Some skip_rest_stop [of "fst d" T f types g] skip_rest_stop [of "snd d" T f types g]
        by (cases d) (simp add: compare_weights_def)
    qed
  qed
  then show ?thesis using assms(5,6) by (simp add: wine_compare_string_def types_def)
qed

text \<open>The key of a string in the order: the weights of its characters, with or without their case.\<close>

definition order_key :: "sort_tables \<Rightarrow> bool \<Rightarrow> wchar list \<Rightarrow> u32 list" where
  "order_key T case_sensitive s =
     weights T (DIACRITIC_WEIGHT OR (if case_sensitive then CASE_WEIGHT else 0)) (concat (map (decomposed T) s))"

lemma sort_flags:
  "has_flag SORT_STRINGSORT SORT_STRINGSORT" "\<not> has_flag SORT_STRINGSORT NORM_IGNORESYMBOLS"
  "\<not> has_flag SORT_STRINGSORT NORM_STOP_ON_NULL" "\<not> has_flag SORT_STRINGSORT NORM_IGNORENONSPACE"
  "\<not> has_flag SORT_STRINGSORT NORM_IGNORECASE"
  "has_flag (NORM_IGNORECASE OR SORT_STRINGSORT) SORT_STRINGSORT"
  "\<not> has_flag (NORM_IGNORECASE OR SORT_STRINGSORT) NORM_IGNORESYMBOLS"
  "\<not> has_flag (NORM_IGNORECASE OR SORT_STRINGSORT) NORM_STOP_ON_NULL"
  "\<not> has_flag (NORM_IGNORECASE OR SORT_STRINGSORT) NORM_IGNORENONSPACE"
  "has_flag (NORM_IGNORECASE OR SORT_STRINGSORT) NORM_IGNORECASE"
  "has_flag (NORM_STOP_ON_NULL OR SORT_STRINGSORT) SORT_STRINGSORT"
  "\<not> has_flag (NORM_STOP_ON_NULL OR SORT_STRINGSORT) NORM_IGNORESYMBOLS"
  "\<not> has_flag (NORM_STOP_ON_NULL OR SORT_STRINGSORT) NORM_IGNORENONSPACE"
  "\<not> has_flag (NORM_STOP_ON_NULL OR SORT_STRINGSORT) NORM_IGNORECASE"
  "has_flag (NORM_IGNORECASE OR NORM_STOP_ON_NULL OR SORT_STRINGSORT) SORT_STRINGSORT"
  "\<not> has_flag (NORM_IGNORECASE OR NORM_STOP_ON_NULL OR SORT_STRINGSORT) NORM_IGNORESYMBOLS"
  "\<not> has_flag (NORM_IGNORECASE OR NORM_STOP_ON_NULL OR SORT_STRINGSORT) NORM_IGNORENONSPACE"
  "has_flag (NORM_IGNORECASE OR NORM_STOP_ON_NULL OR SORT_STRINGSORT) NORM_IGNORECASE"
  "known_flags SORT_STRINGSORT"
  "known_flags (NORM_IGNORECASE OR SORT_STRINGSORT)"
  "known_flags (NORM_STOP_ON_NULL OR SORT_STRINGSORT)"
  "known_flags (NORM_IGNORECASE OR NORM_STOP_ON_NULL OR SORT_STRINGSORT)"
  by code_simp+

lemma compare_string_key:
  assumes "tables_ok T"
  shows "wine_compare_string T SORT_STRINGSORT s1 s2 = Some (lex_cmp (order_key T True s1) (order_key T True s2))"
    and "wine_compare_string T (NORM_IGNORECASE OR SORT_STRINGSORT) s1 s2 =
      Some (lex_cmp (order_key T False s1) (order_key T False s2))"
  using compare_loop_lex [OF assms cursor_ok_start(1) cursor_ok_start(1) sort_flags(1-3), of "DIACRITIC_WEIGHT OR CASE_WEIGHT" s1 s2]
    compare_loop_lex [OF assms cursor_ok_start(1) cursor_ok_start(1) sort_flags(6-8), of "DIACRITIC_WEIGHT OR 0" s1 s2]
  by (auto simp: wine_compare_string_def compare_weights_finish cursor_ok_start order_key_def sort_flags)

lemma cells_compared:
  assumes "0 \<notin> set s"
  shows "compared f (s @ [0]) (-1) = Some s" "n \<le> length s \<Longrightarrow> compared f (s @ [0]) (int n) = Some (take n s)"
  using assms by (auto simp: compared_def wcslen_def takeWhile_append takeWhile_eq_all_conv [THEN iffD2])

definition sgn_cmp :: "int \<Rightarrow> int" where
  "sgn_cmp r = (if r \<noteq> 0 then (if r < 0 then -1 else 1) else 0)"

lemma lex_cmp_range: "lex_cmp a b \<in> {-1, 0, 1}"
  by (induction a b rule: lex_cmp.induct) auto

lemma lex_cmp_sgn: "sgn_cmp (lex_cmp a b) = lex_cmp a b"
  using lex_cmp_range [of a b] by (auto simp: sgn_cmp_def)

lemma lex_cmp_zero: "lex_cmp a b = 0 \<longleftrightarrow> a = b"
  by (induction a b rule: lex_cmp.induct) auto

lemma lex_cmp_swap: "lex_cmp b a = - lex_cmp a b"
  by (induction a b rule: lex_cmp.induct) auto

lemma lex_cmp_less_trans: "lex_cmp a b < 0 \<Longrightarrow> lex_cmp b c < 0 \<Longrightarrow> lex_cmp a c < 0"
proof (induction a b arbitrary: c rule: lex_cmp.induct)
  case (2 b bs)
  then show ?case by (cases c) auto
next
  case (4 a as b bs)
  then show ?case by (cases c) (auto split: if_splits)
qed auto

lemma StrCmp_key:
  assumes "tables_ok T" "0 \<notin> set s1" "0 \<notin> set s2"
  shows "StrCmp T s1 s2 = Some (lex_cmp (order_key T True s1) (order_key T True s2))"
    and "StrCmpI T s1 s2 = Some (lex_cmp (order_key T False s1) (order_key T False s2))"
  using lex_cmp_sgn [of "order_key T True s1" "order_key T True s2"] lex_cmp_sgn [of "order_key T False s1" "order_key T False s2"]
  by (auto simp: StrCmp_def StrCmpI_def CompareString_def CompareStringEx_def string_cells_def cells_compared assms(2,3) sort_flags
      compare_string_key [OF assms(1)] sgn_cmp_def split: if_splits)

lemma StrCmpN_key:
  assumes "tables_ok T" "0 \<notin> set s1" "0 \<notin> set s2" "n \<le> length s1" "n \<le> length s2"
  shows "StrCmpN T s1 s2 (int n) = Some (lex_cmp (order_key T True (take n s1)) (order_key T True (take n s2)))"
    and "StrCmpNI T s1 s2 (int n) = Some (lex_cmp (order_key T False (take n s1)) (order_key T False (take n s2)))"
proof -
  have z: "0 \<notin> set (take n s1)" "0 \<notin> set (take n s2)" using assms(2,3) by (auto dest: in_set_takeD)
  have 1: "wine_compare_string T (NORM_STOP_ON_NULL OR SORT_STRINGSORT) (take n s1) (take n s2) =
      wine_compare_string T SORT_STRINGSORT (take n s1) (take n s2)"
    by (rule compare_string_stop [OF z]) (simp_all add: sort_flags)
  have 2: "wine_compare_string T (NORM_IGNORECASE OR NORM_STOP_ON_NULL OR SORT_STRINGSORT) (take n s1) (take n s2) =
      wine_compare_string T (NORM_IGNORECASE OR SORT_STRINGSORT) (take n s1) (take n s2)"
    by (rule compare_string_stop [OF z]) (simp_all add: sort_flags)
  show "StrCmpN T s1 s2 (int n) = Some (lex_cmp (order_key T True (take n s1)) (order_key T True (take n s2)))"
    using lex_cmp_sgn [of "order_key T True (take n s1)" "order_key T True (take n s2)"]
    by (auto simp: StrCmpN_def StrCmpNN_def CompareString_def CompareStringEx_def string_cells_def cells_compared assms sort_flags 1
        compare_string_key [OF assms(1)] sgn_cmp_def split: if_splits)
  show "StrCmpNI T s1 s2 (int n) = Some (lex_cmp (order_key T False (take n s1)) (order_key T False (take n s2)))"
    using lex_cmp_sgn [of "order_key T False (take n s1)" "order_key T False (take n s2)"]
    by (auto simp: StrCmpNI_def StrCmpNNI_def CompareString_def CompareStringEx_def string_cells_def cells_compared assms sort_flags 2
        compare_string_key [OF assms(1)] sgn_cmp_def split: if_splits)
qed

text \<open>
  What a caller that sorts needs of a three-way comparison: on the values it is used for it gives a result, changes
  its sign with its arguments exchanged, and "not greater" is transitive. These are the laws of a strict weak order.
\<close>

locale three_way =
  fixes good :: "'t \<Rightarrow> bool" and valid :: "'s \<Rightarrow> bool" and cmp :: "'t \<Rightarrow> 's \<Rightarrow> 's \<Rightarrow> int option"
  assumes total: "good t \<Longrightarrow> valid a \<Longrightarrow> valid b \<Longrightarrow> \<exists>r. cmp t a b = Some r"
    and swap: "good t \<Longrightarrow> valid a \<Longrightarrow> valid b \<Longrightarrow> cmp t a b = Some r \<Longrightarrow> cmp t b a = Some (- r)"
    and not_greater_trans: "good t \<Longrightarrow> valid a \<Longrightarrow> valid b \<Longrightarrow> valid c \<Longrightarrow> cmp t a b = Some r \<Longrightarrow> cmp t b c = Some q \<Longrightarrow>
      r \<le> 0 \<Longrightarrow> q \<le> 0 \<Longrightarrow> \<exists>p. cmp t a c = Some p \<and> p \<le> 0"
begin

definition below :: "'t \<Rightarrow> 's \<Rightarrow> 's \<Rightarrow> bool" where
  "below t a b \<longleftrightarrow> (\<exists>r. cmp t a b = Some r \<and> r < 0)"

definition same :: "'t \<Rightarrow> 's \<Rightarrow> 's \<Rightarrow> bool" where
  "same t a b \<longleftrightarrow> cmp t a b = Some 0"

lemma refl: "good t \<Longrightarrow> valid a \<Longrightarrow> same t a a"
  using total [of t a a] swap [of t a a] by (fastforce simp: same_def)

lemma same_sym: "good t \<Longrightarrow> valid a \<Longrightarrow> valid b \<Longrightarrow> same t a b \<longleftrightarrow> same t b a"
  using swap [of t a b] swap [of t b a] by (auto simp: same_def)

lemma same_trans:
  assumes "good t" "valid a" "valid b" "valid c" "same t a b" "same t b c"
  shows "same t a c"
proof -
  have "\<exists>p. cmp t a c = Some p \<and> p \<le> 0" "\<exists>p. cmp t c a = Some p \<and> p \<le> 0"
    using not_greater_trans [OF assms(1-4)] not_greater_trans [OF assms(1,4,3,2)] swap [OF assms(1,2,3)] swap [OF assms(1,3,4)]
      assms(5,6) by (auto simp: same_def)
  then show ?thesis using swap [OF assms(1,2,4)] by (auto simp: same_def)
qed

lemma chain:
  assumes g: "good t" "valid a" "valid b" "valid c" and p: "cmp t a b = Some p" "p \<le> 0" and q: "cmp t b c = Some q" "q \<le> 0"
  shows "\<exists>r. cmp t a c = Some r \<and> r \<le> 0 \<and> (r = 0 \<longleftrightarrow> p = 0 \<and> q = 0)"
proof -
  obtain r where r: "cmp t a c = Some r" "r \<le> 0" using not_greater_trans [OF g p(1) q(1) p(2) q(2)] by blast
  note ba = swap [OF g(1,2,3) p(1)] and cb = swap [OF g(1,3,4) q(1)] and ca = swap [OF g(1,2,4) r(1)]
  have "p = 0 \<and> q = 0" if "r = 0"
  proof
    show "q = 0" using not_greater_trans [OF g(1,4,2,3) ca p(1)] that p(2) q(2) cb by auto
    show "p = 0" using not_greater_trans [OF g(1,3,4,2) q(1) ca] that p(2) q(2) ba by auto
  qed
  moreover have "r = 0" if "p = 0 \<and> q = 0"
    using not_greater_trans [OF g(1,4,3,2) cb ba] that r(2) ca by auto
  ultimately show ?thesis using r by blast
qed

lemma trichotomy: "good t \<Longrightarrow> valid a \<Longrightarrow> valid b \<Longrightarrow> below t a b \<or> same t a b \<or> below t b a"
  using total [of t a b] swap [of t a b] by (auto simp: below_def same_def)

lemma below_asym: "good t \<Longrightarrow> valid a \<Longrightarrow> valid b \<Longrightarrow> below t a b \<Longrightarrow> \<not> below t b a \<and> \<not> same t a b"
  using swap [of t a b] by (auto simp: below_def same_def)

lemma below_trans:
  assumes "good t" "valid a" "valid b" "valid c" "below t a b" "\<not> below t c b"
  shows "below t a c"
proof (rule ccontr)
  assume n: "\<not> below t a c"
  have "\<exists>p. cmp t c a = Some p \<and> p \<le> 0"
    using trichotomy [OF assms(1,2,4)] n swap [OF assms(1,2,4)] by (auto simp: below_def same_def intro: less_imp_le)
  moreover have "\<exists>p. cmp t b c = Some p \<and> p \<le> 0"
    using trichotomy [OF assms(1,3,4)] assms(6) by (auto simp: below_def same_def intro: less_imp_le)
  ultimately have "\<exists>p. cmp t b a = Some p \<and> p \<le> 0"
    using not_greater_trans [OF assms(1,3,4,2)] by blast
  then show False using assms(5) swap [OF assms(1,2,3)] by (auto simp: below_def)
qed

end

definition plain_string :: "wchar list \<Rightarrow> bool" where
  "plain_string s \<longleftrightarrow> 0 \<notin> set s"

text \<open>The comparison of strings as the program selects it: with or without case.\<close>

definition str_cmp :: "sort_tables \<times> bool \<Rightarrow> wchar list \<Rightarrow> wchar list \<Rightarrow> int option" where
  "str_cmp t a b = (if snd t then StrCmp (fst t) a b else StrCmpI (fst t) a b)"

lemma str_cmp_key:
  "tables_ok (fst t) \<Longrightarrow> plain_string a \<Longrightarrow> plain_string b \<Longrightarrow>
    str_cmp t a b = Some (lex_cmp (order_key (fst t) (snd t) a) (order_key (fst t) (snd t) b))"
  by (cases "snd t") (auto simp: str_cmp_def plain_string_def StrCmp_key)

lemma lex_cmp_not_greater_trans: "lex_cmp a b \<le> 0 \<Longrightarrow> lex_cmp b c \<le> 0 \<Longrightarrow> lex_cmp a c \<le> 0"
  using lex_cmp_less_trans [of a b c] lex_cmp_zero [of a b] lex_cmp_zero [of b c] by fastforce

interpretation strings: three_way "\<lambda>t. tables_ok (fst t)" plain_string str_cmp
proof
  fix t :: "sort_tables \<times> bool" and a b r
  assume v: "tables_ok (fst t)" "plain_string a" "plain_string b"
  show "\<exists>r. str_cmp t a b = Some r" using str_cmp_key [OF v] by blast
  show "str_cmp t b a = Some (- r)" if "str_cmp t a b = Some r"
    using str_cmp_key [OF v] str_cmp_key [OF v(1,3,2)] that lex_cmp_swap [of "order_key (fst t) (snd t) b"] by simp
  show "\<exists>p. str_cmp t a c = Some p \<and> p \<le> 0"
    if "plain_string c" "str_cmp t a b = Some r" "str_cmp t b c = Some q" "r \<le> 0" "q \<le> 0" for c q
    using that str_cmp_key [OF v] str_cmp_key [OF v(1,3) that(1)] str_cmp_key [OF v(1,2) that(1)] lex_cmp_not_greater_trans
    by auto
qed

text \<open>
  C36. On tables with all lookups inside their arrays \<open>StrCmp\<close> and \<open>StrCmpI\<close> are strict weak orders of the strings:
  total, with the opposite sign if the arguments are exchanged, and both "less" and "equal" are transitive. So they
  may be given to \<open>std::sort\<close>. They are equal exactly if the weights of the strings are the same.
\<close>

theorem StrCmp_strict_weak_order:
  assumes "tables_ok T" and "plain_string a" and "plain_string b" and "plain_string c"
  shows "(\<exists>r. str_cmp (T, cs) a b = Some r \<and> str_cmp (T, cs) b a = Some (- r) \<and> (r = 0 \<longleftrightarrow> order_key T cs a = order_key T cs b)) \<and>
    (\<forall>p q. str_cmp (T, cs) a b = Some p \<longrightarrow> p \<le> 0 \<longrightarrow> str_cmp (T, cs) b c = Some q \<longrightarrow> q \<le> 0 \<longrightarrow>
      (\<exists>r. str_cmp (T, cs) a c = Some r \<and> r \<le> 0 \<and> (r = 0 \<longleftrightarrow> p = 0 \<and> q = 0)))"
proof (intro conjI allI impI)
  have t: "tables_ok (fst (T, cs))" using assms(1) by simp
  show "\<exists>r. str_cmp (T, cs) a b = Some r \<and> str_cmp (T, cs) b a = Some (- r) \<and> (r = 0 \<longleftrightarrow> order_key T cs a = order_key T cs b)"
    using assms str_cmp_key [OF t assms(2,3)] str_cmp_key [OF t assms(3,2)] lex_cmp_zero
    by (simp add: lex_cmp_swap [of "order_key T cs b"])
  show "\<exists>r. str_cmp (T, cs) a c = Some r \<and> r \<le> 0 \<and> (r = 0 \<longleftrightarrow> p = 0 \<and> q = 0)"
    if "str_cmp (T, cs) a b = Some p" "p \<le> 0" "str_cmp (T, cs) b c = Some q" "q \<le> 0" for p q
    by (rule strings.chain [OF t assms(2-4) that])
qed

theorem StrCmp_strict_weak_order_witness:
  "\<exists>r. str_cmp (tiny_sort, False) [0x61] [0x62] = Some r \<and> str_cmp (tiny_sort, False) [0x62] [0x61] = Some (- r)"
proof -
  have p: "plain_string [0x61]" "plain_string [0x62]" by (simp_all add: plain_string_def)
  show ?thesis using conjunct1 [OF StrCmp_strict_weak_order [OF tiny_sort_ok p(1,2,2), of False]] by blast
qed

text \<open>
  \<open>CharUpperBuff\<close> and \<open>CharLowerBuff\<close> map the first characters of the buffer in place, each one to the
  character the tables give, leave the cells behind them alone and return their number.
\<close>

theorem CharBuff_in_place:
  assumes "case_tables_ok T" and "0 < n" and "n < 2 ^ 31" and "n \<le> length buf"
  shows "CharUpperBuff C T (Some buf) (of_nat n) = Some (n, map (upcase C T) (take n buf) @ drop n buf) \<and>
    CharLowerBuff C T (Some buf) (of_nat n) = Some (n, map (downcase C T) (take n buf) @ drop n buf)"
  using CharBuff_maps [OF assms] by blast

definition tiny_case :: sort_tables where
  "tiny_case = tiny_sort\<lparr>casemap_lower := replicate 256 256 @ replicate 256 1, casemap_upper := replicate 256 256 @ replicate 256 2\<rparr>"

definition tiny_libc :: libc where
  "tiny_libc = \<lparr>towupper = (\<lambda>c. c), towlower = (\<lambda>c. c), iswspace = (\<lambda>_. False), iswpunct = (\<lambda>_. False),
     iswlower = (\<lambda>_. False), iswupper = (\<lambda>_. False), iswalnum = (\<lambda>_. False), iswalpha = (\<lambda>_. False)\<rparr>"

lemma tiny_case_ok: "case_tables_ok tiny_case"
  by code_simp

theorem CharBuff_in_place_witness:
  "CharUpperBuff tiny_libc tiny_case (Some [0x61, 0x62, 0x63]) 2 = Some (2, [0x63, 0x64, 0x63])"
proof -
  have "map (upcase tiny_libc tiny_case) [0x61, 0x62] = [0x63, 0x64]" by code_simp
  then show ?thesis using CharBuff_in_place [OF tiny_case_ok, of 2 "[0x61, 0x62, 0x63]" tiny_libc] by simp
qed

end
