(* ===== verification/LocaleStr.thy ===== *)
theory LocaleStr
  imports StrMap
begin

text \<open>
  Searching in strings and the natural order of names: \<^verbatim>\<open>far/src/locale/locale.cpp\<close>. A string is the list of
  its characters without the terminator, a returned pointer is the index it points to.
\<close>

section \<open>Searching\<close>

text \<open>The inner loops: are the characters of the second string those in front of the first?\<close>

fun agree :: "(wchar \<Rightarrow> wchar \<Rightarrow> bool option) \<Rightarrow> wchar list \<Rightarrow> wchar list \<Rightarrow> bool option" where
  "agree eq xs [] = Some True"
| "agree eq [] (y # ys) = Some False"
| "agree eq (x # xs) (y # ys) = do { b \<leftarrow> eq x y; if b then agree eq xs ys else Some False }"

fun str_loop :: "(wchar \<Rightarrow> wchar \<Rightarrow> bool option) \<Rightarrow> wchar list \<Rightarrow> wchar list \<Rightarrow> nat \<Rightarrow> nat option option" where
  "str_loop eq [] s2 cp = Some None"
| "str_loop eq (x # xs) s2 cp = do { b \<leftarrow> agree eq (x # xs) s2; if b then Some (Some cp) else str_loop eq xs s2 (cp + 1) }"

fun rev_str_loop :: "(wchar \<Rightarrow> wchar \<Rightarrow> bool option) \<Rightarrow> wchar list \<Rightarrow> wchar list \<Rightarrow> nat \<Rightarrow> nat option option" where
  "rev_str_loop eq s1 s2 0 = do { b \<leftarrow> agree eq s1 s2; Some (if b then Some 0 else None) }"
| "rev_str_loop eq s1 s2 (Suc cp) =
     do { b \<leftarrow> agree eq (drop (Suc cp) s1) s2; if b then Some (Some (Suc cp)) else rev_str_loop eq s1 s2 cp }"

definition same_char :: "wchar \<Rightarrow> wchar \<Rightarrow> bool option" where
  "same_char x y = Some (x - y = 0)"

definition same_lower :: "libc \<Rightarrow> sort_tables \<Rightarrow> wchar \<Rightarrow> wchar \<Rightarrow> bool option" where
  "same_lower C T x y = do { a \<leftarrow> Lower C T x; b \<leftarrow> Lower C T y; Some (a - b = 0) }"

definition StrStrI :: "libc \<Rightarrow> sort_tables \<Rightarrow> wchar list \<Rightarrow> wchar list \<Rightarrow> nat option option" where
  "StrStrI C T str1 str2 = (if str2 = [] then Some (Some 0) else str_loop (same_lower C T) str1 str2 0)"

definition StrStr :: "wchar list \<Rightarrow> wchar list \<Rightarrow> nat option option" where
  "StrStr str1 str2 = (if str2 = [] then Some (Some 0) else str_loop same_char str1 str2 0)"

definition RevStrStrI :: "libc \<Rightarrow> sort_tables \<Rightarrow> wchar list \<Rightarrow> wchar list \<Rightarrow> nat option option" where
  "RevStrStrI C T str1 str2 =
     (if length str2 > length str1 then Some None
      else if str2 = [] then Some (Some (length str1))
      else rev_str_loop (same_lower C T) str1 str2 (length str1 - length str2))"

definition RevStrStr :: "wchar list \<Rightarrow> wchar list \<Rightarrow> nat option option" where
  "RevStrStr str1 str2 =
     (if length str2 > length str1 then Some None
      else if str2 = [] then Some (Some (length str1))
      else rev_str_loop same_char str1 str2 (length str1 - length str2))"

text \<open>The specification: the positions where the second string occurs, up to a folding of the characters.\<close>

definition occurs_folded :: "(wchar \<Rightarrow> wchar) \<Rightarrow> wchar list \<Rightarrow> wchar list \<Rightarrow> nat \<Rightarrow> bool" where
  "occurs_folded f s1 s2 i \<longleftrightarrow> i + length s2 \<le> length s1 \<and> map f (take (length s2) (drop i s1)) = map f s2"

definition first_occurrence :: "(wchar \<Rightarrow> wchar) \<Rightarrow> wchar list \<Rightarrow> wchar list \<Rightarrow> nat option \<Rightarrow> bool" where
  "first_occurrence f s1 s2 r \<longleftrightarrow> (case r of
     None \<Rightarrow> \<forall>i. \<not> occurs_folded f s1 s2 i
   | Some i \<Rightarrow> occurs_folded f s1 s2 i \<and> (\<forall>j < i. \<not> occurs_folded f s1 s2 j))"

definition last_occurrence :: "(wchar \<Rightarrow> wchar) \<Rightarrow> wchar list \<Rightarrow> wchar list \<Rightarrow> nat option \<Rightarrow> bool" where
  "last_occurrence f s1 s2 r \<longleftrightarrow> (case r of
     None \<Rightarrow> \<forall>i. \<not> occurs_folded f s1 s2 i
   | Some i \<Rightarrow> occurs_folded f s1 s2 i \<and> (\<forall>j > i. \<not> occurs_folded f s1 s2 j))"

lemma agree_iff:
  "(\<And>x y. eq x y = Some (f x = f y)) \<Longrightarrow>
    agree eq xs ys = Some (length ys \<le> length xs \<and> map f (take (length ys) xs) = map f ys)"
  by (induction eq xs ys rule: agree.induct) auto

lemma agree_occurs:
  "(\<And>x y. eq x y = Some (f x = f y)) \<Longrightarrow> s2 \<noteq> [] \<Longrightarrow> agree eq (drop i s1) s2 = Some (occurs_folded f s1 s2 i)"
  by (cases s2) (auto simp: agree_iff [of eq f] occurs_folded_def)

lemma str_loop_first:
  assumes eq: "\<And>x y. eq x y = Some (f x = f y)" and s2: "s2 \<noteq> []"
  shows "i \<le> length s1 \<Longrightarrow> (\<forall>j < i. \<not> occurs_folded f s1 s2 j) \<Longrightarrow>
    \<exists>r. str_loop eq (drop i s1) s2 i = Some r \<and> first_occurrence f s1 s2 r"
proof (induction "length s1 - i" arbitrary: i)
  case 0
  then have "i = length s1" by simp
  moreover have "\<not> occurs_folded f s1 s2 k" if "length s1 \<le> k" for k using that s2 by (cases s2) (auto simp: occurs_folded_def)
  ultimately have "\<forall>k. \<not> occurs_folded f s1 s2 k" using 0(3) by (metis not_le_imp_less)
  then show ?case using \<open>i = length s1\<close> by (simp add: first_occurrence_def)
next
  case (Suc n)
  then have d: "drop i s1 = s1 ! i # drop (Suc i) s1" by (intro drop_nth_Cons) simp
  note a = agree_occurs [of eq f, OF eq s2, of i s1]
  show ?case
  proof (cases "occurs_folded f s1 s2 i")
    case True
    then show ?thesis using a Suc(4) by (auto simp: d first_occurrence_def)
  next
    case False
    then have "\<forall>j < Suc i. \<not> occurs_folded f s1 s2 j" using Suc(4) less_Suc_eq by blast
    then show ?thesis using Suc(1) [of "Suc i"] Suc(2) a False by (simp add: d)
  qed
qed

lemma rev_str_loop_last:
  assumes eq: "\<And>x y. eq x y = Some (f x = f y)" and s2: "s2 \<noteq> []"
  shows "(\<forall>j > i. \<not> occurs_folded f s1 s2 j) \<Longrightarrow> \<exists>r. rev_str_loop eq s1 s2 i = Some r \<and> last_occurrence f s1 s2 r"
proof (induction i)
  case 0
  then show ?case
    using agree_occurs [of eq f, OF eq s2, of 0 s1]
    by (cases "occurs_folded f s1 s2 0") (auto simp: last_occurrence_def, metis gr0I)
next
  case (Suc i)
  show ?case
  proof (cases "occurs_folded f s1 s2 (Suc i)")
    case True
    then show ?thesis using agree_occurs [of eq f, OF eq s2, of "Suc i" s1] Suc(2) by (auto simp: last_occurrence_def)
  next
    case False
    then have "\<forall>j > i. \<not> occurs_folded f s1 s2 j" using Suc(2) by (metis Suc_lessI)
    then show ?thesis using Suc(1) agree_occurs [of eq f, OF eq s2, of "Suc i" s1] False by simp
  qed
qed

definition lower :: "libc \<Rightarrow> sort_tables \<Rightarrow> wchar \<Rightarrow> wchar" where
  "lower C T c = the (Lower C T c)"

definition upper :: "libc \<Rightarrow> sort_tables \<Rightarrow> wchar \<Rightarrow> wchar" where
  "upper C T c = the (Upper C T c)"

lemma Lower_Some:
  assumes "case_tables_ok T"
  shows "Lower C T c = Some (lower C T c)" "Upper C T c = Some (upper C T c)"
  using CharBuff_maps [OF assms, of 1 "[c]"] by (auto simp: lower_def Lower_def upper_def Upper_def)

lemma same_char_eq: "same_char x y = Some (id x = id y)"
  by (simp add: same_char_def)

lemma same_lower_eq: "case_tables_ok T \<Longrightarrow> same_lower C T x y = Some (lower C T x = lower C T y)"
  by (simp add: same_lower_def Lower_Some)

lemma occurs_at_late: "occurs_folded f s1 s2 j \<Longrightarrow> j \<le> length s1 - length s2"
  by (auto simp: occurs_folded_def)

text \<open>
  \<open>StrStr\<close> and \<open>StrStrI\<close> return the first, \<open>RevStrStr\<close> and \<open>RevStrStrI\<close> the last position where the second
  string occurs in the first, exactly or up to case, and NULL if there is none.
\<close>

theorem StrStr_first_last:
  assumes "case_tables_ok T"
  shows "\<exists>a b c d. StrStr s1 s2 = Some a \<and> first_occurrence id s1 s2 a \<and>
    StrStrI C T s1 s2 = Some b \<and> first_occurrence (lower C T) s1 s2 b \<and>
    RevStrStr s1 s2 = Some c \<and> last_occurrence id s1 s2 c \<and>
    RevStrStrI C T s1 s2 = Some d \<and> last_occurrence (lower C T) s1 s2 d"
proof -
  have first: "\<exists>r. (if s2 = [] then Some (Some 0) else str_loop eq s1 s2 0) = Some r \<and> first_occurrence f s1 s2 r"
    if "\<And>x y. eq x y = Some (f x = f y)" for eq f
    using str_loop_first [of eq f s2 0 s1, OF that] by (cases "s2 = []") (auto simp: first_occurrence_def occurs_folded_def)
  have last: "\<exists>r. (if length s2 > length s1 then Some None else if s2 = [] then Some (Some (length s1))
      else rev_str_loop eq s1 s2 (length s1 - length s2)) = Some r \<and> last_occurrence f s1 s2 r"
    if "\<And>x y. eq x y = Some (f x = f y)" for eq f
  proof -
    have "\<forall>j > length s1 - length s2. \<not> occurs_folded f s1 s2 j" using occurs_at_late by fastforce
    then show ?thesis
      using rev_str_loop_last [of eq f s2 "length s1 - length s2" s1, OF that]
      by (cases "s2 = []") (auto simp: last_occurrence_def occurs_folded_def)
  qed
  show ?thesis
    using first [of same_char id, OF same_char_eq] first [of "same_lower C T" "lower C T", OF same_lower_eq [OF assms]]
      last [of same_char id, OF same_char_eq] last [of "same_lower C T" "lower C T", OF same_lower_eq [OF assms]]
    unfolding StrStr_def StrStrI_def RevStrStr_def RevStrStrI_def by blast
qed

theorem StrStr_first_last_witness:
  "\<exists>a b. StrStr [1, 2, 3, 1, 2] [1, 2] = Some a \<and> RevStrStrI tiny_libc tiny_case [0x61, 0x62, 0x61] [0x61] = Some b"
  using StrStr_first_last [OF tiny_case_ok] by blast

section \<open>The natural order\<close>

definition iswdigit :: "wchar \<Rightarrow> bool" where
  "iswdigit c \<longleftrightarrow> 0x30 \<le> c \<and> c \<le> 0x39"

definition at_digit :: "wchar list \<Rightarrow> bool" where
  "at_digit xs \<longleftrightarrow> xs \<noteq> [] \<and> iswdigit (hd xs)"

definition zeroes :: "wchar list \<Rightarrow> nat" where
  "zeroes xs = length (takeWhile (\<lambda>c. c = 0x30) xs)"

text \<open>The loop over the digits of both numbers: the first difference, and how many digits are passed.\<close>

fun digits_loop :: "int \<Rightarrow> wchar list \<Rightarrow> wchar list \<Rightarrow> nat \<Rightarrow> int \<times> wchar list \<times> wchar list \<times> nat" where
  "digits_loop res (x # xs) (y # ys) k =
     (if iswdigit x \<and> iswdigit y then
        digits_loop (if res = 0 \<and> x \<noteq> y then (if x < y then -1 else 1) else res) xs ys (k + 1)
      else (res, x # xs, y # ys, k))"
| "digits_loop res xs ys k = (res, xs, ys, k)"

text \<open>The end of the comparison; \<open>None\<close> is the failed assertion of its last line.\<close>

definition num_end :: "wchar list \<Rightarrow> nat \<Rightarrow> wchar list \<Rightarrow> nat \<Rightarrow> int option" where
  "num_end xs l1 ys l2 =
     (if xs = [] \<and> ys = [] then Some (if l1 < l2 then -1 else if l1 = l2 then 0 else 1)
      else if xs = [] then Some (-1)
      else if ys = [] then Some 1
      else None)"

definition cmp_char :: "sort_tables \<Rightarrow> bool \<Rightarrow> wchar list \<Rightarrow> wchar list \<Rightarrow> int option" where
  "cmp_char T ignore_case xs ys = (if ignore_case then StrCmpNI T xs ys 1 else StrCmpN T xs ys 1)"

lemma digits_loop_drop:
  "digits_loop res xs ys k = (r, xs', ys', k') \<Longrightarrow> \<exists>d. k' = k + d \<and> xs' = drop d xs \<and> ys' = drop d ys \<and> d \<le> length xs \<and> d \<le> length ys"
proof (induction res xs ys k rule: digits_loop.induct)
  case (1 res x xs y ys k)
  show ?case
  proof (cases "iswdigit x \<and> iswdigit y")
    case True
    with 1 obtain d where "k' = k + 1 + d \<and> xs' = drop d xs \<and> ys' = drop d ys \<and> d \<le> length xs \<and> d \<le> length ys" by auto
    then show ?thesis by (intro exI [of _ "Suc d"]) simp
  qed (use 1 in auto)
qed auto

lemma zeroes_le: "zeroes xs \<le> length xs"
  by (simp add: zeroes_def length_takeWhile_le)

text \<open>Every round passes at least one character: a zero, a digit, or the compared one.\<close>

lemma digits_loop_digit:
  assumes "digits_loop res xs ys k = (r, xs', ys', k')" "at_digit xs" "at_digit ys"
  shows "k < k'"
proof -
  obtain x xs1 y ys1 where x: "xs = x # xs1" "ys = y # ys1" using assms(2,3) by (cases xs; cases ys) (auto simp: at_digit_def)
  with assms obtain res' where "digits_loop res' xs1 ys1 (k + 1) = (r, xs', ys', k')" by (auto simp: at_digit_def)
  then show ?thesis using digits_loop_drop by fastforce
qed

lemma digits_loop_passes:
  assumes "digits_loop 0 (drop (zeroes xs) xs) (drop (zeroes ys) ys) 0 = (res, xs2, ys2, k)" "at_digit xs" "at_digit ys"
  shows "length xs2 + length ys2 < length xs + length ys"
proof -
  obtain d where d: "k = 0 + d" "xs2 = drop d (drop (zeroes xs) xs)" "ys2 = drop d (drop (zeroes ys) ys)"
    using digits_loop_drop [OF assms(1)] by blast
  have "0 < d \<or> 0 < zeroes xs \<or> 0 < zeroes ys"
    using digits_loop_digit [of 0 xs ys 0 res xs2 ys2 k] assms d(1) by (cases "zeroes xs = 0 \<and> zeroes ys = 0") auto
  moreover have "0 < length xs" "0 < length ys" using assms(2,3) by (simp_all add: at_digit_def)
  ultimately show ?thesis using d(2,3) by (simp del: length_greater_0_conv) linarith
qed

lemma tl_shorter: "xs \<noteq> [] \<Longrightarrow> length xs - Suc 0 < length xs"
  by (cases xs) auto

function num_loop :: "sort_tables \<Rightarrow> bool \<Rightarrow> wchar list \<Rightarrow> nat \<Rightarrow> wchar list \<Rightarrow> nat \<Rightarrow> int option" where
  "num_loop T ic xs l1 ys l2 =
     (if xs = [] \<or> ys = [] then num_end xs l1 ys l2
      else if iswdigit (hd xs) \<and> iswdigit (hd ys) then
        let z1 = zeroes xs; z2 = zeroes ys; xs1 = drop z1 xs; ys1 = drop z2 ys in
        if xs1 = [] \<or> ys1 = [] then num_end xs1 (l1 + z1) ys1 (l2 + z2)
        else (case digits_loop 0 xs1 ys1 0 of (res, xs2, ys2, k) \<Rightarrow>
          if \<not> at_digit xs2 \<and> \<not> at_digit ys2 then
            if res \<noteq> 0 then Some res else num_loop T ic xs2 (l1 + z1 + k) ys2 (l2 + z2 + k)
          else if \<not> at_digit xs2 then Some (-1)
          else if \<not> at_digit ys2 then Some 1
          else num_loop T ic xs2 (l1 + z1 + k) ys2 (l2 + z2 + k))
      else
        do { res \<leftarrow> cmp_char T ic xs ys;
             if res \<noteq> 0 then Some res else num_loop T ic (tl xs) (l1 + 1) (tl ys) (l2 + 1) })"
  by pat_completeness auto

termination
  by (relation "measure (\<lambda>(T, ic, xs, l1, ys, l2). length xs + length ys)")
    (auto simp: at_digit_def intro: add_strict_mono tl_shorter dest!: digits_loop_passes [OF sym])

declare num_loop.simps [simp del]

definition NumStrCmp :: "sort_tables \<Rightarrow> wchar list \<Rightarrow> nat \<Rightarrow> wchar list \<Rightarrow> nat \<Rightarrow> bool \<Rightarrow> int option" where
  "NumStrCmp T s1 n1 s2 n2 ignore_case = num_loop T ignore_case (take n1 s1) 0 (take n2 s2) 0"

section \<open>Totality and antisymmetry of the natural order\<close>

lemma digits_loop_swap:
  "digits_loop res xs ys k = (r, xs', ys', k') \<Longrightarrow> digits_loop (- res) ys xs k = (- r, ys', xs', k')"
proof (induction res xs ys k rule: digits_loop.induct)
  case (1 res x xs y ys k)
  show ?case
  proof (cases "iswdigit x \<and> iswdigit y")
    case True
    have "- (if res = 0 \<and> x \<noteq> y then (if x < y then -1 else 1) else res) =
        (if - res = 0 \<and> y \<noteq> x then (if y < x then -1 else 1) else - res)" by auto
    with True 1 show ?thesis by simp
  qed (use 1 in auto)
qed auto

lemma digits_loop_stops:
  "digits_loop res xs ys k = (r, xs', ys', k') \<Longrightarrow> \<not> (at_digit xs' \<and> at_digit ys')"
  by (induction res xs ys k rule: digits_loop.induct) (auto simp: at_digit_def split: if_splits)

lemma num_end_swap: "num_end xs l1 ys l2 = Some r \<Longrightarrow> num_end ys l2 xs l1 = Some (- r)"
  by (auto simp: num_end_def split: if_splits)

lemma num_end_Some: "xs = [] \<or> ys = [] \<Longrightarrow> \<exists>r. num_end xs l1 ys l2 = Some r"
  by (auto simp: num_end_def)

lemma take_one: "xs \<noteq> [] \<Longrightarrow> take (Suc 0) xs = [hd xs]"
  by (cases xs) auto

lemma cmp_char_key:
  assumes "tables_ok T" "plain_string xs" "plain_string ys" "xs \<noteq> []" "ys \<noteq> []"
  shows "cmp_char T ic xs ys = Some (lex_cmp (order_key T (\<not> ic) [hd xs]) (order_key T (\<not> ic) [hd ys]))"
  using StrCmpN_key [OF assms(1), of xs ys 1] assms(2-5)
  by (simp add: cmp_char_def plain_string_def take_one Suc_le_eq)

lemma plain_string_parts: "plain_string xs \<Longrightarrow> plain_string (drop n xs)" "plain_string xs \<Longrightarrow> plain_string (tl xs)"
    "plain_string xs \<Longrightarrow> plain_string (take n xs)"
  by (auto simp: plain_string_def dest: in_set_dropD in_set_takeD) (metis list.sel(2) list.set_sel(2))

lemma num_loop_total:
  "tables_ok T \<Longrightarrow> plain_string xs \<Longrightarrow> plain_string ys \<Longrightarrow>
    \<exists>r. num_loop T ic xs l1 ys l2 = Some r \<and> num_loop T ic ys l2 xs l1 = Some (- r)"
proof (induction T ic xs l1 ys l2 rule: num_loop.induct)
  case (1 T ic xs l1 ys l2)
  consider (end') "xs = [] \<or> ys = []" | (digits) "\<not> (xs = [] \<or> ys = [])" "iswdigit (hd xs) \<and> iswdigit (hd ys)"
    | (char) "\<not> (xs = [] \<or> ys = [])" "\<not> (iswdigit (hd xs) \<and> iswdigit (hd ys))" by blast
  then show ?case
  proof cases
    case end'
    then show ?thesis using num_end_Some [OF end', of l1 l2] num_end_swap by (auto simp: num_loop.simps)
  next
    case char
    let ?r = "lex_cmp (order_key T (\<not> ic) [hd xs]) (order_key T (\<not> ic) [hd ys])"
    have c: "cmp_char T ic xs ys = Some ?r" "cmp_char T ic ys xs = Some (- ?r)"
      using cmp_char_key [OF 1(4-6)] cmp_char_key [OF 1(4,6,5)] char(1)
      by (simp_all add: lex_cmp_swap [of "order_key T (\<not> ic) [hd xs]" "order_key T (\<not> ic) [hd ys]"])
    have u: "num_loop T ic xs l1 ys l2 = (if ?r \<noteq> 0 then Some ?r else num_loop T ic (tl xs) (l1 + 1) (tl ys) (l2 + 1))"
      "num_loop T ic ys l2 xs l1 = (if ?r \<noteq> 0 then Some (- ?r) else num_loop T ic (tl ys) (l2 + 1) (tl xs) (l1 + 1))"
    proof -
      have f: "(xs = [] \<or> ys = []) = False" "(ys = [] \<or> xs = []) = False" "(iswdigit (hd xs) \<and> iswdigit (hd ys)) = False"
        "(iswdigit (hd ys) \<and> iswdigit (hd xs)) = False" using char by auto
      show "num_loop T ic xs l1 ys l2 = (if ?r \<noteq> 0 then Some ?r else num_loop T ic (tl xs) (l1 + 1) (tl ys) (l2 + 1))"
        by (subst num_loop.simps) (simp only: f if_False c bind.bind_lunit)
      show "num_loop T ic ys l2 xs l1 = (if ?r \<noteq> 0 then Some (- ?r) else num_loop T ic (tl ys) (l2 + 1) (tl xs) (l1 + 1))"
        by (subst num_loop.simps) (simp only: f if_False c bind.bind_lunit neg_equal_0_iff_equal)
    qed
    show ?thesis
    proof (cases "?r = 0")
      case True
      then show ?thesis
        using 1(3) [OF char c(1) _ 1(4) plain_string_parts(2) [OF 1(5)] plain_string_parts(2) [OF 1(6)]] unfolding u by simp
    next
      case False
      then show ?thesis unfolding u by simp
    qed
  next
    case digits
    let ?xs = "drop (zeroes xs) xs" and ?ys = "drop (zeroes ys) ys"
    show ?thesis
    proof (cases "?xs = [] \<or> ?ys = []")
      case True
      have u: "num_loop T ic xs l1 ys l2 = num_end ?xs (l1 + zeroes xs) ?ys (l2 + zeroes ys)"
        "num_loop T ic ys l2 xs l1 = num_end ?ys (l2 + zeroes ys) ?xs (l1 + zeroes xs)"
        using digits True by (simp_all only: num_loop.simps [of T ic xs] num_loop.simps [of T ic ys] Let_def simp_thms if_True if_False disj_commute)
      show ?thesis
        using num_end_Some [OF True, of "l1 + zeroes xs" "l2 + zeroes ys"] num_end_swap unfolding u by blast
    next
      case False
      obtain res xs2 ys2 k where d: "digits_loop 0 ?xs ?ys 0 = (res, xs2, ys2, k)" by (metis surj_pair)
      have d': "digits_loop 0 ?ys ?xs 0 = (- res, ys2, xs2, k)" using digits_loop_swap [OF d] by simp
      have st: "\<not> (at_digit xs2 \<and> at_digit ys2)" by (rule digits_loop_stops [OF d])
      have p: "plain_string xs2" "plain_string ys2"
        using digits_loop_drop [OF d] 1(5,6) by (auto intro: plain_string_parts)
      have u: "num_loop T ic xs l1 ys l2 = (if \<not> at_digit xs2 \<and> \<not> at_digit ys2 then
          if res \<noteq> 0 then Some res else num_loop T ic xs2 (l1 + zeroes xs + k) ys2 (l2 + zeroes ys + k)
          else if \<not> at_digit xs2 then Some (-1) else Some 1)"
        "num_loop T ic ys l2 xs l1 = (if \<not> at_digit xs2 \<and> \<not> at_digit ys2 then
          if res \<noteq> 0 then Some (- res) else num_loop T ic ys2 (l2 + zeroes ys + k) xs2 (l1 + zeroes xs + k)
          else if \<not> at_digit ys2 then Some (-1) else Some 1)"
        using digits False d d' st by (simp_all add: num_loop.simps [of T ic xs] num_loop.simps [of T ic ys])
      show ?thesis
      proof (cases "\<not> at_digit xs2 \<and> \<not> at_digit ys2 \<and> res = 0")
        case True
        then show ?thesis
          using 1(1) [OF digits refl refl refl refl False d [symmetric] refl refl _ _ 1(4) p] unfolding u by simp
      next
        case nt: False
        then show ?thesis using st unfolding u by auto
      qed
    qed
  qed
qed

text \<open>
  The natural comparison gives a result for any two names and never comes to its failing assertion; with the names
  exchanged the result has the opposite sign.
\<close>

theorem NumStrCmp_total_antisym:
  assumes "tables_ok T" and "plain_string s1" and "plain_string s2"
  shows "\<exists>r. NumStrCmp T s1 n1 s2 n2 ic = Some r \<and> NumStrCmp T s2 n2 s1 n1 ic = Some (- r)"
  unfolding NumStrCmp_def by (rule num_loop_total [OF assms(1) plain_string_parts(3) [OF assms(2)] plain_string_parts(3) [OF assms(3)]])

theorem NumStrCmp_total_antisym_witness:
  "\<exists>r. NumStrCmp tiny_sort [0x61, 0x31] 9 [0x61, 0x32] 9 True = Some r \<and> NumStrCmp tiny_sort [0x61, 0x32] 9 [0x61, 0x31] 9 True = Some (- r)"
  by (rule NumStrCmp_total_antisym [OF tiny_sort_ok]) (simp_all add: plain_string_def)

section \<open>Numbers\<close>

definition digit_value :: "wchar \<Rightarrow> nat" where
  "digit_value c = unat (c - 0x30)"

fun number :: "wchar list \<Rightarrow> nat" where
  "number [] = 0"
| "number (c # cs) = digit_value c * 10 ^ length cs + number cs"

definition all_digits :: "wchar list \<Rightarrow> bool" where
  "all_digits xs \<longleftrightarrow> (\<forall>c \<in> set xs. iswdigit c)"

definition order_of :: "nat \<Rightarrow> nat \<Rightarrow> int" where
  "order_of a b = (if a < b then -1 else if a = b then 0 else 1)"

lemma digit_value_iff:
  assumes "iswdigit c" "iswdigit d"
  shows "digit_value c < 10" "c < d \<longleftrightarrow> digit_value c < digit_value d" "c = d \<longleftrightarrow> digit_value c = digit_value d"
    "digit_value c = 0 \<longleftrightarrow> c = 0x30"
proof -
  have u: "digit_value e = unat e - 48 \<and> 48 \<le> unat e \<and> unat e \<le> 57" if "iswdigit e" for e
    using that by (auto simp: iswdigit_def digit_value_def word_le_nat_alt unat_sub)
  show "digit_value c < 10" using u [OF assms(1)] by linarith
  show "c < d \<longleftrightarrow> digit_value c < digit_value d" using u [OF assms(1)] u [OF assms(2)] by (auto simp: word_less_nat_alt)
  show "c = d \<longleftrightarrow> digit_value c = digit_value d"
    using u [OF assms(1)] u [OF assms(2)] by (auto intro: word_unat_eq_iff [THEN iffD2])
  show "digit_value c = 0 \<longleftrightarrow> c = 0x30"
    using u [OF assms(1)] by (auto simp: word_unat_eq_iff [of c])
qed

lemma number_less: "all_digits xs \<Longrightarrow> number xs < 10 ^ length xs"
proof (induction xs)
  case (Cons c cs)
  then have "number cs < 10 ^ length cs" "digit_value c \<le> 9" using digit_value_iff(1) [of c c] by (auto simp: all_digits_def)
  then have "digit_value c * 10 ^ length cs + number cs < 9 * 10 ^ length cs + 10 ^ length cs"
    by (intro add_le_less_mono mult_right_mono) auto
  then show ?case by simp
qed simp

lemma order_of_Cons:
  assumes "all_digits (x # xs)" "all_digits (y # ys)" "length xs = length ys"
  shows "order_of (number (x # xs)) (number (y # ys)) =
    (if x \<noteq> y then (if x < y then -1 else 1) else order_of (number xs) (number ys))"
proof -
  let ?p = "10 ^ length ys :: nat"
  have n: "number xs < ?p" "number ys < ?p" using number_less assms by (metis all_digits_def list.set_intros(2))+
  have d: "iswdigit x" "iswdigit y" using assms by (auto simp: all_digits_def)
  have less: "a * ?p + m < b * ?p + k" if "a < b" "m < ?p" for a b m k :: nat
  proof -
    have "a * ?p + m < (a + 1) * ?p" using that(2) by simp
    also have "\<dots> \<le> b * ?p" using that(1) by (intro mult_right_mono) auto
    finally show ?thesis by simp
  qed
  show ?thesis
    using digit_value_iff(2,3) [OF d] less [of "digit_value x" "digit_value y" "number xs" "number ys"]
      less [of "digit_value y" "digit_value x" "number ys" "number xs"] n assms(3)
    by (auto simp: order_of_def linorder_neq_iff)
qed

lemma digits_loop_equal:
  "all_digits xs \<Longrightarrow> all_digits ys \<Longrightarrow> length xs = length ys \<Longrightarrow>
    digits_loop res xs ys k = (if res = 0 then order_of (number xs) (number ys) else res, [], [], k + length xs)"
proof (induction res xs ys k rule: digits_loop.induct)
  case (1 res x xs y ys k)
  have d: "iswdigit x \<and> iswdigit y" "all_digits xs" "all_digits ys" using 1(2,3) by (auto simp: all_digits_def)
  show ?case
    using 1(1) [OF d] 1(4) d(1) order_of_Cons [OF 1(2,3)] by simp
qed (auto simp: order_of_def)

lemma digits_loop_shorter:
  "all_digits xs \<Longrightarrow> all_digits ys \<Longrightarrow> length xs < length ys \<Longrightarrow>
    \<exists>r. digits_loop res xs ys k = (r, [], drop (length xs) ys, k + length xs)"
proof (induction res xs ys k rule: digits_loop.induct)
  case (1 res x xs y ys k)
  have d: "iswdigit x \<and> iswdigit y" "all_digits xs" "all_digits ys" using 1(2,3) by (auto simp: all_digits_def)
  show ?case using 1(1) [OF d] 1(4) d(1) by simp
qed auto

lemma number_zeroes: "all_digits xs \<Longrightarrow> number (drop (zeroes xs) xs) = number xs"
proof (induction xs)
  case (Cons c cs)
  then have "number (drop (zeroes cs) cs) = number cs" by (simp add: all_digits_def)
  moreover have "digit_value 0x30 = 0" by (simp add: digit_value_def)
  ultimately show ?case by (simp add: zeroes_def)
qed (simp add: zeroes_def)

lemma number_significant:
  assumes "all_digits xs" "xs1 = drop (zeroes xs) xs" "xs1 \<noteq> []"
  shows "10 ^ (length xs1 - 1) \<le> number xs1"
proof -
  obtain c cs where c: "xs1 = c # cs" using assms(3) by (cases xs1) auto
  have "c \<noteq> 0x30" using assms(2) c
    by (simp add: zeroes_def dropWhile_eq_drop [symmetric]) (metis (full_types) dropWhile_eq_Cons_conv)
  moreover have "iswdigit c" using assms(1,2) c by (metis all_digits_def in_set_dropD list.set_intros(1))
  ultimately have "1 \<le> digit_value c" using digit_value_iff(4) [of c c] by simp
  then have "1 * 10 ^ length cs \<le> digit_value c * 10 ^ length cs" by (intro mult_right_mono) auto
  then have "10 ^ length cs \<le> digit_value c * 10 ^ length cs + number cs" by linarith
  then show ?thesis using c by simp
qed

lemma all_digits_drop: "all_digits xs \<Longrightarrow> all_digits (drop n xs)"
  by (auto simp: all_digits_def dest: in_set_dropD)

lemma at_digit_all: "all_digits xs \<Longrightarrow> at_digit xs \<longleftrightarrow> xs \<noteq> []"
  by (cases xs) (auto simp: at_digit_def all_digits_def)

lemma zeroes_all: "drop (zeroes xs) xs = [] \<Longrightarrow> zeroes xs = length xs"
  using zeroes_le [of xs] by simp

lemma shorter_less:
  assumes "all_digits xs" "all_digits ys" "length (drop (zeroes xs) xs) < length (drop (zeroes ys) ys)"
  shows "number xs < number ys"
proof -
  let ?xs = "drop (zeroes xs) xs" and ?ys = "drop (zeroes ys) ys"
  have "number xs < 10 ^ length ?xs" using number_less [OF all_digits_drop [OF assms(1)]] number_zeroes [OF assms(1)] by metis
  also have "(10 :: nat) ^ length ?xs \<le> 10 ^ (length ?ys - 1)" using assms(3) by (intro power_increasing) linarith+
  also have "\<dots> \<le> number ?ys" using number_significant [OF assms(2) refl] assms(3) by fastforce
  finally show ?thesis using number_zeroes [OF assms(2)] by simp
qed

lemma num_loop_Nil: "num_loop T ic [] l1 ys l2 = num_end [] l1 ys l2"
  by (subst num_loop.simps) simp

lemma num_loop_numbers:
  assumes "all_digits xs" "all_digits ys" "xs \<noteq> []" "ys \<noteq> []"
  shows "num_loop T ic xs 0 ys 0 =
    Some (if number xs = number ys then order_of (length xs) (length ys) else order_of (number xs) (number ys))"
proof -
  let ?xs = "drop (zeroes xs) xs" and ?ys = "drop (zeroes ys) ys"
  note dx = all_digits_drop [OF assms(1), of "zeroes xs"] and dy = all_digits_drop [OF assms(2), of "zeroes ys"]
  note nx = number_zeroes [OF assms(1)] and ny = number_zeroes [OF assms(2)]
  have h: "iswdigit (hd xs) \<and> iswdigit (hd ys)" using assms by (auto simp: all_digits_def)
  have u: "num_loop T ic xs 0 ys 0 =
     (if ?xs = [] \<or> ?ys = [] then num_end ?xs (zeroes xs) ?ys (zeroes ys)
      else (case digits_loop 0 ?xs ?ys 0 of (res, xs2, ys2, k) \<Rightarrow>
        if \<not> at_digit xs2 \<and> \<not> at_digit ys2 then
          if res \<noteq> 0 then Some res else num_loop T ic xs2 (zeroes xs + k) ys2 (zeroes ys + k)
        else if \<not> at_digit xs2 then Some (-1)
        else if \<not> at_digit ys2 then Some 1
        else num_loop T ic xs2 (zeroes xs + k) ys2 (zeroes ys + k)))"
    by (subst num_loop.simps) (simp only: assms(3,4) h Let_def simp_thms if_True if_False add_0)
  consider (less) "length ?xs < length ?ys" | (greater) "length ?ys < length ?xs" | (equal) "length ?xs = length ?ys"
    by linarith
  then show ?thesis
  proof cases
    case less
    have n: "number xs < number ys" by (rule shorter_less [OF assms(1,2) less])
    obtain r where d: "digits_loop 0 ?xs ?ys 0 = (r, [], drop (length ?xs) ?ys, 0 + length ?xs)"
      using digits_loop_shorter [OF dx dy less] by blast
    have "at_digit (drop (length ?xs) ?ys)" using less at_digit_all [OF all_digits_drop [OF dy]] by simp
    then have "num_loop T ic xs 0 ys 0 = Some (-1)"
      using less by (cases "?xs = []") (simp_all only: u d, auto simp: num_end_def at_digit_def)
    then show ?thesis using n by (simp add: order_of_def)
  next
    case greater
    have n: "number ys < number xs" by (rule shorter_less [OF assms(2,1) greater])
    obtain r where "digits_loop 0 ?ys ?xs 0 = (r, [], drop (length ?ys) ?xs, 0 + length ?ys)"
      using digits_loop_shorter [OF dy dx greater] by blast
    from digits_loop_swap [OF this] have d: "digits_loop 0 ?xs ?ys 0 = (- r, drop (length ?ys) ?xs, [], 0 + length ?ys)" by simp
    have "at_digit (drop (length ?ys) ?xs)" using greater at_digit_all [OF all_digits_drop [OF dx]] by simp
    then have "num_loop T ic xs 0 ys 0 = Some 1"
      using greater by (cases "?ys = []") (simp_all only: u d, auto simp: num_end_def at_digit_def)
    then show ?thesis using n by (simp add: order_of_def)
  next
    case equal
    have l: "zeroes xs + length ?xs = length xs" "zeroes ys + length ?ys = length ys" using zeroes_le [of xs] zeroes_le [of ys] by simp_all
    show ?thesis
    proof (cases "?xs = []")
      case True
      then have y: "?ys = []" using equal by simp
      then have "number xs = 0" "number ys = 0" using nx ny True by (metis number.simps(1))+
      moreover have "num_loop T ic xs 0 ys 0 = num_end [] (zeroes xs) [] (zeroes ys)"
        unfolding u True y by (simp only: simp_thms if_True)
      ultimately show ?thesis using zeroes_all [OF True] zeroes_all [OF y] by (simp add: num_end_def order_of_def)
    next
      case False
      have "num_loop T ic xs 0 ys 0 =
          (if order_of (number xs) (number ys) \<noteq> 0 then Some (order_of (number xs) (number ys))
           else num_end [] (zeroes xs + length ?xs) [] (zeroes ys + length ?xs))"
      proof -
        have y: "?ys \<noteq> []" using False equal by (metis length_0_conv)
        have d: "digits_loop 0 ?xs ?ys 0 = (order_of (number xs) (number ys), [], [], length ?xs)"
          using digits_loop_equal [OF dx dy equal, of 0 0] unfolding nx ny by (simp only: if_True simp_thms add_0)
        have a: "at_digit [] = False" by (simp add: at_digit_def)
        show ?thesis unfolding u d using False y by (simp only: a num_loop_Nil split_conv simp_thms if_False if_True)
      qed
      then have "num_loop T ic xs 0 ys 0 =
          (if order_of (number xs) (number ys) \<noteq> 0 then Some (order_of (number xs) (number ys))
           else num_end [] (length xs) [] (length ys))"
        unfolding l(1) unfolding equal l(2) .
      then show ?thesis by (auto simp: order_of_def num_end_def)
    qed
  qed
qed

text \<open>
  Two numbers are ordered by their values, whatever their number of leading zeroes; among equal
  values the one with fewer digits comes first.
\<close>

theorem NumStrCmp_numbers:
  assumes "all_digits xs" and "all_digits ys" and "xs \<noteq> []" and "ys \<noteq> []"
    and "length xs \<le> n1" and "length ys \<le> n2"
  shows "NumStrCmp T xs n1 ys n2 ic =
    Some (if number xs = number ys then order_of (length xs) (length ys) else order_of (number xs) (number ys))"
  using num_loop_numbers [OF assms(1-4)] assms(5,6) by (simp add: NumStrCmp_def)

theorem NumStrCmp_numbers_witness:
  "NumStrCmp tiny_sort [0x31, 0x30] 9 [0x30, 0x32] 9 True = Some 1"
proof -
  have "all_digits [0x31, 0x30]" "all_digits [0x30, 0x32]" "number [0x31, 0x30] = 10" "number [0x30, 0x32] = 2" by code_simp+
  then show ?thesis using NumStrCmp_numbers [of "[0x31, 0x30]" "[0x30, 0x32]" 9 9] by (simp add: order_of_def)
qed

text \<open>
  The natural order is not transitive: if a character that is not an ASCII digit sorts between
  the digits 1 and 9, such as the superscript two or an Arabic digit, then 10 is less
  than it, it is less than 9, and 9 is less than 10.
\<close>

theorem NumStrCmp_cycle:
  assumes "tables_ok T" and "d \<noteq> 0" and "\<not> iswdigit d"
    and "lex_cmp (order_key T (\<not> ic) [0x31]) (order_key T (\<not> ic) [d]) < 0"
    and "lex_cmp (order_key T (\<not> ic) [d]) (order_key T (\<not> ic) [0x39]) < 0"
  shows "\<exists>p q. NumStrCmp T [0x31, 0x30] 2 [d] 2 ic = Some p \<and> p < 0 \<and> NumStrCmp T [d] 2 [0x39] 2 ic = Some q \<and> q < 0 \<and>
    NumStrCmp T [0x39] 2 [0x31, 0x30] 2 ic = Some (-1)"
proof -
  have p: "plain_string [0x31, 0x30]" "plain_string [d]" "plain_string [0x39]" using assms(2) by (simp_all add: plain_string_def)
  have "num_loop T ic [0x31, 0x30] 0 [d] 0 = Some (lex_cmp (order_key T (\<not> ic) [0x31]) (order_key T (\<not> ic) [d]))"
    using cmp_char_key [OF assms(1) p(1,2)] assms(3,4) by (subst num_loop.simps) simp
  moreover have "num_loop T ic [d] 0 [0x39] 0 = Some (lex_cmp (order_key T (\<not> ic) [d]) (order_key T (\<not> ic) [0x39]))"
    using cmp_char_key [OF assms(1) p(2,3)] assms(3,5) by (subst num_loop.simps) simp
  moreover have "num_loop T ic [0x39] 0 [0x31, 0x30] 0 = Some (-1)"
  proof -
    have d: "all_digits [0x39]" "all_digits [0x31, 0x30]" "number [0x39] = 9" "number [0x31, 0x30] = 10" by code_simp+
    show ?thesis using num_loop_numbers [OF d(1,2)] d(3,4) by (simp add: order_of_def)
  qed
  ultimately show ?thesis using assms(4,5) by (simp add: NumStrCmp_def)
qed

theorem NumStrCmp_cycle_witness:
  "\<exists>p q. NumStrCmp tiny_sort [0x31, 0x30] 2 [0x135] 2 False = Some p \<and> p < 0 \<and> NumStrCmp tiny_sort [0x135] 2 [0x39] 2 False = Some q \<and>
    q < 0 \<and> NumStrCmp tiny_sort [0x39] 2 [0x31, 0x30] 2 False = Some (-1)"
proof -
  have d: "\<not> iswdigit 0x135" "lex_cmp (order_key tiny_sort (\<not> False) [0x31]) (order_key tiny_sort (\<not> False) [0x135]) < 0"
    "lex_cmp (order_key tiny_sort (\<not> False) [0x135]) (order_key tiny_sort (\<not> False) [0x39]) < 0" by code_simp+
  show ?thesis using NumStrCmp_cycle [OF tiny_sort_ok _ d] by simp
qed

end
