(* ===== verification/PathMix.thy ===== *)
theory PathMix
  imports WineTables
begin

text \<open>
  Paths and the names in them: \<^verbatim>\<open>far/src/mix/pathmix.cpp\<close>. A string is the list of its characters without the
  terminator, a pointer into it is an index, and NULL is \<open>None\<close>. Left out is what asks the system:
  the current directory, full names and the search for executables.
\<close>

section \<open>Classification\<close>

definition GOOD_SLASH :: wchar where "GOOD_SLASH = 0x2f"

definition IsSlash :: "wchar \<Rightarrow> bool" where
  "IsSlash x \<longleftrightarrow> x = GOOD_SLASH"

text \<open>The character at a position; the terminator behind the last one.\<close>

definition char_at :: "wchar list \<Rightarrow> nat \<Rightarrow> wchar" where
  "char_at s i = (if i < length s then s ! i else 0)"

definition IsNetworkPath :: "wchar list option \<Rightarrow> bool" where
  "IsNetworkPath p = False"

definition IsNetworkServerPath :: "wchar list option \<Rightarrow> bool" where
  "IsNetworkServerPath p = False"

definition HasPathPrefix :: "wchar list option \<Rightarrow> bool" where
  "HasPathPrefix p = False"

definition IsLocalPath :: "wchar list option \<Rightarrow> bool" where
  "IsLocalPath p = (case p of None \<Rightarrow> False | Some s \<Rightarrow> char_at s 0 = GOOD_SLASH)"

definition IsLocalRootPath :: "wchar list option \<Rightarrow> bool" where
  "IsLocalRootPath p = (case p of None \<Rightarrow> False | Some s \<Rightarrow> char_at s 0 = GOOD_SLASH \<and> char_at s 1 = 0)"

definition IsAbsolutePath :: "wchar list option \<Rightarrow> bool" where
  "IsAbsolutePath p \<longleftrightarrow> p \<noteq> None \<and> (HasPathPrefix p \<or> IsLocalPath p \<or> IsNetworkPath p)"

definition IsLocalPrefixPath :: "wchar list option \<Rightarrow> bool" where
  "IsLocalPrefixPath p = HasPathPrefix p"

definition IsLocalPrefixRootPath :: "wchar list option \<Rightarrow> bool" where
  "IsLocalPrefixRootPath p \<longleftrightarrow> IsLocalPrefixPath p \<and> char_at (the p) 7 = 0"

definition IsLocalVolumePath :: "wchar list option \<Rightarrow> bool" where
  "IsLocalVolumePath p = HasPathPrefix p"

definition IsLocalVolumeRootPath :: "wchar list option \<Rightarrow> bool" where
  "IsLocalVolumeRootPath p \<longleftrightarrow> IsLocalVolumePath p \<and>
     (char_at (the p) 48 = 0 \<or> IsSlash (char_at (the p) 48) \<and> char_at (the p) 49 = 0)"

definition FirstSlash :: "wchar list \<Rightarrow> nat option" where
  "FirstSlash s = (if GOOD_SLASH \<in> set s then Some (length (takeWhile (\<lambda>c. \<not> IsSlash c) s)) else None)"

definition PathCanHoldRegularFile :: "wchar list \<Rightarrow> bool" where
  "PathCanHoldRegularFile s =
     (if \<not> IsNetworkPath (Some s) then True
      else case FirstSlash s of None \<Rightarrow> False | Some p \<Rightarrow> char_at s (p + 1) \<noteq> 0)"

fun plugin_prefix_loop :: "wchar list \<Rightarrow> nat \<Rightarrow> bool" where
  "plugin_prefix_loop [] p = False"
| "plugin_prefix_loop (c # cs) p = (if c = GOOD_SLASH then False else if c = 0x3a then p \<ge> 2 else plugin_prefix_loop cs (p + 1))"

definition IsPluginPrefixPath :: "wchar list \<Rightarrow> bool" where
  "IsPluginPrefixPath s = plugin_prefix_loop s 0"

definition TestParentFolderName :: "wchar list \<Rightarrow> bool" where
  "TestParentFolderName s \<longleftrightarrow> char_at s 0 = 0x2e \<and> char_at s 1 = 0x2e \<and>
     (char_at s 2 = 0 \<or> IsSlash (char_at s 2) \<and> char_at s 3 = 0)"

definition TestCurrentFolderName :: "wchar list \<Rightarrow> bool" where
  "TestCurrentFolderName s \<longleftrightarrow> char_at s 0 = 0x2e \<and> (char_at s 1 = 0 \<or> IsSlash (char_at s 1) \<and> char_at s 2 = 0)"

definition IsRootPath :: "wchar list \<Rightarrow> bool" where
  "IsRootPath s \<longleftrightarrow> s = [0x2f]"

definition PathHasParentPrefix :: "wchar list \<Rightarrow> bool" where
  "PathHasParentPrefix s \<longleftrightarrow> take 1 s = [GOOD_SLASH] \<or> take 2 s = [0x2e, 0x2f] \<or> s = [0x2e]"

definition EnsurePathHasParentPrefix :: "wchar list \<Rightarrow> wchar list" where
  "EnsurePathHasParentPrefix s = (if PathHasParentPrefix s then s else [0x2e, 0x2f] @ s)"

section \<open>Names and extensions\<close>

fun last_slash_loop :: "wchar list \<Rightarrow> nat \<Rightarrow> nat option \<Rightarrow> nat option" where
  "last_slash_loop [] i found = found"
| "last_slash_loop (c # cs) i found = last_slash_loop cs (i + 1) (if IsSlash c then Some i else found)"

fun scan_back :: "wchar list \<Rightarrow> nat \<Rightarrow> nat option" where
  "scan_back s 0 = None"
| "scan_back s (Suc p) = (if IsSlash (char_at s p) then Some p else scan_back s p)"

text \<open>\<open>PointToName\<close> with and without a pointer to the end.\<close>

definition PointToName :: "wchar list option \<Rightarrow> nat option \<Rightarrow> nat option" where
  "PointToName path ending =
     (case path of
        None \<Rightarrow> None
      | Some s \<Rightarrow>
          (case (case ending of Some e \<Rightarrow> scan_back s e | None \<Rightarrow> last_slash_loop s 0 None) of
             Some p \<Rightarrow> Some (p + 1)
           | None \<Rightarrow> Some 0))"

fun folder_loop :: "wchar list \<Rightarrow> nat \<Rightarrow> nat \<Rightarrow> nat \<Rightarrow> nat \<times> nat" where
  "folder_loop [] i name prev = (name, prev)"
| "folder_loop (c # cs) i name prev = (if IsSlash c then folder_loop cs (i + 1) (i + 1) name else folder_loop cs (i + 1) name prev)"

definition PointToFolderNameIfFolder :: "wchar list option \<Rightarrow> nat option" where
  "PointToFolderNameIfFolder path =
     (case path of
        None \<Rightarrow> None
      | Some s \<Rightarrow> (case folder_loop s 0 0 0 of (name, prev) \<Rightarrow> Some (if char_at s name \<noteq> 0 then name else prev)))"

fun ext_loop :: "wchar list \<Rightarrow> nat \<Rightarrow> nat \<Rightarrow> nat" where
  "ext_loop s e 0 = e"
| "ext_loop s e (Suc p) =
     (if char_at s (Suc p) = 0x2e then Suc p else if IsSlash (char_at s (Suc p)) then e else ext_loop s e p)"

definition PointToExt :: "wchar list option \<Rightarrow> nat option" where
  "PointToExt path = map_option (\<lambda>s. ext_loop s (length s) (length s)) path"

definition CutToFolderNameIfFolder :: "wchar list \<Rightarrow> wchar list" where
  "CutToFolderNameIfFolder s = (case folder_loop s 0 0 0 of (name, prev) \<Rightarrow> take (if char_at s name \<noteq> 0 then name else prev) s)"

definition LastSlash :: "wchar list \<Rightarrow> nat option" where
  "LastSlash s = scan_back s (length s)"

fun find_slash_loop :: "wchar list \<Rightarrow> nat \<Rightarrow> nat option" where
  "find_slash_loop [] p = None"
| "find_slash_loop (c # cs) p = (if IsSlash c then Some p else find_slash_loop cs (p + 1))"

definition FindSlash :: "wchar list \<Rightarrow> nat \<Rightarrow> nat option" where
  "FindSlash s start = find_slash_loop (drop start s) start"

definition FindLastSlash :: "wchar list \<Rightarrow> nat option" where
  "FindLastSlash s = scan_back s (length s)"

definition ExtractFileName :: "wchar list \<Rightarrow> wchar list" where
  "ExtractFileName s = drop (case FindLastSlash s of Some p \<Rightarrow> p + 1 | None \<Rightarrow> 0) s"

definition ExtractFilePath :: "wchar list \<Rightarrow> wchar list" where
  "ExtractFilePath s = take (case FindLastSlash s of Some p \<Rightarrow> p | None \<Rightarrow> 0) s"

text \<open>The overloads of \<open>CutToSlash\<close> for the two string classes give the flag opposite meanings.\<close>

definition CutToSlash :: "wchar list \<Rightarrow> bool \<Rightarrow> bool \<times> wchar list" where
  "CutToSlash s bInclude =
     (case FindLastSlash s of
        Some pos \<Rightarrow> (True, if bInclude then take pos s else take (pos + 1) s)
      | None \<Rightarrow> (False, s))"

definition CutToSlash_wstring :: "wchar list \<Rightarrow> bool \<Rightarrow> bool \<times> wchar list" where
  "CutToSlash_wstring s bInclude =
     (case scan_back s (length s) of
        None \<Rightarrow> (False, s)
      | Some pos \<Rightarrow> (True, take (if bInclude then pos + 1 else pos) s))"

section \<open>The slash at the end\<close>

definition AddEndSlash :: "wchar list \<Rightarrow> wchar list" where
  "AddEndSlash s = (if s = [] \<or> last s \<noteq> GOOD_SLASH then s @ [GOOD_SLASH] else s)"

text \<open>The overload for a buffer: its cells; \<open>None\<close> if it is too small.\<close>

definition AddEndSlash_buffer :: "wchar list \<Rightarrow> (bool \<times> wchar list) option" where
  "AddEndSlash_buffer buf =
     (if 0 \<notin> set buf then None
      else
        let len = length (takeWhile (\<lambda>c. c \<noteq> 0) buf) in
        if len \<noteq> 0 \<and> buf ! (len - 1) = GOOD_SLASH then Some (False, buf)
        else do { buf \<leftarrow> wr buf len GOOD_SLASH; buf \<leftarrow> wr buf (len + 1) 0; Some (True, buf) })"

fun delete_loop :: "bool \<Rightarrow> wchar list \<Rightarrow> nat \<Rightarrow> bool \<Rightarrow> bool \<times> wchar list" where
  "delete_loop all_slashes s 0 ret = (ret, s)"
| "delete_loop all_slashes s (Suc len) ret =
     (if IsSlash (char_at s len) then
        if all_slashes then delete_loop all_slashes (take len s) len True else (True, take len s)
      else (ret, s))"

definition DeleteEndSlash_buffer :: "wchar list \<Rightarrow> bool \<Rightarrow> bool \<times> wchar list" where
  "DeleteEndSlash_buffer s all_slashes = delete_loop all_slashes s (length s) False"

function pop_loop :: "bool \<Rightarrow> wchar list \<Rightarrow> bool \<Rightarrow> bool \<times> wchar list" where
  "pop_loop all_slashes s out =
     (if s \<noteq> [] \<and> IsSlash (last s) then
        if all_slashes then pop_loop all_slashes (butlast s) True else (True, butlast s)
      else (out, s))"
  by pat_completeness auto

termination
  by (relation "measure (\<lambda>(a, s, out). length s)") auto

declare pop_loop.simps [simp del]

definition DeleteEndSlash_wstring :: "wchar list \<Rightarrow> bool \<Rightarrow> bool \<times> wchar list" where
  "DeleteEndSlash_wstring s all_slashes = pop_loop all_slashes s False"

fun len_to_slash :: "bool \<Rightarrow> wchar list \<Rightarrow> nat \<Rightarrow> nat" where
  "len_to_slash all_slashes s 0 = 0"
| "len_to_slash all_slashes s (Suc n) =
     (if IsSlash (char_at s n) then if all_slashes then len_to_slash all_slashes s n else n else Suc n)"

definition DeleteEndSlash :: "wchar list \<Rightarrow> bool \<Rightarrow> bool \<times> wchar list" where
  "DeleteEndSlash s all_slashes =
     (let n = len_to_slash all_slashes s (length s) in if n = length s then (False, s) else (True, take n s))"

section \<open>Splitting a path\<close>

lemma scan_back_Some: "n \<le> length s \<Longrightarrow> scan_back s n = Some p \<longleftrightarrow> p < n \<and> IsSlash (s ! p) \<and> (\<forall>q. p < q \<and> q < n \<longrightarrow> \<not> IsSlash (s ! q))"
proof (induction n)
  case (Suc n)
  then show ?case by (cases "IsSlash (s ! n)") (auto simp: char_at_def less_Suc_eq)
qed simp

lemma scan_back_None: "n \<le> length s \<Longrightarrow> scan_back s n = None \<longleftrightarrow> (\<forall>q < n. \<not> IsSlash (s ! q))"
  by (induction n) (auto simp: char_at_def less_Suc_eq)

lemma last_slash_loop_append: "last_slash_loop (xs @ [c]) i f = (if IsSlash c then Some (i + length xs) else last_slash_loop xs i f)"
  by (induction xs arbitrary: i f) auto

lemma last_slash_loop_back: "n \<le> length s \<Longrightarrow> last_slash_loop (take n s) 0 None = scan_back s n"
proof (induction n)
  case (Suc n)
  then show ?case using last_slash_loop_append [of "take n s" "s ! n" 0 None]
    by (simp add: take_Suc_conv_app_nth char_at_def)
qed simp

text \<open>
  C0. With and without the end given, \<open>PointToName\<close> returns the index of the same name, the part behind the last
  slash, which is \<open>ExtractFileName\<close>; and a path with a slash is put together again from its
  \<open>ExtractFilePath\<close>, a slash and that name.
\<close>

theorem path_split:
  "\<exists>n. PointToName (Some s) None = Some n \<and> PointToName (Some s) (Some (length s)) = Some n \<and>
     ExtractFileName s = drop n s \<and> GOOD_SLASH \<notin> set (ExtractFileName s) \<and>
     s = (if GOOD_SLASH \<in> set s then ExtractFilePath s @ [GOOD_SLASH] else []) @ ExtractFileName s"
proof (cases "scan_back s (length s)")
  case None
  then have "GOOD_SLASH \<notin> set s" by (auto simp: scan_back_None in_set_conv_nth IsSlash_def)
  then show ?thesis
    using None last_slash_loop_back [of "length s" s]
    by (auto simp: PointToName_def ExtractFileName_def FindLastSlash_def)
next
  case (Some p)
  then have p: "p < length s" "s ! p = GOOD_SLASH" "\<forall>q. p < q \<and> q < length s \<longrightarrow> \<not> IsSlash (s ! q)"
    by (auto simp: scan_back_Some IsSlash_def)
  have "GOOD_SLASH \<notin> set (drop (Suc p) s)" using p(3) by (auto simp: in_set_conv_nth IsSlash_def)
  moreover have "s = take p s @ GOOD_SLASH # drop (Suc p) s" using id_take_nth_drop [OF p(1)] p(2) by simp
  moreover have "GOOD_SLASH \<in> set s" using p(1,2) nth_mem by fastforce
  ultimately show ?thesis
    using Some last_slash_loop_back [of "length s" s]
    by (auto simp: PointToName_def ExtractFileName_def ExtractFilePath_def FindLastSlash_def)
qed

text \<open>The name behind the path as a tail of the string.\<close>

lemma PointToName_rest:
  "the (PointToName (Some s) None) = length s - length (ExtractFileName s)"
  "drop (length s - length (ExtractFileName s)) s = ExtractFileName s"
  "length (ExtractFileName s) \<le> length s"
  "set (ExtractFileName s) \<subseteq> set s"
proof -
  show l: "length (ExtractFileName s) \<le> length s" by (simp add: ExtractFileName_def)
  show "set (ExtractFileName s) \<subseteq> set s" by (simp add: ExtractFileName_def set_drop_subset)
  show "the (PointToName (Some s) None) = length s - length (ExtractFileName s)"
  proof (cases "scan_back s (length s)")
    case (Some p)
    then have "p < length s" by (simp add: scan_back_Some)
    then show ?thesis
      using Some last_slash_loop_back [of "length s" s] by (simp add: PointToName_def ExtractFileName_def FindLastSlash_def)
  qed (use last_slash_loop_back [of "length s" s] in \<open>simp add: PointToName_def ExtractFileName_def FindLastSlash_def\<close>)
  show "drop (length s - length (ExtractFileName s)) s = ExtractFileName s"
  proof (cases "FindLastSlash s")
    case (Some n)
    then show ?thesis by (cases "Suc n \<le> length s") (simp_all add: ExtractFileName_def)
  qed (simp add: ExtractFileName_def)
qed

lemma pop_loop_take:
  "n \<le> length s \<Longrightarrow> pop_loop a (take n s) out =
    (let m = len_to_slash a s n in (if m = n then out else True, take m s))"
proof (induction n arbitrary: out)
  case (Suc n)
  have l: "last (take (Suc n) s) = char_at s n" "take (Suc n) s \<noteq> []" "butlast (take (Suc n) s) = take n s"
    using Suc(2) by (auto simp: take_Suc_conv_app_nth char_at_def)
  have le: "len_to_slash a s n \<le> n" for n by (induction n) auto
  show ?case
  proof (cases "IsSlash (char_at s n) \<and> a")
    case True
    then show ?thesis using Suc l le [of n] by (subst pop_loop.simps) (auto simp: Let_def)
  next
    case False
    then show ?thesis using l by (subst pop_loop.simps) auto
  qed
qed (simp add: pop_loop.simps)

lemma delete_loop_take:
  "n \<le> length s \<Longrightarrow> delete_loop a (take n s) n ret =
    (let m = len_to_slash a s n in (if m = n then ret else True, take m s))"
proof (induction n arbitrary: ret)
  case (Suc n)
  have c: "char_at (take (Suc n) s) n = char_at s n" using Suc(2) by (simp add: char_at_def)
  have le: "len_to_slash a s n \<le> n" for n by (induction n) auto
  show ?case using Suc le [of n] c by (cases "IsSlash (char_at s n)"; cases a) (auto simp: Let_def min_def)
qed simp

lemma len_to_slash_all: "n \<le> length s \<Longrightarrow> take (len_to_slash True s n) s = rev (dropWhile IsSlash (rev (take n s)))"
  by (induction n) (auto simp: take_Suc_conv_app_nth char_at_def)

text \<open>
  C0. The three overloads of \<open>DeleteEndSlash\<close>, for a buffer, a \<open>wstring\<close> and a \<open>FARString\<close>, agree; for all
  slashes the result is the string without its trailing slashes; and deleting undoes \<open>AddEndSlash\<close>.
\<close>

theorem end_slash_overloads:
  "DeleteEndSlash_buffer s a = DeleteEndSlash s a \<and> DeleteEndSlash_wstring s a = DeleteEndSlash s a \<and>
   snd (DeleteEndSlash s True) = rev (dropWhile IsSlash (rev s)) \<and>
   snd (DeleteEndSlash (AddEndSlash s) True) = snd (DeleteEndSlash s True) \<and>
   (fst (DeleteEndSlash s a) \<longleftrightarrow> s \<noteq> [] \<and> IsSlash (last s))"
proof -
  have d: "DeleteEndSlash s a = (if len_to_slash a s (length s) = length s then False else True, take (len_to_slash a s (length s)) s)"
    for s a by (simp add: DeleteEndSlash_def Let_def)
  have t: "snd (DeleteEndSlash s True) = rev (dropWhile IsSlash (rev s))" for s
    using len_to_slash_all [of "length s" s] by (simp add: d)
  have f: "len_to_slash a s (length s) \<noteq> length s \<longleftrightarrow> s \<noteq> [] \<and> IsSlash (last s)"
  proof (cases s rule: rev_cases)
    case (snoc ys y)
    have le: "len_to_slash a s n \<le> n" for n by (induction n) auto
    have "char_at s (length ys) = y" using snoc by (simp add: char_at_def)
    then show ?thesis using snoc le [of "length ys"] by (auto simp: le_less_Suc_eq)
  qed simp
  show ?thesis
    using pop_loop_take [of "length s" s a False] delete_loop_take [of "length s" s a False] t [of s] t [of "AddEndSlash s"] f
    by (simp add: d DeleteEndSlash_buffer_def DeleteEndSlash_wstring_def Let_def AddEndSlash_def IsSlash_def)
qed

end
