(* ===== verification/ProcName.thy ===== *)
theory ProcName
  imports LocaleStr PathMix
begin

text \<open>
  Matching a name with a wildcard mask: \<^verbatim>\<open>CmpName\<close> of \<^verbatim>\<open>far/src/mix/processname.cpp\<close>.
  A result \<open>None\<close> is an access outside a string, a table or the buffer.
\<close>

section \<open>Matching\<close>

text \<open>\<open>FindAnyOfChars\<close> as it is used here: is there one of these characters?\<close>

definition any_of :: "wchar list \<Rightarrow> wchar list \<Rightarrow> bool" where
  "any_of s needles \<longleftrightarrow> (\<exists>c \<in> set s. c \<in> set needles)"

definition UpperCase :: "libc \<Rightarrow> sort_tables \<Rightarrow> bool \<Rightarrow> wchar \<Rightarrow> wchar option" where
  "UpperCase C T casesens c = (if casesens then Some c else Upper C T c)"

definition LowerCase :: "libc \<Rightarrow> sort_tables \<Rightarrow> bool \<Rightarrow> wchar \<Rightarrow> wchar option" where
  "LowerCase C T casesens c = (if casesens then Some c else Lower C T c)"

lemma tl_less_Suc: "length (tl xs) < Suc (length xs)"
  by (cases xs) auto

text \<open>
  The loop over a character class behind its bracket, with the character before the current one. The inner option
  is the rest of the pattern behind the closing bracket, or \<open>None\<close> for "return false".
\<close>

function bracket_loop :: "(wchar \<Rightarrow> wchar option) \<Rightarrow> wchar \<Rightarrow> wchar list \<Rightarrow> wchar \<Rightarrow> bool \<Rightarrow> wchar list option option" where
  "bracket_loop up stringc [] prev found = Some None"
| "bracket_loop up stringc (rangec # pattern) prev found =
     (if rangec = 0x5d then Some (if found then Some pattern else None)
      else if found then bracket_loop up stringc pattern rangec found
      else if rangec = 0x2d \<and> prev \<noteq> 0x5b \<and> char_at pattern 0 \<noteq> 0x5d then
        (if pattern = [] then None
         else do { hi \<leftarrow> up (hd pattern); lo \<leftarrow> up prev;
                   bracket_loop up stringc (tl pattern) (hd pattern) (stringc \<le>s hi \<and> lo \<le>s stringc) })
      else do { u \<leftarrow> up rangec; bracket_loop up stringc pattern rangec (stringc = u) })"
  by pat_completeness auto

termination
  by (relation "measure (\<lambda>(up, s, p, prev, f). length p)") (auto intro: tl_less_Suc)

lemma bracket_loop_shorter: "bracket_loop up c p prev f = Some (Some rest) \<Longrightarrow> length rest < length p"
proof (induction up c p prev f rule: bracket_loop.induct)
  case (2 up c r p prev f)
  then show ?case
    by (auto simp: bind_eq_Some_conv split: if_splits)
      (use 2(2) in \<open>force dest: less_le_trans [of "length rest" "length (tl p)" "Suc (length p)"]\<close>)+
qed simp

definition tail_matches :: "sort_tables \<Rightarrow> bool \<Rightarrow> wchar list \<Rightarrow> wchar list \<Rightarrow> bool option" where
  "tail_matches T casesens pattern str =
     (let pattern_len = length pattern; str_len = length str; tail = drop (str_len - pattern_len) str in
      if str_len \<ge> pattern_len then
        if casesens then Some (pattern = tail)
        else do { r \<leftarrow> StrCmpNI T pattern tail (int pattern_len); Some (r = 0) }
      else Some False)"

text \<open>
  The body of the comparison, and its inner loop for an asterisk. The end of the string is a character 0; to go
  on behind it is an error of the model.
\<close>

function CmpName_Body :: "libc \<Rightarrow> sort_tables \<Rightarrow> bool \<Rightarrow> wchar list \<Rightarrow> wchar list \<Rightarrow> bool option"
and star_loop :: "libc \<Rightarrow> sort_tables \<Rightarrow> bool \<Rightarrow> wchar list \<Rightarrow> wchar list \<Rightarrow> bool option" where
  "CmpName_Body C T cs [] str = Some (str = [])"
| "CmpName_Body C T cs (patternc # pattern) str =
     (let stringc = char_at str 0 in
      if patternc = 0x3f then
        if stringc = 0 then Some False else if str = [] then None else CmpName_Body C T cs pattern (tl str)
      else if patternc = 0x2a then
        if pattern = [] then Some True
        else if \<not> any_of pattern [0x2a, 0x3f, 0x5b] then tail_matches T cs pattern str
        else star_loop C T cs pattern str
      else if patternc = 0x5b then
        if 0x5d \<notin> set pattern then
          if patternc \<noteq> stringc then Some False else if str = [] then None else CmpName_Body C T cs pattern (tl str)
        else if char_at pattern 0 \<noteq> 0 \<and> char_at pattern 1 = 0x5d then
          if char_at pattern 0 \<noteq> stringc then Some False else if str = [] then None else CmpName_Body C T cs (drop 2 pattern) (tl str)
        else
          do { u \<leftarrow> UpperCase C T cs stringc;
               (case bracket_loop (UpperCase C T cs) u pattern 0x5b False of
                  None \<Rightarrow> None
                | Some None \<Rightarrow> Some False
                | Some (Some rest) \<Rightarrow> if str = [] then None else CmpName_Body C T cs rest (tl str)) }
      else
        do { u \<leftarrow> UpperCase C T cs patternc; l \<leftarrow> LowerCase C T cs patternc;
             if u \<noteq> stringc \<and> l \<noteq> stringc then Some False else if str = [] then None else CmpName_Body C T cs pattern (tl str) })"
| "star_loop C T cs pattern [] = CmpName_Body C T cs pattern []"
| "star_loop C T cs pattern (c # str) =
     (case CmpName_Body C T cs pattern (c # str) of
        None \<Rightarrow> None
      | Some True \<Rightarrow> Some True
      | Some False \<Rightarrow> star_loop C T cs pattern str)"
  by pat_completeness auto

termination
  by (relation "measures [\<lambda>x. case x of Inl (C, T, cs, p, s) \<Rightarrow> 2 * length p | Inr (C, T, cs, p, s) \<Rightarrow> 2 * length p + 1,
      \<lambda>x. case x of Inl (C, T, cs, p, s) \<Rightarrow> 0 | Inr (C, T, cs, p, s) \<Rightarrow> length s]")
    (auto dest!: bracket_loop_shorter)

definition CmpName :: "libc \<Rightarrow> sort_tables \<Rightarrow> wchar list option \<Rightarrow> wchar list option \<Rightarrow> bool \<Rightarrow> bool \<Rightarrow> bool option" where
  "CmpName C T pattern str skippath casesens =
     (case (pattern, str) of
        (Some p, Some s) \<Rightarrow>
          CmpName_Body C T casesens p (if skippath then drop (the (PointToName (Some s) None)) s else s)
      | _ \<Rightarrow> Some False)"

section \<open>The language of a mask\<close>

text \<open>
  The specification: a mask is a list of items, and each item stands for a set of strings. An ending
  is an asterisk with nothing but characters behind it.
\<close>

datatype mask_item =
  One | Many | Literal wchar | Exact wchar | Class "(wchar \<times> wchar) list" | Ending "wchar list"

fun class_items :: "wchar list \<Rightarrow> wchar \<Rightarrow> (wchar \<times> wchar) list" where
  "class_items [] prev = []"
| "class_items [r] prev = [(r, r)]"
| "class_items (r # h # rest) prev =
     (if r = 0x2d \<and> prev \<noteq> 0x5b then (prev, h) # class_items rest h else (r, r) # class_items (h # rest) r)"

function mask_items :: "wchar list \<Rightarrow> mask_item list" where
  "mask_items [] = []"
| "mask_items (p # pattern) =
     (if p = 0x3f then One # mask_items pattern
      else if p = 0x2a then
        if pattern = [] then [Many]
        else if \<not> any_of pattern [0x2a, 0x3f, 0x5b] then [Ending pattern]
        else Many # mask_items pattern
      else if p = 0x5b then
        if 0x5d \<notin> set pattern then Exact p # mask_items pattern
        else if char_at pattern 1 = 0x5d then Exact (char_at pattern 0) # mask_items (drop 2 pattern)
        else Class (class_items (takeWhile (\<lambda>c. c \<noteq> 0x5d) pattern) 0x5b) # mask_items (tl (dropWhile (\<lambda>c. c \<noteq> 0x5d) pattern))
      else Literal p # mask_items pattern)"
  by pat_completeness auto

termination
  by (relation "measure length") (auto simp: less_Suc_eq_le intro: le_trans [OF diff_le_self length_dropWhile_le])

definition fold_up :: "libc \<Rightarrow> sort_tables \<Rightarrow> bool \<Rightarrow> wchar \<Rightarrow> wchar" where
  "fold_up C T cs c = (if cs then c else upper C T c)"

definition fold_low :: "libc \<Rightarrow> sort_tables \<Rightarrow> bool \<Rightarrow> wchar \<Rightarrow> wchar" where
  "fold_low C T cs c = (if cs then c else lower C T c)"

definition in_class :: "(wchar \<Rightarrow> wchar) \<Rightarrow> wchar \<Rightarrow> (wchar \<times> wchar) list \<Rightarrow> bool" where
  "in_class f c rs \<longleftrightarrow> (\<exists>(lo, hi) \<in> set rs. f lo \<le>s c \<and> c \<le>s f hi)"

fun item_lang :: "libc \<Rightarrow> sort_tables \<Rightarrow> bool \<Rightarrow> mask_item \<Rightarrow> wchar list set" where
  "item_lang C T cs One = {[c] |c. True}"
| "item_lang C T cs Many = UNIV"
| "item_lang C T cs (Literal p) = {[c] |c. c = fold_up C T cs p \<or> c = fold_low C T cs p}"
| "item_lang C T cs (Exact p) = {[c] |c. c = p}"
| "item_lang C T cs (Class rs) = {[c] |c. in_class (fold_up C T cs) (fold_up C T cs c) rs}"
| "item_lang C T cs (Ending p) =
     {x @ y |x y. length y = length p \<and> (if cs then y = p else order_key T False p = order_key T False y)}"

fun mask_lang :: "libc \<Rightarrow> sort_tables \<Rightarrow> bool \<Rightarrow> mask_item list \<Rightarrow> wchar list set" where
  "mask_lang C T cs [] = {[]}"
| "mask_lang C T cs (m # ms) = {x @ y |x y. x \<in> item_lang C T cs m \<and> y \<in> mask_lang C T cs ms}"

declare CmpName_Body.simps(2) [simp del] mask_items.simps(2) [simp del]

section \<open>The matcher decides the language\<close>

text \<open>Strings of characters with positive codes, and tables that keep them so.\<close>

definition printable :: "wchar list \<Rightarrow> bool" where
  "printable s \<longleftrightarrow> (\<forall>c \<in> set s. 0 <s c)"

definition case_ok :: "libc \<Rightarrow> sort_tables \<Rightarrow> bool \<Rightarrow> bool" where
  "case_ok C T cs \<longleftrightarrow> cs \<or> tables_ok T \<and> case_tables_ok T \<and> (\<forall>c. 0 <s c \<longrightarrow> 0 <s upper C T c \<and> 0 <s lower C T c)"

lemma case_okD:
  assumes "case_ok C T cs"
  shows "UpperCase C T cs c = Some (fold_up C T cs c)" "LowerCase C T cs c = Some (fold_low C T cs c)"
    "0 <s c \<Longrightarrow> 0 <s fold_up C T cs c" "0 <s c \<Longrightarrow> 0 <s fold_low C T cs c" "fold_up C T cs 0 = 0"
proof -
  have "upper C T 0 = 0" by (simp add: upper_def Upper_def)
  then show "UpperCase C T cs c = Some (fold_up C T cs c)" "LowerCase C T cs c = Some (fold_low C T cs c)"
    "0 <s c \<Longrightarrow> 0 <s fold_up C T cs c" "0 <s c \<Longrightarrow> 0 <s fold_low C T cs c" "fold_up C T cs 0 = 0"
    using assms by (auto simp: case_ok_def UpperCase_def LowerCase_def fold_up_def fold_low_def Lower_Some)
qed

lemma signed_le_both: "a \<le>s c \<and> c \<le>s a \<longleftrightarrow> c = (a :: wchar)"
  by (auto simp: word_sle_eq) (metis scast_id scast_eq)

lemma in_class_simps [simp]:
  "\<not> in_class f c []" "in_class f c ((lo, hi) # rs) \<longleftrightarrow> f lo \<le>s c \<and> c \<le>s f hi \<or> in_class f c rs"
  by (auto simp: in_class_def)

lemma bracket_loop_class:
  "(\<And>c. up c = Some (f c)) \<Longrightarrow> 0x5d \<in> set p \<Longrightarrow> bracket_loop up c p prev found =
    Some (if found \<or> in_class f c (class_items (takeWhile (\<lambda>c. c \<noteq> 0x5d) p) prev)
          then Some (tl (dropWhile (\<lambda>c. c \<noteq> 0x5d) p)) else None)"
proof (induction up c p prev found rule: bracket_loop.induct)
  case (2 up c r p prev found)
  have up: "up = (\<lambda>c. Some (f c))" using 2(4) by auto
  let ?body = "\<lambda>p. takeWhile (\<lambda>c. c \<noteq> 0x5d) p" and ?rest = "\<lambda>p. tl (dropWhile (\<lambda>c. c \<noteq> 0x5d) p)"
  consider (close) "r = 0x5d" | (skip) "r \<noteq> 0x5d" "found"
    | (range) "r \<noteq> 0x5d" "\<not> found" "r = 0x2d \<and> prev \<noteq> 0x5b \<and> char_at p 0 \<noteq> 0x5d"
    | (single) "r \<noteq> 0x5d" "\<not> found" "\<not> (r = 0x2d \<and> prev \<noteq> 0x5b \<and> char_at p 0 \<noteq> 0x5d)" by blast
  then show ?case
  proof cases
    case close
    then show ?thesis by simp
  next
    case skip
    then show ?thesis using 2(1) [OF skip 2(4)] 2(5) by simp
  next
    case range
    then obtain h q where p: "p = h # q" "h \<noteq> 0x5d" "0x5d \<in> set q" using 2(5) by (cases p) (auto simp: char_at_def)
    have "bracket_loop up c q h b = Some (if b \<or> in_class f c (class_items (?body q) h) then Some (?rest q) else None)"
      if "b \<longleftrightarrow> c \<le>s f h \<and> f prev \<le>s c" for b
      using 2(2) [OF range _ 2(4) 2(4) 2(4)] p that by simp
    then show ?thesis using range p by (auto simp: up char_at_def)
  next
    case single
    have r: "0x5d \<in> set p" using 2(5) single(1) by simp
    have i: "bracket_loop up c p r (c = f r) =
        Some (if c = f r \<or> in_class f c (class_items (?body p) r) then Some (?rest p) else None)"
      using 2(3) [OF single 2(4) 2(4) r] by simp
    have k: "class_items (r # ?body p) prev = (r, r) # class_items (?body p) r"
      using single r by (cases p) (auto simp: char_at_def)
    have "bracket_loop up c (r # p) prev found = bracket_loop up c p r (c = f r)" 
      by (simp only: bracket_loop.simps single if_False up bind.bind_lunit)
    moreover have "?body (r # p) = r # ?body p" "?rest (r # p) = ?rest p" using single(1) by simp_all
    ultimately show ?thesis by (simp only: i k in_class_simps signed_le_both single(2) simp_thms)
  qed
qed simp

text \<open>The lower end of a range is a character of the class, never the bracket before it.\<close>

lemma class_items_lo: "(lo, hi) \<in> set (class_items p prev) \<Longrightarrow> lo \<in> set p \<or> lo = prev \<and> prev \<noteq> 0x5b"
  by (induction p prev rule: class_items.induct) (auto split: if_splits)

lemma lang_single:
  "item_lang C T cs m = {[c] |c. P c} \<Longrightarrow> [] \<notin> mask_lang C T cs (m # ms)"
  "item_lang C T cs m = {[c] |c. P c} \<Longrightarrow> c # s \<in> mask_lang C T cs (m # ms) \<longleftrightarrow> P c \<and> s \<in> mask_lang C T cs ms"
proof -
  assume m: "item_lang C T cs m = {[c] |c. P c}"
  show "[] \<notin> mask_lang C T cs (m # ms)" by (auto simp: m)
  show "c # s \<in> mask_lang C T cs (m # ms) \<longleftrightarrow> P c \<and> s \<in> mask_lang C T cs ms" 
    by (auto simp: m Cons_eq_append_conv) (rule exI [of _ "[c]"], rule exI [of _ s], simp)
qed

lemmas lang_Cons = lang_single [OF item_lang.simps(1)] lang_single [OF item_lang.simps(3)] lang_single [OF item_lang.simps(4)]
  lang_single [OF item_lang.simps(5)]

lemma lang_Many: "s \<in> mask_lang C T cs (Many # ms) \<longleftrightarrow> (\<exists>n \<le> length s. drop n s \<in> mask_lang C T cs ms)"
proof
  assume "s \<in> mask_lang C T cs (Many # ms)"
  then obtain x y where "s = x @ y" "y \<in> mask_lang C T cs ms" by auto
  then show "\<exists>n \<le> length s. drop n s \<in> mask_lang C T cs ms" by (intro exI [of _ "length x"]) simp
next
  assume "\<exists>n \<le> length s. drop n s \<in> mask_lang C T cs ms"
  then obtain n where n: "drop n s \<in> mask_lang C T cs ms" by blast
  have "s = take n s @ drop n s" by simp
  with n show "s \<in> mask_lang C T cs (Many # ms)" unfolding mask_lang.simps item_lang.simps by blast
qed

lemma lang_Ending:
  "s \<in> mask_lang C T cs [Ending p] \<longleftrightarrow> length p \<le> length s \<and>
    (let y = drop (length s - length p) s in if cs then y = p else order_key T False p = order_key T False y)"
    (is "_ \<longleftrightarrow> length p \<le> length s \<and> ?same")
proof
  assume "s \<in> mask_lang C T cs [Ending p]"
  then show "length p \<le> length s \<and> ?same" by auto
next
  assume a: "length p \<le> length s \<and> ?same"
  let ?y = "drop (length s - length p) s"
  have "s = take (length s - length p) s @ ?y" "length ?y = length p" using a by simp_all
  then have "s \<in> item_lang C T cs (Ending p)" using a unfolding item_lang.simps Let_def by blast
  then show "s \<in> mask_lang C T cs [Ending p]" by simp
qed

lemma printable_simps [simp]:
  "printable []" "printable (c # s) \<longleftrightarrow> 0 <s c \<and> printable s"
  by (auto simp: printable_def)

lemma printable_plain: "printable s \<Longrightarrow> plain_string s"
  by (auto simp: printable_def plain_string_def)

lemma printable_drop: "printable s \<Longrightarrow> printable (drop n s)"
  by (auto simp: printable_def dest: in_set_dropD)

lemma printable_tl: "printable s \<Longrightarrow> printable (tl s)"
  by (cases s) auto

lemma tail_matches_lang:
  assumes "case_ok C T cs" "printable p" "printable s"
  shows "tail_matches T cs p s = Some (s \<in> mask_lang C T cs [Ending p])"
proof (cases "cs \<or> length s < length p")
  case True
  then show ?thesis unfolding tail_matches_def lang_Ending by (auto simp: Let_def)
next
  case False
  let ?t = "drop (length s - length p) s"
  have "StrCmpNI T p ?t (int (length p)) =
      Some (lex_cmp (order_key T False (take (length p) p)) (order_key T False (take (length p) ?t)))"
    using False assms printable_plain [OF assms(2)] printable_plain [OF printable_drop [OF assms(3)]]
    by (intro StrCmpN_key(2)) (auto simp: case_ok_def plain_string_def)
  then show ?thesis using False unfolding tail_matches_def lang_Ending by (auto simp: Let_def lex_cmp_zero)
qed

lemma mask_items_class:
  assumes "0x5d \<in> set p" "char_at p 1 \<noteq> 0x5d"
  shows "mask_items (0x5b # p) =
    Class (class_items (takeWhile (\<lambda>c. c \<noteq> 0x5d) p) 0x5b) # mask_items (tl (dropWhile (\<lambda>c. c \<noteq> 0x5d) p))"
  using assms by (simp add: mask_items.simps(2))

lemma printable_after: "printable p \<Longrightarrow> printable (tl (dropWhile P p))"
  by (rule printable_tl) (auto simp: printable_def dest: set_dropWhileD)

lemma body_language:
  assumes k: "case_ok C T cs"
  shows "printable p \<Longrightarrow> printable s \<Longrightarrow> CmpName_Body C T cs p s = Some (s \<in> mask_lang C T cs (mask_items p))"
    and "printable p \<Longrightarrow> printable s \<Longrightarrow> star_loop C T cs p s = Some (\<exists>n \<le> length s. drop n s \<in> mask_lang C T cs (mask_items p))"
  using k
proof (induction C T cs p s and C T cs p s rule: CmpName_Body_star_loop.induct)
  case (1 C T cs str)
  then show ?case by simp
next
  case (2 C T cs p pat str)
  note u = CmpName_Body.simps(2) [unfolded Let_def] and m = mask_items.simps(2)
    and k = case_okD [OF 2(9)]
  have pp: "0 <s p" "printable pat" "printable (tl str)" using 2(7,8) printable_tl by auto
  have ch: "char_at str 0 = 0 \<longleftrightarrow> str = []" "str \<noteq> [] \<Longrightarrow> str = char_at str 0 # tl str"
    using 2(8) by (cases str; auto simp: char_at_def)+
  have single: "str \<in> mask_lang C T cs (i # ms) \<longleftrightarrow> str \<noteq> [] \<and> P (char_at str 0) \<and> tl str \<in> mask_lang C T cs ms"
    if "item_lang C T cs i = {[c] |c. P c}" for i ms P
    using lang_single [OF that] ch(2) by (metis (no_types))
  consider (one) "p = 0x3f" | (star) "p \<noteq> 0x3f" "p = 0x2a" | (bracket) "p \<noteq> 0x3f" "p \<noteq> 0x2a" "p = 0x5b"
    | (char) "p \<noteq> 0x3f" "p \<noteq> 0x2a" "p \<noteq> 0x5b" by blast
  then show ?case
  proof cases
    case one
    then have mm: "mask_items (p # pat) = One # mask_items pat" by (simp add: m)
    have "CmpName_Body C T cs (p # pat) str = (if str = [] then Some False else CmpName_Body C T cs pat (tl str))"
      using one ch(1) by (simp add: u)
    then show ?thesis
      using 2(1) [OF refl one _ _ pp(2,3) 2(9)] ch(1) unfolding mm single [OF item_lang.simps(1)] by simp
  next
    case star
    show ?thesis
    proof (cases "pat = [] \<or> \<not> any_of pat [0x2a, 0x3f, 0x5b]")
      case True
      then show ?thesis
        using star tail_matches_lang [OF 2(9) pp(2) 2(8)] by (auto simp: u m)
    next
      case False
      have "CmpName_Body C T cs (p # pat) str = star_loop C T cs pat str" using star False by (simp add: u)
      moreover have "mask_items (p # pat) = Many # mask_items pat" using star False by (simp add: m)
      ultimately show ?thesis
        using 2(2) [OF refl star _ _ pp(2) 2(8,9)] False unfolding lang_Many [symmetric] by simp
    qed
  next
    case bracket
    show ?thesis
    proof (cases "0x5d \<in> set pat")
      case no: False
      have mm: "mask_items (p # pat) = Exact p # mask_items pat" using bracket no by (simp add: m)
      have "CmpName_Body C T cs (p # pat) str =
          (if p \<noteq> char_at str 0 then Some False else if str = [] then None else CmpName_Body C T cs pat (tl str))"
        using bracket no by (simp add: u)
      then show ?thesis
        using 2(3) [OF refl bracket no _ _ pp(2,3) 2(9)] ch(1) bracket unfolding mm single [OF item_lang.simps(4)] by auto
    next
      case yes: True
      then have c0: "char_at pat 0 \<noteq> 0" using pp(2) by (cases pat) (auto simp: char_at_def)
      show ?thesis
      proof (cases "char_at pat 1 = 0x5d")
        case True
        have mm: "mask_items (p # pat) = Exact (char_at pat 0) # mask_items (drop 2 pat)" using bracket yes True by (simp add: m)
        have "CmpName_Body C T cs (p # pat) str = (if char_at pat 0 \<noteq> char_at str 0 then Some False
            else if str = [] then None else CmpName_Body C T cs (drop 2 pat) (tl str))"
          using bracket yes True c0 by (simp add: u)
        then show ?thesis
          using 2(4) [OF refl bracket _ _ _ _ printable_drop [OF pp(2)] pp(3) 2(9)] yes True c0 ch(1)
          unfolding mm single [OF item_lang.simps(4)] by auto
      next
        case False
        let ?rs = "class_items (takeWhile (\<lambda>c. c \<noteq> 0x5d) pat) 0x5b" and ?rest = "tl (dropWhile (\<lambda>c. c \<noteq> 0x5d) pat)"
        let ?f = "fold_up C T cs"
        have mm: "mask_items (p # pat) = Class ?rs # mask_items ?rest" using bracket yes False by (simp add: m)
        have bl: "bracket_loop (UpperCase C T cs) c pat 0x5b False = Some (if in_class ?f c ?rs then Some ?rest else None)" for c
          using bracket_loop_class [where up = "UpperCase C T cs" and f = ?f and p = pat and c = c and prev = "0x5b" and found = False, OF k(1) yes] by simp
        have e: "CmpName_Body C T cs (p # pat) str = (if in_class ?f (?f (char_at str 0)) ?rs
            then if str = [] then None else CmpName_Body C T cs ?rest (tl str) else Some False)"
          using bracket yes False bl k(1) by (simp add: u)
        have z: "\<not> in_class ?f 0 ?rs"
        proof
          assume "in_class ?f 0 ?rs"
          then obtain lo hi where "(lo, hi) \<in> set ?rs" "?f lo \<le>s 0" by (auto simp: in_class_def)
          moreover have "0 <s ?f lo"
            using class_items_lo [OF calculation(1)] pp(2) k(3) by (auto simp: printable_def dest: set_takeWhileD)
          ultimately show False by (simp add: word_sle_eq word_sless_alt)
        qed
        show ?thesis
        proof (cases "in_class ?f (?f (char_at str 0)) ?rs")
          case True
          then have ne: "str \<noteq> []" using z k(5) ch(1) by auto
          have "CmpName_Body C T cs ?rest (tl str) = Some (tl str \<in> mask_lang C T cs (mask_items ?rest))"
            using 2(5) [OF refl bracket _ _ k(1) _ refl ne printable_after [OF pp(2)] pp(3) 2(9)] yes False True bl by simp
          then show ?thesis using ne True unfolding e mm single [OF item_lang.simps(5)] by simp
        next
          case False
          then show ?thesis unfolding e mm single [OF item_lang.simps(5)] by simp
        qed
      qed
    qed
  next
    case char
    have mm: "mask_items (p # pat) = Literal p # mask_items pat" using char by (simp add: m)
    have e: "CmpName_Body C T cs (p # pat) str = (if fold_up C T cs p \<noteq> char_at str 0 \<and> fold_low C T cs p \<noteq> char_at str 0
        then Some False else if str = [] then None else CmpName_Body C T cs pat (tl str))"
      using char k(1,2) by (simp add: u)
    have "fold_up C T cs p \<noteq> 0" "fold_low C T cs p \<noteq> 0" using k(3,4) [OF pp(1)] by auto
    then show ?thesis
      using 2(6) [OF refl char k(1,2) _ _ pp(2,3) 2(9)] ch(1) unfolding e mm single [OF item_lang.simps(3)] by auto
  qed
next
  case (3 C T cs pat)
  then show ?case by simp
next
  case (4 C T cs pat c str)
  have e: "(\<exists>n \<le> length (c # str). drop n (c # str) \<in> L) \<longleftrightarrow> c # str \<in> L \<or> (\<exists>n \<le> length str. drop n str \<in> L)" for L
    by (metis (no_types, lifting) Suc_le_mono drop0 drop_Suc_Cons length_Cons less_eq_nat.simps(1) not0_implies_Suc)
  have b: "CmpName_Body C T cs pat (c # str) = Some (c # str \<in> mask_lang C T cs (mask_items pat))" using 4 by simp
  show ?case
  proof (cases "c # str \<in> mask_lang C T cs (mask_items pat)")
    case True
    then show ?thesis using b unfolding e by simp
  next
    case False
    then show ?thesis using b 4(2) 4(3-5) unfolding e by simp
  qed
qed

text \<open>
  C8. \<open>CmpName\<close> ends for every mask and name and decides the language of the mask, without a read behind the
  end of the mask or the name. Without regard to case this needs tables that keep positive codes positive; then the
  text behind a last asterisk is compared by its sort keys, and a class of one character still respects case.
\<close>

theorem CmpName_language:
  assumes "case_ok C T casesens" and "printable pattern" and "printable str"
  shows "CmpName C T (Some pattern) (Some str) skippath casesens =
    Some ((if skippath then ExtractFileName str else str) \<in> mask_lang C T casesens (mask_items pattern))"
proof -
  have "drop (the (PointToName (Some str) None)) str = ExtractFileName str" using path_split [of str] by auto
  moreover have "printable (ExtractFileName str)" unfolding ExtractFileName_def by (rule printable_drop [OF assms(3)])
  ultimately show ?thesis using body_language(1) [OF assms(1,2)] assms(3) by (simp add: CmpName_def)
qed

lemma tiny_case_ok_cs: "case_ok C T True"
  by (simp add: case_ok_def)

theorem CmpName_language_witness:
  "CmpName tiny_libc tiny_sort (Some [0x61, 0x2a, 0x2e, 0x63]) (Some [0x2f, 0x61, 0x62, 0x2e, 0x63]) True True = Some True"
proof -
  let ?p = "[0x61, 0x2a, 0x2e, 0x63] :: wchar list" and ?s = "[0x2f, 0x61, 0x62, 0x2e, 0x63] :: wchar list"
  have p: "printable ?p" "printable ?s" by code_simp+
  have e: "ExtractFileName ?s = [0x61, 0x62, 0x2e, 0x63]" "mask_items ?p = [Literal 0x61, Ending [0x2e, 0x63]]" by code_simp+
  have "[0x61, 0x62, 0x2e, 0x63] \<in> mask_lang tiny_libc tiny_sort True [Literal 0x61, Ending [0x2e, 0x63]]"
    unfolding lang_single(2) [OF item_lang.simps(3)] lang_Ending by (simp add: fold_up_def Let_def)
  then show ?thesis using CmpName_language [OF tiny_case_ok_cs p, of tiny_libc tiny_sort True] unfolding e by simp
qed

end
