(* ===== verification/UdList.thy ===== *)
theory UdList
  imports ProcName "HOL-Library.Sublist" "HOL-Library.Multiset"
begin

text \<open>
  Lists of items with separators, quotes, brackets and regular expressions: \<^verbatim>\<open>far/src/mix/udlist.cpp\<close>.

  A pointer into the list is the list of the characters behind it up to its terminator. A result \<open>None\<close> is a
  read behind that terminator or outside a table. \<^verbatim>\<open>std::sort\<close> is an argument.
\<close>

section \<open>Items\<close>

record list_item =
  index :: nat
  Str :: "wchar list"
  CaseSensitive :: bool

definition item_cmp :: "sort_tables \<Rightarrow> list_item \<Rightarrow> list_item \<Rightarrow> int option" where
  "item_cmp T a b = (if CaseSensitive a then StrCmp T (Str a) (Str b) else StrCmpI T (Str a) (Str b))"

definition item_equal :: "sort_tables \<Rightarrow> list_item \<Rightarrow> list_item \<Rightarrow> bool" where
  "item_equal T a b \<longleftrightarrow> item_cmp T a b = Some 0"

definition item_less :: "sort_tables \<Rightarrow> list_item \<Rightarrow> list_item \<Rightarrow> bool" where
  "item_less T a b = (case item_cmp T a b of Some r \<Rightarrow> r < 0 | None \<Rightarrow> False)"

fun compact_loop :: "wchar \<Rightarrow> bool \<Rightarrow> bool \<Rightarrow> wchar list \<Rightarrow> wchar list" where
  "compact_loop ch ByPairs found [] = []"
| "compact_loop ch ByPairs found (c # src) =
     (if \<not> found then c # compact_loop ch ByPairs (c = ch) src
      else if c = ch then compact_loop ch ByPairs (\<not> ByPairs) src
      else c # compact_loop ch ByPairs False src)"

definition Compact :: "wchar \<Rightarrow> bool \<Rightarrow> list_item \<Rightarrow> list_item" where
  "Compact ch ByPairs item = item\<lparr>Str := compact_loop ch ByPairs False (Str item)\<rparr>"

definition CmpIndexes :: "list_item \<Rightarrow> list_item \<Rightarrow> bool" where
  "CmpIndexes el1 el2 \<longleftrightarrow> index el1 < index el2"

section \<open>The list and its options\<close>

record ud_list =
  Array :: "list_item list"
  mSeparator :: "wchar list"
  mProcessBrackets :: bool
  mAddAsterisk :: bool
  mPackAsterisks :: bool
  mUnique :: bool
  mSort :: bool
  mTrim :: bool
  mAccountEmptyLine :: bool
  mCaseSensitive :: bool
  mProcessRegexp :: bool

definition ULF_ADDASTERISK :: u32 where "ULF_ADDASTERISK = 0x1"
definition ULF_PACKASTERISKS :: u32 where "ULF_PACKASTERISKS = 0x2"
definition ULF_PROCESSBRACKETS :: u32 where "ULF_PROCESSBRACKETS = 0x4"
definition ULF_UNIQUE :: u32 where "ULF_UNIQUE = 0x10"
definition ULF_SORT :: u32 where "ULF_SORT = 0x20"
definition ULF_NOTTRIM :: u32 where "ULF_NOTTRIM = 0x40"
definition ULF_ACCOUNTEMPTYLINE :: u32 where "ULF_ACCOUNTEMPTYLINE = 0x100"
definition ULF_CASESENSITIVE :: u32 where "ULF_CASESENSITIVE = 0x200"
definition ULF_PROCESSREGEXP :: u32 where "ULF_PROCESSREGEXP = 0x400"

definition flag_on :: "u32 \<Rightarrow> u32 \<Rightarrow> bool" where
  "flag_on flags f \<longleftrightarrow> flags AND f \<noteq> 0"

text \<open>The array of separators has 16 cells; without separators \<^verbatim>\<open>;\<close> and \<^verbatim>\<open>,\<close> are the default.\<close>

definition UserDefinedList :: "u32 \<Rightarrow> wchar list option \<Rightarrow> ud_list" where
  "UserDefinedList flags separator =
     (let sep = (case separator of Some s \<Rightarrow> take 15 s | None \<Rightarrow> []) in
      \<lparr>Array = [], mSeparator = (if sep = [] then [0x3b, 0x2c] else sep),
       mProcessBrackets = flag_on flags ULF_PROCESSBRACKETS, mAddAsterisk = flag_on flags ULF_ADDASTERISK,
       mPackAsterisks = flag_on flags ULF_PACKASTERISKS, mUnique = flag_on flags ULF_UNIQUE, mSort = flag_on flags ULF_SORT,
       mTrim = (\<not> flag_on flags ULF_NOTTRIM), mAccountEmptyLine = flag_on flags ULF_ACCOUNTEMPTYLINE,
       mCaseSensitive = flag_on flags ULF_CASESENSITIVE, mProcessRegexp = flag_on flags ULF_PROCESSREGEXP\<rparr>)"

definition CheckSeparators :: "ud_list \<Rightarrow> bool" where
  "CheckSeparators u \<longleftrightarrow> (\<forall>S \<in> set (mSeparator u).
     \<not> (S = 0x22 \<or> mProcessBrackets u \<and> (S = 0x5b \<or> S = 0x5d) \<or> mProcessRegexp u \<and> S = 0x2f))"

section \<open>Finding the next item\<close>

text \<open>\<^verbatim>\<open>wcschr\<close> finds the terminator, too.\<close>

definition is_separator :: "ud_list \<Rightarrow> wchar \<Rightarrow> bool" where
  "is_separator u c \<longleftrightarrow> c = 0 \<or> c \<in> set (mSeparator u)"

definition skip_spaces :: "ud_list \<Rightarrow> wchar list \<Rightarrow> wchar list" where
  "skip_spaces u s = (if mTrim u then dropWhile IsSpace s else s)"

text \<open>What \<open>Skip\<close> returns: the end, an error, or the rest of the list at the item with the two lengths and whether it is quoted.\<close>

datatype skipped = End | Error | Item "wchar list" nat nat bool

text \<open>The position of the closing quote, and of the closing slash of a regular expression.\<close>

fun close_quote :: "wchar list \<Rightarrow> nat option" where
  "close_quote [] = None"
| "close_quote [c] = (if c = 0x22 then Some 0 else None)"
| "close_quote (c # d # cs) =
     (if c = 0x22 then (if d = 0x22 then map_option (\<lambda>n. n + 2) (close_quote cs) else Some 0)
      else map_option Suc (close_quote (d # cs)))"

fun close_slash :: "wchar list \<Rightarrow> nat option" where
  "close_slash [] = None"
| "close_slash [c] = (if c = 0x2f then Some 0 else None)"
| "close_slash (c # d # cs) =
     (if c = 0x5c then map_option (\<lambda>n. n + 2) (close_slash cs)
      else if c = 0x2f then Some 0 else map_option Suc (close_slash (d # cs)))"

fun regex_flags :: "libc \<Rightarrow> sort_tables \<Rightarrow> ud_list \<Rightarrow> nat \<Rightarrow> wchar list \<Rightarrow> nat option" where
  "regex_flags C T u 0 s = Some 0"
| "regex_flags C T u (Suc i) [] = Some 0"
| "regex_flags C T u (Suc i) (c # s) =
     (if is_separator u c then Some 0
      else do { a \<leftarrow> IsCharAlpha C T c; if \<not> a then Some 0 else map_option Suc (regex_flags C T u i s) })"

fun item_length :: "ud_list \<Rightarrow> bool \<Rightarrow> wchar list \<Rightarrow> nat" where
  "item_length u InBrackets [] = 0"
| "item_length u InBrackets (c # s) =
     (let InBrackets = (if mProcessBrackets u then (if c = 0x5b then True else if c = 0x5d then False else InBrackets) else InBrackets)
      in if \<not> InBrackets \<and> is_separator u c then 0 else Suc (item_length u InBrackets s))"

definition trim_right :: "ud_list \<Rightarrow> wchar list \<Rightarrow> wchar list" where
  "trim_right u s = (if mTrim u then rev (dropWhile IsSpace (rev s)) else s)"

text \<open>What follows a quoted item or a regular expression: blanks up to a separator or the end.\<close>

definition closed_item :: "ud_list \<Rightarrow> wchar list \<Rightarrow> nat \<Rightarrow> nat \<Rightarrow> bool \<Rightarrow> skipped" where
  "closed_item u cur len past quoted =
     (let RealEnd = skip_spaces u (drop past cur) in
      if RealEnd = [] \<or> is_separator u (hd RealEnd) then Item cur len (length cur - length RealEnd) quoted else Error)"

text \<open>The start of the item behind a separator.\<close>

definition item_start :: "ud_list \<Rightarrow> wchar list \<Rightarrow> wchar list" where
  "item_start u str = (if is_separator u (hd str) then skip_spaces u (tl str) else str)"

definition Skip :: "libc \<Rightarrow> sort_tables \<Rightarrow> ud_list \<Rightarrow> wchar list \<Rightarrow> skipped option" where
  "Skip C T u str =
     (if str = [] then Some End
      else
        let str = skip_spaces u str in
        if str = [] then None
        else
          let str = item_start u str in
          if str = [] then Some (Item [] 0 0 False)
          else if hd str = 0x22 then
            (case close_quote (tl str) of
               Some n \<Rightarrow> Some (closed_item u (tl str) n (n + 1) True)
             | None \<Rightarrow> Some Error)
          else if mProcessRegexp u \<and> hd str = 0x2f then
            (case close_slash (tl str) of
               Some n \<Rightarrow> do { k \<leftarrow> regex_flags C T u 4 (drop (n + 2) str); Some (closed_item u str (n + 2 + k) (n + 2 + k) False) }
             | None \<Rightarrow> Some Error)
          else
            let n = item_length u False str in Some (Item str (length (trim_right u (take n str))) n False))"

section \<open>Setting the list\<close>

definition make_item :: "ud_list \<Rightarrow> nat \<Rightarrow> wchar list \<Rightarrow> nat \<Rightarrow> bool \<Rightarrow> list_item" where
  "make_item u idx cur len InQuotes =
     (let item = \<lparr>index = idx, Str = take len cur, CaseSensitive = mCaseSensitive u\<rparr> in
      if mProcessRegexp u \<and> hd cur = 0x2f then item
      else
        let item = (if mPackAsterisks u then Compact 0x2a False item else item);
            item = (if InQuotes then Compact 0x22 True item else item)
        in if mAddAsterisk u \<and> \<not> any_of (Str item) [0x3f, 0x2a, 0x2e] then item\<lparr>Str := Str item @ [0x2a]\<rparr> else item)"

text \<open>One step of the loop over the list is a call of \<open>Skip\<close>; it always gets nearer to the end.\<close>

lemma skip_spaces_le: "length (skip_spaces u s) \<le> length s"
  by (simp add: skip_spaces_def length_dropWhile_le)

lemma closed_item_length:
  "closed_item u cur len past quoted = Item rest m n q \<Longrightarrow> past \<le> length cur \<Longrightarrow>
    rest = cur \<and> m = len \<and> q = quoted \<and> past \<le> n \<and> n \<le> length cur"
  using skip_spaces_le [of u "drop past cur"] by (auto simp: closed_item_def Let_def split: if_splits)

lemma close_quote_less: "close_quote s = Some n \<Longrightarrow> n < length s"
  by (induction s arbitrary: n rule: close_quote.induct) (auto split: if_splits)

lemma close_quote_first: "close_quote s = Some n \<Longrightarrow> \<not> 0 < n \<Longrightarrow> hd s = 0x22"
  by (cases s rule: close_quote.cases) (auto split: if_splits)

lemma close_slash_less: "close_slash s = Some n \<Longrightarrow> n < length s"
  by (induction s arbitrary: n rule: close_slash.induct) (auto split: if_splits)

lemma item_length_le: "item_length u b s \<le> length s"
  by (induction s arbitrary: b) (auto simp: Let_def)

lemma regex_flags_le: "regex_flags C T u k s = Some n \<Longrightarrow> n \<le> length s"
  by (induction C T u k s arbitrary: n rule: regex_flags.induct) (auto simp: bind_eq_Some_conv split: if_splits)

lemma trim_right_le: "length (trim_right u s) \<le> length s"
  using length_dropWhile_le [of IsSpace "rev s"] by (simp add: trim_right_def)

lemma trim_right_0: "trim_right u (take n s) = [] \<Longrightarrow> s \<noteq> [] \<Longrightarrow> \<not> (mTrim u \<and> IsSpace (hd s)) \<Longrightarrow> n = 0"
  by (cases s; cases n) (auto simp: trim_right_def split: if_splits)

lemma skip_spaces_hd: "skip_spaces u s \<noteq> [] \<Longrightarrow> mTrim u \<Longrightarrow> \<not> IsSpace (hd (skip_spaces u s))"
  using hd_dropWhile [of IsSpace s] by (simp add: skip_spaces_def)

text \<open>The four ways in which \<open>Skip\<close> finds an item.\<close>

lemma Skip_cases:
  assumes "Skip C T u s = Some (Item rest len n q)"
  defines "t \<equiv> item_start u (skip_spaces u s)"
  obtains "s \<noteq> []" "t = []" "rest = []" "len = 0" "n = 0"
  | k where "t \<noteq> []" "hd t = 0x22" "close_quote (tl t) = Some k" "closed_item u (tl t) k (k + 1) True = Item rest len n q" "k + 1 \<le> length (tl t)"
  | k where "t \<noteq> []" "closed_item u t (k + 2) (k + 2) False = Item rest len n q" "k + 2 \<le> length t"
  | "t \<noteq> []" "rest = t" "n = item_length u False t" "len = length (trim_right u (take n t))"
      "len = 0 \<Longrightarrow> n = 0 \<and> is_separator u (hd (skip_spaces u s))"
proof -
  have ne: "s \<noteq> []" "skip_spaces u s \<noteq> []" using assms(1) by (auto simp: Skip_def Let_def split: if_splits)
  consider (empty) "t = []" "rest = []" "len = 0" "n = 0"
    | (quote) k where "t \<noteq> []" "hd t = 0x22" "close_quote (tl t) = Some k" "closed_item u (tl t) k (k + 1) True = Item rest len n q"
    | (regex) k j where "t \<noteq> []" "close_slash (tl t) = Some k" "regex_flags C T u 4 (drop (k + 2) t) = Some j"
        "closed_item u t (k + 2 + j) (k + 2 + j) False = Item rest len n q"
    | (plain) "t \<noteq> []" "rest = t" "n = item_length u False t" "len = length (trim_right u (take n t))"
    using assms ne unfolding Skip_def Let_def by (auto simp: bind_eq_Some_conv split: if_splits option.splits)
  then show ?thesis
  proof cases
    case empty
    then show ?thesis using that(1) ne by simp
  next
    case quote
    then have "k + 1 \<le> length (tl t)" using close_quote_less by fastforce
    with quote that(2) show ?thesis by blast
  next
    case regex
    have "k + 2 + j \<le> length t"
      using close_slash_less [OF regex(2)] regex_flags_le [OF regex(3)] regex(1) by (cases t) auto
    with regex that(3) [of "k + j"] show ?thesis by (simp add: ac_simps)
  next
    case plain
    have "n = 0 \<and> is_separator u (hd (skip_spaces u s))" if "len = 0"
    proof -
      have "\<not> (mTrim u \<and> IsSpace (hd t))"
        using plain(1) skip_spaces_hd by (auto simp: t_def item_start_def split: if_splits)
      then have n: "n = 0" using that plain(1,4) trim_right_0 [of u n t] by simp
      then have "is_separator u (hd t)" using plain(1,3) by (cases t) (auto simp: Let_def split: if_splits)
      then show ?thesis using n by (auto simp: t_def item_start_def split: if_splits)
    qed
    with plain that(4) show ?thesis by blast
  qed
qed

lemma Skip_progress:
  assumes "Skip C T u s = Some (Item rest len n q)"
  shows "length (if len > 0 then drop n rest else rest) < length s \<and> len \<le> n \<and> n \<le> length rest \<and> (len > 0 \<longrightarrow> rest \<noteq> [])"
proof -
  let ?s = "skip_spaces u s" and ?t = "item_start u (skip_spaces u s)"
  have s: "?s \<noteq> []" using assms by (auto simp: Skip_def Let_def split: if_splits)
  have t: "length ?t \<le> length s" "is_separator u (hd ?s) \<Longrightarrow> length ?t < length s"
    using skip_spaces_le [of u s] skip_spaces_le [of u "tl ?s"] s by (cases ?s; auto simp: item_start_def)+
  from assms show ?thesis
  proof (cases rule: Skip_cases)
    case 1
    then show ?thesis by simp
  next
    case (2 k)
    from closed_item_length [OF 2(4,5)] show ?thesis using 2(1) t(1) by (cases ?t) auto
  next
    case (3 k)
    from closed_item_length [OF 3(2,3)] show ?thesis using t(1) by auto
  next
    case 4
    have nl: "n \<le> length ?t" unfolding 4(3) by (rule item_length_le)
    have ll: "len \<le> n" using 4(4) nl trim_right_le [of u "take n ?t"] by simp
    show ?thesis using 4(1,2,5) nl ll t by auto
  qed
qed

text \<open>The loop over the list: whether there was no error, and the array.\<close>

function list_loop :: "libc \<Rightarrow> sort_tables \<Rightarrow> ud_list \<Rightarrow> wchar list \<Rightarrow> nat \<Rightarrow> list_item list \<Rightarrow> (bool \<times> list_item list) option" where
  "list_loop C T u CurList idx arr =
     (case Skip C T u CurList of
        None \<Rightarrow> None
      | Some End \<Rightarrow> Some (True, arr)
      | Some Error \<Rightarrow> Some (False, arr)
      | Some (Item rest Length RealLength InQuotes) \<Rightarrow>
          if Length > 0 then list_loop C T u (drop RealLength rest) (idx + 1) (arr @ [make_item u idx rest Length InQuotes])
          else if mAccountEmptyLine u then list_loop C T u rest (idx + 1) arr
          else Some (False, arr))"
  by pat_completeness auto

termination
  by (relation "measure (\<lambda>(C, T, u, s, idx, arr). length s)") (auto dest!: Skip_progress)

declare list_loop.simps [simp del]

text \<open>Neighbours that are equal are reduced to the last one of them.\<close>

fun unique_items :: "sort_tables \<Rightarrow> list_item list \<Rightarrow> list_item list" where
  "unique_items T [] = []"
| "unique_items T [a] = [a]"
| "unique_items T (a # b # xs) = (if item_equal T b a then unique_items T (b # xs) else a # unique_items T (b # xs))"

type_synonym sorter = "(list_item \<Rightarrow> list_item \<Rightarrow> bool) \<Rightarrow> list_item list \<Rightarrow> list_item list"

definition order_items :: "sort_tables \<Rightarrow> sorter \<Rightarrow> ud_list \<Rightarrow> list_item list \<Rightarrow> list_item list" where
  "order_items T std_sort u arr =
     (let arr = (if mUnique u then unique_items T (std_sort (item_less T) arr) else arr);
          arr = (if \<not> mSort u then std_sort CmpIndexes arr
                 else if \<not> mUnique u then std_sort (item_less T) arr else arr)
      in map (\<lambda>(i, el). el\<lparr>index := i\<rparr>) (enumerate 0 arr))"

definition Set_list :: "libc \<Rightarrow> sort_tables \<Rightarrow> sorter \<Rightarrow> ud_list \<Rightarrow> wchar list \<Rightarrow> bool \<Rightarrow> (bool \<times> ud_list) option" where
  "Set_list C T std_sort u List AddToList =
     (if \<not> CheckSeparators u then Some (False, u)
      else if List = [] then Some (AddToList, u)
      else
        let u = (if AddToList then u else u\<lparr>Array := []\<rparr>) in
        case list_loop C T u List (length (Array u)) (Array u) of
          None \<Rightarrow> None
        | Some (rc, arr) \<Rightarrow> Some (rc, u\<lparr>Array := (if rc then order_items T std_sort u arr else [])\<rparr>))"

definition SetAsIs :: "ud_list \<Rightarrow> wchar list \<Rightarrow> bool \<times> ud_list" where
  "SetAsIs u List =
     (if List \<noteq> [] then (True, u\<lparr>Array := [\<lparr>index = 0, Str = List, CaseSensitive = mCaseSensitive u\<rparr>]\<rparr>) else (False, u))"

definition AddItem :: "libc \<Rightarrow> sort_tables \<Rightarrow> sorter \<Rightarrow> ud_list \<Rightarrow> wchar list \<Rightarrow> (bool \<times> ud_list) option" where
  "AddItem C T std_sort u NewItem = Set_list C T std_sort u NewItem True"

definition Get :: "ud_list \<Rightarrow> nat \<Rightarrow> wchar list option" where
  "Get u Index = (if Index < length (Array u) then Some (Str (Array u ! Index)) else None)"

definition IsEmpty :: "ud_list \<Rightarrow> bool" where
  "IsEmpty u \<longleftrightarrow> Array u = []"

definition IsLastElement :: "ud_list \<Rightarrow> nat \<Rightarrow> bool" where
  "IsLastElement u Index \<longleftrightarrow> Index + 1 = length (Array u)"

section \<open>A list of blanks only\<close>

definition blank :: "ud_list \<Rightarrow> wchar list \<Rightarrow> bool" where
  "blank u s \<longleftrightarrow> s \<noteq> [] \<and> mTrim u \<and> (\<forall>c \<in> set s. IsSpace c)"

definition plain_separators :: "ud_list \<Rightarrow> bool" where
  "plain_separators u \<longleftrightarrow> CheckSeparators u \<and> (\<forall>c \<in> set (mSeparator u). \<not> IsSpace c)"

definition alpha_known :: "libc \<Rightarrow> sort_tables \<Rightarrow> bool" where
  "alpha_known C T \<longleftrightarrow> (\<forall>c. IsCharAlpha C T c \<noteq> None)"

lemma regex_flags_known: "alpha_known C T \<Longrightarrow> \<exists>n. regex_flags C T u k s = Some n"
proof (induction C T u k s rule: regex_flags.induct)
  case (3 C T u i c s)
  then obtain a where "IsCharAlpha C T c = Some a" by (auto simp: alpha_known_def)
  then show ?case using 3 by (cases a) auto
qed auto

lemma blank_spaces: "s \<noteq> [] \<Longrightarrow> skip_spaces u s = [] \<longleftrightarrow> blank u s"
  by (auto simp: skip_spaces_def blank_def dropWhile_eq_Nil_conv)

lemma Skip_None:
  assumes "alpha_known C T"
  shows "Skip C T u s = None \<longleftrightarrow> blank u s"
proof (cases "s = []")
  case False
  have k: "\<exists>n. regex_flags C T u 4 x = Some n" for x by (rule regex_flags_known [OF assms])
  have "Skip C T u s \<noteq> None" if "skip_spaces u s \<noteq> []"
  proof -
    let ?t = "item_start u (skip_spaces u s)"
    obtain n where "regex_flags C T u 4 (drop (the (close_slash (tl ?t)) + 2) ?t) = Some n" using k by blast
    then show ?thesis using False that unfolding Skip_def Let_def by (auto split: option.splits)
  qed
  then show ?thesis using False blank_spaces [OF False] by (auto simp: Skip_def)
qed (simp add: Skip_def blank_def)

lemma separator_not_space: "plain_separators u \<Longrightarrow> is_separator u c \<Longrightarrow> \<not> IsSpace c"
  by (cases "c = 0") (simp add: IsSpace_def, simp add: plain_separators_def is_separator_def)

lemma drop_item_length: "drop (item_length u b s) s = [] \<or> is_separator u (hd (drop (item_length u b s) s))"
proof (induction s arbitrary: b)
  case (Cons c s)
  define b' where "b' = (if mProcessBrackets u then (if c = 0x5b then True else if c = 0x5d then False else b) else b)"
  have "item_length u b (c # s) = (if \<not> b' \<and> is_separator u c then 0 else Suc (item_length u b' s))"
    by (simp only: item_length.simps Let_def b'_def)
  then show ?case using Cons [of b'] by simp
qed simp

lemma not_blank_hd: "s = [] \<or> \<not> mTrim u \<or> \<not> IsSpace (hd s) \<Longrightarrow> \<not> blank u s"
  by (cases s) (auto simp: blank_def)

text \<open>Behind an item there is the end, a separator or, behind an empty quoted one, the closing quote.\<close>

lemma closed_item_rest:
  "closed_item u cur len past quoted = Item rest m n q \<Longrightarrow> past \<le> length cur \<Longrightarrow>
    drop n rest = [] \<or> is_separator u (hd (drop n rest))"
proof -
  assume c: "closed_item u cur len past quoted = Item rest m n q" "past \<le> length cur"
  let ?r = "skip_spaces u (drop past cur)"
  have "suffix ?r cur"
    using suffix_dropWhile [of IsSpace "drop past cur"] suffix_drop [of past cur] suffix_order.trans
    by (auto simp: skip_spaces_def)
  then obtain zs where "cur = zs @ ?r" by (auto simp: suffix_def)
  then have "drop (length cur - length ?r) cur = ?r" by (metis append_eq_conv_conj length_append add_diff_cancel_right')
  then show ?thesis using c by (auto simp: closed_item_def Let_def split: if_splits)
qed

lemma Skip_not_blank:
  assumes "plain_separators u" and "Skip C T u s = Some (Item rest len n q)"
  shows "\<not> blank u (if len > 0 then drop n rest else rest)"
  using assms(2)
proof (cases rule: Skip_cases)
  case 1
  then show ?thesis by (simp add: blank_def)
next
  case (2 k)
  have r: "rest = tl (item_start u (skip_spaces u s))" "len = k" using closed_item_length [OF 2(4,5)] by simp_all
  show ?thesis
  proof (cases "len > 0")
    case True
    then show ?thesis using closed_item_rest [OF 2(4,5)] separator_not_space [OF assms(1)] by (auto intro!: not_blank_hd)
  next
    case False
    then have "hd rest = 0x22" using close_quote_first 2(3) r by blast
    then show ?thesis using False by (auto intro!: not_blank_hd simp: IsSpace_def)
  qed
next
  case (3 k)
  then have "len = k + 2" using closed_item_length [OF 3(2,3)] by simp
  then show ?thesis using closed_item_rest [OF 3(2,3)] separator_not_space [OF assms(1)] by (auto intro!: not_blank_hd)
next
  case 4
  have "\<not> IsSpace (hd rest)" if "len = 0"
  proof -
    have "n = 0" using 4(5) that by simp
    then have "is_separator u (hd rest)" using drop_item_length [of u False rest] 4(1-3) by simp
    then show ?thesis by (rule separator_not_space [OF assms(1)])
  qed
  then show ?thesis using 4(2,3) drop_item_length [of u False rest] separator_not_space [OF assms(1)]
    by (auto intro!: not_blank_hd)
qed

lemma list_loop_None:
  assumes "alpha_known C T" and "plain_separators u"
  shows "list_loop C T u s idx arr = None \<longleftrightarrow> blank u s"
  using assms
proof (induction C T u s idx arr rule: list_loop.induct)
  case (1 C T u s idx arr)
  note e = list_loop.simps [of C T u s idx arr]
  show ?case
  proof (cases "Skip C T u s")
    case None
    then have "list_loop C T u s idx arr = None" by (simp add: e)
    then show ?thesis using None Skip_None [OF 1(3)] by blast
  next
    case (Some r)
    then have nb: "\<not> blank u s" using Skip_None [OF 1(3), of u s] by simp
    show ?thesis
    proof (cases r)
      case (Item rest len n q)
      note it = Some [unfolded Item]
      show ?thesis
        using 1(1) [OF it refl _ 1(3,4)] 1(2) [OF it refl _ _ 1(3,4)] Skip_not_blank [OF 1(4) it] nb it
        by (cases "len > 0"; cases "mAccountEmptyLine u") (simp_all add: e)
    qed (use Some nb in \<open>simp_all add: e\<close>)
  qed
qed

text \<open>
  C0. \<open>UserDefinedList.Set\<close> ends, and with separators that are not blank it stays inside the string in all cases but
  one: when leading blanks are skipped and the list has nothing else, it takes the terminator for a separator and
  reads on behind it.
\<close>

lemma alpha_known_ok: "tables_ok T \<Longrightarrow> alpha_known C T"
  unfolding alpha_known_def
proof
  fix c
  assume "tables_ok T"
  then obtain t where "get_char_typeW T c = Some t"
    using full_table_Some unfolding tables_ok_def get_char_typeW_def by blast
  then show "IsCharAlpha C T c \<noteq> None"
    by (simp add: IsCharAlpha_def is_char_def GetStringType_def char_type_def numeral_eq_Suc)
qed

lemma Set_list_None:
  assumes "tables_ok T" and "plain_separators u"
  shows "Set_list C T S u List add = None \<longleftrightarrow> blank u List"
proof -
  note ak = alpha_known_ok [OF assms(1), of C]
  have p: "plain_separators (u\<lparr>Array := []\<rparr>)" "CheckSeparators u" using assms(2) by (simp_all add: plain_separators_def CheckSeparators_def)
  have b: "blank (u\<lparr>Array := []\<rparr>) List \<longleftrightarrow> blank u List" by (simp add: blank_def)
  let ?u = "if add then u else u\<lparr>Array := []\<rparr>"
  have "list_loop C T ?u List (length (Array ?u)) (Array ?u) = None \<longleftrightarrow> blank u List"
    using list_loop_None [OF ak assms(2), of List] list_loop_None [OF ak p(1), of List] b by simp
  moreover have "Set_list C T S u List add = None \<longleftrightarrow>
      List \<noteq> [] \<and> list_loop C T ?u List (length (Array ?u)) (Array ?u) = None"
    using p(2) by (auto simp: Set_list_def Let_def split: option.splits)
  ultimately show ?thesis by (auto simp: blank_def)
qed

text \<open>
  C37. \<open>UserDefinedList.Set\<close> on every string: with separators that are accepted by \<open>CheckSeparators\<close> and not blank it stays
  inside the string and ends, in all cases but one. When blanks are trimmed (the option \<^verbatim>\<open>ULF_NOTTRIM\<close> is not set) and the
  list is not empty and has nothing but blanks, it takes the terminator for a separator and reads on behind it.
\<close>

theorem Set_overreads_iff:
  assumes "tables_ok T" and "plain_separators u"
  shows "Set_list C T S u List add = None \<longleftrightarrow> List \<noteq> [] \<and> mTrim u \<and> set List \<subseteq> {c. IsSpace c}"
  unfolding Set_list_None [OF assms] blank_def by blast

section \<open>Sorting and removing duplicates\<close>

text \<open>What \<^verbatim>\<open>std::sort\<close> demands of its comparison, and what it then does.\<close>

definition strict_weak :: "('a \<Rightarrow> 'a \<Rightarrow> bool) \<Rightarrow> 'a set \<Rightarrow> bool" where
  "strict_weak lt A \<longleftrightarrow> (\<forall>a \<in> A. \<forall>b \<in> A. lt a b \<longrightarrow> \<not> lt b a) \<and>
     (\<forall>a \<in> A. \<forall>b \<in> A. \<forall>c \<in> A. lt a b \<longrightarrow> lt a c \<or> lt c b)"

definition std_sort_ok :: "sorter \<Rightarrow> bool" where
  "std_sort_ok S \<longleftrightarrow> (\<forall>lt xs. strict_weak lt (set xs) \<longrightarrow> mset (S lt xs) = mset xs \<and> sorted_wrt (\<lambda>a b. \<not> lt b a) (S lt xs))"

text \<open>A sort that does so.\<close>

fun insert_by :: "('a \<Rightarrow> 'a \<Rightarrow> bool) \<Rightarrow> 'a \<Rightarrow> 'a list \<Rightarrow> 'a list" where
  "insert_by lt x [] = [x]"
| "insert_by lt x (y # ys) = (if lt y x then y # insert_by lt x ys else x # y # ys)"

definition insertion_sort :: "('a \<Rightarrow> 'a \<Rightarrow> bool) \<Rightarrow> 'a list \<Rightarrow> 'a list" where
  "insertion_sort lt xs = foldr (insert_by lt) xs []"

lemma mset_insert_by [simp]: "mset (insert_by lt x ys) = add_mset x (mset ys)"
  by (induction ys) auto

lemma set_insert_by [simp]: "set (insert_by lt x ys) = insert x (set ys)"
  by (induction ys) auto

lemma strict_weak_subset: "strict_weak lt A \<Longrightarrow> B \<subseteq> A \<Longrightarrow> strict_weak lt B"
  by (auto simp: strict_weak_def subset_iff)

lemma strict_weak_least:
  assumes "strict_weak lt A" and "a \<in> A" and "b \<in> A" and "c \<in> A" and "\<not> lt b a" and "\<not> lt c b"
  shows "\<not> lt c a"
  using assms unfolding strict_weak_def by blast

lemma insert_by_sorted:
  "strict_weak lt (insert x (set ys)) \<Longrightarrow> sorted_wrt (\<lambda>a b. \<not> lt b a) ys \<Longrightarrow> sorted_wrt (\<lambda>a b. \<not> lt b a) (insert_by lt x ys)"
proof (induction ys)
  case (Cons y ys)
  note sw = Cons.prems(1)
  have "sorted_wrt (\<lambda>a b. \<not> lt b a) (insert_by lt x ys)"
    using Cons.IH [OF strict_weak_subset [OF sw]] Cons.prems(2) by auto
  moreover have "\<not> lt x y" if "lt y x" using that sw by (auto simp: strict_weak_def)
  moreover have "\<not> lt z x" if "z \<in> set ys" "\<not> lt y x" for z
    using strict_weak_least [OF sw, of x y z] that Cons.prems(2) by auto
  ultimately show ?case using Cons.prems(2) by auto
qed simp

lemma insertion_sort_ok: "std_sort_ok insertion_sort"
  unfolding std_sort_ok_def
proof (intro allI impI)
  fix lt :: "list_item \<Rightarrow> list_item \<Rightarrow> bool" and xs
  assume "strict_weak lt (set xs)"
  then show "mset (insertion_sort lt xs) = mset xs \<and> sorted_wrt (\<lambda>a b. \<not> lt b a) (insertion_sort lt xs)"
  proof (induction xs)
    case (Cons x xs)
    have "set (insertion_sort lt xs) = set xs" "mset (insertion_sort lt xs) = mset xs" "sorted_wrt (\<lambda>a b. \<not> lt b a) (insertion_sort lt xs)"
      using Cons.IH strict_weak_subset [OF Cons.prems, of "set xs"] mset_eq_setD by auto
    then show ?case using insert_by_sorted [of lt x "insertion_sort lt xs"] Cons.prems by (simp add: insertion_sort_def)
  qed (simp add: insertion_sort_def)
qed

text \<open>The order of a three-way comparison may be given to \<^verbatim>\<open>std::sort\<close>.\<close>

context three_way
begin

lemma below_strict_weak: "good t \<Longrightarrow> \<forall>x \<in> A. valid (f x) \<Longrightarrow> strict_weak (\<lambda>x y. below t (f x) (f y)) A"
  unfolding strict_weak_def using below_asym below_trans by blast

end

text \<open>The items of one list: plain strings with the flag of the list.\<close>

definition items_ok :: "bool \<Rightarrow> list_item list \<Rightarrow> bool" where
  "items_ok cs xs \<longleftrightarrow> (\<forall>x \<in> set xs. CaseSensitive x = cs \<and> plain_string (Str x))"

definition item_key :: "sort_tables \<Rightarrow> bool \<Rightarrow> list_item \<Rightarrow> u32 list" where
  "item_key T cs x = order_key T cs (Str x)"

lemma item_cmp_str: "CaseSensitive a = cs \<Longrightarrow> item_cmp T a b = str_cmp (T, cs) (Str a) (Str b)"
  by (simp add: item_cmp_def str_cmp_def)

lemma item_less_below: "CaseSensitive a = cs \<Longrightarrow> item_less T a b \<longleftrightarrow> strings.below (T, cs) (Str a) (Str b)"
  by (auto simp: item_less_def item_cmp_str strings.below_def split: option.splits)

lemma items_strict_weak:
  assumes "tables_ok T" and "items_ok cs xs"
  shows "strict_weak (item_less T) (set xs)"
proof -
  have "strict_weak (\<lambda>x y. strings.below (T, cs) (Str x) (Str y)) (set xs)"
    using assms by (intro strings.below_strict_weak) (auto simp: items_ok_def)
  then show ?thesis using assms(2) item_less_below by (fastforce simp: strict_weak_def items_ok_def)
qed

lemma item_equal_key:
  assumes "tables_ok T" and "items_ok cs xs" and "a \<in> set xs" and "b \<in> set xs"
  shows "item_equal T a b \<longleftrightarrow> item_key T cs a = item_key T cs b"
    and "\<not> item_less T b a \<Longrightarrow> \<not> item_equal T b a \<Longrightarrow> item_less T a b"
    and "item_less T a b \<Longrightarrow> item_key T cs a \<noteq> item_key T cs b"
proof -
  have v: "CaseSensitive a = cs" "CaseSensitive b = cs" "plain_string (Str a)" "plain_string (Str b)" "tables_ok (fst (T, cs))"
    using assms by (auto simp: items_ok_def)
  have c: "item_cmp T a b = Some (lex_cmp (item_key T cs a) (item_key T cs b))"
    using str_cmp_key [OF v(5,3,4)] v(1) by (simp add: item_cmp_str item_key_def)
  show "item_equal T a b \<longleftrightarrow> item_key T cs a = item_key T cs b"
    using c lex_cmp_zero by (simp add: item_equal_def)
  show "\<not> item_less T b a \<Longrightarrow> \<not> item_equal T b a \<Longrightarrow> item_less T a b"
    using strings.trichotomy [OF v(5,3,4)] strings.same_sym [OF v(5,3,4)] v
    by (auto simp: item_less_below item_equal_def item_cmp_str strings.same_def)
  show "item_less T a b \<Longrightarrow> item_key T cs a \<noteq> item_key T cs b"
    using c lex_cmp_zero [of "item_key T cs a" "item_key T cs b"] by (auto simp: item_less_def)
qed

lemma unique_items_subset: "set (unique_items T xs) \<subseteq> set xs"
  by (induction T xs rule: unique_items.induct) auto

lemma unique_items_strict:
  assumes "tables_ok T"
  shows "items_ok cs xs \<Longrightarrow> sorted_wrt (\<lambda>a b. \<not> item_less T b a) xs \<Longrightarrow>
    sorted_wrt (item_less T) (unique_items T xs) \<and> item_key T cs ` set (unique_items T xs) = item_key T cs ` set xs"
  using assms
proof (induction T xs rule: unique_items.induct)
  case (3 T a b xs)
  have ok: "items_ok cs (b # xs)" using 3(3) by (simp add: items_ok_def)
  note m = item_equal_key [OF 3(5,3)]
  show ?case
  proof (cases "item_equal T b a")
    case True
    then have "item_key T cs b = item_key T cs a" using m(1) [of b a] by simp
    then show ?thesis using 3(1) [OF True ok _ 3(5)] 3(4) True by auto
  next
    case False
    have ab: "item_less T a b" using m(2) [of a b] False 3(4) by simp
    have "item_less T a y" if "y \<in> set (b # xs)" for y
    proof -
      have "\<not> item_less T y b" using that 3(4) items_strict_weak [OF 3(5,3)] by (auto simp: strict_weak_def)
      then show ?thesis using ab items_strict_weak [OF 3(5,3)] that unfolding strict_weak_def by auto
    qed
    then show ?thesis using 3(2) [OF False ok _ 3(5)] 3(4) False unique_items_subset [of T "b # xs"] by auto
  qed
qed auto

lemma strictly_sorted_subseq:
  fixes f :: "'a \<Rightarrow> nat"
  assumes "sorted_wrt (\<lambda>a b. f a < f b) xs"
  shows "sorted_wrt (\<lambda>a b. f a < f b) ys \<Longrightarrow> set ys \<subseteq> set xs \<Longrightarrow> subseq ys xs"
  using assms
proof (induction xs arbitrary: ys)
  case (Cons x xs)
  show ?case
  proof (cases ys)
    case (Cons y zs)
    show ?thesis
    proof (cases "y = x")
      case True
      have "x \<notin> set zs" using Cons.prems(1) True local.Cons by auto
      then have "set zs \<subseteq> set xs" using Cons.prems(2) local.Cons True by auto
      then show ?thesis using Cons.IH [of zs] Cons.prems(1,3) local.Cons True by simp
    next
      case False
      then have "y \<in> set xs" using Cons.prems(2) local.Cons by auto
      then have "x \<notin> set ys" using Cons.prems(1,3) local.Cons False by fastforce
      then show ?thesis using Cons.IH [OF Cons.prems(1)] Cons.prems(2,3) by auto
    qed
  qed simp
qed simp

lemma set_skip_spaces: "set (skip_spaces u s) \<subseteq> set s"
  by (auto simp: skip_spaces_def dest: set_dropWhileD)

lemma Skip_set:
  assumes "Skip C T u s = Some (Item rest len n q)"
  shows "set rest \<subseteq> set s"
proof -
  let ?t = "item_start u (skip_spaces u s)"
  have "skip_spaces u s \<noteq> []" using assms by (auto simp: Skip_def Let_def split: if_splits)
  then have t: "set ?t \<subseteq> set s" "set (tl ?t) \<subseteq> set s"
    using set_skip_spaces [of u s] set_skip_spaces [of u "tl (skip_spaces u s)"]
    by (cases "skip_spaces u s"; cases ?t; auto simp: item_start_def split: if_splits)+
  from assms show ?thesis
  proof (cases rule: Skip_cases)
    case (2 k)
    then show ?thesis using closed_item_length [OF 2(4,5)] t(2) by simp
  next
    case (3 k)
    then show ?thesis using closed_item_length [OF 3(2,3)] t(1) by simp
  next
    case 1
    then show ?thesis by simp
  next
    case 4
    show ?thesis unfolding 4(2) by (rule t(1))
  qed
qed

lemma set_compact: "set (compact_loop ch b f s) \<subseteq> set s"
  by (induction ch b f s rule: compact_loop.induct) auto

lemma make_item_fields:
  "index (make_item u idx cur len q) = idx" "CaseSensitive (make_item u idx cur len q) = mCaseSensitive u"
  "set (Str (make_item u idx cur len q)) \<subseteq> insert 0x2a (set cur)"
  using set_compact [of "0x22" True False "compact_loop 0x2a False False (take len cur)"] set_compact [of "0x2a" False False "take len cur"]
    set_compact [of "0x22" True False "take len cur"] set_take_subset [of len cur]
  by (auto simp: make_item_def Let_def Compact_def)

text \<open>Items with the flag of the list and with characters from a set.\<close>

definition items_from :: "wchar set \<Rightarrow> bool \<Rightarrow> list_item list \<Rightarrow> bool" where
  "items_from A cs xs \<longleftrightarrow> (\<forall>x \<in> set xs. CaseSensitive x = cs \<and> set (Str x) \<subseteq> A)"

lemma items_ok_from: "items_ok cs xs \<longleftrightarrow> items_from (- {0}) cs xs"
  by (auto simp: items_ok_def items_from_def plain_string_def)

lemma list_loop_items:
  "list_loop C T u s idx arr = Some (rc, arr') \<Longrightarrow> set s \<subseteq> A \<Longrightarrow> 0x2a \<in> A \<Longrightarrow> \<forall>x \<in> set arr. index x < idx \<Longrightarrow>
    items_from A (mCaseSensitive u) arr \<Longrightarrow> sorted_wrt (\<lambda>a b. index a < index b) arr \<Longrightarrow>
    items_from A (mCaseSensitive u) arr' \<and> sorted_wrt (\<lambda>a b. index a < index b) arr'"
proof (induction C T u s idx arr rule: list_loop.induct)
  case (1 C T u s idx arr)
  note e = list_loop.simps [of C T u s idx arr]
  show ?case
  proof (cases "\<exists>rest len n q. Skip C T u s = Some (Item rest len n q) \<and> (len > 0 \<or> mAccountEmptyLine u)")
    case False
    then have "arr' = arr" using 1(3) unfolding e by (auto split: option.splits skipped.splits if_splits)
    then show ?thesis using 1(7,8) by simp
  next
    case True
    then obtain rest len n q where it: "Skip C T u s = Some (Item rest len n q)" "len > 0 \<or> mAccountEmptyLine u" by blast
    have p: "set rest \<subseteq> A" "set (drop n rest) \<subseteq> A"
      using Skip_set [OF it(1)] 1(4) by (auto dest: in_set_dropD)
    show ?thesis
    proof (cases "len > 0")
      case True
      let ?x = "make_item u idx rest len q"
      have "set (Str ?x) \<subseteq> A" using make_item_fields(3) [of u idx rest len q] p(1) 1(5) by auto
      then have "items_from A (mCaseSensitive u) (arr @ [?x])" "sorted_wrt (\<lambda>a b. index a < index b) (arr @ [?x])"
        "\<forall>x \<in> set (arr @ [?x]). index x < idx + 1"
        using 1(6-8) make_item_fields(1,2) [of u idx rest len q] by (auto simp: items_from_def sorted_wrt_append)
      then show ?thesis using 1(1) [OF it(1) refl True] 1(3,5) p(2) it True by (simp add: e)
    next
      case False
      moreover have "\<forall>x \<in> set arr. index x < idx + 1" using 1(6) by auto
      ultimately show ?thesis using 1(2) [OF it(1) refl False] 1(3,5,7,8) p(1) it by (simp add: e)
    qed
  qed
qed

lemma reindexed:
  "map Str (map (\<lambda>(i, el). el\<lparr>index := i\<rparr>) (enumerate n xs)) = map Str xs"
  "map (item_key T cs) (map (\<lambda>(i, el). el\<lparr>index := i\<rparr>) (enumerate n xs)) = map (item_key T cs) xs"
  by (induction xs arbitrary: n) (simp_all add: item_key_def)

lemma sorted_wrt_distinct: "sorted_wrt (\<noteq>) xs \<Longrightarrow> distinct xs"
  by (induction xs) auto

lemma sorted_index_strict:
  fixes f :: "'a \<Rightarrow> nat"
  assumes "sorted_wrt (\<lambda>a b. f a \<le> f b) xs" and "distinct xs" and "inj_on f (set xs)"
  shows "sorted_wrt (\<lambda>a b. f a < f b) xs"
  using assms
proof (induction xs)
  case (Cons x xs)
  then have "f x \<noteq> f y" if "y \<in> set xs" for y using that by (auto simp: inj_on_def)
  then show ?case using Cons by (auto simp: order_less_le)
qed simp

lemma strict_inj_on:
  fixes f :: "'a \<Rightarrow> nat"
  shows "sorted_wrt (\<lambda>a b. f a < f b) xs \<Longrightarrow> inj_on f (set xs)"
proof (induction xs)
  case (Cons x xs)
  have "f x < f y" if "y \<in> set xs" for y using Cons.prems that by simp
  then show ?case using Cons by (fastforce simp: inj_on_insert)
qed simp

text \<open>
  C22. \<open>Set\<close> with the option to remove duplicates: on any \<^verbatim>\<open>std::sort\<close> that keeps its contract no two items of the list
  are equal in the chosen comparison, every item of the text equals one of them, and they stand in the order of that
  comparison if the list is to be sorted, otherwise in the order of the text.
\<close>

theorem Set_removes_duplicates:
  assumes "tables_ok T" and "std_sort_ok S" and "mUnique u" and "plain_string List" and "List \<noteq> []"
    and "Set_list C T S u List False = Some (True, u')"
  shows "\<exists>parsed. list_loop C T (u\<lparr>Array := []\<rparr>) List 0 [] = Some (True, parsed) \<and>
    distinct (map (item_key T (mCaseSensitive u)) (Array u')) \<and>
    item_key T (mCaseSensitive u) ` set (Array u') = item_key T (mCaseSensitive u) ` set parsed \<and>
    (if mSort u then sorted_wrt (\<lambda>a b. lex_cmp a b < 0) (map (item_key T (mCaseSensitive u)) (Array u'))
     else subseq (map Str (Array u')) (map Str parsed))"
proof -
  define cs where "cs = mCaseSensitive u"
  let ?u = "u\<lparr>Array := []\<rparr>" and ?key = "item_key T cs"
  obtain parsed where p: "list_loop C T ?u List 0 [] = Some (True, parsed)" "u' = ?u\<lparr>Array := order_items T S ?u parsed\<rparr>"
    using assms(5,6) by (auto simp: Set_list_def Let_def split: if_splits option.splits)
  have ok: "items_ok cs parsed" "sorted_wrt (\<lambda>a b. index a < index b) parsed"
    using list_loop_items [OF p(1), of "- {0}"] assms(4) by (simp_all add: items_ok_from items_from_def cs_def plain_string_def)
  define sorted where "sorted = S (item_less T) parsed"
  define kept where "kept = unique_items T sorted"
  have s: "mset sorted = mset parsed" "sorted_wrt (\<lambda>a b. \<not> item_less T b a) sorted"
    using assms(2) items_strict_weak [OF assms(1) ok(1)] by (auto simp: std_sort_ok_def sorted_def)
  have so: "items_ok cs sorted" using ok(1) mset_eq_setD [OF s(1)] by (simp add: items_ok_def)
  have k: "sorted_wrt (item_less T) kept" "?key ` set kept = ?key ` set parsed"
    using unique_items_strict [OF assms(1) so s(2)] mset_eq_setD [OF s(1)] by (simp_all add: kept_def)
  have ks: "set kept \<subseteq> set parsed" using unique_items_subset [of T sorted] mset_eq_setD [OF s(1)] by (simp add: kept_def)
  then have ki: "items_ok cs kept" using ok(1) by (auto simp: items_ok_def)
  have dist: "distinct (map ?key kept)" "sorted_wrt (\<lambda>a b. lex_cmp a b < 0) (map ?key kept)"
  proof -
    have l: "lex_cmp (?key a) (?key b) < 0 \<and> ?key a \<noteq> ?key b" if "a \<in> set kept" "b \<in> set kept" "item_less T a b" for a b
    proof -
      have "CaseSensitive a = cs" "plain_string (Str a)" "plain_string (Str b)" using ki that(1,2) by (auto simp: items_ok_def)
      then have "item_cmp T a b = Some (lex_cmp (?key a) (?key b))"
        using str_cmp_key [of "(T, cs)" "Str a" "Str b"] assms(1) by (simp add: item_cmp_str item_key_def)
      then show ?thesis using that(3) item_equal_key(3) [OF assms(1) ki that] by (simp add: item_less_def)
    qed
    have "sorted_wrt (\<lambda>a b. lex_cmp (?key a) (?key b) < 0) kept" "sorted_wrt (\<lambda>a b. ?key a \<noteq> ?key b) kept"
      using l by (auto intro: sorted_wrt_mono_rel [OF _ k(1)])
    then show "distinct (map ?key kept)" "sorted_wrt (\<lambda>a b. lex_cmp a b < 0) (map ?key kept)"
      by (auto simp: sorted_wrt_map intro!: sorted_wrt_distinct)
  qed
  show ?thesis
  proof (cases "mSort u")
    case True
    then have a: "Array u' = map (\<lambda>(i, el). el\<lparr>index := i\<rparr>) (enumerate 0 kept)"
      using assms(3) by (simp add: p(2) order_items_def kept_def sorted_def Let_def)
    have "map ?key (Array u') = map ?key kept" unfolding a by (rule reindexed)
    moreover from this have "?key ` set (Array u') = ?key ` set kept" by (metis list.set_map)
    ultimately show ?thesis using p(1) dist k(2) True unfolding cs_def [symmetric] by simp
  next
    case False
    define placed where "placed = S CmpIndexes kept"
    have "strict_weak CmpIndexes (set kept)" by (auto simp: strict_weak_def CmpIndexes_def)
    then have pl: "mset placed = mset kept" "sorted_wrt (\<lambda>a b. \<not> CmpIndexes b a) placed"
      using assms(2) by (auto simp: std_sort_ok_def placed_def)
    have a: "Array u' = map (\<lambda>(i, el). el\<lparr>index := i\<rparr>) (enumerate 0 placed)"
      using assms(3) False by (simp add: p(2) order_items_def kept_def sorted_def placed_def Let_def)
    have m: "map ?key (Array u') = map ?key placed" "map Str (Array u') = map Str placed" unfolding a by (rule reindexed)+
    have "distinct (map ?key placed)" using dist(1) pl(1) by (metis mset_map mset_eq_imp_distinct_iff)
    moreover have "?key ` set placed = ?key ` set parsed" using k(2) mset_eq_setD [OF pl(1)] by simp
    moreover have "subseq placed parsed"
    proof (rule strictly_sorted_subseq [OF ok(2)])
      show sub: "set placed \<subseteq> set parsed" using ks mset_eq_setD [OF pl(1)] by simp
      have "distinct placed" using dist(1) pl(1) by (metis distinct_map mset_eq_imp_distinct_iff)
      moreover have "inj_on index (set placed)" using strict_inj_on [OF ok(2)] sub by (rule inj_on_subset)
      moreover have "sorted_wrt (\<lambda>a b. index a \<le> index b) placed"
        using pl(2) by (simp add: CmpIndexes_def not_less)
      ultimately show "sorted_wrt (\<lambda>a b. index a < index b) placed" by (intro sorted_index_strict)
    qed
    moreover have "?key ` set (Array u') = ?key ` set placed" using arg_cong [OF m(1), of set] by simp
    ultimately show ?thesis using p(1) False unfolding cs_def [symmetric] m by (simp add: subseq_map)
  qed
qed

theorem Set_removes_duplicates_witness:
  "\<exists>u'. Set_list tiny_libc tiny_sort insertion_sort (UserDefinedList 0x210 None) [0x62, 0x3b, 0x61, 0x3b, 0x62] False = Some (True, u') \<and>
    distinct (map (item_key tiny_sort True) (Array u'))"
proof -
  let ?u = "UserDefinedList 0x210 None" and ?l = "[0x62, 0x3b, 0x61, 0x3b, 0x62] :: wchar list"
  have u: "mUnique ?u" "mCaseSensitive ?u" "plain_string ?l" by code_simp+
  have "case list_loop tiny_libc tiny_sort ?u ?l 0 [] of Some (rc, arr) \<Rightarrow> rc | None \<Rightarrow> False" by code_simp
  then obtain arr where l: "list_loop tiny_libc tiny_sort ?u ?l 0 [] = Some (True, arr)"
    by (auto split: option.splits prod.splits)
  have "CheckSeparators ?u" "?u\<lparr>Array := []\<rparr> = ?u" by code_simp+
  then obtain u' where s: "Set_list tiny_libc tiny_sort insertion_sort ?u ?l False = Some (True, u')"
    using l unfolding Set_list_def Let_def by (simp only: not_True_eq_False list.distinct if_False) (simp add: UserDefinedList_def Let_def)
  show ?thesis using Set_removes_duplicates [OF tiny_sort_ok insertion_sort_ok u(1,3) _ s] s u(2) by auto
qed

section \<open>Writing and reading a list\<close>

text \<open>How a list is written so that it can be read back: every item in quotes, its quotes doubled.\<close>

definition doubled :: "wchar list \<Rightarrow> wchar list" where
  "doubled w = concat (map (\<lambda>c. if c = 0x22 then [c, c] else [c]) w)"

definition quoted :: "wchar list \<Rightarrow> wchar list" where
  "quoted w = 0x22 # doubled w @ [0x22]"

text \<open>Texts joined by a separator, and a list of quoted items.\<close>

fun joined :: "wchar \<Rightarrow> wchar list list \<Rightarrow> wchar list" where
  "joined sep [] = []"
| "joined sep (t # ts) = t @ (if ts = [] then [] else sep # joined sep ts)"

definition quoted_list :: "wchar \<Rightarrow> wchar list list \<Rightarrow> wchar list" where
  "quoted_list sep ws = joined sep (map quoted ws)"

text \<open>The loop reads joined texts if \<open>Skip\<close> finds each one between separators.\<close>

definition plain_item :: "ud_list \<Rightarrow> nat \<Rightarrow> wchar list \<Rightarrow> list_item" where
  "plain_item u i w = \<lparr>index = i, Str = w, CaseSensitive = mCaseSensitive u\<rparr>"

lemma list_loop_joined:
  assumes "is_separator u sep"
    and "\<And>w pre r i. w \<in> set ws \<Longrightarrow> pre = [] \<or> pre = [sep] \<Longrightarrow> r = [] \<or> is_separator u (hd r) \<Longrightarrow>
      \<exists>rest len n q. Skip C T u (pre @ enc w @ r) = Some (Item rest len n q) \<and> 0 < len \<and> drop n rest = r \<and>
        make_item u i rest len q = plain_item u i w"
  shows "pre = [] \<or> pre = [sep] \<and> ws \<noteq> [] \<Longrightarrow> list_loop C T u (pre @ joined sep (map enc ws)) idx arr =
    Some (True, arr @ map (\<lambda>(i, w). plain_item u i w) (enumerate idx ws))"
  using assms(2)
proof (induction ws arbitrary: pre idx arr)
  case Nil
  then show ?case by (simp add: list_loop.simps [of C T u "[]"] Skip_def)
next
  case (Cons w ws)
  let ?r = "if ws = [] then [] else sep # joined sep (map enc ws)"
  have r: "?r = [] \<or> is_separator u (hd ?r)" using assms(1) by simp
  have p: "pre = [] \<or> pre = [sep]" using Cons.prems(1) by blast
  obtain rest len n q where s: "Skip C T u (pre @ enc w @ ?r) = Some (Item rest len n q)" "0 < len" "drop n rest = ?r"
    "make_item u idx rest len q = plain_item u idx w"
    using Cons.prems(2) [OF _ p r, of w idx] by auto
  have "list_loop C T u ?r (idx + 1) (arr @ [plain_item u idx w]) =
      Some (True, (arr @ [plain_item u idx w]) @ map (\<lambda>(i, w). plain_item u i w) (enumerate (idx + 1) ws))"
    using Cons.IH [of "if ws = [] then [] else [sep]" "idx + 1" "arr @ [plain_item u idx w]"] Cons.prems(2) by auto
  then show ?case using list_loop.simps [of C T u "pre @ enc w @ ?r" idx arr] s by simp
qed

lemma doubled_simps [simp]: "doubled [] = []" "doubled (c # w) = (if c = 0x22 then 0x22 # 0x22 # doubled w else c # doubled w)"
  by (simp_all add: doubled_def)

lemma close_quote_doubled: "r = [] \<or> hd r \<noteq> 0x22 \<Longrightarrow> close_quote (doubled w @ 0x22 # r) = Some (length (doubled w))"
proof (induction w)
  case Nil
  then show ?case by (cases r) auto
next
  case (Cons c w)
  obtain d ds where "doubled w @ 0x22 # r = d # ds" by (cases "doubled w") auto
  then show ?case using Cons by auto
qed

lemma compact_doubled: "compact_loop 0x22 True False (doubled w) = w"
  by (induction w) auto

lemma doubled_Nil [simp]: "doubled w = [] \<longleftrightarrow> w = []"
  by (cases w) auto

lemma Skip_quoted:
  assumes "plain_separators u" and "pre = [] \<or> (\<exists>c. pre = [c] \<and> is_separator u c)"
    and "r = [] \<or> is_separator u (hd r)"
  shows "Skip C T u (pre @ quoted w @ r) = Some (Item (doubled w @ 0x22 # r) (length (doubled w)) (length (doubled w) + 1) True)"
proof -
  have q: "\<not> is_separator u 0x22" "\<not> IsSpace 0x22"
    using assms(1) by (auto simp: plain_separators_def CheckSeparators_def is_separator_def IsSpace_def)
  let ?c = "doubled w @ 0x22 # r"
  have sp: "skip_spaces u (0x22 # x) = 0x22 # x" for x using q(2) by (simp add: skip_spaces_def)
  have pre: "skip_spaces u (pre @ 0x22 # x) = pre @ 0x22 # x" for x
    using assms(2) sp separator_not_space [OF assms(1)] by (auto simp: skip_spaces_def)
  have st: "item_start u (pre @ 0x22 # x) = 0x22 # x" for x
    using assms(2) q(1) sp by (auto simp: item_start_def)
  have r: "skip_spaces u r = r" "\<not> (r \<noteq> [] \<and> hd r = 0x22)"
    using assms(3) separator_not_space [OF assms(1)] q(1) by (cases r; auto simp: skip_spaces_def)+
  have "closed_item u ?c (length (doubled w)) (length (doubled w) + 1) True = Item ?c (length (doubled w)) (length (doubled w) + 1) True"
    using assms(3) r(1) by (auto simp: closed_item_def Let_def)
  moreover have "close_quote ?c = Some (length (doubled w))" using r(2) by (intro close_quote_doubled) auto
  ultimately show ?thesis by (simp add: Skip_def quoted_def pre st)
qed

definition plain_options :: "ud_list \<Rightarrow> bool" where
  "plain_options u \<longleftrightarrow> \<not> mAddAsterisk u \<and> \<not> mPackAsterisks u \<and> \<not> mUnique u \<and> \<not> mSort u \<and> \<not> mProcessRegexp u"

lemma list_loop_quoted:
  assumes "plain_separators u" and "plain_options u" and "is_separator u sep" and "\<forall>w \<in> set ws. w \<noteq> []"
  shows "list_loop C T u (quoted_list sep ws) idx arr = Some (True, arr @ map (\<lambda>(i, w). plain_item u i w) (enumerate idx ws))"
proof -
  have "\<exists>rest len n q. Skip C T u (pre @ quoted w @ r) = Some (Item rest len n q) \<and> 0 < len \<and> drop n rest = r \<and>
      make_item u i rest len q = plain_item u i w"
    if "w \<in> set ws" "pre = [] \<or> pre = [sep]" "r = [] \<or> is_separator u (hd r)" for w pre r i
  proof -
    have "Skip C T u (pre @ quoted w @ r) = Some (Item (doubled w @ 0x22 # r) (length (doubled w)) (length (doubled w) + 1) True)"
      using that(2,3) assms(3) by (intro Skip_quoted [OF assms(1)]) auto
    moreover have "make_item u i (doubled w @ 0x22 # r) (length (doubled w)) True = plain_item u i w"
      using assms(2) by (simp add: make_item_def plain_options_def Compact_def compact_doubled Let_def plain_item_def)
    ultimately show ?thesis using that(1) assms(4) by auto
  qed
  then show ?thesis using list_loop_joined [OF assms(3), of ws C T quoted "[]" idx arr] by (simp add: quoted_list_def)
qed

lemma sort_by_index:
  assumes "std_sort_ok S" and "sorted_wrt (\<lambda>a b. index a < index b) xs"
  shows "S CmpIndexes xs = xs"
proof -
  have "strict_weak CmpIndexes (set xs)" by (auto simp: strict_weak_def CmpIndexes_def)
  then have s: "mset (S CmpIndexes xs) = mset xs" "sorted_wrt (\<lambda>a b. \<not> CmpIndexes b a) (S CmpIndexes xs)"
    using assms(1) by (auto simp: std_sort_ok_def)
  have st: "set (S CmpIndexes xs) = set xs" using mset_eq_setD [OF s(1)] .
  have "sorted_wrt (\<noteq>) xs" using assms(2) by (rule sorted_wrt_mono_rel [rotated]) auto
  then have "distinct (S CmpIndexes xs)" using sorted_wrt_distinct s(1) by (metis mset_eq_imp_distinct_iff)
  then have "sorted_wrt (\<lambda>a b. index a < index b) (S CmpIndexes xs)"
    using s(2) strict_inj_on [OF assms(2)] by (intro sorted_index_strict) (simp_all add: CmpIndexes_def not_less st)
  then have "subseq (S CmpIndexes xs) xs" using strictly_sorted_subseq [OF assms(2)] st by simp
  moreover have "length (S CmpIndexes xs) = length xs" using s(1) by (metis size_mset)
  ultimately show ?thesis by (rule subseq_same_length)
qed

text \<open>Without the options that sort or remove items the list is what the loop has found.\<close>

lemma Set_list_plain:
  assumes "std_sort_ok S" and "\<not> mUnique u" and "\<not> mSort u" and "plain_separators u" and "s \<noteq> []"
    and "list_loop C T (u\<lparr>Array := []\<rparr>) s 0 [] = Some (rc, arr)"
  shows "\<exists>u'. Set_list C T S u s False = Some (rc, u') \<and> (rc \<longrightarrow> map Str (Array u') = map Str arr)"
proof -
  have "items_from UNIV (mCaseSensitive (u\<lparr>Array := []\<rparr>)) []" by (simp add: items_from_def)
  then have "sorted_wrt (\<lambda>a b. index a < index b) arr"
    using list_loop_items [OF assms(6), of UNIV] by simp
  then have "order_items T S (u\<lparr>Array := []\<rparr>) arr = map (\<lambda>(i, el). el\<lparr>index := i\<rparr>) (enumerate 0 arr)"
    using sort_by_index [OF assms(1)] assms(2,3) by (simp add: order_items_def)
  then have "map Str (order_items T S (u\<lparr>Array := []\<rparr>) arr) = map Str arr" by (simp only: reindexed)
  moreover have "CheckSeparators u" using assms(4) by (simp add: plain_separators_def)
  ultimately show ?thesis using assms(5,6) by (simp add: Set_list_def Let_def)
qed

text \<open>
  C15. A list that is written with every item in quotes and its quotes doubled, joined by one of the separators, is read back
  as the same items in the same order, whatever characters the items have besides the terminating zero: quotes,
  separators, brackets and blanks too. The list has none of the options that change items or their order
  (\<^verbatim>\<open>ULF_PACKASTERISKS\<close>, \<^verbatim>\<open>ULF_ADDASTERISK\<close>, \<^verbatim>\<open>ULF_UNIQUE\<close>, \<^verbatim>\<open>ULF_SORT\<close>) and does not read regular expressions
  (\<^verbatim>\<open>ULF_PROCESSREGEXP\<close>); its separators are accepted by \<open>CheckSeparators\<close> and none is blank.
\<close>

theorem Set_reads_quoted:
  assumes "plain_separators u" and "plain_options u" and "sep \<in> set (mSeparator u)" and "std_sort_ok S"
    and "ws \<noteq> []" and "[] \<notin> set ws" and "sep \<noteq> 0" and "\<forall>w \<in> set ws. 0 \<notin> set w"
  shows "\<exists>u'. Set_list C T S u (quoted_list sep ws) False = Some (True, u') \<and> map Str (Array u') = ws \<and>
    (\<forall>i. Get u' i = (if i < length ws then Some (ws ! i) else None))"
proof -
  let ?u = "u\<lparr>Array := []\<rparr>"
  let ?items = "map (\<lambda>(i, w). plain_item ?u i w) (enumerate 0 ws)"
  have u: "plain_separators ?u" "plain_options ?u" "is_separator ?u sep" "\<not> mUnique u" "\<not> mSort u"
    using assms(1-3,7) by (simp_all add: plain_separators_def CheckSeparators_def plain_options_def is_separator_def)
  have ne: "\<forall>w \<in> set ws. w \<noteq> []" using assms(6) by blast
  have "list_loop C T ?u (quoted_list sep ws) 0 [] = Some (True, ?items)"
    using list_loop_quoted [OF u(1-3) ne, of C T 0 "[]"] by simp
  moreover have "quoted_list sep ws \<noteq> []" using assms(5) by (cases ws) (simp_all add: quoted_list_def quoted_def)
  moreover have "map Str ?items = ws" by (simp add: list_eq_iff_nth_eq nth_enumerate_eq plain_item_def)
  ultimately obtain u' where s: "Set_list C T S u (quoted_list sep ws) False = Some (True, u')" "map Str (Array u') = ws"
    using Set_list_plain [OF assms(4) u(4,5) assms(1), of "quoted_list sep ws" C T True ?items] by (auto simp del: map_map)
  then have "Get u' i = (if i < length ws then Some (ws ! i) else None)" for i
    using arg_cong [OF s(2), of length] arg_cong [OF s(2), of "\<lambda>xs. xs ! i"] by (auto simp: Get_def)
  then show ?thesis using s by auto
qed

theorem Set_reads_quoted_witness:
  "\<exists>u'. Set_list tiny_libc tiny_sort insertion_sort (UserDefinedList 0 None) [0x22, 0x61, 0x22, 0x22, 0x22, 0x3b, 0x22, 0x3b, 0x22] False = Some (True, u') \<and>
    map Str (Array u') = [[0x61, 0x22], [0x3b]]"
proof -
  let ?u = "UserDefinedList 0 None"
  have u: "plain_separators ?u" "plain_options ?u" "0x3b \<in> set (mSeparator ?u)"
    "quoted_list 0x3b [[0x61, 0x22], [0x3b]] = [0x22, 0x61, 0x22, 0x22, 0x22, 0x3b, 0x22, 0x3b, 0x22]" by code_simp+
  show ?thesis
    using Set_reads_quoted [OF u(1-3) insertion_sort_ok, of "[[0x61, 0x22], [0x3b]]" tiny_libc tiny_sort] unfolding u(4) by auto
qed

theorem Set_overreads_iff_witness:
  "Set_list tiny_libc tiny_sort insertion_sort (UserDefinedList 0 None) [0x20] False = None"
proof -
  have u: "plain_separators (UserDefinedList 0 None)" "mTrim (UserDefinedList 0 None)" "IsSpace 0x20" by code_simp+
  from Set_overreads_iff [OF tiny_sort_ok u(1)] show ?thesis using u(2,3) by simp
qed

end
