(* ===== verification/WildName.thy ===== *)
theory WildName
  imports ProcName
begin

text \<open>
  Making a name from a mask: \<^verbatim>\<open>ConvertWildcards\<close> of \<^verbatim>\<open>far/src/mix/processname.cpp\<close>.
  A result \<open>None\<close> is an access outside a string or the buffer.
\<close>

section \<open>Making a name\<close>

text \<open>The length of the name from its last dot on.\<close>

definition dot_length :: "wchar list \<Rightarrow> nat option" where
  "dot_length s = (if 0x2e \<in> set s then Some (length (takeWhile (\<lambda>c. c \<noteq> 0x2e) (rev s)) + 1) else None)"

fun star_copy :: "nat option \<Rightarrow> wchar list \<Rightarrow> wchar list \<Rightarrow> wchar list \<Rightarrow> nat \<Rightarrow> (wchar list \<times> wchar list \<times> nat) option" where
  "star_copy dot wild [] buf pos = Some ([], buf, pos)"
| "star_copy dot wild (c # src) buf pos =
     (let copy = (case wr buf pos c of None \<Rightarrow> None | Some buf \<Rightarrow> star_copy dot wild src buf (pos + 1)) in
      if char_at wild 0 = 0x2e \<and> dot \<noteq> None \<and> 0x2e \<notin> set (tl wild) then
        if dot = Some (length (c # src)) then Some (c # src, buf, pos) else copy
      else if c = char_at wild 0 then Some (c # src, buf, pos)
      else copy)"

fun skip_dot :: "wchar list \<Rightarrow> wchar list" where
  "skip_dot [] = []"
| "skip_dot (c # src) = (if c = 0x2e then src else skip_dot src)"

text \<open>The loop over the wildcard name: what is left of the source, the buffer and the next cell.\<close>

fun convert_loop :: "nat option \<Rightarrow> wchar list \<Rightarrow> wchar list \<Rightarrow> wchar list \<Rightarrow> nat \<Rightarrow> (wchar list \<times> nat) option" where
  "convert_loop dot [] src buf pos = Some (buf, pos)"
| "convert_loop dot (w # wild) src buf pos =
     (if w = 0x3f then
        (case src of
           [] \<Rightarrow> convert_loop dot wild src buf pos
         | c # src \<Rightarrow> do { buf \<leftarrow> wr buf pos c; convert_loop dot wild src buf (pos + 1) })
      else if w = 0x2a then
        do { (src, buf, pos) \<leftarrow> star_copy dot wild src buf pos; convert_loop dot wild src buf pos }
      else if w = 0x2e then
        do { buf \<leftarrow> wr buf pos 0x2e;
             convert_loop dot wild (if any_of wild [0x2a, 0x3f] then skip_dot src else src) buf (pos + 1) }
      else
        do { buf \<leftarrow> wr buf pos w;
             convert_loop dot wild (if src \<noteq> [] \<and> hd src \<noteq> 0x2e then tl src else src) buf (pos + 1) })"

definition end_name :: "wchar list \<Rightarrow> nat \<Rightarrow> wchar list option" where
  "end_name buf pos =
     do { buf \<leftarrow> wr buf pos 0;
          buf \<leftarrow> (if pos \<noteq> 0 \<and> buf ! (pos - 1) = 0x2e then wr buf (pos - 1) 0 else Some buf);
          Some (takeWhile (\<lambda>c. c \<noteq> 0) buf) }"

text \<open>
  The buffer that is asked for has room for both strings and the terminator. The result says whether
  there was a wildcard.
\<close>

definition ConvertWildcards :: "wchar list \<Rightarrow> wchar list \<Rightarrow> nat \<Rightarrow> (bool \<times> wchar list) option" where
  "ConvertWildcards src dest folder_length =
     (let buf = dest @ replicate (length src + 1) 0; d = the (PointToName (Some dest) None); wild = drop d dest in
      if \<not> any_of wild [0x2a] \<and> \<not> any_of wild [0x3f] then Some (False, dest)
      else
        let part_after = (if folder_length \<noteq> 0 then drop (min (length src) folder_length) src else []);
            src = (if folder_length \<noteq> 0 then take (min (length src) folder_length) src else src);
            n = the (PointToName (Some src) None); part_before = take (if d = 0 then n else 0) src; name = drop n src in
        do { (buf, pos) \<leftarrow> convert_loop (dot_length name) wild name buf d;
             new_name \<leftarrow> end_name buf pos;
             Some (True, part_before @ new_name @ part_after) })"

section \<open>The made name fits and is what the wildcards say\<close>

text \<open>What the loops write, without the buffer.\<close>

fun star_out :: "nat option \<Rightarrow> wchar list \<Rightarrow> wchar list \<Rightarrow> wchar list \<times> wchar list" where
  "star_out dot wild [] = ([], [])"
| "star_out dot wild (c # src) =
     (if (if char_at wild 0 = 0x2e \<and> dot \<noteq> None \<and> 0x2e \<notin> set (tl wild) then dot = Some (length (c # src)) else c = char_at wild 0)
      then ([], c # src) else let (out, rest) = star_out dot wild src in (c # out, rest))"

fun convert_out :: "nat option \<Rightarrow> wchar list \<Rightarrow> wchar list \<Rightarrow> wchar list" where
  "convert_out dot [] src = []"
| "convert_out dot (w # wild) src =
     (if w = 0x3f then take 1 src @ convert_out dot wild (tl src)
      else if w = 0x2a then let (out, rest) = star_out dot wild src in out @ convert_out dot wild rest
      else if w = 0x2e then 0x2e # convert_out dot wild (if any_of wild [0x2a, 0x3f] then skip_dot src else src)
      else w # convert_out dot wild (if src \<noteq> [] \<and> hd src \<noteq> 0x2e then tl src else src))"

lemma star_out_split: "star_out dot wild src = (out, rest) \<Longrightarrow> src = out @ rest"
  by (induction dot wild src arbitrary: out rest rule: star_out.induct) (auto split: if_splits prod.splits)

lemma length_skip_dot: "length (skip_dot src) \<le> length src"
  by (induction src) auto

lemma convert_out_length: "length (convert_out dot wild src) \<le> length wild + length src"
proof (induction dot wild src rule: convert_out.induct)
  case (2 dot w wild src)
  consider (one) "w = 0x3f" | (star) "w \<noteq> 0x3f" "w = 0x2a" | (dot) "w \<noteq> 0x3f" "w \<noteq> 0x2a" "w = 0x2e"
    | (char) "w \<noteq> 0x3f" "w \<noteq> 0x2a" "w \<noteq> 0x2e" by blast
  then show ?case
  proof cases
    case one
    then show ?thesis using 2(1) [OF one] by (cases src) simp_all
  next
    case star
    obtain out rest where o: "star_out dot wild src = (out, rest)" by (cases "star_out dot wild src")
    have "length src = length out + length rest" using star_out_split [OF o] by simp
    then show ?thesis using 2(2) [OF star o [symmetric] refl] star o by simp
  next
    case dot
    then show ?thesis using 2(3) [OF dot] length_skip_dot [of src] by (cases "any_of wild [0x2a, 0x3f]") simp_all
  next
    case char
    then show ?thesis using 2(4) [OF char] by (cases src) auto
  qed
qed simp

lemma if_nested: "(if A then if B then x else y else if C then x else y) = (if (if A then B else C) then x else y)"
  by simp

lemma star_copy_out:
  "star_out dot wild src = (out, rest) \<Longrightarrow> pos + length out \<le> length buf \<Longrightarrow>
    star_copy dot wild src buf pos = Some (rest, splice buf pos out, pos + length out)"
proof (induction src arbitrary: out rest buf pos)
  case (Cons c src)
  let ?stop = "if char_at wild 0 = 0x2e \<and> dot \<noteq> None \<and> 0x2e \<notin> set (tl wild) then dot = Some (length (c # src)) else c = char_at wild 0"
  have l: "star_copy dot wild (c # src) buf pos = (if ?stop then Some (c # src, buf, pos)
      else case wr buf pos c of None \<Rightarrow> None | Some buf \<Rightarrow> star_copy dot wild src buf (pos + 1))"
    by (simp only: star_copy.simps Let_def if_nested)
  have m: "star_out dot wild (c # src) =
      (if ?stop then ([], c # src) else let (out, rest) = star_out dot wild src in (c # out, rest))"
    by (rule star_out.simps)
  show ?case
  proof (cases ?stop)
    case True
    have "([], c # src) = (out, rest)" using Cons(2) unfolding m if_P [OF True] .
    then show ?thesis unfolding l if_P [OF True] by simp
  next
    case False
    obtain o' r' where o: "star_out dot wild src = (o', r')" by (cases "star_out dot wild src")
    have "(c # o', r') = (out, rest)" using Cons(2) unfolding m if_not_P [OF False] o by simp
    then show ?thesis unfolding l if_not_P [OF False]
      using Cons(1) [OF o, of "pos + 1" "splice buf pos [c]"] Cons(3) by auto
  qed
qed simp

lemma convert_loop_out:
  "pos + length (convert_out dot wild src) \<le> length buf \<Longrightarrow>
    convert_loop dot wild src buf pos =
      Some (splice buf pos (convert_out dot wild src), pos + length (convert_out dot wild src))"
proof (induction dot wild src arbitrary: buf pos rule: convert_out.induct)
  case (2 dot w wild src)
  consider (one) "w = 0x3f" | (star) "w \<noteq> 0x3f" "w = 0x2a" | (dot) "w \<noteq> 0x3f" "w \<noteq> 0x2a" "w = 0x2e"
    | (char) "w \<noteq> 0x3f" "w \<noteq> 0x2a" "w \<noteq> 0x2e" by blast
  then show ?case
  proof cases
    case one
    then show ?thesis using 2(1) [OF one] 2(5) by (cases src) simp_all
  next
    case star
    obtain out rest where o: "star_out dot wild src = (out, rest)" by (cases "star_out dot wild src")
    show ?thesis using 2(2) [OF star o [symmetric] refl, of "pos + length out" "splice buf pos out"] 2(5) star star_copy_out [OF o, of pos buf] o
      by simp
  next
    case dot
    then show ?thesis using 2(3) [OF dot, of "pos + 1" "splice buf pos [0x2e]"] 2(5) by simp
  next
    case char
    then show ?thesis using 2(4) [OF char, of "pos + 1" "splice buf pos [w]"] 2(5) by simp
  qed
qed simp

definition strip_dot :: "wchar list \<Rightarrow> wchar list" where
  "strip_dot s = (if s \<noteq> [] \<and> last s = 0x2e then butlast s else s)"

lemma end_name_strip:
  assumes "length s < length buf" and "take (length s) buf = s" and "0 \<notin> set s"
  shows "end_name buf (length s) = Some (strip_dot s)"
proof -
  let ?y = "drop (Suc (length s)) buf"
  have b: "splice buf (length s) [0] = s @ 0 # ?y" using assms(1,2) by (simp add: splice_def)
  have t: "takeWhile (\<lambda>c. c \<noteq> 0) (x @ 0 # y) = x" if "set x \<subseteq> set s" for x y :: "wchar list"
    using that assms(3) by (subst takeWhile_append2) auto
  have e: "end_name buf (length s) =
      do { buf \<leftarrow> (if length s \<noteq> 0 \<and> (s @ 0 # ?y) ! (length s - 1) = 0x2e then wr (s @ 0 # ?y) (length s - 1) 0
             else Some (s @ 0 # ?y));
           Some (takeWhile (\<lambda>c. c \<noteq> 0) buf) }"
    using assms(1) unfolding end_name_def b [symmetric] by simp
  show ?thesis
  proof (cases s rule: rev_cases)
    case Nil
    then show ?thesis unfolding e by (simp add: strip_dot_def)
  next
    case (snoc r c)
    have "splice (s @ 0 # y) (length r) [0] = r @ 0 # 0 # y" for y using snoc by (simp add: splice_def)
    moreover have r: "set r \<subseteq> set s" using snoc by auto
    ultimately show ?thesis unfolding e using t [of s] t [OF r] snoc by (auto simp: strip_dot_def nth_append)
  qed
qed

lemma star_out_all: "0 \<notin> set src \<Longrightarrow> star_out dot [] src = (src, [])"
  by (induction src) (auto simp: char_at_def)

lemma convert_out_chars: "set (convert_out dot wild src) \<subseteq> insert 0x2e (set wild \<union> set src)"
proof (induction dot wild src rule: convert_out.induct)
  case (2 dot w wild src)
  have sk: "set (skip_dot src) \<subseteq> set src" by (induction src) auto
  obtain out rest where o: "star_out dot wild src = (out, rest)" by (cases "star_out dot wild src")
  have "src = out @ rest" using star_out_split [OF o] .
  then have "set out \<subseteq> set src" "set rest \<subseteq> set src" by auto
  moreover have "set (tl src) \<subseteq> set src" "set (take 1 src) \<subseteq> set src" by (cases src; auto)+
  ultimately have parts: "set (skip_dot src) \<subseteq> set src" "set out \<subseteq> set src" "set rest \<subseteq> set src"
    "set (tl src) \<subseteq> set src" "set (take 1 src) \<subseteq> set src" using sk by blast+
  consider (one) "w = 0x3f" | (star) "w \<noteq> 0x3f" "w = 0x2a" | (dot) "w \<noteq> 0x3f" "w \<noteq> 0x2a" "w = 0x2e"
    | (char) "w \<noteq> 0x3f" "w \<noteq> 0x2a" "w \<noteq> 0x2e" by blast
  then show ?case
  proof cases
    case one
    then show ?thesis using 2(1) [OF one] parts by (simp del: take_Suc) blast
  next
    case star
    then show ?thesis using 2(2) [OF star o [symmetric] refl] parts o by simp blast
  next
    case dot
    then show ?thesis using 2(3) [OF dot] parts by (cases "any_of wild [0x2a, 0x3f]"; simp; blast)
  next
    case char
    then show ?thesis using 2(4) [OF char] parts by (cases "src \<noteq> [] \<and> hd src \<noteq> 0x2e") (simp; blast)+
  qed
qed simp

definition has_wildcard :: "wchar list \<Rightarrow> bool" where
  "has_wildcard s \<longleftrightarrow> any_of s [0x2a, 0x3f]"

definition folder_part :: "wchar list \<Rightarrow> nat \<Rightarrow> wchar list" where
  "folder_part src n = (if n = 0 then src else take n src)"

definition made_name :: "wchar list \<Rightarrow> wchar list \<Rightarrow> wchar list" where
  "made_name src dest = (let name = ExtractFileName src; wild = ExtractFileName dest in
     strip_dot (take (length dest - length wild) dest @ convert_out (dot_length name) wild name))"

text \<open>
  \<open>ConvertWildcards\<close> never writes behind the buffer it asked for. Without a wildcard in the name part of
  the mask it answers false and leaves the mask; otherwise the result is the path of the mask, or that of the source
  when the mask has none, then the name made from the wildcards without a last dot, then what followed the folder.
\<close>

lemma ConvertWildcards_makes:
  assumes "0 \<notin> set src" and "0 \<notin> set dest"
  shows "ConvertWildcards src dest n = Some
    (if has_wildcard (ExtractFileName dest) then
       (True, (if GOOD_SLASH \<in> set dest then [] else take (length (folder_part src n) - length (ExtractFileName (folder_part src n))) (folder_part src n))
          @ made_name (folder_part src n) dest @ drop (length (folder_part src n)) src)
     else (False, dest))"
proof (cases "has_wildcard (ExtractFileName dest)")
  case True
  define wild where "wild = ExtractFileName dest"
  define d where "d = length dest - length wild"
  define folder where "folder = folder_part src n"
  define name where "name = ExtractFileName folder"
  define out where "out = convert_out (dot_length name) wild name"
  define made where "made = take d dest @ out"
  define buf where "buf = dest @ replicate (length src + 1) (0 :: wchar)"
  note rest = PointToName_rest [of dest, folded wild_def] PointToName_rest [of folder, folded name_def]
  have f: "folder = (if n \<noteq> 0 then take (min (length src) n) src else src)" "length folder \<le> length src"
    by (auto simp: folder_def folder_part_def min_def)
  have lo: "length out \<le> length wild + length name" unfolding out_def by (rule convert_out_length)
  have fit: "d + length out < length buf"
    using lo rest(3,7) f(2) by (simp add: buf_def d_def)
  have sp: "take (d + length out) (splice buf d out) = made"
    using fit rest(3) by (simp add: splice_def made_def buf_def d_def)
  have l: "convert_loop (dot_length name) wild name buf d = Some (splice buf d out, length made)"
    using convert_loop_out [of d "dot_length name" wild name buf] fit rest(3) by (simp add: out_def made_def d_def)
  have z: "0 \<notin> set made"
    using convert_out_chars [of "dot_length name" wild name] assms rest(4,8) f(1)
    by (auto simp: made_def out_def dest!: in_set_takeD split: if_splits)
  have e: "end_name (splice buf d out) (length made) = Some (strip_dot made)"
    using fit rest(3) sp z by (intro end_name_strip) (auto simp: made_def d_def)
  have s: "d = 0 \<longleftrightarrow> GOOD_SLASH \<notin> set dest"
  proof -
    obtain e: "dest = (if GOOD_SLASH \<in> set dest then ExtractFilePath dest @ [GOOD_SLASH] else []) @ wild"
      using path_split [of dest] unfolding wild_def by blast
    have "length dest = (if GOOD_SLASH \<in> set dest then length (ExtractFilePath dest) + 1 else 0) + length wild"
      using arg_cong [OF e, of length] by (simp only: length_append if_distrib [of length] list.size) simp
    then show ?thesis by (simp add: d_def split: if_splits)
  qed
  have w: "any_of wild [0x2a] \<or> any_of wild [0x3f]" using True by (auto simp: has_wildcard_def any_of_def wild_def)
  have "ConvertWildcards src dest n = Some (True, take (if d = 0 then length folder - length name else 0) folder @ strip_dot made @
      (if n \<noteq> 0 then drop (min (length src) n) src else []))"
  proof -
    have pd: "the (PointToName (Some dest) None) = d" "drop d dest = wild" using rest(1,2) by (simp_all add: d_def)
    have nw: "(\<not> any_of wild [0x2a] \<and> \<not> any_of wild [0x3f]) = False" using w by blast
    show ?thesis unfolding ConvertWildcards_def Let_def pd f(1) [symmetric] rest(5,6) buf_def [symmetric] nw if_False l e
      by (simp add: e)
  qed
  moreover have "(if n \<noteq> 0 then drop (min (length src) n) src else []) = drop (length folder) src"
    using f(1) by (simp split: if_splits)
  moreover have "take (if d = 0 then length folder - length name else 0) folder =
      (if GOOD_SLASH \<in> set dest then [] else take (length folder - length name) folder)" using s by simp
  moreover have "made_name folder dest = strip_dot made"
    by (simp add: made_name_def Let_def made_def out_def d_def name_def wild_def)
  ultimately show ?thesis using True by (simp add: name_def folder_def)
next
  case False
  then show ?thesis using PointToName_rest(1,2) [of dest]
    by (auto simp: ConvertWildcards_def has_wildcard_def any_of_def Let_def)
qed

section \<open>The usual masks\<close>

text \<open>The name up to its last dot.\<close>

definition stem :: "wchar list \<Rightarrow> wchar list" where
  "stem s = (case dot_length s of Some k \<Rightarrow> take (length s - k) s | None \<Rightarrow> s)"

lemma dot_length_split:
  assumes "dot_length s = Some k"
  obtains b where "s = stem s @ 0x2e # b" "0x2e \<notin> set b" "k = Suc (length b)"
proof -
  have d: "0x2e \<in> set s" using assms by (simp add: dot_length_def split: if_splits)
  obtain a b where s: "s = a @ 0x2e # b" "0x2e \<notin> set b" using split_list_last [OF d] by blast
  have "takeWhile (\<lambda>c. c \<noteq> 0x2e) (rev s) = rev b"
    unfolding s(1) using s(2) by (simp, subst takeWhile_append2) auto
  then have k: "k = Suc (length b)" using assms d by (simp add: dot_length_def)
  then have "stem s = a" using assms s(1) by (simp add: stem_def)
  then show ?thesis using that s k by simp
qed

lemma star_out_stem:
  assumes "0x2e \<notin> set w"
  shows "star_out (dot_length s) (0x2e # w) s = (stem s, drop (length (stem s)) s)"
proof (cases "dot_length s")
  case None
  then have "0x2e \<notin> set s" by (simp add: dot_length_def split: if_splits)
  then have "star_out None (0x2e # w) s = (s, [])" by (induction s) (auto simp: char_at_def)
  then show ?thesis using None by (simp add: stem_def)
next
  case (Some k)
  obtain b where b: "s = stem s @ 0x2e # b" "k = Suc (length b)" by (rule dot_length_split [OF Some])
  have "star_out (Some k) (0x2e # w) (a @ 0x2e # b) = (a, 0x2e # b)" for a
    using assms b(2) by (induction a) (simp_all add: char_at_def)
  then show ?thesis using Some b(1) by (metis append_eq_conv_conj)
qed

lemma convert_out_plain:
  "0x3f \<notin> set w \<Longrightarrow> 0x2a \<notin> set w \<Longrightarrow> 0x2e \<notin> set w \<Longrightarrow> convert_out dot w src = w"
  by (induction dot w src rule: convert_out.induct) auto

lemma ExtractFileName_plain: "GOOD_SLASH \<notin> set s \<Longrightarrow> ExtractFileName s = s"
  using path_split [of s] by auto

lemma ExtractFileName_no_slash: "GOOD_SLASH \<notin> set (ExtractFileName s)"
  using path_split [of s] by blast

lemma strip_dot_no_dot: "0x2e \<notin> set s \<Longrightarrow> strip_dot s = s"
  by (auto simp: strip_dot_def dest: last_in_set)

lemma made_name_masks:
  assumes "e \<noteq> []" and "0x3f \<notin> set e" and "0x2a \<notin> set e" and "0x2e \<notin> set e" and "GOOD_SLASH \<notin> set e"
    and "0 \<notin> set src"
  shows "made_name src [0x2a] = strip_dot (ExtractFileName src)"
    and "made_name src [0x2a, 0x2e, 0x2a] = strip_dot (ExtractFileName src)"
    and "made_name src (0x2a # 0x2e # e) = stem (ExtractFileName src) @ 0x2e # e"
proof -
  define name where "name = ExtractFileName src"
  let ?d = "dot_length name"
  have z: "0 \<notin> set name" using assms(6) PointToName_rest(4) [of src] by (auto simp: name_def)
  have masks: "ExtractFileName [0x2a] = [0x2a]" "ExtractFileName [0x2a, 0x2e, 0x2a] = [0x2a, 0x2e, 0x2a]"
    "ExtractFileName (0x2a # 0x2e # e) = 0x2a # 0x2e # e"
    using assms(5) by (simp_all add: ExtractFileName_plain GOOD_SLASH_def)
  have all: "convert_out dot [0x2a] s = s" if "0 \<notin> set s" for dot s
    using star_out_all [OF that, of dot] by simp
  show "made_name src [0x2a] = strip_dot (ExtractFileName src)"
    using all [OF z, of ?d] by (simp add: made_name_def Let_def masks name_def [symmetric])
  have two: "convert_out ?d [0x2a, 0x2e, 0x2a] name = stem name @ 0x2e # skip_dot (drop (length (stem name)) name)"
  proof -
    have "set (skip_dot s) \<subseteq> set s" for s by (induction s) auto
    then have "0 \<notin> set (skip_dot (drop (length (stem name)) name))" using z by (meson in_mono in_set_dropD)
    then show ?thesis using star_out_stem [of "[0x2a]" name] all by (simp add: any_of_def)
  qed
  have "strip_dot (stem name @ 0x2e # skip_dot (drop (length (stem name)) name)) = strip_dot name"
  proof (cases ?d)
    case None
    then have "0x2e \<notin> set name" "stem name = name" by (simp_all add: dot_length_def stem_def split: if_splits)
    then show ?thesis by (simp add: strip_dot_no_dot) (simp add: strip_dot_def)
  next
    case (Some k)
    obtain b where b: "name = stem name @ 0x2e # b" by (rule dot_length_split [OF Some])
    then have "drop (length (stem name)) name = 0x2e # b" by (metis append_eq_conv_conj)
    then show ?thesis using b by simp
  qed
  then show "made_name src [0x2a, 0x2e, 0x2a] = strip_dot (ExtractFileName src)"
    using two by (simp add: made_name_def Let_def masks name_def [symmetric] del: convert_out.simps)
  have "convert_out ?d (0x2a # 0x2e # e) name = stem name @ 0x2e # e"
    using star_out_stem [OF assms(4), of name] convert_out_plain [OF assms(2-4)] assms(2,3) by (simp add: any_of_def)
  moreover have "strip_dot (stem name @ 0x2e # e) = stem name @ 0x2e # e"
    using assms(1,4) last_in_set [OF assms(1)] by (metis last.simps last_appendR list.discI strip_dot_def)
  ultimately show "made_name src (0x2a # 0x2e # e) = stem (ExtractFileName src) @ 0x2e # e"
    by (simp add: made_name_def Let_def masks name_def [symmetric] del: convert_out.simps)
qed

text \<open>
  C38. \<open>ConvertWildcards\<close> never reads or writes outside its strings and the buffer it asked for, whatever the mask.
  Without a wildcard in its name part the mask stays and the answer is false. Otherwise the result is the path of the
  source, unless the mask has one of its own, then what the wildcards make of the name (\<open>made_name\<close>, which is written
  without the buffer: the path of the mask and the characters of \<open>convert_out\<close>, less a dot at the end), then what
  followed the selected folder. In particular the masks \<^verbatim>\<open>*\<close> and \<^verbatim>\<open>*.*\<close> give back the name in its folder, less
  a dot at its end, and \<^verbatim>\<open>*.e\<close> replaces what follows the last dot of the name, or adds it.
\<close>

theorem ConvertWildcards_masks:
  fixes src :: "wchar list"
  defines "path \<equiv> take (length src - length (ExtractFileName src)) src"
  assumes "0 \<notin> set src" and "0 \<notin> set dest"
    and "e \<noteq> []" and "set e \<inter> {0, 0x3f, 0x2a, 0x2e, GOOD_SLASH} = {}"
  shows "ConvertWildcards src dest n = Some
      (if has_wildcard (ExtractFileName dest) then
         (True, (if GOOD_SLASH \<in> set dest then [] else take (length (folder_part src n) - length (ExtractFileName (folder_part src n))) (folder_part src n))
            @ made_name (folder_part src n) dest @ drop (length (folder_part src n)) src)
       else (False, dest)) \<and>
    ConvertWildcards src [0x2a] 0 = Some (True, path @ strip_dot (ExtractFileName src)) \<and>
    ConvertWildcards src [0x2a, 0x2e, 0x2a] 0 = Some (True, path @ strip_dot (ExtractFileName src)) \<and>
    ConvertWildcards src (0x2a # 0x2e # e) 0 = Some (True, path @ stem (ExtractFileName src) @ 0x2e # e)"
proof -
  have e: "0 \<notin> set e" "0x3f \<notin> set e" "0x2a \<notin> set e" "0x2e \<notin> set e" "GOOD_SLASH \<notin> set e" using assms(5) by auto
  have w: "ConvertWildcards src d 0 = Some (True, path @ made_name src d)"
    if "0 \<notin> set d" "GOOD_SLASH \<notin> set d" "0x2a \<in> set d" for d
    using ConvertWildcards_makes [OF assms(2) that(1), of 0] that(2,3) ExtractFileName_plain [OF that(2)]
    by (auto simp: has_wildcard_def any_of_def folder_part_def path_def)
  show ?thesis
    unfolding ConvertWildcards_makes [OF assms(2,3), of n]
    using w [of "[0x2a]"] w [of "[0x2a, 0x2e, 0x2a]"] w [of "0x2a # 0x2e # e"] e
    by (simp add: made_name_masks [OF assms(4) e(2-5) assms(2)] GOOD_SLASH_def)
qed

text \<open>The mask \<^verbatim>\<open>?b.c\<close> and the usual one with the extension \<^verbatim>\<open>c\<close>, for the name \<^verbatim>\<open>/a.b\<close>.\<close>

theorem ConvertWildcards_masks_witness:
  "ConvertWildcards [0x2f, 0x61, 0x2e, 0x62] [0x3f, 0x62, 0x2e, 0x63] 0 = Some (True, [0x2f, 0x61, 0x62, 0x2e, 0x63]) \<and>
   ConvertWildcards [0x2f, 0x61, 0x2e, 0x62] [0x2a, 0x2e, 0x63] 0 = Some (True, [0x2f, 0x61, 0x2e, 0x63])"
proof -
  have s: "ExtractFileName [0x2f, 0x61, 0x2e, 0x62] = [0x61, 0x2e, 0x62]" "stem [0x61, 0x2e, 0x62] = [0x61]"
    "ExtractFileName [0x3f, 0x62, 0x2e, 0x63] = [0x3f, 0x62, 0x2e, 0x63]" "has_wildcard [0x3f, 0x62, 0x2e, 0x63]"
    "made_name [0x2f, 0x61, 0x2e, 0x62] [0x3f, 0x62, 0x2e, 0x63] = [0x61, 0x62, 0x2e, 0x63]"
    by code_simp+
  show ?thesis
    using ConvertWildcards_masks [of "[0x2f, 0x61, 0x2e, 0x62]" "[0x3f, 0x62, 0x2e, 0x63]" "[0x63]" 0]
    by (simp add: GOOD_SLASH_def folder_part_def s)
qed

end
