(* ===== verification/FileMasks.thy ===== *)
theory FileMasks
  imports UdList WildName
begin

text \<open>
  Sets of file masks: \<^verbatim>\<open>far/src/filemask/FileMasksProcessor.cpp\<close>, \<^verbatim>\<open>far/src/filemask/CFileMask.cpp\<close>,
  the lookup of a named group (\<^verbatim>\<open>far/src/cfg/MaskGroups.cpp\<close>) and \<^verbatim>\<open>ProcessName\<close> of
  \<^verbatim>\<open>far/src/mix/processname.cpp\<close>.

  Arguments of the model are the sections of the configuration with the groups, the functions of the C library, the
  character tables, \<^verbatim>\<open>std::sort\<close>, and the regular expressions: \<^verbatim>\<open>far/src/mix/RegExp.cpp\<close> belongs to the program but is
  not modelled, and its compilation and its search are two functions of which nothing is known; they may also fail to
  return. A result \<open>None\<close> is an access outside a string, a table or a buffer, or a call of these two functions that
  does not return.
\<close>

section \<open>Compiled masks\<close>

record 're mask_env =
  env_libc :: libc
  env_tables :: sort_tables
  env_sort :: sorter
  re_compile :: "wchar list \<Rightarrow> 're option option"
  re_search :: "'re \<Rightarrow> wchar list \<Rightarrow> bool option"
  mask_groups :: "(wchar list \<times> wchar list option) list"

text \<open>
  The three classes: \<^verbatim>\<open>SingleFileMask\<close>, \<^verbatim>\<open>RegexMask\<close> and \<^verbatim>\<open>FileMasksProcessor\<close> with its
  masks to include and to exclude.
\<close>

datatype 're file_mask = Single "wchar list" | Regex 're | Masks "'re file_mask list" "'re file_mask list"

definition EXCLUDEMASKSEPARATOR :: wchar where "EXCLUDEMASKSEPARATOR = 0x7c"
definition MAXCALLDEPTH :: nat where "MAXCALLDEPTH = 64"
definition FMF_ADDASTERISK :: u32 where "FMF_ADDASTERISK = 0x2"

fun FindExcludeChar :: "bool \<Rightarrow> wchar list \<Rightarrow> nat option" where
  "FindExcludeChar regexp [] = None"
| "FindExcludeChar False (c # masks) =
     (if c = EXCLUDEMASKSEPARATOR then Some 0 else map_option Suc (FindExcludeChar (c = 0x2f) masks))"
| "FindExcludeChar True [c] = None"
| "FindExcludeChar True (c # d # masks) =
     (if c = 0x5c then map_option (\<lambda>n. n + 2) (FindExcludeChar True masks)
      else map_option Suc (FindExcludeChar (c \<noteq> 0x2f) (d # masks)))"

text \<open>The value of a named group: that of the first section with this name.\<close>

fun GetMaskGroup :: "sort_tables \<Rightarrow> (wchar list \<times> wchar list option) list \<Rightarrow> wchar list \<Rightarrow> wchar list option option" where
  "GetMaskGroup T [] MaskName = Some None"
| "GetMaskGroup T ((nm, value) # sections) MaskName =
     do { r \<leftarrow> StrCmpI T nm MaskName; if r = 0 then Some value else GetMaskGroup T sections MaskName }"

text \<open>The name between angle brackets, if the mask is one of a group.\<close>

definition group_key :: "wchar list \<Rightarrow> wchar list option" where
  "group_key m =
     (if m \<noteq> [] \<and> hd m = 0x3c then
        let key = takeWhile (\<lambda>c. c \<noteq> 0x3e) (tl m) in
        if tl m = key @ [0x3e] \<and> key \<noteq> [] then Some key else None
      else None)"

definition Single_Set :: "wchar list \<Rightarrow> 're file_mask option" where
  "Single_Set masks = (if masks \<noteq> [] then Some (Single masks) else None)"

definition Regex_Set :: "'re mask_env \<Rightarrow> wchar list \<Rightarrow> 're file_mask option option" where
  "Regex_Set E masks =
     (if masks \<noteq> [] \<and> hd masks = 0x2f then map_option (map_option Regex) (re_compile E masks) else Some None)"

text \<open>The text of the masks to include and of those to exclude, if any.\<close>

definition split_masks :: "libc \<Rightarrow> wchar list \<Rightarrow> (wchar list \<times> wchar list option) option" where
  "split_masks C masks =
     (let pInclude = dropWhile (iswspace C) masks in
      case FindExcludeChar False pInclude of
        None \<Rightarrow> Some (pInclude, None)
      | Some n \<Rightarrow>
          let pExclude = dropWhile (iswspace C) (drop (n + 1) pInclude); pInclude = take n pInclude in
          if pInclude = [] \<and> pExclude = [] then None
          else if pExclude = [] then Some (pInclude, None)
          else Some (pInclude, Some (case FindExcludeChar False pExclude of Some m \<Rightarrow> take m pExclude | None \<Rightarrow> pExclude)))"

text \<open>The empty list that \<open>SetPart\<close> fills.\<close>

definition mask_list :: "bool \<Rightarrow> ud_list" where
  "mask_list asterisk =
     UserDefinedList (ULF_PACKASTERISKS OR ULF_PROCESSBRACKETS OR ULF_PROCESSREGEXP OR (if asterisk then ULF_ADDASTERISK else 0)) None"

text \<open>
  \<open>Processor_Set\<close>, \<open>SetPart\<close> and its loop over the list of masks. The inner option is the compiled mask, or \<open>None\<close> if
  the function returns false.
\<close>

function Processor_Set :: "'re mask_env \<Rightarrow> nat \<Rightarrow> wchar list \<Rightarrow> bool \<Rightarrow> 're file_mask option option"
and SetPart :: "'re mask_env \<Rightarrow> nat \<Rightarrow> wchar list \<Rightarrow> bool \<Rightarrow> 're file_mask list option option"
and set_masks :: "'re mask_env \<Rightarrow> nat \<Rightarrow> list_item list \<Rightarrow> 're file_mask list option option" where
  "Processor_Set E CallDepth masks asterisk =
     (if CallDepth \<ge> MAXCALLDEPTH then Some None
      else if masks = [] then Some None
      else case split_masks (env_libc E) masks of
          None \<Rightarrow> Some None
        | Some (pInclude, pExclude) \<Rightarrow>
            do { inc \<leftarrow> SetPart E CallDepth (if pInclude \<noteq> [] then pInclude else [0x2a]) asterisk;
                 (case inc of
                    None \<Rightarrow> Some None
                  | Some inc \<Rightarrow>
                      (case pExclude of
                         None \<Rightarrow> Some (Some (Masks inc []))
                       | Some pExclude \<Rightarrow>
                           do { exc \<leftarrow> SetPart E CallDepth pExclude False;
                                Some (map_option (Masks inc) exc) })) })"
| "SetPart E CallDepth masks asterisk =
     do { (rc, UdList) \<leftarrow> Set_list (env_libc E) (env_tables E) (env_sort E) (mask_list asterisk) masks False;
                if rc then set_masks E CallDepth (Array UdList) else Some None }"
| "set_masks E CallDepth [] = Some (Some [])"
| "set_masks E CallDepth (item # items) =
     do { strMask \<leftarrow> (case group_key (Str item) of None \<Rightarrow> Some None | Some key \<Rightarrow> GetMaskGroup (env_tables E) (mask_groups E) key);
                baseMask \<leftarrow> (case strMask of
                    Some strMask \<Rightarrow> Processor_Set E (CallDepth + 1) strMask False
                  | None \<Rightarrow> if Str item \<noteq> [] \<and> hd (Str item) = 0x2f then Regex_Set E (Str item) else Some (Single_Set (Str item)));
                (case baseMask of
                   None \<Rightarrow> Some None
                 | Some m \<Rightarrow> do { ms \<leftarrow> set_masks E CallDepth items; Some (map_option (Cons m) ms) }) }"
  by pat_completeness auto

termination
  by (relation "measures [\<lambda>x. case x of Inl (E, d, m, a) \<Rightarrow> (if d \<ge> 64 then 0 else 3 * (64 - d) + 3) | Inr (Inl (E, d, m, a)) \<Rightarrow> 3 * (64 - d) + 2
        | Inr (Inr (E, d, xs)) \<Rightarrow> 3 * (64 - d) + 1,
      \<lambda>x. case x of Inl _ \<Rightarrow> 0 | Inr (Inl _) \<Rightarrow> 0 | Inr (Inr (E, d, xs)) \<Rightarrow> length xs]") (auto simp: MAXCALLDEPTH_def)

declare Processor_Set.simps [simp del] SetPart.simps [simp del] set_masks.simps(2) [simp del]

text \<open>The comparison of a name with a mask, and with the masks of a list up to the first that matches.\<close>

fun mask_compare :: "'re mask_env \<Rightarrow> bool \<Rightarrow> 're file_mask \<Rightarrow> wchar list \<Rightarrow> bool option"
and any_compare :: "'re mask_env \<Rightarrow> bool \<Rightarrow> 're file_mask list \<Rightarrow> wchar list \<Rightarrow> bool option" where
  "mask_compare E CaseSens (Single m) FileName = CmpName (env_libc E) (env_tables E) (Some m) (Some FileName) False CaseSens"
| "mask_compare E CaseSens (Regex re) FileName = re_search E re FileName"
| "mask_compare E CaseSens (Masks IncludeMasks ExcludeMasks) FileName =
     do { i \<leftarrow> any_compare E CaseSens IncludeMasks FileName;
          if i then do { e \<leftarrow> any_compare E CaseSens ExcludeMasks FileName; Some (\<not> e) } else Some False }"
| "any_compare E CaseSens [] FileName = Some False"
| "any_compare E CaseSens (m # ms) FileName =
     do { b \<leftarrow> mask_compare E CaseSens m FileName; if b then Some True else any_compare E CaseSens ms FileName }"

section \<open>The class the program uses\<close>

definition RemoveTrailingSpaces :: "wchar list \<Rightarrow> wchar list" where
  "RemoveTrailingSpaces s = rev (dropWhile (\<lambda>c. IsSpace c \<or> IsEol c) (rev s))"

definition CFileMask_Set :: "'re mask_env \<Rightarrow> wchar list \<Rightarrow> u32 \<Rightarrow> 're file_mask option option" where
  "CFileMask_Set E masks flags =
     (let strMask = RemoveTrailingSpaces masks in
      if strMask = [] then Some None else Processor_Set E 0 strMask (flag_on flags FMF_ADDASTERISK))"

definition CFileMask_Compare :: "'re mask_env \<Rightarrow> 're file_mask \<Rightarrow> wchar list \<Rightarrow> bool \<Rightarrow> bool \<Rightarrow> bool option" where
  "CFileMask_Compare E m FileName CaseSens SkipPath =
     mask_compare E CaseSens m (if SkipPath then drop (the (PointToName (Some FileName) None)) FileName else FileName)"

section \<open>ProcessName\<close>

text \<open>The copy of at most \<open>DestSize - 1\<close> characters; it ends with one more terminator behind the one it copied.\<close>

fun wcsncpy_loop :: "wchar list \<Rightarrow> nat \<Rightarrow> wchar list \<Rightarrow> nat \<Rightarrow> wchar list option" where
  "wcsncpy_loop dest pos [] DestSize =
     (if DestSize > 1 then do { dest \<leftarrow> wr dest pos 0; wr dest (pos + 1) 0 } else wr dest pos 0)"
| "wcsncpy_loop dest pos (c # src) DestSize =
     (if DestSize > 1 then do { dest \<leftarrow> wr dest pos c; wcsncpy_loop dest (pos + 1) src (DestSize - 1) } else wr dest pos 0)"

definition far_wcsncpy :: "wchar list \<Rightarrow> wchar list \<Rightarrow> nat \<Rightarrow> wchar list option" where
  "far_wcsncpy dest src DestSize = wcsncpy_loop dest 0 src DestSize"

definition PN_CMPNAME :: u32 where "PN_CMPNAME = 0"
definition PN_CMPNAMELIST :: u32 where "PN_CMPNAMELIST = 0x10000"
definition PN_GENERATENAME :: u32 where "PN_GENERATENAME = 0x20000"
definition PN_CHECKMASK :: u32 where "PN_CHECKMASK = 0x30000"
definition PN_SKIPPATH :: u32 where "PN_SKIPPATH = 0x01000000"
definition PN_CASESENSITIVE :: u32 where "PN_CASESENSITIVE = 0x08000000"

text \<open>The second string is given with the cells of its buffer; the result is the value and the buffer.\<close>

definition ProcessName :: "'re mask_env \<Rightarrow> wchar list \<Rightarrow> wchar list \<Rightarrow> u32 \<Rightarrow> u32 \<Rightarrow> (bool \<times> wchar list) option" where
  "ProcessName E param1 param2 sz flags =
     (let skippath = flag_on flags PN_SKIPPATH; casesens = flag_on flags PN_CASESENSITIVE; mode = flags AND 0xFF0000;
          str2 = (case wcslen param2 of None \<Rightarrow> None | Some n \<Rightarrow> Some (take n param2)) in
      if mode = PN_CMPNAME then
        do { s \<leftarrow> str2; r \<leftarrow> CmpName (env_libc E) (env_tables E) (Some param1) (Some s) skippath casesens; Some (r, param2) }
      else if mode = PN_CMPNAMELIST \<or> mode = PN_CHECKMASK then
        do { m \<leftarrow> CFileMask_Set E param1 0;
             (case m of
                None \<Rightarrow> Some (False, param2)
              | Some m \<Rightarrow>
                  if mode = PN_CHECKMASK then Some (True, param2)
                  else do { s \<leftarrow> str2; r \<leftarrow> CFileMask_Compare E m s casesens skippath; Some (r, param2) }) }
      else if mode = PN_GENERATENAME then
        do { s \<leftarrow> str2; (nResult, strResult) \<leftarrow> ConvertWildcards param1 s (unat (flags AND 0xFFFF));
             buf \<leftarrow> far_wcsncpy param2 strResult (unat sz);
             Some (nResult, buf) }
      else Some (False, param2))"

section \<open>What a compiled mask means\<close>

fun mask_sem :: "'re mask_env \<Rightarrow> bool \<Rightarrow> 're file_mask \<Rightarrow> wchar list set" where
  "mask_sem E cs (Single p) = mask_lang (env_libc E) (env_tables E) cs (mask_items p)"
| "mask_sem E cs (Regex re) = {s. re_search E re s = Some True}"
| "mask_sem E cs (Masks inc exc) = \<Union> (set (map (mask_sem E cs) inc)) - \<Union> (set (map (mask_sem E cs) exc))"

fun masks_ok :: "'re mask_env \<Rightarrow> 're file_mask \<Rightarrow> bool" where
  "masks_ok E (Single p) \<longleftrightarrow> printable p"
| "masks_ok E (Regex re) \<longleftrightarrow> (\<forall>s. re_search E re s \<noteq> None)"
| "masks_ok E (Masks inc exc) \<longleftrightarrow> (\<forall>m \<in> set inc. masks_ok E m) \<and> (\<forall>m \<in> set exc. masks_ok E m)"

text \<open>How deep masks of groups are nested.\<close>

fun mask_depth :: "'re file_mask \<Rightarrow> nat" where
  "mask_depth (Single p) = 0"
| "mask_depth (Regex re) = 0"
| "mask_depth (Masks inc exc) = Suc (Max (insert 0 (set (map mask_depth inc) \<union> set (map mask_depth exc))))"

lemma CmpName_body: "CmpName C T (Some p) (Some s) False cs = CmpName_Body C T cs p s"
  by (simp add: CmpName_def)

lemma mask_compare_sem:
  assumes "case_ok (env_libc E) (env_tables E) cs" and "printable s"
  shows "masks_ok E m \<Longrightarrow> mask_compare E cs m s = Some (s \<in> mask_sem E cs m)"
    and "\<forall>m \<in> set ms. masks_ok E m \<Longrightarrow> any_compare E cs ms s = Some (s \<in> \<Union> (set (map (mask_sem E cs) ms)))"
  using assms
proof (induction E cs m s and E cs ms s rule: mask_compare_any_compare.induct)
  case (1 E cs p s)
  then show ?case using body_language(1) [OF 1(2)] by (simp add: CmpName_body)
next
  case (2 E cs re s)
  then obtain y where "re_search E re s = Some y" by auto
  then show ?case by simp
qed auto

text \<open>
  The characters of a text from which a mask can be set safely. White space at the start of a part is skipped with
  \<^verbatim>\<open>iswspace\<close>, but that at the start of an item with the \<open>IsSpace\<close> of far2l, which knows U+3000 in every locale:
  such a character must be white space for both. A slash may start a regular expression, which then has to return.
\<close>

definition regexps_return :: "'re mask_env \<Rightarrow> bool" where
  "regexps_return E \<longleftrightarrow> (\<forall>m. case re_compile E m of None \<Rightarrow> False | Some None \<Rightarrow> True | Some (Some re) \<Rightarrow> \<forall>s. re_search E re s \<noteq> None)"

definition mask_char :: "'re mask_env \<Rightarrow> wchar \<Rightarrow> bool" where
  "mask_char E c \<longleftrightarrow> 0 <s c \<and> (IsSpace c \<longrightarrow> iswspace (env_libc E) c) \<and> (c = 0x2f \<longrightarrow> regexps_return E)"

definition mask_text :: "'re mask_env \<Rightarrow> wchar list \<Rightarrow> bool" where
  "mask_text E s \<longleftrightarrow> (\<forall>c \<in> set s. mask_char E c)"

lemma mask_text_printable: "mask_text E s \<Longrightarrow> printable s"
  by (auto simp: mask_text_def mask_char_def printable_def)

lemma mask_text_subset: "mask_text E s \<Longrightarrow> set t \<subseteq> set s \<Longrightarrow> mask_text E t"
  by (auto simp: mask_text_def)

text \<open>The environment: tables with all lookups inside, a sort that keeps its contract, and groups with safe texts.\<close>

definition env_ok :: "'re mask_env \<Rightarrow> bool" where
  "env_ok E \<longleftrightarrow> tables_ok (env_tables E) \<and> std_sort_ok (env_sort E) \<and>
     (\<forall>(nm, v) \<in> set (mask_groups E). plain_string nm \<and> (\<forall>x. v = Some x \<longrightarrow> mask_text E x))"

lemma GetMaskGroup_total:
  assumes "tables_ok T" and "plain_string key"
  shows "\<forall>(nm, v) \<in> set gs. plain_string nm \<and> (\<forall>x. v = Some x \<longrightarrow> P x) \<Longrightarrow>
    \<exists>v. GetMaskGroup T gs key = Some v \<and> (\<forall>x. v = Some x \<longrightarrow> P x)"
proof (induction gs)
  case (Cons g gs)
  obtain nm v where g: "g = (nm, v)" by (cases g)
  obtain r where "StrCmpI T nm key = Some r"
    using str_cmp_key [of "(T, False)" nm key] assms Cons.prems g by (auto simp: str_cmp_def)
  then show ?case using Cons g by auto
qed simp

lemma group_key_chars: "group_key m = Some key \<Longrightarrow> set key \<subseteq> set m"
  by (cases m) (auto simp: group_key_def Let_def dest: set_takeWhileD split: if_splits)

lemma mask_list_options:
  "mSeparator (mask_list a) = [0x3b, 0x2c]" "mTrim (mask_list a)" "\<not> mUnique (mask_list a)" "\<not> mSort (mask_list a)"
  "mProcessRegexp (mask_list a)" "mPackAsterisks (mask_list a)" "mProcessBrackets (mask_list a)" "mAddAsterisk (mask_list a) = a"
  "\<not> mAccountEmptyLine (mask_list a)" "plain_separators (mask_list a)"
  by (cases a; simp only:; code_simp)+

lemma set_masks_text:
  assumes "env_ok E" and "mask_text E s" and "\<not> blank (mask_list a) s"
  obtains rc u' where "Set_list (env_libc E) (env_tables E) (env_sort E) (mask_list a) s False = Some (rc, u')"
    "rc \<longrightarrow> (\<forall>x \<in> set (Array u'). mask_text E (Str x))"
proof (cases "s = []")
  case True
  then show ?thesis using that [of False "mask_list a"] mask_list_options(10) [of a] by (simp add: Set_list_def plain_separators_def)
next
  case False
  let ?u = "(mask_list a)\<lparr>Array := []\<rparr>"
  have e: "tables_ok (env_tables E)" "std_sort_ok (env_sort E)" using assms(1) by (simp_all add: env_ok_def)
  have nb: "\<not> blank ?u s" "plain_separators ?u"
    using assms(3) mask_list_options(10) [of a] by (simp_all add: blank_def plain_separators_def CheckSeparators_def)
  then obtain rc arr where l: "list_loop (env_libc E) (env_tables E) ?u s 0 [] = Some (rc, arr)"
    using list_loop_None [OF alpha_known_ok [OF e(1)] nb(2), of "env_libc E" s 0 "[]"] by auto
  have "items_from {c. mask_char E c} (mCaseSensitive ?u) arr"
  proof -
    have "set s \<subseteq> {c. mask_char E c}" "(0x2a :: wchar) \<in> {c. mask_char E c}" "items_from {c. mask_char E c} (mCaseSensitive ?u) []"
      using assms(2) by (auto simp: mask_text_def mask_char_def items_from_def word_sless_alt IsSpace_def)
    then show ?thesis using list_loop_items [OF l, of "{c. mask_char E c}"] by simp
  qed
  then have p: "\<forall>x \<in> set (map Str arr). mask_text E x" by (auto simp: items_from_def mask_text_def)
  obtain u' where u: "Set_list (env_libc E) (env_tables E) (env_sort E) (mask_list a) s False = Some (rc, u')"
    "rc \<longrightarrow> map Str (Array u') = map Str arr"
    using Set_list_plain [OF e(2) mask_list_options(3,4,10) False l] by blast
  show ?thesis
  proof (rule that [OF u(1)], rule impI)
    assume rc
    then have "\<forall>x \<in> set (map Str (Array u')). mask_text E x" using p u(2) by simp
    then show "\<forall>x \<in> set (Array u'). mask_text E (Str x)" by simp
  qed
qed

lemma FindExcludeChar_less: "FindExcludeChar b s = Some n \<Longrightarrow> n < length s"
  by (induction b s arbitrary: n rule: FindExcludeChar.induct) (auto split: if_splits)

text \<open>The parts of a safe text are safe, and none of them is blank.\<close>

lemma split_masks_parts:
  assumes "split_masks (env_libc E) s = Some (inc, exc)" and "mask_text E s"
  shows "mask_text E inc" "\<not> blank u inc" "\<And>x. exc = Some x \<Longrightarrow> mask_text E x \<and> \<not> blank u x"
proof -
  let ?C = "env_libc E" let ?s = "dropWhile (iswspace ?C) s"
  have dw: "mask_text E (dropWhile P x)" if "mask_text E x" for P x
    by (rule mask_text_subset [OF that]) (auto dest: set_dropWhileD)
  have tk: "mask_text E (take n x)" if "mask_text E x" for n x by (rule mask_text_subset [OF that set_take_subset])
  have dr: "mask_text E (drop n x)" if "mask_text E x" for n x by (rule mask_text_subset [OF that set_drop_subset])
  have nb: "\<not> blank u (take n (dropWhile (iswspace ?C) x))" if x: "mask_text E x" for n x
  proof -
    let ?d = "dropWhile (iswspace ?C) x"
    have "\<not> IsSpace (hd (take n ?d))" if "take n ?d \<noteq> []"
    proof -
      have d: "?d \<noteq> []" "hd (take n ?d) = hd ?d" using that by auto
      then have "mask_char E (hd ?d)" using dw [OF x, of "iswspace ?C"] by (simp add: mask_text_def)
      then show ?thesis using d hd_dropWhile [of "iswspace ?C" x] by (auto simp: mask_char_def)
    qed
    then show ?thesis by (intro not_blank_hd) blast
  qed
  have n0: "\<not> blank u (dropWhile (iswspace ?C) x)" if "mask_text E x" for x
    using nb [OF that, of "length x"] by (simp add: length_dropWhile_le)
  have "mask_text E inc \<and> \<not> blank u inc \<and> (\<forall>x. exc = Some x \<longrightarrow> mask_text E x \<and> \<not> blank u x)"
  proof (cases "FindExcludeChar False ?s")
    case None
    then have e: "inc = ?s" "exc = None" using assms(1) by (simp_all add: split_masks_def)
    show ?thesis using dw [OF assms(2)] n0 [OF assms(2)] by (simp add: e)
  next
    case (Some n)
    define x i where "x = dropWhile (iswspace ?C) (drop (n + 1) ?s)" and "i = take n ?s"
    have r: "mask_text E (drop (n + 1) ?s)" by (rule dr [OF dw [OF assms(2)]])
    have px: "mask_text E x" "\<not> blank u x" unfolding x_def using dw [OF r] n0 [OF r] by blast+
    have pt: "mask_text E (take m x)" "\<not> blank u (take m x)" for m
      using tk [OF px(1)] nb [OF r] unfolding x_def by blast+
    have pi: "mask_text E i" "\<not> blank u i" unfolding i_def using tk [OF dw [OF assms(2)]] nb [OF assms(2)] by blast+
    have e: "split_masks ?C s = (if i = [] \<and> x = [] then None else if x = [] then Some (i, None)
        else Some (i, Some (case FindExcludeChar False x of Some m \<Rightarrow> take m x | None \<Rightarrow> x)))"
      by (simp only: split_masks_def Let_def Some option.case x_def i_def)
    have "inc = i" using assms(1) unfolding e by (auto split: if_splits)
    moreover have "mask_text E y \<and> \<not> blank u y" if "exc = Some y" for y
    proof -
      have "y = (case FindExcludeChar False x of Some m \<Rightarrow> take m x | None \<Rightarrow> x)"
        using assms(1) that unfolding e by (auto split: if_splits)
      then show ?thesis using px pt by (cases "FindExcludeChar False x") auto
    qed
    moreover note pi
    ultimately show ?thesis by blast
  qed
  then show "mask_text E inc" "\<not> blank u inc" "\<And>x. exc = Some x \<Longrightarrow> mask_text E x \<and> \<not> blank u x" by blast+
qed

text \<open>Setting a mask always ends with an answer, inside the strings; what it compiles is nested less than 64 deep.\<close>

definition depth_at_most :: "'re mask_env \<Rightarrow> nat \<Rightarrow> 're file_mask list \<Rightarrow> bool" where
  "depth_at_most E n ms \<longleftrightarrow> (\<forall>m \<in> set ms. mask_depth m \<le> n \<and> masks_ok E m)"

lemma depth_Masks: "depth_at_most E n inc \<Longrightarrow> depth_at_most E n exc \<Longrightarrow> depth_at_most E (Suc n) [Masks inc exc]"
  by (auto simp: depth_at_most_def)

lemma Regex_Set_total:
  assumes "regexps_return E" and "m \<noteq> [] \<and> hd m = 0x2f"
  shows "\<exists>b. Regex_Set E m = Some b \<and> (\<forall>x. b = Some x \<longrightarrow> depth_at_most E n [x])"
proof -
  have c: "case re_compile E m of None \<Rightarrow> False | Some None \<Rightarrow> True | Some (Some re) \<Rightarrow> \<forall>s. re_search E re s \<noteq> None"
    using assms(1) by (simp add: regexps_return_def)
  then show ?thesis using assms(2)
    by (cases "re_compile E m"; cases "the (re_compile E m)") (auto simp: Regex_Set_def depth_at_most_def)
qed

lemma set_total:
  shows "env_ok E \<Longrightarrow> mask_text E s \<Longrightarrow> \<exists>r. Processor_Set E d s a = Some r \<and> (\<forall>m. r = Some m \<longrightarrow> depth_at_most E (64 - d) [m])"
    and "env_ok E \<Longrightarrow> d < 64 \<Longrightarrow> mask_text E s \<Longrightarrow> \<not> blank (mask_list a) s \<Longrightarrow>
      \<exists>r. SetPart E d s a = Some r \<and> (\<forall>ms. r = Some ms \<longrightarrow> depth_at_most E (63 - d) ms)"
    and "env_ok E \<Longrightarrow> d < 64 \<Longrightarrow> \<forall>x \<in> set items. mask_text E (Str x) \<Longrightarrow>
      \<exists>r. set_masks E d items = Some r \<and> (\<forall>ms. r = Some ms \<longrightarrow> depth_at_most E (63 - d) ms)"
proof (induction E d s a and E d s a and E d items rule: Processor_Set_SetPart_set_masks.induct)
  case (1 E d s a)
  show ?case
  proof (cases "d < 64 \<and> s \<noteq> [] \<and> split_masks (env_libc E) s \<noteq> None")
    case False
    then consider "64 \<le> d" | "s = []" | "split_masks (env_libc E) s = None" by fastforce
    then show ?thesis by cases (auto simp: Processor_Set.simps MAXCALLDEPTH_def)
  next
    case True
    then obtain inc exc where sp: "split_masks (env_libc E) s = Some (inc, exc)" by auto
    have d: "\<not> MAXCALLDEPTH \<le> d" "s \<noteq> []" "d < 64" using True by (simp_all add: MAXCALLDEPTH_def)
    note parts = split_masks_parts [OF sp 1(4)]
    let ?inc = "if inc \<noteq> [] then inc else [0x2a]"
    have i: "mask_text E ?inc" "\<not> blank (mask_list a) ?inc"
      using parts(1,2) by (auto simp: mask_text_def mask_char_def blank_def IsSpace_def word_sless_alt)
    obtain r where r: "SetPart E d ?inc a = Some r" "\<forall>ms. r = Some ms \<longrightarrow> depth_at_most E (63 - d) ms"
      using 1(1) [OF d(1,2) sp refl 1(3) d(3) i] by blast
    have e: "Processor_Set E d s a = (case r of None \<Rightarrow> Some None | Some inc \<Rightarrow>
        (case exc of None \<Rightarrow> Some (Some (Masks inc []))
         | Some x \<Rightarrow> do { exc \<leftarrow> SetPart E d x False; Some (map_option (Masks inc) exc) }))"
      using d sp r(1) by (simp add: Processor_Set.simps)
    have n: "64 - d = Suc (63 - d)" using d(3) by simp
    show ?thesis
    proof (cases r)
      case None
      then show ?thesis by (simp add: e)
    next
      case inc: (Some ms)
      show ?thesis
      proof (cases exc)
        case None
        then show ?thesis using inc r(2) depth_Masks [of E "63 - d" ms "[]"] by (simp add: e n depth_at_most_def)
      next
        case (Some x)
        obtain q where q: "SetPart E d x False = Some q" "\<forall>ms. q = Some ms \<longrightarrow> depth_at_most E (63 - d) ms"
          using 1(2) [OF d(1,2) sp refl r(1) inc Some 1(3) d(3)] parts(3) [OF Some] by blast
        then show ?thesis using inc Some r(2) depth_Masks [of E "63 - d" ms] by (cases q) (auto simp: e n)
      qed
    qed
  qed
next
  case (2 E d s a)
  obtain rc u' where l: "Set_list (env_libc E) (env_tables E) (env_sort E) (mask_list a) s False = Some (rc, u')"
    "rc \<longrightarrow> (\<forall>x \<in> set (Array u'). mask_text E (Str x))"
    by (rule set_masks_text [OF 2(2,4,5)])
  show ?case
  proof (cases rc)
    case True
    then show ?thesis using 2(1) [of "(rc, u')" rc u'] l 2(2,3) by (simp add: SetPart.simps)
  next
    case False
    then show ?thesis using l(1) by (simp add: SetPart.simps)
  qed
next
  case (3 E d)
  then show ?case by (simp add: depth_at_most_def)
next
  case (4 E d item items)
  obtain g where g: "(case group_key (Str item) of None \<Rightarrow> Some None | Some key \<Rightarrow> GetMaskGroup (env_tables E) (mask_groups E) key) = Some g"
    "\<forall>x. g = Some x \<longrightarrow> mask_text E x"
  proof (cases "group_key (Str item)")
    case (Some key)
    have "plain_string key" using group_key_chars [OF Some] 4(5) by (auto simp: plain_string_def mask_text_def mask_char_def)
    then show ?thesis using that GetMaskGroup_total [of "env_tables E" key "mask_groups E" "mask_text E"] 4(3) Some by (auto simp: env_ok_def)
  qed (use that in simp)
  have base: "\<exists>b. (case g of Some strMask \<Rightarrow> Processor_Set E (d + 1) strMask False
      | None \<Rightarrow> if Str item \<noteq> [] \<and> hd (Str item) = 0x2f then Regex_Set E (Str item) else Some (Single_Set (Str item))) = Some b \<and>
      (\<forall>m. b = Some m \<longrightarrow> depth_at_most E (63 - d) [m])"
  proof (cases g)
    case None
    have item: "mask_text E (Str item)" using 4(5) by simp
    show ?thesis
    proof (cases "Str item \<noteq> [] \<and> hd (Str item) = 0x2f")
      case True
      then have "regexps_return E" using item hd_in_set [of "Str item"] by (auto simp: mask_text_def mask_char_def)
      then obtain b where "Regex_Set E (Str item) = Some b" "\<forall>m. b = Some m \<longrightarrow> depth_at_most E (63 - d) [m]"
        using Regex_Set_total True by blast
      then show ?thesis using None True by simp
    next
      case False
      then show ?thesis using None mask_text_printable [OF item] by (auto simp: Single_Set_def depth_at_most_def)
    qed
  next
    case (Some x)
    then show ?thesis using 4(1) [OF g(1) Some 4(3)] g(2) by simp
  qed
  then obtain b where b: "(case g of Some strMask \<Rightarrow> Processor_Set E (d + 1) strMask False
      | None \<Rightarrow> if Str item \<noteq> [] \<and> hd (Str item) = 0x2f then Regex_Set E (Str item) else Some (Single_Set (Str item))) = Some b"
    "\<forall>m. b = Some m \<longrightarrow> depth_at_most E (63 - d) [m]" by blast
  show ?case
  proof (cases b)
    case None
    then show ?thesis using g(1) b(1) by (simp add: set_masks.simps(2))
  next
    case (Some m)
    obtain r where r: "set_masks E d items = Some r" "\<forall>ms. r = Some ms \<longrightarrow> depth_at_most E (63 - d) ms"
      using 4(2) [OF g(1) b(1) Some 4(3,4)] 4(5) by auto
    then show ?thesis using g(1) b Some by (cases r) (auto simp: set_masks.simps(2) depth_at_most_def)
  qed
qed

lemma mask_text_RemoveTrailingSpaces: "mask_text E s \<Longrightarrow> mask_text E (RemoveTrailingSpaces s)"
  by (erule mask_text_subset) (auto simp: RemoveTrailingSpaces_def dest: set_dropWhileD)

lemma CFileMask_Set_total:
  assumes "env_ok E" and "mask_text E masks"
  shows "\<exists>r. CFileMask_Set E masks flags = Some r \<and> (\<forall>m. r = Some m \<longrightarrow> mask_depth m \<le> 64 \<and> masks_ok E m)"
  using set_total(1) [OF assms(1) mask_text_RemoveTrailingSpaces [OF assms(2)], of 0 "flag_on flags FMF_ADDASTERISK"]
  by (auto simp: CFileMask_Set_def Let_def depth_at_most_def)

text \<open>
  C9. Setting a file mask from a text ends with an answer, also when groups refer to each other in circles,
  and without an access outside a string: false, or a mask nested at most 64 deep. Such a mask decides every printable
  name: the name is in the language of one of the masks to include and of none of those to exclude, at every level.
  The text and the values of the groups have to be made of characters above 0. Where the locale does not count U+3000
  as white space, as the POSIX locale, they must not contain it (see \<open>blank_part_overread\<close>); and where the regular
  expressions of \<^verbatim>\<open>RegExp.cpp\<close> are not known to return, they must not contain a slash.
\<close>

theorem CFileMask_decides:
  assumes "env_ok E" and "case_ok (env_libc E) (env_tables E) cs" and "mask_text E masks" and "printable name"
  shows "\<exists>r. CFileMask_Set E masks flags = Some r \<and>
    (case r of None \<Rightarrow> True
     | Some m \<Rightarrow> mask_depth m \<le> 64 \<and>
         CFileMask_Compare E m name cs skip = Some ((if skip then ExtractFileName name else name) \<in> mask_sem E cs m))"
proof -
  obtain r where r: "CFileMask_Set E masks flags = Some r" "\<forall>m. r = Some m \<longrightarrow> mask_depth m \<le> 64 \<and> masks_ok E m"
    using CFileMask_Set_total [OF assms(1,3)] by blast
  have n: "drop (the (PointToName (Some name) None)) name = ExtractFileName name" "printable (ExtractFileName name)"
    using PointToName_rest [of name] assms(4) by (auto simp: printable_def)
  have "CFileMask_Compare E m name cs skip = Some ((if skip then ExtractFileName name else name) \<in> mask_sem E cs m)" if "r = Some m" for m
    using mask_compare_sem(1) [OF assms(2), of _ m] r(2) that n assms(4) by (simp add: CFileMask_Compare_def)
  then show ?thesis using r by (intro exI [of _ r]) (auto split: option.splits)
qed

section \<open>Texts without special characters\<close>

text \<open>A mask of characters that mean nothing to the parsers of the lists, without two asterisks in a row.\<close>

definition plain_mask :: "libc \<Rightarrow> wchar list \<Rightarrow> bool" where
  "plain_mask C p \<longleftrightarrow> p \<noteq> [] \<and> compact_loop 0x2a False False p = p \<and>
     (\<forall>c \<in> set p. 0 <s c \<and> c \<notin> {0x3b, 0x2c, 0x22, 0x5b, 0x5d, 0x2f, 0x7c} \<and> \<not> IsSpace c \<and> \<not> IsEol c \<and> \<not> iswspace C c)"

lemma item_length_plain:
  "\<forall>c \<in> set p. \<not> is_separator u c \<and> c \<noteq> 0x5b \<and> c \<noteq> 0x5d \<Longrightarrow> r = [] \<or> is_separator u (hd r) \<and> hd r \<noteq> 0x5b \<Longrightarrow>
    item_length u False (p @ r) = length p"
proof (induction p)
  case Nil
  then show ?case by (cases r) (auto simp: Let_def)
qed (auto simp: Let_def)

lemma Skip_plain:
  assumes "plain_mask C p" and "pre = [] \<or> pre = [0x2c]" and "r = [] \<or> is_separator (mask_list a) (hd r)"
  shows "Skip C T ((mask_list a)\<lparr>Array := []\<rparr>) (pre @ p @ r) = Some (Item (p @ r) (length p) (length p) False)"
proof -
  let ?u = "(mask_list a)\<lparr>Array := []\<rparr>"
  have ps: "plain_separators ?u" "mSeparator ?u = [0x3b, 0x2c]" "mTrim ?u"
    using mask_list_options(1,2,10) [of a] by (simp_all add: plain_separators_def CheckSeparators_def)
  have sep: "is_separator ?u c \<longleftrightarrow> c = 0 \<or> c = 0x3b \<or> c = 0x2c" for c by (simp add: is_separator_def ps(2))
  have pc: "\<forall>c \<in> set p. c \<noteq> 0 \<and> c \<notin> {0x3b, 0x2c, 0x22, 0x5b, 0x5d, 0x2f, 0x7c} \<and> \<not> IsSpace c" "p \<noteq> []"
    using assms(1) by (auto simp: plain_mask_def)
  then obtain c0 p' where p: "p = c0 # p'" "\<not> IsSpace c0" "\<not> is_separator ?u c0" "c0 \<noteq> 0x22" "c0 \<noteq> 0x2f"
    by (cases p) (auto simp: sep)
  have sp: "skip_spaces ?u (p @ r) = p @ r" using p(1,2) by (simp add: skip_spaces_def)
  have comma: "\<not> IsSpace 0x2c" by (simp add: IsSpace_def)
  have comma_head: "skip_spaces ?u (0x2c # x) = 0x2c # x" "item_start ?u (0x2c # x) = skip_spaces ?u x" for x
    using comma by (simp_all add: skip_spaces_def item_start_def sep)
  have "item_start ?u (p @ r) = p @ r" using p(1,3) by (simp add: item_start_def)
  then have pre: "skip_spaces ?u (pre @ p @ r) = pre @ p @ r" "item_start ?u (pre @ p @ r) = p @ r"
    using assms(2) sp comma_head by (elim disjE; simp)+
  have len: "item_length ?u False (p @ r) = length p"
  proof (rule item_length_plain)
    show "\<forall>c \<in> set p. \<not> is_separator ?u c \<and> c \<noteq> 0x5b \<and> c \<noteq> 0x5d" using pc(1) by (simp add: sep)
    have "is_separator (mask_list a) c = is_separator ?u c" for c by (simp add: is_separator_def)
    then show "r = [] \<or> is_separator ?u (hd r) \<and> hd r \<noteq> 0x5b" using assms(3) by (auto simp: sep)
  qed
  have "trim_right ?u p = p"
  proof -
    have "hd (rev p) \<in> set p" "rev p \<noteq> []" using pc(2) by (simp_all add: hd_rev)
    then have "dropWhile IsSpace (rev p) = rev p" using pc(1) by (cases "rev p") auto
    then show ?thesis by (simp add: trim_right_def)
  qed
  then show ?thesis using p(1,4,5) len unfolding Skip_def Let_def pre by simp
qed

lemma list_loop_plain:
  assumes "\<forall>p \<in> set ps. plain_mask C p"
  shows "list_loop C T ((mask_list False)\<lparr>Array := []\<rparr>) (joined 0x2c ps) 0 [] =
    Some (True, map (\<lambda>(i, w). plain_item ((mask_list False)\<lparr>Array := []\<rparr>) i w) (enumerate 0 ps))"
proof -
  let ?u = "(mask_list False)\<lparr>Array := []\<rparr>"
  have sep: "is_separator ?u 0x2c" by (simp add: is_separator_def mask_list_options(1))
  have "\<exists>rest len n q. Skip C T ?u (pre @ w @ r) = Some (Item rest len n q) \<and> 0 < len \<and> drop n rest = r \<and>
      make_item ?u i rest len q = plain_item ?u i w"
    if "w \<in> set ps" "pre = [] \<or> pre = [0x2c]" "r = [] \<or> is_separator ?u (hd r)" for w pre r i
  proof -
    have w: "plain_mask C w" using assms that(1) by blast
    have "Skip C T ?u (pre @ w @ r) = Some (Item (w @ r) (length w) (length w) False)"
      using that(3) by (intro Skip_plain [OF w that(2)]) (simp add: is_separator_def)
    moreover have "make_item ?u i (w @ r) (length w) False = plain_item ?u i w"
      using w mask_list_options(5-8) [of False]
      by (cases w) (auto simp: make_item_def plain_item_def Compact_def plain_mask_def Let_def)
    ultimately show ?thesis using w by (auto simp: plain_mask_def)
  qed
  then show ?thesis using list_loop_joined [OF sep, of ps C T "\<lambda>w. w" "[]" 0 "[]"] by simp
qed

lemma FindExcludeChar_plain:
  "0x7c \<notin> set s \<Longrightarrow> 0x2f \<notin> set s \<Longrightarrow> FindExcludeChar False s = None"
  "0x7c \<notin> set s \<Longrightarrow> 0x2f \<notin> set s \<Longrightarrow> FindExcludeChar False (s @ 0x7c # t) = Some (length s)"
  by (induction s) (auto simp: EXCLUDEMASKSEPARATOR_def)

lemma set_joined: "set (joined sep ts) \<subseteq> insert sep (\<Union> (set (map set ts)))"
  by (induction ts) auto

text \<open>Plain texts: nothing to drop at their ends, nothing that separates the parts.\<close>

lemma joined_plain:
  assumes "\<forall>p \<in> set ps. plain_mask C p" and "ps \<noteq> []"
  shows "joined 0x2c ps \<noteq> []" "\<not> iswspace C (hd (joined 0x2c ps))" "0x7c \<notin> set (joined 0x2c ps)" "0x2f \<notin> set (joined 0x2c ps)"
    "\<not> (IsSpace (last (joined 0x2c ps)) \<or> IsEol (last (joined 0x2c ps)))"
proof -
  obtain c w ws where ps: "ps = (c # w) # ws" using assms by (cases ps; cases "hd ps") (auto simp: plain_mask_def)
  then show "joined 0x2c ps \<noteq> []" "\<not> iswspace C (hd (joined 0x2c ps))" using assms(1) by (auto simp: plain_mask_def)
  have "\<forall>c \<in> set (joined 0x2c ps). c = 0x2c \<or> (\<exists>p \<in> set ps. c \<in> set p)" using set_joined [of "0x2c" ps] by auto
  then have "c \<notin> set (joined 0x2c ps)" if "c = 0x7c \<or> c = 0x2f" for c
    using assms(1) that by (fastforce simp: plain_mask_def)
  then show "0x7c \<notin> set (joined 0x2c ps)" "0x2f \<notin> set (joined 0x2c ps)" by blast+
  have "\<exists>p \<in> set ps. last (joined 0x2c ps) \<in> set p" using assms
  proof (induction ps)
    case (Cons p ps)
    have "p \<noteq> []" using Cons.prems(1) by (simp add: plain_mask_def)
    show ?case
    proof (cases "ps = []")
      case False
      then have "joined 0x2c ps \<noteq> []" using Cons.prems(1) by (cases ps) (auto simp: plain_mask_def)
      then show ?thesis using Cons.IH Cons.prems(1) False by auto
    qed (use \<open>p \<noteq> []\<close> in simp)
  qed simp
  then show "\<not> (IsSpace (last (joined 0x2c ps)) \<or> IsEol (last (joined 0x2c ps)))" using assms(1) by (auto simp: plain_mask_def)
qed

lemma SetPart_plain:
  assumes "std_sort_ok (env_sort E)" and "\<forall>p \<in> set ps. plain_mask (env_libc E) p" and "ps \<noteq> []"
  obtains items where "SetPart E d (joined 0x2c ps) False = set_masks E d items" "map Str items = ps"
proof -
  let ?arr = "map (\<lambda>(i, w). plain_item ((mask_list False)\<lparr>Array := []\<rparr>) i w) (enumerate 0 ps)"
  obtain u' where u: "Set_list (env_libc E) (env_tables E) (env_sort E) (mask_list False) (joined 0x2c ps) False = Some (True, u')"
    "map Str (Array u') = map Str ?arr"
    using Set_list_plain [OF assms(1) mask_list_options(3,4,10) joined_plain(1) [OF assms(2,3)] list_loop_plain [OF assms(2)]] by blast
  have "map Str ?arr = ps" by (simp add: list_eq_iff_nth_eq nth_enumerate_eq plain_item_def)
  then show ?thesis using that [of "Array u'"] u by (simp add: SetPart.simps)
qed

lemma set_masks_plain:
  "\<forall>x \<in> set items. plain_mask C (Str x) \<and> hd (Str x) \<noteq> 0x3c \<Longrightarrow> set_masks E d items = Some (Some (map (\<lambda>x. Single (Str x)) items))"
proof (induction items)
  case (Cons x xs)
  have "group_key (Str x) = None" "Str x \<noteq> []" "hd (Str x) \<noteq> 0x2f"
    using Cons.prems by (cases "Str x"; auto simp: group_key_def plain_mask_def)+
  then show ?case using Cons by (simp add: set_masks.simps(2) Single_Set_def)
qed simp

lemma SetPart_singles:
  assumes "std_sort_ok (env_sort E)" and "\<forall>p \<in> set ps. plain_mask (env_libc E) p \<and> hd p \<noteq> 0x3c" and "ps \<noteq> []"
  shows "SetPart E d (joined 0x2c ps) False = Some (Some (map Single ps))"
proof -
  obtain items where i: "SetPart E d (joined 0x2c ps) False = set_masks E d items" "map Str items = ps"
    using SetPart_plain [OF assms(1) _ assms(3)] assms(2) by blast
  have "\<forall>x \<in> set items. plain_mask (env_libc E) (Str x) \<and> hd (Str x) \<noteq> 0x3c" using i(2) assms(2) by force
  then show ?thesis using set_masks_plain [of items "env_libc E" E d] i by (simp add: map_map [symmetric, unfolded comp_def] del: map_map)
qed

text \<open>
  C23. A text of plain masks to include, joined by commas, and after a bar plain masks to exclude is accepted, and the file mask
  matches a name exactly if the name is in the language of one of the former and of none of the latter.
\<close>

theorem plain_masks_decide:
  assumes so: "std_sort_ok (env_sort E)" and "case_ok (env_libc E) (env_tables E) cs" and "printable name"
    and "\<forall>p \<in> set inc \<union> set exc. plain_mask (env_libc E) p \<and> hd p \<noteq> 0x3c" and "inc \<noteq> []" and "exc \<noteq> []"
  shows "\<exists>m. CFileMask_Set E (joined 0x2c inc @ 0x7c # joined 0x2c exc) 0 = Some (Some m) \<and>
    CFileMask_Compare E m name cs False = Some
      ((\<exists>p \<in> set inc. name \<in> mask_lang (env_libc E) (env_tables E) cs (mask_items p)) \<and>
       (\<forall>p \<in> set exc. name \<notin> mask_lang (env_libc E) (env_tables E) cs (mask_items p)))"
proof -
  let ?i = "joined 0x2c inc" and ?e = "joined 0x2c exc" and ?C = "env_libc E"
  have pi: "\<forall>p \<in> set inc. plain_mask ?C p" "\<forall>p \<in> set exc. plain_mask ?C p" using assms(4) by auto
  note i = joined_plain [OF pi(1) assms(5)] and e = joined_plain [OF pi(2) assms(6)]
  have trim: "RemoveTrailingSpaces (?i @ 0x7c # ?e) = ?i @ 0x7c # ?e"
  proof -
    obtain xs x where "?e = xs @ [x]" using e(1) by (cases ?e rule: rev_cases) auto
    then show ?thesis using e(5) by (simp add: RemoveTrailingSpaces_def)
  qed
  have front: "dropWhile (iswspace ?C) (?i @ 0x7c # ?e) = ?i @ 0x7c # ?e" using i(1,2) by (cases ?i) simp_all
  have rear: "dropWhile (iswspace ?C) ?e = ?e" using e(1,2) by (cases ?e) simp_all
  have sp: "split_masks ?C (?i @ 0x7c # ?e) = Some (?i, Some ?e)"
    using i(1) e(1) front rear FindExcludeChar_plain(2) [OF i(3,4)] FindExcludeChar_plain(1) [OF e(3,4)]
    by (simp add: split_masks_def Let_def)
  let ?m = "Masks (map Single inc) (map Single exc)"
  have "CFileMask_Set E (?i @ 0x7c # ?e) 0 = Processor_Set E 0 (?i @ 0x7c # ?e) False"
    by (simp add: CFileMask_Set_def trim Let_def flag_on_def)
  also have "\<dots> = Some (Some ?m)"
    using sp i(1) e(1) SetPart_singles [OF so _ assms(5), of 0] SetPart_singles [OF so _ assms(6), of 0] assms(4)
    by (simp add: Processor_Set.simps MAXCALLDEPTH_def)
  finally have s: "CFileMask_Set E (?i @ 0x7c # ?e) 0 = Some (Some ?m)" .
  have "masks_ok E ?m" using assms(4) by (auto simp: plain_mask_def printable_def)
  then have "CFileMask_Compare E ?m name cs False = Some (name \<in> mask_sem E cs ?m)"
    unfolding CFileMask_Compare_def if_False by (rule mask_compare_sem(1) [OF assms(2,3)])
  also have "name \<in> mask_sem E cs ?m \<longleftrightarrow> (\<exists>p \<in> set inc. name \<in> mask_lang ?C (env_tables E) cs (mask_items p)) \<and>
      (\<forall>p \<in> set exc. name \<notin> mask_lang ?C (env_tables E) cs (mask_items p))" by simp
  finally show ?thesis using s by blast
qed

text \<open>
  A group of masks that names itself is refused: the recursion ends at its limit and \<open>Set\<close> returns false.
\<close>

theorem circular_group_refused:
  assumes "std_sort_ok (env_sort E)" and "plain_mask (env_libc E) (0x3c # g @ [0x3e])" and "g \<noteq> []" and "0x3e \<notin> set g"
    and "GetMaskGroup (env_tables E) (mask_groups E) g = Some (Some (0x3c # g @ [0x3e]))"
  shows "CFileMask_Set E (0x3c # g @ [0x3e]) 0 = Some None"
proof -
  let ?t = "0x3c # g @ [0x3e]"
  note j = joined_plain [of "[?t]" "env_libc E", simplified]
  have sp: "split_masks (env_libc E) ?t = Some (?t, None)"
    using j assms(2) FindExcludeChar_plain(1) [of ?t] by (simp add: split_masks_def)
  have k: "group_key ?t = Some g" using assms(3,4) by (simp add: group_key_def Let_def takeWhile_append)
  have refused: "Processor_Set E (64 - n) ?t False = Some None" if "n \<le> 64" for n
    using that
  proof (induction n)
    case (Suc n)
    obtain items where i: "SetPart E (64 - Suc n) ?t False = set_masks E (64 - Suc n) items" "map Str items = [?t]"
      by (rule SetPart_plain [OF assms(1), of "[?t]" "64 - Suc n"]) (use assms(2) in auto)
    then obtain x where x: "items = [x]" "Str x = ?t" by auto
    have "64 - Suc n + 1 = 64 - n" "n \<le> 64" using Suc.prems by simp_all
    then have "set_masks E (64 - Suc n) [x] = Some None"
      using Suc.IH x(2) k assms(5) unfolding set_masks.simps by simp
    then show ?case using sp i(1) x(1) Suc.prems by (simp add: Processor_Set.simps MAXCALLDEPTH_def)
  qed (simp add: Processor_Set.simps MAXCALLDEPTH_def)
  have "RemoveTrailingSpaces ?t = ?t" by (simp add: RemoveTrailingSpaces_def IsSpace_def IsEol_def)
  then show ?thesis using refused [of 64] by (simp add: CFileMask_Set_def Let_def flag_on_def)
qed

section \<open>Concrete instances\<close>

text \<open>In the concrete environment a regular expression is a text between slashes, and matches itself.\<close>

definition tiny_env :: "(wchar list \<times> wchar list option) list \<Rightarrow> wchar list mask_env" where
  "tiny_env gs = \<lparr>env_libc = tiny_libc\<lparr>iswspace := IsSpace\<rparr>, env_tables = tiny_sort, env_sort = insertion_sort,
     re_compile = (\<lambda>m. Some (if 2 \<le> length m \<and> last m = 0x2f then Some (butlast (tl m)) else None)),
     re_search = (\<lambda>re s. Some (s = re)), mask_groups = gs\<rparr>"

lemma tiny_regexps: "regexps_return (tiny_env gs)"
  by (simp add: regexps_return_def tiny_env_def)

lemma tiny_mask_text: "mask_text (tiny_env gs) s \<longleftrightarrow> printable s"
  using tiny_regexps by (auto simp: mask_text_def mask_char_def printable_def) (simp_all add: tiny_env_def)

lemma tiny_env_ok: "\<forall>(nm, v) \<in> set gs. plain_string nm \<and> (\<forall>x. v = Some x \<longrightarrow> printable x) \<Longrightarrow> env_ok (tiny_env gs)"
  using tiny_sort_ok insertion_sort_ok tiny_mask_text [of gs] by (simp add: env_ok_def) (simp add: tiny_env_def)

lemma tiny_env_nil: "env_ok (tiny_env [])"
  by (rule tiny_env_ok) simp

lemma tiny_env_cs: "case_ok (env_libc (tiny_env gs)) (env_tables (tiny_env gs)) True"
  by (rule tiny_case_ok_cs)

text \<open>The masks \<^verbatim>\<open>a*,/b/|ab\<close>.\<close>

lemma CFileMask_decides_witness:
  "\<exists>r. CFileMask_Set (tiny_env []) [0x61, 0x2a, 0x2c, 0x2f, 0x62, 0x2f, 0x7c, 0x61, 0x62] 0 = Some r \<and>
    (case r of None \<Rightarrow> True
     | Some m \<Rightarrow> mask_depth m \<le> 64 \<and>
         CFileMask_Compare (tiny_env []) m [0x61, 0x63] True False = Some ([0x61, 0x63] \<in> mask_sem (tiny_env []) True m))"
proof -
  have p: "mask_text (tiny_env []) [0x61, 0x2a, 0x2c, 0x2f, 0x62, 0x2f, 0x7c, 0x61, 0x62]" "printable [0x61, 0x63]"
    unfolding tiny_mask_text by (simp_all add: printable_def word_sless_alt)
  show ?thesis using CFileMask_decides [OF tiny_env_nil tiny_env_cs p, of 0 False] unfolding if_False .
qed

text \<open>
  In a locale that does not count U+3000 as white space, a part that consists of it alone is not skipped and is read by
  \<open>Skip\<close> beyond its end.
\<close>

lemma blank_part_overread:
  "CFileMask_Set ((tiny_env [])\<lparr>env_libc := tiny_libc\<lparr>iswspace := (\<lambda>c. c = 0x20)\<rparr>\<rparr>) [0x3000, 0x7c, 0x61] 0 = None"
  unfolding tiny_env_def by code_simp

lemma plain_masks_decide_witness:
  "\<exists>m. CFileMask_Set (tiny_env []) [0x61, 0x3f, 0x7c, 0x61, 0x62] 0 = Some (Some m) \<and>
    CFileMask_Compare (tiny_env []) m [0x61, 0x63] True False = Some
      ([0x61, 0x63] \<in> mask_lang (env_libc (tiny_env [])) (env_tables (tiny_env [])) True (mask_items [0x61, 0x3f]) \<and>
       [0x61, 0x63] \<notin> mask_lang (env_libc (tiny_env [])) (env_tables (tiny_env [])) True (mask_items [0x61, 0x62]))"
proof -
  have p: "\<forall>p \<in> set [[0x61, 0x3f]] \<union> set [[0x61, 0x62]]. plain_mask (env_libc (tiny_env [])) p \<and> hd p \<noteq> 0x3c"
    by (simp add: plain_mask_def tiny_env_def IsSpace_def IsEol_def word_sless_alt)
  have n: "printable [0x61, 0x63]" by (simp add: printable_def word_sless_alt)
  have so: "std_sort_ok (env_sort (tiny_env []))" using insertion_sort_ok by (simp add: tiny_env_def)
  show ?thesis
    using plain_masks_decide [OF so tiny_env_cs n p] by simp
qed

lemma circular_group_refused_witness:
  "CFileMask_Set (tiny_env [([0x67], Some [0x3c, 0x67, 0x3e])]) [0x3c, 0x67, 0x3e] 0 = Some None"
proof -
  let ?E = "tiny_env [([0x67], Some [0x3c, 0x67, 0x3e])]"
  have p: "plain_mask (env_libc ?E) (0x3c # [0x67] @ [0x3e])"
    by (simp add: plain_mask_def tiny_env_def IsSpace_def IsEol_def word_sless_alt)
  have g: "GetMaskGroup (env_tables ?E) (mask_groups ?E) [0x67] = Some (Some (0x3c # [0x67] @ [0x3e]))"
    unfolding tiny_env_def by code_simp
  have "std_sort_ok (env_sort ?E)" using insertion_sort_ok by (simp add: tiny_env_def)
  from circular_group_refused [OF this p _ _ g] show ?thesis by simp
qed

end
