(* ===== verification/FileView.thy ===== *)
theory FileView
  imports WineTables
begin

text \<open>
  The file caches of \<^verbatim>\<open>far/src/cache.cpp\<close>: \<^verbatim>\<open>BufferedFileView\<close>, through which the viewer reads a file,
  and \<^verbatim>\<open>CachedWrite\<close>, through which lists and the editor write one.

  File positions are 64-bit and sizes 32-bit numbers, here naturals with the wrap-around of every operation
  that can overflow; \<^verbatim>\<open>CheckedCast\<close> only reports a loss and truncates. A null buffer is the
  empty list, a pointer into the buffer its index. System calls and the allocator are arguments. \<open>None\<close> is an access
  outside a buffer.
\<close>

section \<open>Numbers of a fixed width\<close>

definition to32 :: "nat \<Rightarrow> nat" where
  "to32 n = n mod 2 ^ 32"

definition to64 :: "nat \<Rightarrow> nat" where
  "to64 n = n mod 2 ^ 64"

definition sub64 :: "nat \<Rightarrow> nat \<Rightarrow> nat" where
  "sub64 a b = to64 (a + (2 ^ 64 - b))"

definition signed64 :: "int \<Rightarrow> int" where
  "signed64 x = (x + 2 ^ 63) mod 2 ^ 64 - 2 ^ 63"

lemma to32_id [simp]: "n < 2 ^ 32 \<Longrightarrow> to32 n = n"
  by (simp add: to32_def)

lemma to64_id [simp]: "n < 2 ^ 64 \<Longrightarrow> to64 n = n"
  by (simp add: to64_def)

lemma sub64_id [simp]: "b \<le> a \<Longrightarrow> a < 2 ^ 64 \<Longrightarrow> sub64 a b = a - b"
  by (simp add: sub64_def to64_def mod_if)

lemma signed64_id [simp]: "- (2 ^ 63) \<le> x \<Longrightarrow> x < 2 ^ 63 \<Longrightarrow> signed64 x = x"
  by (simp add: signed64_def)

section \<open>The reading cache\<close>

text \<open>The system: \<^verbatim>\<open>sdc_pread\<close> of a count at an offset, the size of \<^verbatim>\<open>sdc_fstat\<close>, and the allocator.\<close>

record disk =
  pread :: "nat \<Rightarrow> nat \<Rightarrow> bytes option"
  fstat :: "nat option"
  alloc :: "nat \<Rightarrow> bytes option"

record file_view =
  BufferPtr :: nat
  BufferEnd :: nat
  FD :: int
  Buffer :: bytes
  BufferSize :: nat
  CurPtr :: nat
  LastPtr :: nat
  FileSize :: nat

definition AlignSize :: nat where "AlignSize = 0x1000"
definition AheadCount :: nat where "AheadCount = 0x10"
definition BehindCount :: nat where "BehindCount = 0x1"
definition CapacityStock :: nat where "CapacityStock = 0x4"

definition AlignUp :: "nat \<Rightarrow> nat" where
  "AlignUp v = (let a = v AND (AlignSize - 1) in if a \<noteq> 0 then to64 (v + (AlignSize - a)) else v)"

definition AlignDown :: "nat \<Rightarrow> nat" where
  "AlignDown v = v AND (2 ^ 64 - AlignSize)"

definition BufferedFileView :: file_view where
  "BufferedFileView = \<lparr>BufferPtr = 0, BufferEnd = 0, FD = -1, Buffer = [], BufferSize = 0, CurPtr = 0, LastPtr = 0, FileSize = 0\<rparr>"

definition Clear :: "file_view \<Rightarrow> file_view" where
  "Clear v = v\<lparr>BufferPtr := 0, BufferEnd := 0\<rparr>"

definition ActualizeFileSize :: "disk \<Rightarrow> file_view \<Rightarrow> file_view" where
  "ActualizeFileSize d v =
     (case fstat d of
        Some sz \<Rightarrow> if FD v \<noteq> -1 \<and> FileSize v \<noteq> sz then (Clear v)\<lparr>FileSize := sz\<rparr> else v
      | None \<Rightarrow> v)"

definition Close :: "file_view \<Rightarrow> file_view" where
  "Close v = (Clear v)\<lparr>FD := -1\<rparr>"

text \<open>\<open>Open\<close> gets the descriptor that \<^verbatim>\<open>sdc_open\<close> returned.\<close>

definition Open :: "disk \<Rightarrow> int \<Rightarrow> file_view \<Rightarrow> bool \<times> file_view" where
  "Open d fd v =
     (let v = (Close v)\<lparr>FD := fd\<rparr> in
      if fd = -1 then (False, v) else (True, ActualizeFileSize d (v\<lparr>FileSize := 0\<rparr>)))"

datatype whence = SEEK_SET | SEEK_CUR | SEEK_END

definition SetPointer :: "int \<Rightarrow> whence \<Rightarrow> file_view \<Rightarrow> file_view" where
  "SetPointer Ptr w v =
     (let Ptr = (case w of SEEK_SET \<Rightarrow> Ptr | SEEK_CUR \<Rightarrow> signed64 (Ptr + int (CurPtr v)) | SEEK_END \<Rightarrow> signed64 (Ptr + int (FileSize v)))
      in v\<lparr>CurPtr := (if Ptr > 0 then nat Ptr else 0)\<rparr>)"

definition GetPointer :: "file_view \<Rightarrow> int" where
  "GetPointer v = signed64 (int (CurPtr v))"

definition Eof :: "file_view \<Rightarrow> bool" where
  "Eof v \<longleftrightarrow> CurPtr v \<ge> FileSize v"

definition CalcBufferBounds :: "nat \<Rightarrow> nat \<Rightarrow> nat \<Rightarrow> nat \<Rightarrow> nat \<times> nat" where
  "CalcBufferBounds Ptr DataSize CountLefter CountRighter =
     (let p = AlignDown Ptr in
      (if p > AheadCount * AlignSize then sub64 p (CountLefter * AlignSize) else 0,
       AlignUp (to64 (Ptr + DataSize + CountRighter * AlignSize))))"

text \<open>A read of \<open>n\<close> bytes at \<open>Ptr\<close> into the cells of the buffer from \<open>pos\<close> on.\<close>

definition DirectReadAt :: "disk \<Rightarrow> int \<Rightarrow> nat \<Rightarrow> bytes \<Rightarrow> nat \<Rightarrow> nat \<Rightarrow> (bytes \<times> nat) option" where
  "DirectReadAt d fd Ptr buf pos n =
     (if fd = -1 then Some (buf, 0)
      else if length buf < pos + n then None
      else case pread d n Ptr of
          None \<Rightarrow> Some (buf, 0)
        | Some r \<Rightarrow> Some (splice buf pos r, to32 (length r)))"

definition memmove :: "bytes \<Rightarrow> nat \<Rightarrow> bytes \<Rightarrow> nat \<Rightarrow> nat \<Rightarrow> bytes option" where
  "memmove dst pos src off n =
     (if pos + n \<le> length dst \<and> off + n \<le> length src then Some (splice dst pos (take n (drop off src))) else None)"

text \<open>
  The part of \<open>ViewBytesAt\<close> that fills the new buffer for the new bounds: what the old buffer has of them is moved, the
  rest is read. The result is the buffer with the end up to which it is filled.
\<close>

definition fill_buffer ::
  "(nat \<Rightarrow> bytes \<Rightarrow> nat \<Rightarrow> nat \<Rightarrow> (bytes \<times> nat) option) \<Rightarrow> bytes \<Rightarrow> nat \<Rightarrow> nat \<Rightarrow> bytes \<Rightarrow> nat \<Rightarrow> nat \<Rightarrow> (bytes \<times> nat) option"
where
  "fill_buffer read buf p e new np ne =
     (let ip = max np p; ie = min ne e in
      if ip < ie then
        do { new \<leftarrow> memmove new (ip - np) buf (ip - p) (ie - ip);
             (new, ne) \<leftarrow>
               (if ip > np then
                  do { (new, r) \<leftarrow> read np new 0 (to32 (ip - np));
                       Some (new, if to32 (ip - np) \<noteq> r then to64 (np + r) else ne) }
                else Some (new, ne));
             (if ne > ie then
                do { (new, r) \<leftarrow> read ie new (ie - np) (to32 (ne - ie)); Some (new, to64 (ie + r)) }
              else Some (new, ne)) }
      else do { (new, r) \<leftarrow> read np new 0 (to32 (sub64 ne np)); Some (new, to64 (np + r)) })"

definition new_buffer :: "disk \<Rightarrow> nat \<Rightarrow> file_view \<Rightarrow> (bytes \<times> nat) option" where
  "new_buffer d need v =
     (if need > BufferSize v then
        (let stock = to32 (need + CapacityStock * AlignSize) in
         case alloc d stock of
           Some b \<Rightarrow> Some (b, stock)
         | None \<Rightarrow> (case alloc d need of Some b \<Rightarrow> Some (b, need) | None \<Rightarrow> None))
      else Some (Buffer v, BufferSize v))"

text \<open>The result: the pointer into the buffer, or a null pointer, the size and the state.\<close>

definition ViewBytesAt :: "disk \<Rightarrow> nat \<Rightarrow> nat \<Rightarrow> file_view \<Rightarrow> (nat option \<times> nat \<times> file_view) option" where
  "ViewBytesAt d Ptr Size v =
     (if Ptr \<ge> BufferPtr v \<and> to64 (Ptr + Size) \<le> BufferEnd v then Some (Some (Ptr - BufferPtr v), Size, v)
      else
        let (np, ne) = (if Ptr < LastPtr v then CalcBufferBounds Ptr Size AheadCount BehindCount
                        else CalcBufferBounds Ptr Size BehindCount AheadCount);
            v = v\<lparr>LastPtr := Ptr\<rparr>
        in case new_buffer d (to32 (sub64 ne np)) v of
             None \<Rightarrow> Some (None, 0, v)
           | Some (new, new_size) \<Rightarrow>
               do { (new, ne) \<leftarrow> fill_buffer (DirectReadAt d (FD v)) (Buffer v) (BufferPtr v) (BufferEnd v) new np ne;
                    let v = v\<lparr>Buffer := new, BufferSize := new_size, BufferPtr := np, BufferEnd := ne\<rparr>;
                    Some (if Ptr < np \<or> Ptr \<ge> ne then (None, 0, v) else (Some (Ptr - np), min Size (to32 (ne - Ptr)), v)) })"

definition ViewBytesSlide :: "disk \<Rightarrow> nat \<Rightarrow> file_view \<Rightarrow> (nat option \<times> nat \<times> file_view) option" where
  "ViewBytesSlide d Size v =
     do { (p, Size, v) \<leftarrow> ViewBytesAt d (CurPtr v) Size v; Some (p, Size, v\<lparr>CurPtr := to64 (CurPtr v + Size)\<rparr>) }"

text \<open>\<open>Read\<close>, with the bytes it copies to the caller.\<close>

definition Read :: "disk \<Rightarrow> nat \<Rightarrow> file_view \<Rightarrow> (bytes \<times> file_view) option" where
  "Read d Size v =
     do { (p, Size, v) \<leftarrow> ViewBytesSlide d Size v;
          if Size = 0 then Some ([], v)
          else case p of
              None \<Rightarrow> None
            | Some p \<Rightarrow> if p + Size \<le> length (Buffer v) then Some (take Size (drop p (Buffer v)), v) else None }"

section \<open>Filling a buffer\<close>

text \<open>The cells of a buffer hold the bytes of the file between two positions.\<close>

definition holds :: "bytes \<Rightarrow> bytes \<Rightarrow> nat \<Rightarrow> nat \<Rightarrow> bool" where
  "holds c buf p e \<longleftrightarrow> p \<le> e \<and> e - p \<le> length buf \<and> (\<forall>i. p \<le> i \<and> i < e \<longrightarrow> i < length c \<and> buf ! (i - p) = c ! i)"

lemma nth_splice:
  "p + length xs \<le> length buf \<Longrightarrow> i < length buf \<Longrightarrow>
    splice buf p xs ! i = (if p \<le> i \<and> i < p + length xs then xs ! (i - p) else buf ! i)"
  by (auto simp: splice_def nth_append min_def)

lemma holds_le: "holds c buf p e \<Longrightarrow> p < e \<Longrightarrow> e \<le> length c"
proof -
  assume "holds c buf p e" "p < e"
  then have "e - 1 < length c" by (auto simp: holds_def)
  with \<open>p < e\<close> show ?thesis by simp
qed

lemma holds_bytes:
  assumes "holds c buf p e" and "p \<le> q" and "q + n \<le> e"
  shows "take n (drop (q - p) buf) = take n (drop q c) \<and> (0 < n \<longrightarrow> q + n \<le> length c)"
proof (cases "n = 0")
  case False
  then have l: "e \<le> length c" using holds_le [OF assms(1)] assms(2,3) by simp
  have "take n (drop (q - p) buf) = take n (drop q c)"
  proof (rule nth_equalityI)
    show "length (take n (drop (q - p) buf)) = length (take n (drop q c))"
      using assms l unfolding holds_def by (simp add: min_def) arith
    show "take n (drop (q - p) buf) ! i = take n (drop q c) ! i" if "i < length (take n (drop (q - p) buf))" for i
    proof -
      have "i < n" "q + i < e" using that assms(3) by simp_all
      moreover have "q - p + i = q + i - p" "q - p \<le> length buf" using assms by (auto simp: holds_def)
      ultimately show ?thesis using assms l by (simp add: holds_def)
    qed
  qed
  then show ?thesis using assms(3) l by simp
qed simp

text \<open>
  What the cache needs of the layer below: a read puts a beginning of the wanted bytes into the cells. It
  may be shorter than wanted, or empty when the system reports an error; a complete reader stops only at
  the end of the file.
\<close>

locale block_reader =
  fixes ok complete :: "'e \<Rightarrow> bool" and content :: "'e \<Rightarrow> bytes"
    and read :: "'e \<Rightarrow> nat \<Rightarrow> bytes \<Rightarrow> nat \<Rightarrow> nat \<Rightarrow> (bytes \<times> nat) option"
  assumes read_part: "ok e \<Longrightarrow> pos + n \<le> length buf \<Longrightarrow> n < 2 ^ 32 \<Longrightarrow>
    \<exists>k \<le> n. p + k \<le> max p (length (content e)) \<and> read e p buf pos n = Some (splice buf pos (take k (drop p (content e))), k) \<and>
      (complete e \<longrightarrow> k = min n (length (content e) - p))"
begin

lemma read_holds:
  assumes "ok e" and "np \<le> p" and "p - np + n \<le> length buf" and "n < 2 ^ 32"
    and "holds (content e) buf np p"
  obtains buf' k where "read e p buf (p - np) n = Some (buf', k)" "k \<le> n" "length buf' = length buf"
    "holds (content e) buf' np (p + k)" "\<And>i. i < length buf \<Longrightarrow> p - np + n \<le> i \<Longrightarrow> buf' ! i = buf ! i"
    "complete e \<Longrightarrow> k = min n (length (content e) - p)"
proof -
  obtain k where k: "k \<le> n" "p + k \<le> max p (length (content e))"
    "read e p buf (p - np) n = Some (splice buf (p - np) (take k (drop p (content e))), k)"
    "complete e \<Longrightarrow> k = min n (length (content e) - p)"
    using read_part [OF assms(1,3,4), of p] by blast
  let ?b = "splice buf (p - np) (take k (drop p (content e)))"
  have l: "length (take k (drop p (content e))) = k" using k(2) by (auto simp: min_def max_def split: if_splits)
  have "holds (content e) ?b np (p + k)"
    unfolding holds_def
  proof (intro conjI allI impI)
    show "np \<le> p + k" "p + k - np \<le> length ?b" using assms(2,3) k(1) l by simp_all
    fix i assume i: "np \<le> i \<and> i < p + k"
    then show "i < length (content e)" using assms(5) k(2) by (cases "i < p") (auto simp: holds_def max_def split: if_splits)
    have b: "i - np < length buf" "p - np + length (take k (drop p (content e))) \<le> length buf"
      using i assms(2,3) k(1) l by (linarith, simp)
    show "?b ! (i - np) = content e ! i"
      unfolding nth_splice [OF b(2,1)] using i l assms(2,5) by (cases "i < p") (auto simp: holds_def)
  qed
  moreover have "?b ! i = buf ! i" if "i < length buf" "p - np + n \<le> i" for i
    using that k(1) l by (subst nth_splice) auto
  ultimately show ?thesis using that [OF k(3,1)] k l assms(3) by simp
qed

lemma fill_right:
  assumes "ok e" and "holds (content e) buf np ie" and "ie \<le> ne" and "ne - np \<le> length buf" and "ne - np < 2 ^ 32" and "ne < 2 ^ 64"
    and "ie \<le> max np (length (content e))"
  shows "\<exists>new ne'. (if ne > ie then do { (new, r) \<leftarrow> read e ie buf (ie - np) (to32 (ne - ie)); Some (new, to64 (ie + r)) }
      else Some (buf, ne)) = Some (new, ne') \<and> length new = length buf \<and> ne' \<le> ne \<and> holds (content e) new np ne' \<and>
    (complete e \<longrightarrow> ne' = max np (min ne (length (content e))))"
proof (cases "ie < ne")
  case True
  have n: "np \<le> ie" using assms(2) by (simp add: holds_def)
  obtain new k where "read e ie buf (ie - np) (ne - ie) = Some (new, k)" "k \<le> ne - ie" "length new = length buf"
    "holds (content e) new np (ie + k)" "complete e \<Longrightarrow> k = min (ne - ie) (length (content e) - ie)"
    by (rule read_holds [OF assms(1) n _ _ assms(2), of "ne - ie"]) (use assms n True in auto)
  then show ?thesis using True n assms(3,5-7) by (auto simp: min_def max_def split: if_splits)
next
  case False
  then have "ie = ne" "np \<le> ne" using assms(2,3) by (auto simp: holds_def)
  then show ?thesis using assms(2,7) by (simp add: max_def min_def split: if_splits)
qed

text \<open>Filling a buffer leaves it with bytes of the file, whatever the reads returned.\<close>

lemma fill_holds:
  assumes "ok e" and "holds (content e) buf p q" and "np \<le> ne" and "ne - np \<le> length new" and "ne - np < 2 ^ 32" and "ne < 2 ^ 64"
  shows "\<exists>new' ne'. fill_buffer (read e) buf p q new np ne = Some (new', ne') \<and> length new' = length new \<and>
    ne' \<le> ne \<and> holds (content e) new' np ne' \<and>
    (complete e \<longrightarrow> ne' = max np (min ne (length (content e))))"
proof (cases "max np p < min ne q")
  case False
  have h: "holds (content e) new np np" by (auto simp: holds_def)
  obtain new' k where "read e np new (np - np) (ne - np) = Some (new', k)" "k \<le> ne - np" "length new' = length new"
    "holds (content e) new' np (np + k)" "complete e \<Longrightarrow> k = min (ne - np) (length (content e) - np)"
    by (rule read_holds [OF assms(1) order_refl _ assms(5) h]) (use assms in auto)
  then show ?thesis using False assms(3-6) by (auto simp: fill_buffer_def Let_def min_def max_def split: if_splits)
next
  case True
  define ip ie where "ip = max np p" and "ie = min ne q"
  have b: "np \<le> ip" "p \<le> ip" "ip < ie" "ie \<le> ne" "ie \<le> q" using True by (auto simp: ip_def ie_def)
  let ?m = "splice new (ip - np) (take (ie - ip) (drop (ip - p) buf))"
  have old: "take (ie - ip) (drop (ip - p) buf) = take (ie - ip) (drop ip (content e))" "ie \<le> length (content e)"
    using holds_bytes [OF assms(2) b(2), of "ie - ip"] b by auto
  have room: "ie - p \<le> length buf" "ie - np \<le> length new" using assms(2,4) b by (auto simp: holds_def)
  have move: "memmove new (ip - np) buf (ip - p) (ie - ip) = Some ?m"
    using room b by (simp add: memmove_def)
  have m: "length ?m = length new" "\<And>i. ip \<le> i \<Longrightarrow> i < ie \<Longrightarrow> ?m ! (i - np) = content e ! i"
  proof -
    have l: "length (take (ie - ip) (drop (ip - p) buf)) = ie - ip" using room b by simp
    then show "length ?m = length new" using room b by simp
    show "?m ! (i - np) = content e ! i" if "ip \<le> i" "i < ie" for i
      using that room b l old by (subst nth_splice) auto
  qed
  have "ie \<le> max np (length (content e))" using old(2) by simp
  note right = fill_right [OF assms(1) _ b(4) _ assms(5,6) this]
  show ?thesis
  proof (cases "np < ip")
    case False
    have "holds (content e) ?m np ie"
    proof -
      have "ip = np" using False b(1) by simp
      then show ?thesis using m b old(2) room by (auto simp: holds_def)
    qed
    moreover have "fill_buffer (read e) buf p q new np ne =
        (if ne > ie then do { (new, r) \<leftarrow> read e ie ?m (ie - np) (to32 (ne - ie)); Some (new, to64 (ie + r)) } else Some (?m, ne))"
      using True False move by (simp add: fill_buffer_def Let_def ip_def [symmetric] ie_def [symmetric])
    ultimately show ?thesis using right [of ?m] m(1) assms(4) by simp
  next
    case left: True
    have h: "holds (content e) ?m np np" by (auto simp: holds_def)
    have pre: "np - np + (ip - np) \<le> length ?m" "ip - np < 2 ^ 32" using m(1) room(2) b assms(5) by simp_all
    obtain new' k where r: "read e np ?m (np - np) (ip - np) = Some (new', k)" "k \<le> ip - np" "length new' = length ?m"
      "holds (content e) new' np (np + k)" "\<And>i. i < length ?m \<Longrightarrow> np - np + (ip - np) \<le> i \<Longrightarrow> new' ! i = ?m ! i"
      "complete e \<Longrightarrow> k = min (ip - np) (length (content e) - np)"
      by (rule read_holds [OF assms(1) order_refl pre h]) (rule that; assumption)
    have n: "ip - np < 2 ^ 32" "np + k < 2 ^ 64" using assms(5,6) b r(2) by simp_all
    show ?thesis
    proof (cases "k = ip - np")
      case True
      have "holds (content e) new' np ie"
        unfolding holds_def
      proof (intro conjI allI impI)
        show "np \<le> ie" "ie - np \<le> length new'" using b room r(3) m(1) by simp_all
        fix i assume i: "np \<le> i \<and> i < ie"
        then show "i < length (content e)" using old(2) by simp
        show "new' ! (i - np) = content e ! i"
        proof (cases "i < ip")
          case True
          then show ?thesis using i r(4) \<open>k = ip - np\<close> b by (auto simp: holds_def)
        next
          case False
          then have "new' ! (i - np) = ?m ! (i - np)" using i r(5) [of "i - np"] room m(1) by auto
          then show ?thesis using m(2) False i by simp
        qed
      qed
      moreover have "fill_buffer (read e) buf p q new np ne =
          (if ne > ie then do { (new, r) \<leftarrow> read e ie new' (ie - np) (to32 (ne - ie)); Some (new, to64 (ie + r)) } else Some (new', ne))"
        using \<open>max np p < min ne q\<close> move r(1) n True left
        by (simp add: fill_buffer_def Let_def ip_def [symmetric] ie_def [symmetric])
      ultimately show ?thesis using right [of new'] m(1) r(3) assms(4) by simp
    next
      case False
      then have k: "np + k < ip" "to32 (ip - np) \<noteq> k" "\<not> to64 (np + k) > ie" using r(2) b n by simp_all
      then have "fill_buffer (read e) buf p q new np ne = Some (new', to64 (np + k))"
        using \<open>max np p < min ne q\<close> move r(1) n(1) left
        by (simp add: fill_buffer_def Let_def ip_def [symmetric] ie_def [symmetric] del: to32_id to64_id)
          (simp add: n)
      moreover have "\<not> complete e" using r(6) False b old(2) by (auto simp: min_def split: if_splits)
      ultimately show ?thesis using m(1) r(3,4) n(2) k(1) b by simp
    qed
  qed
qed

end

section \<open>The system the cache reads from\<close>

text \<open>
  The documented behaviour of \<^verbatim>\<open>pread\<close> on a file with the bytes \<open>c\<close>, of \<^verbatim>\<open>fstat\<close> and of the allocator. A
  complete system has no errors, no short reads but at the end of the file, and memory.
\<close>

definition disk_ok :: "disk \<Rightarrow> bytes \<Rightarrow> bool" where
  "disk_ok d c \<longleftrightarrow> (\<forall>n p r. pread d n p = Some r \<longrightarrow> (\<exists>k \<le> n. r = take k (drop p c))) \<and>
     (\<forall>n b. alloc d n = Some b \<longrightarrow> length b = n)"

definition disk_complete :: "disk \<Rightarrow> bytes \<Rightarrow> bool" where
  "disk_complete d c \<longleftrightarrow> (\<forall>n p. pread d n p = Some (take n (drop p c))) \<and> fstat d = Some (length c) \<and> (\<forall>n. alloc d n \<noteq> None)"

definition plain_disk :: "bytes \<Rightarrow> disk" where
  "plain_disk c = \<lparr>pread = (\<lambda>n p. Some (take n (drop p c))), fstat = Some (length c), alloc = (\<lambda>n. Some (replicate n 0))\<rparr>"

lemma plain_disk_ok: "disk_ok (plain_disk c) c" "disk_complete (plain_disk c) c"
  by (auto simp: disk_ok_def disk_complete_def plain_disk_def)

lemma DirectReadAt_part:
  assumes "disk_ok d c" and "pos + n \<le> length buf" and "n < 2 ^ 32"
  shows "\<exists>k \<le> n. p + k \<le> max p (length c) \<and> DirectReadAt d fd p buf pos n = Some (splice buf pos (take k (drop p c)), k) \<and>
    (disk_complete d c \<and> fd \<noteq> -1 \<longrightarrow> k = min n (length c - p))"
proof (cases "fd = -1 \<or> pread d n p = None")
  case True
  then show ?thesis using assms by (intro exI [of _ 0]) (auto simp: DirectReadAt_def disk_complete_def split: option.splits)
next
  case False
  then obtain r where r: "pread d n p = Some r" "fd \<noteq> -1" by auto
  then obtain k where k: "k \<le> n" "r = take k (drop p c)" using assms(1) unfolding disk_ok_def by blast
  have l: "length r \<le> n" "length r \<le> length c - p" "r = take (length r) (drop p c)" using k by (simp_all add: min_def)
  have "disk_complete d c \<Longrightarrow> length r = min n (length c - p)" using r(1) by (simp add: disk_complete_def) auto
  moreover have "DirectReadAt d fd p buf pos n = Some (splice buf pos r, length r)"
    using r assms(2,3) l(1) by (simp add: DirectReadAt_def)
  ultimately show ?thesis using l by (intro exI [of _ "length r"]) (auto simp: max_def)
qed

interpretation direct: block_reader "\<lambda>e. disk_ok (fst e) (snd (snd e))" "\<lambda>e. disk_complete (fst e) (snd (snd e)) \<and> fst (snd e) \<noteq> -1"
  "\<lambda>e. snd (snd e)" "\<lambda>e. DirectReadAt (fst e) (fst (snd e))"
  by unfold_locales (rule DirectReadAt_part)

section \<open>The bounds of the buffer\<close>

lemma AlignDown_eq: "v < 2 ^ 64 \<Longrightarrow> AlignDown v = v div 4096 * 4096"
proof -
  assume v: "v < 2 ^ 64"
  have "v AND (2 ^ 64 - AlignSize) = v AND push_bit 12 (mask 52)"
    by (simp add: AlignSize_def mask_eq_exp_minus_1 push_bit_eq_mult)
  also have "\<dots> = push_bit 12 (drop_bit 12 (take_bit 64 v))"
    by (rule bit_eqI) (auto simp: bit_simps)
  also have "\<dots> = v div 4096 * 4096"
  proof -
    have "take_bit 64 v = v" using v by (simp only: take_bit_nat_eq_self_iff)
    then show ?thesis by (simp add: push_bit_eq_mult drop_bit_eq_div)
  qed
  finally show ?thesis by (simp add: AlignDown_def)
qed

lemma AlignUp_eq: "v < 2 ^ 63 \<Longrightarrow> v \<le> AlignUp v \<and> AlignUp v < v + 4096"
  using nat_and_mask [of v 12] by (auto simp: AlignUp_def AlignSize_def Let_def)

lemma CalcBufferBounds_around:
  assumes "CalcBufferBounds Ptr Size L R = (np, ne)" and "Ptr < 2 ^ 62" and "Size < 2 ^ 31" and "L \<le> 16" and "1 \<le> R" and "R \<le> 16"
  shows "np \<le> Ptr" and "Ptr + Size < ne" and "ne < 2 ^ 63" and "ne - np < 2 ^ 31 + 2 ^ 18"
proof -
  have R: "R * 4096 \<le> 65536" "4096 \<le> R * 4096" "L * 4096 \<le> 65536" using assms(4-6) by simp_all
  have p: "AlignDown Ptr \<le> Ptr" "Ptr < AlignDown Ptr + 4096"
    using assms(2) by (simp_all add: AlignDown_eq)
  have np: "np = (if AlignDown Ptr > 65536 then AlignDown Ptr - L * 4096 else 0)"
    using assms(1,2) R(3) p(1) by (auto simp: CalcBufferBounds_def Let_def AheadCount_def AlignSize_def)
  have ne: "ne = AlignUp (Ptr + Size + R * 4096)"
    using assms(1-3) R(1) by (auto simp: CalcBufferBounds_def Let_def AlignSize_def)
  have "Ptr + Size + R * 4096 < 2 ^ 63" using assms(2,3) R(1) by simp
  note up = AlignUp_eq [OF this, folded ne]
  show "np \<le> Ptr" using np p(1) by (simp split: if_splits)
  show "Ptr + Size < ne" using up R(2) by simp
  show "ne < 2 ^ 63" using up R(1) assms(2,3) by simp
  show "ne - np < 2 ^ 31 + 2 ^ 18" using up R p np assms(3) by (simp split: if_splits)
qed

section \<open>A view into the file\<close>

text \<open>The invariant of the cache: its cells are bytes of the file.\<close>

definition view_ok :: "bytes \<Rightarrow> file_view \<Rightarrow> bool" where
  "view_ok c v \<longleftrightarrow> holds c (Buffer v) (BufferPtr v) (BufferEnd v) \<and> length (Buffer v) = BufferSize v \<and>
     BufferSize v < 2 ^ 32 \<and> BufferEnd v < 2 ^ 63"

lemma new_buffer_size:
  assumes "disk_ok d c" and "view_ok c v" and "need < 2 ^ 31 + 2 ^ 18" and "new_buffer d need v = Some (new, new_size)"
  shows "length new = new_size" "need \<le> new_size" "new_size < 2 ^ 32"
  using assms by (auto simp: new_buffer_def Let_def CapacityStock_def AlignSize_def disk_ok_def view_ok_def split: if_splits option.splits)

text \<open>
  A view never leaves the buffer, keeps the invariant, and shows a beginning of the wanted bytes of the
  file; all of them, up to the end of the file, when the system is complete.
\<close>

lemma ViewBytesAt_shows:
  assumes "disk_ok d c" and "view_ok c v" and "Ptr < 2 ^ 62" and "Size < 2 ^ 31"
  obtains q n v' where "ViewBytesAt d Ptr Size v = Some (q, n, v')" "view_ok c v'" "n \<le> Size"
    "CurPtr v' = CurPtr v" "FD v' = FD v" "FileSize v' = FileSize v"
    "case q of None \<Rightarrow> n = 0 | Some i \<Rightarrow> i + n \<le> length (Buffer v') \<and> take n (drop i (Buffer v')) = take n (drop Ptr c)"
    "n \<le> length c - Ptr"
    "disk_complete d c \<and> FD v \<noteq> -1 \<longrightarrow> n = min Size (length c - Ptr)"
proof (cases "BufferPtr v \<le> Ptr \<and> Ptr + Size \<le> BufferEnd v")
  case True
  have h: "holds c (Buffer v) (BufferPtr v) (BufferEnd v)" using assms(2) by (simp add: view_ok_def)
  have b: "take Size (drop (Ptr - BufferPtr v) (Buffer v)) = take Size (drop Ptr c)" "0 < Size \<Longrightarrow> Ptr + Size \<le> length c"
    using holds_bytes [OF h, of Ptr Size] True by auto
  have "ViewBytesAt d Ptr Size v = Some (Some (Ptr - BufferPtr v), Size, v)"
    using True assms(3,4) by (simp add: ViewBytesAt_def)
  then show ?thesis
    using assms(2) b True h by (intro that [of "Some (Ptr - BufferPtr v)" Size v]) (cases "Size = 0"; auto simp: holds_def)+
next
  case False
  obtain np ne where bounds: "(if Ptr < LastPtr v then CalcBufferBounds Ptr Size AheadCount BehindCount
      else CalcBufferBounds Ptr Size BehindCount AheadCount) = (np, ne)" by (metis surj_pair)
  have a: "np \<le> Ptr" "Ptr + Size < ne" "ne < 2 ^ 63" "ne - np < 2 ^ 31 + 2 ^ 18"
    using bounds CalcBufferBounds_around [OF _ assms(3,4)]
    by (auto simp: AheadCount_def BehindCount_def split: if_splits)
  let ?v = "v\<lparr>LastPtr := Ptr\<rparr>"
  have e: "ViewBytesAt d Ptr Size v = (case new_buffer d (ne - np) ?v of
      None \<Rightarrow> Some (None, 0, ?v)
    | Some (new, new_size) \<Rightarrow>
        do { (new, ne) \<leftarrow> fill_buffer (DirectReadAt d (FD v)) (Buffer v) (BufferPtr v) (BufferEnd v) new np ne;
             let v = ?v\<lparr>Buffer := new, BufferSize := new_size, BufferPtr := np, BufferEnd := ne\<rparr>;
             Some (if Ptr < np \<or> Ptr \<ge> ne then (None, 0, v) else (Some (Ptr - np), min Size (to32 (ne - Ptr)), v)) })"
  proof -
    have miss: "\<not> (Ptr \<ge> BufferPtr v \<and> to64 (Ptr + Size) \<le> BufferEnd v)" and num: "to32 (sub64 ne np) = ne - np"
      using False assms(3,4) a by auto
    show ?thesis unfolding ViewBytesAt_def if_not_P [OF miss] bounds by (simp add: num Let_def split: option.split)
  qed
  show ?thesis
  proof (cases "new_buffer d (ne - np) ?v")
    case None
    then have "\<not> disk_complete d c"
      by (auto simp: new_buffer_def Let_def disk_complete_def split: if_splits option.splits)
    moreover have "ViewBytesAt d Ptr Size v = Some (None, 0, ?v)" by (simp add: e None)
    ultimately show ?thesis using assms(2) by (intro that [of None 0 ?v]) (auto simp: view_ok_def)
  next
    case (Some nb)
    obtain new new_size where nb: "new_buffer d (ne - np) ?v = Some (new, new_size)" using Some by (cases nb) simp
    have "view_ok c ?v" using assms(2) by (simp add: view_ok_def)
    note room = new_buffer_size [OF assms(1) this a(4) nb]
    obtain new' ne' where f: "fill_buffer (DirectReadAt d (FD v)) (Buffer v) (BufferPtr v) (BufferEnd v) new np ne = Some (new', ne')"
      "length new' = length new" "ne' \<le> ne" "holds c new' np ne'"
      "disk_complete d c \<and> FD v \<noteq> -1 \<longrightarrow> ne' = max np (min ne (length c))"
      using direct.fill_holds [of "(d, FD v, c)" "Buffer v" "BufferPtr v" "BufferEnd v" np ne new] assms(1,2) a room
      by (auto simp: view_ok_def)
    let ?w = "?v\<lparr>Buffer := new', BufferSize := new_size, BufferPtr := np, BufferEnd := ne'\<rparr>"
    have w: "view_ok c ?w" using f room a by (simp add: view_ok_def)
    show ?thesis
    proof (cases "Ptr < ne'")
      case out: False
      then have "ViewBytesAt d Ptr Size v = Some (None, 0, ?w)" by (simp add: e nb f(1) Let_def)
      then show ?thesis using w f(5) out a by (intro that [of None 0 ?w]) (auto simp: max_def min_def split: if_splits)
    next
      case True
      define n where "n = min Size (ne' - Ptr)"
      have t: "to32 (ne' - Ptr) = ne' - Ptr" using f(3) a(1,4) by simp
      have "ViewBytesAt d Ptr Size v = Some (Some (Ptr - np), n, ?w)"
        using True a(1) by (simp add: e nb f(1) Let_def n_def t)
      moreover have "take n (drop (Ptr - np) new') = take n (drop Ptr c)" "n \<le> length c - Ptr"
      proof -
        have "Ptr + n \<le> ne'" using True by (simp add: n_def)
        note b = holds_bytes [OF f(4) a(1) this]
        show "take n (drop (Ptr - np) new') = take n (drop Ptr c)" using b by blast
        show "n \<le> length c - Ptr" using b by (cases n) (simp, linarith)
      qed
      moreover have "Ptr - np + n \<le> length new'" using f(4) True a(1) by (auto simp: holds_def n_def)
      moreover have "disk_complete d c \<and> FD v \<noteq> -1 \<longrightarrow> n = min Size (length c - Ptr)"
        using f(5) True a(1,2) by (auto simp: n_def max_def min_def split: if_splits)
      ultimately show ?thesis using w by (intro that [of "Some (Ptr - np)" n ?w]) (simp_all add: n_def)
    qed
  qed
qed

lemma Read_shows:
  assumes "disk_ok d c" and "view_ok c v" and "CurPtr v < 2 ^ 62" and "Size < 2 ^ 31"
  obtains n v' where "Read d Size v = Some (take n (drop (CurPtr v) c), v')" "view_ok c v'" "n \<le> Size" "n \<le> length c - CurPtr v"
    "CurPtr v' = CurPtr v + n" "FD v' = FD v" "FileSize v' = FileSize v"
    "disk_complete d c \<and> FD v \<noteq> -1 \<longrightarrow> n = min Size (length c - CurPtr v)"
proof -
  obtain q n v' where r: "ViewBytesAt d (CurPtr v) Size v = Some (q, n, v')" "view_ok c v'" "n \<le> Size"
    "CurPtr v' = CurPtr v" "FD v' = FD v" "FileSize v' = FileSize v"
    "case q of None \<Rightarrow> n = 0 | Some i \<Rightarrow> i + n \<le> length (Buffer v') \<and> take n (drop i (Buffer v')) = take n (drop (CurPtr v) c)"
    "n \<le> length c - CurPtr v" "disk_complete d c \<and> FD v \<noteq> -1 \<longrightarrow> n = min Size (length c - CurPtr v)"
    by (rule ViewBytesAt_shows [OF assms])
  have "to64 (CurPtr v + n) = CurPtr v + n" using assms(3,4) r(3) by simp
  then have "Read d Size v = Some (take n (drop (CurPtr v) c), v'\<lparr>CurPtr := CurPtr v + n\<rparr>)"
    using r(1,4,7) by (cases q) (simp_all add: Read_def ViewBytesSlide_def)
  then show ?thesis by (rule that) (use r in \<open>auto simp: view_ok_def\<close>)
qed

section \<open>The view as a file\<close>

text \<open>The operations of a user of the cache, and what they return on the file itself.\<close>

datatype view_op = Seek int whence | Fetch nat | Actualize | Forget

fun view_step :: "disk \<Rightarrow> view_op \<Rightarrow> file_view \<Rightarrow> (bytes \<times> file_view) option" where
  "view_step d (Seek off w) v = Some ([], SetPointer off w v)"
| "view_step d (Fetch n) v = Read d n v"
| "view_step d Actualize v = Some ([], ActualizeFileSize d v)"
| "view_step d Forget v = Some ([], Clear v)"

fun view_run :: "disk \<Rightarrow> view_op list \<Rightarrow> file_view \<Rightarrow> (bytes list \<times> file_view) option" where
  "view_run d [] v = Some ([], v)"
| "view_run d (x # xs) v = do { (r, v) \<leftarrow> view_step d x v; (rs, v) \<leftarrow> view_run d xs v; Some (r # rs, v) }"

text \<open>The file is its bytes and a position. Positions from \<open>2 ^ 62\<close> and sizes from \<open>2 ^ 31\<close> on are not considered.\<close>

fun file_step :: "bytes \<Rightarrow> view_op \<Rightarrow> nat \<Rightarrow> (bytes \<times> nat) option" where
  "file_step c (Seek off w) p =
     (let q = nat (off + (case w of SEEK_SET \<Rightarrow> 0 | SEEK_CUR \<Rightarrow> int p | SEEK_END \<Rightarrow> int (length c))) in
      if - (2 ^ 62) \<le> off \<and> off < 2 ^ 62 \<and> q < 2 ^ 62 then Some ([], q) else None)"
| "file_step c (Fetch n) p =
     (if n < 2 ^ 31 \<and> p + n < 2 ^ 62 then Some (take n (drop p c), p + min n (length c - p)) else None)"
| "file_step c Actualize p = Some ([], p)"
| "file_step c Forget p = Some ([], p)"

fun file_run :: "bytes \<Rightarrow> view_op list \<Rightarrow> nat \<Rightarrow> (bytes list \<times> nat) option" where
  "file_run c [] p = Some ([], p)"
| "file_run c (x # xs) p = do { (r, p) \<leftarrow> file_step c x p; (rs, p) \<leftarrow> file_run c xs p; Some (r # rs, p) }"

definition view_of :: "bytes \<Rightarrow> file_view \<Rightarrow> nat \<Rightarrow> bool" where
  "view_of c v p \<longleftrightarrow> view_ok c v \<and> CurPtr v = p \<and> p < 2 ^ 62 \<and> FD v \<noteq> -1 \<and> FileSize v = length c"

lemma view_step_file:
  assumes "disk_ok d c" and "disk_complete d c" and "length c < 2 ^ 62" and "view_of c v p" and "file_step c x p = Some (r, q)"
  shows "\<exists>v'. view_step d x v = Some (r, v') \<and> view_of c v' q"
proof (cases x)
  case (Seek off w)
  let ?t = "off + (case w of SEEK_SET \<Rightarrow> 0 | SEEK_CUR \<Rightarrow> int p | SEEK_END \<Rightarrow> int (length c))"
  have "- (2 ^ 62) \<le> off" "off < 2 ^ 62" "nat ?t < 2 ^ 62" "r = []" "q = nat ?t"
    using assms(5) Seek by (auto simp: Let_def split: if_splits)
  then show ?thesis using assms(3,4) Seek
    by (cases w) (auto simp: SetPointer_def Let_def view_of_def view_ok_def)
next
  case (Fetch n)
  then have n: "n < 2 ^ 31" "p + n < 2 ^ 62" "r = take n (drop p c)" "q = p + min n (length c - p)"
    using assms(5) by (simp_all split: if_splits)
  have v: "view_ok c v" "CurPtr v = p" "p < 2 ^ 62" "FD v \<noteq> -1" "FileSize v = length c" using assms(4) by (simp_all add: view_of_def)
  obtain m v' where r: "Read d n v = Some (take m (drop p c), v')" "view_ok c v'" "CurPtr v' = p + m" "FD v' = FD v"
    "FileSize v' = FileSize v" "m = min n (length c - p)"
    using Read_shows [OF assms(1) v(1), of n] v n(1) assms(2) by metis
  then show ?thesis using n v Fetch by (auto simp: view_of_def min_def)
next
  case Actualize
  then show ?thesis using assms by (auto simp: ActualizeFileSize_def view_of_def disk_complete_def)
next
  case Forget
  then show ?thesis using assms(4,5) by (auto simp: Clear_def view_of_def view_ok_def holds_def)
qed

text \<open>
  C5. A user of \<open>BufferedFileView\<close> that seeks, reads, drops the cache and asks for the size in any order
  reads exactly what the file itself would return, whatever the buffer holds at the time.
\<close>

theorem view_refines_file:
  assumes "disk_ok d c" and "disk_complete d c" and "length c < 2 ^ 62" and "fd \<noteq> -1"
    and "file_run c ops 0 = Some (rs, p)"
  shows "\<exists>v. view_run d ops (snd (Open d fd BufferedFileView)) = Some (rs, v) \<and> CurPtr v = p"
proof -
  have "\<exists>v'. view_run d ops v = Some (rs, v') \<and> view_of c v' p" if "view_of c v q" "file_run c ops q = Some (rs, p)" for v q
    using that
  proof (induction ops arbitrary: v q rs)
    case (Cons x xs)
    then obtain r q' rs' where s: "file_step c x q = Some (r, q')" "file_run c xs q' = Some (rs', p)" "rs = r # rs'"
      by (auto simp: bind_eq_Some_conv)
    then show ?case using view_step_file [OF assms(1-3) Cons.prems(1) s(1)] Cons.IH [of _ q' rs'] by fastforce
  qed simp
  moreover have "view_of c (snd (Open d fd BufferedFileView)) 0"
    using assms(2,4) by (auto simp: Open_def Close_def Clear_def ActualizeFileSize_def BufferedFileView_def Let_def
        view_of_def view_ok_def holds_def disk_complete_def)
  ultimately show ?thesis using assms(5) by (fastforce simp: view_of_def)
qed

theorem view_refines_file_witness:
  "\<exists>v. view_run (plain_disk [1, 2, 3]) [Fetch 2, Seek (-1) SEEK_END, Forget, Fetch 5]
      (snd (Open (plain_disk [1, 2, 3]) 7 BufferedFileView)) = Some ([[1, 2], [], [], [3]], v) \<and> CurPtr v = 3"
  by (rule view_refines_file [where c = "[1, 2, 3]"]) (simp_all add: plain_disk_ok Let_def)

text \<open>
  C31. Whatever the system does, short reads, errors and a failing allocator included, a read through the view
  stays inside its buffer and returns a beginning of what the file has at the position; the position moves by what was
  returned and the cache keeps holding bytes of the file only.
\<close>

theorem Read_never_wrong:
  assumes "disk_ok d c" and "view_ok c v" and "CurPtr v < 2 ^ 62" and "Size < 2 ^ 31"
  shows "\<exists>n v'. Read d Size v = Some (take n (drop (CurPtr v) c), v') \<and> n \<le> Size \<and>
    CurPtr v' = CurPtr v + n \<and> view_ok c v'"
  by (rule Read_shows [OF assms]) blast

definition failing_disk :: disk where
  "failing_disk = \<lparr>pread = (\<lambda>n p. None), fstat = None, alloc = (\<lambda>n. if n < 20000 then Some (replicate n 0) else None)\<rparr>"

theorem Read_never_wrong_witness:
  "\<exists>n v'. Read failing_disk 3 (BufferedFileView\<lparr>FD := 3\<rparr>) = Some (take n [1, 2], v') \<and> n \<le> 3 \<and> CurPtr v' = n \<and> view_ok [1, 2] v'"
proof -
  have "disk_ok failing_disk [1, 2]" by (auto simp: disk_ok_def failing_disk_def split: if_splits)
  moreover have "view_ok [1, 2] (BufferedFileView\<lparr>FD := 3\<rparr>)" by (simp add: view_ok_def holds_def BufferedFileView_def)
  ultimately show ?thesis using Read_never_wrong [of failing_disk "[1, 2]" "BufferedFileView\<lparr>FD := 3\<rparr>" 3]
    by (simp add: BufferedFileView_def)
qed

end
