(* ===== verification/FileOut.thy ===== *)
theory FileOut
  imports WineTables
begin

text \<open>
  The writing cache \<^verbatim>\<open>CachedWrite\<close> of \<^verbatim>\<open>far/src/cache.cpp\<close> over \<^verbatim>\<open>File::Write\<close>
  (\<^verbatim>\<open>far/src/farwinapi.cpp\<close>) and \<^verbatim>\<open>WriteFile\<close> (\<^verbatim>\<open>WinPort/src/APIFiles.cpp\<close>).

  The system call \<^verbatim>\<open>write\<close>, after the repetitions for \<^verbatim>\<open>EAGAIN\<close> and \<^verbatim>\<open>EINTR\<close>, is an argument: it
  takes the state of the open file and the data and returns the number of bytes written, or a negative number, and the new state.
\<close>

section \<open>Writing to a file\<close>

definition WriteFile :: "bool \<Rightarrow> ('f \<Rightarrow> bytes \<Rightarrow> int \<times> 'f) \<Rightarrow> 'f \<Rightarrow> bytes \<Rightarrow> bool \<times> nat \<times> 'f" where
  "WriteFile valid sys f data =
     (if \<not> valid then (False, 0, f)
      else let (r, f) = sys f data in if r < 0 then (False, 0, f) else (True, nat r mod 2 ^ 32, f))"

definition File_Write :: "bool \<Rightarrow> ('f \<Rightarrow> bytes \<Rightarrow> int \<times> 'f) \<Rightarrow> 'f \<Rightarrow> bytes \<Rightarrow> bool \<times> nat \<times> 'f" where
  "File_Write valid sys f data = WriteFile valid sys f data"

section \<open>The cache\<close>

record 'f cached_write =
  out_buffer :: "bytes option"
  out_file :: 'f
  FreeSize :: nat
  Flushed :: bool

definition BufferSize :: nat where "BufferSize = 0x10000"

text \<open>The constructor gets the memory that \<^verbatim>\<open>malloc\<close> returned, if any.\<close>

definition CachedWrite :: "bytes option \<Rightarrow> 'f \<Rightarrow> 'f cached_write" where
  "CachedWrite mem f = \<lparr>out_buffer = mem, out_file = f, FreeSize = BufferSize, Flushed = False\<rparr>"

definition Flush :: "('f \<Rightarrow> bytes \<Rightarrow> bool \<times> nat \<times> 'f) \<Rightarrow> 'f cached_write \<Rightarrow> bool \<times> 'f cached_write" where
  "Flush put cw =
     (case out_buffer cw of
        None \<Rightarrow> (Flushed cw, cw)
      | Some b \<Rightarrow>
          if Flushed cw then (True, cw)
          else
            let (rc, n, f) = put (out_file cw) (take (BufferSize - FreeSize cw) b); cw = cw\<lparr>out_file := f\<rparr> in
            if rc \<and> BufferSize - FreeSize cw = n then (True, cw\<lparr>Flushed := True, FreeSize := BufferSize\<rparr>) else (False, cw))"

definition Write :: "('f \<Rightarrow> bytes \<Rightarrow> bool \<times> nat \<times> 'f) \<Rightarrow> bytes \<Rightarrow> 'f cached_write \<Rightarrow> bool \<times> 'f cached_write" where
  "Write put data cw =
     (case out_buffer cw of
        None \<Rightarrow> (False, cw)
      | Some _ \<Rightarrow>
          let (ok, cw) = (if length data > FreeSize cw then Flush put cw else (True, cw)) in
          if \<not> ok then (False, cw)
          else if length data > FreeSize cw then
            let (rc, n, f) = put (out_file cw) data in (rc \<and> length data = n, cw\<lparr>out_file := f\<rparr>)
          else
            (True, cw\<lparr>out_buffer := map_option (\<lambda>b. splice b (BufferSize - FreeSize cw) data) (out_buffer cw),
                      FreeSize := FreeSize cw - length data, Flushed := False\<rparr>))"

section \<open>What reaches the file\<close>

definition buffered :: "'f cached_write \<Rightarrow> bytes" where
  "buffered cw = (case out_buffer cw of None \<Rightarrow> [] | Some b \<Rightarrow> take (BufferSize - FreeSize cw) b)"

text \<open>The invariant: the buffer has its size, and after a flush it is empty.\<close>

definition cache_ok :: "'f cached_write \<Rightarrow> bool" where
  "cache_ok cw \<longleftrightarrow> FreeSize cw \<le> BufferSize \<and> (Flushed cw \<longrightarrow> FreeSize cw = BufferSize) \<and>
     (case out_buffer cw of None \<Rightarrow> True | Some b \<Rightarrow> length b = BufferSize)"

text \<open>What the cache needs of the file: a write appends a beginning of the data and says how long it is.\<close>

locale appender =
  fixes ok :: "'e \<Rightarrow> bool" and content :: "'e \<Rightarrow> 'f \<Rightarrow> bytes" and put :: "'e \<Rightarrow> 'f \<Rightarrow> bytes \<Rightarrow> bool \<times> nat \<times> 'f"
  assumes write_appends: "ok e \<Longrightarrow> length data < 2 ^ 32 \<Longrightarrow> put e f data = (rc, n, f') \<Longrightarrow>
    n \<le> length data \<and> content e f' = content e f @ take n data"
begin

lemma Flush_appends:
  assumes "ok e" and "cache_ok cw" and "Flush (put e) cw = (rc, cw')" and "out_buffer cw \<noteq> None"
  shows "cache_ok cw'" "out_buffer cw' = out_buffer cw"
    and "rc \<Longrightarrow> buffered cw' = [] \<and> FreeSize cw' = BufferSize \<and> content e (out_file cw') = content e (out_file cw) @ buffered cw"
    and "\<not> rc \<Longrightarrow> buffered cw' = buffered cw \<and> (\<exists>k. content e (out_file cw') = content e (out_file cw) @ take k (buffered cw))"
proof -
  obtain b where b: "out_buffer cw = Some b" "length b = BufferSize" using assms(2,4) by (auto simp: cache_ok_def)
  obtain r n f where w: "put e (out_file cw) (take (BufferSize - FreeSize cw) b) = (r, n, f)" by (metis surj_pair)
  have l: "length (take (BufferSize - FreeSize cw) b) < 2 ^ 32" using b(2) by (simp add: BufferSize_def)
  note a = write_appends [OF assms(1) l w]
  have p: "buffered cw = take (BufferSize - FreeSize cw) b" using b(1) by (simp add: buffered_def)
  have f: "Flush (put e) cw = (if Flushed cw then (True, cw)
      else if r \<and> BufferSize - FreeSize cw = n then (True, cw\<lparr>out_file := f, Flushed := True, FreeSize := BufferSize\<rparr>) else (False, cw\<lparr>out_file := f\<rparr>))"
    by (simp add: Flush_def b(1) w Let_def)
  show "cache_ok cw'" "out_buffer cw' = out_buffer cw"
    using assms(2,3) b unfolding f by (auto simp: cache_ok_def split: if_splits)
  show "rc \<Longrightarrow> buffered cw' = [] \<and> FreeSize cw' = BufferSize \<and> content e (out_file cw') = content e (out_file cw) @ buffered cw"
    using assms(2,3) b a unfolding f p by (auto simp: buffered_def cache_ok_def split: if_splits)
  show "\<not> rc \<Longrightarrow> buffered cw' = buffered cw \<and> (\<exists>k. content e (out_file cw') = content e (out_file cw) @ take k (buffered cw))"
    using assms(3) b a unfolding f p by (auto simp: buffered_def min_absorb1 intro!: exI [of _ n] split: if_splits)
qed

lemma Write_appends:
  assumes "ok e" and "cache_ok cw" and "length data < 2 ^ 32" and "Write (put e) data cw = (rc, cw')"
  shows "cache_ok cw' \<and> (rc \<longrightarrow> content e (out_file cw') @ buffered cw' = content e (out_file cw) @ buffered cw @ data)"
proof (cases "out_buffer cw")
  case None
  then show ?thesis using assms(2,4) by (simp add: Write_def)
next
  case (Some b)
  have room: "cache_ok c \<Longrightarrow> length data \<le> FreeSize c \<Longrightarrow> out_buffer c \<noteq> None \<Longrightarrow>
      c' = c\<lparr>out_buffer := map_option (\<lambda>b. splice b (BufferSize - FreeSize c) data) (out_buffer c),
             FreeSize := FreeSize c - length data, Flushed := False\<rparr> \<Longrightarrow>
      cache_ok c' \<and> out_file c' = out_file c \<and> buffered c' = buffered c @ data" for c c'
  proof -
    assume c: "cache_ok c" "length data \<le> FreeSize c" "out_buffer c \<noteq> None"
      "c' = c\<lparr>out_buffer := map_option (\<lambda>b. splice b (BufferSize - FreeSize c) data) (out_buffer c),
             FreeSize := FreeSize c - length data, Flushed := False\<rparr>"
    then obtain b where b: "out_buffer c = Some b" "length b = BufferSize" "FreeSize c \<le> BufferSize" by (auto simp: cache_ok_def)
    have n: "BufferSize - (FreeSize c - length data) = BufferSize - FreeSize c + length data" using b(3) c(2) by simp
    have l: "length (take (BufferSize - FreeSize c) b) = BufferSize - FreeSize c" using b by simp
    show "cache_ok c' \<and> out_file c' = out_file c \<and> buffered c' = buffered c @ data"
      unfolding c(4) using b c(2) by (simp add: cache_ok_def buffered_def n splice_def l)
  qed
  show ?thesis
  proof (cases "length data \<le> FreeSize cw")
    case True
    then have rc: "rc" and c: "cw' = cw\<lparr>out_buffer := map_option (\<lambda>b. splice b (BufferSize - FreeSize cw) data) (out_buffer cw),
        FreeSize := FreeSize cw - length data, Flushed := False\<rparr>"
      using assms(4) Some by (auto simp: Write_def)
    then show ?thesis using room [OF assms(2) True _ c] rc Some by simp
  next
    case False
    obtain fl c where f: "Flush (put e) cw = (fl, c)" by (metis surj_pair)
    note fa = Flush_appends [OF assms(1,2) f]
    show ?thesis
    proof (cases "fl \<and> FreeSize c < length data")
      case True
      obtain r n g where w: "put e (out_file c) data = (r, n, g)" by (metis surj_pair)
      have "rc = (r \<and> length data = n)" "cw' = c\<lparr>out_file := g\<rparr>"
        using assms(4) Some False f True w by (auto simp: Write_def)
      then show ?thesis
        using fa Some True write_appends [OF assms(1,3) w] by (auto simp: cache_ok_def buffered_def)
    next
      case small: False
      show ?thesis
      proof (cases fl)
        case True
        then have "rc" and c: "cw' = c\<lparr>out_buffer := map_option (\<lambda>b. splice b (BufferSize - FreeSize c) data) (out_buffer c),
            FreeSize := FreeSize c - length data, Flushed := False\<rparr>" "length data \<le> FreeSize c"
          using assms(4) Some False f small by (auto simp: Write_def)
        then show ?thesis using room [OF _ c(2) _ c(1)] fa Some True by auto
      next
        case False
        then show ?thesis using assms(4) Some f fa \<open>\<not> length data \<le> FreeSize cw\<close> by (auto simp: Write_def)
      qed
    qed
  qed
qed

end

text \<open>The file over the system call, and the interpretation of the interface on it.\<close>

definition sys_ok :: "('f \<Rightarrow> bytes \<Rightarrow> int \<times> 'f) \<Rightarrow> ('f \<Rightarrow> bytes) \<Rightarrow> bool" where
  "sys_ok sys content \<longleftrightarrow> (\<forall>f data r f'. sys f data = (r, f') \<longrightarrow>
     r \<le> int (length data) \<and> content f' = content f @ take (nat r) data)"

lemma File_Write_appends:
  assumes "sys_ok sys content" and "length data < 2 ^ 32" and "File_Write valid sys f data = (rc, n, f')"
  shows "n \<le> length data \<and> content f' = content f @ take n data"
proof (cases valid)
  case True
  obtain r g where s: "sys f data = (r, g)" by (metis surj_pair)
  then have c: "r \<le> int (length data)" "content g = content f @ take (nat r) data" using assms(1) by (auto simp: sys_ok_def)
  then have "nat r mod 2 ^ 32 = nat r" using assms(2) by simp
  then show ?thesis using assms(3) True s c by (auto simp: File_Write_def WriteFile_def split: if_splits)
qed (use assms(3) in \<open>simp add: File_Write_def WriteFile_def\<close>)

interpretation file_over: appender "\<lambda>e. sys_ok (fst (snd e)) (snd (snd e))" "\<lambda>e. snd (snd e)" "\<lambda>e. File_Write (fst e) (fst (snd e))"
  by unfold_locales (rule File_Write_appends)

text \<open>A user that writes blocks one after the other until one fails.\<close>

fun write_all :: "('f \<Rightarrow> bytes \<Rightarrow> bool \<times> nat \<times> 'f) \<Rightarrow> bytes list \<Rightarrow> 'f cached_write \<Rightarrow> bool \<times> 'f cached_write" where
  "write_all put [] cw = (True, cw)"
| "write_all put (d # ds) cw = (let (rc, cw) = Write put d cw in if rc then write_all put ds cw else (False, cw))"

lemma write_all_appends:
  assumes "sys_ok sys content" and "\<forall>d \<in> set ds. length d < 2 ^ 32"
  shows "cache_ok cw \<Longrightarrow> write_all (File_Write valid sys) ds cw = (rc, cw') \<Longrightarrow>
    cache_ok cw' \<and> (rc \<longrightarrow> content (out_file cw') @ buffered cw' = content (out_file cw) @ buffered cw @ concat ds)"
  using assms(2)
proof (induction ds arbitrary: cw)
  case (Cons d ds)
  obtain r c where w: "Write (File_Write valid sys) d cw = (r, c)" by (metis surj_pair)
  have "cache_ok c \<and> (r \<longrightarrow> content (out_file c) @ buffered c = content (out_file cw) @ buffered cw @ d)"
    using file_over.Write_appends [of "(valid, sys, content)" cw d r c] assms(1) Cons.prems(1,3) w by simp
  then show ?case using Cons.IH [of c] Cons.prems(2,3) w by (cases r) auto
qed simp

lemma Flush_result:
  assumes "sys_ok sys content" and "cache_ok cw" and "out_buffer cw \<noteq> None" and "Flush (File_Write valid sys) cw = (rc, cw')"
  shows "cache_ok cw' \<and> out_buffer cw' \<noteq> None \<and> (if rc then buffered cw' = [] \<and> content (out_file cw') = content (out_file cw) @ buffered cw
    else buffered cw' = buffered cw \<and> (\<exists>k. content (out_file cw') = content (out_file cw) @ take k (buffered cw)))"
  using file_over.Flush_appends [of "(valid, sys, content)" cw rc cw'] assms by auto

lemma CachedWrite_start: "length mem = BufferSize \<Longrightarrow> cache_ok (CachedWrite (Some mem) f) \<and> buffered (CachedWrite (Some mem) f) = []"
  by (simp add: CachedWrite_def cache_ok_def buffered_def)

lemma Flush_buffer: "out_buffer (snd (Flush put cw)) = out_buffer cw"
  by (auto simp: Flush_def Let_def split: option.splits prod.splits)

lemma Write_buffer: "out_buffer cw \<noteq> None \<Longrightarrow> out_buffer (snd (Write put d cw)) \<noteq> None"
  using Flush_buffer [of put cw] by (auto simp: Write_def Let_def split: option.splits prod.splits if_splits)

lemma write_all_buffer: "out_buffer cw \<noteq> None \<Longrightarrow> out_buffer (snd (write_all put ds cw)) \<noteq> None"
proof (induction ds arbitrary: cw)
  case (Cons d ds)
  then show ?case using Write_buffer [of cw put d] by (auto split: prod.splits)
qed simp

text \<open>A system without errors and short writes.\<close>

definition sys_whole :: "('f \<Rightarrow> bytes \<Rightarrow> int \<times> 'f) \<Rightarrow> bool" where
  "sys_whole sys \<longleftrightarrow> (\<forall>f data. fst (sys f data) = int (length data))"

lemma File_Write_whole:
  "sys_whole sys \<Longrightarrow> length data < 2 ^ 32 \<Longrightarrow> \<exists>f'. File_Write True sys f data = (True, length data, f')"
proof -
  assume a: "sys_whole sys" "length data < 2 ^ 32"
  obtain r f' where s: "sys f data = (r, f')" by (metis surj_pair)
  then have "r = int (length data)" using a(1) by (metis fst_conv sys_whole_def)
  then show ?thesis using s a(2) by (simp add: File_Write_def WriteFile_def)
qed

lemma Flush_whole:
  assumes "sys_whole sys" and "cache_ok cw" and "out_buffer cw \<noteq> None"
  shows "fst (Flush (File_Write True sys) cw)"
proof -
  obtain b where b: "out_buffer cw = Some b" "length b = BufferSize" "FreeSize cw \<le> BufferSize" using assms(2,3) by (auto simp: cache_ok_def)
  have "length (take (BufferSize - FreeSize cw) b) < 2 ^ 32" using b(2) by (simp add: BufferSize_def)
  then obtain f where "File_Write True sys (out_file cw) (take (BufferSize - FreeSize cw) b) = (True, BufferSize - FreeSize cw, f)"
    using File_Write_whole [OF assms(1)] b by (metis diff_le_self length_take min.absorb2)
  then show ?thesis by (simp add: Flush_def b(1) Let_def)
qed

lemma Write_whole:
  assumes "sys_whole sys" and "cache_ok cw" and "out_buffer cw \<noteq> None" and "length d < 2 ^ 32"
  shows "fst (Write (File_Write True sys) d cw)"
proof -
  obtain b where "out_buffer cw = Some b" using assms(3) by blast
  moreover obtain c where "Flush (File_Write True sys) cw = (True, c)"
    using Flush_whole [OF assms(1-3)] by (metis prod.collapse)
  moreover obtain f where "File_Write True sys (out_file c) d = (True, length d, f)" using File_Write_whole [OF assms(1,4)] by blast
  ultimately show ?thesis by (auto simp: Write_def)
qed

lemma write_all_whole:
  assumes "sys_whole sys" and "sys_ok sys content" and "\<forall>d \<in> set ds. length d < 2 ^ 32"
  shows "cache_ok cw \<Longrightarrow> out_buffer cw \<noteq> None \<Longrightarrow> fst (write_all (File_Write True sys) ds cw)"
  using assms(3)
proof (induction ds arbitrary: cw)
  case (Cons d ds)
  obtain c where w: "Write (File_Write True sys) d cw = (True, c)"
    using Write_whole [OF assms(1) Cons.prems(1,2), of d] Cons.prems(3) by (metis list.set_intros(1) prod.collapse)
  have "cache_ok c" using file_over.Write_appends [of "(True, sys, content)" cw d True c] assms(2) Cons.prems w by simp
  moreover have "out_buffer c \<noteq> None" using Write_buffer [OF Cons.prems(2)] w by (metis snd_conv)
  ultimately show ?case using Cons.IH [of c] Cons.prems(3) w by simp
qed simp

text \<open>
  C30. Blocks written one after the other through the cache, each with success, and a successful flush: the file has
  got exactly the blocks in their order behind what it had, whether they went through the buffer or past it.
  Without errors of the system all of them succeed.
\<close>

theorem writes_reach_file:
  fixes content :: "'f \<Rightarrow> bytes" and sys :: "'f \<Rightarrow> bytes \<Rightarrow> int \<times> 'f" and f :: 'f and valid :: bool and mem :: bytes and ds :: "bytes list"
  assumes "sys_ok sys content" and "length mem = BufferSize" and "\<forall>d \<in> set ds. length d < 2 ^ 32"
  defines "result \<equiv> write_all (File_Write valid sys) ds (CachedWrite (Some mem) f)"
  shows "(fst result \<and> fst (Flush (File_Write valid sys) (snd result)) \<longrightarrow>
      content (out_file (snd (Flush (File_Write valid sys) (snd result)))) = content f @ concat ds) \<and>
    (valid \<and> sys_whole sys \<longrightarrow> fst result \<and> fst (Flush (File_Write valid sys) (snd result)))"
proof -
  note st = CachedWrite_start [OF assms(2), of f]
  have b: "out_buffer (CachedWrite (Some mem) f) \<noteq> None" by (simp add: CachedWrite_def)
  obtain rc cw where r: "result = (rc, cw)" by (metis surj_pair)
  have c: "cache_ok cw" "rc \<Longrightarrow> content (out_file cw) @ buffered cw = content f @ concat ds"
    using write_all_appends [OF assms(1,3) _ r [unfolded result_def]] st by (simp_all add: CachedWrite_def)
  have ob: "out_buffer cw \<noteq> None"
    using write_all_buffer [OF b, of "File_Write valid sys" ds] r by (simp add: result_def)
  obtain fc cw' where f: "Flush (File_Write valid sys) cw = (fc, cw')" by (metis surj_pair)
  have "rc \<and> fc \<longrightarrow> content (out_file cw') = content f @ concat ds"
    using Flush_result [OF assms(1) c(1) ob f] c(2) by auto
  moreover have "valid \<and> sys_whole sys \<longrightarrow> rc \<and> fc"
  proof (intro impI conjI)
    assume v: "valid \<and> sys_whole sys"
    show rc using write_all_whole [OF _ assms(1,3) _ b] v st r by (simp add: result_def)
    show fc using Flush_whole [of sys cw] v c(1) ob f by simp
  qed
  ultimately show ?thesis unfolding r fst_conv snd_conv f by simp
qed

text \<open>A file that takes everything, and one that takes a single byte of its first write.\<close>

definition whole_write :: "bytes \<Rightarrow> bytes \<Rightarrow> int \<times> bytes" where
  "whole_write f data = (int (length data), f @ data)"

definition short_write :: "bytes \<Rightarrow> bytes \<Rightarrow> int \<times> bytes" where
  "short_write f data = (if f = [] then (int (length (take 1 data)), take 1 data) else (int (length data), f @ data))"

lemma example_sys_ok: "sys_ok whole_write (\<lambda>f. f)" "sys_ok short_write (\<lambda>f. f)"
  by (auto simp: sys_ok_def whole_write_def short_write_def min_def split: if_splits)

theorem writes_reach_file_witness:
  "\<exists>cw. write_all (File_Write True whole_write) [[1, 2], [3]] (CachedWrite (Some (replicate BufferSize 0)) [9]) = (True, cw) \<and>
    out_file (snd (Flush (File_Write True whole_write) cw)) = [9, 1, 2, 3]"
proof -
  have w: "sys_whole whole_write" by (simp add: sys_whole_def whole_write_def)
  let ?put = "File_Write True whole_write" and ?c = "CachedWrite (Some (replicate BufferSize 0)) [9 :: u8]"
  let ?r = "write_all ?put [[1, 2], [3]] ?c"
  have l: "length (replicate BufferSize 0 :: bytes) = BufferSize" "\<forall>d \<in> set [[1, 2], [3 :: u8]]. length d < 2 ^ 32" by simp_all
  note all = writes_reach_file [OF example_sys_ok(1) l, of True "[9]"]
  have r: "fst ?r" "fst (Flush ?put (snd ?r))" using all w by blast+
  then have "out_file (snd (Flush ?put (snd ?r))) = [9] @ concat [[1, 2], [3 :: u8]]" using all by blast
  also have "\<dots> = [9, 1, 2, 3]" by simp
  finally show ?thesis using r(1) by (intro exI [of _ "snd ?r"] conjI) (simp_all add: prod_eq_iff del: write_all.simps)
qed

text \<open>
  A flush that could not write everything keeps the whole buffer, also the part that has reached the file:
  the next flush, in the destructor at the latest, writes that part a second time.
\<close>

theorem Flush_again_duplicates:
  assumes "sys_ok sys content" and "cache_ok cw" and "out_buffer cw \<noteq> None"
    and "Flush (File_Write valid sys) cw = (False, cw1)" and "Flush (File_Write valid sys) cw1 = (True, cw2)"
  shows "\<exists>k. content (out_file cw1) = content (out_file cw) @ take k (buffered cw) \<and>
    content (out_file cw2) = content (out_file cw) @ take k (buffered cw) @ buffered cw"
proof -
  obtain k where k: "content (out_file cw1) = content (out_file cw) @ take k (buffered cw)" "buffered cw1 = buffered cw"
    "cache_ok cw1" "out_buffer cw1 \<noteq> None"
    using Flush_result [OF assms(1-4)] by auto
  then show ?thesis using Flush_result [OF assms(1) k(3,4) assms(5)] by (intro exI [of _ k]) simp
qed

theorem Flush_again_duplicates_witness:
  "\<exists>cw1 cw2. Flush (File_Write True short_write) (CachedWrite (Some (replicate BufferSize 7)) [] \<lparr>FreeSize := BufferSize - 2\<rparr>) = (False, cw1) \<and>
    Flush (File_Write True short_write) cw1 = (True, cw2) \<and> (\<exists>k. out_file cw1 = take k [7, 7] \<and> out_file cw2 = take k [7, 7] @ [7, 7])"
proof -
  let ?put = "File_Write True short_write"
  let ?cw = "CachedWrite (Some (replicate BufferSize 7)) [] \<lparr>FreeSize := BufferSize - 2\<rparr> :: bytes cached_write"
  have t: "take 2 (replicate BufferSize (7 :: u8)) = [7, 7]" "BufferSize - (BufferSize - 2) = 2"
  proof -
    have "BufferSize = Suc (Suc 65534)" by (simp add: BufferSize_def)
    then show "take 2 (replicate BufferSize (7 :: u8)) = [7, 7]" "BufferSize - (BufferSize - 2) = 2"
      by (simp_all only: replicate.simps) (simp_all add: numeral_2_eq_2)
  qed
  have ok: "cache_ok ?cw" "out_buffer ?cw \<noteq> None" "buffered ?cw = [7, 7]"
    by (simp_all add: cache_ok_def buffered_def CachedWrite_def t del: take_replicate)
  define cw1 where "cw1 = ?cw\<lparr>out_file := [7]\<rparr>"
  have f1: "Flush ?put ?cw = (False, cw1)"
    by (simp add: Flush_def CachedWrite_def t File_Write_def WriteFile_def short_write_def cw1_def del: take_replicate)
  obtain cw2 where f2: "Flush ?put cw1 = (True, cw2)"
    by (simp add: Flush_def CachedWrite_def t File_Write_def WriteFile_def short_write_def cw1_def del: take_replicate)
  show ?thesis
    using Flush_again_duplicates [OF example_sys_ok(2) ok(1,2) f1 f2] f1 f2 ok(3) by (auto simp: CachedWrite_def)
qed

end
