(* ===== verification/KeyMap.thy ===== *)
theory KeyMap
  imports Prelude "HOL-Library.List_Lexorder"
begin

text \<open>
  The maps of the key files: the order \<^verbatim>\<open>KeyFileCmp\<close> of \<^verbatim>\<open>utils/src/KeyFileHelper.cpp\<close> and what the code uses
  of \<^verbatim>\<open>std::map\<close> with it. A map is the list of its entries in order; an iterator is the key of the entry it points
  to, in the spelling with which it was inserted.
\<close>

section \<open>The order of the keys\<close>

definition eng_upper :: "u8 \<Rightarrow> u8" where
  "eng_upper c = (if 0x61 \<le>s c \<and> c \<le>s 0x7a then c - 0x20 else c)"

fun KeyFileCmp :: "bool \<Rightarrow> bytes \<Rightarrow> bytes \<Rightarrow> bool" where
  "KeyFileCmp ci (ca # a) (cb # b) =
     (if ca \<noteq> cb then
        if \<not> ci then ca <s cb
        else if eng_upper ca \<noteq> eng_upper cb then eng_upper ca <s eng_upper cb else KeyFileCmp ci a b
      else KeyFileCmp ci a b)"
| "KeyFileCmp ci a b = (length a < length b)"

definition same_key :: "bool \<Rightarrow> bytes \<Rightarrow> bytes \<Rightarrow> bool" where
  "same_key ci a b \<longleftrightarrow> \<not> KeyFileCmp ci a b \<and> \<not> KeyFileCmp ci b a"

section \<open>Maps\<close>

type_synonym 'v str_map = "(bytes \<times> 'v) list"

fun map_find :: "bool \<Rightarrow> 'v str_map \<Rightarrow> bytes \<Rightarrow> (bytes \<times> 'v) option" where
  "map_find ci [] k = None"
| "map_find ci ((k', v) # m) k = (if same_key ci k' k then Some (k', v) else map_find ci m k)"

text \<open>\<^verbatim>\<open>emplace\<close> leaves an entry with the same key alone.\<close>

fun map_emplace :: "bool \<Rightarrow> bytes \<Rightarrow> 'v \<Rightarrow> 'v str_map \<Rightarrow> 'v str_map" where
  "map_emplace ci k v [] = [(k, v)]"
| "map_emplace ci k v ((k', v') # m) =
     (if same_key ci k' k then (k', v') # m
      else if KeyFileCmp ci k k' then (k, v) # (k', v') # m
      else (k', v') # map_emplace ci k v m)"

text \<open>The assignment through an iterator.\<close>

fun map_assign :: "bool \<Rightarrow> bytes \<Rightarrow> 'v \<Rightarrow> 'v str_map \<Rightarrow> 'v str_map" where
  "map_assign ci k v [] = []"
| "map_assign ci k v ((k', v') # m) = (if same_key ci k' k then (k', v) # m else (k', v') # map_assign ci k v m)"

fun map_erase :: "bool \<Rightarrow> bytes \<Rightarrow> 'v str_map \<Rightarrow> 'v str_map" where
  "map_erase ci k [] = []"
| "map_erase ci k ((k', v') # m) = (if same_key ci k' k then m else (k', v') # map_erase ci k m)"

text \<open>\<^verbatim>\<open>m[k] = v\<close>\<close>

definition map_set :: "bool \<Rightarrow> bytes \<Rightarrow> 'v \<Rightarrow> 'v str_map \<Rightarrow> 'v str_map" where
  "map_set ci k v m = map_assign ci k v (map_emplace ci k v m)"

section \<open>The order is a linear order of folded keys\<close>

definition fold_char :: "bool \<Rightarrow> u8 \<Rightarrow> int" where
  "fold_char ci c = sint (if ci then eng_upper c else c)"

definition fold_key :: "bool \<Rightarrow> bytes \<Rightarrow> int list" where
  "fold_key ci = map (fold_char ci)"

lemma fold_key_simps [simp]:
  "fold_key ci [] = []" "fold_key ci (c # s) = fold_char ci c # fold_key ci s"
  by (simp_all add: fold_key_def)

lemma sint_inject: "sint (a :: u8) = sint b \<longleftrightarrow> a = b"
  by (metis signed_word_eqI)

lemma fold_key_Nil [simp]: "[] < fold_key ci b \<longleftrightarrow> b \<noteq> []"
  by (cases b) simp_all

lemma KeyFileCmp_fold: "KeyFileCmp ci a b \<longleftrightarrow> fold_key ci a < fold_key ci b"
  by (induction ci a b rule: KeyFileCmp.induct)
    (auto simp: fold_char_def sint_inject word_sless_alt)

lemma same_key_fold: "same_key ci a b \<longleftrightarrow> fold_key ci a = fold_key ci b"
  unfolding same_key_def KeyFileCmp_fold by auto

lemma fold_key_inj [simp]: "fold_key False a = fold_key False b \<longleftrightarrow> a = b"
proof (induction a arbitrary: b)
  case (Cons c a)
  then show ?case by (cases b) (auto simp: fold_char_def sint_inject)
qed (auto simp: fold_key_def)

section \<open>The interface of a dictionary\<close>

text \<open>
  What the users of a map rely on: after each operation, what is found under every key; and that a map has nothing
  but what is found in it.
\<close>

locale dictionary =
  fixes ok :: "'m \<Rightarrow> bool"
    and look :: "'m \<Rightarrow> 'n \<Rightarrow> ('k \<times> 'v) option"
    and norm :: "'k \<Rightarrow> 'n"
    and emplace :: "'k \<Rightarrow> 'v \<Rightarrow> 'm \<Rightarrow> 'm"
    and assign :: "'k \<Rightarrow> 'v \<Rightarrow> 'm \<Rightarrow> 'm"
    and erase :: "'k \<Rightarrow> 'm \<Rightarrow> 'm"
  assumes ok_emplace: "ok m \<Longrightarrow> ok (emplace k v m)"
    and ok_assign: "ok m \<Longrightarrow> ok (assign k v m)"
    and ok_erase: "ok m \<Longrightarrow> ok (erase k m)"
    and look_emplace: "ok m \<Longrightarrow> look (emplace k v m) = (if look m (norm k) = None then (look m)(norm k \<mapsto> (k, v)) else look m)"
    and look_assign: "ok m \<Longrightarrow> look (assign k v m) =
      (case look m (norm k) of None \<Rightarrow> look m | Some e \<Rightarrow> (look m)(norm k \<mapsto> (fst e, v)))"
    and look_erase: "ok m \<Longrightarrow> look (erase k m) = (look m)(norm k := None)"
    and look_norm: "ok m \<Longrightarrow> look m n = Some e \<Longrightarrow> norm (fst e) = n"
    and look_ext: "ok m \<Longrightarrow> ok m' \<Longrightarrow> look m = look m' \<Longrightarrow> m = m'"
begin

definition set_value :: "'k \<Rightarrow> 'v \<Rightarrow> 'm \<Rightarrow> 'm" where
  "set_value k v m = assign k v (emplace k v m)"

lemma ok_set_value: "ok m \<Longrightarrow> ok (set_value k v m)"
  by (simp add: set_value_def ok_emplace ok_assign)

lemma look_set_value:
  "ok m \<Longrightarrow> look (set_value k v m) =
    (look m)(norm k \<mapsto> (case look m (norm k) of None \<Rightarrow> k | Some e \<Rightarrow> fst e, v))"
  by (auto simp: set_value_def look_assign look_emplace ok_emplace fun_upd_idem split: option.splits)

lemma look_upd_None: "ok m \<Longrightarrow> look m (norm k) = None \<Longrightarrow> set_value k v m = emplace k v m"
  by (rule look_ext) (auto simp: ok_set_value ok_emplace look_set_value look_emplace)

text \<open>Operations on different keys can change places.\<close>

lemma set_value_swap:
  assumes "ok m" "norm k \<noteq> norm k'"
  shows "set_value k v (set_value k' v' m) = set_value k' v' (set_value k v m)"
  by (rule look_ext) (use assms assms(2) [symmetric] in \<open>simp_all add: ok_set_value look_set_value fun_upd_twist\<close>)

lemma erase_set_value:
  assumes "ok m" "norm k \<noteq> norm k'"
  shows "erase k' (set_value k v m) = set_value k v (erase k' m)"
  by (rule look_ext) (use assms in \<open>auto simp: ok_set_value ok_erase look_erase look_set_value fun_upd_twist\<close>)

lemma erase_absent: "ok m \<Longrightarrow> look m (norm k) = None \<Longrightarrow> erase k m = m"
  by (rule look_ext) (auto simp: ok_erase look_erase fun_upd_idem)

lemma set_value_same: "ok m \<Longrightarrow> look m (norm k) = Some (k', v) \<Longrightarrow> set_value k v m = m"
  by (rule look_ext) (auto simp: ok_set_value look_set_value fun_upd_idem)

end

section \<open>Ordered lists are dictionaries\<close>

definition map_ok :: "bool \<Rightarrow> 'v str_map \<Rightarrow> bool" where
  "map_ok ci m \<longleftrightarrow> sorted_wrt (<) (map (fold_key ci \<circ> fst) m)"

definition entries :: "bool \<Rightarrow> 'v str_map \<Rightarrow> int list \<Rightarrow> (bytes \<times> 'v) option" where
  "entries ci m = map_of (map (\<lambda>e. (fold_key ci (fst e), e)) m)"

lemma map_find_entries: "map_find ci m k = entries ci m (fold_key ci k)"
  by (induction ci m k rule: map_find.induct) (auto simp: entries_def same_key_fold)

lemma entries_simps [simp]:
  "entries ci [] = Map.empty" "entries ci (e # m) = (entries ci m)(fold_key ci (fst e) \<mapsto> e)"
  by (simp_all add: entries_def)

lemma map_ok_simps [simp]:
  "map_ok ci []" "map_ok ci (e # m) \<longleftrightarrow> (\<forall>e' \<in> set m. fold_key ci (fst e) < fold_key ci (fst e')) \<and> map_ok ci m"
  by (auto simp: map_ok_def)

lemma entries_range: "entries ci m n = Some e \<Longrightarrow> e \<in> set m \<and> fold_key ci (fst e) = n"
  by (auto simp: entries_def dest: map_of_SomeD)

lemma entries_None: "entries ci m n = None \<longleftrightarrow> (\<forall>e \<in> set m. fold_key ci (fst e) \<noteq> n)"
  by (auto simp: entries_def map_of_eq_None_iff image_image)

lemma map_ok_emplace: "map_ok ci m \<Longrightarrow> map_ok ci (map_emplace ci k v m) \<and> set (map_emplace ci k v m) \<subseteq> insert (k, v) (set m)"
proof (induction ci k v m rule: map_emplace.induct)
  case (2 ci k v k' v' m)
  consider "fold_key ci k' = fold_key ci k" | "fold_key ci k < fold_key ci k'" | "fold_key ci k' < fold_key ci k"
    by (metis less_linear)
  then show ?case
  proof cases
    case 2
    then show ?thesis using "2.prems" by (auto simp: same_key_fold KeyFileCmp_fold intro: less_trans)
  next
    case 3
    then have s: "map_emplace ci k v ((k', v') # m) = (k', v') # map_emplace ci k v m"
      by (auto simp: same_key_fold KeyFileCmp_fold)
    have i: "map_ok ci (map_emplace ci k v m)" "set (map_emplace ci k v m) \<subseteq> insert (k, v) (set m)"
      using 2 3 by (auto simp: same_key_fold KeyFileCmp_fold)
    show ?thesis unfolding s using i 3 "2.prems" by auto
  qed (use "2.prems" in \<open>auto simp: same_key_fold\<close>)
qed simp

lemma entries_emplace:
  "map_ok ci m \<Longrightarrow> entries ci (map_emplace ci k v m) =
    (if entries ci m (fold_key ci k) = None then (entries ci m)(fold_key ci k \<mapsto> (k, v)) else entries ci m)"
proof (induction ci k v m rule: map_emplace.induct)
  case (2 ci k v k' v' m)
  consider "fold_key ci k' = fold_key ci k" | "fold_key ci k < fold_key ci k'" | "fold_key ci k' < fold_key ci k"
    by (metis less_linear)
  then show ?case
  proof cases
    case 2
    then have "entries ci m (fold_key ci k) = None" using "2.prems" by (fastforce simp: entries_None)
    then show ?thesis using 2 by (auto simp: same_key_fold KeyFileCmp_fold fun_upd_twist)
  next
    case 3
    then show ?thesis using 2 by (auto simp: same_key_fold KeyFileCmp_fold fun_upd_twist)
  qed (simp add: same_key_fold)
qed simp

lemma fst_assign: "map fst (map_assign ci k v m) = map fst m"
  by (induction ci k v m rule: map_assign.induct) auto

lemma map_ok_assign: "map_ok ci m \<Longrightarrow> map_ok ci (map_assign ci k v m)"
  unfolding map_ok_def map_map [symmetric] fst_assign .

lemma entries_assign:
  "map_ok ci m \<Longrightarrow> entries ci (map_assign ci k v m) = (case entries ci m (fold_key ci k) of
     None \<Rightarrow> entries ci m | Some e \<Rightarrow> (entries ci m)(fold_key ci k \<mapsto> (fst e, v)))"
  by (induction ci k v m rule: map_assign.induct) (auto simp: same_key_fold fun_upd_twist split: option.splits)

lemma map_ok_erase: "map_ok ci m \<Longrightarrow> map_ok ci (map_erase ci k m) \<and> set (map_erase ci k m) \<subseteq> set m"
  by (induction ci k m rule: map_erase.induct) auto

lemma entries_erase: "map_ok ci m \<Longrightarrow> entries ci (map_erase ci k m) = (entries ci m)(fold_key ci k := None)"
proof (induction ci k m rule: map_erase.induct)
  case (2 ci k k' v' m)
  then have "entries ci m (fold_key ci k') = None" by (auto simp: entries_None)
  then show ?case using 2 by (auto simp: same_key_fold fun_upd_idem fun_upd_twist)
qed simp

lemma entries_iff: "map_ok ci m \<Longrightarrow> entries ci m n = Some e \<longleftrightarrow> e \<in> set m \<and> fold_key ci (fst e) = n"
proof (induction m)
  case (Cons d m)
  show ?case
  proof (cases "n = fold_key ci (fst d)")
    case True
    then have "e \<in> set m \<Longrightarrow> fold_key ci (fst e) \<noteq> n" using Cons.prems by fastforce
    then show ?thesis using True by auto
  next
    case False
    then show ?thesis using Cons by auto
  qed
qed simp

lemma entries_ext:
  assumes "map_ok ci m" "map_ok ci m'" "entries ci m = entries ci m'"
  shows "m = m'"
proof -
  let ?f = "fold_key ci \<circ> fst"
  have d: "sorted (map ?f m) \<and> distinct (map ?f m)" if "map_ok ci m" for m :: "'a str_map"
    using that by (simp add: map_ok_def strict_sorted_iff)
  have s: "set m = set m'" using entries_iff [OF assms(1)] entries_iff [OF assms(2)] assms(3) by auto
  have "inj_on ?f (set m \<union> set m')" using d [OF assms(1)] s by (simp add: distinct_map)
  then show ?thesis by (rule map_sorted_distinct_set_unique) (use d [OF assms(1)] d [OF assms(2)] s in blast)+
qed

lemma set_emplace: "entries ci m (fold_key ci k) = None \<Longrightarrow> set (map_emplace ci k v m) = insert (k, v) (set m)"
  by (induction ci k v m rule: map_emplace.induct) (auto simp: entries_None same_key_fold)

lemma set_assign:
  "map_ok ci m \<Longrightarrow> entries ci m (fold_key ci k) = Some (k0, v0) \<Longrightarrow> set (map_assign ci k v m) = insert (k0, v) (set m - {(k0, v0)})"
proof (induction ci k v m rule: map_assign.induct)
  case (2 ci k v k' v' m)
  show ?case
  proof (cases "fold_key ci k' = fold_key ci k")
    case True
    then have "k' = k0" "v' = v0" "(k0, v0) \<notin> set m" using "2.prems" by auto
    then show ?thesis using True by (auto simp: same_key_fold)
  next
    case False
    then have "(k', v') \<noteq> (k0, v0)" using entries_range [OF "2.prems"(2)] by auto
    then show ?thesis using False 2 by (auto simp: same_key_fold)
  qed
qed simp

lemma set_erase: "map_ok ci m \<Longrightarrow> set (map_erase ci k m) = {e \<in> set m. fold_key ci (fst e) \<noteq> fold_key ci k}"
  by (induction ci k m rule: map_erase.induct) (auto simp: same_key_fold)

text \<open>A key of the map finds its entry.\<close>

lemma find_member: "map_ok ci m \<Longrightarrow> (k, v) \<in> set m \<Longrightarrow> map_find ci m k = Some (k, v)"
  by (simp add: map_find_entries entries_iff)

interpretation str: dictionary "map_ok ci" "entries ci" "fold_key ci" "map_emplace ci" "map_assign ci" "map_erase ci"
  for ci :: bool
  by unfold_locales
    (auto simp: map_ok_emplace map_ok_assign map_ok_erase entries_emplace entries_assign entries_erase
      dest: entries_range entries_ext)

lemma map_set_value: "map_set = str.set_value"
  by (intro ext) (simp add: map_set_def str.set_value_def)

lemma map_ok_set: "map_ok ci m \<Longrightarrow> map_ok ci (map_set ci k v m)"
  unfolding map_set_value by (rule str.ok_set_value)

text \<open>A key above all others goes to the end.\<close>

lemma map_set_last:
  "\<forall>e \<in> set m. fold_key ci (fst e) < fold_key ci k \<Longrightarrow> map_set ci k v m = m @ [(k, v)]"
proof -
  assume a: "\<forall>e \<in> set m. fold_key ci (fst e) < fold_key ci k"
  have "map_emplace ci k v m = m @ [(k, v)]" using a
    by (induction m) (auto simp: same_key_fold KeyFileCmp_fold less_imp_neq dest: less_not_sym)
  moreover have "map_assign ci k v (m @ [(k, v)]) = m @ [(k, v)]" using a
    by (induction m) (auto simp: same_key_fold dest: less_imp_neq)
  ultimately show ?thesis by (simp add: map_set_def)
qed

end
