(* ===== verification/KeyText.thy ===== *)
theory KeyText
  imports KeyMap
begin

text \<open>
  The text of a key file: \<^verbatim>\<open>KFEscaping\<close>, the trimming of lines and the lines that \<^verbatim>\<open>LoadKeyFile\<close> reads and
  \<^verbatim>\<open>KeyFileHelper::Save\<close> writes (\<^verbatim>\<open>utils/src/KeyFileHelper.cpp\<close>, \<^verbatim>\<open>utils/include/utils.h\<close>).
\<close>

section \<open>Escaping\<close>

definition encode_char :: "bool \<Rightarrow> u8 \<Rightarrow> bytes" where
  "encode_char key_name c =
     (if c = 0x0d then [0x5c, 0x72] else if c = 0x0a then [0x5c, 0x6e] else if c = 0x09 then [0x5c, 0x74]
      else if c = 0 then [0x5c, 0x30] else if c = 0x5c then [0x5c, 0x5c]
      else if c = 0x3d \<and> key_name then [0x5c, 0x45] else [c])"

definition Encode :: "bytes \<Rightarrow> bool \<Rightarrow> bytes" where
  "Encode s key_name = 0x22 # concat (map (encode_char key_name) s) @ [0x22]"

definition ContainsEscRequiringChars :: "bytes \<Rightarrow> bool \<Rightarrow> bool" where
  "ContainsEscRequiringChars s key_name \<longleftrightarrow> (\<exists>c \<in> set s. c = 0x0d \<or> c = 0x0a \<or> c = 0 \<or> key_name \<and> c = 0x3d)"

definition EncodeSection :: "bytes \<Rightarrow> bytes" where
  "EncodeSection s =
     (if s = [] \<or> (hd s \<noteq> 0x22 \<or> last s \<noteq> 0x22) \<and> \<not> ContainsEscRequiringChars s False then s else Encode s False)"

definition EncodeKey :: "bytes \<Rightarrow> bytes" where
  "EncodeKey s =
     (if s = [] \<or> (hd s \<noteq> 0x22 \<or> last s \<noteq> 0x22) \<and> \<not> ContainsEscRequiringChars s True \<and>
         hd s \<noteq> 0x3b \<and> hd s \<noteq> 0x23 \<and> hd s \<noteq> 0x5b \<and> hd s \<noteq> 0x20 \<and> hd s \<noteq> 0x09 \<and> last s \<noteq> 0x20 \<and> last s \<noteq> 0x09
      then s else Encode s True)"

definition EncodeValue :: "bytes \<Rightarrow> bytes" where
  "EncodeValue s =
     (if s = [] \<or> (hd s \<noteq> 0x22 \<or> last s \<noteq> 0x22) \<and> \<not> ContainsEscRequiringChars s False \<and>
         hd s \<noteq> 0x20 \<and> hd s \<noteq> 0x09 \<and> last s \<noteq> 0x20 \<and> last s \<noteq> 0x09
      then s else Encode s False)"

definition decode_escape :: "u8 \<Rightarrow> bytes" where
  "decode_escape c =
     (if c = 0x45 then [0x3d] else if c = 0x72 then [0x0d] else if c = 0x6e then [0x0a] else if c = 0x74 then [0x09]
      else if c = 0x30 then [0] else if c = 0x5c then [0x5c] else [0x5c, c])"

text \<open>The loop from behind the opening quote; the last character is the closing one.\<close>

fun decode_loop :: "bytes \<Rightarrow> bytes" where
  "decode_loop (c # d # s) = (if c = 0x5c then decode_escape d @ decode_loop s else c # decode_loop (d # s))"
| "decode_loop s = []"

definition Decode :: "bytes \<Rightarrow> bytes" where
  "Decode s = (if length s < 2 \<or> hd s \<noteq> 0x22 \<or> last s \<noteq> 0x22 then s else decode_loop (tl s))"

lemma decode_encode_char: "decode_loop (encode_char key_name c @ d # s) = c # decode_loop (d # s)"
  by (simp add: encode_char_def decode_escape_def)

lemma Decode_Encode: "Decode (Encode s key_name) = s"
proof -
  have "decode_loop (concat (map (encode_char key_name) s) @ [0x22]) = s"
  proof (induction s)
    case (Cons c s)
    obtain d r where r: "concat (map (encode_char key_name) s) @ [0x22] = d # r"
      by (cases "concat (map (encode_char key_name) s)") auto
    then show ?case using Cons decode_encode_char [of key_name c d r] by simp
  qed simp
  then show ?thesis by (simp add: Decode_def Encode_def)
qed

lemma Decode_plain: "s = [] \<or> hd s \<noteq> 0x22 \<or> last s \<noteq> 0x22 \<Longrightarrow> Decode s = s"
  by (auto simp: Decode_def)

text \<open>Each kind of name or value comes back from its encoding.\<close>

lemma Decode_section [simp]: "Decode (EncodeSection s) = s"
  by (auto simp: EncodeSection_def Decode_Encode intro: Decode_plain)

lemma Decode_key [simp]: "Decode (EncodeKey s) = s"
  by (auto simp: EncodeKey_def Decode_Encode intro: Decode_plain)

lemma Decode_value [simp]: "Decode (EncodeValue s) = s"
  by (auto simp: EncodeValue_def Decode_Encode intro: Decode_plain)

section \<open>Trimming\<close>

text \<open>\<^verbatim>\<open>strchr\<close> finds the terminator of the set too.\<close>

definition trimmed :: "bytes \<Rightarrow> u8 \<Rightarrow> bool" where
  "trimmed spaces c \<longleftrightarrow> c \<le> 0x7f \<and> (c \<in> set spaces \<or> c = 0)"

definition StrTrimRight :: "bytes \<Rightarrow> bytes \<Rightarrow> bytes" where
  "StrTrimRight spaces s = rev (dropWhile (trimmed spaces) (rev s))"

definition StrTrimLeft :: "bytes \<Rightarrow> bytes \<Rightarrow> bytes" where
  "StrTrimLeft spaces s = dropWhile (trimmed spaces) s"

definition StrTrim :: "bytes \<Rightarrow> bytes \<Rightarrow> bytes" where
  "StrTrim spaces s = StrTrimLeft spaces (StrTrimRight spaces s)"

lemma StrTrimRight_id: "s = [] \<or> \<not> trimmed spaces (last s) \<Longrightarrow> StrTrimRight spaces s = s"
  by (cases s rule: rev_cases) (auto simp: StrTrimRight_def)

lemma StrTrimLeft_id: "s = [] \<or> \<not> trimmed spaces (hd s) \<Longrightarrow> StrTrimLeft spaces s = s"
  by (cases s) (auto simp: StrTrimLeft_def)

lemma StrTrim_id: "s = [] \<or> \<not> trimmed spaces (hd s) \<and> \<not> trimmed spaces (last s) \<Longrightarrow> StrTrim spaces s = s"
  using StrTrimRight_id [of s spaces] StrTrimLeft_id [of s spaces] by (auto simp: StrTrim_def)

section \<open>Lines\<close>

function file_lines :: "bytes \<Rightarrow> bytes list" where
  "file_lines content =
     (if content = [] then []
      else let line = takeWhile (\<lambda>c. c \<noteq> 0x0a) content in line # file_lines (drop (length line + 1) content))"
  by pat_completeness auto

termination
  by (relation "measure length") auto

declare file_lines.simps [simp del]

lemma takeWhile_at: "c \<notin> set l \<Longrightarrow> takeWhile (\<lambda>d. d \<noteq> c) (l @ c # s) = l"
  by (induction l) auto

lemma file_lines_line: "0x0a \<notin> set l \<Longrightarrow> file_lines (l @ 0x0a # s) = l # file_lines s"
  by (subst file_lines.simps) (simp add: takeWhile_at Let_def)

lemma file_lines_concat:
  "\<forall>l \<in> set ls. 0x0a \<notin> set l \<Longrightarrow> file_lines (concat (map (\<lambda>l. l @ [0x0a]) ls)) = ls"
proof (induction ls)
  case Nil
  then show ?case by (simp add: file_lines.simps)
next
  case (Cons l ls)
  then show ?case using file_lines_line [of l "concat (map (\<lambda>l. l @ [0x0a]) ls)"] by simp
qed

text \<open>Loading goes through the lines; where a section is stored, and whether it is, is up to the caller.\<close>

record ('s, 'p) loader =
  store :: 's
  vals :: "'p option"
  reached_named_section :: bool

definition find_char :: "u8 \<Rightarrow> bytes \<Rightarrow> nat option" where
  "find_char c s = (if c \<in> set s then Some (length (takeWhile (\<lambda>d. d \<noteq> c) s)) else None)"

definition load_line ::
  "('s \<Rightarrow> bytes \<Rightarrow> 's \<times> 'p option) \<Rightarrow> ('p \<Rightarrow> bytes \<Rightarrow> bytes \<Rightarrow> 's \<Rightarrow> 's) \<Rightarrow> bytes \<Rightarrow> ('s, 'p) loader \<Rightarrow> ('s, 'p) loader"
where
  "load_line values_provider put line L =
     (let line = StrTrim [0x20, 0x09, 0x0d] line in
      if line = [] then L
      else if hd line = 0x5b then
        if last line = 0x5d then
          let sec = take (length line - 2) (tl line); (S, v) = values_provider (store L) (Decode sec)
          in L\<lparr>store := S, vals := v, reached_named_section := True\<rparr>
        else L
      else if hd line \<noteq> 0x3b \<and> hd line \<noteq> 0x23 then
        (case find_char 0x3d line of
           None \<Rightarrow> L
         | Some p \<Rightarrow>
             let val = StrTrimLeft [0x20, 0x09] (drop (p + 1) line);
                 key = StrTrimRight [0x20, 0x09] (take p line);
                 L = (if vals L = None \<and> \<not> reached_named_section L then
                        let (S, v) = values_provider (store L) [] in L\<lparr>store := S, vals := v\<rparr>
                      else L)
             in case vals L of
                  None \<Rightarrow> L
                | Some v \<Rightarrow> L\<lparr>store := put v (Decode key) (Decode val) (store L)\<rparr>)
      else L)"

definition LoadKeyFile ::
  "('s \<Rightarrow> bytes \<Rightarrow> 's \<times> 'p option) \<Rightarrow> ('p \<Rightarrow> bytes \<Rightarrow> bytes \<Rightarrow> 's \<Rightarrow> 's) \<Rightarrow> bytes \<Rightarrow> 's \<Rightarrow> 's" where
  "LoadKeyFile values_provider put content S =
     store (fold (load_line values_provider put) (file_lines content)
       \<lparr>store = S, vals = None, reached_named_section = False\<rparr>)"

section \<open>The lines that are written\<close>

definition section_line :: "bytes \<Rightarrow> bytes" where
  "section_line name = 0x5b # EncodeSection name @ [0x5d]"

definition value_line :: "bytes \<times> bytes \<Rightarrow> bytes" where
  "value_line e = EncodeKey (fst e) @ 0x3d # EncodeValue (snd e)"

definition section_text :: "bytes \<Rightarrow> (bytes \<times> bytes) list \<Rightarrow> bytes" where
  "section_text name m =
     0x5b # EncodeSection name @ [0x5d, 0x0a] @
     concat (map (\<lambda>e. EncodeKey (fst e) @ 0x3d # EncodeValue (snd e) @ [0x0a]) m) @ [0x0a]"

lemma section_text_lines:
  "section_text name m = concat (map (\<lambda>l. l @ [0x0a]) (section_line name # map value_line m @ [[]]))"
  by (simp add: section_text_def section_line_def value_line_def comp_def)

lemma encode_char_clean: "0x0a \<notin> set (encode_char key_name d)" "key_name \<Longrightarrow> 0x3d \<notin> set (encode_char key_name d)"
  by (auto simp: encode_char_def)

lemma encoded_chars: "0x0a \<notin> set (Encode s key_name)" "key_name \<Longrightarrow> 0x3d \<notin> set (Encode s key_name)"
  using encode_char_clean by (auto simp: Encode_def)

lemma encoded_ends: "hd (Encode s key_name) = 0x22" "last (Encode s key_name) = 0x22" "Encode s key_name \<noteq> []"
  by (simp_all add: Encode_def)

lemma EncodeSection_chars: "0x0a \<notin> set (EncodeSection s)"
  by (auto simp: EncodeSection_def encoded_chars) (auto simp: ContainsEscRequiringChars_def)

lemma EncodeKey_chars: "0x0a \<notin> set (EncodeKey s)" "0x3d \<notin> set (EncodeKey s)"
  by (auto simp: EncodeKey_def encoded_chars) (auto simp: ContainsEscRequiringChars_def)

lemma EncodeValue_chars: "0x0a \<notin> set (EncodeValue s)"
  by (auto simp: EncodeValue_def encoded_chars) (auto simp: ContainsEscRequiringChars_def)

lemma trim_quote: "\<not> trimmed [0x20, 0x09, 0x0d] 0x22" "\<not> trimmed [0x20, 0x09, 0x0d] 0x3d"
  "\<not> trimmed [0x20, 0x09, 0x0d] 0x5b" "\<not> trimmed [0x20, 0x09, 0x0d] 0x5d"
  by (simp_all add: trimmed_def)

text \<open>The ends of an encoded key and value are not trimmed, and the key does not look like something else.\<close>

lemma EncodeKey_ends:
  assumes "EncodeKey s \<noteq> []"
  shows "\<not> trimmed [0x20, 0x09, 0x0d] (hd (EncodeKey s))" "\<not> trimmed [0x20, 0x09, 0x0d] (last (EncodeKey s))"
    "hd (EncodeKey s) \<notin> {0x5b, 0x3b, 0x23}"
proof -
  have "\<not> trimmed [0x20, 0x09, 0x0d] (hd (EncodeKey s)) \<and> \<not> trimmed [0x20, 0x09, 0x0d] (last (EncodeKey s)) \<and>
    hd (EncodeKey s) \<notin> {0x5b, 0x3b, 0x23}"
  proof (cases "EncodeKey s = Encode s True")
    case True
    then show ?thesis by (simp add: encoded_ends trim_quote)
  next
    case False
    then have e: "EncodeKey s = s" "s \<noteq> []" and p: "\<not> ContainsEscRequiringChars s True" "hd s \<noteq> 0x3b" "hd s \<noteq> 0x23" "hd s \<noteq> 0x5b"
      "hd s \<noteq> 0x20" "hd s \<noteq> 0x09" "last s \<noteq> 0x20" "last s \<noteq> 0x09"
      using assms by (auto simp: EncodeKey_def split: if_splits)
    have "hd s \<in> set s" "last s \<in> set s" using e(2) by simp_all
    then show ?thesis using p unfolding e(1) by (fastforce simp: trimmed_def ContainsEscRequiringChars_def)
  qed
  then show "\<not> trimmed [0x20, 0x09, 0x0d] (hd (EncodeKey s))" "\<not> trimmed [0x20, 0x09, 0x0d] (last (EncodeKey s))"
    "hd (EncodeKey s) \<notin> {0x5b, 0x3b, 0x23}" by blast+
qed

lemma EncodeValue_ends:
  assumes "EncodeValue s \<noteq> []"
  shows "\<not> trimmed [0x20, 0x09, 0x0d] (hd (EncodeValue s)) \<and> \<not> trimmed [0x20, 0x09, 0x0d] (last (EncodeValue s))"
proof (cases "EncodeValue s = Encode s False")
  case True
  then show ?thesis by (simp add: encoded_ends trim_quote)
next
  case False
  then have e: "EncodeValue s = s" "s \<noteq> []" and p: "\<not> ContainsEscRequiringChars s False"
    "hd s \<noteq> 0x20" "hd s \<noteq> 0x09" "last s \<noteq> 0x20" "last s \<noteq> 0x09"
    using assms by (auto simp: EncodeValue_def split: if_splits)
  have "hd s \<in> set s" "last s \<in> set s" using e(2) by simp_all
  then show ?thesis using p unfolding e(1) by (fastforce simp: trimmed_def ContainsEscRequiringChars_def)
qed

lemma trimmed_less: "trimmed [0x20, 0x09] c \<Longrightarrow> trimmed [0x20, 0x09, 0x0d] c"
  by (auto simp: trimmed_def)

lemma load_section_line:
  "load_line prov put (section_line name) L =
     (let (S, v) = prov (store L) name in L\<lparr>store := S, vals := v, reached_named_section := True\<rparr>)"
proof -
  have "StrTrim [0x20, 0x09, 0x0d] (section_line name) = section_line name"
    by (rule StrTrim_id) (simp add: section_line_def trim_quote)
  then show ?thesis by (simp add: load_line_def Let_def section_line_def)
qed

lemma load_empty_line: "load_line prov put [] L = L"
  by (simp add: load_line_def StrTrim_id)

lemma load_value_line:
  assumes "vals L = Some v"
  shows "load_line prov put (value_line e) L = L\<lparr>store := put v (fst e) (snd e) (store L)\<rparr>"
proof -
  let ?k = "EncodeKey (fst e)" and ?v = "EncodeValue (snd e)"
  have l: "value_line e = ?k @ 0x3d # ?v" by (simp add: value_line_def)
  have h: "\<not> trimmed [0x20, 0x09, 0x0d] (hd (value_line e))" "hd (value_line e) \<notin> {0x5b, 0x3b, 0x23}"
    using EncodeKey_ends [of "fst e"] trim_quote by (cases ?k; simp add: l)+
  have "\<not> trimmed [0x20, 0x09, 0x0d] (last (value_line e))"
    using EncodeValue_ends [of "snd e"] trim_quote by (cases "?v = []") (simp_all add: l)
  then have t: "StrTrim [0x20, 0x09, 0x0d] (value_line e) = value_line e" using h(1) by (simp add: StrTrim_id)
  have f: "find_char 0x3d (value_line e) = Some (length ?k)"
    using EncodeKey_chars(2) [of "fst e"] by (simp add: find_char_def l takeWhile_at)
  have p: "StrTrimRight [0x20, 0x09] ?k = ?k" "StrTrimLeft [0x20, 0x09] ?v = ?v"
    using EncodeKey_ends(2) [of "fst e"] EncodeValue_ends [of "snd e"] trimmed_less
    by (blast intro!: StrTrimRight_id StrTrimLeft_id)+
  have parts: "take (length ?k) (value_line e) = ?k" "drop (Suc (length ?k)) (value_line e) = ?v" "value_line e \<noteq> []"
    by (simp_all add: l)
  show ?thesis using h(2) assms parts(3) unfolding load_line_def Let_def t f by (simp add: parts p)
qed

lemma load_value_lines:
  "vals L = Some v \<Longrightarrow>
    fold (load_line prov put) (map value_line m) L = L\<lparr>store := fold (\<lambda>e. put v (fst e) (snd e)) m (store L)\<rparr>"
  by (induction m arbitrary: L) (simp_all add: load_value_line)

lemma section_lines_clean: "\<forall>l \<in> set (section_line name # map value_line m @ [[]]). 0x0a \<notin> set l"
  using EncodeSection_chars EncodeKey_chars EncodeValue_chars by (auto simp: section_line_def value_line_def)

end
