(* ===== verification/KeyFile.thy ===== *)
theory KeyFile
  imports KeyText "HOL-Library.Monad_Syntax"
begin

text \<open>
  Key files (\<^verbatim>\<open>utils/src/KeyFileHelper.cpp\<close>): the sections in the order of the file, loading, the operations of
  \<^verbatim>\<open>KeyFileHelper\<close> and saving. A result \<open>None\<close> is a use of an iterator that points nowhere.
\<close>

section \<open>Sections\<close>

type_synonym key_values = "bytes str_map"

text \<open>The map of the sections, and the vector of iterators into it in the order of the file.\<close>

record sections =
  smap :: "key_values str_map"
  ordered :: "bytes list"

definition Sections :: sections where
  "Sections = \<lparr>smap = [], ordered = []\<rparr>"

definition Find :: "bool \<Rightarrow> sections \<Rightarrow> bytes \<Rightarrow> key_values option" where
  "Find ci S name = map_option snd (map_find ci (smap S) name)"

text \<open>The result of \<open>Ensure\<close> is the pointer to the values of the section.\<close>

definition Ensure :: "bool \<Rightarrow> sections \<Rightarrow> bytes \<Rightarrow> sections \<times> bytes" where
  "Ensure ci S name =
     (case map_find ci (smap S) name of
        Some (k, _) \<Rightarrow> (S, k)
      | None \<Rightarrow> (\<lparr>smap = map_emplace ci name [] (smap S), ordered = ordered S @ [name]\<rparr>, name))"

definition values_at :: "bool \<Rightarrow> sections \<Rightarrow> bytes \<Rightarrow> key_values" where
  "values_at ci S k = (case Find ci S k of Some m \<Rightarrow> m | None \<Rightarrow> [])"

definition put_values :: "bool \<Rightarrow> bytes \<Rightarrow> key_values \<Rightarrow> sections \<Rightarrow> sections" where
  "put_values ci k m S = S\<lparr>smap := map_assign ci k m (smap S)\<rparr>"

definition FindInVec :: "bytes list \<Rightarrow> bytes \<Rightarrow> nat option" where
  "FindInVec ks k = (if k \<in> set ks then Some (length (takeWhile (\<lambda>x. x \<noteq> k) ks)) else None)"

definition remove_at :: "nat \<Rightarrow> 'a list \<Rightarrow> 'a list" where
  "remove_at i xs = take i xs @ drop (i + 1) xs"

definition Remove :: "bool \<Rightarrow> bytes \<Rightarrow> sections \<Rightarrow> (bool \<times> sections) option" where
  "Remove ci name S =
     (case map_find ci (smap S) name of
        None \<Rightarrow> Some (False, S)
      | Some (k, _) \<Rightarrow>
          do { i \<leftarrow> FindInVec (ordered S) k; Some (True, \<lparr>smap = map_erase ci k (smap S), ordered = remove_at i (ordered S)\<rparr>) })"

text \<open>The loop of \<open>RemoveAt\<close> over the iterators of the map.\<close>

fun remove_at_loop :: "bool \<Rightarrow> bytes \<Rightarrow> bytes list \<Rightarrow> nat \<Rightarrow> sections \<Rightarrow> (nat \<times> sections) option" where
  "remove_at_loop ci prefix [] out S = Some (out, S)"
| "remove_at_loop ci prefix (k # ks) out S =
     (if length k > length prefix \<and> take (length prefix) k = prefix then
        do { i \<leftarrow> FindInVec (ordered S) k;
             remove_at_loop ci prefix ks (out + 1) \<lparr>smap = map_erase ci k (smap S), ordered = remove_at i (ordered S)\<rparr> }
      else remove_at_loop ci prefix ks out S)"

definition RemoveAt :: "bool \<Rightarrow> bytes \<Rightarrow> sections \<Rightarrow> (nat \<times> sections) option" where
  "RemoveAt ci prefix S = remove_at_loop ci prefix (map fst (smap S)) 0 S"

text \<open>
  \<open>Rename\<close> onto the name of the section itself (in another spelling) erases the entry to which the vector then points.
\<close>

definition Rename :: "bool \<Rightarrow> bytes \<Rightarrow> bytes \<Rightarrow> sections \<Rightarrow> (bool \<times> sections) option" where
  "Rename ci name new_name S =
     (case map_find ci (smap S) name of
        None \<Rightarrow> Some (False, S)
      | Some (k, m) \<Rightarrow>
          do { i \<leftarrow> FindInVec (ordered S) k;
               let smap1 = map_emplace ci new_name [] (smap S);
               (k1, _) \<leftarrow> map_find ci smap1 new_name;
               if k1 = k then None
               else Some (True, \<lparr>smap = map_erase ci k (map_assign ci k1 m smap1), ordered = (ordered S)[i := k1]\<rparr>) })"

section \<open>Loading\<close>

definition store_value :: "bool \<Rightarrow> bytes \<Rightarrow> bytes \<Rightarrow> bytes \<Rightarrow> sections \<Rightarrow> sections" where
  "store_value ci k key val S = put_values ci k (map_set False key val (values_at ci S k)) S"

definition CaseIgnoreEngChrMatch :: "u8 \<Rightarrow> u8 \<Rightarrow> bool" where
  "CaseIgnoreEngChrMatch c1 c2 \<longleftrightarrow>
     c1 = c2 \<or>
     (if 0x41 \<le>s c1 \<and> c1 \<le>s 0x5a then c1 + 0x20 = c2 else 0x61 \<le>s c1 \<and> c1 \<le>s 0x7a \<and> c1 - 0x20 = c2)"

definition CaseIgnoreEngStrMatch :: "bytes \<Rightarrow> bytes \<Rightarrow> bool" where
  "CaseIgnoreEngStrMatch s t \<longleftrightarrow> length s = length t \<and> list_all2 CaseIgnoreEngChrMatch s t"

definition StrStartsFrom :: "bytes \<Rightarrow> bytes \<Rightarrow> nat" where
  "StrStartsFrom haystack needle = (if take (length needle) haystack = needle then length needle else 0)"

text \<open>\<open>KeyFileReadHelper\<close>: all sections, or one with the sections nested in it.\<close>

definition wanted :: "bool \<Rightarrow> bytes option \<Rightarrow> bytes \<Rightarrow> bool" where
  "wanted ci load_only_section name \<longleftrightarrow>
     (case load_only_section of
        None \<Rightarrow> True
      | Some only \<Rightarrow>
          name = only \<or> ci \<and> CaseIgnoreEngStrMatch name only \<or>
          (let n = StrStartsFrom name only in n \<noteq> 0 \<and> byte_at name n = 0x2f))"

definition read_helper :: "bool \<Rightarrow> bytes option \<Rightarrow> bytes \<Rightarrow> sections" where
  "read_helper ci load_only_section content =
     LoadKeyFile (\<lambda>S name. if wanted ci load_only_section name then map_prod id Some (Ensure ci S name) else (S, None))
       (store_value ci) content Sections"

text \<open>\<open>KeyFileReadSection\<close>: the values of one section, and whether it was found.\<close>

definition read_section :: "bool \<Rightarrow> bytes \<Rightarrow> bytes \<Rightarrow> key_values \<times> bool" where
  "read_section ci name content =
     LoadKeyFile (\<lambda>(m, loaded) n. if n = name \<or> ci \<and> CaseIgnoreEngStrMatch n name then ((m, True), Some ()) else ((m, loaded), None))
       (\<lambda>_ key val (m, loaded). (map_set False key val m, loaded)) content ([], False)"

section \<open>The helper\<close>

record key_file =
  case_insensitive :: bool
  kf :: sections
  filename :: bytes
  dirty :: bool

definition KeyFileHelper :: "bytes \<Rightarrow> bytes option \<Rightarrow> bool \<Rightarrow> bool \<Rightarrow> key_file" where
  "KeyFileHelper path content load ci =
     \<lparr>case_insensitive = ci,
      kf = (if load then (case content of Some c \<Rightarrow> read_helper ci None c | None \<Rightarrow> Sections) else Sections),
      filename = path, dirty = (\<not> load)\<rparr>"

definition SectionsCount :: "key_file \<Rightarrow> nat" where
  "SectionsCount H = length (smap (kf H))"

definition EnumSections :: "key_file \<Rightarrow> bytes list" where
  "EnumSections H = ordered (kf H)"

definition c_str :: "bytes \<Rightarrow> bytes" where
  "c_str s = takeWhile (\<lambda>c. c \<noteq> 0) s"

definition section_prefix :: "bytes \<Rightarrow> bytes" where
  "section_prefix parent =
     (if parent = [0x2f] then [] else if parent \<noteq> [] \<and> last parent \<noteq> 0x2f then parent @ [0x2f] else parent)"

definition EnumSectionsAt :: "key_file \<Rightarrow> bytes \<Rightarrow> bool \<Rightarrow> bytes list" where
  "EnumSectionsAt H parent recursed =
     (let prefix = section_prefix parent in
      filter (\<lambda>s. length s > length prefix \<and>
        (if case_insensitive H then list_all2 CaseIgnoreEngChrMatch (take (length prefix) s) prefix
         else take (length prefix) s = prefix) \<and>
        (recursed \<or> 0x2f \<notin> set (c_str (drop (length prefix) s)))) (ordered (kf H)))"

definition GetSectionValues :: "key_file \<Rightarrow> bytes \<Rightarrow> key_values option" where
  "GetSectionValues H sec = Find (case_insensitive H) (kf H) sec"

definition HasSection :: "key_file \<Rightarrow> bytes \<Rightarrow> bool" where
  "HasSection H sec \<longleftrightarrow> GetSectionValues H sec \<noteq> None"

definition EnumKeys :: "key_file \<Rightarrow> bytes \<Rightarrow> bytes list" where
  "EnumKeys H sec = (case GetSectionValues H sec of Some m \<Rightarrow> map fst m | None \<Rightarrow> [])"

definition find_value :: "key_file \<Rightarrow> bytes \<Rightarrow> bytes \<Rightarrow> bytes option" where
  "find_value H sec name = do { m \<leftarrow> GetSectionValues H sec; map_option snd (map_find False m name) }"

definition HasKey :: "key_file \<Rightarrow> bytes \<Rightarrow> bytes \<Rightarrow> bool" where
  "HasKey H sec name \<longleftrightarrow> find_value H sec name \<noteq> None"

definition GetString :: "key_file \<Rightarrow> bytes \<Rightarrow> bytes \<Rightarrow> bytes \<Rightarrow> bytes" where
  "GetString H sec name def_value = (case find_value H sec name of Some s \<Rightarrow> s | None \<Rightarrow> def_value)"

definition SetString :: "bytes \<Rightarrow> bytes \<Rightarrow> bytes \<Rightarrow> key_file \<Rightarrow> key_file" where
  "SetString sec name val H =
     (let ci = case_insensitive H; (S, k) = Ensure ci (kf H) sec; m = values_at ci S k in
      case map_find False m name of
        Some (_, old) \<Rightarrow>
          if old = val then H\<lparr>kf := S\<rparr>
          else H\<lparr>kf := put_values ci k (map_assign False name val m) S, dirty := True\<rparr>
      | None \<Rightarrow> H\<lparr>kf := put_values ci k (map_emplace False name val m) S, dirty := True\<rparr>)"

definition RemoveKey :: "bytes \<Rightarrow> bytes \<Rightarrow> key_file \<Rightarrow> key_file" where
  "RemoveKey sec name H =
     (case map_find (case_insensitive H) (smap (kf H)) sec of
        None \<Rightarrow> H
      | Some (k, m) \<Rightarrow>
          if map_find False m name \<noteq> None then
            H\<lparr>kf := put_values (case_insensitive H) k (map_erase False name m) (kf H), dirty := True\<rparr>
          else H)"

definition RemoveSection :: "bytes \<Rightarrow> key_file \<Rightarrow> (bool \<times> key_file) option" where
  "RemoveSection sec H =
     do { (r, S) \<leftarrow> Remove (case_insensitive H) sec (kf H); Some (r, if r then H\<lparr>kf := S, dirty := True\<rparr> else H) }"

definition RemoveSectionsAt :: "bytes \<Rightarrow> key_file \<Rightarrow> (nat \<times> key_file) option" where
  "RemoveSectionsAt parent H =
     do { (n, S) \<leftarrow> RemoveAt (case_insensitive H) (section_prefix parent) (kf H);
          Some (n, if n \<noteq> 0 then H\<lparr>kf := S, dirty := True\<rparr> else H\<lparr>kf := S\<rparr>) }"

definition rename_step :: "bytes \<Rightarrow> bytes \<Rightarrow> key_file \<Rightarrow> key_file option" where
  "rename_step src dst H =
     do { (r, S) \<leftarrow> Rename (case_insensitive H) src dst (kf H); Some (if r then H\<lparr>kf := S, dirty := True\<rparr> else H) }"

fun rename_subsections :: "bytes \<Rightarrow> bytes \<Rightarrow> bytes list \<Rightarrow> key_file \<Rightarrow> key_file option" where
  "rename_subsections src dst [] H = Some H"
| "rename_subsections src dst (s # ss) H =
     do { H \<leftarrow> rename_step s (dst @ drop (length src) s) H; rename_subsections src dst ss H }"

definition RenameSection :: "bytes \<Rightarrow> bytes \<Rightarrow> bool \<Rightarrow> key_file \<Rightarrow> key_file option" where
  "RenameSection src dst recursed H =
     (if src = dst then Some H
      else do { H \<leftarrow> rename_step src dst H;
                if recursed then rename_subsections src dst (EnumSectionsAt H src True) H else Some H })"

section \<open>Saving\<close>

text \<open>The texts of the sections; \<open>None\<close> if the vector has an iterator of no entry.\<close>

fun section_texts :: "bool \<Rightarrow> key_values str_map \<Rightarrow> bytes list \<Rightarrow> bytes list option" where
  "section_texts ci m [] = Some []"
| "section_texts ci m (k # ks) =
     do { (n, vs) \<leftarrow> map_find ci m k; ts \<leftarrow> section_texts ci m ks; Some (section_text n vs # ts) }"

text \<open>What is collected is written when it has reached a size, and the rest at the end.\<close>

fun save_chunks :: "bytes \<Rightarrow> bytes list \<Rightarrow> bytes list" where
  "save_chunks content [] = [content]"
| "save_chunks content (t # ts) =
     (let content = content @ t in
      if length content \<ge> 0x10000 then content # save_chunks [] ts else save_chunks content ts)"

text \<open>The system: whether a file can be created, renamed and removed, and how much of the n-th write is written.\<close>

record file_calls =
  create_ok :: bool
  written :: "nat \<Rightarrow> nat"
  rename_ok :: bool
  remove_ok :: bool

fun write_chunks :: "file_calls \<Rightarrow> nat \<Rightarrow> bytes list \<Rightarrow> bool \<times> bytes" where
  "write_chunks sys i [] = (True, [])"
| "write_chunks sys i (c # cs) =
     (if written sys i < length c then (False, take (written sys i) c)
      else let (ok, rest) = write_chunks sys (i + 1) cs in (ok, c @ rest))"

definition remove_file :: "file_calls \<Rightarrow> bytes \<Rightarrow> (bytes \<Rightarrow> bytes option) \<Rightarrow> (bytes \<Rightarrow> bytes option)" where
  "remove_file sys path fs = (if remove_ok sys then fs(path := None) else fs)"

definition Save ::
  "file_calls \<Rightarrow> bytes \<Rightarrow> bool \<Rightarrow> key_file \<Rightarrow> (bytes \<Rightarrow> bytes option) \<Rightarrow> (bool \<times> key_file \<times> (bytes \<Rightarrow> bytes option)) option" where
  "Save sys tmp only_if_dirty H fs =
     (if only_if_dirty \<and> \<not> dirty H then Some (True, H, fs)
      else if \<not> create_ok sys then Some (False, H, remove_file sys tmp fs)
      else do { texts \<leftarrow> section_texts (case_insensitive H) (smap (kf H)) (ordered (kf H));
                let (ok, data) = write_chunks sys 0 (save_chunks [] texts); fs = fs(tmp \<mapsto> data) in
                  if \<not> ok \<or> \<not> rename_ok sys then Some (False, H, remove_file sys tmp fs)
                  else Some (True, H\<lparr>dirty := False\<rparr>, fs(tmp := None, filename H \<mapsto> data)) })"

section \<open>Well-formed files\<close>

definition sections_ok :: "bool \<Rightarrow> sections \<Rightarrow> bool" where
  "sections_ok ci S \<longleftrightarrow> map_ok ci (smap S) \<and> distinct (ordered S) \<and> set (ordered S) = fst ` set (smap S) \<and>
     (\<forall>(k, m) \<in> set (smap S). map_ok False m)"

definition file_ok :: "key_file \<Rightarrow> bool" where
  "file_ok H \<longleftrightarrow> sections_ok (case_insensitive H) (kf H)"

lemma sections_okD:
  assumes "sections_ok ci S"
  shows "map_ok ci (smap S)" "distinct (ordered S)" "set (ordered S) = fst ` set (smap S)"
    "(k, m) \<in> set (smap S) \<Longrightarrow> map_ok False m"
  using assms by (auto simp: sections_ok_def)

lemma found:
  assumes "sections_ok ci S" "map_find ci (smap S) name = Some (k, m)"
  shows "(k, m) \<in> set (smap S)" "fold_key ci k = fold_key ci name" "map_ok False m" "k \<in> set (ordered S)"
    "entries ci (smap S) (fold_key ci name) = Some (k, m)"
proof -
  show e: "entries ci (smap S) (fold_key ci name) = Some (k, m)" using assms(2) by (simp add: map_find_entries)
  show m: "(k, m) \<in> set (smap S)" "fold_key ci k = fold_key ci name" using entries_range [OF e] by simp_all
  show "map_ok False m" using sections_okD(4) [OF assms(1) m(1)] .
  show "k \<in> set (ordered S)" using sections_okD(3) [OF assms(1)] m(1) by force
qed

lemma same_keys:
  assumes "sections_ok ci S" "(k, m) \<in> set (smap S)" "(k', m') \<in> set (smap S)" "fold_key ci k = fold_key ci k'"
  shows "k = k' \<and> m = m'"
  using entries_iff [OF sections_okD(1) [OF assms(1)], of "fold_key ci k"] assms(2-4) by (metis fst_conv option.inject prod.inject)

lemma Sections_ok: "sections_ok ci Sections"
  by (simp add: sections_ok_def Sections_def)

lemma FindInVec_Some:
  "k \<in> set ks \<Longrightarrow> \<exists>i. FindInVec ks k = Some i \<and> i < length ks \<and> ks ! i = k"
proof (induction ks)
  case (Cons x ks)
  then show ?case by (cases "x = k") (force simp: FindInVec_def)+
qed simp

lemma set_remove_at: "distinct xs \<Longrightarrow> i < length xs \<Longrightarrow> distinct (remove_at i xs) \<and> set (remove_at i xs) = set xs - {xs ! i}"
proof -
  assume d: "distinct xs" and i: "i < length xs"
  have x: "xs = take i xs @ xs ! i # drop (Suc i) xs" using id_take_nth_drop [OF i] .
  have "distinct (take i xs @ xs ! i # drop (Suc i) xs)" using d x by simp
  moreover have "set xs = insert (xs ! i) (set (take i xs) \<union> set (drop (Suc i) xs))" by (subst x) auto
  ultimately show ?thesis by (auto simp: remove_at_def)
qed

section \<open>Loading what was saved\<close>

lemma Ensure_new:
  assumes "sections_ok ci S" "\<forall>e \<in> set (smap S). fold_key ci (fst e) \<noteq> fold_key ci name"
  shows "Ensure ci S name = (\<lparr>smap = map_emplace ci name [] (smap S), ordered = ordered S @ [name]\<rparr>, name)"
    "sections_ok ci (fst (Ensure ci S name))"
proof -
  have n: "entries ci (smap S) (fold_key ci name) = None" using assms(2) by (simp add: entries_None)
  then show e: "Ensure ci S name = (\<lparr>smap = map_emplace ci name [] (smap S), ordered = ordered S @ [name]\<rparr>, name)"
    by (simp add: Ensure_def map_find_entries)
  show "sections_ok ci (fst (Ensure ci S name))"
    using map_ok_emplace [of ci "smap S"] set_emplace [OF n] assms unfolding e by (auto simp: sections_ok_def)
qed

lemma Ensure_ok:
  assumes "sections_ok ci S"
  shows "sections_ok ci (fst (Ensure ci S name))"
    "\<exists>m. map_find ci (smap (fst (Ensure ci S name))) name = Some (snd (Ensure ci S name), m)"
proof -
  show "sections_ok ci (fst (Ensure ci S name))"
  proof (cases "map_find ci (smap S) name")
    case None
    then show ?thesis using Ensure_new(2) [OF assms] by (simp add: map_find_entries entries_None)
  next
    case (Some e)
    then show ?thesis using assms by (cases e) (simp add: Ensure_def)
  qed
  show "\<exists>m. map_find ci (smap (fst (Ensure ci S name))) name = Some (snd (Ensure ci S name), m)"
    using entries_emplace [OF sections_okD(1) [OF assms], of name "[]"]
    by (auto simp: Ensure_def map_find_entries split: option.splits)
qed

lemma put_values_ok:
  assumes "sections_ok ci S" "k \<in> fst ` set (smap S)" "map_ok False m"
  shows "sections_ok ci (put_values ci k m S)"
proof -
  obtain v where v: "(k, v) \<in> set (smap S)" using assms(2) by auto
  then have e: "entries ci (smap S) (fold_key ci k) = Some (k, v)" using entries_iff [OF sections_okD(1) [OF assms(1)]] by simp
  have "fst ` set (map_assign ci k m (smap S)) = fst ` set (smap S)" using fst_assign by (metis list.set_map)
  then show ?thesis
    using set_assign [OF sections_okD(1) [OF assms(1)] e, of m] assms map_ok_assign
    by (auto simp: sections_ok_def put_values_def)
qed

lemma map_assign_twice: "map_assign ci k a (map_assign ci k b m) = map_assign ci k a m"
  by (induction ci k b m rule: map_assign.induct) auto

lemma map_find_assign: "map_find ci m k = Some (k0, b) \<Longrightarrow> map_find ci (map_assign ci k a m) k = Some (k0, a)"
  by (induction ci k a m rule: map_assign.induct) (auto split: if_splits)

lemma put_values_twice: "put_values ci k a (put_values ci k b S) = put_values ci k a S"
  by (simp add: put_values_def map_assign_twice)

lemma values_at_put: "map_find ci (smap S) k = Some (k0, b) \<Longrightarrow> values_at ci (put_values ci k a S) k = a"
  by (simp add: values_at_def Find_def put_values_def map_find_assign)

text \<open>The values of a section, read in their order into a fresh section.\<close>

lemma put_values_in_order:
  assumes "map_find ci (smap S) k = Some (k0, b)"
  shows "map_ok False (m1 @ m2) \<Longrightarrow>
    fold (\<lambda>e. store_value ci k (fst e) (snd e)) m2 (put_values ci k m1 S) = put_values ci k (m1 @ m2) S"
proof (induction m2 arbitrary: m1)
  case (Cons e m2)
  have "\<forall>d \<in> set m1. fold_key False (fst d) < fold_key False (fst e)" using Cons.prems by (simp add: map_ok_def sorted_wrt_append)
  then have "store_value ci k (fst e) (snd e) (put_values ci k m1 S) = put_values ci k (m1 @ [e]) S"
    using values_at_put [OF assms, of m1] by (simp add: store_value_def map_set_last put_values_twice)
  then show ?case using Cons.IH [of "m1 @ [e]"] Cons.prems by simp
qed simp

definition add_section :: "bool \<Rightarrow> bytes \<Rightarrow> key_values \<Rightarrow> sections \<Rightarrow> sections" where
  "add_section ci k m S = \<lparr>smap = map_emplace ci k m (smap S), ordered = ordered S @ [k]\<rparr>"

lemma emplace_assign: "entries ci m (fold_key ci k) = None \<Longrightarrow> map_assign ci k b (map_emplace ci k a m) = map_emplace ci k b m"
  by (induction ci k a m rule: map_emplace.induct) (auto simp: entries_None same_key_fold)

lemma load_section:
  assumes "sections_ok ci S" "\<forall>e \<in> set (smap S). fold_key ci (fst e) \<noteq> fold_key ci k" "map_ok False m"
  shows "fold (\<lambda>e. store_value ci k (fst e) (snd e)) m (fst (Ensure ci S k)) = add_section ci k m S"
    "sections_ok ci (add_section ci k m S)" "set (smap (add_section ci k m S)) = insert (k, m) (set (smap S))"
proof -
  let ?S = "fst (Ensure ci S k)"
  have n: "entries ci (smap S) (fold_key ci k) = None" using assms(2) by (simp add: entries_None)
  note e = Ensure_new [OF assms(1,2)]
  obtain v where f: "map_find ci (smap ?S) k = Some (k, v)"
    using Ensure_ok(2) [OF assms(1), of k] unfolding e(1) by auto
  have "put_values ci k [] ?S = ?S"
    unfolding e(1) by (simp add: put_values_def emplace_assign [OF n])
  then have "fold (\<lambda>e. store_value ci k (fst e) (snd e)) m ?S = put_values ci k m ?S"
    using put_values_in_order [OF f, of "[]" m] assms(3) by simp
  also have p: "put_values ci k m ?S = add_section ci k m S"
    unfolding e(1) by (simp add: put_values_def add_section_def emplace_assign [OF n])
  finally show "fold (\<lambda>e. store_value ci k (fst e) (snd e)) m ?S = add_section ci k m S" .
  show s: "set (smap (add_section ci k m S)) = insert (k, m) (set (smap S))" using set_emplace [OF n] by (simp add: add_section_def)
  have "k \<in> fst ` set (smap ?S)" using entries_range f unfolding map_find_entries by force
  then show "sections_ok ci (add_section ci k m S)" using put_values_ok [OF e(2) _ assms(3), of k] p by metis
qed

definition section_lines :: "bytes \<times> key_values \<Rightarrow> bytes list" where
  "section_lines e = section_line (fst e) # map value_line (snd e) @ [[]]"

abbreviation full_provider :: "bool \<Rightarrow> sections \<Rightarrow> bytes \<Rightarrow> sections \<times> bytes option" where
  "full_provider ci \<equiv> \<lambda>S name. if wanted ci None name then map_prod id Some (Ensure ci S name) else (S, None)"

lemma load_sections:
  "sections_ok ci (store L) \<Longrightarrow> distinct (map (fold_key ci \<circ> fst) es) \<Longrightarrow> \<forall>e \<in> set es. map_ok False (snd e) \<Longrightarrow>
    \<forall>e \<in> set (smap (store L)). fold_key ci (fst e) \<notin> fold_key ci ` fst ` set es \<Longrightarrow>
    (let S = store (fold (load_line (full_provider ci) (store_value ci)) (concat (map section_lines es)) L) in
      sections_ok ci S \<and> ordered S = ordered (store L) @ map fst es \<and> set (smap S) = set es \<union> set (smap (store L)))"
proof (induction es arbitrary: L)
  case (Cons e es)
  obtain k m where e: "e = (k, m)" by (cases e)
  have fresh: "\<forall>e \<in> set (smap (store L)). fold_key ci (fst e) \<noteq> fold_key ci k" and m: "map_ok False m" using Cons.prems e by auto
  note ls = load_section [OF Cons.prems(1) fresh m]
  define L1 where "L1 = \<lparr>store = add_section ci k m (store L), vals = Some k, reached_named_section = True\<rparr>"
  obtain S1 where S1: "Ensure ci (store L) k = (S1, k)" using Ensure_new(1) [OF Cons.prems(1) fresh] by blast
  have "fold (\<lambda>e. store_value ci k (fst e) (snd e)) m S1 = add_section ci k m (store L)" using ls(1) S1 by simp
  then have "fold (load_line (full_provider ci) (store_value ci)) (section_lines e) L = L1"
    unfolding section_lines_def e by (simp add: load_section_line S1 load_value_lines load_empty_line wanted_def L1_def)
  moreover have "\<forall>e \<in> set (smap (store L1)). fold_key ci (fst e) \<notin> fold_key ci ` fst ` set es"
  proof -
    have "fold_key ci k \<notin> fold_key ci ` fst ` set es" using Cons.prems(2) by (auto simp: e comp_def image_image)
    then show ?thesis using Cons.prems(4) ls(3) by (auto simp: L1_def)
  qed
  ultimately show ?case
    using Cons.IH [of L1] Cons.prems(2,3) ls(2,3) by (simp add: e L1_def Let_def add_section_def comp_def Un_commute)
qed simp

lemma section_texts_ok:
  assumes "sections_ok ci S"
  shows "set ks \<subseteq> set (ordered S) \<Longrightarrow>
    section_texts ci (smap S) ks = Some (map (\<lambda>k. section_text k (values_at ci S k)) ks)"
proof (induction ks)
  case (Cons k ks)
  then obtain m where "(k, m) \<in> set (smap S)" using sections_okD(3) [OF assms] by auto
  then have "map_find ci (smap S) k = Some (k, m)" by (rule find_member [OF sections_okD(1) [OF assms]])
  then show ?case using Cons by (simp add: values_at_def Find_def)
qed simp

lemma sections_eq:
  assumes "sections_ok ci S" "sections_ok ci S'" "ordered S = ordered S'" "set (smap S) = set (smap S')"
  shows "S = S'"
proof -
  have "entries ci (smap S) n = entries ci (smap S') n" for n
    using entries_iff [OF sections_okD(1) [OF assms(1)], of n] entries_iff [OF sections_okD(1) [OF assms(2)], of n] assms(4)
    by (metis option.exhaust)
  then have "smap S = smap S'" using entries_ext sections_okD(1) [OF assms(1)] sections_okD(1) [OF assms(2)] by blast
  then show ?thesis using assms(3) by simp
qed

lemma load_texts:
  assumes "sections_ok ci S"
  shows "\<exists>texts. section_texts ci (smap S) (ordered S) = Some texts \<and> read_helper ci None (concat texts) = S"
proof -
  let ?es = "map (\<lambda>k. (k, values_at ci S k)) (ordered S)"
  let ?texts = "map (\<lambda>k. section_text k (values_at ci S k)) (ordered S)"
  let ?L = "\<lparr>store = Sections, vals = None :: bytes option, reached_named_section = False\<rparr>"
  have v: "(k, values_at ci S k) \<in> set (smap S)" if k: "k \<in> set (ordered S)" for k
  proof -
    obtain m where "(k, m) \<in> set (smap S)" using k sections_okD(3) [OF assms] by auto
    moreover from this have "map_find ci (smap S) k = Some (k, m)" by (rule find_member [OF sections_okD(1) [OF assms]])
    ultimately show ?thesis by (simp add: values_at_def Find_def)
  qed
  have es: "set ?es = set (smap S)"
  proof (rule set_eqI)
    fix e
    show "e \<in> set ?es \<longleftrightarrow> e \<in> set (smap S)"
    proof
      assume e: "e \<in> set (smap S)"
      then have "fst e \<in> set (ordered S)" using sections_okD(3) [OF assms] by simp
      moreover from this have "snd e = values_at ci S (fst e)"
        using same_keys [OF assms, of "fst e" "snd e" "fst e" "values_at ci S (fst e)"] v e by simp
      ultimately have "e = (\<lambda>k. (k, values_at ci S k)) (fst e)" "fst e \<in> set (ordered S)" by (simp_all add: prod_eq_iff)
      then show "e \<in> set ?es" unfolding set_map by (rule image_eqI)
    qed (use v in auto)
  qed
  have "inj_on (fold_key ci) (set (ordered S))"
    using same_keys [OF assms] v by (meson inj_onI)
  then have d: "distinct (map (fold_key ci \<circ> fst) ?es)"
    using sections_okD(2) [OF assms] by (simp add: comp_def distinct_map)
  have lines: "concat (map (\<lambda>k. section_text k (g k)) ks) =
      concat (map (\<lambda>l. l @ [0x0a]) (concat (map section_lines (map (\<lambda>k. (k, g k)) ks))))" for g ks
    by (induction ks) (simp_all add: section_text_lines section_lines_def)
  have "\<forall>l \<in> set (concat (map section_lines ?es)). 0x0a \<notin> set l"
    using section_lines_clean by (fastforce simp: section_lines_def)
  then have f: "file_lines (concat ?texts) = concat (map section_lines ?es)" unfolding lines by (rule file_lines_concat)
  have m: "\<forall>e \<in> set ?es. map_ok False (snd e)" unfolding es using assms by (auto simp: sections_ok_def)
  have r: "read_helper ci None (concat ?texts) = store (fold (load_line (full_provider ci) (store_value ci)) (concat (map section_lines ?es)) ?L)"
    unfolding read_helper_def LoadKeyFile_def f ..
  have l: "sections_ok ci (store ?L)" "\<forall>e \<in> set (smap (store ?L)). fold_key ci (fst e) \<notin> fold_key ci ` fst ` set ?es"
    using Sections_ok by (simp_all add: Sections_def)
  have "sections_ok ci (read_helper ci None (concat ?texts))" "ordered (read_helper ci None (concat ?texts)) = map fst ?es"
    "set (smap (read_helper ci None (concat ?texts))) = set ?es"
    using load_sections [OF l(1) d m l(2)] unfolding r Let_def by (simp_all add: Sections_def del: set_map)
  then have "read_helper ci None (concat ?texts) = S"
    using sections_eq [OF _ assms] es by (simp add: comp_def del: set_map)
  then show ?thesis using section_texts_ok [OF assms] by blast
qed

section \<open>The operations on the abstract file\<close>

text \<open>
  The specification: a file is a function from the names of the sections, up to case if the file ignores it, to functions
  from keys to values.
\<close>

definition look :: "key_values \<Rightarrow> bytes \<Rightarrow> bytes option" where
  "look m name = map_option snd (map_find False m name)"

definition sections_view :: "bool \<Rightarrow> sections \<Rightarrow> int list \<Rightarrow> (bytes \<Rightarrow> bytes option) option" where
  "sections_view ci S n = map_option (look \<circ> snd) (entries ci (smap S) n)"

definition contents :: "key_file \<Rightarrow> int list \<Rightarrow> (bytes \<Rightarrow> bytes option) option" where
  "contents H = sections_view (case_insensitive H) (kf H)"

definition sec_name :: "key_file \<Rightarrow> bytes \<Rightarrow> int list" where
  "sec_name H = fold_key (case_insensitive H)"

lemma view_find: "sections_view ci S (fold_key ci sec) = map_option look (Find ci S sec)"
  by (simp add: sections_view_def Find_def map_find_entries option.map_comp comp_def)

lemma look_simps [simp]:
  "look [] = Map.empty"
  "map_ok False m \<Longrightarrow> map_find False m name = None \<Longrightarrow> look (map_emplace False name v m) = (look m)(name \<mapsto> v)"
  "map_ok False m \<Longrightarrow> map_find False m name \<noteq> None \<Longrightarrow> look (map_assign False name v m) = (look m)(name \<mapsto> v)"
  "map_ok False m \<Longrightarrow> look (map_erase False name m) = (look m)(name := None)"
  by (auto simp: look_def map_find_entries entries_emplace entries_assign entries_erase fun_eq_iff)

lemma view_Ensure:
  "sections_ok ci S \<Longrightarrow> sections_view ci (fst (Ensure ci S sec)) =
    (if sections_view ci S (fold_key ci sec) = None then (sections_view ci S)(fold_key ci sec \<mapsto> Map.empty) else sections_view ci S)"
  by (auto simp: Ensure_def sections_view_def map_find_entries entries_emplace sections_okD(1) fun_eq_iff split: option.splits)

lemma view_put:
  assumes "sections_ok ci S" "map_find ci (smap S) sec = Some (k, m0)"
  shows "sections_view ci (put_values ci k m S) = (sections_view ci S)(fold_key ci sec \<mapsto> look m)"
  using found [OF assms] by (auto simp: sections_view_def put_values_def entries_assign sections_okD(1) [OF assms(1)] fun_eq_iff)

lemma SetString_parts:
  assumes "sections_ok ci S" "Ensure ci S sec = (S1, k)"
  obtains m where "sections_ok ci S1" "map_find ci (smap S1) sec = Some (k, m)" "values_at ci S1 k = m" "map_ok False m"
    "k \<in> fst ` set (smap S1)"
proof -
  have s: "sections_ok ci S1" using Ensure_ok(1) [OF assms(1), of sec] assms(2) by simp
  obtain m where f: "map_find ci (smap S1) sec = Some (k, m)" using Ensure_ok(2) [OF assms(1), of sec] assms(2) by auto
  note p = found [OF s f]
  have "values_at ci S1 k = m" using find_member [OF sections_okD(1) [OF s] p(1)] by (simp add: values_at_def Find_def)
  then show ?thesis using that s f p(1,3) by force
qed

lemma SetString_view:
  assumes "file_ok H"
  shows "file_ok (SetString sec name val H)"
    "contents (SetString sec name val H) = (contents H)(sec_name H sec \<mapsto>
      (case contents H (sec_name H sec) of None \<Rightarrow> [name \<mapsto> val] | Some f \<Rightarrow> f(name \<mapsto> val)))"
proof -
  let ?ci = "case_insensitive H"
  obtain S1 k where E: "Ensure ?ci (kf H) sec = (S1, k)" by (metis prod.exhaust)
  obtain m where m: "sections_ok ?ci S1" "map_find ?ci (smap S1) sec = Some (k, m)" "values_at ?ci S1 k = m" "map_ok False m"
    "k \<in> fst ` set (smap S1)" using SetString_parts [OF _ E] assms by (auto simp: file_ok_def)
  have v: "sections_view ?ci S1 = (if contents H (sec_name H sec) = None then (contents H)(sec_name H sec \<mapsto> Map.empty) else contents H)"
    using view_Ensure [of ?ci "kf H" sec] assms E by (simp add: file_ok_def contents_def sec_name_def)
  have vm: "sections_view ?ci S1 (sec_name H sec) = Some (look m)" using m(2) by (simp add: sec_name_def view_find Find_def)
  consider (new) "map_find False m name = None" | (same) k' where "map_find False m name = Some (k', val)"
    | (old) k' v' where "map_find False m name = Some (k', v')" "v' \<noteq> val" by fastforce
  then have "\<exists>d S2. SetString sec name val H = H\<lparr>kf := S2, dirty := d\<rparr> \<and> sections_ok ?ci S2 \<and>
      sections_view ?ci S2 = (sections_view ?ci S1)(sec_name H sec \<mapsto> (look m)(name \<mapsto> val))"
  proof cases
    case new
    show ?thesis
      using view_put [OF m(1,2)] put_values_ok [OF m(1,5)] map_ok_emplace [OF m(4)] new m(3,4)
      by (intro exI [of _ True] exI [of _ "put_values ?ci k (map_emplace False name val m) S1"])
        (simp add: SetString_def E sec_name_def)
  next
    case same
    have "look m name = Some val" using same by (simp add: look_def)
    then show ?thesis using same m(1,3) vm
      by (intro exI [of _ "dirty H"] exI [of _ S1]) (simp add: SetString_def E fun_upd_idem)
  next
    case old
    show ?thesis
      using view_put [OF m(1,2)] put_values_ok [OF m(1,5)] map_ok_assign [OF m(4)] old m(3,4)
      by (intro exI [of _ True] exI [of _ "put_values ?ci k (map_assign False name val m) S1"])
        (simp add: SetString_def E sec_name_def)
  qed
  then obtain d S2 where S2: "SetString sec name val H = H\<lparr>kf := S2, dirty := d\<rparr>" "sections_ok ?ci S2"
    "sections_view ?ci S2 = (sections_view ?ci S1)(sec_name H sec \<mapsto> (look m)(name \<mapsto> val))" by blast
  show "file_ok (SetString sec name val H)" using S2(1,2) by (simp add: file_ok_def)
  have "look m = (case contents H (sec_name H sec) of None \<Rightarrow> Map.empty | Some f \<Rightarrow> f)"
    using vm v by (auto split: option.splits if_splits)
  then show "contents (SetString sec name val H) = (contents H)(sec_name H sec \<mapsto>
      (case contents H (sec_name H sec) of None \<Rightarrow> [name \<mapsto> val] | Some f \<Rightarrow> f(name \<mapsto> val)))"
    using S2(1,3) v by (auto simp: contents_def split: option.splits)
qed

lemma RemoveKey_view:
  assumes "file_ok H"
  shows "file_ok (RemoveKey sec name H)"
    "contents (RemoveKey sec name H) = (case contents H (sec_name H sec) of None \<Rightarrow> contents H
      | Some f \<Rightarrow> (contents H)(sec_name H sec \<mapsto> f(name := None)))"
proof -
  let ?ci = "case_insensitive H"
  have s: "sections_ok ?ci (kf H)" using assms by (simp add: file_ok_def)
  have "file_ok (RemoveKey sec name H) \<and> contents (RemoveKey sec name H) = (case contents H (sec_name H sec) of None \<Rightarrow> contents H
      | Some f \<Rightarrow> (contents H)(sec_name H sec \<mapsto> f(name := None)))"
  proof (cases "map_find ?ci (smap (kf H)) sec")
    case None
    then show ?thesis using assms by (simp add: RemoveKey_def contents_def sec_name_def view_find Find_def)
  next
    case (Some e)
    obtain k m where e: "e = (k, m)" by (cases e)
    note p = found [OF s Some [unfolded e]]
    have c: "contents H (sec_name H sec) = Some (look m)" using Some e by (simp add: contents_def sec_name_def view_find Find_def)
    show ?thesis
    proof (cases "map_find False m name")
      case None
      then have "(look m)(name := None) = look m" by (simp add: look_def fun_upd_idem)
      then show ?thesis using Some e c assms None by (simp add: RemoveKey_def fun_upd_idem)
    next
      case (Some x)
      have "k \<in> fst ` set (smap (kf H))" using p(1) by force
      then show ?thesis
        using put_values_ok [OF s, of k "map_erase False name m"] map_ok_erase [OF p(3)]
          view_put [OF s \<open>map_find ?ci (smap (kf H)) sec = Some e\<close> [unfolded e], of "map_erase False name m"]
          \<open>map_find ?ci (smap (kf H)) sec = Some e\<close> Some e c p(3)
        by (simp add: RemoveKey_def file_ok_def contents_def sec_name_def)
    qed
  qed
  then show "file_ok (RemoveKey sec name H)"
    "contents (RemoveKey sec name H) = (case contents H (sec_name H sec) of None \<Rightarrow> contents H
      | Some f \<Rightarrow> (contents H)(sec_name H sec \<mapsto> f(name := None)))" by blast+
qed

text \<open>Erasing the entry of an iterator from the map and from the vector.\<close>

lemma erase_section:
  assumes "sections_ok ci S" "(k, m) \<in> set (smap S)"
  obtains i where "FindInVec (ordered S) k = Some i" "sections_ok ci \<lparr>smap = map_erase ci k (smap S), ordered = remove_at i (ordered S)\<rparr>"
    "sections_view ci \<lparr>smap = map_erase ci k (smap S), ordered = remove_at i (ordered S)\<rparr> = (sections_view ci S)(fold_key ci k := None)"
    "i < length (ordered S)" "ordered S ! i = k"
proof -
  have "k \<in> set (ordered S)" using sections_okD(3) [OF assms(1)] assms(2) by force
  then obtain i where i: "FindInVec (ordered S) k = Some i" "i < length (ordered S)" "ordered S ! i = k"
    using FindInVec_Some by blast
  note o = sections_okD [OF assms(1)]
  have "fst ` set (map_erase ci k (smap S)) = fst ` set (smap S) - {k}"
    using same_keys [OF assms(1) assms(2)] unfolding set_erase [OF o(1)] by force
  then have "sections_ok ci \<lparr>smap = map_erase ci k (smap S), ordered = remove_at i (ordered S)\<rparr>"
    using set_remove_at [OF o(2) i(2)] i(3) map_ok_erase [OF o(1), of k] o(3) assms(1) by (auto simp: sections_ok_def)
  moreover have "sections_view ci \<lparr>smap = map_erase ci k (smap S), ordered = remove_at i (ordered S)\<rparr> = (sections_view ci S)(fold_key ci k := None)"
    by (auto simp: sections_view_def entries_erase [OF o(1)] fun_eq_iff)
  ultimately show ?thesis using that i by blast
qed

lemma RemoveSection_view:
  assumes "file_ok H"
  obtains H' where "RemoveSection sec H = Some (contents H (sec_name H sec) \<noteq> None, H')" "file_ok H'"
    "contents H' = (contents H)(sec_name H sec := None)" "case_insensitive H' = case_insensitive H"
proof -
  let ?ci = "case_insensitive H"
  have s: "sections_ok ?ci (kf H)" using assms by (simp add: file_ok_def)
  show ?thesis
  proof (cases "map_find ?ci (smap (kf H)) sec")
    case None
    then have "contents H (sec_name H sec) = None" by (simp add: contents_def sec_name_def view_find Find_def)
    then show ?thesis using that [of H] None assms by (simp add: RemoveSection_def Remove_def fun_upd_idem)
  next
    case (Some e)
    obtain k m where e: "e = (k, m)" by (cases e)
    note p = found [OF s Some [unfolded e]]
    obtain i where i: "FindInVec (ordered (kf H)) k = Some i"
      "sections_ok ?ci \<lparr>smap = map_erase ?ci k (smap (kf H)), ordered = remove_at i (ordered (kf H))\<rparr>"
      "sections_view ?ci \<lparr>smap = map_erase ?ci k (smap (kf H)), ordered = remove_at i (ordered (kf H))\<rparr> = (sections_view ?ci (kf H))(fold_key ?ci k := None)"
      using erase_section [OF s p(1)] by blast
    have "contents H (sec_name H sec) \<noteq> None" using Some by (simp add: contents_def sec_name_def view_find Find_def)
    then show ?thesis
      using that [of "H\<lparr>kf := \<lparr>smap = map_erase ?ci k (smap (kf H)), ordered = remove_at i (ordered (kf H))\<rparr>, dirty := True\<rparr>"] Some e i p(2)
      by (simp add: RemoveSection_def Remove_def file_ok_def contents_def sec_name_def)
  qed
qed

end
