(* ===== verification/KeyOps.thy ===== *)
theory KeyOps
  imports KeyFile
begin

text \<open>
  Renaming and removing sections, loading any text, and saving: the properties of the key files of
  \<^verbatim>\<open>utils/src/KeyFileHelper.cpp\<close>, modelled in \<^theory_text>\<open>KeyFile\<close>.
\<close>

section \<open>Renaming\<close>

lemma Rename_fresh:
  assumes "sections_ok ci S" "sections_view ci S (fold_key ci dst) = None" "map_find ci (smap S) src = Some (k, m)"
  obtains S' where "Rename ci src dst S = Some (True, S')" "sections_ok ci S'"
    "sections_view ci S' = (sections_view ci S)(fold_key ci src := None, fold_key ci dst \<mapsto> look m)"
proof -
  note o = sections_okD [OF assms(1)] and p = found [OF assms(1,3)]
  have n: "entries ci (smap S) (fold_key ci dst) = None" using assms(2) by (simp add: sections_view_def)
  obtain i where i: "FindInVec (ordered S) k = Some i" "i < length (ordered S)" "ordered S ! i = k"
    using FindInVec_Some p(4) by blast
  let ?M = "map_emplace ci dst m (smap S)"
  have M: "map_ok ci ?M" "set ?M = insert (dst, m) (set (smap S))" using map_ok_emplace [OF o(1), of dst m] set_emplace [OF n] by simp_all
  have f: "map_find ci (map_emplace ci dst [] (smap S)) dst = Some (dst, [])"
    using entries_emplace [OF o(1)] n by (simp add: map_find_entries)
  have ne: "fold_key ci dst \<noteq> fold_key ci k" using n p(2,5) by auto
  let ?S = "\<lparr>smap = map_erase ci k ?M, ordered = (ordered S)[i := dst]\<rparr>"
  have ea: "map_assign ci dst m (map_emplace ci dst [] (smap S)) = ?M" by (rule emplace_assign [OF n])
  have "Rename ci src dst S = Some (True, ?S)"
    using ne by (simp add: Rename_def assms(3) i(1) f ea) (metis ne)
  moreover have "sections_ok ci ?S"
  proof -
    have "dst \<notin> set (ordered S)"
    proof
      assume "dst \<in> set (ordered S)"
      then obtain v where "(dst, v) \<in> set (smap S)" using o(3) by auto
      then show False using n unfolding entries_None by fastforce
    qed
    then have d: "distinct ((ordered S)[i := dst])" "set ((ordered S)[i := dst]) = insert dst (set (ordered S) - {k})"
      using o(2) i(2,3) by (simp_all add: distinct_list_update set_update_distinct)
    have k: "fold_key ci (fst e) \<noteq> fold_key ci k \<longleftrightarrow> e \<noteq> (k, m)" if "e \<in> set (smap S)" for e
      using same_keys [OF assms(1), of "fst e" "snd e" k m] that p(1) by auto
    have e: "set (map_erase ci k ?M) = insert (dst, m) (set (smap S) - {(k, m)})"
      unfolding set_erase [OF M(1)] M(2) using k ne by auto
    have "fst ` (set (smap S) - {(k, m)}) = fst ` set (smap S) - {k}"
      using same_keys [OF assms(1) p(1)] by force
    then have "fst ` set (map_erase ci k ?M) = insert dst (fst ` set (smap S) - {k})" unfolding e by simp
    moreover have "\<forall>(x, v) \<in> set (map_erase ci k ?M). map_ok False v" unfolding e using o(4) p(3) by auto
    moreover have "map_ok ci (map_erase ci k ?M)" using map_ok_erase M(1) by blast
    ultimately show ?thesis unfolding sections_ok_def using d o(3) by simp
  qed
  moreover have "sections_view ci ?S = (sections_view ci S)(fold_key ci src := None, fold_key ci dst \<mapsto> look m)"
    using ne n p(2) by (auto simp: sections_view_def entries_erase [OF M(1)] entries_emplace [OF o(1)] fun_eq_iff)
  ultimately show ?thesis using that by blast
qed

lemma rename_step_view:
  assumes "file_ok H" "contents H (sec_name H dst) = None"
  obtains H' where "rename_step src dst H = Some H'" "file_ok H'" "case_insensitive H' = case_insensitive H"
    "contents H' = (case contents H (sec_name H src) of None \<Rightarrow> contents H
      | Some f \<Rightarrow> (contents H)(sec_name H src := None, sec_name H dst \<mapsto> f))"
proof -
  let ?ci = "case_insensitive H"
  have s: "sections_ok ?ci (kf H)" "sections_view ?ci (kf H) (fold_key ?ci dst) = None"
    using assms by (simp_all add: file_ok_def contents_def sec_name_def)
  show ?thesis
  proof (cases "map_find ?ci (smap (kf H)) src")
    case None
    then have "contents H (sec_name H src) = None" by (simp add: contents_def sec_name_def view_find Find_def)
    then show ?thesis using that [of H] None assms(1) by (simp add: rename_step_def Rename_def)
  next
    case (Some e)
    obtain k m where e: "e = (k, m)" by (cases e)
    obtain S' where S': "Rename ?ci src dst (kf H) = Some (True, S')" "sections_ok ?ci S'"
      "sections_view ?ci S' = (sections_view ?ci (kf H))(fold_key ?ci src := None, fold_key ?ci dst \<mapsto> look m)"
      using Rename_fresh [OF s Some [unfolded e]] by blast
    have "contents H (sec_name H src) = Some (look m)" using Some e by (simp add: contents_def sec_name_def view_find Find_def)
    then show ?thesis using that [of "H\<lparr>kf := S', dirty := True\<rparr>"] S'
      by (simp add: rename_step_def file_ok_def contents_def sec_name_def)
  qed
qed

section \<open>Removing the sections below a name\<close>

definition below_prefix :: "bytes \<Rightarrow> bytes \<Rightarrow> bool" where
  "below_prefix prefix k \<longleftrightarrow> length k > length prefix \<and> take (length prefix) k = prefix"

lemma remove_at_loop_view:
  "sections_ok ci S \<Longrightarrow> set ks \<subseteq> fst ` set (smap S) \<Longrightarrow> distinct (map (fold_key ci) ks) \<Longrightarrow>
    \<exists>n S'. remove_at_loop ci prefix ks out S = Some (n, S') \<and> sections_ok ci S' \<and>
      sections_view ci S' = (\<lambda>x. if \<exists>k \<in> set ks. below_prefix prefix k \<and> fold_key ci k = x then None else sections_view ci S x) \<and>
      (n = out \<longrightarrow> S' = S) \<and> out \<le> n"
proof (induction ks arbitrary: out S)
  case (Cons k ks)
  show ?case
  proof (cases "below_prefix prefix k")
    case False
    then show ?thesis using Cons by (auto simp: below_prefix_def)
  next
    case True
    obtain m where m: "(k, m) \<in> set (smap S)" using Cons.prems(2) by auto
    obtain i where i: "FindInVec (ordered S) k = Some i"
      "sections_ok ci \<lparr>smap = map_erase ci k (smap S), ordered = remove_at i (ordered S)\<rparr>"
      "sections_view ci \<lparr>smap = map_erase ci k (smap S), ordered = remove_at i (ordered S)\<rparr> = (sections_view ci S)(fold_key ci k := None)"
      using erase_section [OF Cons.prems(1) m] by blast
    let ?S = "\<lparr>smap = map_erase ci k (smap S), ordered = remove_at i (ordered S)\<rparr>"
    have "set ks \<subseteq> fst ` set (smap ?S)"
    proof
      fix x
      assume x: "x \<in> set ks"
      then obtain v where "(x, v) \<in> set (smap S)" using Cons.prems(2) by auto
      moreover have "fold_key ci x \<noteq> fold_key ci k"
      proof
        assume "fold_key ci x = fold_key ci k"
        then have "fold_key ci k \<in> fold_key ci ` set ks" using x by (metis image_eqI)
        then show False using Cons.prems(3) by simp
      qed
      ultimately have "(x, v) \<in> set (smap ?S)" by (simp add: set_erase [OF sections_okD(1) [OF Cons.prems(1)]])
      then show "x \<in> fst ` set (smap ?S)" by force
    qed
    from Cons.IH [OF i(2) this, of "out + 1"] Cons.prems(3) obtain n S' where
      S': "remove_at_loop ci prefix ks (out + 1) ?S = Some (n, S')" "sections_ok ci S'" "out + 1 \<le> n"
        "sections_view ci S' = (\<lambda>x. if \<exists>k \<in> set ks. below_prefix prefix k \<and> fold_key ci k = x then None else sections_view ci ?S x)" by auto
    have "sections_view ci S' = (\<lambda>x. if \<exists>k \<in> set (k # ks). below_prefix prefix k \<and> fold_key ci k = x then None else sections_view ci S x)"
      unfolding S'(4) i(3) using True by (auto simp: fun_eq_iff)
    then show ?thesis using S'(1-3) True i(1) by (simp add: below_prefix_def)
  qed
qed simp

lemma RemoveSectionsAt_view:
  assumes "file_ok H"
  obtains n H' where "RemoveSectionsAt parent H = Some (n, H')" "file_ok H'" "case_insensitive H' = case_insensitive H"
    "contents H' = (\<lambda>x. if \<exists>k \<in> fst ` set (smap (kf H)). below_prefix (section_prefix parent) k \<and> sec_name H k = x then None
       else contents H x)"
proof -
  let ?ci = "case_insensitive H"
  have s: "sections_ok ?ci (kf H)" using assms by (simp add: file_ok_def)
  have "distinct (map (fold_key ?ci) (map fst (smap (kf H))))"
    using sections_okD(1) [OF s] by (simp add: map_ok_def strict_sorted_iff)
  from remove_at_loop_view [OF s _ this, of "section_prefix parent" 0] obtain n S' where
    S': "RemoveAt ?ci (section_prefix parent) (kf H) = Some (n, S')" "sections_ok ?ci S'" "n = 0 \<longrightarrow> S' = kf H"
      "sections_view ?ci S' = (\<lambda>x. if \<exists>k \<in> fst ` set (smap (kf H)). below_prefix (section_prefix parent) k \<and> fold_key ?ci k = x then None
         else sections_view ?ci (kf H) x)" by (auto simp: RemoveAt_def)
  show ?thesis
  proof (cases "n = 0")
    case True
    then have e: "RemoveSectionsAt parent H = Some (n, H\<lparr>kf := S'\<rparr>)" using S'(1) by (simp add: RemoveSectionsAt_def)
    show ?thesis by (rule that [OF e]) (use S'(2,4) in \<open>simp_all add: file_ok_def contents_def sec_name_def cong: if_cong\<close>)
  next
    case False
    then have e: "RemoveSectionsAt parent H = Some (n, H\<lparr>kf := S', dirty := True\<rparr>)" using S'(1) by (simp add: RemoveSectionsAt_def)
    show ?thesis by (rule that [OF e]) (use S'(2,4) in \<open>simp_all add: file_ok_def contents_def sec_name_def cong: if_cong\<close>)
  qed
qed

section \<open>Loading any text\<close>

definition loader_ok :: "bool \<Rightarrow> (sections, bytes) loader \<Rightarrow> bool" where
  "loader_ok ci L \<longleftrightarrow> sections_ok ci (store L) \<and> (\<forall>k. vals L = Some k \<longrightarrow> k \<in> fst ` set (smap (store L)))"

lemma Ensure_key: "sections_ok ci S \<Longrightarrow> Ensure ci S name = (S', k) \<Longrightarrow> sections_ok ci S' \<and> k \<in> fst ` set (smap S')"
  using SetString_parts [of ci S name S' k] by metis

lemma store_value_ok:
  assumes "sections_ok ci S" "k \<in> fst ` set (smap S)"
  shows "sections_ok ci (store_value ci k key val S)" "fst ` set (smap (store_value ci k key val S)) = fst ` set (smap S)"
proof -
  obtain m where m: "(k, m) \<in> set (smap S)" using assms(2) by auto
  have "values_at ci S k = m" using find_member [OF sections_okD(1) [OF assms(1)] m] by (simp add: values_at_def Find_def)
  then have "map_ok False (values_at ci S k)" using sections_okD(4) [OF assms(1) m] by simp
  then show "sections_ok ci (store_value ci k key val S)"
    unfolding store_value_def by (intro put_values_ok [OF assms] map_ok_set)
  show "fst ` set (smap (store_value ci k key val S)) = fst ` set (smap S)"
    using arg_cong [OF fst_assign [of ci k "map_set False key val (values_at ci S k)" "smap S"], of set]
    by (simp add: store_value_def put_values_def)
qed

lemma load_line_keeps:
  assumes "\<And>L S v r name. I L \<Longrightarrow> prov (store L) name = (S, v) \<Longrightarrow> I (L\<lparr>store := S, vals := v, reached_named_section := r\<rparr>)"
    and put: "\<And>L v key val. I L \<Longrightarrow> vals L = Some v \<Longrightarrow> I (L\<lparr>store := put v key val (store L)\<rparr>)"
    and L: "I L"
  shows "I (load_line prov put line L)"
proof -
  have prov: "I (L'\<lparr>store := S, vals := v\<rparr>)" if "I L'" "prov (store L') name = (S, v)" for L' name S v
    using assms(1) [OF that, of "reached_named_section L'"] by simp
  define L1 where "L1 = (if vals L = None \<and> \<not> reached_named_section L then
    let (S, v) = prov (store L) [] in L\<lparr>store := S, vals := v\<rparr> else L)"
  have L1: "I L1" using prov [OF L] L unfolding L1_def by (auto split: prod.splits)
  have p: "I (case prov (store L) name of (S, v) \<Rightarrow> L\<lparr>store := S, vals := v, reached_named_section := True\<rparr>)" for name
    using assms(1) [OF L] by (cases "prov (store L) name") simp
  have q: "I (case vals L1 of None \<Rightarrow> L1 | Some v \<Rightarrow> L1\<lparr>store := put v key val (store L1)\<rparr>)" for key val
    using put [OF L1] L1 by (cases "vals L1") simp_all
  show ?thesis
    unfolding load_line_def Let_def L1_def [unfolded Let_def, symmetric] using L p q by (simp split: option.split)
qed

lemma load_line_ok:
  assumes "loader_ok ci L"
  shows "loader_ok ci (load_line (\<lambda>S name. if wanted ci only name then map_prod id Some (Ensure ci S name) else (S, None)) (store_value ci) line L)"
proof (rule load_line_keeps [where I = "loader_ok ci", OF _ _ assms])
  fix L :: "(sections, bytes) loader" and S v r name
  assume l: "loader_ok ci L"
    and p: "(if wanted ci only name then map_prod id Some (Ensure ci (store L) name) else (store L, None)) = (S, v)"
  show "loader_ok ci (L\<lparr>store := S, vals := v, reached_named_section := r\<rparr>)"
  proof (cases "wanted ci only name")
    case True
    obtain S' k where E: "Ensure ci (store L) name = (S', k)" by (metis prod.exhaust)
    then have "S = S'" "v = Some k" using p True by simp_all
    then show ?thesis using Ensure_key [OF _ E] l by (simp add: loader_ok_def)
  next
    case False
    then show ?thesis using p l by (simp add: loader_ok_def)
  qed
qed (use store_value_ok in \<open>auto simp: loader_ok_def\<close>)

lemma read_helper_ok: "sections_ok ci (read_helper ci only content)"
proof -
  have "loader_ok ci (fold (load_line (\<lambda>S name. if wanted ci only name then map_prod id Some (Ensure ci S name) else (S, None)) (store_value ci)) ls L)"
    if "loader_ok ci L" for ls L
    using that by (induction ls arbitrary: L) (simp_all add: load_line_ok)
  then show ?thesis using Sections_ok by (simp add: read_helper_def LoadKeyFile_def loader_ok_def)
qed

section \<open>Saving\<close>

lemma concat_save_chunks: "concat (save_chunks content ts) = content @ concat ts"
  by (induction content ts rule: save_chunks.induct) (auto simp: Let_def)

lemma write_chunks_ok:
  "write_chunks sys i cs = (ok, data) \<Longrightarrow> (ok \<longrightarrow> data = concat cs) \<and>
    ((\<forall>j. length (concat cs) \<le> written sys j) \<longrightarrow> ok)"
proof (induction cs arbitrary: i ok data)
  case (Cons c cs)
  obtain ok' rest where w: "write_chunks sys (i + 1) cs = (ok', rest)" by (metis prod.exhaust)
  note ih = Cons.IH [OF w]
  show ?case
  proof (cases "written sys i < length c")
    case True
    then have "\<not> length (concat (c # cs)) \<le> written sys i" by simp
    then show ?thesis using True Cons.prems by (auto simp del: concat.simps)
  next
    case False
    then have "ok = ok'" "data = c @ rest" using Cons.prems w by simp_all
    moreover have "(\<forall>j. length (concat (c # cs)) \<le> written sys j) \<longrightarrow> (\<forall>j. length (concat cs) \<le> written sys j)"
      by (auto intro: order_trans [OF le_add2])
    ultimately show ?thesis using ih by auto
  qed
qed simp

lemma section_texts_dangling: "k \<in> set ks \<Longrightarrow> map_find ci m k = None \<Longrightarrow> section_texts ci m ks = None"
  by (induction ks) (auto split: option.splits Option.bind_splits)

text \<open>The two outcomes of \<open>Save\<close>.\<close>

lemma Save_outcomes:
  assumes "only_if_dirty \<longrightarrow> dirty H" "section_texts (case_insensitive H) (smap (kf H)) (ordered (kf H)) = Some texts"
  obtains (saved) "Save sys tmp only_if_dirty H fs = Some (True, H\<lparr>dirty := False\<rparr>, fs(tmp := None, filename H \<mapsto> concat texts))"
  | (failed) fs' where "Save sys tmp only_if_dirty H fs = Some (False, H, fs')" "\<forall>path. path \<noteq> tmp \<longrightarrow> fs' path = fs path"
    "\<not> (create_ok sys \<and> rename_ok sys \<and> (\<forall>i. length (concat texts) \<le> written sys i))"
proof -
  obtain ok data where w: "write_chunks sys 0 (save_chunks [] texts) = (ok, data)" by (metis prod.exhaust)
  have o: "ok \<longrightarrow> data = concat texts" "(\<forall>j. length (concat texts) \<le> written sys j) \<longrightarrow> ok"
    using write_chunks_ok [OF w] by (simp_all add: concat_save_chunks)
  have rm: "\<forall>path. path \<noteq> tmp \<longrightarrow> remove_file sys tmp g path = g path" for g by (simp add: remove_file_def)
  show ?thesis
  proof (cases "create_ok sys \<and> ok \<and> rename_ok sys")
    case True
    then have "Save sys tmp only_if_dirty H fs = Some (True, H\<lparr>dirty := False\<rparr>, fs(tmp := None, filename H \<mapsto> concat texts))"
      using assms w o(1) by (auto simp: Save_def)
    then show ?thesis by (rule saved)
  next
    case False
    let ?fs = "if create_ok sys then fs(tmp \<mapsto> data) else fs"
    have "Save sys tmp only_if_dirty H fs = Some (False, H, remove_file sys tmp ?fs)"
      using False assms w by (auto simp: Save_def)
    moreover have "\<forall>path. path \<noteq> tmp \<longrightarrow> remove_file sys tmp ?fs path = fs path" using rm [of ?fs] by simp
    ultimately show ?thesis using failed False o(2) by metis
  qed
qed

section \<open>Renaming onto another section\<close>

lemma Rename_taken:
  assumes "sections_ok ci S" "map_find ci (smap S) src = Some (k, m)" "map_find ci (smap S) dst = Some (k1, m1)" "k1 \<noteq> k"
  obtains S' i j where "Rename ci src dst S = Some (True, S')" "i \<noteq> j" "i < length (ordered S')" "j < length (ordered S')"
    "ordered S' ! i = k1" "ordered S' ! j = k1" "map_find ci (smap S') dst = Some (k1, m)" "map_ok ci (smap S')"
proof -
  note o = sections_okD [OF assms(1)] and p = found [OF assms(1,2)] and q = found [OF assms(1,3)]
  obtain i where i: "FindInVec (ordered S) k = Some i" "i < length (ordered S)" "ordered S ! i = k"
    using FindInVec_Some p(4) by blast
  obtain j where j: "j < length (ordered S)" "ordered S ! j = k1" using q(4) by (auto simp: in_set_conv_nth)
  have ij: "i \<noteq> j" using i(3) j(2) assms(4) by auto
  have e: "map_emplace ci dst [] (smap S) = smap S"
    by (rule str.look_ext [of ci]) (simp_all add: o(1) map_ok_emplace entries_emplace q(5))
  let ?M = "map_assign ci k1 m (smap S)"
  let ?S = "\<lparr>smap = map_erase ci k ?M, ordered = (ordered S)[i := k1]\<rparr>"
  have M: "map_ok ci ?M" by (rule map_ok_assign [OF o(1)])
  have k: "fold_key ci k1 \<noteq> fold_key ci k"
    using same_keys [OF assms(1) q(1) p(1)] assms(4) by blast
  have "entries ci (map_erase ci k ?M) (fold_key ci dst) = Some (k1, m)"
    using k q(2,5) by (simp add: entries_erase [OF M] entries_assign [OF o(1)])
  moreover have "Rename ci src dst S = Some (True, ?S)"
    using assms(4) by (simp add: Rename_def assms(2,3) i(1) e)
  ultimately show ?thesis
    using that [of ?S i j] ij i(2) j map_ok_erase [OF M] by (simp add: map_find_entries)
qed

lemma Remove_one_of_two:
  assumes "map_ok ci (smap S)" "map_find ci (smap S) name = Some (k, m)" "i \<noteq> j" "i < length (ordered S)" "j < length (ordered S)"
    "ordered S ! i = k" "ordered S ! j = k"
  obtains S' where "Remove ci name S = Some (True, S')" "k \<in> set (ordered S')" "map_find ci (smap S') k = None"
proof -
  have "k \<in> set (ordered S)" using assms(4,6) by auto
  then obtain l where l: "FindInVec (ordered S) k = Some l" "l < length (ordered S)" using FindInVec_Some by blast
  let ?S = "\<lparr>smap = map_erase ci k (smap S), ordered = remove_at l (ordered S)\<rparr>"
  have "k \<in> set (remove_at l (ordered S))"
  proof -
    obtain n where n: "n \<noteq> l" "n < length (ordered S)" "ordered S ! n = k" using assms(3-7) by metis
    show ?thesis
    proof (cases "n < l")
      case True
      then have "take l (ordered S) ! n = k" "n < length (take l (ordered S))" using n l(2) by simp_all
      then have "k \<in> set (take l (ordered S))" by (metis nth_mem)
      then show ?thesis by (simp add: remove_at_def)
    next
      case False
      then have "drop (l + 1) (ordered S) ! (n - (l + 1)) = k" "n - (l + 1) < length (drop (l + 1) (ordered S))" using n by simp_all
      then have "k \<in> set (drop (l + 1) (ordered S))" by (metis nth_mem)
      then show ?thesis by (simp add: remove_at_def)
    qed
  qed
  moreover have "map_find ci (smap ?S) k = None" using entries_erase [OF assms(1)] by (simp add: map_find_entries)
  ultimately show ?thesis using that [of ?S] assms(2) l(1) by (simp add: Remove_def)
qed

section \<open>Properties\<close>

text \<open>
  C7. Saving is atomic and loses nothing. Of a well-formed file, for every behaviour of the system: there is a text from
  which the same sections, in the same order, with the same keys and values are loaded, and \<open>Save\<close> either reports success
  and has put exactly this text under the name of the file, or reports failure and has changed no file but the temporary
  one. It succeeds if the file can be created, renamed, and nothing is written in part.
\<close>

theorem Save_atomic_roundtrip:
  assumes "file_ok H" "dirty H"
  shows "\<exists>c r H' fs'. Save sys tmp only_if_dirty H fs = Some (r, H', fs') \<and>
    read_helper (case_insensitive H) None c = kf H \<and>
    (r \<longrightarrow> H' = H\<lparr>dirty := False\<rparr> \<and> fs' = fs(tmp := None, filename H \<mapsto> c)) \<and>
    (\<not> r \<longrightarrow> H' = H \<and> (\<forall>path. path \<noteq> tmp \<longrightarrow> fs' path = fs path)) \<and>
    (create_ok sys \<and> rename_ok sys \<and> (\<forall>i. length c \<le> written sys i) \<longrightarrow> r)"
proof -
  obtain texts where t: "section_texts (case_insensitive H) (smap (kf H)) (ordered (kf H)) = Some texts"
    "read_helper (case_insensitive H) None (concat texts) = kf H"
    using load_texts assms(1) unfolding file_ok_def by blast
  from assms(2) have "only_if_dirty \<longrightarrow> dirty H" by simp
  from this t(1) show ?thesis
  proof (cases rule: Save_outcomes [of only_if_dirty H texts sys tmp fs])
    case saved
    then show ?thesis using t(2) by (intro exI [of _ "concat texts"] exI [of _ True]) simp
  next
    case (failed fs')
    then show ?thesis using t(2) by (intro exI [of _ "concat texts"] exI [of _ False]) auto
  qed
qed

theorem Save_atomic_roundtrip_witness:
  "\<exists>c r H' fs'. Save \<lparr>create_ok = True, written = (\<lambda>i. 100), rename_ok = True, remove_ok = True\<rparr> [2] False
      \<lparr>case_insensitive = False, kf = Sections, filename = [1], dirty = True\<rparr> Map.empty = Some (r, H', fs') \<and>
    read_helper False None c = Sections"
  using Save_atomic_roundtrip [of "\<lparr>case_insensitive = False, kf = Sections, filename = [1], dirty = True\<rparr>"
    "\<lparr>create_ok = True, written = (\<lambda>i. 100), rename_ok = True, remove_ok = True\<rparr>" "[2]" False Map.empty]
    Sections_ok [of False] by (auto simp: file_ok_def)

text \<open>
  C10. The key files implement a two-level map: what is found is what the abstract file has; setting a key sets one value
  and creates its section if need be; removing a key removes one value and keeps the section; removing a section and
  removing the sections below a name remove just these; renaming to a fresh name moves one section. The names of sections
  are compared up to English case if the file ignores it, the names of keys never.
\<close>

theorem operations_refine_file:
  assumes "file_ok H"
  shows "find_value H sec name = (case contents H (sec_name H sec) of None \<Rightarrow> None | Some f \<Rightarrow> f name) \<and>
    contents (SetString sec name val H) = (contents H)(sec_name H sec \<mapsto>
      (case contents H (sec_name H sec) of None \<Rightarrow> [name \<mapsto> val] | Some f \<Rightarrow> f(name \<mapsto> val))) \<and>
    contents (RemoveKey sec name H) = (case contents H (sec_name H sec) of None \<Rightarrow> contents H
      | Some f \<Rightarrow> (contents H)(sec_name H sec \<mapsto> f(name := None))) \<and>
    (\<exists>H'. RemoveSection sec H = Some (HasSection H sec, H') \<and> contents H' = (contents H)(sec_name H sec := None)) \<and>
    (\<exists>n H'. RemoveSectionsAt sec H = Some (n, H') \<and>
      contents H' = (\<lambda>x. if \<exists>k \<in> set (EnumSections H). below_prefix (section_prefix sec) k \<and> sec_name H k = x
        then None else contents H x)) \<and>
    (\<not> HasSection H dst \<longrightarrow> (\<exists>H'. rename_step sec dst H = Some H' \<and>
      contents H' = (case contents H (sec_name H sec) of None \<Rightarrow> contents H
        | Some f \<Rightarrow> (contents H)(sec_name H sec := None, sec_name H dst \<mapsto> f))))"
proof -
  have f: "contents H (sec_name H s) = map_option look (GetSectionValues H s)" for s
    by (simp add: contents_def sec_name_def view_find GetSectionValues_def)
  have h: "HasSection H s \<longleftrightarrow> contents H (sec_name H s) \<noteq> None" for s by (simp add: f HasSection_def)
  have 1: "find_value H sec name = (case contents H (sec_name H sec) of None \<Rightarrow> None | Some f \<Rightarrow> f name)"
    by (cases "GetSectionValues H sec") (simp_all add: f find_value_def look_def)
  have 2: "\<exists>H'. RemoveSection sec H = Some (HasSection H sec, H') \<and> contents H' = (contents H)(sec_name H sec := None)"
    using RemoveSection_view [OF assms] unfolding h by blast
  have e: "set (EnumSections H) = fst ` set (smap (kf H))"
    using sections_okD(3) assms unfolding EnumSections_def file_ok_def by blast
  have 3: "\<exists>n H'. RemoveSectionsAt sec H = Some (n, H') \<and>
      contents H' = (\<lambda>x. if \<exists>k \<in> set (EnumSections H). below_prefix (section_prefix sec) k \<and> sec_name H k = x
        then None else contents H x)" unfolding e using RemoveSectionsAt_view [OF assms] by blast
  have 4: "\<not> HasSection H dst \<longrightarrow> (\<exists>H'. rename_step sec dst H = Some H' \<and>
      contents H' = (case contents H (sec_name H sec) of None \<Rightarrow> contents H
        | Some f \<Rightarrow> (contents H)(sec_name H sec := None, sec_name H dst \<mapsto> f)))"
    using rename_step_view [OF assms, of dst sec] unfolding h by blast
  show ?thesis
    by (intro conjI 1 SetString_view(2) [OF assms] RemoveKey_view(2) [OF assms] 2 3 4)
qed

abbreviation sample_file :: key_file where
  "sample_file \<equiv> SetString [0x62] [0x79] [0x32] (SetString [0x61] [0x78] [0x31] (KeyFileHelper [1] None False True))"

theorem operations_refine_file_witness:
  "contents (SetString [0x61] [0x78] [0x32] sample_file) (sec_name sample_file [0x41]) = Some [[0x78] \<mapsto> [0x32]]"
proof -
  have ok: "file_ok (KeyFileHelper [1] None False True)"
    using Sections_ok by (simp add: KeyFileHelper_def file_ok_def)
  then have "file_ok sample_file" using SetString_view(1) by blast
  note r = operations_refine_file [OF this, of "[0x61]" "[0x78]" "[0x32]" "[0x63]"]
  have "contents sample_file (sec_name sample_file [0x61]) = Some [[0x78] \<mapsto> [0x31]]"
  proof -
    have "contents sample_file (sec_name sample_file [0x61]) = map_option look (GetSectionValues sample_file [0x61])"
      unfolding contents_def sec_name_def view_find GetSectionValues_def ..
    moreover have "GetSectionValues sample_file [0x61] = Some [([0x78], [0x31])]" by code_simp
    moreover have "look [([0x78], [0x31])] = [[0x78] \<mapsto> [0x31]]" by (auto simp: look_def fun_eq_iff same_key_fold simp del: fold_key_simps)
    ultimately show ?thesis by simp
  qed
  moreover have "sec_name sample_file [0x41] = sec_name sample_file [0x61]"
    by code_simp
  ultimately show ?thesis using r by simp
qed

text \<open>
  C25. Files stay well formed: one entry of the vector for each section of the map, the keys in order. What is loaded from
  any bytes is, and every operation keeps it, returning a file (no iterator dangles), if a section is never renamed onto
  a name that is taken.
\<close>

theorem operations_keep_file:
  "file_ok (KeyFileHelper path content load ci) \<and>
   (file_ok H \<longrightarrow>
     file_ok (SetString sec name val H) \<and> file_ok (RemoveKey sec name H) \<and>
     (\<exists>r H'. RemoveSection sec H = Some (r, H') \<and> file_ok H') \<and>
     (\<exists>n H'. RemoveSectionsAt sec H = Some (n, H') \<and> file_ok H') \<and>
     (\<not> HasSection H dst \<longrightarrow> (\<exists>H'. rename_step sec dst H = Some H' \<and> file_ok H')) \<and>
     (\<exists>r H' fs'. Save sys tmp only_if_dirty H fs = Some (r, H', fs') \<and> file_ok H'))"
proof (intro conjI impI)
  show "file_ok (KeyFileHelper path content load ci)"
    using read_helper_ok Sections_ok by (simp add: KeyFileHelper_def file_ok_def split: option.split)
next
  assume H: "file_ok H"
  show "file_ok (SetString sec name val H)" "file_ok (RemoveKey sec name H)"
    using SetString_view(1) [OF H] RemoveKey_view(1) [OF H] by blast+
  show "\<exists>r H'. RemoveSection sec H = Some (r, H') \<and> file_ok H'" using RemoveSection_view [OF H] by blast
  show "\<exists>n H'. RemoveSectionsAt sec H = Some (n, H') \<and> file_ok H'" using RemoveSectionsAt_view [OF H] by blast
  show "\<exists>H'. rename_step sec dst H = Some H' \<and> file_ok H'" if "\<not> HasSection H dst"
    using rename_step_view [OF H, of dst sec] that
    by (auto simp: HasSection_def GetSectionValues_def contents_def sec_name_def view_find)
  obtain texts where t: "section_texts (case_insensitive H) (smap (kf H)) (ordered (kf H)) = Some texts"
    using load_texts H unfolding file_ok_def by blast
  show "\<exists>r H' fs'. Save sys tmp only_if_dirty H fs = Some (r, H', fs') \<and> file_ok H'"
  proof (cases "only_if_dirty \<longrightarrow> dirty H")
    case True
    from True t show ?thesis
    proof (cases rule: Save_outcomes [of only_if_dirty H texts sys tmp fs])
      case saved
      then show ?thesis using H by (auto simp: file_ok_def)
    qed (use H in auto)
  next
    case False
    then show ?thesis using H by (auto simp: Save_def)
  qed
qed

theorem operations_keep_file_witness:
  "file_ok (SetString [0x62] [0x79] [0x32] (KeyFileHelper [1] None False True)) \<and>
   (\<exists>H'. rename_step [0x62] [0x63] (KeyFileHelper [1] None False True) = Some H' \<and> file_ok H')"
proof -
  have "file_ok (KeyFileHelper [1] None False True)" using Sections_ok by (simp add: KeyFileHelper_def file_ok_def)
  moreover have "\<not> HasSection (KeyFileHelper [1] None False True) [0x63]" by code_simp
  ultimately show ?thesis
    using operations_keep_file [of "[1]" None False True "KeyFileHelper [1] None False True" "[0x62]" "[0x79]" "[0x32]"] by meson
qed

text \<open>
  C39. Renaming onto a section that is there breaks the file: both iterators of the vector then point to the same section,
  so that removing this section leaves one of them without an entry, which the next \<open>Save\<close> follows.
\<close>

theorem Rename_onto_dangles:
  assumes "file_ok H" "HasSection H src" "HasSection H dst" "sec_name H src \<noteq> sec_name H dst" "create_ok sys"
  shows "\<exists>H1 H2. rename_step src dst H = Some H1 \<and> RemoveSection dst H1 = Some (True, H2) \<and>
    Save sys tmp only_if_dirty H2 fs = None"
proof -
  let ?ci = "case_insensitive H"
  have s: "sections_ok ?ci (kf H)" using assms(1) by (simp add: file_ok_def)
  obtain k m k1 m1 where f: "map_find ?ci (smap (kf H)) src = Some (k, m)" "map_find ?ci (smap (kf H)) dst = Some (k1, m1)"
    using assms(2,3) by (auto simp: HasSection_def GetSectionValues_def Find_def)
  have "k1 \<noteq> k" using found(2) [OF s f(1)] found(2) [OF s f(2)] assms(4) by (auto simp: sec_name_def)
  then obtain S1 i j where S1: "Rename ?ci src dst (kf H) = Some (True, S1)" "i \<noteq> j" "i < length (ordered S1)"
    "j < length (ordered S1)" "ordered S1 ! i = k1" "ordered S1 ! j = k1" "map_find ?ci (smap S1) dst = Some (k1, m)" "map_ok ?ci (smap S1)"
    using Rename_taken [OF s f] by metis
  obtain S2 where S2: "Remove ?ci dst S1 = Some (True, S2)" "k1 \<in> set (ordered S2)" "map_find ?ci (smap S2) k1 = None"
    using Remove_one_of_two [OF S1(8,7,2-6)] by blast
  let ?H2 = "H\<lparr>kf := S2, dirty := True\<rparr>"
  have "rename_step src dst H = Some (H\<lparr>kf := S1, dirty := True\<rparr>)" using S1(1) by (simp add: rename_step_def)
  moreover have "RemoveSection dst (H\<lparr>kf := S1, dirty := True\<rparr>) = Some (True, ?H2)" using S2(1) by (simp add: RemoveSection_def)
  moreover have "Save sys tmp only_if_dirty ?H2 fs = None"
    using section_texts_dangling [OF S2(2,3)] assms(5) by (simp add: Save_def)
  ultimately show ?thesis by blast
qed

theorem Rename_onto_dangles_witness:
  "\<exists>H1 H2. rename_step [0x61] [0x62] sample_file = Some H1 \<and> RemoveSection [0x62] H1 = Some (True, H2) \<and>
    Save \<lparr>create_ok = True, written = (\<lambda>i. 100), rename_ok = True, remove_ok = True\<rparr> [2] True H2 Map.empty = None"
proof (rule Rename_onto_dangles)
  have "file_ok (KeyFileHelper [1] None False True)" using Sections_ok by (simp add: KeyFileHelper_def file_ok_def)
  then show "file_ok sample_file" using SetString_view(1) by blast
  show "HasSection sample_file [0x61]" "HasSection sample_file [0x62]" by code_simp+
  show "sec_name sample_file [0x61] \<noteq> sec_name sample_file [0x62]" by code_simp
qed simp

end
