(* ===== verification/KeyVals.thy ===== *)
theory KeyVals
  imports KeyOps
begin

text \<open>
  Numbers and bytes in key files: \<^verbatim>\<open>ToHex\<close> and the hexadecimal digits of \<^verbatim>\<open>utils/src/IntStrConv.cpp\<close>, and the
  operations of \<^verbatim>\<open>utils/src/KeyFileHelper.cpp\<close> that store and read them.
\<close>

section \<open>Digits\<close>

definition MakeHexDigit :: "u8 \<Rightarrow> u8" where
  "MakeHexDigit c = (if c \<le> 9 then 0x30 + c else if c \<le> 0xf then 0x61 + (c - 0xa) else 0)"

definition ParseHexDigit :: "u8 \<Rightarrow> u8" where
  "ParseHexDigit hex =
     (if 0x30 \<le>s hex \<and> hex \<le>s 0x39 then hex - 0x30
      else if 0x61 \<le>s hex \<and> hex \<le>s 0x66 then 10 + hex - 0x61
      else if 0x41 \<le>s hex \<and> hex \<le>s 0x46 then 10 + hex - 0x41
      else 0xff)"

text \<open>The digits of \<open>append_hex\<close>, the last one first.\<close>

function append_hex :: "u64 \<Rightarrow> bytes \<Rightarrow> bytes" where
  "append_hex v s = (if v = 0 then s else append_hex (v div 16) (MakeHexDigit (ucast (v mod 16)) # s))"
  by auto
termination
  by (relation "measure (\<lambda>(v, _). unat v)") (auto simp: unat_div unat_gt_0 intro: div_less_dividend)

declare append_hex.simps [simp del]

definition ToHex :: "u64 \<Rightarrow> bytes" where
  "ToHex v = (if v = 0 then [0x30] else append_hex v [])"

definition ToPrefixedHex :: "u64 \<Rightarrow> bytes" where
  "ToPrefixedHex v = [0x30, 0x78] @ ToHex v"

text \<open>
  The conversion \<open>strtoull\<close> of C: white space, a sign, for base 16 a prefix \<open>0x\<close> before a digit, and the digits. What does not
  fit gives the greatest value.
\<close>

definition c_space :: "u8 \<Rightarrow> bool" where
  "c_space c \<longleftrightarrow> c = 0x20 \<or> 9 \<le> c \<and> c \<le> 13"

definition digit_of :: "nat \<Rightarrow> u8 \<Rightarrow> bool" where
  "digit_of base c \<longleftrightarrow> unat (ParseHexDigit c) < base"

definition digits_value :: "nat \<Rightarrow> bytes \<Rightarrow> nat" where
  "digits_value base s = fold (\<lambda>c n. n * base + unat (ParseHexDigit c)) s 0"

definition strtoull :: "bytes \<Rightarrow> nat \<Rightarrow> u64" where
  "strtoull s base =
     (let s = dropWhile c_space s;
          minus = (byte_at s 0 = 0x2d);
          s = (if minus \<or> byte_at s 0 = 0x2b then tl s else s);
          s = (if base = 16 \<and> byte_at s 0 = 0x30 \<and> (byte_at s 1 = 0x78 \<or> byte_at s 1 = 0x58) \<and> digit_of 16 (byte_at s 2)
               then drop 2 s else s);
          n = digits_value base (takeWhile (digit_of base) s)
      in if n \<ge> 2 ^ 64 then - 1 else if minus then - of_nat n else of_nat n)"

section \<open>Bytes\<close>

definition hex_bytes :: "nat \<Rightarrow> bytes \<Rightarrow> bytes" where
  "hex_bytes space_interval buf =
     concat (map (\<lambda>i. (if i \<noteq> 0 \<and> space_interval \<noteq> 0 \<and> i mod space_interval = 0 then [0x20] else []) @
       [MakeHexDigit (drop_bit 4 (buf ! i)), MakeHexDigit (buf ! i AND 0xf)]) [0..<length buf])"

definition skip_blanks :: "bytes \<Rightarrow> bytes" where
  "skip_blanks = dropWhile (\<lambda>c. c = 0x20 \<or> c = 0x09)"

text \<open>The buffer after the call, and how many of its bytes were decoded.\<close>

fun DecodeBytes :: "bytes \<Rightarrow> bytes \<Rightarrow> bytes \<times> nat" where
  "DecodeBytes [] str = ([], 0)"
| "DecodeBytes out [] = (out, 0)"
| "DecodeBytes (o0 # out) (c # str) =
     (let hi = push_bit 4 (ParseHexDigit c) in
      case skip_blanks str of
        [] \<Rightarrow> (hi # out, 0)
      | d # str \<Rightarrow> let (out, cnt) = DecodeBytes out (skip_blanks str) in ((hi OR ParseHexDigit d) # out, cnt + 1))"

section \<open>The operations\<close>

definition SetULL :: "bytes \<Rightarrow> bytes \<Rightarrow> u64 \<Rightarrow> key_file \<Rightarrow> key_file" where
  "SetULL sec name val = SetString sec name (ToPrefixedHex val)"

definition SetBytes :: "bytes \<Rightarrow> bytes \<Rightarrow> bytes \<Rightarrow> nat \<Rightarrow> key_file \<Rightarrow> key_file" where
  "SetBytes sec name buf space_interval = SetString sec name (hex_bytes space_interval buf)"

definition values_GetULL :: "key_values \<Rightarrow> bytes \<Rightarrow> u64 \<Rightarrow> u64" where
  "values_GetULL m name def_value =
     (case map_find False m name of
        Some (_, s) \<Rightarrow>
          let sz = c_str s in
          if byte_at sz 0 = 0x30 \<and> byte_at sz 1 = 0x78 then strtoull (drop 2 sz) 16 else strtoull sz 10
      | None \<Rightarrow> def_value)"

definition GetULL :: "key_file \<Rightarrow> bytes \<Rightarrow> bytes \<Rightarrow> u64 \<Rightarrow> u64" where
  "GetULL H sec name def_value =
     (case GetSectionValues H sec of Some m \<Rightarrow> values_GetULL m name def_value | None \<Rightarrow> def_value)"

definition values_GetBytes :: "key_values \<Rightarrow> bytes \<Rightarrow> bytes \<Rightarrow> bytes option \<Rightarrow> bytes \<times> nat" where
  "values_GetBytes m out name def_value =
     (case map_find False m name of
        None \<Rightarrow> (case def_value of Some d \<Rightarrow> (take (length out) d, length out) | None \<Rightarrow> (out, 0))
      | Some (_, s) \<Rightarrow> DecodeBytes out s)"

text \<open>The result \<open>None\<close> stands for \<open>false\<close>.\<close>

definition values_GetBytes_vector :: "key_values \<Rightarrow> bytes \<Rightarrow> bytes option" where
  "values_GetBytes_vector m name =
     (case map_find False m name of
        None \<Rightarrow> None
      | Some (_, s) \<Rightarrow> let (out, actual_size) = DecodeBytes (replicate (length s div 2 + 1) 0) s in Some (take actual_size out))"

text \<open>The overload of \<open>KeyFileReadHelper\<close> passes no default on to the section.\<close>

definition GetBytes :: "key_file \<Rightarrow> bytes \<Rightarrow> bytes \<Rightarrow> bytes \<Rightarrow> bytes option \<Rightarrow> bytes \<times> nat" where
  "GetBytes H out sec name def_value =
     (case GetSectionValues H sec of
        Some m \<Rightarrow> values_GetBytes m out name None
      | None \<Rightarrow> (case def_value of Some d \<Rightarrow> (take (length out) d, length out) | None \<Rightarrow> (out, 0)))"

section \<open>Digits come back\<close>

lemma nibbles: "n < 16 \<Longrightarrow> ParseHexDigit (MakeHexDigit (word_of_nat n)) = word_of_nat n \<and> \<not> c_space (MakeHexDigit (word_of_nat n)) \<and>
  MakeHexDigit (word_of_nat n) \<notin> {0, 0x20, 0x09, 0x2b, 0x2d, 0x78, 0x58}"
proof -
  assume "n < 16"
  then have "n \<in> set [0..<16]" by simp
  moreover have "\<forall>n \<in> set [0..<16]. ParseHexDigit (MakeHexDigit (word_of_nat n)) = word_of_nat n \<and>
      \<not> c_space (MakeHexDigit (word_of_nat n)) \<and> MakeHexDigit (word_of_nat n) \<notin> {0, 0x20, 0x09, 0x2b, 0x2d, 0x78, 0x58}"
    by code_simp
  ultimately show ?thesis by blast
qed

lemma byte_nibbles:
  "ParseHexDigit (MakeHexDigit (drop_bit 4 b)) = drop_bit 4 b" "ParseHexDigit (MakeHexDigit (b AND 0xf)) = b AND 0xf"
  "MakeHexDigit (drop_bit 4 b) \<notin> {0x20, 0x09}" "MakeHexDigit (b AND 0xf) \<notin> {0x20, 0x09}"
proof -
  have h: "drop_bit 4 b = word_of_nat (unat b div 16)" "b AND 0xf = word_of_nat (unat b mod 16)" "unat b div 16 < 16"
    using unat_u8_less [of b] le_less_trans [OF div_le_dividend unat_u8_less, of b 16]
    by (simp_all add: word_unat_eq_iff nat_bits unat_of_nat less_mult_imp_div_less)
  show "ParseHexDigit (MakeHexDigit (drop_bit 4 b)) = drop_bit 4 b" "MakeHexDigit (drop_bit 4 b) \<notin> {0x20, 0x09}"
    using nibbles [OF h(3)] unfolding h(1) by blast+
  show "ParseHexDigit (MakeHexDigit (b AND 0xf)) = b AND 0xf" "MakeHexDigit (b AND 0xf) \<notin> {0x20, 0x09}"
    using nibbles [of "unat b mod 16"] unfolding h(2) by auto
qed

lemma join_nibbles: "push_bit 4 (drop_bit 4 b) OR (b AND 0xf) = (b :: u8)"
proof -
  have "b AND 0xf = take_bit 4 b" by (simp add: take_bit_eq_mask mask_numeral)
  then show ?thesis by (intro bit_word_eqI) (auto simp: bit_simps)
qed

lemma hex_bytes_blanks: "skip_blanks (MakeHexDigit (drop_bit 4 b) # s) = MakeHexDigit (drop_bit 4 b) # s"
  "skip_blanks (MakeHexDigit (b AND 0xf) # s) = MakeHexDigit (b AND 0xf) # s"
  using byte_nibbles(3,4) [of b] by (simp_all add: skip_blanks_def)

lemma DecodeBytes_spaced:
  "DecodeBytes out (skip_blanks (concat (map (\<lambda>(sep, b). (if sep then [0x20] else []) @
     [MakeHexDigit (drop_bit 4 b), MakeHexDigit (b AND 0xf)]) items))) =
   (map snd (take (length out) items) @ drop (length items) out, min (length out) (length items))"
proof (induction items arbitrary: out)
  case Nil
  then show ?case by (cases out) (simp_all add: skip_blanks_def)
next
  case (Cons e items)
  obtain sep b where e: "e = (sep, b)" by (cases e)
  let ?rest = "concat (map (\<lambda>(sep, b). (if sep then [0x20] else []) @ [MakeHexDigit (drop_bit 4 b), MakeHexDigit (b AND 0xf)]) items)"
  let ?d = "MakeHexDigit (drop_bit 4 b) # MakeHexDigit (b AND 0xf) # ?rest"
  have "skip_blanks (concat (map (\<lambda>(sep, b). (if sep then [0x20] else []) @ [MakeHexDigit (drop_bit 4 b), MakeHexDigit (b AND 0xf)]) (e # items))) =
      skip_blanks ((if sep then [0x20] else []) @ ?d)" by (simp add: e)
  also have "\<dots> = skip_blanks ?d" by (cases sep) (simp_all add: skip_blanks_def)
  also have "\<dots> = ?d" by (rule hex_bytes_blanks)
  finally have s: "skip_blanks (concat (map (\<lambda>(sep, b). (if sep then [0x20] else []) @ [MakeHexDigit (drop_bit 4 b), MakeHexDigit (b AND 0xf)]) (e # items))) = ?d" .
  show ?case
  proof (cases out)
    case Nil
    then show ?thesis unfolding s by simp
  next
    case (Cons o0 out')
    show ?thesis
      unfolding s Cons using Cons.IH [of out'] byte_nibbles(1,2) [of b] join_nibbles [of b]
      by (simp add: hex_bytes_blanks(2) e del: skip_blanks_def)
  qed
qed

text \<open>Every interval between the spaces can be read back.\<close>

lemma DecodeBytes_hex:
  "DecodeBytes out (hex_bytes n buf) = (take (length out) buf @ drop (length buf) out, min (length out) (length buf))"
proof -
  let ?items = "map (\<lambda>i. (i \<noteq> 0 \<and> n \<noteq> 0 \<and> i mod n = 0, buf ! i)) [0..<length buf]"
  let ?txt = "\<lambda>items. concat (map (\<lambda>(sep, b). (if sep then [0x20] else []) @ [MakeHexDigit (drop_bit 4 b), MakeHexDigit (b AND 0xf)]) items)"
  have h: "hex_bytes n buf = ?txt ?items" by (simp add: hex_bytes_def comp_def)
  have "skip_blanks (?txt ?items) = ?txt ?items"
  proof (cases "length buf")
    case (Suc l)
    then have "?items = (False, buf ! 0) # map (\<lambda>i. (i \<noteq> 0 \<and> n \<noteq> 0 \<and> i mod n = 0, buf ! i)) [1..<length buf]"
      by (simp add: upt_conv_Cons del: upt_Suc)
    then show ?thesis by (simp only: list.map concat.simps split if_False append_Nil append_Cons hex_bytes_blanks)
  qed (simp add: skip_blanks_def)
  moreover have "map snd ?items = buf" by (simp add: comp_def map_nth)
  ultimately show ?thesis
    using DecodeBytes_spaced [of out ?items] unfolding h by (simp only: take_map [symmetric] length_map length_upt minus_nat.diff_0)
qed

lemma hex_bytes_length: "2 * length buf \<le> length (hex_bytes n buf)"
proof -
  have "2 * length xs \<le> length (concat (map (\<lambda>i. f i @ [g i, h i]) xs))" for f g h and xs :: "nat list"
    by (induction xs) simp_all
  from this [of "[0..<length buf]"] show ?thesis unfolding hex_bytes_def by simp
qed

section \<open>Numbers come back\<close>

lemma append_hex_value: "digits_value 16 (append_hex v s) = fold (\<lambda>c n. n * 16 + unat (ParseHexDigit c)) s (unat v)"
proof (induction v s rule: append_hex.induct)
  case (1 v s)
  show ?case
  proof (cases "v = 0")
    case False
    have m: "ucast (v mod 16) = (word_of_nat (unat v mod 16) :: u8)"
      by (simp add: word_unat_eq_iff unat_ucast_mod unat_mod unat_of_nat)
    have "unat (ParseHexDigit (MakeHexDigit (ucast (v mod 16)))) = unat v mod 16"
      unfolding m using nibbles [of "unat v mod 16"] by (simp add: unat_of_nat)
    then show ?thesis
      using 1 [OF False] False by (simp add: append_hex.simps [of v s] unat_div div_mult_mod_eq)
  qed (simp add: append_hex.simps digits_value_def)
qed

lemma append_hex_chars:
  "set (append_hex v s) \<subseteq> {MakeHexDigit (word_of_nat n) | n. n < 16} \<union> set s"
proof (induction v s rule: append_hex.induct)
  case (1 v s)
  have m: "ucast (v mod 16) = (word_of_nat (unat v mod 16) :: u8)"
    by (simp add: word_unat_eq_iff unat_ucast_mod unat_mod unat_of_nat)
  have "MakeHexDigit (ucast (v mod 16)) \<in> {MakeHexDigit (word_of_nat n) | n. n < 16}" unfolding m by auto
  then show ?case using 1 by (cases "v = 0") (auto simp: append_hex.simps [of v s] append_hex.simps [of 0 s])
qed

lemma ToHex_digits:
  "digits_value 16 (ToHex v) = unat v" "c \<in> set (ToHex v) \<Longrightarrow> \<exists>n < 16. c = MakeHexDigit (word_of_nat n)" "ToHex v \<noteq> []"
proof -
  show "digits_value 16 (ToHex v) = unat v"
    using append_hex_value [of v "[]"] by (simp add: ToHex_def) (simp add: digits_value_def ParseHexDigit_def)
  have z: "0x30 = MakeHexDigit (word_of_nat 0)" by (simp add: MakeHexDigit_def)
  show "c \<in> set (ToHex v) \<Longrightarrow> \<exists>n < 16. c = MakeHexDigit (word_of_nat n)"
  proof (cases "v = 0")
    case True
    assume "c \<in> set (ToHex v)"
    then show ?thesis using True z by (intro exI [of _ 0]) (simp add: ToHex_def)
  next
    case False
    assume "c \<in> set (ToHex v)"
    then have "c \<in> set (append_hex v [])" using False by (simp add: ToHex_def)
    then show ?thesis using append_hex_chars [of v "[]"] by auto
  qed
  have ne: "s \<noteq> [] \<Longrightarrow> append_hex v s \<noteq> []" for v s
  proof (induction v s rule: append_hex.induct)
    case (1 v s)
    then show ?case by (cases "v = 0") (simp_all add: append_hex.simps [of v s] append_hex.simps [of 0 s])
  qed
  show "ToHex v \<noteq> []"
    using ne [of "[MakeHexDigit (ucast (v mod 16))]" "v div 16"] append_hex.simps [of v "[]"] by (simp add: ToHex_def)
qed

lemma strtoull_ToHex: "strtoull (ToHex v) 16 = v"
proof -
  let ?s = "ToHex v"
  have c: "\<not> c_space c" "c \<notin> {0, 0x20, 0x09, 0x2b, 0x2d, 0x78, 0x58}" "digit_of 16 c" if char: "c \<in> set ?s" for c
  proof -
    obtain n where n: "n < 16" "c = MakeHexDigit (word_of_nat n)" using ToHex_digits(2) [OF char] by blast
    note nibbles [OF n(1), folded n(2)]
    then show "\<not> c_space c" "c \<notin> {0, 0x20, 0x09, 0x2b, 0x2d, 0x78, 0x58}" "digit_of 16 c"
      using n(1) by (simp_all add: digit_of_def unat_of_nat)
  qed
  have "dropWhile c_space ?s = ?s" using c(1) by (cases ?s) simp_all
  moreover have "byte_at ?s i \<notin> {0x2b, 0x2d, 0x78, 0x58}" for i
    using c(2) [of "?s ! i"] by (cases "i < length ?s") simp_all
  moreover have "takeWhile (digit_of 16) ?s = ?s" using c(3) by (simp add: takeWhile_eq_all_conv)
  moreover have "unat v < 18446744073709551616" using unsigned_less [of v] by simp
  ultimately show ?thesis
    using ToHex_digits(1) [of v] by (simp add: strtoull_def Let_def del: takeWhile_eq_all_conv)
qed

lemma c_str_ToPrefixedHex: "c_str (ToPrefixedHex v) = ToPrefixedHex v"
proof -
  have "c \<noteq> 0" if "c \<in> set (ToPrefixedHex v)" for c
    using that ToHex_digits(2) [of c v] nibbles by (fastforce simp: ToPrefixedHex_def)
  then show ?thesis by (simp add: c_str_def takeWhile_eq_all_conv)
qed

section \<open>What the operations store and give\<close>

lemma find_value_SetString:
  assumes "file_ok H"
  shows "find_value (SetString sec name val H) sec' name' =
    (if sec_name H sec' = sec_name H sec \<and> name' = name then Some val else find_value H sec' name')"
proof -
  have ci: "case_insensitive (SetString sec name val H) = case_insensitive H"
    by (simp add: SetString_def Let_def split: prod.split option.split)
  have f: "find_value F s k = (case contents F (sec_name F s) of None \<Rightarrow> None | Some f \<Rightarrow> f k)" for F s k
    by (cases "GetSectionValues F s") (simp_all add: find_value_def look_def contents_def sec_name_def view_find GetSectionValues_def [symmetric])
  have n: "sec_name (SetString sec name val H) = sec_name H" by (simp add: sec_name_def ci)
  show ?thesis unfolding f n SetString_view(2) [OF assms] by (auto split: option.splits)
qed

lemma GetULL_find: "GetULL H sec name d = (case find_value H sec name of None \<Rightarrow> d | Some s \<Rightarrow>
    let sz = c_str s in if byte_at sz 0 = 0x30 \<and> byte_at sz 1 = 0x78 then strtoull (drop 2 sz) 16 else strtoull sz 10)"
  by (cases "GetSectionValues H sec") (auto simp: GetULL_def values_GetULL_def find_value_def split: option.splits)

lemma GetULL_SetULL:
  assumes "file_ok H"
  shows "GetULL (SetULL sec name v H) sec name d = v"
  unfolding GetULL_find SetULL_def find_value_SetString [OF assms]
  by (simp add: c_str_ToPrefixedHex) (simp add: ToPrefixedHex_def strtoull_ToHex)

text \<open>
  C20. What is stored as a number or as bytes is read again: every 64-bit number, and every list of bytes with a space after
  every n of them for every n, into a buffer of any size that is large enough and into a vector. The other keys and sections
  keep their values.
\<close>

theorem stored_values_come_back:
  assumes "file_ok H"
  shows "GetULL (SetULL sec name v H) sec name d = v \<and>
    (length buf \<le> length out \<longrightarrow>
      GetBytes (SetBytes sec name buf n H) out sec name def_value = (buf @ drop (length buf) out, length buf)) \<and>
    (\<exists>m. GetSectionValues (SetBytes sec name buf n H) sec = Some m \<and> values_GetBytes_vector m name = Some buf) \<and>
    (sec_name H sec' \<noteq> sec_name H sec \<or> name' \<noteq> name \<longrightarrow>
      find_value (SetULL sec name v H) sec' name' = find_value H sec' name' \<and>
      find_value (SetBytes sec name buf n H) sec' name' = find_value H sec' name')"
proof -
  have "find_value (SetBytes sec name buf n H) sec name = Some (hex_bytes n buf)"
    by (simp add: SetBytes_def find_value_SetString [OF assms])
  then obtain m k where m: "GetSectionValues (SetBytes sec name buf n H) sec = Some m" "map_find False m name = Some (k, hex_bytes n buf)"
    by (auto simp: find_value_def split: Option.bind_splits)
  have "length buf \<le> length (hex_bytes n buf) div 2 + 1" using hex_bytes_length [of buf n] by simp
  then show ?thesis
    using m GetULL_SetULL [OF assms] DecodeBytes_hex find_value_SetString [OF assms]
    by (auto simp: GetBytes_def values_GetBytes_def values_GetBytes_vector_def SetULL_def SetBytes_def)
qed

theorem stored_values_come_back_witness:
  "GetULL (SetULL [0x61] [0x78] 0xfedcba9876543210 (KeyFileHelper [1] None False False)) [0x61] [0x78] 0 = 0xfedcba9876543210 \<and>
   GetBytes (SetBytes [0x61] [0x78] [1, 0xab] 1 (KeyFileHelper [1] None False False)) [9, 9, 9] [0x61] [0x78] None = ([1, 0xab, 9], 2)"
  using stored_values_come_back [of "KeyFileHelper [1] None False False" "[0x61]" "[0x78]" _ _ "[1, 0xab]" "[9, 9, 9]" 1]
    Sections_ok by (simp add: KeyFileHelper_def file_ok_def)

end
