(* ===== verification/KeyRead.thy ===== *)
theory KeyRead
  imports KeyOps
begin

text \<open>
  Reading one section of a key file: \<open>KeyFileReadSection\<close> and \<open>KeyFileReadHelper\<close> of \<^verbatim>\<open>utils/src/KeyFileHelper.cpp\<close>
  find the same values.
\<close>

section \<open>What a line asks for\<close>

datatype line_kind = Ignored | Opens bytes | Sets bytes bytes

definition kind_of_line :: "bytes \<Rightarrow> line_kind" where
  "kind_of_line line =
     (let line = StrTrim [0x20, 0x09, 0x0d] line in
      if line = [] then Ignored
      else if hd line = 0x5b then
        if last line = 0x5d then Opens (Decode (take (length line - 2) (tl line))) else Ignored
      else if hd line \<noteq> 0x3b \<and> hd line \<noteq> 0x23 then
        (case find_char 0x3d line of
           None \<Rightarrow> Ignored
         | Some p \<Rightarrow> Sets (Decode (StrTrimRight [0x20, 0x09] (take p line))) (Decode (StrTrimLeft [0x20, 0x09] (drop (p + 1) line))))
      else Ignored)"

definition unnamed ::
  "('s \<Rightarrow> bytes \<Rightarrow> 's \<times> 'p option) \<Rightarrow> ('s, 'p) loader \<Rightarrow> ('s, 'p) loader"
where
  "unnamed prov L =
     (if vals L = None \<and> \<not> reached_named_section L then
        let (S, v) = prov (store L) [] in L\<lparr>store := S, vals := v\<rparr>
      else L)"

lemma load_line_kind:
  "load_line prov put line L =
     (case kind_of_line line of
        Ignored \<Rightarrow> L
      | Opens name \<Rightarrow> L\<lparr>store := fst (prov (store L) name), vals := snd (prov (store L) name), reached_named_section := True\<rparr>
      | Sets key val \<Rightarrow>
          (let L = unnamed prov L in
           case vals L of None \<Rightarrow> L | Some v \<Rightarrow> L\<lparr>store := put v key val (store L)\<rparr>))"
  unfolding load_line_def kind_of_line_def unnamed_def Let_def by (simp split: option.split prod.split)

section \<open>The two readers go together\<close>

abbreviation all_sections :: "sections \<Rightarrow> bytes \<Rightarrow> sections \<times> bytes option" where
  "all_sections \<equiv> full_provider False"

abbreviation one_section :: "bytes \<Rightarrow> key_values \<times> bool \<Rightarrow> bytes \<Rightarrow> (key_values \<times> bool) \<times> unit option" where
  "one_section name \<equiv> \<lambda>(m, loaded) n.
     if n = name \<or> False \<and> CaseIgnoreEngStrMatch n name then ((m, True), Some ()) else ((m, loaded), None)"

abbreviation put_one :: "unit \<Rightarrow> bytes \<Rightarrow> bytes \<Rightarrow> key_values \<times> bool \<Rightarrow> key_values \<times> bool" where
  "put_one \<equiv> \<lambda>_ key val (m, loaded). (map_set False key val m, loaded)"

definition section_of :: "bytes \<Rightarrow> sections \<Rightarrow> key_values \<times> bool" where
  "section_of name S = (case Find False S name of Some m \<Rightarrow> (m, True) | None \<Rightarrow> ([], False))"

definition together :: "bytes \<Rightarrow> (sections, bytes) loader \<Rightarrow> (key_values \<times> bool, unit) loader \<Rightarrow> bool" where
  "together name L1 L2 \<longleftrightarrow>
     loader_ok False L1 \<and> store L2 = section_of name (store L1) \<and>
     vals L2 = (if vals L1 = Some name then Some () else None) \<and>
     reached_named_section L2 = reached_named_section L1 \<and>
     (\<not> reached_named_section L1 \<longrightarrow> vals L1 = None \<or> vals L1 = Some [])"

lemma Find_Ensure:
  assumes "sections_ok False S" "Ensure False S nm = (S', k)"
  shows "k = nm" "sections_ok False S'" "k \<in> fst ` set (smap S')"
    "Find False S' name = (if name = nm \<and> Find False S name = None then Some [] else Find False S name)"
proof -
  show s: "sections_ok False S'" "k \<in> fst ` set (smap S')" using Ensure_key [OF assms] by simp_all
  obtain m where "map_find False (smap S') nm = Some (k, m)" using SetString_parts [OF assms] by metis
  then show "k = nm" using found(2) [OF s(1)] by simp
  show "Find False S' name = (if name = nm \<and> Find False S name = None then Some [] else Find False S name)"
    using assms(2) entries_emplace [OF sections_okD(1) [OF assms(1)], of nm "[]"]
    by (auto simp: Ensure_def Find_def map_find_entries split: option.splits)
qed

lemma Find_store_value:
  assumes "sections_ok False S" "k \<in> fst ` set (smap S)"
  shows "Find False (store_value False k key val S) name =
    (if name = k then map_option (map_set False key val) (Find False S k) else Find False S name)"
proof -
  obtain m where m: "(k, m) \<in> set (smap S)" using assms(2) by auto
  have f: "entries False (smap S) (fold_key False k) = Some (k, m)" using entries_iff [OF sections_okD(1) [OF assms(1)]] m by simp
  show ?thesis
    using f by (auto simp: store_value_def put_values_def values_at_def Find_def map_find_entries
      entries_assign [OF sections_okD(1) [OF assms(1)]])
qed

lemma together_open:
  assumes "together name L1 L2"
  shows "together name
    (L1\<lparr>store := fst (all_sections (store L1) nm), vals := snd (all_sections (store L1) nm), reached_named_section := True\<rparr>)
    (L2\<lparr>store := fst (one_section name (store L2) nm), vals := snd (one_section name (store L2) nm), reached_named_section := True\<rparr>)"
proof -
  obtain S' k where E: "Ensure False (store L1) nm = (S', k)" by (metis prod.exhaust)
  have ok: "sections_ok False (store L1)" using assms by (simp add: together_def loader_ok_def)
  note F = Find_Ensure [OF ok E]
  show ?thesis
    using assms F E by (cases "nm = name") (auto simp: together_def loader_ok_def wanted_def section_of_def F(4) split: option.splits)
qed

lemma together_unnamed:
  assumes "together name L1 L2"
  shows "together name (unnamed all_sections L1) (unnamed (one_section name) L2)"
proof -
  obtain S' k where E: "Ensure False (store L1) [] = (S', k)" by (metis prod.exhaust)
  have ok: "sections_ok False (store L1)" using assms by (simp add: together_def loader_ok_def)
  note F = Find_Ensure [OF ok E]
  show ?thesis
    using assms F E by (cases "name = []"; cases "vals L1")
      (auto simp: unnamed_def together_def loader_ok_def wanted_def section_of_def F(4) split: option.splits)
qed

lemma together_put:
  assumes "together name L1 L2"
  shows "together name (case vals L1 of None \<Rightarrow> L1 | Some v \<Rightarrow> L1\<lparr>store := store_value False v key val (store L1)\<rparr>)
    (case vals L2 of None \<Rightarrow> L2 | Some v \<Rightarrow> L2\<lparr>store := put_one v key val (store L2)\<rparr>)"
proof (cases "vals L1")
  case (Some k)
  have k: "sections_ok False (store L1)" "k \<in> fst ` set (smap (store L1))" using assms Some by (simp_all add: together_def loader_ok_def)
  then have "Find False (store L1) k \<noteq> None" using find_member sections_okD(1) [OF k(1)] by (fastforce simp: Find_def)
  then show ?thesis
    using assms Some store_value_ok [OF k] Find_store_value [OF k]
    by (auto simp: together_def loader_ok_def section_of_def split: option.splits)
qed (use assms in \<open>simp add: together_def\<close>)

lemma together_line:
  assumes "together name L1 L2"
  shows "together name (load_line all_sections (store_value False) line L1) (load_line (one_section name) put_one line L2)"
  unfolding load_line_kind Let_def
  by (cases "kind_of_line line")
    (simp_all only: line_kind.case assms together_open [OF assms] together_put [OF together_unnamed [OF assms]])

lemma read_section_eq:
  "read_section False name content =
    (case Find False (read_helper False None content) name of Some m \<Rightarrow> (m, True) | None \<Rightarrow> ([], False))"
proof -
  have "together name (fold (load_line all_sections (store_value False)) ls L1) (fold (load_line (one_section name) put_one) ls L2)"
    if "together name L1 L2" for ls L1 L2
    using that by (induction ls arbitrary: L1 L2) (simp_all only: fold_simps together_line)
  moreover have "together name \<lparr>store = Sections, vals = None, reached_named_section = False\<rparr>
      \<lparr>store = ([], False), vals = None, reached_named_section = False\<rparr>"
    using Sections_ok by (simp add: together_def loader_ok_def section_of_def Find_def Sections_def)
  ultimately show ?thesis
    unfolding read_section_def read_helper_def LoadKeyFile_def section_of_def [symmetric] together_def by blast
qed

text \<open>
  C24. Reading one section and looking it up in the whole file agree: for every text, \<open>KeyFileReadSection\<close> loads the values
  that the section has in the file as \<open>KeyFileReadHelper\<close> reads it, and reports that it was found exactly if it is there,
  also if the section is unnamed, or begins several times, or one of its keys is set twice.
\<close>

theorem read_section_agrees:
  "read_section False name content =
    (case Find False (read_helper False None content) name of Some m \<Rightarrow> (m, True) | None \<Rightarrow> ([], False))"
  by (rule read_section_eq)

end
