(* ===== verification/PosCache.thy ===== *)
theory PosCache
  imports KeyVals KeyRead "HOL-Library.Multiset"
begin

text \<open>
  The cache of positions in files (\<^verbatim>\<open>far/src/hist/poscache.cpp\<close>), kept in a key file: one section for each file, with
  the parameters, the bookmarks and a time. The name of the section (\<open>MakeSectionName\<close>) is an argument.
\<close>

section \<open>Positions\<close>

record pos_cache =
  Param :: "u64 list"
  Position :: "u64 list option list"

definition POS_NONE :: u64 where
  "POS_NONE = 0xffffffffffffffff"

definition POSCACHE_BOOKMARK_COUNT :: nat where
  "POSCACHE_BOOKMARK_COUNT = 10"

definition POSCACHE_PARAM_COUNT :: nat where
  "POSCACHE_PARAM_COUNT = 5"

definition POSCACHE_POSITION_COUNT :: nat where
  "POSCACHE_POSITION_COUNT = 4"

text \<open>The loops that look for the last value worth saving.\<close>

fun count_to_save :: "(u64 \<Rightarrow> bool) \<Rightarrow> u64 list \<Rightarrow> nat \<Rightarrow> nat" where
  "count_to_save keep xs 0 = 0"
| "count_to_save keep xs (Suc i) = (if keep (xs ! i) then Suc i else count_to_save keep xs i)"

definition ParamCountToSave :: "u64 list \<Rightarrow> nat" where
  "ParamCountToSave param = count_to_save (\<lambda>v. v \<noteq> 0) param POSCACHE_PARAM_COUNT"

definition PositionCountToSave :: "u64 list option \<Rightarrow> nat" where
  "PositionCountToSave position =
     (case position of
        Some p \<Rightarrow> count_to_save (\<lambda>v. v \<noteq> POS_NONE) p POSCACHE_BOOKMARK_COUNT
      | None \<Rightarrow> 0)"

text \<open>Arrays of 64-bit numbers as bytes in memory, the low byte first.\<close>

definition u64_bytes :: "u64 \<Rightarrow> bytes" where
  "u64_bytes v = map (\<lambda>i. ucast (drop_bit (8 * i) v)) [0..<8]"

definition memory :: "u64 list \<Rightarrow> bytes" where
  "memory vs = concat (map u64_bytes vs)"

definition u64_at :: "bytes \<Rightarrow> nat \<Rightarrow> u64" where
  "u64_at m i = foldr (\<lambda>b v. push_bit 8 v OR ucast b) (take 8 (drop (8 * i) m)) 0"

definition array_of :: "nat \<Rightarrow> bytes \<Rightarrow> u64 list" where
  "array_of n m = map (u64_at m) [0..<n]"

section \<open>The cache\<close>

datatype cache_kind = FPCK_VIEWER | FPCK_EDITOR

record pos_settings =
  MaxPositionCache :: int
  viewer_SavePos :: bool
  editor_SavePos :: bool

record position_cache =
  kind :: cache_kind
  kf_path :: bytes
  kfh :: "key_file option"

definition FilePositionCache :: "cache_kind \<Rightarrow> bytes \<Rightarrow> position_cache" where
  "FilePositionCache k path = \<lparr>kind = k, kf_path = path, kfh = None\<rparr>"

definition key_TS :: bytes where "key_TS = [0x54, 0x53]"
definition key_Par :: bytes where "key_Par = [0x50, 0x61, 0x72]"
definition key_Pos :: "nat \<Rightarrow> bytes" where "key_Pos i = [0x50, 0x6f, 0x73, 0x30 + of_nat i]"

fun remove_sections :: "bytes list \<Rightarrow> key_file \<Rightarrow> key_file option" where
  "remove_sections [] H = Some H"
| "remove_sections (s # ss) H = do { (_, H) \<leftarrow> RemoveSection s H; remove_sections ss H }"

text \<open>\<open>std::sort\<close>, by the time of a section, is an argument. \<open>None\<close> is a read behind the end of the vector.\<close>

definition ApplyElementsLimit ::
  "((bytes \<Rightarrow> u64) \<Rightarrow> bytes list \<Rightarrow> bytes list) \<Rightarrow> int \<Rightarrow> key_file \<Rightarrow> key_file option" where
  "ApplyElementsLimit std_sort max_count H =
     (if int (SectionsCount H) > max_count + (if max_count < 0 then - (- max_count div 4) else max_count div 4) + 16 then
        let sects = std_sort (\<lambda>s. GetULL H s key_TS 0) (EnumSections H);
            cnt = int (length sects) - max_count
        in if cnt > int (length sects) then None else remove_sections (take (nat cnt) sects) H
      else Some H)"

definition CheckForSave ::
  "file_calls \<Rightarrow> bytes \<Rightarrow> pos_settings \<Rightarrow> position_cache \<Rightarrow> (bytes \<Rightarrow> bytes option) \<Rightarrow>
    (position_cache \<times> (bytes \<Rightarrow> bytes option)) option"
where
  "CheckForSave sys tmp opt cache fs =
     (case kfh cache of
        Some H \<Rightarrow>
          if kind cache = FPCK_VIEWER \<and> viewer_SavePos opt \<or> kind cache = FPCK_EDITOR \<and> editor_SavePos opt then
            do { (saved, H, fs) \<leftarrow> Save sys tmp True H fs;
                 Some (cache\<lparr>kfh := if saved then None else Some H\<rparr>, fs) }
          else Some (cache, fs)
      | None \<Rightarrow> Some (cache, fs))"

fun store_positions :: "bytes \<Rightarrow> nat \<Rightarrow> u64 list option list \<Rightarrow> key_file \<Rightarrow> key_file" where
  "store_positions sec i [] H = H"
| "store_positions sec i (p # ps) H =
     (let save_count = PositionCountToSave p in
      store_positions sec (i + 1) ps
        (if save_count \<noteq> 0 then SetBytes sec (key_Pos i) (memory (take save_count (the p))) 0 H
         else RemoveKey sec (key_Pos i) H))"

definition store_position :: "bytes \<Rightarrow> pos_cache \<Rightarrow> u64 \<Rightarrow> key_file \<Rightarrow> key_file option" where
  "store_position sec pc now H =
     (let save_count = ParamCountToSave (Param pc);
          some_position = list_ex (\<lambda>p. PositionCountToSave p \<noteq> 0) (Position pc);
          have_some_to_save = (save_count \<noteq> 0 \<or> some_position);
          H = (if save_count \<noteq> 0 then SetBytes sec key_Par (memory (take save_count (Param pc))) 0 H
               else if some_position then RemoveKey sec key_Par H else H)
      in if have_some_to_save then Some (SetULL sec key_TS now (store_positions sec 0 (Position pc) H))
         else map_option snd (RemoveSection sec H))"

definition AddPosition ::
  "file_calls \<Rightarrow> bytes \<Rightarrow> ((bytes \<Rightarrow> u64) \<Rightarrow> bytes list \<Rightarrow> bytes list) \<Rightarrow> pos_settings \<Rightarrow> u64 \<Rightarrow> bytes \<Rightarrow> pos_cache \<Rightarrow>
    position_cache \<Rightarrow> (bytes \<Rightarrow> bytes option) \<Rightarrow> (position_cache \<times> (bytes \<Rightarrow> bytes option)) option"
where
  "AddPosition sys tmp std_sort opt now sec pc cache fs =
     do { let H = (case kfh cache of Some H \<Rightarrow> H | None \<Rightarrow> KeyFileHelper (kf_path cache) (fs (kf_path cache)) True False);
          H \<leftarrow> ApplyElementsLimit std_sort (MaxPositionCache opt) H;
          H \<leftarrow> store_position sec pc now H;
          CheckForSave sys tmp opt (cache\<lparr>kfh := Some H\<rparr>) fs }"

text \<open>The arrays that the caller passes are overwritten; a null pointer stays one. \<open>None\<close> stands for \<open>false\<close>.\<close>

definition read_array :: "key_values \<Rightarrow> bytes \<Rightarrow> nat \<Rightarrow> u8 \<Rightarrow> u64 list" where
  "read_array m key n fill = array_of n (fst (values_GetBytes m (replicate (8 * n) fill) key None))"

fun read_positions :: "key_values \<Rightarrow> nat \<Rightarrow> u64 list option list \<Rightarrow> u64 list option list" where
  "read_positions m i [] = []"
| "read_positions m i (p # ps) =
     (case p of Some _ \<Rightarrow> Some (read_array m (key_Pos i) POSCACHE_BOOKMARK_COUNT 0xff) | None \<Rightarrow> None) # read_positions m (i + 1) ps"

definition GetPosition :: "bytes \<Rightarrow> pos_cache \<Rightarrow> position_cache \<Rightarrow> (bytes \<Rightarrow> bytes option) \<Rightarrow> pos_cache option" where
  "GetPosition sec pc cache fs =
     do { m \<leftarrow> (case kfh cache of
                  Some H \<Rightarrow> GetSectionValues H sec
                | None \<Rightarrow>
                    (case fs (kf_path cache) of
                       Some content \<Rightarrow> (let (m, loaded) = read_section False sec content in if loaded then Some m else None)
                     | None \<Rightarrow> None));
          Some (pc\<lparr>Param := read_array m key_Par POSCACHE_PARAM_COUNT 0, Position := read_positions m 0 (Position pc)\<rparr>) }"

section \<open>Arrays in memory\<close>

lemma join_bytes:
  "foldr (\<lambda>b v. push_bit 8 v OR ucast b) (map (\<lambda>i. ucast (drop_bit (8 * i) v) :: u8) [k..<k + n]) 0 = take_bit (8 * n) (drop_bit (8 * k) (v :: u64))"
proof (induction n arbitrary: k)
  case (Suc n)
  have u: "[k..<k + Suc n] = k # [Suc k..<Suc k + n]" by (simp add: upt_conv_Cons del: upt_Suc)
  have b: "push_bit 8 (take_bit (8 * n) (drop_bit (8 * Suc k) v)) OR ucast (ucast (drop_bit (8 * k) v) :: u8) =
      take_bit (8 * Suc n) (drop_bit (8 * k) v)"
    by (rule bit_word_eqI) (auto simp: bit_simps algebra_simps)
  show ?case unfolding u using Suc.IH [of "Suc k"] b by simp
qed simp

lemma length_u64_bytes [simp]: "length (u64_bytes v) = 8"
  by (simp add: u64_bytes_def)

lemma length_memory [simp]: "length (memory vs) = 8 * length vs"
  by (induction vs) (simp_all add: memory_def)

lemma memory_append: "memory (vs @ ws) = memory vs @ memory ws"
  by (simp add: memory_def)

lemma drop_memory: "drop (8 * i) (memory vs) = memory (drop i vs)"
proof (induction vs arbitrary: i)
  case (Cons v vs)
  then show ?case by (cases i) (simp_all add: memory_def)
qed (simp add: memory_def)

lemma array_of_memory: "array_of (length vs) (memory vs) = vs"
proof (rule nth_equalityI)
  fix i
  assume "i < length (array_of (length vs) (memory vs))"
  then have i: "i < length vs" by (simp add: array_of_def)
  have "take 8 (drop (8 * i) (memory vs)) = u64_bytes (vs ! i)"
    unfolding drop_memory by (simp add: memory_def drop_nth_Cons [OF i])
  moreover have "take_bit 64 (vs ! i) = vs ! i" by (rule bit_word_eqI) (simp add: bit_simps)
  ultimately have "u64_at (memory vs) i = vs ! i"
    using join_bytes [of "vs ! i" 0 8] by (simp add: u64_at_def u64_bytes_def)
  then show "array_of (length vs) (memory vs) ! i = vs ! i" using i by (simp add: array_of_def)
qed (simp add: array_of_def)

lemma memory_fill: "memory (replicate n 0) = replicate (8 * n) 0" "memory (replicate n POS_NONE) = replicate (8 * n) 0xff"
proof -
  have b: "u64_bytes 0 = replicate 8 0" "u64_bytes POS_NONE = replicate 8 0xff" by code_simp+
  have "concat (replicate n (replicate 8 c)) = replicate (8 * n) c" for c :: u8
    by (induction n) (simp_all add: replicate_add [symmetric])
  then show "memory (replicate n 0) = replicate (8 * n) 0" "memory (replicate n POS_NONE) = replicate (8 * n) 0xff"
    by (simp_all add: memory_def map_replicate b)
qed

section \<open>The values worth saving\<close>

lemma count_to_save_bounds:
  "count_to_save keep xs n \<le> n \<and> (\<forall>i. count_to_save keep xs n \<le> i \<and> i < n \<longrightarrow> \<not> keep (xs ! i)) \<and>
   (count_to_save keep xs n = 0 \<longleftrightarrow> (\<forall>i < n. \<not> keep (xs ! i)))"
proof (induction n)
  case (Suc n)
  then show ?case by (auto simp: less_Suc_eq)
qed simp

lemma count_to_save_fill:
  assumes "length xs = n" "\<And>v. keep v \<longleftrightarrow> v \<noteq> w"
  shows "take (count_to_save keep xs n) xs @ replicate (n - count_to_save keep xs n) w = xs"
proof (rule nth_equalityI)
  note c = count_to_save_bounds [of keep xs n]
  show l: "length (take (count_to_save keep xs n) xs @ replicate (n - count_to_save keep xs n) w) = length xs"
    using c assms(1) by simp
  fix i
  assume "i < length (take (count_to_save keep xs n) xs @ replicate (n - count_to_save keep xs n) w)"
  then have "i < n" using l assms(1) by simp
  then show "(take (count_to_save keep xs n) xs @ replicate (n - count_to_save keep xs n) w) ! i = xs ! i"
    using c assms by (cases "i < count_to_save keep xs n") (auto simp: nth_append)
qed

text \<open>An array that was stored up to its last value worth saving is read in full.\<close>

definition stored_array :: "nat \<Rightarrow> u64 list \<Rightarrow> bytes option" where
  "stored_array k vs = (if k = 0 then None else Some (hex_bytes 0 (memory (take k vs))))"

lemma read_array_stored:
  assumes "look m key = stored_array (count_to_save keep vs n) vs" "length vs = n" "\<And>v. keep v \<longleftrightarrow> v \<noteq> w"
    "memory (replicate (n - count_to_save keep vs n) w) = replicate (8 * (n - count_to_save keep vs n)) fill"
  shows "read_array m key n fill = vs"
proof -
  let ?k = "count_to_save keep vs n"
  have k: "?k \<le> n" using count_to_save_bounds by blast
  have "fst (values_GetBytes m (replicate (8 * n) fill) key None) = memory (take ?k vs) @ replicate (8 * (n - ?k)) fill"
  proof (cases "?k = 0")
    case True
    then have "map_find False m key = None" using assms(1) by (simp add: look_def stored_array_def)
    then show ?thesis using True by (simp add: values_GetBytes_def memory_def)
  next
    case False
    then obtain k' where "map_find False m key = Some (k', hex_bytes 0 (memory (take ?k vs)))"
      using assms(1) by (auto simp: look_def stored_array_def)
    then show ?thesis
      using k assms(2) by (simp add: values_GetBytes_def DecodeBytes_hex min_absorb2 diff_mult_distrib2)
  qed
  also have "\<dots> = memory (take ?k vs @ replicate (n - ?k) w)" by (simp add: memory_append assms(4))
  also have "\<dots> = memory vs" by (simp only: count_to_save_fill [where keep = keep, OF assms(2,3)])
  finally show ?thesis using array_of_memory [of vs] assms(2) by (simp add: read_array_def)
qed

section \<open>The operations on a file that follows the disk\<close>

text \<open>
  The key file of the cache at \<open>path\<close>: as long as nothing is to be saved, it has the sections \<open>S\<close> that the disk has.
\<close>

definition follows :: "bytes \<Rightarrow> sections \<Rightarrow> key_file \<Rightarrow> bool" where
  "follows path S H \<longleftrightarrow> file_ok H \<and> \<not> case_insensitive H \<and> filename H = path \<and> (\<not> dirty H \<longrightarrow> kf H = S)"

definition vals_of :: "key_file \<Rightarrow> bytes \<Rightarrow> bytes \<Rightarrow> bytes option" where
  "vals_of H sec = (case contents H (sec_name H sec) of None \<Rightarrow> Map.empty | Some f \<Rightarrow> f)"

lemma SetString_fields [simp]:
  "case_insensitive (SetString sec name val H) = case_insensitive H" "filename (SetString sec name val H) = filename H"
  by (simp_all add: SetString_def Let_def split: prod.split option.split)

lemma RemoveKey_fields [simp]:
  "case_insensitive (RemoveKey sec name H) = case_insensitive H" "filename (RemoveKey sec name H) = filename H"
  by (simp_all add: RemoveKey_def split: prod.split option.split)

lemma SetString_clean: "\<not> dirty (SetString sec name val H) \<Longrightarrow> \<not> dirty H \<and> kf (SetString sec name val H) = kf H"
proof -
  assume d: "\<not> dirty (SetString sec name val H)"
  obtain S k where E: "Ensure (case_insensitive H) (kf H) sec = (S, k)" by (metis prod.exhaust)
  obtain k' where m: "map_find False (values_at (case_insensitive H) S k) name = Some (k', val)"
    using d by (auto simp: SetString_def E Let_def split: option.splits if_splits)
  have "S = kf H"
  proof (cases "map_find (case_insensitive H) (smap (kf H)) sec")
    case None
    then have e: "S = \<lparr>smap = map_emplace (case_insensitive H) sec [] (smap (kf H)), ordered = ordered (kf H) @ [sec]\<rparr>" "k = sec"
      using E by (auto simp: Ensure_def)
    have "map_find ci (map_emplace ci sec v M) sec = Some (sec, v)" if "map_find ci M sec = None" for ci M and v :: key_values
      using that by (induction ci sec v M rule: map_emplace.induct) (auto simp: same_key_fold)
    then have "values_at (case_insensitive H) S k = []" using None unfolding e by (simp add: values_at_def Find_def)
    then show ?thesis using m by simp
  next
    case (Some e)
    then show ?thesis using E by (cases e) (simp add: Ensure_def)
  qed
  then show ?thesis using d m by (simp add: SetString_def E)
qed

lemma RemoveKey_clean: "\<not> dirty (RemoveKey sec name H) \<Longrightarrow> \<not> dirty H \<and> kf (RemoveKey sec name H) = kf H"
  by (auto simp: RemoveKey_def split: option.splits prod.splits if_splits)

lemma follows_SetString:
  assumes "follows path S H"
  shows "follows path S (SetString sec name val H)" "vals_of (SetString sec name val H) sec = (vals_of H sec)(name \<mapsto> val)"
    "GetSectionValues (SetString sec name val H) sec \<noteq> None"
proof -
  have ok: "file_ok H" using assms by (simp add: follows_def)
  note v = SetString_view [OF ok, of sec name val]
  show "follows path S (SetString sec name val H)"
    using assms v(1) SetString_clean [of sec name val H] by (auto simp: follows_def)
  have n: "sec_name (SetString sec name val H) = sec_name H" by (simp add: sec_name_def)
  show "vals_of (SetString sec name val H) sec = (vals_of H sec)(name \<mapsto> val)"
    unfolding vals_of_def n v(2) by (simp split: option.split)
  have "contents (SetString sec name val H) (sec_name (SetString sec name val H) sec) \<noteq> None" unfolding n v(2) by simp
  then show "GetSectionValues (SetString sec name val H) sec \<noteq> None"
    by (simp add: contents_def sec_name_def view_find GetSectionValues_def)
qed

lemma follows_RemoveKey:
  assumes "follows path S H"
  shows "follows path S (RemoveKey sec name H)" "vals_of (RemoveKey sec name H) sec = (vals_of H sec)(name := None)"
proof -
  have ok: "file_ok H" using assms by (simp add: follows_def)
  note v = RemoveKey_view [OF ok, of sec name]
  show "follows path S (RemoveKey sec name H)"
    using assms v(1) RemoveKey_clean [of sec name H] by (auto simp: follows_def)
  have n: "sec_name (RemoveKey sec name H) = sec_name H" by (simp add: sec_name_def)
  show "vals_of (RemoveKey sec name H) sec = (vals_of H sec)(name := None)"
    unfolding vals_of_def n v(2) by (auto split: option.split)
qed

lemma follows_RemoveSection:
  assumes "follows path S H"
  obtains H' where "RemoveSection sec H = Some (GetSectionValues H sec \<noteq> None, H')" "follows path S H'"
    "contents H' = (contents H)(fold_key False sec := None)"
proof -
  have ok: "file_ok H" "\<not> case_insensitive H" using assms by (simp_all add: follows_def)
  have c: "contents H (sec_name H sec) = map_option look (GetSectionValues H sec)"
    unfolding contents_def sec_name_def view_find GetSectionValues_def ..
  obtain H' where H': "RemoveSection sec H = Some (contents H (sec_name H sec) \<noteq> None, H')" "file_ok H'"
    "contents H' = (contents H)(sec_name H sec := None)" "case_insensitive H' = case_insensitive H"
    using RemoveSection_view [OF ok(1)] by blast
  then have f: "filename H' = filename H" "\<not> dirty H' \<longrightarrow> \<not> dirty H \<and> kf H' = kf H"
    by (auto simp: RemoveSection_def split: Option.bind_splits prod.splits if_splits)
  then have "follows path S H'" using H'(2,4) assms by (auto simp: follows_def)
  moreover have "(contents H (sec_name H sec) \<noteq> None) = (GetSectionValues H sec \<noteq> None)" unfolding c by simp
  ultimately show ?thesis using that [of H'] H'(1,3) ok(2) by (simp add: sec_name_def)
qed

lemma follows_loaded:
  "follows path (kf (KeyFileHelper path content True False)) (KeyFileHelper path content True False)"
  using read_helper_ok Sections_ok by (simp add: follows_def KeyFileHelper_def file_ok_def split: option.split)

lemma GetSectionValues_contents: "contents H (sec_name H sec) = map_option look (GetSectionValues H sec)"
  unfolding contents_def sec_name_def view_find GetSectionValues_def ..

lemma vals_of_look: "GetSectionValues H sec = Some m \<Longrightarrow> vals_of H sec = look m"
  by (simp add: vals_of_def GetSectionValues_contents)

section \<open>Storing a position\<close>

lemma key_Pos_eq: "i < 4 \<Longrightarrow> j < 4 \<Longrightarrow> key_Pos i = key_Pos j \<longleftrightarrow> i = j"
proof -
  assume "i < 4" "j < 4"
  then have "(word_of_nat i :: u8) = word_of_nat j \<longleftrightarrow> i = j" by (simp add: word_unat_eq_iff unat_of_nat)
  then show ?thesis by (simp add: key_Pos_def)
qed

lemma keys_differ: "key_Pos i \<noteq> key_TS" "key_Pos i \<noteq> key_Par" "key_Par \<noteq> key_TS"
  by (simp_all add: key_Pos_def key_TS_def key_Par_def)

definition stored_position :: "u64 list option \<Rightarrow> bytes option" where
  "stored_position p = (case p of None \<Rightarrow> None | Some v \<Rightarrow> stored_array (PositionCountToSave p) v)"

lemma store_positions_values:
  "follows path S H \<Longrightarrow> i + length ps \<le> 4 \<Longrightarrow>
    follows path S (store_positions sec i ps H) \<and>
    (\<forall>j < length ps. vals_of (store_positions sec i ps H) sec (key_Pos (i + j)) = stored_position (ps ! j)) \<and>
    (\<forall>key. (\<forall>j < length ps. key \<noteq> key_Pos (i + j)) \<longrightarrow> vals_of (store_positions sec i ps H) sec key = vals_of H sec key)"
proof (induction ps arbitrary: i H)
  case (Cons p ps)
  define H1 where "H1 = (if PositionCountToSave p \<noteq> 0 then SetBytes sec (key_Pos i) (memory (take (PositionCountToSave p) (the p))) 0 H
    else RemoveKey sec (key_Pos i) H)"
  have s: "store_positions sec i (p # ps) H = store_positions sec (i + 1) ps H1" by (simp add: H1_def Let_def)
  have H1: "follows path S H1" "vals_of H1 sec = (vals_of H sec)(key_Pos i := stored_position p)"
    using follows_SetString [OF Cons.prems(1)] follows_RemoveKey [OF Cons.prems(1)]
    by (cases p; simp add: H1_def SetBytes_def stored_position_def stored_array_def PositionCountToSave_def)+
  have ih: "follows path S (store_positions sec (i + 1) ps H1)"
    "\<forall>j < length ps. vals_of (store_positions sec (i + 1) ps H1) sec (key_Pos (i + 1 + j)) = stored_position (ps ! j)"
    "\<forall>key. (\<forall>j < length ps. key \<noteq> key_Pos (i + 1 + j)) \<longrightarrow> vals_of (store_positions sec (i + 1) ps H1) sec key = vals_of H1 sec key"
    using Cons.IH [OF H1(1), of "i + 1"] Cons.prems(2) by auto
  have "vals_of (store_positions sec (i + 1) ps H1) sec (key_Pos i) = stored_position p"
    using ih(3) key_Pos_eq Cons.prems(2) H1(2) by simp
  moreover have "vals_of (store_positions sec (i + 1) ps H1) sec key = vals_of H sec key"
    if k: "\<forall>j < length (p # ps). key \<noteq> key_Pos (i + j)" for key
  proof -
    have "key \<noteq> key_Pos i" "\<forall>j < length ps. key \<noteq> key_Pos (i + 1 + j)" using k by force+
    then show ?thesis using ih(3) H1(2) by simp
  qed
  ultimately show ?case unfolding s using ih(1,2) by (auto simp: less_Suc_eq_0_disj)
qed simp

definition worth_saving :: "pos_cache \<Rightarrow> bool" where
  "worth_saving pc \<longleftrightarrow> (\<exists>v \<in> set (Param pc). v \<noteq> 0) \<or> (\<exists>p. Some p \<in> set (Position pc) \<and> (\<exists>v \<in> set p. v \<noteq> POS_NONE))"

definition arrays_ok :: "pos_cache \<Rightarrow> bool" where
  "arrays_ok pc \<longleftrightarrow> length (Param pc) = POSCACHE_PARAM_COUNT \<and> length (Position pc) = POSCACHE_POSITION_COUNT \<and>
     (\<forall>p. Some p \<in> set (Position pc) \<longrightarrow> length p = POSCACHE_BOOKMARK_COUNT)"

lemma worth_saving_counts:
  assumes "arrays_ok pc"
  shows "worth_saving pc \<longleftrightarrow> ParamCountToSave (Param pc) \<noteq> 0 \<or> list_ex (\<lambda>p. PositionCountToSave p \<noteq> 0) (Position pc)"
proof -
  have a: "count_to_save keep xs n \<noteq> 0 \<longleftrightarrow> (\<exists>v \<in> set xs. keep v)" if "length xs = n" for keep and xs :: "u64 list" and n
    using count_to_save_bounds [of keep xs n] that by (metis in_set_conv_nth)
  have "ParamCountToSave (Param pc) \<noteq> 0 \<longleftrightarrow> (\<exists>v \<in> set (Param pc). v \<noteq> 0)"
    using assms a by (simp add: ParamCountToSave_def arrays_ok_def)
  moreover have "PositionCountToSave p \<noteq> 0 \<longleftrightarrow> (\<exists>q. p = Some q \<and> (\<exists>v \<in> set q. v \<noteq> POS_NONE))" if "p \<in> set (Position pc)" for p
    using assms a that by (cases p) (auto simp: PositionCountToSave_def arrays_ok_def)
  ultimately show ?thesis unfolding worth_saving_def list_ex_iff by metis
qed

lemma store_position_result:
  assumes "follows path S H" "arrays_ok pc"
  obtains H' where "store_position sec pc now H = Some H'" "follows path S H'"
    "worth_saving pc \<Longrightarrow> \<exists>m. GetSectionValues H' sec = Some m \<and>
      look m key_Par = stored_array (ParamCountToSave (Param pc)) (Param pc) \<and>
      (\<forall>i < 4. look m (key_Pos i) = stored_position (Position pc ! i))"
    "\<not> worth_saving pc \<Longrightarrow> GetSectionValues H' sec = None"
proof -
  let ?n = "ParamCountToSave (Param pc)" and ?p = "list_ex (\<lambda>p. PositionCountToSave p \<noteq> 0) (Position pc)"
  note w = worth_saving_counts [OF assms(2)]
  show ?thesis
  proof (cases "worth_saving pc")
    case True
    define H1 where "H1 = (if ?n \<noteq> 0 then SetBytes sec key_Par (memory (take ?n (Param pc))) 0 H
      else if ?p then RemoveKey sec key_Par H else H)"
    have H1: "follows path S H1" "vals_of H1 sec key_Par = stored_array ?n (Param pc)"
      using follows_SetString [OF assms(1)] follows_RemoveKey [OF assms(1)] True w
      by (auto simp: H1_def SetBytes_def stored_array_def)
    have l: "length (Position pc) = 4" using assms(2) by (simp add: arrays_ok_def POSCACHE_POSITION_COUNT_def)
    define H2 where "H2 = store_positions sec 0 (Position pc) H1"
    have H2: "follows path S H2" "\<forall>i < 4. vals_of H2 sec (key_Pos i) = stored_position (Position pc ! i)"
      "vals_of H2 sec key_Par = stored_array ?n (Param pc)"
      using store_positions_values [OF H1(1), of 0 "Position pc" sec] l H1(2) keys_differ(2) [symmetric] by (auto simp: H2_def)
    let ?H3 = "SetULL sec key_TS now H2"
    note t = follows_SetString [OF H2(1), of sec key_TS "ToPrefixedHex now", folded SetULL_def]
    obtain m where m: "GetSectionValues ?H3 sec = Some m" using t(3) by blast
    have "look m = (vals_of H2 sec)(key_TS \<mapsto> ToPrefixedHex now)" using vals_of_look [OF m] t(2) by simp
    moreover have "store_position sec pc now H = Some ?H3"
      using True w unfolding store_position_def Let_def H2_def H1_def by (simp only: if_True)
    ultimately show ?thesis
      using that [of ?H3] t(1) m H2(2,3) keys_differ True by auto
  next
    case False
    then have n: "?n = 0" "\<not> ?p" using w by simp_all
    obtain H' where H': "RemoveSection sec H = Some (GetSectionValues H sec \<noteq> None, H')" "follows path S H'"
      "contents H' = (contents H)(fold_key False sec := None)" using follows_RemoveSection [OF assms(1)] by metis
    have "store_position sec pc now H = Some H'"
      unfolding store_position_def Let_def using n H'(1) by simp
    moreover have "GetSectionValues H' sec = None"
    proof -
      have "\<not> case_insensitive H'" using H'(2) by (simp add: follows_def)
      then have "contents H' (sec_name H' sec) = None" using H'(3) by (simp add: sec_name_def)
      then show ?thesis unfolding GetSectionValues_contents by simp
    qed
    ultimately show ?thesis using that H'(2) False by blast
  qed
qed

section \<open>The limit\<close>

lemma section_set:
  assumes "follows path S H"
  shows "k \<in> set (EnumSections H) \<longleftrightarrow> contents H (fold_key False k) \<noteq> None" "SectionsCount H = card (set (EnumSections H))"
    "distinct (EnumSections H)"
proof -
  have ok: "sections_ok False (kf H)" "\<not> case_insensitive H"
    using assms by (cases "case_insensitive H"; simp add: follows_def file_ok_def)+
  note o = sections_okD [OF ok(1)]
  have "contents H (fold_key False k) \<noteq> None \<longleftrightarrow> (\<exists>e. entries False (smap (kf H)) (fold_key False k) = Some e)"
    using ok(2) by (simp add: contents_def sections_view_def)
  also have "\<dots> \<longleftrightarrow> (\<exists>e. e \<in> set (smap (kf H)) \<and> fst e = k)" unfolding entries_iff [OF o(1)] by simp
  also have "\<dots> \<longleftrightarrow> k \<in> set (EnumSections H)" unfolding EnumSections_def o(3) by force
  finally show "k \<in> set (EnumSections H) \<longleftrightarrow> contents H (fold_key False k) \<noteq> None" ..
  show d: "distinct (EnumSections H)" using o(2) by (simp add: EnumSections_def)
  have "distinct (map (fold_key False) (map fst (smap (kf H))))" using o(1) by (simp add: map_ok_def strict_sorted_iff)
  then have "distinct (map fst (smap (kf H)))" unfolding distinct_map by blast
  then have "length (map fst (smap (kf H))) = card (set (map fst (smap (kf H))))" by (rule distinct_card [symmetric])
  then show "SectionsCount H = card (set (EnumSections H))" using o(3) by (simp add: SectionsCount_def EnumSections_def)
qed

lemma remove_sections_result:
  "follows path S H \<Longrightarrow> \<exists>H'. remove_sections ss H = Some H' \<and> follows path S H' \<and>
    contents H' = (\<lambda>x. if x \<in> fold_key False ` set ss then None else contents H x)"
proof (induction ss arbitrary: H)
  case (Cons s ss)
  obtain H1 where H1: "RemoveSection s H = Some (GetSectionValues H s \<noteq> None, H1)" "follows path S H1"
    "contents H1 = (contents H)(fold_key False s := None)" using follows_RemoveSection [OF Cons.prems] by metis
  obtain H' where H': "remove_sections ss H1 = Some H'" "follows path S H'"
    "contents H' = (\<lambda>x. if x \<in> fold_key False ` set ss then None else contents H1 x)" using Cons.IH [OF H1(2)] by blast
  have "contents H' = (\<lambda>x. if x \<in> fold_key False ` set (s # ss) then None else contents H x)"
    unfolding H'(3) H1(3) by (auto simp: fun_eq_iff)
  then show ?case using H1(1) H'(1,2) by auto
qed simp

text \<open>What the code relies on: \<open>std::sort\<close> puts the elements in the order of the keys.\<close>

definition sorts :: "((bytes \<Rightarrow> u64) \<Rightarrow> bytes list \<Rightarrow> bytes list) \<Rightarrow> bool" where
  "sorts std_sort \<longleftrightarrow> (\<forall>f xs. mset (std_sort f xs) = mset xs \<and> sorted (map f (std_sort f xs)))"

lemma ApplyElementsLimit_result:
  assumes "follows path S H" "0 \<le> max_count" "sorts std_sort"
  obtains H' where "ApplyElementsLimit std_sort max_count H = Some H'" "follows path S H'"
    "int (SectionsCount H') \<le> max_count + max_count div 4 + 16"
    "\<forall>k \<in> set (EnumSections H'). k \<in> set (EnumSections H) \<and> contents H' (fold_key False k) = contents H (fold_key False k)"
    "\<forall>r \<in> set (EnumSections H) - set (EnumSections H'). \<forall>k \<in> set (EnumSections H'). GetULL H r key_TS 0 \<le> GetULL H k key_TS 0"
    "int (SectionsCount H) \<le> max_count + max_count div 4 + 16 \<longrightarrow> H' = H"
    "int (SectionsCount H) > max_count + max_count div 4 + 16 \<longrightarrow> int (SectionsCount H') = max_count"
proof (cases "int (SectionsCount H) > max_count + max_count div 4 + 16")
  case False
  then have "ApplyElementsLimit std_sort max_count H = Some H" using assms(2) by (simp add: ApplyElementsLimit_def)
  then show ?thesis using that [of H] assms(1) False by simp
next
  case True
  let ?f = "\<lambda>s. GetULL H s key_TS 0"
  define sects where "sects = std_sort ?f (EnumSections H)"
  define n where "n = nat (int (length sects) - max_count)"
  have m: "mset sects = mset (EnumSections H)" "sorted (map ?f sects)" using assms(3) by (simp_all add: sorts_def sects_def)
  note o = section_set [OF assms(1)]
  have st: "set sects = set (EnumSections H)" "length sects = length (EnumSections H)" "distinct sects"
    using m(1) o(3) mset_eq_setD mset_eq_length mset_eq_imp_distinct_iff by blast+
  have l: "length sects = SectionsCount H" using st(2) o(2,3) by (simp add: distinct_card)
  have c: "0 < n" "n \<le> length sects" "int n = int (length sects) - max_count" using True assms(2) l by (simp_all add: n_def)
  obtain H' where H': "remove_sections (take n sects) H = Some H'" "follows path S H'"
    "contents H' = (\<lambda>x. if x \<in> fold_key False ` set (take n sects) then None else contents H x)"
    using remove_sections_result [OF assms(1)] by blast
  note o' = section_set [OF H'(2)]
  have e: "set (EnumSections H') = set (drop n sects)"
  proof -
    have "set sects = set (take n sects) \<union> set (drop n sects)" by (metis append_take_drop_id set_append)
    moreover have "set (take n sects) \<inter> set (drop n sects) = {}" using st(3) by (simp add: set_take_disj_set_drop_if_distinct)
    moreover have "set (EnumSections H') = set sects - set (take n sects)"
      using o'(1) o(1) st(1) H'(3) by (auto split: if_splits)
    ultimately show ?thesis by blast
  qed
  have "SectionsCount H' = length (drop n sects)" using o'(2) e st(3) distinct_card [of "drop n sects"] by simp
  then have cnt: "int (SectionsCount H') = max_count" using c by simp
  have "ApplyElementsLimit std_sort max_count H = Some H'"
    using True H'(1) assms(2) c(2,3) by (simp add: ApplyElementsLimit_def Let_def sects_def [symmetric] n_def [symmetric])
  moreover have "contents H' (fold_key False k) = contents H (fold_key False k)" if "k \<in> set (EnumSections H')" for k
    using o'(1) [of k] that H'(3) by (auto split: if_splits)
  moreover have "?f r \<le> ?f k" if r: "r \<in> set (EnumSections H) - set (EnumSections H')" and k: "k \<in> set (EnumSections H')" for r k
  proof -
    have "r \<in> set (take n sects)" using r e st(1) by (metis DiffE Un_iff append_take_drop_id set_append)
    moreover have "sorted (map ?f (take n sects) @ map ?f (drop n sects))" using m(2) by (simp flip: map_append)
    ultimately show ?thesis using k e by (auto simp: sorted_append)
  qed
  moreover have "k \<in> set (EnumSections H)" if "k \<in> set (EnumSections H')" for k
    using that e st(1) in_set_dropD by metis
  ultimately show ?thesis using that [of H'] H'(2) cnt True assms(2) by simp
qed

section \<open>Saving and reading\<close>

definition on_disk :: "bytes \<Rightarrow> (bytes \<Rightarrow> bytes option) \<Rightarrow> sections" where
  "on_disk path fs = kf (KeyFileHelper path (fs path) True False)"

lemma CheckForSave_result:
  assumes "follows (kf_path cache) (on_disk (kf_path cache) fs) H" "tmp \<noteq> kf_path cache"
  obtains cache' fs' where "CheckForSave sys tmp opt (cache\<lparr>kfh := Some H\<rparr>) fs = Some (cache', fs')" "kf_path cache' = kf_path cache"
    "kfh cache' = None \<and> on_disk (kf_path cache) fs' = kf H \<or>
     kfh cache' = Some H \<and> follows (kf_path cache) (on_disk (kf_path cache) fs') H"
proof (cases "kind cache = FPCK_VIEWER \<and> viewer_SavePos opt \<or> kind cache = FPCK_EDITOR \<and> editor_SavePos opt")
  case False
  then show ?thesis using that [of "cache\<lparr>kfh := Some H\<rparr>" fs] assms(1) by (auto simp: CheckForSave_def)
next
  case True
  have f: "file_ok H" "\<not> case_insensitive H" "filename H = kf_path cache" using assms(1) by (simp_all add: follows_def)
  show ?thesis
  proof (cases "dirty H")
    case False
    then have "kf H = on_disk (kf_path cache) fs" using assms(1) by (simp add: follows_def)
    then show ?thesis
      using that [of "cache\<lparr>kfh := None\<rparr>" fs] False True by (simp add: CheckForSave_def Save_def)
  next
    case d: True
    obtain texts where t: "section_texts (case_insensitive H) (smap (kf H)) (ordered (kf H)) = Some texts"
      "read_helper (case_insensitive H) None (concat texts) = kf H"
      using load_texts f(1) unfolding file_ok_def by blast
    from d have "True \<longrightarrow> dirty H" by simp
    from this t(1) show ?thesis
    proof (cases rule: Save_outcomes [of True H texts sys tmp fs])
      case saved
      have "on_disk (kf_path cache) (fs(tmp := None, filename H \<mapsto> concat texts)) = kf H"
        using t(2) f(2,3) by (simp add: on_disk_def KeyFileHelper_def)
      then show ?thesis
        using that [of "cache\<lparr>kfh := None\<rparr>"] saved True by (simp add: CheckForSave_def)
    next
      case (failed fs')
      then have "on_disk (kf_path cache) fs' = on_disk (kf_path cache) fs" using assms(2) by (simp add: on_disk_def)
      then show ?thesis
        using that [of "cache\<lparr>kfh := Some H\<rparr>" fs'] failed(1) True assms(1) by (simp add: CheckForSave_def)
    qed
  qed
qed

text \<open>The values of a section, from the memory or from the disk.\<close>

definition current_values :: "bytes \<Rightarrow> position_cache \<Rightarrow> (bytes \<Rightarrow> bytes option) \<Rightarrow> key_values option" where
  "current_values sec cache fs =
     (case kfh cache of Some H \<Rightarrow> GetSectionValues H sec | None \<Rightarrow> Find False (on_disk (kf_path cache) fs) sec)"

lemma GetPosition_values:
  "GetPosition sec pc cache fs =
    map_option (\<lambda>m. pc\<lparr>Param := read_array m key_Par POSCACHE_PARAM_COUNT 0, Position := read_positions m 0 (Position pc)\<rparr>)
      (current_values sec cache fs)"
proof (cases "kfh cache")
  case None
  have r: "read_section False sec content = (case Find False (read_helper False None content) sec of Some m \<Rightarrow> (m, True) | None \<Rightarrow> ([], False))" for content
    by (rule read_section_eq)
  show ?thesis
    using None by (cases "fs (kf_path cache)")
      (auto simp: GetPosition_def current_values_def on_disk_def KeyFileHelper_def r Find_def Sections_def split: option.splits)
next
  case (Some H)
  then show ?thesis by (cases "GetSectionValues H sec") (simp_all add: GetPosition_def current_values_def)
qed

lemma read_positions_stored:
  assumes "\<forall>j < length ps. look m (key_Pos (i + j)) = stored_position (ps ! j)" "\<forall>p. Some p \<in> set ps \<longrightarrow> length p = POSCACHE_BOOKMARK_COUNT"
    "length out = length ps"
  shows "read_positions m i out = map2 (\<lambda>p q. map_option (\<lambda>_. case p of Some v \<Rightarrow> v | None \<Rightarrow> replicate POSCACHE_BOOKMARK_COUNT POS_NONE) q) ps out"
  using assms
proof (induction ps arbitrary: i out)
  case (Cons p ps)
  obtain q qs where o: "out = q # qs" using Cons.prems(3) by (cases out) simp_all
  let ?v = "case p of Some v \<Rightarrow> v | None \<Rightarrow> replicate POSCACHE_BOOKMARK_COUNT POS_NONE"
  have c: "count_to_save (\<lambda>v. v \<noteq> POS_NONE) (replicate n POS_NONE) n = 0" for n
    using count_to_save_bounds [of "\<lambda>v. v \<noteq> POS_NONE" "replicate n POS_NONE" n] by simp
  have "look m (key_Pos i) = stored_position p" using Cons.prems(1) by force
  then have l: "look m (key_Pos i) = stored_array (count_to_save (\<lambda>v. v \<noteq> POS_NONE) ?v POSCACHE_BOOKMARK_COUNT) ?v"
    by (cases p) (simp_all add: stored_position_def PositionCountToSave_def c stored_array_def)
  have n: "length ?v = POSCACHE_BOOKMARK_COUNT" using Cons.prems(2) by (cases p) simp_all
  have "read_array m (key_Pos i) POSCACHE_BOOKMARK_COUNT 0xff = ?v"
    by (rule read_array_stored [where keep = "\<lambda>v. v \<noteq> POS_NONE" and w = POS_NONE, OF l n refl memory_fill(2)])
  moreover have "\<forall>j < length ps. look m (key_Pos (i + 1 + j)) = stored_position (ps ! j)"
    using Cons.prems(1) by (auto simp: less_Suc_eq_0_disj)
  ultimately show ?case using Cons.IH [of "i + 1" qs] Cons.prems(2,3) o by (cases q) simp_all
qed simp

text \<open>What the cache keeps true: a file in memory is well formed, and if it has nothing to save, is what is on the disk.\<close>

definition cache_follows :: "position_cache \<Rightarrow> (bytes \<Rightarrow> bytes option) \<Rightarrow> bool" where
  "cache_follows cache fs \<longleftrightarrow> (case kfh cache of Some H \<Rightarrow> follows (kf_path cache) (on_disk (kf_path cache) fs) H | None \<Rightarrow> True)"

text \<open>
  C6. A position that was added is found: after \<open>AddPosition\<close>, whatever was in the cache and in its file, and whether the
  file is kept in memory, was saved and released, or could not be saved, \<open>GetPosition\<close> gives the parameters and the bookmarks
  (the absent ones as \<open>POS_NONE\<close>), and reports that there is none if nothing was worth saving. The cache goes on to
  follow the disk, so that this holds after any sequence of calls.
\<close>

theorem AddPosition_GetPosition:
  assumes "cache_follows cache fs" "arrays_ok pc" "length (Position out) = POSCACHE_POSITION_COUNT"
    "0 \<le> MaxPositionCache opt" "sorts std_sort" "tmp \<noteq> kf_path cache"
  shows "\<exists>cache' fs'. AddPosition sys tmp std_sort opt now sec pc cache fs = Some (cache', fs') \<and> cache_follows cache' fs' \<and>
    GetPosition sec out cache' fs' =
      (if worth_saving pc
       then Some (out\<lparr>Param := Param pc,
         Position := map2 (\<lambda>p q. map_option (\<lambda>_. case p of Some v \<Rightarrow> v | None \<Rightarrow> replicate POSCACHE_BOOKMARK_COUNT POS_NONE) q)
           (Position pc) (Position out)\<rparr>)
       else None)"
proof -
  let ?path = "kf_path cache"
  define H where "H = (case kfh cache of Some H \<Rightarrow> H | None \<Rightarrow> KeyFileHelper ?path (fs ?path) True False)"
  have H: "follows ?path (on_disk ?path fs) H"
    using assms(1) follows_loaded by (auto simp: H_def cache_follows_def on_disk_def split: option.split)
  obtain H1 where H1: "ApplyElementsLimit std_sort (MaxPositionCache opt) H = Some H1" "follows ?path (on_disk ?path fs) H1"
    by (rule ApplyElementsLimit_result [OF H assms(4,5)])
  obtain H2 where H2: "store_position sec pc now H1 = Some H2" "follows ?path (on_disk ?path fs) H2"
    "worth_saving pc \<Longrightarrow> \<exists>m. GetSectionValues H2 sec = Some m \<and>
      look m key_Par = stored_array (ParamCountToSave (Param pc)) (Param pc) \<and>
      (\<forall>i < 4. look m (key_Pos i) = stored_position (Position pc ! i))"
    "\<not> worth_saving pc \<Longrightarrow> GetSectionValues H2 sec = None"
    using store_position_result [OF H1(2) assms(2)] by metis
  obtain cache' fs' where c: "CheckForSave sys tmp opt (cache\<lparr>kfh := Some H2\<rparr>) fs = Some (cache', fs')" "kf_path cache' = ?path"
    "kfh cache' = None \<and> on_disk ?path fs' = kf H2 \<or> kfh cache' = Some H2 \<and> follows ?path (on_disk ?path fs') H2"
    using CheckForSave_result [OF H2(2) assms(6)] by metis
  have a: "AddPosition sys tmp std_sort opt now sec pc cache fs = Some (cache', fs')"
    unfolding AddPosition_def Let_def H_def [symmetric] using H1(1) H2(1) c(1) by simp
  have f: "cache_follows cache' fs'" using c(2,3) by (auto simp: cache_follows_def)
  have "\<not> case_insensitive H2" using H2(2) by (simp add: follows_def)
  then have v: "current_values sec cache' fs' = GetSectionValues H2 sec"
    using c(2,3) by (auto simp: current_values_def GetSectionValues_def)
  show ?thesis
  proof (cases "worth_saving pc")
    case True
    obtain m where m: "GetSectionValues H2 sec = Some m" "look m key_Par = stored_array (ParamCountToSave (Param pc)) (Param pc)"
      "\<forall>i < 4. look m (key_Pos i) = stored_position (Position pc ! i)" using H2(3) [OF True] by blast
    have l: "length (Position pc) = 4" "length (Param pc) = POSCACHE_PARAM_COUNT"
      using assms(2) by (simp_all add: arrays_ok_def POSCACHE_POSITION_COUNT_def)
    have "read_array m key_Par POSCACHE_PARAM_COUNT 0 = Param pc"
      by (rule read_array_stored [where keep = "\<lambda>v. v \<noteq> 0" and w = 0, OF m(2) [unfolded ParamCountToSave_def] l(2) refl memory_fill(1)])
    moreover have "read_positions m 0 (Position out) =
        map2 (\<lambda>p q. map_option (\<lambda>_. case p of Some v \<Rightarrow> v | None \<Rightarrow> replicate POSCACHE_BOOKMARK_COUNT POS_NONE) q) (Position pc) (Position out)"
      by (rule read_positions_stored) (use m(3) l assms(2,3) in \<open>simp_all add: arrays_ok_def\<close>)
    ultimately show ?thesis using a f True m(1) by (simp add: GetPosition_values v)
  next
    case False
    then show ?thesis using a f H2(4) by (simp add: GetPosition_values v)
  qed
qed

lemma sorts_sort_key: "sorts sort_key"
  by (simp add: sorts_def)

theorem AddPosition_GetPosition_witness:
  "\<exists>cache' fs'. AddPosition \<lparr>create_ok = True, written = (\<lambda>i. 1000), rename_ok = True, remove_ok = True\<rparr> [2] sort_key
      \<lparr>MaxPositionCache = 512, viewer_SavePos = True, editor_SavePos = True\<rparr> 7 [0x61]
      \<lparr>Param = [1, 2, 0, 4, 0], Position = [None, Some (replicate 10 9), None, None]\<rparr> (FilePositionCache FPCK_EDITOR [1]) Map.empty =
        Some (cache', fs') \<and>
    GetPosition [0x61] \<lparr>Param = [], Position = [None, Some [], Some [], None]\<rparr> cache' fs' =
      Some \<lparr>Param = [1, 2, 0, 4, 0], Position = [None, Some (replicate 10 9), Some (replicate 10 POS_NONE), None]\<rparr>"
proof -
  let ?pc = "\<lparr>Param = [1, 2, 0, 4, 0], Position = [None, Some (replicate 10 9), None, None]\<rparr>"
  have "worth_saving ?pc" by (simp add: worth_saving_def)
  moreover have "arrays_ok ?pc"
    by (auto simp: arrays_ok_def POSCACHE_PARAM_COUNT_def POSCACHE_POSITION_COUNT_def POSCACHE_BOOKMARK_COUNT_def)
  moreover have "cache_follows (FilePositionCache FPCK_EDITOR [1]) Map.empty" by (simp add: cache_follows_def FilePositionCache_def)
  ultimately show ?thesis
    using AddPosition_GetPosition [of "FilePositionCache FPCK_EDITOR [1]" Map.empty ?pc
        "\<lparr>Param = [], Position = [None, Some [], Some [], None]\<rparr>"
        "\<lparr>MaxPositionCache = 512, viewer_SavePos = True, editor_SavePos = True\<rparr>" sort_key "[2]"
        "\<lparr>create_ok = True, written = (\<lambda>i. 1000), rename_ok = True, remove_ok = True\<rparr>" 7 "[0x61]"] sorts_sort_key
    by (auto simp: POSCACHE_POSITION_COUNT_def POSCACHE_BOOKMARK_COUNT_def FilePositionCache_def)
qed

text \<open>
  C33. The cache stays bounded and forgets the oldest positions: \<open>ApplyElementsLimit\<close> never reads behind the sorted names,
  leaves at most a quarter more sections than the limit, and 16, keeps all of them if there are no more than that,
  and otherwise as many as the limit says, none of them older than one that was removed; what it keeps is unchanged.
\<close>

theorem ApplyElementsLimit_bounds:
  assumes "file_ok H" "\<not> case_insensitive H" "0 \<le> max_count" "sorts std_sort"
  shows "\<exists>H'. ApplyElementsLimit std_sort max_count H = Some H' \<and> file_ok H' \<and>
    int (SectionsCount H') \<le> max_count + max_count div 4 + 16 \<and>
    (int (SectionsCount H) \<le> max_count + max_count div 4 + 16 \<longrightarrow> H' = H) \<and>
    (int (SectionsCount H) > max_count + max_count div 4 + 16 \<longrightarrow> int (SectionsCount H') = max_count) \<and>
    (\<forall>k \<in> set (EnumSections H'). k \<in> set (EnumSections H) \<and> contents H' (fold_key False k) = contents H (fold_key False k)) \<and>
    (\<forall>r \<in> set (EnumSections H) - set (EnumSections H'). \<forall>k \<in> set (EnumSections H'). GetULL H r key_TS 0 \<le> GetULL H k key_TS 0)"
proof -
  have "follows (filename H) (kf H) H" using assms(1,2) by (simp add: follows_def)
  then show ?thesis
    by (rule ApplyElementsLimit_result [OF _ assms(3,4)]) (auto simp: follows_def)
qed

theorem ApplyElementsLimit_bounds_witness:
  "\<exists>H'. ApplyElementsLimit sort_key 0 (SetULL [0x61] key_TS 5 (KeyFileHelper [1] None False False)) = Some H' \<and>
    int (SectionsCount H') \<le> 16"
proof -
  have "file_ok (KeyFileHelper [1] None False False)" using Sections_ok by (simp add: KeyFileHelper_def file_ok_def)
  then have "file_ok (SetULL [0x61] key_TS 5 (KeyFileHelper [1] None False False))"
    unfolding SetULL_def by (rule SetString_view(1))
  moreover have "\<not> case_insensitive (SetULL [0x61] key_TS 5 (KeyFileHelper [1] None False False))"
    by (simp add: SetULL_def KeyFileHelper_def)
  ultimately show ?thesis
    using ApplyElementsLimit_bounds [of "SetULL [0x61] key_TS 5 (KeyFileHelper [1] None False False)" 0 sort_key] sorts_sort_key by auto
qed

end
