(* ===== verification/ConBuf.thy ===== *)
theory ConBuf
  imports Prelude
begin

text \<open>
  The screen buffer of the console (\<^verbatim>\<open>WinPort/src/ConsoleBuffer.cpp\<close>): a matrix of cells, read and written by
  rectangles that are cut to the screen and to the data of the caller. A result \<open>None\<close> is a division by zero, an access
  outside an array, or a loop that does not end.
\<close>

section \<open>Cells and coordinates\<close>

type_synonym s16 = "16 word"

record char_info =
  UnicodeChar :: u64
  Attributes :: u64

record coord =
  X :: s16
  Y :: s16

record small_rect =
  Left :: s16
  Top :: s16
  Right :: s16
  Bottom :: s16

record console_buffer =
  con_width :: u32
  con_chars :: "char_info list"

definition ConsoleBuffer :: console_buffer where
  "ConsoleBuffer = \<lparr>con_width = 0, con_chars = []\<rparr>"

definition ConsoleBuffer_GetSize :: "console_buffer \<Rightarrow> u32 \<times> u32" where
  "ConsoleBuffer_GetSize C =
     (con_width C, if con_width C \<noteq> 0 then of_nat (length (con_chars C) div unat (con_width C)) else 0)"

section \<open>Rectangles\<close>

definition OffsetMatrixPtr :: "nat \<Rightarrow> nat \<Rightarrow> nat \<Rightarrow> nat" where
  "OffsetMatrixPtr width x y = y * width + x"

text \<open>The rectangle is changed also if the result is a null pointer.\<close>

definition InspectCopyArea :: "console_buffer \<Rightarrow> coord \<Rightarrow> coord \<Rightarrow> small_rect \<Rightarrow> (small_rect \<times> nat option) option" where
  "InspectCopyArea C data_size data_pos r =
     (if sint (X data_pos) < 0 \<or> sint (Y data_pos) < 0 \<or> sint (X data_size) < 0 \<or> sint (Y data_size) < 0 \<or>
         sint (X data_pos) \<ge> sint (X data_size) \<or> sint (Y data_pos) \<ge> sint (Y data_size)
      then Some (r, None)
      else if con_width C = 0 then None
      else
        let width = con_width C;
            height = (of_nat (length (con_chars C) div unat width) :: u32);
            r = (if sint width \<le> sint (Right r) then r\<lparr>Right := ucast (width - 1)\<rparr> else r);
            r = (if sint height \<le> sint (Bottom r) then r\<lparr>Bottom := ucast (height - 1)\<rparr> else r);
            data_avail_width = X data_size - X data_pos;
            data_avail_height = Y data_size - Y data_pos;
            r = (if sint data_avail_width \<le> sint (Right r) - sint (Left r) then r\<lparr>Right := Left r + data_avail_width - 1\<rparr> else r);
            r = (if sint data_avail_height \<le> sint (Bottom r) - sint (Top r) then r\<lparr>Bottom := Top r + data_avail_height - 1\<rparr> else r)
        in if sint width \<le> sint (Left r) \<or> sint (Right r) < sint (Left r) \<or> sint (Left r) < 0 then Some (r, None)
           else if sint height \<le> sint (Top r) \<or> sint (Bottom r) < sint (Top r) \<or> sint (Top r) < 0 then Some (r, None)
           else Some (r, Some (OffsetMatrixPtr (unat width) (unat (Left r)) (unat (Top r)))))"

text \<open>The loop of both copies: \<open>n\<close> cells of each row, and both pointers move on by their row.\<close>

fun copy_rows :: "nat \<Rightarrow> nat \<Rightarrow> 'a list \<Rightarrow> nat \<Rightarrow> nat \<Rightarrow> 'a list \<Rightarrow> nat \<Rightarrow> nat \<Rightarrow> 'a list option" where
  "copy_rows 0 n src s src_row dst d dst_row = Some dst"
| "copy_rows (Suc rows) n src s src_row dst d dst_row =
     (if s + n \<le> length src \<and> d + n \<le> length dst then
        copy_rows rows n src (s + src_row) src_row (take d dst @ take n (drop s src) @ drop (d + n) dst) (d + dst_row) dst_row
      else None)"

definition rect_rows :: "small_rect \<Rightarrow> nat option" where
  "rect_rows r = (if Bottom r = 0x7fff then None else Some (nat (sint (Bottom r) - sint (Top r) + 1)))"

definition rect_columns :: "small_rect \<Rightarrow> nat" where
  "rect_columns r = nat (sint (Right r) + 1 - sint (Left r))"

definition ConsoleBuffer_Read ::
  "console_buffer \<Rightarrow> char_info list \<Rightarrow> coord \<Rightarrow> coord \<Rightarrow> small_rect \<Rightarrow> (char_info list \<times> small_rect) option" where
  "ConsoleBuffer_Read C dat data_size data_pos r =
     (case InspectCopyArea C data_size data_pos r of
        None \<Rightarrow> None
      | Some (r, None) \<Rightarrow> Some (dat, r)
      | Some (r, Some screen) \<Rightarrow>
          (case rect_rows r of
             None \<Rightarrow> None
           | Some rows \<Rightarrow>
               map_option (\<lambda>dat. (dat, r))
                 (copy_rows rows (rect_columns r) (con_chars C) screen (unat (con_width C)) dat
                   (OffsetMatrixPtr (unat (X data_size)) (unat (X data_pos)) (unat (Y data_pos))) (unat (X data_size)))))"

definition ConsoleBuffer_Write ::
  "console_buffer \<Rightarrow> char_info list \<Rightarrow> coord \<Rightarrow> coord \<Rightarrow> small_rect \<Rightarrow> (console_buffer \<times> small_rect) option" where
  "ConsoleBuffer_Write C dat data_size data_pos r =
     (case InspectCopyArea C data_size data_pos r of
        None \<Rightarrow> None
      | Some (r, None) \<Rightarrow> Some (C, r)
      | Some (r, Some screen) \<Rightarrow>
          (case rect_rows r of
             None \<Rightarrow> None
           | Some rows \<Rightarrow>
               map_option (\<lambda>chars. (C\<lparr>con_chars := chars\<rparr>, r))
                 (copy_rows rows (rect_columns r) dat
                   (OffsetMatrixPtr (unat (X data_size)) (unat (X data_pos)) (unat (Y data_pos))) (unat (X data_size))
                   (con_chars C) screen (unat (con_width C)))))"

section \<open>Size and single cells\<close>

definition blank_cell :: "u64 \<Rightarrow> char_info" where
  "blank_cell attributes = \<lparr>UnicodeChar = 0x20, Attributes = attributes\<rparr>"

definition ConsoleBuffer_SetSize :: "console_buffer \<Rightarrow> u32 \<Rightarrow> u32 \<Rightarrow> u64 \<Rightarrow> console_buffer option" where
  "ConsoleBuffer_SetSize C width height attributes =
     (if width = con_width C \<and> unat (width * height) = length (con_chars C) then Some C
      else
        let prev_size = \<lparr>X = ucast (con_width C),
              Y = if con_width C \<noteq> 0 then of_nat (length (con_chars C) div unat (con_width C)) else 0\<rparr>;
            other_chars = con_chars C;
            C = \<lparr>con_width = width, con_chars = replicate (unat height * unat width) (blank_cell attributes)\<rparr>
        in if other_chars \<noteq> [] \<and> con_chars C \<noteq> [] then
             map_option fst (ConsoleBuffer_Write C other_chars prev_size \<lparr>X = 0, Y = 0\<rparr>
               \<lparr>Left = 0, Top = 0, Right = ucast (width - 1), Bottom = ucast (height - 1)\<rparr>)
           else Some C)"

definition cell_index :: "console_buffer \<Rightarrow> coord \<Rightarrow> nat option" where
  "cell_index C pos =
     (if sint (X pos) < 0 \<or> sint (Y pos) < 0 \<or> sint (X pos) \<ge> sint (con_width C) then None
      else let index = unat (Y pos) * unat (con_width C) + unat (X pos) in
           if index \<ge> length (con_chars C) then None else Some index)"

definition ConsoleBuffer_ReadChar :: "console_buffer \<Rightarrow> coord \<Rightarrow> char_info option" where
  "ConsoleBuffer_ReadChar C pos = map_option (\<lambda>i. con_chars C ! i) (cell_index C pos)"

datatype write_result = WR_BAD | WR_SAME | WR_MODIFIED

definition AreSameChars :: "char_info \<Rightarrow> char_info \<Rightarrow> bool" where
  "AreSameChars one another \<longleftrightarrow> UnicodeChar one = UnicodeChar another \<and> Attributes one = Attributes another"

definition ConsoleBuffer_WriteChar :: "console_buffer \<Rightarrow> char_info \<Rightarrow> coord \<Rightarrow> write_result \<times> console_buffer" where
  "ConsoleBuffer_WriteChar C ch pos =
     (case cell_index C pos of
        None \<Rightarrow> (WR_BAD, C)
      | Some i \<Rightarrow> if AreSameChars (con_chars C ! i) ch then (WR_SAME, C)
                  else (WR_MODIFIED, C\<lparr>con_chars := (con_chars C)[i := ch]\<rparr>))"

definition DirectLineAccess :: "console_buffer \<Rightarrow> nat \<Rightarrow> nat option" where
  "DirectLineAccess C line_index =
     (let offset = line_index * unat (con_width C) in if offset \<ge> length (con_chars C) then None else Some offset)"

section \<open>Copying rows\<close>

lemma copy_rows_result:
  "n \<le> dst_row \<Longrightarrow> \<forall>y < rows. s + y * src_row + n \<le> length src \<Longrightarrow> \<forall>y < rows. d + y * dst_row + n \<le> length dst \<Longrightarrow>
    \<exists>dst'. copy_rows rows n src s src_row dst d dst_row = Some dst' \<and> length dst' = length dst \<and>
      (\<forall>y < rows. \<forall>x < n. dst' ! (d + y * dst_row + x) = src ! (s + y * src_row + x)) \<and>
      (\<forall>i < length dst. (\<forall>y < rows. \<forall>x < n. i \<noteq> d + y * dst_row + x) \<longrightarrow> dst' ! i = dst ! i)"
proof (induction rows arbitrary: s d dst)
  case (Suc rows)
  let ?dst = "take d dst @ take n (drop s src) @ drop (d + n) dst"
  have b: "s + n \<le> length src" "d + n \<le> length dst" using Suc.prems(2,3) by force+
  then have l: "length ?dst = length dst" by simp
  have "s + src_row + y * src_row + n \<le> length src" "d + dst_row + y * dst_row + n \<le> length ?dst" if "y < rows" for y
    using Suc.prems(2,3) that l by (metis Suc_less_eq mult_Suc add.assoc)+
  then obtain dst' where dst': "copy_rows rows n src (s + src_row) src_row ?dst (d + dst_row) dst_row = Some dst'" "length dst' = length ?dst"
    "\<forall>y < rows. \<forall>x < n. dst' ! (d + dst_row + y * dst_row + x) = src ! (s + src_row + y * src_row + x)"
    "\<forall>i < length ?dst. (\<forall>y < rows. \<forall>x < n. i \<noteq> d + dst_row + y * dst_row + x) \<longrightarrow> dst' ! i = ?dst ! i"
    using Suc.IH [OF Suc.prems(1), of "s + src_row" "d + dst_row" ?dst] by blast
  have first: "dst' ! (d + x) = src ! (s + x)" if x: "x < n" for x
  proof -
    have "d + x \<noteq> d + dst_row + y * dst_row + x'" for y x' using x Suc.prems(1) by simp
    then have "dst' ! (d + x) = ?dst ! (d + x)" using dst'(4) x b(2) l by simp
    then show ?thesis using x b by (simp add: nth_append)
  qed
  have "dst' ! (d + y * dst_row + x) = src ! (s + y * src_row + x)" if "y < Suc rows" "x < n" for x y
    using first dst'(3) that by (cases y) (simp_all add: add.assoc)
  moreover have "dst' ! i = dst ! i" if i: "i < length dst" "\<forall>y < Suc rows. \<forall>x < n. i \<noteq> d + y * dst_row + x" for i
  proof -
    have "i \<noteq> d + dst_row + y * dst_row + x" if "y < rows" "x < n" for x y
      using i(2) that by (metis Suc_less_eq mult_Suc add.assoc)
    then have "dst' ! i = ?dst ! i" using dst'(4) i(1) l by simp
    moreover have "i < d \<or> d + n \<le> i"
    proof (rule ccontr)
      assume "\<not> (i < d \<or> d + n \<le> i)"
      then have "i = d + 0 * dst_row + (i - d)" "i - d < n" by linarith+
      then show False using i(2) by blast
    qed
    ultimately show ?thesis using b i(1) by (auto simp: nth_append)
  qed
  ultimately show ?case using b dst'(1,2) l by simp
qed simp

section \<open>What a rectangle stands for\<close>

definition con_height :: "console_buffer \<Rightarrow> nat" where
  "con_height C = length (con_chars C) div unat (con_width C)"

text \<open>The sizes that a \<open>COORD\<close> can hold.\<close>

definition console_ok :: "console_buffer \<Rightarrow> bool" where
  "console_ok C \<longleftrightarrow> 0 < con_width C \<and> unat (con_width C) \<le> 0x7fff \<and> con_height C < 0x7fff \<and>
     length (con_chars C) = con_height C * unat (con_width C)"

definition cell :: "console_buffer \<Rightarrow> nat \<Rightarrow> nat \<Rightarrow> char_info" where
  "cell C x y = con_chars C ! (y * unat (con_width C) + x)"

text \<open>
  The specification of the area: the cells of the screen that are in the rectangle, and for which the data have a cell. A
  rectangle that begins left of or above the screen stands for no cells.
\<close>

definition in_area :: "coord \<Rightarrow> coord \<Rightarrow> small_rect \<Rightarrow> nat \<Rightarrow> nat \<Rightarrow> bool" where
  "in_area data_size data_pos r x y \<longleftrightarrow>
     0 \<le> sint (X data_pos) \<and> 0 \<le> sint (Y data_pos) \<and> 0 \<le> sint (Left r) \<and> 0 \<le> sint (Top r) \<and>
     sint (Left r) \<le> int x \<and> int x \<le> sint (Right r) \<and> sint (Top r) \<le> int y \<and> int y \<le> sint (Bottom r) \<and>
     int x - sint (Left r) + sint (X data_pos) < sint (X data_size) \<and> int y - sint (Top r) + sint (Y data_pos) < sint (Y data_size)"

definition data_index :: "coord \<Rightarrow> coord \<Rightarrow> small_rect \<Rightarrow> nat \<Rightarrow> nat \<Rightarrow> nat" where
  "data_index data_size data_pos r x y =
     nat ((int y - sint (Top r) + sint (Y data_pos)) * sint (X data_size) + (int x - sint (Left r) + sint (X data_pos)))"

definition data_ok :: "'a list \<Rightarrow> coord \<Rightarrow> bool" where
  "data_ok dat data_size \<longleftrightarrow> sint (X data_size) < 0 \<or> sint (Y data_size) < 0 \<or> length dat \<ge> nat (sint (X data_size) * sint (Y data_size))"

section \<open>Short integers\<close>

lemma s16_bounds: "- 32768 \<le> sint (v :: s16)" "sint v < 32768"
  using sint_ge [of v] sint_lt [of v] by simp_all

lemma s16_nonneg: "0 \<le> sint (v :: s16) \<Longrightarrow> int (unat v) = sint v"
  using s16_bounds [of v] uint_sint [of v] by (simp add: take_bit_int_eq_self)

lemma s16_of_int: "- 32768 \<le> n \<Longrightarrow> n < 32768 \<Longrightarrow> sint (word_of_int n :: s16) = n"
  unfolding sint_sbintrunc' by (rule signed_take_bit_int_eq_self) simp_all

lemma s16_diff: "- 32768 \<le> sint a - sint b \<Longrightarrow> sint a - sint b < 32768 \<Longrightarrow> sint (a - b :: s16) = sint a - sint b"
  unfolding sint_word_diff by (rule signed_take_bit_int_eq_self) simp_all

lemma s16_add: "- 32768 \<le> sint a + sint b \<Longrightarrow> sint a + sint b < 32768 \<Longrightarrow> sint (a + b :: s16) = sint a + sint b"
  unfolding sint_word_add by (rule signed_take_bit_int_eq_self) simp_all

lemma s16_of_u32:
  assumes "unat (v :: u32) \<le> 0x7fff"
  shows "sint v = int (unat v)" "sint (ucast (v - 1) :: s16) = int (unat v) - 1"
proof -
  have "int (unat v) \<le> 0x7fff" using assms by linarith
  then have "signed_take_bit 31 (uint v) = uint v" by (intro signed_take_bit_int_eq_self) (simp_all add: order_trans [OF _ uint_ge_0])
  then show "sint v = int (unat v)" by (simp add: sint_uint)
  have "ucast (v - 1) = (word_of_int (uint v - 1) :: s16)"
    unfolding ucast_eq uint_word_arith_bintrs word_of_int_eq_iff by simp
  moreover have "uint v = int (unat v)" by simp
  moreover have "- 32768 \<le> int (unat v) - 1" "int (unat v) - 1 < 32768" using assms by linarith+
  ultimately show "sint (ucast (v - 1) :: s16) = int (unat v) - 1" by (simp only: s16_of_int)
qed

section \<open>Cutting a rectangle\<close>

definition clip :: "u32 \<Rightarrow> s16 \<Rightarrow> s16 \<Rightarrow> s16 \<Rightarrow> s16" where
  "clip v avail low high =
     (let high = (if sint v \<le> sint high then ucast (v - 1) else high)
      in if sint avail \<le> sint high - sint low then low + avail - 1 else high)"

lemma clip_min:
  assumes "unat v \<le> 0x7fff" "0 \<le> sint pos" "sint pos < sint dsize"
  shows "sint (clip v (dsize - pos) low high) = min (min (sint high) (int (unat v) - 1)) (sint low + (sint dsize - sint pos) - 1)"
proof -
  let ?h = "if sint v \<le> sint high then ucast (v - 1) else high"
  have h: "sint ?h = min (sint high) (int (unat v) - 1)" using s16_of_u32 [OF assms(1)] by auto
  have a: "sint (dsize - pos) = sint dsize - sint pos" using assms(2,3) s16_bounds [of dsize] by (intro s16_diff) linarith+
  show ?thesis
  proof (cases "sint (dsize - pos) \<le> sint ?h - sint low")
    case True
    have b: "sint (low + (dsize - pos)) = sint low + sint (dsize - pos)"
      using True a assms(3) s16_bounds [of low] s16_bounds [of ?h] by (intro s16_add) linarith+
    have "sint (low + (dsize - pos) - 1) = sint low + sint (dsize - pos) - 1"
      using b a assms(3) s16_bounds [of low] s16_bounds [of "low + (dsize - pos)"] by (subst s16_diff) simp_all
    moreover have "clip v (dsize - pos) low high = low + (dsize - pos) - 1" using True by (simp add: clip_def Let_def)
    ultimately show ?thesis using True h a by simp
  next
    case False
    then have "clip v (dsize - pos) low high = ?h" unfolding clip_def Let_def by (simp only: if_False)
    then show ?thesis using False h a by simp
  qed
qed

lemma InspectCopyArea_clip:
  assumes "con_width C \<noteq> 0"
  shows "InspectCopyArea C data_size data_pos r =
     (if sint (X data_pos) < 0 \<or> sint (Y data_pos) < 0 \<or> sint (X data_size) < 0 \<or> sint (Y data_size) < 0 \<or>
         sint (X data_pos) \<ge> sint (X data_size) \<or> sint (Y data_pos) \<ge> sint (Y data_size)
      then Some (r, None)
      else
        let height = of_nat (con_height C);
            r = \<lparr>Left = Left r, Top = Top r, Right = clip (con_width C) (X data_size - X data_pos) (Left r) (Right r),
              Bottom = clip height (Y data_size - Y data_pos) (Top r) (Bottom r)\<rparr>
        in if sint (con_width C) \<le> sint (Left r) \<or> sint (Right r) < sint (Left r) \<or> sint (Left r) < 0 then Some (r, None)
           else if sint height \<le> sint (Top r) \<or> sint (Bottom r) < sint (Top r) \<or> sint (Top r) < 0 then Some (r, None)
           else Some (r, Some (OffsetMatrixPtr (unat (con_width C)) (unat (Left r)) (unat (Top r)))))"
proof (cases r)
  case (fields l t rr b)
  have i: "(if c then (r1 :: small_rect) else r2) = \<lparr>Left = if c then Left r1 else Left r2, Top = if c then Top r1 else Top r2,
      Right = if c then Right r1 else Right r2, Bottom = if c then Bottom r1 else Bottom r2\<rparr>" for c r1 r2
    by (cases c) simp_all
  show ?thesis
    using assms unfolding InspectCopyArea_def Let_def fields con_height_def [symmetric] clip_def
    by (simp only: i if_cancel small_rect.simps small_rect.update_convs if_False)
qed

text \<open>What is left of a rectangle is in the screen and in the data, and stands for the same cells.\<close>

definition cut_to :: "console_buffer \<Rightarrow> coord \<Rightarrow> coord \<Rightarrow> small_rect \<Rightarrow> small_rect \<Rightarrow> bool" where
  "cut_to C data_size data_pos r r' \<longleftrightarrow>
     Left r' = Left r \<and> Top r' = Top r \<and>
     0 \<le> sint (X data_pos) \<and> 0 \<le> sint (Y data_pos) \<and> 0 \<le> sint (Left r) \<and> 0 \<le> sint (Top r) \<and>
     sint (Left r) \<le> sint (Right r') \<and> sint (Right r') < int (unat (con_width C)) \<and>
     sint (Top r) \<le> sint (Bottom r') \<and> sint (Bottom r') < int (con_height C) \<and>
     sint (Right r') - sint (Left r) + sint (X data_pos) < sint (X data_size) \<and>
     sint (Bottom r') - sint (Top r) + sint (Y data_pos) < sint (Y data_size) \<and>
     (\<forall>x y. x < unat (con_width C) \<and> y < con_height C \<longrightarrow>
       in_area data_size data_pos r x y \<longleftrightarrow>
         sint (Left r) \<le> int x \<and> int x \<le> sint (Right r') \<and> sint (Top r) \<le> int y \<and> int y \<le> sint (Bottom r'))"

lemma InspectCopyArea_cases:
  assumes "console_ok C"
  obtains (outside) r' where "InspectCopyArea C data_size data_pos r = Some (r', None)"
    "\<forall>x y. x < unat (con_width C) \<and> y < con_height C \<longrightarrow> \<not> in_area data_size data_pos r x y"
  | (inside) r' where "InspectCopyArea C data_size data_pos r = Some (r', Some (unat (Top r) * unat (con_width C) + unat (Left r)))"
    "cut_to C data_size data_pos r r'"
proof -
  have w: "con_width C \<noteq> 0" "unat (con_width C) \<le> 0x7fff" "con_height C \<le> 0x7fff" using assms by (auto simp: console_ok_def)
  have h: "unat (of_nat (con_height C) :: u32) = con_height C" using w(3) by (simp add: unat_of_nat)
  have sw: "sint (con_width C) = int (unat (con_width C))" using s16_of_u32(1) [OF w(2)] .
  have sh: "sint (of_nat (con_height C) :: u32) = int (con_height C)" using s16_of_u32(1) [of "of_nat (con_height C)"] w(3) h by simp
  note i = InspectCopyArea_clip [OF w(1), of data_size data_pos r]
  show ?thesis
  proof (cases "sint (X data_pos) < 0 \<or> sint (Y data_pos) < 0 \<or> sint (X data_size) < 0 \<or> sint (Y data_size) < 0 \<or>
         sint (X data_pos) \<ge> sint (X data_size) \<or> sint (Y data_pos) \<ge> sint (Y data_size)")
    case True
    then have "InspectCopyArea C data_size data_pos r = Some (r, None)" unfolding i by (simp only: if_True)
    moreover have "\<not> in_area data_size data_pos r x y" for x y using True by (auto simp: in_area_def)
    ultimately show ?thesis using outside by blast
  next
    case False
    then have p: "0 \<le> sint (X data_pos)" "0 \<le> sint (Y data_pos)" "sint (X data_pos) < sint (X data_size)"
      "sint (Y data_pos) < sint (Y data_size)" by simp_all
    define r' where "r' = \<lparr>Left = Left r, Top = Top r, Right = clip (con_width C) (X data_size - X data_pos) (Left r) (Right r),
      Bottom = clip (of_nat (con_height C)) (Y data_size - Y data_pos) (Top r) (Bottom r)\<rparr>"
    have f: "Left r' = Left r" "Top r' = Top r" by (simp_all add: r'_def)
    have R: "sint (Right r') = min (min (sint (Right r)) (int (unat (con_width C)) - 1)) (sint (Left r) + (sint (X data_size) - sint (X data_pos)) - 1)"
      unfolding r'_def using clip_min [OF w(2) p(1,3)] by simp
    have B: "sint (Bottom r') = min (min (sint (Bottom r)) (int (con_height C) - 1)) (sint (Top r) + (sint (Y data_size) - sint (Y data_pos)) - 1)"
      unfolding r'_def using clip_min [OF _ p(2,4), of "of_nat (con_height C)"] w(3) h by simp
    have e: "InspectCopyArea C data_size data_pos r =
      (if sint (con_width C) \<le> sint (Left r) \<or> sint (Right r') < sint (Left r) \<or> sint (Left r) < 0 then Some (r', None)
       else if int (con_height C) \<le> sint (Top r) \<or> sint (Bottom r') < sint (Top r) \<or> sint (Top r) < 0 then Some (r', None)
       else Some (r', Some (OffsetMatrixPtr (unat (con_width C)) (unat (Left r)) (unat (Top r)))))"
      using False unfolding i Let_def r'_def [symmetric] f sh by (simp only: if_False)
    have area: "in_area data_size data_pos r x y \<longleftrightarrow> 0 \<le> sint (Left r) \<and> 0 \<le> sint (Top r) \<and>
        sint (Left r) \<le> int x \<and> int x \<le> sint (Right r') \<and> sint (Top r) \<le> int y \<and> int y \<le> sint (Bottom r')"
      if "x < unat (con_width C)" "y < con_height C" for x y
    proof -
      have "int x < int (unat (con_width C))" "int y < int (con_height C)" using that by (simp_all only: of_nat_less_iff)
      then show ?thesis using p unfolding in_area_def R B min_less_iff_conj min.bounded_iff by (intro iffI conjI) linarith+
    qed
    show ?thesis
    proof (cases "sint (Right r') < sint (Left r) \<or> sint (Left r) < 0 \<or> sint (Bottom r') < sint (Top r) \<or> sint (Top r) < 0")
      case True
      then have "InspectCopyArea C data_size data_pos r = Some (r', None)" unfolding e by auto
      then show ?thesis using outside area True by fastforce
    next
      case inner: False
      have "\<not> sint (con_width C) \<le> sint (Left r)" "\<not> int (con_height C) \<le> sint (Top r)" using inner R B sw by linarith+
      then have "InspectCopyArea C data_size data_pos r = Some (r', Some (unat (Top r) * unat (con_width C) + unat (Left r)))"
        using inner unfolding e by (simp add: OffsetMatrixPtr_def)
      moreover have "cut_to C data_size data_pos r r'"
        using inner p f area unfolding cut_to_def R B by auto
      ultimately show ?thesis using inside by blast
    qed
  qed
qed

text \<open>The same in natural numbers.\<close>

lemma cut_to_nat:
  assumes "console_ok C" "cut_to C data_size data_pos r r'" "data_ok dat data_size"
  obtains l t dx dy sx rows cols where "unat (Left r) = l" "unat (Top r) = t" "unat (X data_pos) = dx" "unat (Y data_pos) = dy"
    "unat (X data_size) = sx" "rect_rows r' = Some rows" "rect_columns r' = cols"
    "l + cols \<le> unat (con_width C)" "t + rows \<le> con_height C" "dx + cols \<le> sx" "(dy + rows) * sx \<le> length dat"
    "\<forall>x y. x < unat (con_width C) \<and> y < con_height C \<longrightarrow>
      in_area data_size data_pos r x y \<longleftrightarrow> l \<le> x \<and> x < l + cols \<and> t \<le> y \<and> y < t + rows"
    "\<forall>x y. l \<le> x \<and> t \<le> y \<longrightarrow> data_index data_size data_pos r x y = (dy + (y - t)) * sx + (dx + (x - l))"
proof -
  note c = assms(2) [unfolded cut_to_def]
  obtain l where l: "sint (Left r) = int l" using c zero_le_imp_eq_int by blast
  obtain t where t: "sint (Top r) = int t" using c zero_le_imp_eq_int by blast
  obtain dx where dx: "sint (X data_pos) = int dx" using c zero_le_imp_eq_int by blast
  obtain dy where dy: "sint (Y data_pos) = int dy" using c zero_le_imp_eq_int by blast
  have "0 \<le> sint (X data_size)" "0 \<le> sint (Y data_size)" "0 \<le> sint (Right r')" "0 \<le> sint (Bottom r')" using c by linarith+
  then obtain sx sy rr bb where s: "sint (X data_size) = int sx" "sint (Y data_size) = int sy" "sint (Right r') = int rr" "sint (Bottom r') = int bb"
    by (metis zero_le_imp_eq_int)
  have u: "unat v = n" if "sint (v :: s16) = int n" for v n by (metis s16_nonneg that of_nat_0_le_iff of_nat_eq_iff)
  have b: "l \<le> rr" "rr < unat (con_width C)" "t \<le> bb" "bb < con_height C" "rr - l + dx < sx" "bb - t + dy < sy"
    using c unfolding l t dx dy s by linarith+
  have "Bottom r' \<noteq> 0x7fff"
  proof
    assume "Bottom r' = 0x7fff"
    then have "sint (Bottom r') = 0x7fff" by simp
    then show False using s(4) b(4) assms(1) by (simp add: console_ok_def)
  qed
  then have rows: "rect_rows r' = Some (bb - t + 1)" using c b(3) by (simp add: rect_rows_def s t nat_diff_distrib' nat_add_distrib)
  have cols: "rect_columns r' = rr - l + 1" using c b(1) by (simp add: rect_columns_def s l)
  have "(dy + (bb - t + 1)) * sx \<le> sy * sx" using b(6) by (intro mult_right_mono) simp_all
  moreover have "nat (int sx * int sy) = sy * sx" by (simp add: nat_mult_distrib mult.commute)
  ultimately have d: "(dy + (bb - t + 1)) * sx \<le> length dat" using assms(3) unfolding data_ok_def s by simp
  have area: "\<forall>x y. x < unat (con_width C) \<and> y < con_height C \<longrightarrow>
      in_area data_size data_pos r x y \<longleftrightarrow> l \<le> x \<and> x < l + (rr - l + 1) \<and> t \<le> y \<and> y < t + (bb - t + 1)"
    using c b(1,3) unfolding l t s by auto
  have idx: "\<forall>x y. l \<le> x \<and> t \<le> y \<longrightarrow> data_index data_size data_pos r x y = (dy + (y - t)) * sx + (dx + (x - l))"
  proof (intro allI impI)
    fix x y
    assume "l \<le> x \<and> t \<le> y"
    then obtain x' y' where e: "x = l + x'" "y = t + y'" by (metis le_iff_add)
    have "(int (t + y') - int t + int dy) * int sx + (int (l + x') - int l + int dx) = int ((dy + y') * sx + (dx + x'))"
      by (simp add: algebra_simps)
    then have "nat ((int (t + y') - int t + int dy) * int sx + (int (l + x') - int l + int dx)) = (dy + y') * sx + (dx + x')"
      by (simp only: nat_int)
    then show "data_index data_size data_pos r x y = (dy + (y - t)) * sx + (dx + (x - l))"
      unfolding data_index_def l t dx dy s e by (simp only: add_diff_cancel_left')
  qed
  show ?thesis
    by (rule that [OF u [OF l] u [OF t] u [OF dx] u [OF dy] u [OF s(1)] rows cols _ _ _ d area idx]) (use b in simp_all)
qed

lemma matrix_index: "x < w \<Longrightarrow> x' < w \<Longrightarrow> y * w + x = y' * w + x' \<longleftrightarrow> y = y' \<and> x = (x' :: nat)"
  by (metis add.commute div_mult_self3 div_less mod_mult_self3 mod_less add_0 not_less_zero)

lemma matrix_bound: "x < w \<Longrightarrow> y < h \<Longrightarrow> y * w + x < h * (w :: nat)"
proof -
  assume "x < w" "y < h"
  then have "y * w + x < y * w + w" by simp
  also have "\<dots> = Suc y * w" by simp
  also have "\<dots> \<le> h * w" using \<open>y < h\<close> by (intro mult_le_mono1) simp
  finally show ?thesis .
qed

lemma row_inside: "y < rows \<Longrightarrow> d + n \<le> w \<Longrightarrow> (e + rows) * w \<le> len \<Longrightarrow> (e + y) * w + d + n \<le> (len :: nat)"
proof -
  assume a: "y < rows" "d + n \<le> w" "(e + rows) * w \<le> len"
  have "(e + y) * w + d + n \<le> Suc (e + y) * w" using a(2) by simp
  also have "\<dots> \<le> (e + rows) * w" using a(1) by (intro mult_le_mono1) simp
  finally show ?thesis using a(3) by linarith
qed

lemma Write_result:
  assumes "console_ok C" "data_ok dat data_size"
  obtains C' r' where "ConsoleBuffer_Write C dat data_size data_pos r = Some (C', r')" "console_ok C'"
    "con_width C' = con_width C" "con_height C' = con_height C"
    "\<forall>x y. x < unat (con_width C) \<and> y < con_height C \<longrightarrow>
      cell C' x y = (if in_area data_size data_pos r x y then dat ! data_index data_size data_pos r x y else cell C x y)"
  using assms(1)
proof (cases rule: InspectCopyArea_cases [of C data_size data_pos r])
  case (outside r')
  then show ?thesis using that [of C r'] assms(1) by (simp add: ConsoleBuffer_Write_def)
next
  case (inside r')
  let ?W = "unat (con_width C)"
  have len: "length (con_chars C) = con_height C * ?W" using assms(1) by (simp add: console_ok_def)
  obtain l t dx dy sx rows cols where n: "unat (Left r) = l" "unat (Top r) = t" "unat (X data_pos) = dx" "unat (Y data_pos) = dy"
    "unat (X data_size) = sx" "rect_rows r' = Some rows" "rect_columns r' = cols"
    and b: "l + cols \<le> ?W" "t + rows \<le> con_height C" "dx + cols \<le> sx" "(dy + rows) * sx \<le> length dat"
    and area: "\<forall>x y. x < ?W \<and> y < con_height C \<longrightarrow>
      in_area data_size data_pos r x y \<longleftrightarrow> l \<le> x \<and> x < l + cols \<and> t \<le> y \<and> y < t + rows"
    and idx: "\<forall>x y. l \<le> x \<and> t \<le> y \<longrightarrow> data_index data_size data_pos r x y = (dy + (y - t)) * sx + (dx + (x - l))"
    by (rule cut_to_nat [OF assms(1) inside(2) assms(2)])
  have src: "\<forall>y < rows. dy * sx + dx + y * sx + cols \<le> length dat"
    using row_inside [OF _ b(3,4)] by (simp add: algebra_simps)
  have dst: "\<forall>y < rows. t * ?W + l + y * ?W + cols \<le> length (con_chars C)"
    using row_inside [OF _ b(1) mult_le_mono1 [OF b(2)]] unfolding len by (simp add: algebra_simps)
  obtain chars where chars: "copy_rows rows cols dat (dy * sx + dx) sx (con_chars C) (t * ?W + l) ?W = Some chars"
    "length chars = length (con_chars C)"
    "\<forall>y < rows. \<forall>x < cols. chars ! (t * ?W + l + y * ?W + x) = dat ! (dy * sx + dx + y * sx + x)"
    "\<forall>i < length (con_chars C). (\<forall>y < rows. \<forall>x < cols. i \<noteq> t * ?W + l + y * ?W + x) \<longrightarrow> chars ! i = con_chars C ! i"
    using copy_rows_result [OF _ src dst] b(1) by auto
  let ?C = "C\<lparr>con_chars := chars\<rparr>"
  have h: "con_height ?C = con_height C" by (simp add: con_height_def chars(2))
  have "cell ?C x y = (if in_area data_size data_pos r x y then dat ! data_index data_size data_pos r x y else cell C x y)"
    if xy: "x < ?W" "y < con_height C" for x y
  proof (cases "in_area data_size data_pos r x y")
    case True
    then have a: "l \<le> x" "x < l + cols" "t \<le> y" "y < t + rows" using area xy by blast+
    then obtain x' y' where e: "x = l + x'" "y = t + y'" "x' < cols" "y' < rows"
      by (metis add_less_cancel_left le_add_diff_inverse)
    have "data_index data_size data_pos r x y = dy * sx + dx + y' * sx + x'" "y * ?W + x = t * ?W + l + y' * ?W + x'"
      using idx unfolding e by (simp_all add: add_mult_distrib)
    then show ?thesis using chars(3) [rule_format, OF e(4,3)] True by (simp add: cell_def)
  next
    case False
    have "y * ?W + x \<noteq> t * ?W + l + y' * ?W + x'" if "y' < rows" "x' < cols" for x' y'
    proof
      assume "y * ?W + x = t * ?W + l + y' * ?W + x'"
      then have "y * ?W + x = (t + y') * ?W + (l + x')" by (simp add: add_mult_distrib)
      then have "y = t + y'" "x = l + x'" using matrix_index [of x ?W "l + x'" y "t + y'"] xy(1) b(1) that by simp_all
      then show False using False area xy that by simp
    qed
    moreover have "y * ?W + x < length (con_chars C)" unfolding len by (rule matrix_bound [OF xy])
    ultimately show ?thesis using chars(4) False by (simp add: cell_def)
  qed
  moreover have "ConsoleBuffer_Write C dat data_size data_pos r = Some (?C, r')"
    using inside(1) n chars(1) by (simp add: ConsoleBuffer_Write_def OffsetMatrixPtr_def)
  moreover have "console_ok ?C" using assms(1) chars(2) by (simp add: console_ok_def h)
  ultimately show ?thesis using that h by simp
qed

lemma Read_result:
  assumes "console_ok C" "data_ok dat data_size"
  obtains dat' r' where "ConsoleBuffer_Read C dat data_size data_pos r = Some (dat', r')" "length dat' = length dat"
    "\<forall>x y. x < unat (con_width C) \<and> y < con_height C \<and> in_area data_size data_pos r x y \<longrightarrow>
      data_index data_size data_pos r x y < length dat \<and> dat' ! data_index data_size data_pos r x y = cell C x y"
    "\<forall>i < length dat. (\<forall>x y. x < unat (con_width C) \<and> y < con_height C \<and> in_area data_size data_pos r x y \<longrightarrow>
      i \<noteq> data_index data_size data_pos r x y) \<longrightarrow> dat' ! i = dat ! i"
  using assms(1)
proof (cases rule: InspectCopyArea_cases [of C data_size data_pos r])
  case (outside r')
  then have "ConsoleBuffer_Read C dat data_size data_pos r = Some (dat, r')" by (simp add: ConsoleBuffer_Read_def)
  then show ?thesis by (rule that) (use outside(2) in blast)+
next
  case (inside r')
  let ?W = "unat (con_width C)"
  have len: "length (con_chars C) = con_height C * ?W" using assms(1) by (simp add: console_ok_def)
  obtain l t dx dy sx rows cols where n: "unat (Left r) = l" "unat (Top r) = t" "unat (X data_pos) = dx" "unat (Y data_pos) = dy"
    "unat (X data_size) = sx" "rect_rows r' = Some rows" "rect_columns r' = cols"
    and b: "l + cols \<le> ?W" "t + rows \<le> con_height C" "dx + cols \<le> sx" "(dy + rows) * sx \<le> length dat"
    and area: "\<forall>x y. x < ?W \<and> y < con_height C \<longrightarrow>
      in_area data_size data_pos r x y \<longleftrightarrow> l \<le> x \<and> x < l + cols \<and> t \<le> y \<and> y < t + rows"
    and idx: "\<forall>x y. l \<le> x \<and> t \<le> y \<longrightarrow> data_index data_size data_pos r x y = (dy + (y - t)) * sx + (dx + (x - l))"
    by (rule cut_to_nat [OF assms(1) inside(2) assms(2)])
  have dst: "\<forall>y < rows. dy * sx + dx + y * sx + cols \<le> length dat"
    using row_inside [OF _ b(3,4)] by (simp add: algebra_simps)
  have src: "\<forall>y < rows. t * ?W + l + y * ?W + cols \<le> length (con_chars C)"
    using row_inside [OF _ b(1) mult_le_mono1 [OF b(2)]] unfolding len by (simp add: algebra_simps)
  obtain dat' where dat': "copy_rows rows cols (con_chars C) (t * ?W + l) ?W dat (dy * sx + dx) sx = Some dat'" "length dat' = length dat"
    "\<forall>y < rows. \<forall>x < cols. dat' ! (dy * sx + dx + y * sx + x) = con_chars C ! (t * ?W + l + y * ?W + x)"
    "\<forall>i < length dat. (\<forall>y < rows. \<forall>x < cols. i \<noteq> dy * sx + dx + y * sx + x) \<longrightarrow> dat' ! i = dat ! i"
    using copy_rows_result [OF _ src dst] b(3) by auto
  have cells: "data_index data_size data_pos r (l + x) (t + y) = dy * sx + dx + y * sx + x" for x y
    using idx by (simp add: add_mult_distrib)
  have inx: "in_area data_size data_pos r (l + x) (t + y)" "l + x < ?W" "t + y < con_height C" if "y < rows" "x < cols" for x y
    using area b(1,2) that by simp_all
  have "data_index data_size data_pos r x y < length dat \<and> dat' ! data_index data_size data_pos r x y = cell C x y"
    if xy: "x < ?W" "y < con_height C" "in_area data_size data_pos r x y" for x y
  proof -
    have a: "l \<le> x" "x < l + cols" "t \<le> y" "y < t + rows" using area xy by blast+
    then obtain x' y' where e: "x = l + x'" "y = t + y'" "x' < cols" "y' < rows"
      by (metis add_less_cancel_left le_add_diff_inverse)
    have "dy * sx + dx + y' * sx + x' < length dat" using dst e(3,4) by (metis add_less_cancel_left order_less_le_trans)
    moreover have i: "(t + y') * ?W + (l + x') = t * ?W + l + y' * ?W + x'" by (simp add: add_mult_distrib)
    ultimately show ?thesis using dat'(3) [rule_format, OF e(4,3)] unfolding e(1,2) cells cell_def i by blast
  qed
  moreover have "dat' ! i = dat ! i" if i: "i < length dat"
    "\<forall>x y. x < ?W \<and> y < con_height C \<and> in_area data_size data_pos r x y \<longrightarrow> i \<noteq> data_index data_size data_pos r x y" for i
    using dat'(4) i(1) i(2) inx cells by metis
  moreover have "ConsoleBuffer_Read C dat data_size data_pos r = Some (dat', r')"
    using inside(1) n dat'(1) by (simp add: ConsoleBuffer_Read_def OffsetMatrixPtr_def)
  ultimately show ?thesis using that dat'(2) by simp
qed

section \<open>Properties\<close>

text \<open>
  C12. No access outside the screen or the data. For a screen of any size that the coordinates can hold, any rectangle and any
  position in the data, also negative ones: if the data have the size they claim, \<open>Write\<close> returns, and changes exactly the cells
  of the rectangle that are on the screen and have a cell in the data, to that cell; and \<open>Read\<close> puts these cells of the
  screen into their cells of the data and leaves the rest of the data alone.
\<close>

theorem areas_are_copied:
  assumes "console_ok C" "data_ok dat data_size"
  shows "(\<exists>C' r'. ConsoleBuffer_Write C dat data_size data_pos r = Some (C', r') \<and> console_ok C' \<and>
      ConsoleBuffer_GetSize C' = ConsoleBuffer_GetSize C \<and>
      (\<forall>x y. x < unat (con_width C) \<and> y < con_height C \<longrightarrow>
        cell C' x y = (if in_area data_size data_pos r x y then dat ! data_index data_size data_pos r x y else cell C x y))) \<and>
    (\<exists>dat' r'. ConsoleBuffer_Read C dat data_size data_pos r = Some (dat', r') \<and> length dat' = length dat \<and>
      (\<forall>x y. x < unat (con_width C) \<and> y < con_height C \<and> in_area data_size data_pos r x y \<longrightarrow>
        dat' ! data_index data_size data_pos r x y = cell C x y) \<and>
      (\<forall>i < length dat. (\<forall>x y. x < unat (con_width C) \<and> y < con_height C \<and> in_area data_size data_pos r x y \<longrightarrow>
        i \<noteq> data_index data_size data_pos r x y) \<longrightarrow> dat' ! i = dat ! i))"
proof (intro conjI)
  obtain C' r' where "ConsoleBuffer_Write C dat data_size data_pos r = Some (C', r')" "console_ok C'"
    "con_width C' = con_width C" "con_height C' = con_height C"
    "\<forall>x y. x < unat (con_width C) \<and> y < con_height C \<longrightarrow>
      cell C' x y = (if in_area data_size data_pos r x y then dat ! data_index data_size data_pos r x y else cell C x y)"
    by (rule Write_result [OF assms])
  moreover from this have "ConsoleBuffer_GetSize C' = ConsoleBuffer_GetSize C"
    by (simp add: ConsoleBuffer_GetSize_def con_height_def)
  ultimately show "\<exists>C' r'. ConsoleBuffer_Write C dat data_size data_pos r = Some (C', r') \<and> console_ok C' \<and>
      ConsoleBuffer_GetSize C' = ConsoleBuffer_GetSize C \<and>
      (\<forall>x y. x < unat (con_width C) \<and> y < con_height C \<longrightarrow>
        cell C' x y = (if in_area data_size data_pos r x y then dat ! data_index data_size data_pos r x y else cell C x y))" by blast
  show "\<exists>dat' r'. ConsoleBuffer_Read C dat data_size data_pos r = Some (dat', r') \<and> length dat' = length dat \<and>
      (\<forall>x y. x < unat (con_width C) \<and> y < con_height C \<and> in_area data_size data_pos r x y \<longrightarrow>
        dat' ! data_index data_size data_pos r x y = cell C x y) \<and>
      (\<forall>i < length dat. (\<forall>x y. x < unat (con_width C) \<and> y < con_height C \<and> in_area data_size data_pos r x y \<longrightarrow>
        i \<noteq> data_index data_size data_pos r x y) \<longrightarrow> dat' ! i = dat ! i)"
    by (rule Read_result [OF assms, of data_pos r]) blast
qed

abbreviation small_screen :: console_buffer where
  "small_screen \<equiv> \<lparr>con_width = 3, con_chars = replicate 6 (blank_cell 7)\<rparr>"

theorem areas_are_copied_witness:
  "\<exists>C' r'. ConsoleBuffer_Write small_screen (replicate 4 (blank_cell 1)) \<lparr>X = 2, Y = 2\<rparr> \<lparr>X = 0, Y = 0\<rparr>
      \<lparr>Left = 2, Top = 1, Right = 9, Bottom = 9\<rparr> = Some (C', r') \<and> cell C' 2 1 = blank_cell 1 \<and> cell C' 1 1 = blank_cell 7"
proof -
  have "console_ok small_screen" by (simp add: console_ok_def con_height_def word_gt_0)
  moreover have "data_ok (replicate 4 (blank_cell 1)) \<lparr>X = 2, Y = 2\<rparr>" by (simp add: data_ok_def)
  moreover have "unat (con_width small_screen) = 3" "con_height small_screen = 2" by (simp_all add: con_height_def)
  moreover have "in_area \<lparr>X = 2, Y = 2\<rparr> \<lparr>X = 0, Y = 0\<rparr> \<lparr>Left = 2, Top = 1, Right = 9, Bottom = 9\<rparr> 2 1"
    "\<not> in_area \<lparr>X = 2, Y = 2\<rparr> \<lparr>X = 0, Y = 0\<rparr> \<lparr>Left = 2, Top = 1, Right = 9, Bottom = 9\<rparr> 1 1"
    "data_index \<lparr>X = 2, Y = 2\<rparr> \<lparr>X = 0, Y = 0\<rparr> \<lparr>Left = 2, Top = 1, Right = 9, Bottom = 9\<rparr> 2 1 = 0"
    by (simp_all add: in_area_def data_index_def)
  moreover have "cell small_screen 1 1 = blank_cell 7" by (simp add: cell_def)
  ultimately show ?thesis
    using areas_are_copied [of small_screen "replicate 4 (blank_cell 1)" "\<lparr>X = 2, Y = 2\<rparr>" "\<lparr>X = 0, Y = 0\<rparr>"
      "\<lparr>Left = 2, Top = 1, Right = 9, Bottom = 9\<rparr>"] by fastforce
qed

lemma s16_of_nat: "n \<le> 0x7fff \<Longrightarrow> sint (word_of_nat n :: s16) = int n"
  using s16_of_int [of "int n"] by simp

lemma SetSize_area:
  fixes width height :: u32
  assumes "con_width C \<noteq> 0" "unat (con_width C) \<le> 0x7fff" "con_height C \<le> 0x7fff" "unat width \<le> 0x7fff" "unat height \<le> 0x7fff"
    "x < unat width" "y < unat height"
  shows "in_area \<lparr>X = ucast (con_width C), Y = of_nat (con_height C)\<rparr> \<lparr>X = 0, Y = 0\<rparr>
      \<lparr>Left = 0, Top = 0, Right = ucast (width - 1), Bottom = ucast (height - 1)\<rparr> x y \<longleftrightarrow> x < unat (con_width C) \<and> y < con_height C"
    "data_index \<lparr>X = ucast (con_width C), Y = of_nat (con_height C)\<rparr> \<lparr>X = 0, Y = 0\<rparr>
      \<lparr>Left = 0, Top = 0, Right = ucast (width - 1), Bottom = ucast (height - 1)\<rparr> x y = y * unat (con_width C) + x"
    "data_ok (con_chars C) \<lparr>X = ucast (con_width C), Y = of_nat (con_height C)\<rparr>"
proof -
  have "ucast (con_width C) = (word_of_nat (unat (con_width C)) :: s16)" by (simp add: word_unat_eq_iff unat_ucast_mod unat_of_nat)
  then have w: "sint (ucast (con_width C) :: s16) = int (unat (con_width C))" by (simp only: s16_of_nat [OF assms(2)])
  note h = s16_of_nat [OF assms(3)] and r = s16_of_u32(2) [OF assms(4)] and b = s16_of_u32(2) [OF assms(5)]
  have xy: "int x \<le> int (unat width) - 1" "int y \<le> int (unat height) - 1" using assms(6,7) by linarith+
  show "in_area \<lparr>X = ucast (con_width C), Y = of_nat (con_height C)\<rparr> \<lparr>X = 0, Y = 0\<rparr>
      \<lparr>Left = 0, Top = 0, Right = ucast (width - 1), Bottom = ucast (height - 1)\<rparr> x y \<longleftrightarrow> x < unat (con_width C) \<and> y < con_height C"
    using xy unfolding in_area_def coord.simps small_rect.simps w h r b sint_0 of_nat_less_iff [where 'a = int, symmetric]
    by (intro iffI conjI) linarith+
  have "nat (int y * int (unat (con_width C)) + int x) = y * unat (con_width C) + x"
    by (metis nat_int of_nat_add of_nat_mult)
  then show "data_index \<lparr>X = ucast (con_width C), Y = of_nat (con_height C)\<rparr> \<lparr>X = 0, Y = 0\<rparr>
      \<lparr>Left = 0, Top = 0, Right = ucast (width - 1), Bottom = ucast (height - 1)\<rparr> x y = y * unat (con_width C) + x"
    by (simp only: data_index_def coord.simps small_rect.simps w sint_0 diff_zero add_0_right)
  have "nat (int (unat (con_width C)) * int (con_height C)) = unat (con_width C) * con_height C"
    by (metis nat_int of_nat_mult)
  then show "data_ok (con_chars C) \<lparr>X = ucast (con_width C), Y = of_nat (con_height C)\<rparr>"
    unfolding data_ok_def coord.simps w h by (simp add: con_height_def)
qed

text \<open>
  C32. A new size keeps what fits: \<open>SetSize\<close> on a screen of any size, or on one that has none yet, returns and gives a screen of
  the new size, in which the cells that both sizes have are unchanged and the others blank with the given attributes.
\<close>

theorem SetSize_keeps:
  assumes "console_ok C \<or> C = ConsoleBuffer" "0 < width" "unat width \<le> 0x7fff" "unat height < 0x7fff"
  shows "\<exists>C'. ConsoleBuffer_SetSize C width height attributes = Some C' \<and> console_ok C' \<and>
    con_width C' = width \<and> con_height C' = unat height \<and>
    (\<forall>x y. x < unat width \<and> y < unat height \<longrightarrow>
      cell C' x y = (if x < unat (con_width C) \<and> y < con_height C then cell C x y else blank_cell attributes))"
proof -
  have p: "unat (width * height) = unat width * unat height"
  proof -
    have "unat width * unat height \<le> 0x7fff * 0x7fff" using assms(3,4) by (intro mult_le_mono) simp_all
    then show ?thesis by (simp add: unat_mult_lem [THEN iffD1])
  qed
  define D where "D = \<lparr>con_width = width, con_chars = replicate (unat height * unat width) (blank_cell attributes)\<rparr>"
  have w0: "0 < unat width" using assms(2) by (simp add: unat_gt_0)
  have D: "con_width D = width" "con_height D = unat height" using w0 by (simp_all add: D_def con_height_def)
  have okD: "console_ok D" using assms D by (simp add: console_ok_def) (simp add: D_def)
  have cells: "cell D x y = blank_cell attributes" if "x < unat width" "y < unat height" for x y
    using matrix_bound [OF that] by (simp add: cell_def D_def)
  show ?thesis
  proof (cases "width = con_width C \<and> unat (width * height) = length (con_chars C)")
    case True
    then have "length (con_chars C) = unat (con_width C) * unat height" using p by metis
    then have "con_height C = unat height" using True w0 by (simp add: con_height_def)
    moreover have "console_ok C" using assms(1,2) True by (auto simp: ConsoleBuffer_def)
    moreover have "ConsoleBuffer_SetSize C width height attributes = Some C"
      unfolding ConsoleBuffer_SetSize_def by (simp only: if_P [OF True])
    ultimately show ?thesis using True by auto
  next
    case False
    note s = False
    show ?thesis
    proof (cases "con_chars C \<noteq> [] \<and> con_chars D \<noteq> []")
      case True
      then have C: "console_ok C" using assms(1) by (auto simp: ConsoleBuffer_def)
      then have b: "con_width C \<noteq> 0" "unat (con_width C) \<le> 0x7fff" "con_height C \<le> 0x7fff" "unat height \<le> 0x7fff"
        using assms(4) by (auto simp: console_ok_def)
      have h: "0 < unat height" using True by (auto simp: D_def)
      note a = SetSize_area [OF b(1-3) assms(3) b(4)]
      let ?size = "\<lparr>X = ucast (con_width C), Y = of_nat (con_height C)\<rparr>" let ?pos = "\<lparr>X = 0, Y = 0\<rparr>"
      let ?rect = "\<lparr>Left = 0, Top = 0, Right = ucast (width - 1), Bottom = ucast (height - 1)\<rparr>"
      obtain C' r' where C': "ConsoleBuffer_Write D (con_chars C) ?size ?pos ?rect = Some (C', r')" "console_ok C'"
        "con_width C' = width" "con_height C' = unat height"
        "\<forall>x y. x < unat width \<and> y < unat height \<longrightarrow>
          cell C' x y = (if in_area ?size ?pos ?rect x y then con_chars C ! data_index ?size ?pos ?rect x y else cell D x y)"
        by (rule Write_result [OF okD a(3) [OF w0 h], of ?pos ?rect, unfolded D])
      have "ConsoleBuffer_SetSize C width height attributes = Some C'"
        unfolding ConsoleBuffer_SetSize_def if_not_P [OF s] Let_def D_def [symmetric] con_height_def [symmetric]
        using True b(1) C'(1) by simp
      then show ?thesis using C'(2-5) a(1,2) cells by (auto simp: cell_def [of C])
    next
      case False
      then have "ConsoleBuffer_SetSize C width height attributes = Some D"
        using s by (auto simp: ConsoleBuffer_SetSize_def Let_def D_def)
      moreover have "con_height C = 0 \<or> unat height = 0"
        using False w0 by (auto simp: D_def con_height_def)
      ultimately show ?thesis using D okD cells by (intro exI [of _ D]) auto
    qed
  qed
qed

theorem SetSize_keeps_witness:
  "\<exists>C'. ConsoleBuffer_SetSize small_screen 2 4 9 = Some C' \<and> cell C' 1 1 = blank_cell 7 \<and> cell C' 1 3 = blank_cell 9"
proof -
  have "console_ok small_screen" by (simp add: console_ok_def con_height_def word_gt_0)
  moreover have "cell small_screen 1 1 = blank_cell 7" "con_height small_screen = 2" by (simp_all add: cell_def con_height_def)
  ultimately show ?thesis using SetSize_keeps [of small_screen 2 4 9] by (auto simp: word_gt_0)
qed

end
