(* ===== verification/Base64.thy ===== *)
theory Base64
  imports Prelude
begin

text \<open>
  Base 64 (\<^verbatim>\<open>utils/src/base64.cpp\<close>): both directions, with the buffers of three bytes and of four characters in which
  the loops collect their input.
\<close>

section \<open>The alphabet\<close>

definition base64_chars :: bytes where
  "base64_chars = map of_nat ([0x41..<0x5b] @ [0x61..<0x7b] @ [0x30..<0x3a] @ [0x2b, 0x2f])"

definition is_base64 :: "u8 \<Rightarrow> bool" where
  "is_base64 c \<longleftrightarrow>
     0x30 \<le> c \<and> c \<le> 0x39 \<or> 0x41 \<le> c \<and> c \<le> 0x5a \<or> 0x61 \<le> c \<and> c \<le> 0x7a \<or> c = 0x2b \<or> c = 0x2f"

text \<open>\<open>find\<close> of a character that is not there is \<open>npos\<close>, the low byte of which is \<open>0xff\<close>.\<close>

definition base64_find :: "u8 \<Rightarrow> u8" where
  "base64_find c = (if c \<in> set base64_chars then of_nat (length (takeWhile (\<lambda>d. d \<noteq> c) base64_chars)) else 0xff)"

section \<open>Encoding\<close>

definition char_array_4 :: "u8 \<Rightarrow> u8 \<Rightarrow> u8 \<Rightarrow> bytes" where
  "char_array_4 a b c =
     [drop_bit 2 (a AND 0xfc),
      push_bit 4 (a AND 0x03) + drop_bit 4 (b AND 0xf0),
      push_bit 2 (b AND 0x0f) + drop_bit 6 (c AND 0xc0),
      c AND 0x3f]"

definition encode_chars :: "bytes \<Rightarrow> bytes" where
  "encode_chars = map (\<lambda>v. base64_chars ! unat v)"

fun base64_encode_loop :: "bytes \<Rightarrow> bytes \<Rightarrow> bytes" where
  "base64_encode_loop char_array_3 [] =
     (case char_array_3 of
        [a] \<Rightarrow> encode_chars (take 2 (char_array_4 a 0 0)) @ [0x3d, 0x3d]
      | [a, b] \<Rightarrow> encode_chars (take 3 (char_array_4 a b 0)) @ [0x3d]
      | _ \<Rightarrow> [])"
| "base64_encode_loop char_array_3 (x # buf) =
     (case char_array_3 @ [x] of
        [a, b, c] \<Rightarrow> encode_chars (char_array_4 a b c) @ base64_encode_loop [] buf
      | char_array_3 \<Rightarrow> base64_encode_loop char_array_3 buf)"

definition base64_encode :: "bytes \<Rightarrow> bytes" where
  "base64_encode buf = base64_encode_loop [] buf"

section \<open>Decoding\<close>

definition char_array_3 :: "u8 \<Rightarrow> u8 \<Rightarrow> u8 \<Rightarrow> u8 \<Rightarrow> bytes" where
  "char_array_3 a b c d =
     [push_bit 2 a + drop_bit 4 (b AND 0x30),
      push_bit 4 (b AND 0xf) + drop_bit 2 (c AND 0x3c),
      push_bit 6 (c AND 0x3) + d]"

definition decode_rest :: "bytes \<Rightarrow> bytes" where
  "decode_rest array =
     (let i = length array; v = map base64_find (array @ replicate (4 - i) 0)
      in take (i - 1) (char_array_3 (v ! 0) (v ! 1) (v ! 2) (v ! 3)))"

fun base64_decode_loop :: "bytes \<Rightarrow> bytes \<Rightarrow> bytes" where
  "base64_decode_loop array [] = (if array = [] then [] else decode_rest array)"
| "base64_decode_loop array (x # s) =
     (if x \<noteq> 0x3d \<and> is_base64 x then
        (case array @ [x] of
           [a, b, c, d] \<Rightarrow>
             char_array_3 (base64_find a) (base64_find b) (base64_find c) (base64_find d) @ base64_decode_loop [] s
         | array \<Rightarrow> base64_decode_loop array s)
      else if array = [] then [] else decode_rest array)"

definition base64_decode :: "bytes \<Rightarrow> bytes" where
  "base64_decode s = base64_decode_loop [] s"

section \<open>The way back\<close>

lemma unat_numeral_small:
  "unat (0x30 :: u8) = 0x30" "unat (0x39 :: u8) = 0x39" "unat (0x41 :: u8) = 0x41" "unat (0x5a :: u8) = 0x5a" "unat (0x61 :: u8) = 0x61"
  "unat (0x7a :: u8) = 0x7a" "unat (0x2b :: u8) = 0x2b" "unat (0x2f :: u8) = 0x2f" "unat (0x3d :: u8) = 0x3d"
  by simp_all

lemma base64_alphabet: "distinct base64_chars" "length base64_chars = 64" "\<forall>c \<in> set base64_chars. is_base64 c \<and> c \<noteq> 0x3d"
proof -
  let ?ns = "[0x41..<0x5b] @ [0x61..<0x7b] @ [0x30..<0x3a] @ [0x2b, 0x2f :: nat]"
  have ns: "n \<in> set ?ns \<longleftrightarrow> 0x41 \<le> n \<and> n < 0x5b \<or> 0x61 \<le> n \<and> n < 0x7b \<or> 0x30 \<le> n \<and> n < 0x3a \<or> n = 0x2b \<or> n = 0x2f" for n
    by (simp only: set_append Un_iff set_upt atLeastLessThan_iff list.set insert_iff empty_iff) blast
  then have lt: "n < 256" if "n \<in> set ?ns" for n using that by auto
  have "inj_on (of_nat :: nat \<Rightarrow> u8) (set ?ns)"
  proof (rule inj_onI)
    fix m n
    assume mn: "m \<in> set ?ns" "n \<in> set ?ns" and e: "(of_nat m :: u8) = of_nat n"
    then have "m < 256" "n < 256" using lt by blast+
    moreover have "unat (of_nat m :: u8) = unat (of_nat n :: u8)" using e by (rule arg_cong)
    ultimately show "m = n" by (simp add: unat_of_nat)
  qed
  moreover have "distinct ?ns"
    by (simp only: distinct_append distinct_upt set_append set_upt list.set) auto
  ultimately show "distinct base64_chars" unfolding base64_chars_def distinct_map by blast
  show "length base64_chars = 64" by (simp add: base64_chars_def)
  have ok: "is_base64 (of_nat n) \<and> (of_nat n :: u8) \<noteq> 0x3d" if "n \<in> set ?ns" for n
  proof -
    have u: "unat (of_nat n :: u8) = n" using lt [OF that] by (simp add: unat_of_nat)
    have n: "0x41 \<le> n \<and> n < 0x5b \<or> 0x61 \<le> n \<and> n < 0x7b \<or> 0x30 \<le> n \<and> n < 0x3a \<or> n = 0x2b \<or> n = 0x2f"
      using that unfolding ns .
    have le: "n < 0x5b \<longleftrightarrow> n \<le> 0x5a" "n < 0x7b \<longleftrightarrow> n \<le> 0x7a" "n < 0x3a \<longleftrightarrow> n \<le> 0x39" by linarith+
    have "n \<noteq> 0x3d"
    proof
      assume "n = 0x3d"
      then show False using n by simp
    qed
    then show ?thesis
      using n unfolding le is_base64_def word_le_nat_alt word_unat_eq_iff u unat_numeral_small by blast
  qed
  show "\<forall>c \<in> set base64_chars. is_base64 c \<and> c \<noteq> 0x3d"
  proof
    fix c
    assume "c \<in> set base64_chars"
    then have "c \<in> of_nat ` set ?ns" unfolding base64_chars_def set_map .
    then obtain n where "c = of_nat n" "n \<in> set ?ns" by (rule imageE)
    then show "is_base64 c \<and> c \<noteq> 0x3d" using ok by metis
  qed
qed

lemma first_at: "distinct xs \<Longrightarrow> i < length xs \<Longrightarrow> length (takeWhile (\<lambda>d. d \<noteq> xs ! i) xs) = i"
proof (induction xs arbitrary: i)
  case (Cons x xs)
  then show ?case by (cases i) (auto simp: in_set_conv_nth)
qed simp

lemma alphabet:
  assumes "v < 64"
  shows "base64_find (base64_chars ! unat (v :: u8)) = v" "is_base64 (base64_chars ! unat v)" "base64_chars ! unat v \<noteq> 0x3d"
    "base64_chars ! unat v \<in> set base64_chars"
proof -
  have i: "unat v < length base64_chars" using assms by (simp add: word_less_nat_alt base64_alphabet(2))
  then show m: "base64_chars ! unat v \<in> set base64_chars" by simp
  then show "is_base64 (base64_chars ! unat v)" "base64_chars ! unat v \<noteq> 0x3d" using base64_alphabet(3) by blast+
  show "base64_find (base64_chars ! unat v) = v" using m first_at [OF base64_alphabet(1) i] by (simp add: base64_find_def)
qed

text \<open>What the shifts compute.\<close>

lemma byte_div: "unat (v :: u8) div 4 < 64" "unat v div 16 < 16" "unat v div 64 < 4"
  using unat_u8_less [of v] by (simp_all add: less_mult_imp_div_less)

lemma unat_and_3: "unat (v AND 3 :: u8) = unat v mod 4"
  using nat_and_mask [of "unat v" 2] by (simp add: unat_and)

lemma byte_parts:
  "unat (drop_bit 2 (v AND 0xfc)) = unat (v :: u8) div 4" "unat (push_bit 4 (v AND 0x03)) = unat v mod 4 * 16"
  "unat (drop_bit 4 (v AND 0xf0)) = unat v div 16" "unat (push_bit 2 (v AND 0x0f)) = unat v mod 16 * 4"
  "unat (drop_bit 6 (v AND 0xc0)) = unat v div 64" "unat (v AND 0x3f) = unat v mod 64"
proof -
  have "drop_bit 2 (v AND 0xfc) = drop_bit 2 v AND 0x3f" "drop_bit 4 (v AND 0xf0) = drop_bit 4 v AND 0xf"
    "drop_bit 6 (v AND 0xc0) = drop_bit 6 v AND 3" by simp_all
  then show "unat (drop_bit 2 (v AND 0xfc)) = unat v div 4" "unat (drop_bit 4 (v AND 0xf0)) = unat v div 16"
    "unat (drop_bit 6 (v AND 0xc0)) = unat v div 64"
    using byte_div [of v] by (simp_all only: unat_and_3) (simp_all add: nat_bits)
  have "unat v mod 4 < 4" "unat v mod 16 < 16" by simp_all
  then have "unat v mod 4 * 16 < 256" "unat v mod 16 * 4 < 256" by linarith+
  then show "unat (push_bit 4 (v AND 0x03)) = unat v mod 4 * 16" "unat (push_bit 2 (v AND 0x0f)) = unat v mod 16 * 4"
    unfolding unat_push_bit_mod unat_and_3 by (simp_all add: nat_bits)
  show "unat (v AND 0x3f) = unat v mod 64" by (simp add: nat_bits)
qed

lemma code_parts:
  "unat (push_bit 2 v) = unat (v :: u8) * 4 mod 256" "unat (drop_bit 4 (v AND 0x30)) = unat v div 16 mod 4"
  "unat (push_bit 4 (v AND 0xf)) = unat v mod 16 * 16" "unat (drop_bit 2 (v AND 0x3c)) = unat v div 4 mod 16"
  "unat (push_bit 6 (v AND 0x3)) = unat v mod 4 * 64"
proof -
  have "drop_bit 4 (v AND 0x30) = drop_bit 4 v AND 3" "drop_bit 2 (v AND 0x3c) = drop_bit 2 v AND 0xf" by simp_all
  then show "unat (drop_bit 4 (v AND 0x30)) = unat v div 16 mod 4" "unat (drop_bit 2 (v AND 0x3c)) = unat v div 4 mod 16"
    by (simp_all only: unat_and_3) (simp_all add: nat_bits)
  have "unat v mod 4 < 4" "unat v mod 16 < 16" by simp_all
  then have "unat v mod 4 * 64 < 256" "unat v mod 16 * 16 < 256" by linarith+
  then show "unat (push_bit 6 (v AND 0x3)) = unat v mod 4 * 64" "unat (push_bit 4 (v AND 0xf)) = unat v mod 16 * 16"
    unfolding unat_push_bit_mod unat_and_3 by (simp_all add: nat_bits)
  show "unat (push_bit 2 v) = unat v * 4 mod 256" unfolding unat_push_bit_mod by simp
qed

lemma unat_sum: "unat x + unat y < 256 \<Longrightarrow> unat (x + y :: u8) = unat x + unat y"
  by (simp add: unat_word_ariths)

lemma unat_char_array_4:
  "map unat (char_array_4 a b c) =
    [unat a div 4, unat a mod 4 * 16 + unat b div 16, unat b mod 16 * 4 + unat c div 64, unat c mod 64]"
proof -
  have "unat a mod 4 < 4" "unat b mod 16 < 16" by simp_all
  then have "unat a mod 4 * 16 + unat b div 16 < 256" "unat b mod 16 * 4 + unat c div 64 < 256"
    using byte_div(2) [of b] byte_div(3) [of c] by linarith+
  then show ?thesis
    unfolding char_array_4_def list.map by (simp only: unat_sum byte_parts)
qed

lemma char_array_4_small: "\<forall>v \<in> set (char_array_4 a b c). v < 64"
proof -
  have "unat a mod 4 < 4" "unat b mod 16 < 16" "unat c mod 64 < 64" by simp_all
  then have "unat a div 4 < 64" "unat a mod 4 * 16 + unat b div 16 < 64" "unat b mod 16 * 4 + unat c div 64 < 64" "unat c mod 64 < 64"
    using byte_div [of a] byte_div(2) [of b] byte_div(3) [of c] by linarith+
  then have "\<forall>n \<in> set (map unat (char_array_4 a b c)). n < 64" unfolding unat_char_array_4 by simp
  then show ?thesis by (simp add: word_less_nat_alt)
qed

lemma digits_in_base: "d < n \<Longrightarrow> (m * n + d) div n = m" "d < n \<Longrightarrow> (m * n + d) mod n = (d :: nat)"
  by simp_all

lemma sum_is: "unat x + unat y = unat z \<Longrightarrow> x + y = (z :: u8)"
  using unat_u8_less [of z] unat_sum [of x y] by (simp add: word_unat_eq_iff)

lemma bytes_back:
  fixes a b c p q r s :: u8
  shows "unat p = unat a div 4 \<Longrightarrow> unat q = unat a mod 4 * 16 + unat b div 16 \<Longrightarrow> push_bit 2 p + drop_bit 4 (q AND 0x30) = a"
  "unat q = unat a mod 4 * 16 + unat b div 16 \<Longrightarrow> unat r = unat b mod 16 * 4 + unat c div 64 \<Longrightarrow>
    push_bit 4 (q AND 0xf) + drop_bit 2 (r AND 0x3c) = b"
  "unat r = unat b mod 16 * 4 + unat c div 64 \<Longrightarrow> unat s = unat c mod 64 \<Longrightarrow> push_bit 6 (r AND 0x3) + s = c"
proof -
  have q: "unat q div 16 = unat a mod 4" "unat q mod 16 = unat b div 16" if "unat q = unat a mod 4 * 16 + unat b div 16"
    unfolding that using byte_div(2) [of b] by (simp_all only: digits_in_base)
  have r: "unat r div 4 = unat b mod 16" "unat r mod 4 = unat c div 64" if "unat r = unat b mod 16 * 4 + unat c div 64"
    unfolding that using byte_div(3) [of c] by (simp_all only: digits_in_base)
  show "push_bit 2 p + drop_bit 4 (q AND 0x30) = a" if p: "unat p = unat a div 4" and qq: "unat q = unat a mod 4 * 16 + unat b div 16"
  proof (rule sum_is)
    have "unat p * 4 mod 256 = unat a div 4 * 4" unfolding p using byte_div(1) [of a] by (intro mod_less) linarith
    then show "unat (push_bit 2 p) + unat (drop_bit 4 (q AND 0x30)) = unat a"
      unfolding code_parts q [OF qq] mod_mod_trivial by (simp only: div_mult_mod_eq)
  qed
  show "push_bit 4 (q AND 0xf) + drop_bit 2 (r AND 0x3c) = b" if qq: "unat q = unat a mod 4 * 16 + unat b div 16"
    and rr: "unat r = unat b mod 16 * 4 + unat c div 64"
    by (rule sum_is) (simp only: code_parts q [OF qq] r [OF rr] mod_mod_trivial div_mult_mod_eq)
  show "push_bit 6 (r AND 0x3) + s = c" if rr: "unat r = unat b mod 16 * 4 + unat c div 64" and s: "unat s = unat c mod 64"
    by (rule sum_is) (simp only: code_parts r [OF rr] s div_mult_mod_eq)
qed

lemma char_array_4_codes:
  obtains p q r s where "char_array_4 a b c = [p, q, r, s]" "unat p = unat a div 4" "unat q = unat a mod 4 * 16 + unat b div 16"
    "unat r = unat b mod 16 * 4 + unat c div 64" "unat s = unat c mod 64" "p < 64" "q < 64" "r < 64" "s < 64"
  using unat_char_array_4 [of a b c] char_array_4_small [of a b c] that unfolding char_array_4_def by simp

text \<open>The three ends of the loops, and a full group.\<close>

fun triples :: "'a list \<Rightarrow> nat" where
  "triples (a # b # c # s) = triples s + 1"
| "triples [] = 0"
| "triples [a] = 0"
| "triples [a, b] = 0"

lemma decode_group:
  assumes "p < 64" "q < 64" "r < 64" "s < 64"
  shows "base64_decode_loop [] (encode_chars [p, q, r, s] @ z) = char_array_3 p q r s @ base64_decode_loop [] z"
    "base64_decode_loop [] (encode_chars [p, q] @ 0x3d # z) = take 1 (char_array_3 p q 0xff 0xff)"
    "base64_decode_loop [] (encode_chars [p, q, r] @ 0x3d # z) = take 2 (char_array_3 p q r 0xff)"
proof -
  have z: "base64_find 0 = 0xff" using base64_alphabet(3) by (auto simp: base64_find_def is_base64_def)
  note a = alphabet [OF assms(1)] alphabet [OF assms(2)] alphabet [OF assms(3)] alphabet [OF assms(4)]
  show "base64_decode_loop [] (encode_chars [p, q, r, s] @ z) = char_array_3 p q r s @ base64_decode_loop [] z"
    by (simp add: encode_chars_def a)
  show "base64_decode_loop [] (encode_chars [p, q] @ 0x3d # z) = take 1 (char_array_3 p q 0xff 0xff)"
    by (simp add: encode_chars_def a decode_rest_def z numeral_2_eq_2 numeral_3_eq_3 Let_def)
  show "base64_decode_loop [] (encode_chars [p, q, r] @ 0x3d # z) = take 2 (char_array_3 p q r 0xff)"
    by (simp add: encode_chars_def a decode_rest_def z numeral_2_eq_2 numeral_3_eq_3 Let_def)
qed

lemma decode_encode: "z = [] \<or> hd z = 0x3d \<Longrightarrow> base64_decode_loop [] (base64_encode_loop [] buf @ z) = buf"
proof (induction buf rule: triples.induct)
  case (1 a b c buf)
  obtain p q r s where k: "char_array_4 a b c = [p, q, r, s]" "unat p = unat a div 4" "unat q = unat a mod 4 * 16 + unat b div 16"
    "unat r = unat b mod 16 * 4 + unat c div 64" "unat s = unat c mod 64" "p < 64" "q < 64" "r < 64" "s < 64"
    by (rule char_array_4_codes)
  have "char_array_3 p q r s = [a, b, c]"
    unfolding char_array_3_def using bytes_back(1) [OF k(2,3)] bytes_back(2) [OF k(3,4)] bytes_back(3) [OF k(4,5)] by simp
  moreover have "base64_encode_loop [] (a # b # c # buf) = encode_chars [p, q, r, s] @ base64_encode_loop [] buf" by (simp add: k(1))
  ultimately show ?case using decode_group(1) [OF k(6-9)] 1 by simp
next
  case (3 a)
  obtain p q r s where k: "char_array_4 a 0 0 = [p, q, r, s]" "unat p = unat a div 4" "unat q = unat a mod 4 * 16 + unat (0 :: u8) div 16"
    "unat r = unat (0 :: u8) mod 16 * 4 + unat (0 :: u8) div 64" "unat s = unat (0 :: u8) mod 64" "p < 64" "q < 64" "r < 64" "s < 64"
    by (rule char_array_4_codes)
  have "base64_encode_loop [] [a] @ z = encode_chars [p, q] @ 0x3d # 0x3d # z" by (simp add: k(1) numeral_2_eq_2)
  then show ?case using decode_group(2) [OF k(6-9)] bytes_back(1) [OF k(2,3)] by (simp add: char_array_3_def)
next
  case (4 a b)
  obtain p q r s where k: "char_array_4 a b 0 = [p, q, r, s]" "unat p = unat a div 4" "unat q = unat a mod 4 * 16 + unat b div 16"
    "unat r = unat b mod 16 * 4 + unat (0 :: u8) div 64" "unat s = unat (0 :: u8) mod 64" "p < 64" "q < 64" "r < 64" "s < 64"
    by (rule char_array_4_codes)
  have "base64_encode_loop [] [a, b] @ z = encode_chars [p, q, r] @ 0x3d # z" by (simp add: k(1) numeral_3_eq_3)
  then show ?case using decode_group(3) [OF k(6-9)] bytes_back(1) [OF k(2,3)] bytes_back(2) [OF k(3,4)]
    by (simp add: char_array_3_def numeral_2_eq_2)
next
  case 2
  then show ?case by (cases z) simp_all
qed

lemma encode_length: "length (base64_encode_loop [] buf) = 4 * ((length buf + 2) div 3)"
proof (induction buf rule: triples.induct)
  case (1 a b c buf)
  have "(length (a # b # c # buf) + 2) div 3 = (length buf + 2) div 3 + 1" by simp
  then show ?case using 1 by (simp add: encode_chars_def char_array_4_def)
qed (simp_all add: encode_chars_def char_array_4_def)

lemma encode_chars_set: "set (base64_encode_loop [] buf) \<subseteq> insert 0x3d (set base64_chars)"
proof -
  have e: "set (encode_chars (take n (char_array_4 a b c))) \<subseteq> set base64_chars" for n a b c
    using char_array_4_small [of a b c] alphabet(4) by (fastforce simp: encode_chars_def dest: in_set_takeD)
  show ?thesis
  proof (induction buf rule: triples.induct)
    case (1 a b c buf)
    then show ?case using e [of 4 a b c] by (auto simp: char_array_4_def)
  qed (use e in \<open>auto simp: subset_eq\<close>)
qed

text \<open>
  C21. Base 64 loses nothing: every list of bytes, of every length, is decoded from its encoding, although the decoder fills a
  group that is not full with \<open>0xff\<close>. The encoding has four characters for three bytes or less, all of the alphabet or the
  padding, and the decoder does not look at what follows the padding.
\<close>

theorem base64_roundtrip:
  "base64_decode (base64_encode buf) = buf \<and>
   length (base64_encode buf) = 4 * ((length buf + 2) div 3) \<and>
   set (base64_encode buf) \<subseteq> insert 0x3d (set base64_chars) \<and>
   base64_decode (base64_encode buf @ 0x3d # s) = buf"
  using decode_encode [of "[]" buf] decode_encode [of "0x3d # s" buf] encode_length [of buf] encode_chars_set [of buf]
  by (simp add: base64_decode_def base64_encode_def)

end
