(* ===== verification/StrConf.thy ===== *)
theory StrConf
  imports KeyVals
begin

text \<open>
  Settings in one line (\<^verbatim>\<open>utils/src/StringConfig.cpp\<close>): a map of strings, written as \<open>key:value\<close> pairs with a space after
  each, the special characters of both escaped.
\<close>

section \<open>Escapes\<close>

definition escape_one :: "u8 \<Rightarrow> bytes" where
  "escape_one ch =
     (if ch = 0 then [0x5c, 0x30]
      else if ch = 0x09 then [0x5c, 0x74]
      else if ch = 0x0d then [0x5c, 0x72]
      else if ch = 0x0a then [0x5c, 0x6e]
      else if ch = 0x5c then [0x5c, 0x5c]
      else if ch = 0x3a then [0x5c, 0x5e]
      else if ch = 0x20 then [0x5c, 0x5f]
      else [ch])"

definition StringEscape :: "bytes \<Rightarrow> bytes" where
  "StringEscape str = concat (map escape_one str)"

text \<open>The first case of the code is the character 0, not the digit.\<close>

definition unescape_one :: "u8 \<Rightarrow> bytes" where
  "unescape_one ch =
     (if ch = 0 then [0]
      else if ch = 0x74 then [0x09]
      else if ch = 0x72 then [0x0d]
      else if ch = 0x6e then [0x0a]
      else if ch = 0x5c then [0x5c]
      else if ch = 0x5e then [0x3a]
      else if ch = 0x5f then [0x20]
      else [0x5c, ch])"

fun StringUnescape :: "bytes \<Rightarrow> bytes" where
  "StringUnescape [] = []"
| "StringUnescape (c # d # s) = (if c = 0x5c then unescape_one d @ StringUnescape s else c # StringUnescape (d # s))"
| "StringUnescape [c] = [c]"

section \<open>The map\<close>

text \<open>A \<^verbatim>\<open>std::map\<close> as the list of its entries in their order, which is the order of the strings by bytes.\<close>

type_synonym string_config = "(bytes \<times> bytes) list"

fun entry_set :: "bytes \<Rightarrow> bytes \<Rightarrow> string_config \<Rightarrow> string_config" where
  "entry_set k v [] = [(k, v)]"
| "entry_set k v ((k', v') # m) =
     (if k = k' then (k, v) # m else if k < k' then (k, v) # (k', v') # m else (k', v') # entry_set k v m)"

definition entry_get :: "bytes \<Rightarrow> bytes \<Rightarrow> string_config \<Rightarrow> bytes" where
  "entry_get k def_value m = (case map_of m k of Some v \<Rightarrow> v | None \<Rightarrow> def_value)"

definition entry_delete :: "bytes \<Rightarrow> string_config \<Rightarrow> string_config" where
  "entry_delete k m = filter (\<lambda>e. fst e \<noteq> k) m"

definition SetHexULL :: "bytes \<Rightarrow> u64 \<Rightarrow> string_config \<Rightarrow> string_config" where
  "SetHexULL name val m = entry_set name (ToHex val) m"

definition GetHexULL :: "bytes \<Rightarrow> u64 \<Rightarrow> string_config \<Rightarrow> u64" where
  "GetHexULL name def_value m = (case map_of m name of Some s \<Rightarrow> strtoull (c_str s) 16 | None \<Rightarrow> def_value)"

section \<open>Writing and reading\<close>

definition Serialize :: "string_config \<Rightarrow> bytes" where
  "Serialize m = concat (map (\<lambda>(k, v). StringEscape k @ [0x3a] @ StringEscape v @ [0x20]) m)"

definition read_entry :: "bytes \<Rightarrow> string_config \<Rightarrow> string_config" where
  "read_entry s m =
     (if 0x3a \<in> set s then
        let p = length (takeWhile (\<lambda>c. c \<noteq> 0x3a) s)
        in entry_set (StringUnescape (take p s)) (StringUnescape (drop (p + 1) s)) m
      else m)"

text \<open>The loop: \<open>word\<close> is what was read since the last space.\<close>

fun read_entries :: "bytes \<Rightarrow> bytes \<Rightarrow> string_config \<Rightarrow> string_config" where
  "read_entries word [] m = read_entry word m"
| "read_entries word (c # s) m =
     (if c = 0x20 then read_entries [] s (read_entry word m) else read_entries (word @ [c]) s m)"

definition StringConfig :: "bytes \<Rightarrow> string_config" where
  "StringConfig serialized_str = read_entries [] serialized_str []"

section \<open>Strings come back\<close>

lemma escape_one_clean: "0x20 \<notin> set (escape_one c)" "0x3a \<notin> set (escape_one c)"
  by (auto simp: escape_one_def)

lemma StringEscape_clean: "0x20 \<notin> set (StringEscape s)" "0x3a \<notin> set (StringEscape s)"
  using escape_one_clean by (auto simp: StringEscape_def)

lemma unescape_escape_one: "StringUnescape (escape_one c @ s) = (if c = 0 then [0x5c, 0x30] else [c]) @ StringUnescape s"
proof -
  show ?thesis
  proof (cases "c \<in> {0, 0x09, 0x0d, 0x0a, 0x5c, 0x3a, 0x20}")
    case True
    then show ?thesis by (auto simp: escape_one_def unescape_one_def)
  next
    case False
    then show ?thesis by (cases s) (simp_all add: escape_one_def)
  qed
qed

lemma unescape_escape: "StringUnescape (StringEscape s) = concat (map (\<lambda>c. if c = 0 then [0x5c, 0x30] else [c]) s)"
  by (induction s) (simp_all add: StringEscape_def unescape_escape_one)

lemma escaped_same: "StringUnescape (StringEscape s) = s \<longleftrightarrow> 0 \<notin> set s"
proof -
  let ?f = "\<lambda>c :: u8. if c = 0 then [0x5c, 0x30] else [c]"
  have "length s \<le> length (concat (map ?f s))" for s by (induction s) simp_all
  then have "concat (map ?f s) = s \<Longrightarrow> 0 \<notin> set s" for s
  proof (induction s)
    case (Cons c s)
    then show ?case by (cases "c = 0") simp_all
  qed simp
  moreover have "0 \<notin> set s \<Longrightarrow> concat (map ?f s) = s" by (induction s) auto
  ultimately show ?thesis unfolding unescape_escape by blast
qed

section \<open>Settings come back\<close>

lemma read_entries_word: "0x20 \<notin> set w \<Longrightarrow> read_entries word (w @ 0x20 # s) m = read_entries [] s (read_entry (word @ w) m)"
  by (induction w arbitrary: word) simp_all

lemma read_entry_pair: "0x3a \<notin> set k \<Longrightarrow> read_entry (k @ 0x3a # v) m = entry_set (StringUnescape k) (StringUnescape v) m"
proof -
  assume "0x3a \<notin> set k"
  then have "takeWhile (\<lambda>c. c \<noteq> 0x3a) (k @ 0x3a # v) = k" by (induction k) auto
  then show ?thesis by (simp add: read_entry_def)
qed

lemma entry_set_last: "\<forall>e \<in> set m. fst e < k \<Longrightarrow> entry_set k v m = m @ [(k, v)]"
  by (induction m) auto

lemma read_Serialize:
  "sorted_wrt (<) (map fst (m @ ms)) \<Longrightarrow> \<forall>(k, v) \<in> set ms. 0 \<notin> set k \<and> 0 \<notin> set v \<Longrightarrow>
    read_entries [] (Serialize ms) m = m @ ms"
proof (induction ms arbitrary: m)
  case Nil
  then show ?case by (simp add: Serialize_def read_entry_def)
next
  case (Cons e ms)
  obtain k v where e: "e = (k, v)" by (cases e)
  have u: "StringUnescape (StringEscape k) = k" "StringUnescape (StringEscape v) = v" using Cons.prems(2) e escaped_same by auto
  have "Serialize (e # ms) = (StringEscape k @ 0x3a # StringEscape v) @ 0x20 # Serialize ms" by (simp add: Serialize_def e)
  moreover have "0x20 \<notin> set (StringEscape k @ 0x3a # StringEscape v)" using StringEscape_clean(1) by simp
  ultimately have "read_entries [] (Serialize (e # ms)) m = read_entries [] (Serialize ms) (entry_set k v m)"
    using read_entries_word [of "StringEscape k @ 0x3a # StringEscape v" "[]" "Serialize ms" m] read_entry_pair [OF StringEscape_clean(2)] u by simp
  also have "entry_set k v m = m @ [e]" using entry_set_last [of m k v] Cons.prems(1) by (simp add: e sorted_wrt_append)
  finally show ?case using Cons.IH [of "m @ [e]"] Cons.prems by simp
qed

lemma entry_set_sorted: "sorted_wrt (<) (map fst m) \<Longrightarrow> sorted_wrt (<) (map fst (entry_set k v m)) \<and> set (entry_set k v m) \<subseteq> insert (k, v) (set m)"
proof (induction k v m rule: entry_set.induct)
  case (2 k v k' v' m)
  consider "k = k'" | "k < k'" | "k' < k" by (rule linorder_cases)
  then show ?case
  proof cases
    case 3
    then have "set (entry_set k v m) \<subseteq> insert (k, v) (set m)" "sorted_wrt (<) (map fst (entry_set k v m))" using 2 by auto
    then show ?thesis using 2(2) 3 by (auto dest: subsetD)
  qed (use 2 in \<open>auto intro: less_trans\<close>)
qed simp

lemma map_of_entry_set: "sorted_wrt (<) (map fst m) \<Longrightarrow> map_of (entry_set k v m) = (map_of m)(k \<mapsto> v)"
  by (induction k v m rule: entry_set.induct) (auto simp: fun_upd_twist)

lemma c_str_ToHex: "c_str (ToHex v) = ToHex v"
proof -
  have "c \<noteq> 0" if "c \<in> set (ToHex v)" for c using ToHex_digits(2) [OF that] nibbles by fastforce
  then show ?thesis by (simp add: c_str_def takeWhile_eq_all_conv)
qed

text \<open>
  C19. Settings survive their text form if they have no NUL, and only then: a string without one is its own escaped form
  unescaped, for one with a NUL the code gives another string, because it compares with the character 0 in place of
  the digit; a map of strings without NUL, kept in order by the operations, is read back whole; and every 64-bit number
  that was set is got.
\<close>

theorem settings_come_back:
  "(StringUnescape (StringEscape s) = s \<longleftrightarrow> 0 \<notin> set s) \<and>
   (sorted_wrt (<) (map fst m) \<longrightarrow>
     (\<forall>(k, v) \<in> set m. 0 \<notin> set k \<and> 0 \<notin> set v) \<longrightarrow> StringConfig (Serialize m) = m) \<and>
   (sorted_wrt (<) (map fst m) \<longrightarrow>
     sorted_wrt (<) (map fst (entry_set k v m)) \<and> map_of (entry_set k v m) = (map_of m)(k \<mapsto> v) \<and>
     sorted_wrt (<) (map fst (entry_delete k m)) \<and> map_of (entry_delete k m) = (map_of m)(k := None) \<and>
     GetHexULL k d (SetHexULL k n m) = n)"
proof -
  have "map_of (entry_delete k m) = (map_of m)(k := None)" unfolding entry_delete_def by (induction m) auto
  moreover have "sorted_wrt (<) (map fst m) \<Longrightarrow> sorted_wrt (<) (map fst (entry_delete k m))"
    unfolding entry_delete_def by (induction m) auto
  ultimately show ?thesis
    using escaped_same read_Serialize [of "[]" m] entry_set_sorted map_of_entry_set
    by (auto simp: StringConfig_def GetHexULL_def SetHexULL_def c_str_ToHex strtoull_ToHex)
qed

theorem settings_come_back_witness:
  "StringConfig (Serialize [([0x61, 0x3a], [0x20, 0x31]), ([0x62], [])]) = [([0x61, 0x3a], [0x20, 0x31]), ([0x62], [])] \<and>
   StringUnescape (StringEscape [0]) \<noteq> [0]"
proof -
  have "sorted_wrt (<) (map fst [([0x61 :: u8, 0x3a], [0x20 :: u8, 0x31]), ([0x62], [])])" by simp
  then show ?thesis
    using settings_come_back [of "[0]" "[([0x61, 0x3a], [0x20, 0x31]), ([0x62], [])]"] by auto
qed

end
