(* ===== verification/Spec2Isabelle.thy ===== *)
theory Spec2Isabelle
  imports Utf8Clean Utf8Find WineWc WineSort Bit64 IncLoop FileMasks FileView FileOut
    PosCache ConBuf Base64 StrConf
begin

text \<open>
  A verification of core parts of far2m, a file manager with an editor, plugins in Lua and a portability layer
  (sources under \<^verbatim>\<open>src/\<close>). The program is C and C++; every definition is a translation of a function, a
  loop, a structure or a constant of the sources and carries its name where Isabelle allows it.

  \<^bold>\<open>Conventions.\<close> Integers are words of their width (\<^theory_text>\<open>Prelude\<close>: \<open>u8\<close>, \<open>u16\<close>, \<open>u32\<close>, \<open>wchar\<close>) and wrap around; positions and
  lengths that the code keeps in \<^verbatim>\<open>size_t\<close> or \<^verbatim>\<open>int\<close> are \<open>nat\<close> or \<open>int\<close>, with the wrap-around
  written out where it can be met. A buffer is the list of its cells and a pointer a position in it; \<open>rd\<close> and \<open>wr\<close> check
  the position, and a result \<open>None\<close> (or the fault \<open>BadRead\<close> of \<open>lua_result\<close>) stands for an access outside: that a
  function returns \<open>Some\<close> is therefore the statement that it stays inside its memory. Loops are recursive functions with
  a measure; nothing is assumed to terminate. Code that the repository does not contain, or only generates (the C library, the
  kernel, tables of characters, \<^verbatim>\<open>std::sort\<close>, the double arithmetic of the processor), is an argument
  with its documented contract as a hypothesis, and every theorem with a hypothesis has a witness. The regular expressions
  of far (\<^verbatim>\<open>far/src/mix/RegExp.cpp\<close>) are part of the program and are not modelled: they are two partial functions of
  which nothing is known, and a claim that needs them to return says so.

  \<^bold>\<open>UTF-8 library of the Lua modules\<close> (\<^verbatim>\<open>luafar/src/lutf8lib.c\<close>). \<^theory_text>\<open>Utf8Codec\<close>: \<open>utf8_encode\<close>, \<open>utf8_decode\<close>; what is decoded is what
  the encoder writes. \<^theory_text>\<open>Utf8Valid\<close>, \<^theory_text>\<open>Utf8Clean\<close>: validation and \<open>utf8.clean\<close> against an abstract specification of maximal
  malformed runs. \<^theory_text>\<open>UniTables\<close>: binary search in the generated tables, equal to linear search on a table in order; one
  generated table is not, and traps. \<^theory_text>\<open>Utf8Nav\<close>, \<^theory_text>\<open>Utf8Api\<close>: the string functions as operations on lists of code points.
  \<^theory_text>\<open>Utf8Match\<close>, \<^theory_text>\<open>Utf8Find\<close>: the backtracking pattern matcher with its limit \<open>MAXCCALLS\<close> = 200 of nested calls, which is the
  recursion argument of the model as it is the counter of the code: a match returns or raises an error, and all its captures
  lie inside the subject. \<^theory_text>\<open>LuaValue\<close> has the results of a Lua C function. \<^theory_text>\<open>Bit64\<close> (\<^verbatim>\<open>luafar/src/bit64.c\<close>): boxed 64-bit
  integers on the stack of Lua, whose operations are those of the two's complement.

  \<^bold>\<open>Characters of WinPort\<close> (\<^verbatim>\<open>WinPort/wineguts\<close>). \<^theory_text>\<open>WineTables\<close>: code page tables and their lookup. \<^theory_text>\<open>WineCopy\<close>: the unrolled copy
  loop, decomposition (with the depth of the decomposition as fuel: a well-formed table has a rank that decreases, and the rank of
  the character is enough), and the locale \<open>length_query\<close>: a conversion called with no buffer returns the length that a
  second call needs. \<^theory_text>\<open>WineMb\<close> and \<^theory_text>\<open>WineWc\<close>, the two directions, are its interpretations; for one combination of flags,
  \<open>query_ignores_flags\<close>, the query of \<^theory_text>\<open>WineWc\<close> breaks the contract, and what it gives is stated instead. \<^theory_text>\<open>WineSort\<close>: sort keys and string
  comparison, which is lexicographic on the weights. \<^theory_text>\<open>StrMap\<close> (\<^verbatim>\<open>WinPort/src/APIStringMap.cpp\<close>, \<^verbatim>\<open>far/src/locale/locale.hpp\<close>) puts the
  functions of strings on top of it and shows that the comparisons are orders, through the locale \<open>three_way\<close>.

  \<^bold>\<open>Incremental search\<close> (plugin \<^verbatim>\<open>incsrch\<close> with the parts of the editor it calls). \<^theory_text>\<open>IncLoc\<close>: the substring search with its
  skip table. \<^theory_text>\<open>EdLine\<close>, \<^theory_text>\<open>EdControl\<close>: positions and cells of a line and the requests of the editor (\<^verbatim>\<open>far/src/edit.cpp\<close>, \<^verbatim>\<open>far/src/editor.cpp\<close>).
  \<^theory_text>\<open>IncInput\<close>: the state of the plugin, its arrays of fixed size, input and clipboard. \<^theory_text>\<open>IncFind\<close>: the search through the lines,
  whose fuel is the number of lines. \<^theory_text>\<open>IncLoop\<close>: the main loop as a step relation over the input events, its invariant and its
  termination; the fuel of a run is one more than the rank that every step decreases. A step that runs into undefined behaviour
  (a clipboard without text, a selection that ends before it begins) ends the run with the outcome \<open>Crashed\<close>.

  \<^bold>\<open>Names and lists of far\<close>. \<^theory_text>\<open>LocaleStr\<close> (\<^verbatim>\<open>far/src/locale/locale.cpp\<close>): string search and the natural order. \<^theory_text>\<open>PathMix\<close> (\<^verbatim>\<open>far/src/mix/pathmix.cpp\<close>):
  paths. \<^theory_text>\<open>ProcName\<close>, \<^theory_text>\<open>WildName\<close> (\<^verbatim>\<open>far/src/mix/processname.cpp\<close>): matching a name with a mask, whose meaning is a language, and making a
  name from a mask. \<^theory_text>\<open>UdList\<close> (\<^verbatim>\<open>far/src/mix/udlist.cpp\<close>): lists of items with quotes and separators. \<^theory_text>\<open>FileMasks\<close>
  (\<^verbatim>\<open>far/src/filemask\<close>, \<^verbatim>\<open>far/src/cfg/MaskGroups.cpp\<close>): sets of masks over these, with groups that refer to each other down to
  \<open>MAXCALLDEPTH\<close> = 64; the compilation and the search of regular expressions are arguments.

  \<^bold>\<open>File caches\<close> (\<^verbatim>\<open>far/src/cache.cpp\<close>). \<^theory_text>\<open>FileView\<close>: the buffered view refines the file; positions are below \<open>2 ^ 62\<close> and sizes below
  \<open>2 ^ 31\<close>, far above what a file has, so that the 64-bit sums do not wrap around. \<^theory_text>\<open>FileOut\<close>: what is written through the cache
  reaches the file in order.

  \<^bold>\<open>Key files\<close> (\<^verbatim>\<open>utils/src/KeyFileHelper.cpp\<close>, where far keeps its settings). \<^theory_text>\<open>KeyMap\<close>: the ordered maps of sections and of
  values as lists of entries, whose keys are compared with or without case; the locale \<open>dictionary\<close> has the laws that the
  callers of a dictionary use and is interpreted on them. \<^theory_text>\<open>KeyText\<close>: escapes and lines; the text of a section parses
  back to its values. \<^theory_text>\<open>KeyFile\<close>: loading, the operations, and saving in a file with its temporary copy. \<^theory_text>\<open>KeyOps\<close>: the
  operations refine those of a map from sections and names to values, a save that fails leaves the file as it was, and a
  save that succeeds reads back. \<^theory_text>\<open>KeyVals\<close> (with \<^verbatim>\<open>utils/src/IntStrConv.cpp\<close>): numbers and bytes as texts. \<^theory_text>\<open>KeyRead\<close>: the reader of
  one section sees what the reader of the whole file sees. \<^theory_text>\<open>PosCache\<close> (\<^verbatim>\<open>far/src/hist/poscache.cpp\<close>): the cache of positions of viewed and
  edited files, kept in a key file; the name of the section of a file is an argument.

  \<^bold>\<open>Screen buffer\<close> (\<^verbatim>\<open>WinPort/src/ConsoleBuffer.cpp\<close>). \<^theory_text>\<open>ConBuf\<close>: reading, writing and resizing of rectangles of cells; sizes are
  below \<open>2 ^ 15\<close>, as the coordinates are 16-bit.

  \<^bold>\<open>Texts of data\<close>. \<^theory_text>\<open>Base64\<close> (\<^verbatim>\<open>utils/src/base64.cpp\<close>): the encoder and the decoder. \<^theory_text>\<open>StrConf\<close> (\<^verbatim>\<open>utils/src/StringConfig.cpp\<close>): settings in one line.

  \<^bold>\<open>Not modelled\<close>: screens, dialogs, panels and the viewer (state of windows mixed with drawing and the message loop), file
  operations and network protocols (sequences of system calls around dialogs), the backends of WinPort, regular expressions, the interpreters and libraries
  that the repository only contains copies of, the generated tables (arguments here), and the number variants of some functions
  of \<^verbatim>\<open>lutf8lib.c\<close>.
\<close>

end
